(* ===== verification/Esq_Prelude.thy ===== *)
theory Esq_Prelude
  imports Main "HOL-Library.Word" "HOL-Library.Monad_Syntax"
begin

text \<open>
  Shared vocabulary of the development: bytes and C buffers with checked access, NUL-terminated
  strings, 256-entry classification tables, and the lemmas on them that the component theories use.

  A C buffer is a list of bytes whose length is the size of the allocation.  Every read and write
  of the code goes through \<open>rd\<close> and \<open>wr\<close>, which return \<open>None\<close> outside the allocation: a model
  function that returns \<open>Some\<close> has performed no out-of-bounds access, and theorems state so.
  Plain \<open>char\<close> is signed, as on the platform the project builds for: \<open>sint\<close> reads a byte as \<open>char\<close>,
  \<open>unat\<close> as \<open>unsigned char\<close>.
\<close>

unbundle bit_operations_syntax

named_theorems c_mem \<open>checked buffer accesses\<close>
named_theorems c_patch \<open>accesses to a buffer under rewriting\<close>
named_theorems c_str \<open>NUL-terminated strings\<close>
named_theorems tbl_simps \<open>table lookups, by specification\<close>

type_synonym byte = "8 word"
type_synonym u32 = "32 word"

section \<open>Return codes\<close>

definition ESQ_OK :: int where "ESQ_OK = 0"
definition ESQ_ERROR_PARAM :: int where "ESQ_ERROR_PARAM = -1"
definition ESQ_ERROR_MEMORY :: int where "ESQ_ERROR_MEMORY = -2"
definition ESQ_ERROR_NOTFOUND :: int where "ESQ_ERROR_NOTFOUND = -4"
definition ESQ_ERROR_CLOSE :: int where "ESQ_ERROR_CLOSE = -7"
definition ESQ_ERROR_BUSY :: int where "ESQ_ERROR_BUSY = -9"
definition ESQ_ERROR_DEAD_LOCK :: int where "ESQ_ERROR_DEAD_LOCK = -10"

lemmas esq_codes = ESQ_OK_def ESQ_ERROR_PARAM_def ESQ_ERROR_MEMORY_def ESQ_ERROR_NOTFOUND_def ESQ_ERROR_CLOSE_def
  ESQ_ERROR_BUSY_def ESQ_ERROR_DEAD_LOCK_def

section \<open>Bytes and character constants\<close>

abbreviation ch :: "char \<Rightarrow> byte" where
  "ch c \<equiv> of_char c"

definition bytes :: "string \<Rightarrow> byte list" where
  "bytes s = map of_char s"

lemma bytes_simps [simp]:
  "bytes [] = []" "bytes (c # s) = of_char c # bytes s" "length (bytes s) = length s"
  "bytes (s @ t) = bytes s @ bytes t"
  by (simp_all add: bytes_def)

lemma byte_less_256 [simp]: "unat (b :: byte) < 256"
  using unsigned_less [of b] by simp

lemma byte_eq_of_nat: "(b :: byte) = of_nat (unat b)"
  by simp

section \<open>Checked buffer access\<close>

definition rd :: "'a list \<Rightarrow> nat \<Rightarrow> 'a option" where
  "rd b i = (if i < length b then Some (b ! i) else None)"

definition wr :: "'a list \<Rightarrow> nat \<Rightarrow> 'a \<Rightarrow> 'a list option" where
  "wr b i v = (if i < length b then Some (b[i := v]) else None)"

lemma rd_in [c_mem]: "i < length b \<Longrightarrow> rd b i = Some (b ! i)"
  by (simp add: rd_def)

lemma wr_in [c_mem]: "i < length b \<Longrightarrow> wr b i v = Some (b[i := v])"
  by (simp add: wr_def)

lemma rd_SomeD: "rd b i = Some v \<Longrightarrow> i < length b \<and> b ! i = v"
  by (simp add: rd_def split: if_splits)

lemma wr_SomeD: "wr b i v = Some b' \<Longrightarrow> i < length b \<and> b' = b[i := v]"
  by (auto simp: wr_def split: if_splits)

text \<open>
  The buffer of an in-place rewriting loop that has written the prefix \<open>ds\<close> and not yet touched
  the rest of the original contents \<open>b\<close>.
\<close>

definition patched :: "'a list \<Rightarrow> 'a list \<Rightarrow> 'a list" where
  "patched ds b = ds @ drop (length ds) b"

lemma patched_Nil [simp]: "patched [] b = b"
  by (simp add: patched_def)

lemma length_patched [simp]: "length ds \<le> length b \<Longrightarrow> length (patched ds b) = length b"
  by (simp add: patched_def)

lemma rd_patched [c_patch]: "length ds \<le> i \<Longrightarrow> i < length b \<Longrightarrow> rd (patched ds b) i = Some (b ! i)"
  by (simp add: rd_def patched_def nth_append)

lemma wr_patched [c_patch]:
  "length ds < length b \<Longrightarrow> wr (patched ds b) (length ds) v = Some (patched (ds @ [v]) b)"
  by (simp add: wr_def patched_def list_update_append Cons_nth_drop_Suc [symmetric])

lemma take_patched [simp]: "take (length ds) (patched ds b) = ds"
  by (simp add: patched_def)

lemma drop_take_Cons:
  "i < l \<Longrightarrow> l \<le> length b \<Longrightarrow> drop i (take l b) = b ! i # drop (Suc i) (take l b)"
  by (simp add: Cons_nth_drop_Suc [symmetric])

section \<open>NUL-terminated strings\<close>

definition cstr :: "byte list \<Rightarrow> byte list" where
  "cstr b = takeWhile (\<lambda>c. c \<noteq> 0) b"

definition has_nul :: "byte list \<Rightarrow> bool" where
  "has_nul b \<longleftrightarrow> 0 \<in> set b"

text \<open>\<open>strnlen\<close> looks at no more than \<open>n\<close> bytes; \<open>None\<close> when it would leave the buffer.\<close>

fun strnlen_at :: "byte list \<Rightarrow> nat \<Rightarrow> nat \<Rightarrow> nat option" where
  "strnlen_at b i 0 = Some i"
| "strnlen_at b i (Suc n) =
     do { c \<leftarrow> rd b i; if c = 0 then Some i else strnlen_at b (Suc i) n }"

definition strnlen :: "byte list \<Rightarrow> nat \<Rightarrow> nat option" where
  "strnlen b n = strnlen_at b 0 n"

lemma cstr_no_nul [c_str]: "c \<in> set (cstr b) \<Longrightarrow> c \<noteq> 0"
  using set_takeWhileD by (fastforce simp: cstr_def)

lemma has_nul_length_cstr [c_str]: "has_nul b \<Longrightarrow> length (cstr b) < length b"
  unfolding cstr_def has_nul_def
  by (induction b) auto

lemma has_nul_nth_cstr [c_str]: "has_nul b \<Longrightarrow> b ! length (cstr b) = 0"
  unfolding has_nul_def cstr_def
  by (induction b) auto

lemma nth_cstr [c_str]: "i < length (cstr b) \<Longrightarrow> b ! i = cstr b ! i"
  by (simp add: cstr_def takeWhile_nth)

lemma nth_cstr_neq0 [c_str]: "i < length (cstr b) \<Longrightarrow> b ! i \<noteq> 0"
  by (metis cstr_no_nul nth_cstr nth_mem)

lemma cstr_take: "take (length (cstr b)) b = cstr b"
  by (simp add: cstr_def flip: takeWhile_eq_take)

lemma cstr_append_nul [simp]: "0 \<notin> set s \<Longrightarrow> cstr (s @ 0 # r) = s"
  by (induction s) (auto simp: cstr_def)

lemma has_nul_append_nul [simp]: "has_nul (s @ 0 # r)"
  by (simp add: has_nul_def)

lemma has_nul_split: "has_nul b \<Longrightarrow> \<exists>r. b = cstr b @ 0 # r"
  by (metis cstr_take has_nul_length_cstr has_nul_nth_cstr id_take_nth_drop)

lemma strnlen_at_cstr:
  assumes "has_nul b" and "i \<le> length (cstr b)"
  shows "strnlen_at b i n = Some (min (i + n) (length (cstr b)))"
  using assms
proof (induction n arbitrary: i)
  case (Suc n)
  have bound: "i < length b"
    using Suc.prems has_nul_length_cstr [of b] by linarith
  show ?case
  proof (cases "i = length (cstr b)")
    case True
    then show ?thesis using Suc.prems bound by (simp add: c_mem c_str)
  next
    case False
    then have "i < length (cstr b)" using Suc.prems by simp
    then show ?thesis using Suc bound by (auto simp: c_mem nth_cstr_neq0)
  qed
qed simp

lemma strnlen_cstr [c_str]: "has_nul b \<Longrightarrow> strnlen b n = Some (min n (length (cstr b)))"
  by (simp add: strnlen_def strnlen_at_cstr)

section \<open>Classification tables\<close>

text \<open>
  Most scanners of the code dispatch on a constant 256-entry table indexed by the byte read.
  The interface they rely on: the table is total on bytes and agrees with a specification.
\<close>

locale byte_table =
  fixes tbl :: "'v list" and spec :: "nat \<Rightarrow> 'v"
  assumes tbl_eq: "tbl = map spec [0..<256]"
begin

lemma tbl_length: "length tbl = 256"
  by (simp add: tbl_eq)

lemma tbl_at: "tbl ! unat (b :: byte) = spec (unat b)"
  by (simp add: tbl_eq)

lemma tbl_rd: "rd tbl (unat (b :: byte)) = Some (spec (unat b))"
  by (simp add: rd_def tbl_eq)

end

section \<open>Scanning loops\<close>

text \<open>
  The \<^verbatim>\<open>for (i = 0; i < len; i ++) { c = buf[i]; ... }\<close> loop that the table-driven scanners share:
  \<open>step\<close> is the body, which leaves the loop with a result (\<open>Inl\<close>) or goes on with a new state (\<open>Inr\<close>),
  \<open>fin\<close> is what follows the loop.  \<open>scan_list\<close> is the same loop on the bytes still to be read.
\<close>

function scan :: "('s \<Rightarrow> nat \<Rightarrow> byte \<Rightarrow> ('r + 's) option) \<Rightarrow> ('s \<Rightarrow> nat \<Rightarrow> 'r option) \<Rightarrow>
    byte list \<Rightarrow> int \<Rightarrow> nat \<Rightarrow> 's \<Rightarrow> 'r option" where
  "scan step fin buf len i st =
     (if int i < len then
        do {
          c \<leftarrow> rd buf i;
          x \<leftarrow> step st i c;
          (case x of Inl r \<Rightarrow> Some r | Inr st' \<Rightarrow> scan step fin buf len (i + 1) st')
        }
      else fin st i)"
  by pat_completeness auto
termination
  by (relation "measure (\<lambda>(step, fin, buf, len, i, st). nat (len - int i))") auto

declare scan.simps [simp del]

fun scan_list :: "('s \<Rightarrow> nat \<Rightarrow> byte \<Rightarrow> ('r + 's) option) \<Rightarrow> ('s \<Rightarrow> nat \<Rightarrow> 'r option) \<Rightarrow>
    nat \<Rightarrow> 's \<Rightarrow> byte list \<Rightarrow> 'r option" where
  "scan_list step fin i st [] = fin st i"
| "scan_list step fin i st (c # r) =
     do {
       x \<leftarrow> step st i c;
       (case x of Inl res \<Rightarrow> Some res | Inr st' \<Rightarrow> scan_list step fin (Suc i) st' r)
     }"

lemma scan_eq_list:
  assumes "len \<le> length buf" and "i \<le> len"
  shows "scan step fin buf (int len) i st = scan_list step fin i st (drop i (take len buf))"
  using assms
proof (induction "len - i" arbitrary: i st rule: less_induct)
  case less
  show ?case
  proof (cases "i < len")
    case True
    have IH: "scan step fin buf (int len) (Suc i) = (\<lambda>st'. scan_list step fin (Suc i) st' (drop (Suc i) (take len buf)))"
      using less.hyps [of "Suc i"] less.prems True by (intro ext) simp
    have "drop i (take len buf) = buf ! i # drop (Suc i) (take len buf)"
      using True less.prems by (simp add: drop_take_Cons)
    then show ?thesis
      using True less.prems by (simp add: scan.simps [of step fin buf _ i] rd_in IH)
  next
    case False
    then show ?thesis using less.prems by (simp add: scan.simps [of step fin buf "int len" len])
  qed
qed

text \<open>Signed 32-bit arithmetic of the code: \<open>None\<close> on overflow, which C leaves undefined.\<close>

definition i32 :: "int \<Rightarrow> int option" where
  "i32 x = (if - (2 ^ 31) \<le> x \<and> x < 2 ^ 31 then Some x else None)"

text \<open>The value of an \<^verbatim>\<open>int\<close> that wraps around, for the places where the code tests for it or narrows a wider integer.\<close>

definition wrap32 :: "int \<Rightarrow> int" where
  "wrap32 i = (i + 2 ^ 31) mod 2 ^ 32 - 2 ^ 31"

lemma wrap32_range: "- (2 ^ 31) \<le> wrap32 x" "wrap32 x < 2 ^ 31"
  unfolding wrap32_def by simp_all

lemma wrap32_id: "- (2 ^ 31) \<le> x \<Longrightarrow> x < 2 ^ 31 \<Longrightarrow> wrap32 x = x"
  by (simp add: wrap32_def)

end
