(* ===== verification/Esq_Slash.thy ===== *)
theory Esq_Slash
  imports Esq_Prelude
begin

text \<open>
  Path separator utilities: \<^verbatim>\<open>libs/find-last-slash/find-last-slash.c\<close> and
  \<^verbatim>\<open>libs/remove-redundancy-slash/remove-redundancy-slash.c\<close>.  Both treat slash and backslash as
  separators.  The second rewrites its NUL-terminated argument in place with a two-state machine;
  its reference is a structural function on byte lists.
\<close>

definition is_slash :: "byte \<Rightarrow> bool" where
  "is_slash c \<longleftrightarrow> c = ch CHR ''/'' \<or> c = 0x5C"

section \<open>find_last_slash\<close>

function find_last_slash_loop :: "byte list \<Rightarrow> nat \<Rightarrow> int \<Rightarrow> int option" where
  "find_last_slash_loop b i p =
     (case rd b i of
        None \<Rightarrow> None
      | Some c \<Rightarrow>
          if c \<noteq> 0 then find_last_slash_loop b (i + 1) (if is_slash c then int i else p)
          else Some p)"
  by pat_completeness auto
termination
  by (relation "measure (\<lambda>(b, i, p). length b - i)") (auto dest: rd_SomeD)

declare find_last_slash_loop.simps [simp del]

definition find_last_slash :: "byte list \<Rightarrow> int option" where
  "find_last_slash b = find_last_slash_loop b 0 (-1)"

function find_last_slash2_loop :: "byte list \<Rightarrow> int \<Rightarrow> nat \<Rightarrow> int \<Rightarrow> int option" where
  "find_last_slash2_loop b len i p =
     (if int i < len then
        do {
          c \<leftarrow> rd b i;
          find_last_slash2_loop b len (i + 1) (if is_slash c then int i else p)
        }
      else Some p)"
  by pat_completeness auto
termination
  by (relation "measure (\<lambda>(b, len, i, p). nat (len - int i))") auto

declare find_last_slash2_loop.simps [simp del]

definition find_last_slash2 :: "byte list \<Rightarrow> int \<Rightarrow> int option" where
  "find_last_slash2 b len = find_last_slash2_loop b len 0 (-1)"

text \<open>Reference: the position of the last separator of a byte list, \<open>-1\<close> when there is none.\<close>

definition last_slash_at :: "byte list \<Rightarrow> int \<Rightarrow> bool" where
  "last_slash_at s r \<longleftrightarrow>
     (r = -1 \<and> (\<forall>c \<in> set s. \<not> is_slash c)) \<or>
     (0 \<le> r \<and> r < int (length s) \<and> is_slash (s ! nat r) \<and> (\<forall>j. nat r < j \<longrightarrow> j < length s \<longrightarrow> \<not> is_slash (s ! j)))"

lemma last_slash_at_take_Suc:
  assumes "last_slash_at (take i s) p" and "i < length s"
  shows "last_slash_at (take (Suc i) s) (if is_slash (s ! i) then int i else p)"
  using assms by (auto simp: last_slash_at_def take_Suc_conv_app_nth nth_append less_Suc_eq)

lemma find_last_slash_loop_correct:
  assumes "has_nul b" "i \<le> length (cstr b)" "last_slash_at (take i (cstr b)) p"
  shows "\<exists>r. find_last_slash_loop b i p = Some r \<and> last_slash_at (cstr b) r"
  using assms
proof (induction "length (cstr b) - i" arbitrary: i p rule: less_induct)
  case less
  have bound: "i < length b" using less.prems has_nul_length_cstr [of b] by linarith
  show ?case
  proof (cases "i = length (cstr b)")
    case True
    then show ?thesis
      using less.prems bound
      by (simp add: find_last_slash_loop.simps [of b "length (cstr b)"] rd_in has_nul_nth_cstr)
  next
    case False
    then have i: "i < length (cstr b)" using less.prems by simp
    have "find_last_slash_loop b i p = find_last_slash_loop b (Suc i) (if is_slash (cstr b ! i) then int i else p)"
      using i bound nth_cstr_neq0 [OF i] nth_cstr [OF i]
      by (simp add: find_last_slash_loop.simps [of b i] rd_in)
    moreover have "last_slash_at (take (Suc i) (cstr b)) (if is_slash (cstr b ! i) then int i else p)"
      using less.prems i by (simp only: last_slash_at_take_Suc)
    ultimately show ?thesis using less.hyps [of "Suc i"] less.prems i by simp
  qed
qed

lemma find_last_slash2_loop_correct:
  assumes "len \<le> length b" "i \<le> len" "last_slash_at (take i b) p"
  shows "\<exists>r. find_last_slash2_loop b (int len) i p = Some r \<and> last_slash_at (take len b) r"
  using assms
proof (induction "len - i" arbitrary: i p rule: less_induct)
  case less
  show ?case
  proof (cases "i = len")
    case True
    then show ?thesis using less.prems by (simp add: find_last_slash2_loop.simps [of b "int len"])
  next
    case False
    then have "find_last_slash2_loop b (int len) i p
        = find_last_slash2_loop b (int len) (Suc i) (if is_slash (b ! i) then int i else p)"
      using less.prems by (simp add: find_last_slash2_loop.simps [of b "int len" i] rd_in)
    with last_slash_at_take_Suc [OF less.prems(3)] show ?thesis
      using False less.hyps [of "Suc i"] less.prems by simp
  qed
qed

lemma last_slash_at_Nil [simp]: "last_slash_at [] (-1)"
  by (simp add: last_slash_at_def)

section \<open>remove_redundancy_slash\<close>

datatype slash_state = S_INIT | S_AFTER_SLASH

function rrs_loop :: "byte list \<Rightarrow> slash_state \<Rightarrow> nat \<Rightarrow> nat \<Rightarrow> (nat \<times> byte list) option" where
  "rrs_loop b s i o' =
     (case rd b i of
        None \<Rightarrow> None
      | Some c \<Rightarrow>
          if is_slash c then rrs_loop b (if s = S_INIT then S_AFTER_SLASH else s) (i + 1) o'
          else if c = 0 then Some (o', b)
          else if s = S_INIT then
            (case wr b o' c of None \<Rightarrow> None | Some b1 \<Rightarrow> rrs_loop b1 s (i + 1) (o' + 1))
          else
            (case wr b o' (ch CHR ''/'') of None \<Rightarrow> None
             | Some b1 \<Rightarrow> (case wr b1 (o' + 1) c of None \<Rightarrow> None
                | Some b2 \<Rightarrow> rrs_loop b2 S_INIT (i + 1) (o' + 2))))"
  by pat_completeness auto
termination
  by (relation "measure (\<lambda>(b, s, i, o'). length b - i)") (auto dest!: wr_SomeD rd_SomeD)

declare rrs_loop.simps [simp del]

definition remove_redundancy_slash :: "byte list \<Rightarrow> (int \<times> byte list) option" where
  "remove_redundancy_slash b =
     do { (o', b') \<leftarrow> rrs_loop b S_INIT 0 0; b'' \<leftarrow> wr b' o' 0; Some (int o', b'') }"

text \<open>Reference: emit one slash in front of a name that follows separators, drop trailing ones.\<close>

fun squeeze :: "bool \<Rightarrow> byte list \<Rightarrow> byte list" where
  "squeeze pending [] = []"
| "squeeze pending (c # r) =
     (if is_slash c then squeeze True r
      else (if pending then [ch CHR ''/''] else []) @ c # squeeze False r)"

text \<open>The names a path consists of, between separators.\<close>

definition flush :: "byte list \<Rightarrow> byte list list" where
  "flush cur = (if cur = [] then [] else [cur])"

fun path_names :: "byte list \<Rightarrow> byte list \<Rightarrow> byte list list" where
  "path_names cur [] = flush cur"
| "path_names cur (c # r) =
     (if is_slash c then flush cur @ path_names [] r else path_names (cur @ [c]) r)"

lemma is_slash_simps [simp]: "is_slash 0x2F" "is_slash 0x5C" "\<not> is_slash 0"
  by (simp_all add: is_slash_def)

lemma rrs_loop_refines:
  assumes "has_nul b" "i \<le> length (cstr b)"
    and "length ds + (if s = S_AFTER_SLASH then 1 else 0) \<le> i"
  shows "rrs_loop (patched ds b) s i (length ds) =
           (let t = ds @ squeeze (s = S_AFTER_SLASH) (drop i (cstr b)) in Some (length t, patched t b))"
  using assms
proof (induction "length (cstr b) - i" arbitrary: i s ds rule: less_induct)
  case less
  have ib: "i < length b" using less.prems has_nul_length_cstr [of b] by linarith
  then have rd: "rd (patched ds b) i = Some (b ! i)"
    using less.prems by (simp add: rd_patched split: if_splits)
  show ?case
  proof (cases "i = length (cstr b)")
    case True
    then show ?thesis
      using rd less.prems by (simp add: rrs_loop.simps [of "patched ds b"] has_nul_nth_cstr)
  next
    case False
    then have i: "i < length (cstr b)" using less.prems by simp
    then have rest: "drop i (cstr b) = b ! i # drop (Suc i) (cstr b)"
      by (simp add: Cons_nth_drop_Suc nth_cstr)
    have c0: "b ! i \<noteq> 0" using i by (rule nth_cstr_neq0)
    consider "is_slash (b ! i)" | "\<not> is_slash (b ! i)" "s = S_INIT" | "\<not> is_slash (b ! i)" "s = S_AFTER_SLASH"
      by (cases s) auto
    then show ?thesis
    proof cases
      case 1
      with less.hyps [of "Suc i" ds S_AFTER_SLASH] i rd less.prems show ?thesis
        by (cases s) (simp_all add: rrs_loop.simps [of "patched ds b"] rest)
    next
      case 2
      with less.hyps [of "Suc i" "ds @ [b ! i]" S_INIT] i ib rd c0 less.prems show ?thesis
        by (simp add: rrs_loop.simps [of "patched ds b"] rest wr_patched)
    next
      case 3
      have "wr (patched (ds @ [ch CHR ''/'']) b) (Suc (length ds)) v
          = Some (patched (ds @ [ch CHR ''/'', v]) b)" for v
        using wr_patched [of "ds @ [ch CHR ''/'']" b v] 3 ib less.prems by simp
      with 3 less.hyps [of "Suc i" "ds @ [ch CHR ''/'', b ! i]" S_INIT] i ib rd c0 less.prems show ?thesis
        by (simp add: rrs_loop.simps [of "patched ds b"] rest wr_patched)
    qed
  qed
qed

lemma squeeze_length:
  "length (squeeze False s) \<le> length s \<and> length (squeeze True s) \<le> Suc (length s)"
  by (induction s) auto

lemma squeeze_names:
  "path_names cur (squeeze p s) = (if p then flush cur @ path_names [] s else path_names cur s)"
  by (induction s arbitrary: cur p) (auto simp: flush_def)

lemma squeeze_only_slash: "c \<in> set (squeeze p s) \<Longrightarrow> is_slash c \<Longrightarrow> c = ch CHR ''/''"
  by (induction s arbitrary: p) (auto split: if_splits)

lemma squeeze_last: "squeeze p s \<noteq> [] \<Longrightarrow> \<not> is_slash (last (squeeze p s))"
  by (induction s arbitrary: p) (auto split: if_splits)

text \<open>No two separators in a row, and none at the end: what the rewriting establishes.\<close>

fun single_slashes :: "byte list \<Rightarrow> bool" where
  "single_slashes (a # b # r) \<longleftrightarrow> \<not> (is_slash a \<and> is_slash b) \<and> single_slashes (b # r)"
| "single_slashes [a] \<longleftrightarrow> \<not> is_slash a"
| "single_slashes [] \<longleftrightarrow> True"

lemma single_slashes_Cons:
  "\<not> is_slash a \<Longrightarrow> single_slashes (a # r) \<longleftrightarrow> single_slashes r"
  by (cases r) auto

lemma squeeze_single: "single_slashes (squeeze p s)"
  by (induction s arbitrary: p) (auto simp: single_slashes_Cons)

lemma single_slashes_squeeze_id:
  "single_slashes s \<Longrightarrow> (\<forall>c \<in> set s. is_slash c \<longrightarrow> c = ch CHR ''/'') \<Longrightarrow> squeeze False s = s"
  by (induction s rule: single_slashes.induct) auto

lemma squeeze_idem: "squeeze False (squeeze p s) = squeeze p s"
  using squeeze_single squeeze_only_slash by (blast intro: single_slashes_squeeze_id)

lemma squeeze_set: "c \<in> set (squeeze p s) \<Longrightarrow> c = ch CHR ''/'' \<or> c \<in> set s"
  by (induction s arbitrary: p) (auto split: if_splits)

lemma rrs_result:
  assumes "has_nul b"
  shows "remove_redundancy_slash b =
           (let t = squeeze False (cstr b) in Some (int (length t), t @ 0 # drop (Suc (length t)) b))"
proof -
  let ?t = "squeeze False (cstr b)"
  have "length ?t < length b"
    using squeeze_length [of "cstr b"] has_nul_length_cstr [OF assms] by simp
  then have "wr (patched ?t b) (length ?t) 0 = Some (?t @ 0 # drop (Suc (length ?t)) b)"
    by (simp add: wr_patched) (simp add: patched_def)
  then show ?thesis
    using rrs_loop_refines [OF assms, of 0 "[]" S_INIT]
    by (simp add: remove_redundancy_slash_def Let_def)
qed

section \<open>Properties\<close>

text \<open>
  C35.  \<open>find_last_slash\<close> on a NUL-terminated string and \<open>find_last_slash2\<close> on a counted one return,
  without leaving the buffer, the index of the last separator, or \<open>-1\<close> when there is none.
\<close>

theorem find_last_slash_correct:
  assumes "has_nul b" and "len \<le> length b"
  shows "(\<exists>r. find_last_slash b = Some r \<and> last_slash_at (cstr b) r) \<and>
         (\<exists>r. find_last_slash2 b (int len) = Some r \<and> last_slash_at (take len b) r)"
  using find_last_slash_loop_correct [OF assms(1), of 0 "-1"]
    find_last_slash2_loop_correct [OF assms(2), of 0 "-1"]
  by (simp add: find_last_slash_def find_last_slash2_def)

theorem find_last_slash_correct_witness:
  "(\<exists>r. find_last_slash (bytes ''/a/b'' @ [0]) = Some r \<and> last_slash_at (bytes ''/a/b'') r) \<and>
   (\<exists>r. find_last_slash2 (bytes ''/a/b'' @ [0]) 2 = Some r \<and> last_slash_at (bytes ''/a'') r)"
  using find_last_slash_correct [of "bytes ''/a/b'' @ [0]" 2]
  by (simp add: has_nul_def cstr_def)

text \<open>
  C34.  \<open>remove_redundancy_slash\<close> on a NUL-terminated path stays inside the buffer and leaves there,
  NUL-terminated, the squeezed path, whose length it returns; the rest of the buffer is unchanged.
\<close>

theorem remove_redundancy_slash_correct:
  assumes "has_nul b"
  shows "remove_redundancy_slash b =
           (let t = squeeze False (cstr b) in Some (int (length t), t @ 0 # drop (Suc (length t)) b))"
  using assms by (rule rrs_result)

theorem remove_redundancy_slash_correct_witness:
  "remove_redundancy_slash (bytes ''//a/b///'' @ [0]) = Some (4, bytes ''/a/b'' @ 0 # bytes ''///'' @ [0])"
  using remove_redundancy_slash_correct [of "bytes ''//a/b///'' @ [0]"]
  by (simp add: has_nul_def cstr_def is_slash_def)

text \<open>
  The path left in the buffer is in normal form and means the same: it has the names of the
  original path in the same order, has no two separators in a row and none at the end, and running
  the function on its own result changes nothing.
\<close>

lemma remove_redundancy_slash_normal_form:
  assumes "has_nul b"
  shows "\<exists>t b'. remove_redundancy_slash b = Some (int (length t), b') \<and> cstr b' = t \<and> length b' = length b \<and>
           path_names [] t = path_names [] (cstr b) \<and> single_slashes t \<and>
           remove_redundancy_slash b' = Some (int (length t), b')"
proof -
  let ?t = "squeeze False (cstr b)"
  let ?b = "?t @ 0 # drop (Suc (length ?t)) b"
  have len: "length ?t < length b"
    using squeeze_length [of "cstr b"] has_nul_length_cstr [OF assms] by simp
  have "0 \<notin> set ?t" using squeeze_set [of 0 False "cstr b"] cstr_no_nul [of 0 b] by auto
  then have "cstr ?b = ?t" by simp
  then show ?thesis
    using rrs_result [OF assms] rrs_result [of ?b] len
    by (intro exI [of _ ?t] exI [of _ ?b]) (simp add: Let_def squeeze_names squeeze_single squeeze_idem)
qed

end
