(* ===== verification/Esq_Utf8.thy ===== *)
theory Esq_Utf8
  imports Esq_Prelude
begin

text \<open>
  The UTF-8 reader of \<^verbatim>\<open>libs/utf8-to-unicode/utf8-to-unicode.c\<close>.  The code reads plain (signed)
  \<open>char\<close>s into an \<open>unsigned int\<close>, so bytes above 127 are sign-extended to 32 bits before the masks
  are applied; the model keeps that conversion.  The reference is the standard encoder.
\<close>

section \<open>The model\<close>

text \<open>
  The loop over the continuation bytes: \<open>None\<close> for a read outside the buffer, \<open>Some None\<close> for the
  error return inside the loop, otherwise the accumulated code.
\<close>

function utf8_tail :: "byte list \<Rightarrow> nat \<Rightarrow> nat \<Rightarrow> nat \<Rightarrow> u32 \<Rightarrow> u32 option option" where
  "utf8_tail buf off i l code =
     (if i < l then
        (case rd buf (off + i) of
           None \<Rightarrow> None
         | Some b \<Rightarrow>
             (let c = (scast b :: u32) in
              if c AND 0xc0 = 0x80 then utf8_tail buf off (i + 1) l (push_bit 6 code + (c AND 0x3f))
              else Some None))
      else Some (Some code))"
  by pat_completeness auto
termination
  by (relation "measure (\<lambda>(buf, off, i, l, code). l - i)") auto

declare utf8_tail.simps [simp del]

text \<open>The return value, and the value stored through \<open>codep\<close> when there is one.\<close>

definition get_code_from_utf8 :: "byte list \<Rightarrow> nat \<Rightarrow> (int \<times> u32 option) option" where
  "get_code_from_utf8 buf off =
     do {
       b \<leftarrow> rd buf off;
       let c = (scast b :: u32);
       (if 0x80 AND c = 0 then Some (1, Some c)
        else
          (let lead =
             (if 0x40 AND c = 0 then None
              else if 0x20 AND c = 0 then Some (2, c AND 0x1f)
              else if 0x10 AND c = 0 then Some (3, c AND 0x0f)
              else if 0x08 AND c = 0 then Some (4, c AND 0x07)
              else None)
           in case lead of
                None \<Rightarrow> Some (-1, None)
              | Some (l, code) \<Rightarrow>
                  if code = 0 then Some (-1, None)
                  else do {
                    res \<leftarrow> utf8_tail buf off 1 l code;
                    (case res of None \<Rightarrow> Some (-1, None) | Some code' \<Rightarrow> Some (int l, Some code'))
                  }))
     }"

section \<open>The reference encoder\<close>

definition utf8_cont :: "nat \<Rightarrow> byte" where
  "utf8_cont n = of_nat (128 + n mod 64)"

definition utf8_encode :: "nat \<Rightarrow> byte list" where
  "utf8_encode cp =
     (if cp < 0x80 then [of_nat cp]
      else if cp < 0x800 then [of_nat (192 + cp div 64), utf8_cont cp]
      else if cp < 0x10000 then [of_nat (224 + cp div 4096), utf8_cont (cp div 64), utf8_cont cp]
      else [of_nat (240 + cp div 262144), utf8_cont (cp div 4096), utf8_cont (cp div 64), utf8_cont cp])"

text \<open>The code points whose encoding the reader accepts.\<close>

definition utf8_accepts :: "nat \<Rightarrow> bool" where
  "utf8_accepts cp \<longleftrightarrow> cp < 0x800 \<or> 0x1000 \<le> cp \<and> cp < 0x10000 \<or> 0x40000 \<le> cp"

section \<open>Masks on sign-extended bytes\<close>

lemma scast_and:
  assumes "m < 256"
  shows "(scast (b :: byte) :: u32) AND of_nat m = of_nat (unat b AND m)"
proof (rule bit_word_eqI)
  fix n assume n: "n < LENGTH(32)"
  from assms have "take_bit 8 m = m" by (simp add: take_bit_nat_eq_self_iff)
  then have "bit m n \<Longrightarrow> n < 8" by (metis bit_take_bit_iff)
  then show "bit ((scast b :: u32) AND of_nat m) n \<longleftrightarrow> bit (of_nat (unat b AND m) :: u32) n"
    using n by (cases "n = 7") (auto simp: bit_and_iff bit_signed_iff bit_of_nat_iff bit_unsigned_iff min_def)
qed

lemma bit_scast: "k < 8 \<Longrightarrow> bit (scast (b :: byte) :: u32) k \<longleftrightarrow> odd (unat b div 2 ^ k)"
  using bit_iff_odd [of "unat b" k]
  by (cases "k = 7") (auto simp: bit_signed_iff min_def bit_unsigned_iff)

lemma even_div_block:
  fixes n :: nat
  assumes "d * q \<le> n" "n < d * (q + 2)" "even q"
  shows "even (n div d) = (n < d * Suc q)"
proof (cases "n < d * Suc q")
  case True
  then have "n div d = q" using assms by (intro div_nat_eqI) (simp_all add: mult.commute)
  then show ?thesis using True assms by simp
next
  case False
  then have "n div d = Suc q" using assms by (intro div_nat_eqI) (simp_all add: mult.commute)
  then show ?thesis using False assms by simp
qed

lemma scast_and_bit:
  "k < 8 \<Longrightarrow> (2 ^ k AND (scast (b :: byte) :: u32) = 0) = even (unat b div 2 ^ k)"
  using and_exp_eq_0_iff_not_bit [of "scast b :: u32" k] bit_scast [of k b]
  by (simp add: and.commute [of "2 ^ k"])

lemma scast_and_mask:
  assumes "k \<le> 8"
  shows "(scast (b :: byte) :: u32) AND of_nat (2 ^ k - 1) = of_nat (unat b mod 2 ^ k)"
proof -
  have "(2::nat) ^ k \<le> 2 ^ 8" using assms by (rule power_increasing) simp
  then have "(2::nat) ^ k - 1 < 256" by simp
  then show ?thesis
    using scast_and [of "2 ^ k - 1" b] take_bit_eq_mask [of k "unat b", symmetric]
    by (simp add: mask_eq_exp_minus_1 take_bit_eq_mod)
qed

lemma nat_and_192: assumes "n < 256" shows "(n::nat) AND 192 = 64 * (n div 64)"
proof -
  have "drop_bit 6 (n AND 192) = n div 64 AND 3"
    by (simp only: drop_bit_and) (simp add: drop_bit_eq_div)
  also have "\<dots> = n div 64 mod 4"
    using take_bit_eq_mask [of 2 "n div 64", symmetric] by (simp add: mask_eq_exp_minus_1 take_bit_eq_mod)
  also have "\<dots> = n div 64" using assms by simp
  finally have high: "drop_bit 6 (n AND 192) = n div 64" .
  have low: "take_bit 6 (n AND 192) = 0"
    by (simp only: take_bit_and) (simp add: take_bit_eq_mod)
  show ?thesis using bits_ident [of 6 "n AND 192"] unfolding high low by (simp add: push_bit_eq_mult)
qed
lemma scast_ascii:
  assumes "unat (b :: byte) < 128"
  shows "(scast b :: u32) = of_nat (unat b)"
proof (rule bit_word_eqI)
  fix k assume "k < LENGTH(32)"
  moreover have "\<not> bit b 7"
    using assms bit_iff_odd [of "unat b" 7] by (simp add: bit_unsigned_iff)
  ultimately show "bit (scast b :: u32) k = bit (of_nat (unat b) :: u32) k"
    using bit_imp_le_length [of b k]
    by (cases "k < 7"; cases "k = 7") (auto simp: bit_signed_iff min_def bit_unsigned_iff bit_of_nat_iff)
qed

lemma utf8_leads:
  fixes b :: byte
  shows "(0x80 AND (scast b :: u32) = 0) = (unat b < 128)"
    and "128 \<le> unat b \<Longrightarrow> (0x40 AND (scast b :: u32) = 0) = (unat b < 192)"
    and "192 \<le> unat b \<Longrightarrow> (0x20 AND (scast b :: u32) = 0) = (unat b < 224)"
    and "224 \<le> unat b \<Longrightarrow> (0x10 AND (scast b :: u32) = 0) = (unat b < 240)"
    and "240 \<le> unat b \<Longrightarrow> (0x08 AND (scast b :: u32) = 0) = (unat b < 248)"
proof -
  show "(0x80 AND (scast b :: u32) = 0) = (unat b < 128)"
    using scast_and_bit [of 7 b] even_div_block [of "2 ^ 7" 0 "unat b"] byte_less_256 [of b] by simp
  show "(0x40 AND (scast b :: u32) = 0) = (unat b < 192)" if "128 \<le> unat b"
    using scast_and_bit [of 6 b] that even_div_block [of "2 ^ 6" 2 "unat b"] byte_less_256 [of b] by simp
  show "(0x20 AND (scast b :: u32) = 0) = (unat b < 224)" if "192 \<le> unat b"
    using scast_and_bit [of 5 b] that even_div_block [of "2 ^ 5" 6 "unat b"] byte_less_256 [of b] by simp
  show "(0x10 AND (scast b :: u32) = 0) = (unat b < 240)" if "224 \<le> unat b"
    using scast_and_bit [of 4 b] that even_div_block [of "2 ^ 4" 14 "unat b"] byte_less_256 [of b] by simp
  show "(0x08 AND (scast b :: u32) = 0) = (unat b < 248)" if "240 \<le> unat b"
    using scast_and_bit [of 3 b] that even_div_block [of "2 ^ 3" 30 "unat b"] byte_less_256 [of b] by simp
qed

lemma utf8_payload:
  fixes b :: byte
  shows "(scast b :: u32) AND 0x1f = of_nat (unat b mod 32)" "(scast b :: u32) AND 0x0f = of_nat (unat b mod 16)"
    "(scast b :: u32) AND 0x07 = of_nat (unat b mod 8)" "(scast b :: u32) AND 0x3f = of_nat (unat b mod 64)"
  using scast_and_mask [of 5 b] scast_and_mask [of 4 b] scast_and_mask [of 3 b] scast_and_mask [of 6 b]
  by simp_all

lemma utf8_is_cont: "((scast (b :: byte) :: u32) AND 0xc0 = 0x80) = (128 \<le> unat b \<and> unat b < 192)"
proof -
  have "(scast b :: u32) AND 0xc0 = of_nat (64 * (unat b div 64))"
    using scast_and [of 192 b] nat_and_192 [of "unat b"] by simp
  then have "((scast b :: u32) AND 0xc0 = 0x80) = (of_nat (64 * (unat b div 64)) = (of_nat 128 :: u32))"
    by simp
  also have "\<dots> = (64 * (unat b div 64) = 128)"
  proof -
    have "64 * (unat b div 64) \<le> unat b" by (rule times_div_less_eq_dividend)
    then have "64 * (unat b div 64) < 4294967296" using byte_less_256 [of b] by linarith
    then show ?thesis
      unfolding word_of_nat_eq_iff by (simp add: take_bit_nat_eq_self)
  qed
  also have "\<dots> = (128 \<le> unat b \<and> unat b < 192)"
    using mult_div_mod_eq [of 64 "unat b"] mod_less_divisor [of 64 "unat b"] by auto
  finally show ?thesis .
qed

section \<open>The reader on the bytes it reads\<close>

definition utf8_lead :: "byte \<Rightarrow> (nat \<times> nat) option" where
  "utf8_lead b =
     (let n = unat b in
      if n < 192 \<or> 248 \<le> n then None
      else if n < 224 then Some (2, n mod 32)
      else if n < 240 then Some (3, n mod 16)
      else Some (4, n mod 8))"

lemma utf8_lead_bounds: "utf8_lead b = Some (l, p) \<Longrightarrow> 2 \<le> l \<and> l \<le> 4 \<and> p < 32 \<and> 192 \<le> unat b"
  by (auto simp: utf8_lead_def Let_def split: if_splits)

lemma get_code_ascii:
  assumes "rd buf off = Some b" "unat b < 128"
  shows "get_code_from_utf8 buf off = Some (1, Some (of_nat (unat b)))"
  using assms by (simp add: get_code_from_utf8_def utf8_leads scast_ascii)

lemma get_code_multi:
  assumes "rd buf off = Some b" "128 \<le> unat b"
  shows "get_code_from_utf8 buf off =
     (case utf8_lead b of
        None \<Rightarrow> Some (-1, None)
      | Some (l, p) \<Rightarrow>
          if p = 0 then Some (-1, None)
          else (case utf8_tail buf off 1 l (of_nat p) of
                  None \<Rightarrow> None
                | Some None \<Rightarrow> Some (-1, None)
                | Some (Some code) \<Rightarrow> Some (int l, Some code)))"
proof -
  have small: "(of_nat k :: u32) = 0 \<longleftrightarrow> k = 0" if "k < 32" for k
    using that by (simp add: word_of_nat_eq_0_iff) (auto dest: nat_dvd_not_less)
  have "unat b mod 32 < 32" "unat b mod 16 < 16" "unat b mod 8 < 8" by simp_all
  then have "unat b mod 32 < 32" "unat b mod 16 < 32" "unat b mod 8 < 32" by linarith+
  then show ?thesis
    using assms
    by (simp add: get_code_from_utf8_def utf8_leads utf8_payload utf8_lead_def Let_def small split: option.split)
qed

lemma utf8_tail_done: "\<not> i < l \<Longrightarrow> utf8_tail buf off i l code = Some (Some code)"
  by (simp add: utf8_tail.simps)

lemma utf8_tail_step:
  assumes "i < l" "rd buf (off + i) = Some b"
  shows "utf8_tail buf off i l code =
     (if 128 \<le> unat b \<and> unat b < 192
      then utf8_tail buf off (Suc i) l (64 * code + of_nat (unat b mod 64)) else Some None)"
  using assms
  by (simp add: utf8_tail.simps [of buf off i] utf8_is_cont utf8_payload push_bit_eq_mult mult.commute)

section \<open>Encodings are read back\<close>

lemma rd_append [simp]: "rd (pre @ xs) (length pre + k) = rd xs k"
  by (simp add: rd_def nth_append)

lemma rd_Cons [simp]: "rd (x # xs) 0 = Some x" "rd (x # xs) (Suc k) = rd xs k"
  by (simp_all add: rd_def)

lemma unat_byte_of_nat: "n < 256 \<Longrightarrow> unat (of_nat n :: byte) = n"
  by (simp add: unsigned_of_nat take_bit_nat_eq_self)

lemma unat_utf8_cont: "unat (utf8_cont n) = 128 + n mod 64"
proof -
  have "128 + n mod 64 < 256" using mod_less_divisor [of 64 n] by linarith
  then show ?thesis unfolding utf8_cont_def by (rule unat_byte_of_nat)
qed

lemma utf8_tail_cont:
  assumes "i < l" "rd buf (off + i) = Some (utf8_cont n)"
  shows "utf8_tail buf off i l (of_nat p) = utf8_tail buf off (Suc i) l (of_nat (64 * p + n mod 64))"
proof -
  have "(128 + n mod 64) mod 64 = n mod 64" using mod_mult_self3 [of 2 64 "n mod 64"] by simp
  moreover have "128 + n mod 64 < 192" using mod_less_divisor [of 64 n] by linarith
  ultimately show ?thesis using utf8_tail_step [OF assms] by (simp add: unat_utf8_cont)
qed

lemma utf8_lead_encode:
  "p < 32 \<Longrightarrow> utf8_lead (of_nat (192 + p)) = Some (2, p)"
  "p < 16 \<Longrightarrow> utf8_lead (of_nat (224 + p)) = Some (3, p)"
  "p < 8 \<Longrightarrow> utf8_lead (of_nat (240 + p)) = Some (4, p)"
  using mod_mult_self3 [of 6 32 p] mod_mult_self3 [of 14 16 p] mod_mult_self3 [of 30 8 p]
  by (simp_all add: utf8_lead_def Let_def unat_byte_of_nat del: of_nat_add)

text \<open>
  One lemma per length of the encoding: a rejected lead payload of zero, or the code point.
\<close>

lemma get_code_lead:
  assumes "rd buf off = Some (of_nat n)" "128 \<le> n" "n < 256" "utf8_lead (of_nat n) = Some (l, p)"
    and "utf8_tail buf off 1 l (of_nat p) = Some (Some code)"
  shows "get_code_from_utf8 buf off = (if p = 0 then Some (-1, None) else Some (int l, Some code))"
  using assms get_code_multi [OF assms(1)] by (simp add: unat_byte_of_nat)

lemma get_code_2:
  assumes "p < 32" "rd buf off = Some (of_nat (192 + p))" "rd buf (off + 1) = Some (utf8_cont c1)"
  shows "get_code_from_utf8 buf off =
     (if p = 0 then Some (-1, None) else Some (2, Some (of_nat (64 * p + c1 mod 64))))"
proof -
  have "utf8_tail buf off 1 2 (of_nat p) = Some (Some (of_nat (64 * p + c1 mod 64)))"
    using utf8_tail_cont [OF _ assms(3)] by (simp add: utf8_tail_done)
  then show ?thesis
    using get_code_lead [OF assms(2) _ _ utf8_lead_encode(1) [OF assms(1)]] assms(1) by simp
qed

lemma get_code_3:
  assumes "p < 16" "rd buf off = Some (of_nat (224 + p))"
    and "rd buf (off + 1) = Some (utf8_cont c1)" "rd buf (off + Suc 1) = Some (utf8_cont c2)"
  shows "get_code_from_utf8 buf off =
     (if p = 0 then Some (-1, None)
      else Some (3, Some (of_nat (64 * (64 * p + c1 mod 64) + c2 mod 64))))"
proof -
  have "utf8_tail buf off 1 3 (of_nat p) = utf8_tail buf off (Suc 1) 3 (of_nat (64 * p + c1 mod 64))"
    using assms(3) by (rule utf8_tail_cont [rotated]) simp
  also have "\<dots> = utf8_tail buf off (Suc (Suc 1)) 3 (of_nat (64 * (64 * p + c1 mod 64) + c2 mod 64))"
    using assms(4) by (rule utf8_tail_cont [rotated]) simp
  finally show ?thesis
    using get_code_lead [OF assms(2) _ _ utf8_lead_encode(2) [OF assms(1)]] assms(1)
    by (simp add: utf8_tail_done)
qed

lemma get_code_4:
  assumes "p < 8" "rd buf off = Some (of_nat (240 + p))"
    and "rd buf (off + 1) = Some (utf8_cont c1)" "rd buf (off + Suc 1) = Some (utf8_cont c2)"
    and "rd buf (off + Suc (Suc 1)) = Some (utf8_cont c3)"
  shows "get_code_from_utf8 buf off =
     (if p = 0 then Some (-1, None)
      else Some (4, Some (of_nat (64 * (64 * (64 * p + c1 mod 64) + c2 mod 64) + c3 mod 64))))"
proof -
  have "utf8_tail buf off 1 4 (of_nat p) = utf8_tail buf off (Suc 1) 4 (of_nat (64 * p + c1 mod 64))"
    using assms(3) by (rule utf8_tail_cont [rotated]) simp
  also have "\<dots> = utf8_tail buf off (Suc (Suc 1)) 4 (of_nat (64 * (64 * p + c1 mod 64) + c2 mod 64))"
    using assms(4) by (rule utf8_tail_cont [rotated]) simp
  also have "\<dots> = utf8_tail buf off (Suc (Suc (Suc 1))) 4
                     (of_nat (64 * (64 * (64 * p + c1 mod 64) + c2 mod 64) + c3 mod 64))"
    using assms(5) by (rule utf8_tail_cont [rotated]) simp
  finally show ?thesis
    using get_code_lead [OF assms(2) _ _ utf8_lead_encode(3) [OF assms(1)]] assms(1)
    by (simp add: utf8_tail_done)
qed

lemma split_base_64:
  fixes cp :: nat
  shows "64 * (cp div 64) + cp mod 64 = cp"
    "64 * (64 * (cp div 4096) + cp div 64 mod 64) + cp mod 64 = cp"
    "64 * (64 * (64 * (cp div 262144) + cp div 4096 mod 64) + cp div 64 mod 64) + cp mod 64 = cp"
proof -
  have step: "64 * (n div 64) + n mod 64 = n" for n :: nat by simp
  have d: "cp div 4096 = cp div 64 div 64" "cp div 262144 = cp div 64 div 64 div 64"
    by (simp_all flip: div_mult2_eq)
  show "64 * (cp div 64) + cp mod 64 = cp" by (rule step)
  show "64 * (64 * (cp div 4096) + cp div 64 mod 64) + cp mod 64 = cp" unfolding d step ..
  show "64 * (64 * (64 * (cp div 262144) + cp div 4096 mod 64) + cp div 64 mod 64) + cp mod 64 = cp"
    unfolding d step ..
qed

section \<open>Reading inside a NUL-terminated string\<close>

text \<open>
  What a client scanning a NUL-terminated string relies on: the reader stops at the terminator
  (a continuation byte is never zero), reports one byte for ASCII with its value, and otherwise
  an error or the length of a run of bytes above 127 inside the string.
\<close>

definition utf8_in_string :: "byte list \<Rightarrow> nat \<Rightarrow> int \<Rightarrow> u32 option \<Rightarrow> bool" where
  "utf8_in_string b off r c \<longleftrightarrow>
     r = -1 \<or>
     (r = 1 \<and> unat (b ! off) < 128 \<and> c = Some (of_nat (unat (b ! off)))) \<or>
     (2 \<le> r \<and> r \<le> 4 \<and> off + nat r \<le> length (cstr b) \<and> (\<forall>k < nat r. 128 \<le> unat (b ! (off + k))))"

lemma utf8_tail_in_string:
  assumes "has_nul b" "off + i \<le> length (cstr b)" "i \<le> l"
  shows "\<exists>res. utf8_tail b off i l code = Some res \<and>
    (res \<noteq> None \<longrightarrow> off + l \<le> length (cstr b) \<and> (\<forall>k. i \<le> k \<and> k < l \<longrightarrow> 128 \<le> unat (b ! (off + k))))"
  using assms
proof (induction "l - i" arbitrary: i code rule: less_induct)
  case less
  show ?case
  proof (cases "i < l")
    case False
    then show ?thesis using less.prems by (simp add: utf8_tail_done)
  next
    case True
    have "off + i < length b" using less.prems has_nul_length_cstr [of b] by linarith
    then have rd: "rd b (off + i) = Some (b ! (off + i))" by (rule rd_in)
    show ?thesis
    proof (cases "128 \<le> unat (b ! (off + i)) \<and> unat (b ! (off + i)) < 192")
      case cont: True
      then have "off + i \<noteq> length (cstr b)"
        using less.prems has_nul_nth_cstr [of b] by auto
      then have "off + Suc i \<le> length (cstr b)" using less.prems by simp
      with less.hyps [of "Suc i"] less.prems True obtain res where
        res: "utf8_tail b off (Suc i) l (64 * code + of_nat (unat (b ! (off + i)) mod 64)) = Some res"
        and post: "res \<noteq> None \<Longrightarrow> off + l \<le> length (cstr b) \<and>
              (\<forall>k. Suc i \<le> k \<and> k < l \<longrightarrow> 128 \<le> unat (b ! (off + k)))" by fastforce
      have "\<forall>k. i \<le> k \<and> k < l \<longrightarrow> 128 \<le> unat (b ! (off + k))" if "res \<noteq> None"
        using post [OF that] cont by (metis Suc_leI le_eq_less_or_eq)
      with res post show ?thesis using utf8_tail_step [OF True rd] cont by simp
    next
      case False
      then show ?thesis using utf8_tail_step [OF True rd, of code] by (simp only: if_False) simp
    qed
  qed
qed

lemma get_code_in_string:
  assumes "has_nul b" "off \<le> length (cstr b)"
  shows "\<exists>r c. get_code_from_utf8 b off = Some (r, c) \<and> utf8_in_string b off r c"
proof -
  have "off < length b" using assms has_nul_length_cstr [of b] by linarith
  then have rd: "rd b off = Some (b ! off)" by (rule rd_in)
  show ?thesis
  proof (cases "unat (b ! off) < 128")
    case True
    then show ?thesis using get_code_ascii [OF rd] by (simp add: utf8_in_string_def)
  next
    case False
    show ?thesis
    proof (cases "\<exists>l p. utf8_lead (b ! off) = Some (l, p) \<and> p \<noteq> 0")
      case bad: False
      then show ?thesis
        using get_code_multi [OF rd] False by (auto simp: utf8_in_string_def split: option.splits)
    next
      case True
      then obtain l p where lp: "utf8_lead (b ! off) = Some (l, p)" "p \<noteq> 0" by blast
      note bounds = utf8_lead_bounds [OF lp(1)]
      have "off \<noteq> length (cstr b)" using False has_nul_nth_cstr [OF assms(1)] by auto
      with assms bounds utf8_tail_in_string [OF assms(1), of off 1 l "of_nat p"] obtain res where
        res: "utf8_tail b off 1 l (of_nat p) = Some res" and
        post: "res \<noteq> None \<Longrightarrow> off + l \<le> length (cstr b) \<and>
              (\<forall>k. 1 \<le> k \<and> k < l \<longrightarrow> 128 \<le> unat (b ! (off + k)))" by auto
      have "\<forall>k < l. 128 \<le> unat (b ! (off + k))" if "res \<noteq> None"
        using post [OF that] False by (metis One_nat_def Suc_leI add_0_right gr0I not_less)
      with res post bounds lp False show ?thesis
        using get_code_multi [OF rd] by (cases res) (auto simp: utf8_in_string_def)
    qed
  qed
qed

section \<open>Properties\<close>

text \<open>
  C33.  The reader inverts the standard encoder exactly on the code points it accepts, with the
  encoding anywhere inside a buffer: it returns the length of the encoding and stores the code
  point.  For the other code points (U+0800 to U+0FFF, whose encodings start with the byte 0xE0,
  and U+10000 to U+3FFFF, which start with 0xF0) it reports an error although the encoding is valid.
\<close>

theorem get_code_from_utf8_encode:
  assumes "cp < 0x200000"
  shows "get_code_from_utf8 (pre @ utf8_encode cp @ rest) (length pre) =
     (if utf8_accepts cp then Some (int (length (utf8_encode cp)), Some (of_nat cp)) else Some (-1, None))"
proof -
  let ?buf = "pre @ utf8_encode cp @ rest"
  have rd: "rd ?buf (length pre + k) = rd (utf8_encode cp @ rest) k" for k by simp
  note rds = rd [of 0] rd [of 1] rd [of "Suc 1"] rd [of "Suc (Suc 1)"]
  consider "cp < 0x80" | "0x80 \<le> cp" "cp < 0x800" | "0x800 \<le> cp" "cp < 0x10000" | "0x10000 \<le> cp"
    by linarith
  then show ?thesis
  proof cases
    case 1
    then show ?thesis
      using get_code_ascii [of ?buf "length pre" "of_nat cp"] rds
      by (simp add: utf8_encode_def utf8_accepts_def unat_byte_of_nat)
  next
    case 2
    then have p: "cp div 64 < 32" "cp div 64 \<noteq> 0" by (simp_all add: less_mult_imp_div_less div_eq_0_iff)
    show ?thesis
      using get_code_2 [OF p(1), of ?buf "length pre" cp] rds 2 p
      by (simp only: split_base_64) (simp add: utf8_encode_def utf8_accepts_def)
  next
    case 3
    then have p: "cp div 4096 < 16" "cp div 4096 = 0 \<longleftrightarrow> cp < 0x1000"
      by (simp_all add: less_mult_imp_div_less div_eq_0_iff)
    show ?thesis
      using get_code_3 [OF p(1), of ?buf "length pre" "cp div 64" cp] rds 3 p
      by (simp only: split_base_64) (simp add: utf8_encode_def utf8_accepts_def)
  next
    case 4
    then have p: "cp div 262144 < 8" "cp div 262144 = 0 \<longleftrightarrow> cp < 0x40000"
      using assms by (simp_all add: less_mult_imp_div_less div_eq_0_iff)
    show ?thesis
      using get_code_4 [OF p(1), of ?buf "length pre" "cp div 4096" "cp div 64" cp] rds 4 p
      by (simp only: split_base_64) (simp add: utf8_encode_def utf8_accepts_def)
  qed
qed

theorem get_code_from_utf8_encode_witness:
  "get_code_from_utf8 (utf8_encode 0x4E2D) 0 = Some (3, Some 0x4E2D) \<and>
   get_code_from_utf8 (utf8_encode 0x1F600) 0 = Some (-1, None)"
  using get_code_from_utf8_encode [where pre = "[]" and rest = "[]" and cp = "0x4E2D"]
    get_code_from_utf8_encode [where pre = "[]" and rest = "[]" and cp = "0x1F600"]
  by (simp add: utf8_accepts_def utf8_encode_def)

end
