(* ===== verification/Esq_Path.thy ===== *)
theory Esq_Path
  imports Esq_Utf8
begin

text \<open>
  The request-path filter \<^verbatim>\<open>libs/path-is-very-safe/path-is-very-safe.c\<close>, which decides whether a
  path received from the network may be used to open a local file.  The model follows the loop over
  characters (read by \<open>get_code_from_utf8\<close>); the specification is stated on the components of the
  path: what an accepted path may contain.
\<close>

section \<open>The model\<close>

definition SAFE_PATH_MAX :: nat where "SAFE_PATH_MAX = 2048"
definition SAFE_FILENAME_MAX :: nat where "SAFE_FILENAME_MAX = 255"

lemmas path_limits = SAFE_PATH_MAX_def SAFE_FILENAME_MAX_def

definition h2esq_path_safe_table :: "nat list" where
  "h2esq_path_safe_table =
     replicate 43 0 @ [1, 0, 1, 0, 0] @ replicate 10 1 @ replicate 7 0
     @ replicate 26 1 @ [0, 0, 0, 0, 1, 0] @ replicate 26 1 @ replicate 133 0"

function pivs_loop :: "byte list \<Rightarrow> nat \<Rightarrow> nat \<Rightarrow> bool \<Rightarrow> int option" where
  "pivs_loop path i filename_len afterdot =
     (if i < SAFE_PATH_MAX then
        (if SAFE_FILENAME_MAX \<le> filename_len then Some 0
         else case get_code_from_utf8 path i of
           None \<Rightarrow> None
         | Some (r, cp) \<Rightarrow>
             if r = 1 then
               (case cp of None \<Rightarrow> None
                | Some c \<Rightarrow>
                    (case rd h2esq_path_safe_table (unat c) of None \<Rightarrow> None
                     | Some t \<Rightarrow>
                         if t \<noteq> 0 then pivs_loop path (i + 1) (filename_len + 1) False
                         else if c = of_char CHR ''/'' then
                           (if afterdot then Some 0 else pivs_loop path (i + 1) 0 False)
                         else if c = 0 then (if afterdot then Some 0 else Some 1)
                         else if c = of_char CHR ''.'' then
                           (if filename_len \<noteq> 0 then pivs_loop path (i + 1) (filename_len + 1) True
                            else Some 0)
                         else Some 0))
             else if r \<le> 0 then Some 0
             else pivs_loop path (i + nat r) (filename_len + nat r) afterdot)
      else Some 0)"
  by pat_completeness auto
termination
  by (relation "measure (\<lambda>(path, i, fl, ad). SAFE_PATH_MAX - i)") auto

declare pivs_loop.simps [simp del]

definition path_is_very_safe :: "byte list \<Rightarrow> int option" where
  "path_is_very_safe path =
     do { c \<leftarrow> rd path 0; if c = ch CHR ''/'' then Some 0 else pivs_loop path 0 0 False }"

section \<open>What an accepted path looks like\<close>

definition safe_spec :: "nat \<Rightarrow> nat" where
  "safe_spec n =
     (if n = 43 \<or> n = 45 \<or> 48 \<le> n \<and> n \<le> 57 \<or> 65 \<le> n \<and> n \<le> 90 \<or> n = 95 \<or> 97 \<le> n \<and> n \<le> 122
      then 1 else 0)"

definition name_char :: "byte \<Rightarrow> bool" where
  "name_char c \<longleftrightarrow> safe_spec (unat c) = 1 \<or> c = ch CHR ''.'' \<or> 128 \<le> unat c"

definition name_ok :: "byte list \<Rightarrow> bool" where
  "name_ok nm \<longleftrightarrow> length nm < 255 \<and> (\<forall>c \<in> set nm. name_char c) \<and>
     (nm \<noteq> [] \<longrightarrow> hd nm \<noteq> ch CHR ''.'' \<and> last nm \<noteq> ch CHR ''.'')"

fun components :: "byte list \<Rightarrow> byte list \<Rightarrow> byte list list" where
  "components cur [] = [cur]"
| "components cur (c # r) =
     (if c = ch CHR ''/'' then cur # components [] r else components (cur @ [c]) r)"

definition path_ok :: "byte list \<Rightarrow> bool" where
  "path_ok s \<longleftrightarrow> take 1 s \<noteq> [ch CHR ''/''] \<and> (\<forall>nm \<in> set (components [] s). name_ok nm)"

interpretation safe: byte_table h2esq_path_safe_table safe_spec
  by unfold_locales code_simp

section \<open>One iteration, on a NUL-terminated path\<close>

text \<open>A component under construction: what the loop knows of the bytes since the last slash.\<close>

definition cur_ok :: "byte list \<Rightarrow> bool" where
  "cur_ok cur \<longleftrightarrow> (\<forall>c \<in> set cur. name_char c) \<and> (cur \<noteq> [] \<longrightarrow> hd cur \<noteq> ch CHR ''.'')"

definition ends_dot :: "byte list \<Rightarrow> bool" where
  "ends_dot cur \<longleftrightarrow> cur \<noteq> [] \<and> last cur = ch CHR ''.''"

lemma cur_ok_simps [simp]:
  "cur_ok []"
  "cur_ok (cur @ [c]) \<longleftrightarrow> cur_ok cur \<and> name_char c \<and> (cur = [] \<longrightarrow> c \<noteq> ch CHR ''.'')"
  "\<not> ends_dot []" "ends_dot (cur @ [c]) \<longleftrightarrow> c = ch CHR ''.''"
  by (auto simp: cur_ok_def ends_dot_def hd_append)

lemma name_ok_iff: "name_ok nm \<longleftrightarrow> length nm < 255 \<and> cur_ok nm \<and> \<not> ends_dot nm"
  by (auto simp: name_ok_def cur_ok_def ends_dot_def)

lemma pivs_too_long_name: "255 \<le> fl \<Longrightarrow> pivs_loop b i fl ad = Some 0"
  by (simp add: pivs_loop.simps [of b i] path_limits)

lemma pivs_too_long_path: "2048 \<le> i \<Longrightarrow> pivs_loop b i fl ad = Some 0"
  by (simp add: pivs_loop.simps [of b i] path_limits)

lemma unat_u32_of_byte: "unat (of_nat (unat (x :: byte)) :: u32) = unat x"
proof -
  have "unat x < 2 ^ LENGTH(32)" using byte_less_256 [of x] by (rule less_trans) simp
  then show ?thesis by (simp only: unat_of_nat mod_less)
qed

lemma u32_char_eq:
  assumes "k < 128"
  shows "(of_nat (unat (x :: byte)) :: u32) = of_nat k \<longleftrightarrow> x = of_nat k"
proof -
  have "(of_nat (unat x) :: u32) = of_nat k \<longleftrightarrow> unat x = unat (of_nat k :: u32)"
    using unat_u32_of_byte [of x] by (metis word_unat_eq_iff)
  also have "\<dots> \<longleftrightarrow> x = of_nat k"
    using assms by (simp add: word_unat_eq_iff unat_of_nat)
  finally show ?thesis .
qed

lemma pivs_ascii:
  assumes "i < 2048" "fl < 255" "get_code_from_utf8 b i = Some (1, Some (of_nat (unat x)))" "unat (x :: byte) < 128"
  shows "pivs_loop b i fl ad =
    (if safe_spec (unat x) \<noteq> 0 then pivs_loop b (i + 1) (fl + 1) False
     else if x = ch CHR ''/'' then (if ad then Some 0 else pivs_loop b (i + 1) 0 False)
     else if x = 0 then (if ad then Some 0 else Some 1)
     else if x = ch CHR ''.'' then (if fl \<noteq> 0 then pivs_loop b (i + 1) (fl + 1) True else Some 0)
     else Some 0)"
  using assms u32_char_eq [of 47 x] u32_char_eq [of 46 x] u32_char_eq [of 0 x] unat_u32_of_byte [of x]
  by (simp add: pivs_loop.simps [of b i] path_limits safe.tbl_rd)

lemma pivs_multi:
  assumes "i < 2048" "fl < 255" "get_code_from_utf8 b i = Some (r, cp)" "r \<noteq> 1"
  shows "pivs_loop b i fl ad = (if r \<le> 0 then Some 0 else pivs_loop b (i + nat r) (fl + nat r) ad)"
  using assms by (simp add: pivs_loop.simps [of b i] path_limits)

lemma components_run:
  assumes "i + n \<le> length s" "\<forall>k < n. s ! (i + k) \<noteq> ch CHR ''/''"
  shows "components cur (drop i s) = components (cur @ take n (drop i s)) (drop (i + n) s)"
  using assms
proof (induction n arbitrary: i cur)
  case (Suc n)
  have d: "drop i s = s ! i # drop (Suc i) s" using Suc.prems by (simp add: Cons_nth_drop_Suc)
  have "s ! i \<noteq> ch CHR ''/''" using Suc.prems(2) by (auto dest: spec [of _ 0])
  then have "components cur (drop i s) = components (cur @ [s ! i]) (drop (Suc i) s)" by (simp add: d)
  also have "\<dots> = components ((cur @ [s ! i]) @ take n (drop (Suc i) s)) (drop (Suc i + n) s)"
    using Suc.prems by (intro Suc.IH) auto
  finally show ?case by (simp add: d)
qed simp

text \<open>
  The loop invariant relates the loop's counters to the component \<open>cur\<close> under construction: its
  length, its validity so far, and the flag for a trailing dot.  The flag may also be set when
  multi-byte characters follow the dot, because their branch leaves it alone.
\<close>

definition pivs_post :: "byte list \<Rightarrow> nat \<Rightarrow> byte list \<Rightarrow> bool \<Rightarrow> int \<Rightarrow> bool" where
  "pivs_post s i cur ad r \<longleftrightarrow>
     (r = 0 \<or> r = 1) \<and>
     (r = 1 \<longrightarrow> length s < 2048 \<and> (\<forall>nm \<in> set (components cur (drop i s)). name_ok nm)) \<and>
     ((\<forall>c \<in> set s. unat c < 128) \<and> ad = ends_dot cur \<and> length s < 2048 \<and>
       (\<forall>nm \<in> set (components cur (drop i s)). name_ok nm) \<longrightarrow> r = 1)"

lemma components_prefix: "\<exists>t. cur @ t \<in> set (components cur s)"
proof (induction s arbitrary: cur)
  case (Cons c s)
  show ?case using Cons [of "cur @ [c]"] by (auto intro: exI [of _ "[]"])
qed (auto intro: exI [of _ "[]"])

lemma cur_ok_append: "cur_ok (cur @ t) \<Longrightarrow> cur_ok cur"
  by (cases cur) (auto simp: cur_ok_def)

lemma components_reject:
  assumes "\<not> cur_ok cur \<or> 255 \<le> length cur"
  shows "\<exists>nm \<in> set (components cur s). \<not> name_ok nm"
proof -
  obtain t where t: "cur @ t \<in> set (components cur s)" using components_prefix by blast
  have "\<not> name_ok (cur @ t)" using assms by (auto simp: name_ok_iff dest: cur_ok_append)
  with t show ?thesis by blast
qed

lemma post_reject:
  "length s \<ge> 2048 \<or> (\<exists>c \<in> set s. 128 \<le> unat c) \<or> (\<exists>nm \<in> set (components cur (drop i s)). \<not> name_ok nm)
   \<Longrightarrow> pivs_post s i cur ad 0"
  by (fastforce simp: pivs_post_def)

lemma components_char:
  "i < length s \<Longrightarrow> s ! i \<noteq> ch CHR ''/'' \<Longrightarrow>
   components cur (drop i s) = components (cur @ [s ! i]) (drop (Suc i) s)"
  "i < length s \<Longrightarrow> s ! i = ch CHR ''/'' \<Longrightarrow>
   components cur (drop i s) = cur # components [] (drop (Suc i) s)"
  by (simp_all flip: Cons_nth_drop_Suc)

lemma post_char:
  assumes "i < length s" "s ! i \<noteq> ch CHR ''/''"
    and "pivs_post s (Suc i) (cur @ [s ! i]) (ends_dot (cur @ [s ! i])) r"
  shows "pivs_post s i cur ad r"
  using assms(3) unfolding pivs_post_def components_char(1) [OF assms(1,2)] by blast

lemma post_slash:
  assumes "i < length s" "s ! i = ch CHR ''/''" "name_ok cur" "pivs_post s (Suc i) [] False r"
  shows "pivs_post s i cur ad r"
  using assms(3,4) unfolding pivs_post_def components_char(2) [OF assms(1,2)]
  by (simp only: list.set ball_simps cur_ok_simps) blast

lemma post_run:
  assumes "i + n \<le> length s" "0 < n" "\<forall>k < n. 128 \<le> unat (s ! (i + k))"
    and "pivs_post s (i + n) (cur @ take n (drop i s)) ad r"
  shows "pivs_post s i cur ad r"
proof -
  have "s ! (i + k) \<noteq> ch CHR ''/''" if "k < n" for k
    using assms(3) that by force
  then have eq: "components cur (drop i s) = components (cur @ take n (drop i s)) (drop (i + n) s)"
    using assms(1) by (intro components_run) blast+
  have "128 \<le> unat (s ! i)" "s ! i \<in> set s" using assms(1-3) by auto
  then have "\<not> (\<forall>c \<in> set s. unat c < 128)" by (metis linorder_not_le)
  then show ?thesis using assms(4) unfolding pivs_post_def eq by blast
qed

lemma name_char_simps [simp]:
  "name_char 0x2E" "safe_spec (unat c) \<noteq> 0 \<Longrightarrow> name_char c" "safe_spec 46 = 0" "safe_spec 47 = 0" "safe_spec 0 = 0"
  by (auto simp: name_char_def safe_spec_def split: if_splits)

lemma not_name_char:
  "unat c < 128 \<Longrightarrow> safe_spec (unat c) = 0 \<Longrightarrow> c \<noteq> ch CHR ''.'' \<Longrightarrow> \<not> name_char c"
  by (simp add: name_char_def)

lemma post_bad_char:
  assumes "i < length s" "s ! i \<noteq> ch CHR ''/''" "\<not> cur_ok (cur @ [s ! i])"
  shows "pivs_post s i cur ad 0"
  by (intro post_reject disjI2)
    (simp only: components_char(1) [OF assms(1,2)], rule components_reject, simp only: assms(3) simp_thms)

lemma post_dot_slash:
  assumes "i < length s" "s ! i = ch CHR ''/''"
  shows "pivs_post s i cur True 0"
  using name_ok_iff [of cur] unfolding pivs_post_def components_char(2) [OF assms]
  by (simp only: list.set ball_simps) auto

lemma post_end:
  "length s < 2048 \<Longrightarrow> cur_ok cur \<Longrightarrow> length cur < 255 \<Longrightarrow> (ends_dot cur \<longrightarrow> ad) \<Longrightarrow>
   pivs_post s (length s) cur ad (if ad then 0 else 1)"
  by (auto simp: pivs_post_def name_ok_iff)

text \<open>One ASCII character inside the string, with the rest of the loop as induction hypothesis.\<close>

lemma pivs_ascii_step:
  assumes i: "i < length s" "i < 2048" and fl: "length cur < 255" and cur: "cur_ok cur" "ends_dot cur \<longrightarrow> ad"
    and x: "unat (s ! i) < 128" "s ! i \<noteq> 0"
    and rd: "get_code_from_utf8 b i = Some (1, Some (of_nat (unat (s ! i))))"
    and IH: "\<And>cur ad. cur_ok cur \<Longrightarrow> (ends_dot cur \<longrightarrow> ad) \<Longrightarrow>
       \<exists>r. pivs_loop b (Suc i) (length cur) ad = Some r \<and> pivs_post s (Suc i) cur ad r"
  shows "\<exists>r. pivs_loop b i (length cur) ad = Some r \<and> pivs_post s i cur ad r"
proof -
  note step = pivs_ascii [OF i(2) fl rd x(1), of ad]
  let ?cur = "cur @ [s ! i]"
  consider "safe_spec (unat (s ! i)) \<noteq> 0" | "s ! i = ch CHR ''/''"
    | "s ! i = ch CHR ''.''" "cur \<noteq> []" | "s ! i \<noteq> ch CHR ''/''" "safe_spec (unat (s ! i)) = 0" "cur = [] \<or> s ! i \<noteq> ch CHR ''.''"
    by blast
  then show ?thesis
  proof cases
    case 1
    then have ne: "s ! i \<noteq> ch CHR ''/''" "s ! i \<noteq> ch CHR ''.''" by auto
    obtain r where r: "pivs_loop b (Suc i) (length ?cur) (ends_dot ?cur) = Some r"
      "pivs_post s (Suc i) ?cur (ends_dot ?cur) r" using IH [of ?cur "ends_dot ?cur"] 1 ne cur by auto
    have "pivs_loop b i (length cur) ad = Some r" using step 1 ne r(1) by simp
    then show ?thesis using post_char [OF i(1) ne(1) r(2)] by blast
  next
    case 2
    obtain r where r: "pivs_loop b (Suc i) 0 False = Some r" "pivs_post s (Suc i) [] False r"
      using IH [of "[]" False] by auto
    show ?thesis
      using step 2 r cur fl post_slash [OF i(1) 2 _ r(2)] post_dot_slash [OF i(1) 2]
      by (cases ad) (auto simp: name_ok_iff)
  next
    case 3
    then have ne: "s ! i \<noteq> ch CHR ''/''" by simp
    obtain r where r: "pivs_loop b (Suc i) (length ?cur) (ends_dot ?cur) = Some r"
      "pivs_post s (Suc i) ?cur (ends_dot ?cur) r" using IH [of ?cur "ends_dot ?cur"] 3 cur by auto
    have "pivs_loop b i (length cur) ad = Some r" using step 3 r(1) by simp
    then show ?thesis using post_char [OF i(1) ne r(2)] by blast
  next
    case 4
    then have bad: "\<not> cur_ok ?cur" using not_name_char [OF x(1)] by (simp only: cur_ok_simps) blast
    have "pivs_loop b i (length cur) ad = Some 0"
      unfolding step using 4 x(2) by (elim disjE) (simp_all only: list.size if_False simp_thms if_cancel)
    then show ?thesis using post_bad_char [OF i(1) 4(1) bad] by blast
  qed
qed

lemma pivs_multi_step:
  assumes b: "has_nul b" and i: "i < length (cstr b)" "i < 2048" and fl: "length cur < 255"
    and cur: "cur_ok cur" "ends_dot cur \<longrightarrow> ad" and x: "128 \<le> unat (b ! i)"
    and IH: "\<And>j cur ad. i < j \<Longrightarrow> j \<le> length (cstr b) \<Longrightarrow> cur_ok cur \<Longrightarrow> (ends_dot cur \<longrightarrow> ad) \<Longrightarrow>
       \<exists>r. pivs_loop b j (length cur) ad = Some r \<and> pivs_post (cstr b) j cur ad r"
  shows "\<exists>r. pivs_loop b i (length cur) ad = Some r \<and> pivs_post (cstr b) i cur ad r"
proof -
  obtain r c where rc: "get_code_from_utf8 b i = Some (r, c)" "utf8_in_string b i r c"
    using get_code_in_string [OF b, of i] i by auto
  with x have r1: "r \<noteq> 1" by (auto simp: utf8_in_string_def)
  note step = pivs_multi [OF i(2) fl rc(1) r1, of ad]
  have hi: "\<exists>c \<in> set (cstr b). 128 \<le> unat c" using x i(1) nth_cstr nth_mem by metis
  show ?thesis
  proof (cases "r \<le> 0")
    case True
    with step hi show ?thesis by (auto intro: post_reject)
  next
    case False
    let ?n = "nat r"
    let ?run = "take ?n (drop i (cstr b))"
    have n: "0 < ?n" "i + ?n \<le> length (cstr b)" and hi: "\<forall>k < ?n. 128 \<le> unat (cstr b ! (i + k))"
      using rc(2) r1 False by (auto simp: utf8_in_string_def nth_cstr [symmetric])
    have run: "\<forall>c \<in> set ?run. 128 \<le> unat c"
      using hi n by (auto simp: in_set_conv_nth)
    then have "\<forall>c \<in> set ?run. name_char c \<and> c \<noteq> ch CHR ''.''" by (auto simp: name_char_def)
    moreover have "?run \<noteq> []" using n by simp
    ultimately have "cur_ok (cur @ ?run)" "\<not> ends_dot (cur @ ?run)"
      using cur(1) by (auto simp: cur_ok_def ends_dot_def hd_append simp del: take_eq_Nil drop_eq_Nil)
    moreover have "length (cur @ ?run) = length cur + ?n" using n by simp
    ultimately obtain r' where "pivs_loop b (i + ?n) (length cur + ?n) ad = Some r'"
      "pivs_post (cstr b) (i + ?n) (cur @ ?run) ad r'"
      using IH [of "i + ?n" "cur @ ?run" ad] n by auto
    then show ?thesis using step False post_run [OF n(2,1) hi] by auto
  qed
qed

lemma pivs_loop_correct:
  assumes "has_nul b" "i \<le> length (cstr b)" "cur_ok cur" "ends_dot cur \<longrightarrow> ad"
  shows "\<exists>r. pivs_loop b i (length cur) ad = Some r \<and> pivs_post (cstr b) i cur ad r"
  using assms
proof (induction "length (cstr b) - i" arbitrary: i cur ad rule: less_induct)
  case less
  note b = less.prems(1) and cur = less.prems(3,4)
  consider "2048 \<le> i" | "255 \<le> length cur" | "i < 2048" "length cur < 255" "i = length (cstr b)"
    | "i < 2048" "length cur < 255" "i < length (cstr b)"
    using less.prems(2) by linarith
  then show ?case
  proof cases
    case 1
    then show ?thesis using less.prems(2) post_reject [of "cstr b" cur i ad] by (simp add: pivs_too_long_path)
  next
    case 2
    then show ?thesis using post_reject [of "cstr b" cur i ad] components_reject [of cur "drop i (cstr b)"]
      by (simp only: pivs_too_long_name) blast
  next
    case 3
    then have "rd b i = Some 0" using b by (simp add: rd_in c_str)
    from get_code_ascii [OF this] have "get_code_from_utf8 b i = Some (1, Some (of_nat (unat (0 :: byte))))" by simp
    from pivs_ascii [OF 3(1,2) this] have "pivs_loop b i (length cur) ad = Some (if ad then 0 else 1)" by simp
    with post_end [of "cstr b" cur ad] 3 cur show ?thesis by simp
  next
    case 4
    have x: "b ! i = cstr b ! i" "cstr b ! i \<noteq> 0"
      using 4(3) nth_cstr nth_cstr_neq0 by (blast, metis)
    have rd: "rd b i = Some (cstr b ! i)" using 4(3) has_nul_length_cstr [OF b] x by (simp add: rd_in)
    have IH: "\<exists>r. pivs_loop b j (length cur) ad = Some r \<and> pivs_post (cstr b) j cur ad r"
      if "i < j" "j \<le> length (cstr b)" "cur_ok cur" "ends_dot cur \<longrightarrow> ad" for j cur ad
      using less.hyps [of j cur ad] that b by simp
    show ?thesis
    proof (cases "unat (cstr b ! i) < 128")
      case True
      show ?thesis
        by (rule pivs_ascii_step [OF 4(3,1,2) cur True x(2) get_code_ascii [OF rd True]]) (rule IH, use 4 in auto)
    next
      case False
      then have "128 \<le> unat (b ! i)" using x by simp
      from pivs_multi_step [OF b 4(3,1,2) cur this IH] show ?thesis .
    qed
  qed
qed

lemma path_is_very_safe_spec:
  assumes "has_nul b"
  shows "\<exists>r. path_is_very_safe b = Some r \<and> (r = 0 \<or> r = 1) \<and>
    (r = 1 \<longrightarrow> path_ok (cstr b) \<and> length (cstr b) < SAFE_PATH_MAX) \<and>
    ((\<forall>c \<in> set (cstr b). unat c < 128) \<and> path_ok (cstr b) \<and> length (cstr b) < SAFE_PATH_MAX \<longrightarrow> r = 1)"
proof -
  obtain y ys where b: "b = y # ys" using assms by (cases b) (auto simp: has_nul_def)
  have slash: "y = ch CHR ''/'' \<longleftrightarrow> take 1 (cstr b) = [ch CHR ''/'']" by (auto simp: b cstr_def)
  obtain r where r: "pivs_loop b 0 0 False = Some r" "pivs_post (cstr b) 0 [] False r"
    using pivs_loop_correct [OF assms, of 0 "[]" False] by auto
  define ok where "ok \<longleftrightarrow> (\<forall>nm \<in> set (components [] (cstr b)). name_ok nm)"
  define ascii where "ascii \<longleftrightarrow> (\<forall>c \<in> set (cstr b). unat c < 128)"
  have val: "path_is_very_safe b = (if y = ch CHR ''/'' then Some 0 else Some r)"
    using r(1) by (simp add: path_is_very_safe_def b rd_def)
  have ok: "path_ok (cstr b) \<longleftrightarrow> y \<noteq> ch CHR ''/'' \<and> ok"
    unfolding path_ok_def slash ok_def by blast
  have res: "(r = 0 \<or> r = 1) \<and> (r = 1 \<longrightarrow> length (cstr b) < 2048 \<and> ok) \<and>
      (ascii \<and> length (cstr b) < 2048 \<and> ok \<longrightarrow> r = 1)"
    using r(2) cur_ok_simps(3) unfolding pivs_post_def drop_0 ok_def ascii_def by blast
  show ?thesis
  proof (cases "y = ch CHR ''/''")
    case True
    show ?thesis unfolding val ok by (simp add: True)
  next
    case False
    show ?thesis
      unfolding SAFE_PATH_MAX_def ascii_def [symmetric] val ok if_not_P [OF False] using False res by blast
  qed
qed

section \<open>Properties\<close>

text \<open>
  C31.  \<open>path_is_very_safe\<close> on a NUL-terminated path always returns 0 or 1 without reading outside the
  buffer.  When it accepts, the path does not start with a slash, is shorter than the limit, and
  every component is shorter than 255 bytes, has only letters, digits, plus, minus, underscore, dots
  and bytes above 127, and neither starts nor ends with a dot; so no component is a dot or a
  double dot, and the path cannot leave the directory it is resolved in.
\<close>

theorem path_is_very_safe_sound:
  assumes "has_nul b"
  shows "\<exists>r. path_is_very_safe b = Some r \<and> (r = 0 \<or> r = 1) \<and>
    (r = 1 \<longrightarrow> path_ok (cstr b) \<and> length (cstr b) < SAFE_PATH_MAX \<and>
       bytes ''.'' \<notin> set (components [] (cstr b)) \<and> bytes ''..'' \<notin> set (components [] (cstr b)))"
proof -
  have "\<not> name_ok (bytes ''.'')" "\<not> name_ok (bytes ''..'')" by (simp_all add: name_ok_def)
  then show ?thesis using path_is_very_safe_spec [OF assms] unfolding path_ok_def by blast
qed

theorem path_is_very_safe_sound_witness:
  "\<exists>r. path_is_very_safe (bytes ''a/../b'' @ [0]) = Some r \<and> r \<noteq> 1"
  using path_is_very_safe_sound [of "bytes ''a/../b'' @ [0]"]
  by (fastforce simp: cstr_def has_nul_def)

text \<open>
  C32.  On paths without bytes above 127 the filter is exact: it accepts precisely the paths of
  that form below the length limit.
\<close>

theorem path_is_very_safe_ascii_exact:
  assumes "has_nul b" "\<forall>c \<in> set (cstr b). unat c < 128"
  shows "path_is_very_safe b = Some (if path_ok (cstr b) \<and> length (cstr b) < SAFE_PATH_MAX then 1 else 0)"
  using path_is_very_safe_spec [OF assms(1)] assms(2) by auto

theorem path_is_very_safe_ascii_exact_witness:
  "path_is_very_safe (bytes ''img/a.b-c.png'' @ [0]) = Some 1"
  using path_is_very_safe_ascii_exact [of "bytes ''img/a.b-c.png'' @ [0]"]
  by (simp add: cstr_def has_nul_def path_ok_def name_ok_def name_char_def safe_spec_def SAFE_PATH_MAX_def)

end
