(* ===== verification/Esq_Scan.thy ===== *)
theory Esq_Scan
  imports Esq_Prelude
begin

text \<open>
  The small scanners of \<^verbatim>\<open>libs/sscanf\<close>: decimal integers (\<^verbatim>\<open>integer-10000000.c\<close>), dotted IPv4
  addresses (\<^verbatim>\<open>ipv4-addr.c\<close>) and hash strings (\<^verbatim>\<open>hash-string.c\<close>).  Each is a loop over the input
  dispatching on a 256-entry table and a state; each is shown equal to a grammar-like reference
  written with \<open>takeWhile\<close> and \<open>dropWhile\<close>.  A result is the return value together with what is
  stored through the output pointers, if anything.
\<close>

section \<open>Character classes\<close>

definition is_digit :: "byte \<Rightarrow> bool" where
  "is_digit c \<longleftrightarrow> 48 \<le> unat c \<and> unat c \<le> 57"

definition is_blank :: "byte \<Rightarrow> bool" where
  "is_blank c \<longleftrightarrow> unat c \<in> {9, 10, 13, 32}"

text \<open>\<^verbatim>\<open>c - '0'\<close> and the value of a digit string.\<close>

definition digit_val :: "byte \<Rightarrow> int" where
  "digit_val c = int (unat c) - 48"

definition dec :: "byte list \<Rightarrow> int" where
  "dec ds = foldl (\<lambda>v c. v * 10 + digit_val c) 0 ds"

lemma dec_simps [simp]: "dec [] = 0" "dec (ds @ [c]) = dec ds * 10 + digit_val c" "dec [c] = digit_val c"
  by (simp_all add: dec_def)

lemma digit_val_bounds: "is_digit c \<Longrightarrow> 0 \<le> digit_val c \<and> digit_val c \<le> 9"
  unfolding is_digit_def digit_val_def by linarith

lemma dec_nonneg: "\<forall>c \<in> set ds. is_digit c \<Longrightarrow> 0 \<le> dec ds"
  by (induction ds rule: rev_induct) (auto dest: digit_val_bounds)

lemma dec_mono: "\<forall>c \<in> set (ds @ es). is_digit c \<Longrightarrow> dec ds \<le> dec (ds @ es)"
proof (induction es rule: rev_induct)
  case (snoc e es)
  then have "dec ds \<le> dec (ds @ es)" "0 \<le> dec (ds @ es)" "0 \<le> digit_val e"
    by (auto dest: digit_val_bounds intro!: dec_nonneg)
  then show ?case by (simp flip: append_assoc)
qed simp

lemma blank_not_digit: "is_blank c \<Longrightarrow> \<not> is_digit c"
  by (auto simp: is_blank_def is_digit_def)

section \<open>Integers\<close>

definition str_2_integer_handle_table :: "nat list" where
  "str_2_integer_handle_table =
     replicate 9 0 @ [2, 2, 0, 0, 2] @ replicate 18 0 @ [2] @ replicate 15 0 @ replicate 10 1 @ replicate 198 0"

definition NUMBERLIMIT :: int where "NUMBERLIMIT = 10000000"

datatype int_statu = I_START | I_NUMBER

type_synonym int_result = "int \<times> int option"

text \<open>\<^verbatim>\<open>FETCH_NUMBER\<close>; the state is the pair of \<open>statu\<close> and \<open>v\<close>.\<close>

definition gi_fetch_number :: "int_statu \<times> int \<Rightarrow> byte \<Rightarrow> (int_result + int_statu \<times> int) option" where
  "gi_fetch_number s c =
     (case s of
        (I_START, v) \<Rightarrow> Some (Inr (I_NUMBER, digit_val c))
      | (I_NUMBER, v) \<Rightarrow>
          do {
            v \<leftarrow> i32 (v * 10 + digit_val c);
            Some (if v > NUMBERLIMIT then Inl (0, None) else Inr (I_NUMBER, v))
          })"

definition gi_fetch_blank :: "int_statu \<times> int \<Rightarrow> nat \<Rightarrow> int_result + int_statu \<times> int" where
  "gi_fetch_blank s i =
     (case s of (I_START, v) \<Rightarrow> Inr s | (I_NUMBER, v) \<Rightarrow> Inl (int i, Some v))"

definition gi_step :: "int_statu \<times> int \<Rightarrow> nat \<Rightarrow> byte \<Rightarrow> (int_result + int_statu \<times> int) option" where
  "gi_step s i c =
     do {
       h \<leftarrow> rd str_2_integer_handle_table (unat c);
       (if h = 0 then Some (Inl (0, None))
        else if h = 1 then gi_fetch_number s c
        else Some (gi_fetch_blank s i))
     }"

definition gi_finish :: "int_statu \<times> int \<Rightarrow> nat \<Rightarrow> int_result option" where
  "gi_finish s i = Some (case gi_fetch_blank s i of Inl r \<Rightarrow> r | Inr _ \<Rightarrow> (0, None))"

definition get_integer_1000000 :: "byte list \<Rightarrow> int \<Rightarrow> int_result option" where
  "get_integer_1000000 buf len = scan gi_step gi_finish buf len 0 (I_START, 0)"

definition int_class :: "nat \<Rightarrow> nat" where
  "int_class n = (if 48 \<le> n \<and> n \<le> 57 then 1 else if n \<in> {9, 10, 13, 32} then 2 else 0)"

interpretation gi: byte_table str_2_integer_handle_table int_class
  by unfold_locales code_simp

lemma gi_step_cases:
  "is_blank c \<Longrightarrow> gi_step s i c = Some (gi_fetch_blank s i)"
  "is_digit c \<Longrightarrow> gi_step s i c = gi_fetch_number s c"
  "\<not> is_blank c \<Longrightarrow> \<not> is_digit c \<Longrightarrow> gi_step s i c = Some (Inl (0, None))"
  by (auto simp: gi_step_def gi.tbl_rd int_class_def is_blank_def is_digit_def)

text \<open>Reference: blanks, a run of digits, then the end or a blank.\<close>

definition ends_field :: "byte list \<Rightarrow> bool" where
  "ends_field r \<longleftrightarrow> r = [] \<or> is_blank (hd r)"

definition parse_integer :: "byte list \<Rightarrow> int_result" where
  "parse_integer s =
     (let s' = dropWhile is_blank s; ds = takeWhile is_digit s'; r = dropWhile is_digit s' in
      if ds = [] \<or> \<not> ends_field r \<or> dec ds > NUMBERLIMIT then (0, None)
      else (int (length s - length r), Some (dec ds)))"

lemma gi_digits:
  assumes "\<forall>c \<in> set ds. is_digit c" "ds \<noteq> []" "dec ds \<le> NUMBERLIMIT"
  shows "scan_list gi_step gi_finish i (I_NUMBER, dec ds) r =
    Some (let es = takeWhile is_digit r; r' = dropWhile is_digit r in
      if \<not> ends_field r' \<or> dec (ds @ es) > NUMBERLIMIT then (0, None)
      else (int (i + length es), Some (dec (ds @ es))))"
  using assms
proof (induction r arbitrary: i ds)
  case Nil
  then show ?case by (simp add: gi_finish_def gi_fetch_blank_def ends_field_def)
next
  case (Cons c r)
  show ?case
  proof (cases "is_digit c")
    case True
    have ok: "i32 (dec ds * 10 + digit_val c) = Some (dec (ds @ [c]))"
      using dec_nonneg [OF Cons.prems(1)] Cons.prems(3) digit_val_bounds [OF True]
      by (simp add: i32_def NUMBERLIMIT_def)
    show ?thesis
    proof (cases "dec (ds @ [c]) \<le> NUMBERLIMIT")
      case in_range: True
      then show ?thesis
        using Cons.IH [of "ds @ [c]" "Suc i"] Cons.prems True ok
        by (simp add: gi_step_cases gi_fetch_number_def Let_def)
    next
      case False
      have "dec (ds @ [c]) \<le> dec ((ds @ [c]) @ takeWhile is_digit r)"
        using Cons.prems True set_takeWhileD by (intro dec_mono) fastforce
      then show ?thesis
        using False True ok by (simp add: gi_step_cases gi_fetch_number_def Let_def)
    qed
  next
    case False
    then show ?thesis
      using Cons.prems by (cases "is_blank c")
        (simp_all add: gi_step_cases gi_fetch_blank_def ends_field_def Let_def)
  qed
qed

lemma gi_start:
  "scan_list gi_step gi_finish i (I_START, v) s =
     Some (let s' = dropWhile is_blank s; ds = takeWhile is_digit s'; r = dropWhile is_digit s' in
      if ds = [] \<or> \<not> ends_field r \<or> dec ds > NUMBERLIMIT then (0, None)
      else (int (i + (length s - length r)), Some (dec ds)))"
proof (induction s arbitrary: i)
  case Nil
  then show ?case by (simp add: gi_finish_def gi_fetch_blank_def)
next
  case (Cons c s)
  have len: "length (dropWhile is_digit (dropWhile is_blank s)) \<le> length s"
    using length_dropWhile_le le_trans by blast
  consider "is_blank c" | "is_digit c" | "\<not> is_blank c" "\<not> is_digit c" by blast
  then show ?case
  proof cases
    case 1
    then show ?thesis
      using Cons [of "Suc i"] len by (simp add: gi_step_cases gi_fetch_blank_def Let_def Suc_diff_le)
  next
    case 2
    then have "\<not> is_blank c" using blank_not_digit by blast
    moreover have "length s = length (takeWhile is_digit s) + length (dropWhile is_digit s)"
      by (metis length_append takeWhile_dropWhile_id)
    moreover have "dec [c] \<le> NUMBERLIMIT" using digit_val_bounds [OF 2] by (simp add: NUMBERLIMIT_def)
    ultimately show ?thesis
      using 2 gi_digits [of "[c]" "Suc i" s]
      by (simp add: gi_step_cases gi_fetch_number_def Let_def)
  qed (simp add: gi_step_cases)
qed

lemma get_integer_parse:
  "len \<le> length buf \<Longrightarrow> get_integer_1000000 buf (int len) = Some (parse_integer (take len buf))"
  by (simp add: get_integer_1000000_def scan_eq_list gi_start parse_integer_def Let_def)

text \<open>
  C38.  \<open>get_integer_1000000\<close> is total on a buffer of the announced length (no access outside it, no
  signed overflow) and computes exactly the reference parser: leading blanks, a digit run whose value
  does not exceed the limit, then a blank or the end; the return value is the number of bytes up to
  the end of the digits.
\<close>

theorem get_integer_correct:
  assumes "len \<le> length buf"
  shows "get_integer_1000000 buf (int len) = Some (parse_integer (take len buf))"
  using assms by (rule get_integer_parse)

theorem get_integer_correct_witness:
  "get_integer_1000000 (bytes ''  120 x'') 7 = Some (5, Some 120)"
  using get_integer_correct [of 7 "bytes ''  120 x''"]
  by (simp add: parse_integer_def is_blank_def is_digit_def ends_field_def dec_def digit_val_def NUMBERLIMIT_def Let_def)

section \<open>IPv4 addresses\<close>

definition str_2_ipv4_handle_table :: "nat list" where
  "str_2_ipv4_handle_table =
     replicate 9 0 @ [3, 3, 0, 0, 3] @ replicate 18 0 @ [3] @ replicate 13 0 @ [2, 0]
     @ replicate 10 1 @ replicate 198 0"

datatype ipv4_statu =
  A_START | A_NUMBER1 | A_DOT1 | A_NUMBER2 | A_DOT2 | A_NUMBER3 | A_DOT3 | A_NUMBER4

record ipv4_scan =
  statu :: ipv4_statu
  number1 :: u32
  number2 :: u32
  number3 :: u32
  number4 :: u32

type_synonym ipv4_result = "int \<times> u32 option"

definition ip_fetch_number :: "ipv4_scan \<Rightarrow> byte \<Rightarrow> ipv4_result + ipv4_scan" where
  "ip_fetch_number st c =
     (let d = word_of_int (digit_val c) in
      case statu st of
        A_START \<Rightarrow> Inr (st\<lparr>statu := A_NUMBER1, number1 := d\<rparr>)
      | A_NUMBER1 \<Rightarrow>
          (let n = number1 st * 10 + d in if n \<ge> 255 then Inl (0, None) else Inr (st\<lparr>number1 := n\<rparr>))
      | A_DOT1 \<Rightarrow> Inr (st\<lparr>statu := A_NUMBER2, number2 := d\<rparr>)
      | A_NUMBER2 \<Rightarrow>
          (let n = number2 st * 10 + d in if n \<ge> 255 then Inl (0, None) else Inr (st\<lparr>number2 := n\<rparr>))
      | A_DOT2 \<Rightarrow> Inr (st\<lparr>statu := A_NUMBER3, number3 := d\<rparr>)
      | A_NUMBER3 \<Rightarrow>
          (let n = number3 st * 10 + d in if n \<ge> 255 then Inl (0, None) else Inr (st\<lparr>number3 := n\<rparr>))
      | A_DOT3 \<Rightarrow> Inr (st\<lparr>statu := A_NUMBER4, number4 := d\<rparr>)
      | A_NUMBER4 \<Rightarrow>
          (let n = number4 st * 10 + d in if n \<ge> 255 then Inl (0, None) else Inr (st\<lparr>number4 := n\<rparr>)))"

definition ip_fetch_dot :: "ipv4_scan \<Rightarrow> ipv4_result + ipv4_scan" where
  "ip_fetch_dot st =
     (case statu st of
        A_START \<Rightarrow> Inl (0, None)
      | A_NUMBER1 \<Rightarrow> Inr (st\<lparr>statu := A_DOT1\<rparr>)
      | A_DOT1 \<Rightarrow> Inl (0, None)
      | A_NUMBER2 \<Rightarrow> Inr (st\<lparr>statu := A_DOT2\<rparr>)
      | A_DOT2 \<Rightarrow> Inl (0, None)
      | A_NUMBER3 \<Rightarrow> Inr (st\<lparr>statu := A_DOT3\<rparr>)
      | A_DOT3 \<Rightarrow> Inl (0, None)
      | A_NUMBER4 \<Rightarrow> Inl (0, None))"

text \<open>What is stored at the end: the octets shifted into one 32-bit number.\<close>

definition ip_addr :: "ipv4_scan \<Rightarrow> u32" where
  "ip_addr st = push_bit 24 (number1 st) + push_bit 16 (number2 st) + push_bit 8 (number3 st) + number4 st"

definition ip_fetch_blank :: "ipv4_scan \<Rightarrow> nat \<Rightarrow> ipv4_result + ipv4_scan" where
  "ip_fetch_blank st i =
     (case statu st of
        A_START \<Rightarrow> Inr st
      | A_NUMBER4 \<Rightarrow> Inl (int i, Some (ip_addr st))
      | _ \<Rightarrow> Inl (0, None))"

definition ip_step :: "ipv4_scan \<Rightarrow> nat \<Rightarrow> byte \<Rightarrow> (ipv4_result + ipv4_scan) option" where
  "ip_step st i c =
     do {
       h \<leftarrow> rd str_2_ipv4_handle_table (unat c);
       Some (if h = 0 then Inl (0, None)
             else if h = 1 then ip_fetch_number st c
             else if h = 2 then ip_fetch_dot st
             else if h = 3 then ip_fetch_blank st i
             else Inl (0, None))
     }"

definition ip_finish :: "ipv4_scan \<Rightarrow> nat \<Rightarrow> ipv4_result option" where
  "ip_finish st i = Some (case ip_fetch_blank st i of Inl r \<Rightarrow> r | Inr _ \<Rightarrow> (0, None))"

definition get_ipv4_addr :: "byte list \<Rightarrow> int \<Rightarrow> ipv4_result option" where
  "get_ipv4_addr buf len =
     scan ip_step ip_finish buf len 0
       \<lparr>statu = A_START, number1 = 0, number2 = 0, number3 = 0, number4 = 0\<rparr>"

definition match_ipv4_addr :: "byte list \<Rightarrow> int \<Rightarrow> int option" where
  "match_ipv4_addr buf len = do { (r, a) \<leftarrow> get_ipv4_addr buf len; Some r }"

definition get_ipv4_addr2 :: "byte list \<Rightarrow> ipv4_result option" where
  "get_ipv4_addr2 buf =
     do {
       len \<leftarrow> strnlen buf 16;
       (if len > 15 \<or> len \<le> 0 then Some (0, None) else get_ipv4_addr buf (int len))
     }"

text \<open>Reference: \<open>Suc m\<close> octets are still to come, \<open>ns\<close> have been read, \<open>i\<close> bytes are consumed.\<close>

definition addr_of :: "int list \<Rightarrow> u32" where
  "addr_of ns = word_of_int (foldl (\<lambda>a n. a * 256 + n) 0 ns)"

fun parse_octets :: "nat \<Rightarrow> int list \<Rightarrow> nat \<Rightarrow> byte list \<Rightarrow> ipv4_result" where
  "parse_octets m ns i s =
     (let ds = takeWhile is_digit s; r = dropWhile is_digit s; j = i + length ds in
      if ds = [] \<or> 255 \<le> dec ds then (0, None)
      else case m of
             0 \<Rightarrow> if ends_field r then (int j, Some (addr_of (ns @ [dec ds]))) else (0, None)
           | Suc m' \<Rightarrow>
               (case r of
                  [] \<Rightarrow> (0, None)
                | c # r' \<Rightarrow> if c = ch CHR ''.'' then parse_octets m' (ns @ [dec ds]) (Suc j) r' else (0, None)))"

declare parse_octets.simps [simp del]

definition parse_ipv4 :: "byte list \<Rightarrow> ipv4_result" where
  "parse_ipv4 s = parse_octets 3 [] (length (takeWhile is_blank s)) (dropWhile is_blank s)"

text \<open>The eight states, by octet: before octet \<open>k\<close> and inside it; the octets as a list.\<close>

definition ip_class :: "nat \<Rightarrow> nat" where
  "ip_class n = (if 48 \<le> n \<and> n \<le> 57 then 1 else if n = 46 then 2 else if n \<in> {9, 10, 13, 32} then 3 else 0)"

interpretation ip: byte_table str_2_ipv4_handle_table ip_class
  by unfold_locales code_simp

lemma ip_step_cases:
  "is_blank c \<Longrightarrow> ip_step st i c = Some (ip_fetch_blank st i)"
  "is_digit c \<Longrightarrow> ip_step st i c = Some (ip_fetch_number st c)"
  "c = ch CHR ''.'' \<Longrightarrow> ip_step st i c = Some (ip_fetch_dot st)"
  "\<not> is_blank c \<Longrightarrow> \<not> is_digit c \<Longrightarrow> c \<noteq> ch CHR ''.'' \<Longrightarrow> ip_step st i c = Some (Inl (0, None))"
  unfolding ip_step_def ip.tbl_rd by (auto simp: ip_class_def is_blank_def is_digit_def word_unat_eq_iff)

definition before_octet :: "nat \<Rightarrow> ipv4_statu" where
  "before_octet k = [A_START, A_DOT1, A_DOT2, A_DOT3] ! k"

definition in_octet :: "nat \<Rightarrow> ipv4_statu" where
  "in_octet k = [A_NUMBER1, A_NUMBER2, A_NUMBER3, A_NUMBER4] ! k"

definition numbers :: "ipv4_scan \<Rightarrow> u32 list" where
  "numbers st = [number1 st, number2 st, number3 st, number4 st]"

lemmas ip_defs = before_octet_def in_octet_def numbers_def ip_fetch_number_def ip_fetch_dot_def ip_fetch_blank_def

lemma less_4_cases: "k < (4::nat) \<Longrightarrow> k = 0 \<or> k = 1 \<or> k = 2 \<or> k = 3"
  by linarith

lemma ip_number_first:
  assumes "k < 4" "statu st = before_octet k"
  shows "\<exists>st'. ip_fetch_number st c = Inr st' \<and> statu st' = in_octet k \<and>
           numbers st' = (numbers st)[k := word_of_int (digit_val c)]"
  using less_4_cases [OF assms(1)] assms(2) by (elim disjE) (simp_all add: ip_defs Let_def)

lemma ip_number_next:
  assumes "k < 4" "statu st = in_octet k"
  shows "let n = numbers st ! k * 10 + word_of_int (digit_val c) in
         if 255 \<le> n then ip_fetch_number st c = Inl (0, None)
         else \<exists>st'. ip_fetch_number st c = Inr st' \<and> statu st' = in_octet k \<and> numbers st' = (numbers st)[k := n]"
  using less_4_cases [OF assms(1)] assms(2) by (elim disjE) (simp_all add: ip_defs Let_def)

lemma ip_dot:
  assumes "k < 4" "statu st = in_octet k"
  shows "ip_fetch_dot st = (if k < 3 then Inr (st\<lparr>statu := before_octet (Suc k)\<rparr>) else Inl (0, None))"
  using less_4_cases [OF assms(1)] assms(2) by (elim disjE) (simp_all add: ip_defs)

lemma ip_blank:
  assumes "k < 4" "statu st = in_octet k"
  shows "ip_fetch_blank st i = Inl (if k < 3 then (0, None) else (int i, Some (ip_addr st)))"
  using less_4_cases [OF assms(1)] assms(2) by (elim disjE) (simp_all add: ip_defs)

lemma ip_before_dot: "k < 4 \<Longrightarrow> statu st = before_octet k \<Longrightarrow> ip_fetch_dot st = Inl (0, None)"
  by (drule less_4_cases) (elim disjE; simp add: ip_defs)

lemma ip_before_blank:
  "0 < k \<Longrightarrow> k < 4 \<Longrightarrow> statu st = before_octet k \<Longrightarrow> ip_fetch_blank st i = Inl (0, None)"
  by (drule less_4_cases) (elim disjE; simp add: ip_defs)

lemma numbers_update_statu [simp]: "numbers (st\<lparr>statu := x\<rparr>) = numbers st"
  by (simp add: numbers_def)

lemma length_numbers [simp]: "length (numbers st) = 4"
  by (simp add: numbers_def)

lemma ip_addr_numbers:
  assumes "numbers st = map word_of_int ns"
  shows "ip_addr st = addr_of ns"
proof -
  obtain a b c d where "ns = [a, b, c, d]"
    using assms by (auto simp: numbers_def map_eq_Cons_conv)
  with assms show ?thesis
    by (simp add: numbers_def ip_addr_def addr_of_def push_bit_eq_mult algebra_simps
        flip: wi_hom_add wi_hom_mult)
qed

lemma octet_limit:
  assumes "0 \<le> x" "x < 2560"
  shows "255 \<le> (word_of_int x :: u32) \<longleftrightarrow> 255 \<le> x"
  using assms by (simp add: word_le_def uint_word_of_int)

lemma octet_append:
  "(word_of_int (dec ds) :: u32) * 10 + word_of_int (digit_val c) = word_of_int (dec (ds @ [c]))"
  by (simp add: wi_hom_add [symmetric] wi_hom_mult [symmetric])

lemma parse_octets_split:
  assumes "\<forall>c \<in> set ds. is_digit c" "ds \<noteq> []" "r = [] \<or> \<not> is_digit (hd r)"
  shows "parse_octets m ns i (ds @ r) =
    (if 255 \<le> dec ds then (0, None)
     else case m of
            0 \<Rightarrow> if ends_field r then (int (i + length ds), Some (addr_of (ns @ [dec ds]))) else (0, None)
          | Suc m' \<Rightarrow>
              (case r of
                 [] \<Rightarrow> (0, None)
               | c # r' \<Rightarrow> if c = ch CHR ''.'' then parse_octets m' (ns @ [dec ds]) (Suc (i + length ds)) r' else (0, None)))"
proof -
  have "takeWhile is_digit r = []" "dropWhile is_digit r = r" using assms(3) by (cases r; auto)+
  then have "takeWhile is_digit (ds @ r) = ds" "dropWhile is_digit (ds @ r) = r" using assms(1) by simp_all
  then show ?thesis using assms(2) by (simp add: parse_octets.simps [of m ns i "ds @ r"] Let_def)
qed

lemma parse_octets_too_big:
  assumes "\<forall>c \<in> set ds. is_digit c" "255 \<le> dec ds"
  shows "parse_octets m ns i (ds @ r) = (0, None)"
proof -
  have "dec ds \<le> dec (ds @ takeWhile is_digit r)"
    using assms(1) set_takeWhileD by (intro dec_mono) fastforce
  then show ?thesis using assms by (simp add: parse_octets.simps [of m ns i "ds @ r"] Let_def)
qed

lemma ip_digit:
  assumes k: "k < 4" "length ns = k"
    and st: "statu st = in_octet k" "take (Suc k) (numbers st) = map word_of_int (ns @ [dec ds])"
    and ds: "\<forall>c \<in> set ds. is_digit c" "dec ds < 255" "is_digit c"
  shows "if 255 \<le> dec (ds @ [c]) then ip_step st i c = Some (Inl (0, None))
         else \<exists>st'. ip_step st i c = Some (Inr st') \<and> statu st' = in_octet k \<and>
                take (Suc k) (numbers st') = map word_of_int (ns @ [dec (ds @ [c])])"
proof -
  have num: "numbers st ! k = word_of_int (dec ds)" and ns: "take k (numbers st) = map word_of_int ns"
    using arg_cong [OF st(2), of "\<lambda>l. l ! k"] arg_cong [OF st(2), of "take k"] k by (simp_all add: nth_append)
  have dec: "0 \<le> dec (ds @ [c])" "dec (ds @ [c]) < 2560"
    using dec_nonneg [OF ds(1)] digit_val_bounds [OF ds(3)] ds(2) by simp_all
  note step = ip_number_next [OF k(1) st(1), of c, unfolded num octet_append Let_def octet_limit [OF dec]]
  show ?thesis
  proof (cases "255 \<le> dec (ds @ [c])")
    case True
    then show ?thesis using step ds(3) by (simp add: ip_step_cases)
  next
    case False
    then obtain st' where st': "ip_fetch_number st c = Inr st'" "statu st' = in_octet k"
      "numbers st' = (numbers st)[k := word_of_int (dec (ds @ [c]))]" using step by (auto simp del: dec_simps)
    then have "take (Suc k) (numbers st') = map word_of_int (ns @ [dec (ds @ [c])])"
      using ns k(1) by (simp add: take_Suc_conv_app_nth)
    with st' False ds(3) show ?thesis by (simp add: ip_step_cases del: dec_simps)
  qed
qed

text \<open>Inside an octet whose digits \<open>ds\<close> have been read, given the lemma for the next octets.\<close>

lemma ip_in_octet:
  assumes km: "k + m = 3" "length ns = k"
    and IH: "\<And>m' ns i st s. m = Suc m' \<Longrightarrow> length ns = Suc k \<Longrightarrow> statu st = before_octet (Suc k) \<Longrightarrow>
      take (Suc k) (numbers st) = map word_of_int ns \<Longrightarrow>
      scan_list ip_step ip_finish i st s = Some (parse_octets m' ns i s)"
    and st: "statu st = in_octet k" "take (Suc k) (numbers st) = map word_of_int (ns @ [dec ds])"
    and ds: "\<forall>c \<in> set ds. is_digit c" "ds \<noteq> []" "dec ds < 255"
  shows "scan_list ip_step ip_finish (i + length ds) st r = Some (parse_octets m ns i (ds @ r))"
  using st ds
proof (induction r arbitrary: st ds)
  case Nil
  note b = ip_blank [OF _ Nil.prems(1)]
  have "numbers st = map word_of_int (ns @ [dec ds])" if "k = 3" using Nil.prems(2) that by simp
  then show ?case
    using Nil.prems km parse_octets_split [OF Nil.prems(3,4), of "[]" m ns i] b ip_addr_numbers
    by (cases m) (simp_all add: ip_finish_def ends_field_def)
next
  case (Cons c r)
  have k: "k < 4" using km by simp
  note split = parse_octets_split [OF Cons.prems(3,4), of "c # r" m ns i]
  consider (digit) "is_digit c" | (dot) "c = ch CHR ''.''" "\<not> is_digit c" "\<not> is_blank c" | (blank) "is_blank c" "\<not> is_digit c" "c \<noteq> ch CHR ''.''"
    | (other) "\<not> is_blank c" "\<not> is_digit c" "c \<noteq> ch CHR ''.''"
    by (fastforce simp: is_blank_def is_digit_def)
  then show ?case
  proof cases
    case digit
    note step = ip_digit [OF k km(2) Cons.prems(1,2,3,5) digit, of "i + length ds"]
    show ?thesis
      using step digit parse_octets_too_big [of "ds @ [c]" m ns i r] Cons.prems Cons.IH [of _ "ds @ [c]"]
      by (cases "255 \<le> dec (ds @ [c])") (auto simp del: dec_simps)
  next
    case dot
    then show ?thesis
      using split ip_dot [OF k Cons.prems(1)] km Cons.prems
        IH [of _ "ns @ [dec ds]" "st\<lparr>statu := before_octet (Suc k)\<rparr>" "Suc (i + length ds)" r]
      by (cases m) (simp_all add: ip_step_cases ends_field_def)
  next
    case blank
    moreover have "numbers st = map word_of_int (ns @ [dec ds])" if "k = 3" using Cons.prems(2) that by simp
    ultimately show ?thesis
      using split ip_blank [OF k Cons.prems(1)] km Cons.prems ip_addr_numbers
      by (cases m) (simp_all add: ip_step_cases ends_field_def)
  next
    case other
    then show ?thesis
      using split Cons.prems by (cases m) (simp_all add: ip_step_cases ends_field_def)
  qed
qed

lemma ip_octets:
  assumes "k + m = 3" "length ns = k" "statu st = before_octet k" "take k (numbers st) = map word_of_int ns"
    and "k = 0 \<Longrightarrow> s \<noteq> [] \<Longrightarrow> \<not> is_blank (hd s)"
  shows "scan_list ip_step ip_finish i st s = Some (parse_octets m ns i s)"
  using assms
proof (induction m arbitrary: k ns st i s rule: less_induct)
  case (less m)
  have k: "k < 4" using less.prems(1) by simp
  show ?case
  proof (cases s)
    case Nil
    then show ?thesis
      using less.prems k less_4_cases [OF k] by (auto simp: ip_finish_def parse_octets.simps [of m] ip_defs)
  next
    case (Cons c r)
    show ?thesis
    proof (cases "is_digit c")
      case True
      obtain st' where st': "ip_fetch_number st c = Inr st'" "statu st' = in_octet k"
        "numbers st' = (numbers st)[k := word_of_int (digit_val c)]"
        using ip_number_first [OF k less.prems(3)] by blast
      have "take (Suc k) (numbers st') = map word_of_int (ns @ [dec [c]])"
        using st'(3) less.prems(4) k by (simp add: take_Suc_conv_app_nth)
      moreover have "dec [c] < 255" using digit_val_bounds [OF True] by simp
      ultimately have "scan_list ip_step ip_finish (i + length [c]) st' r = Some (parse_octets m ns i ([c] @ r))"
        using less.prems True less.IH [of _ "Suc k"] by (intro ip_in_octet [OF _ _ _ st'(2)]) auto
      then show ?thesis using Cons True st'(1) by (simp add: ip_step_cases)
    next
      case False
      moreover have "ip_step st i c = Some (Inl (0, None))"
        using False less.prems(3,5) k ip_before_dot [of k] ip_before_blank [of k] Cons
        by (cases "is_blank c"; cases "c = ch CHR ''.''"; cases "k = 0") (simp_all add: ip_step_cases)
      ultimately show ?thesis using Cons by (simp add: parse_octets.simps [of m])
    qed
  qed
qed

lemma ip_leading_blanks:
  "statu st = A_START \<Longrightarrow> scan_list ip_step ip_finish i st s =
     scan_list ip_step ip_finish (i + length (takeWhile is_blank s)) st (dropWhile is_blank s)"
  by (induction s arbitrary: i) (simp_all add: ip_step_cases ip_fetch_blank_def)

lemma get_ipv4_parse:
  assumes "len \<le> length buf"
  shows "get_ipv4_addr buf (int len) = Some (parse_ipv4 (take len buf))"
proof -
  let ?st = "\<lparr>statu = A_START, number1 = 0, number2 = 0, number3 = 0, number4 = 0\<rparr> :: ipv4_scan"
  let ?s = "take len buf"
  have "scan_list ip_step ip_finish 0 ?st ?s
      = scan_list ip_step ip_finish (length (takeWhile is_blank ?s)) ?st (dropWhile is_blank ?s)"
    by (subst ip_leading_blanks) simp_all
  also have "\<dots> = Some (parse_octets 3 [] (length (takeWhile is_blank ?s)) (dropWhile is_blank ?s))"
    by (rule ip_octets [of 0]) (auto simp: before_octet_def hd_dropWhile)
  finally show ?thesis
    using assms by (simp add: get_ipv4_addr_def scan_eq_list parse_ipv4_def)
qed

text \<open>The decimal printer, for the round trips.\<close>

fun dec_print :: "nat \<Rightarrow> byte list" where
  "dec_print n = (if n < 10 then [] else dec_print (n div 10)) @ [of_nat (48 + n mod 10)]"

declare dec_print.simps [simp del]

lemma digit_of_nat:
  assumes "d < 10"
  shows "is_digit (of_nat (48 + d))" "digit_val (of_nat (48 + d)) = int d"
proof -
  have "unat (of_nat (48 + d) :: byte) = 48 + d"
    unfolding unat_of_nat using assms by (intro mod_less) simp
  then show "is_digit (of_nat (48 + d))" "digit_val (of_nat (48 + d)) = int d"
    using assms unfolding is_digit_def digit_val_def by linarith+
qed

lemma dec_print_dec: "(\<forall>c \<in> set (dec_print n). is_digit c) \<and> dec_print n \<noteq> [] \<and> dec (dec_print n) = int n"
proof (induction n rule: dec_print.induct)
  case (1 n)
  have "n mod 10 < 10" by simp
  note d = digit_of_nat [OF this]
  have n: "int (n div 10) * 10 + int (n mod 10) = int n"
    by (metis div_mult_mod_eq of_nat_add of_nat_mult of_nat_numeral)
  show ?case
  proof (cases "n < 10")
    case True
    then have "dec_print n = [of_nat (48 + n mod 10)]" by (simp add: dec_print.simps [of n])
    with d True show ?thesis by (simp only: list.set dec_simps) simp
  next
    case False
    then have "dec_print n = dec_print (n div 10) @ [of_nat (48 + n mod 10)]" by (simp add: dec_print.simps [of n])
    with 1 [OF False] d n show ?thesis by (simp only: set_append list.set dec_simps Un_iff) auto
  qed
qed

lemma run_of_class:
  assumes "\<forall>c \<in> set xs. P c" "ys = [] \<or> \<not> P (hd ys)"
  shows "takeWhile P (xs @ ys) = xs" "dropWhile P (xs @ ys) = ys"
  using assms by (cases ys; simp)+

definition ipv4_print :: "nat \<Rightarrow> nat \<Rightarrow> nat \<Rightarrow> nat \<Rightarrow> byte list" where
  "ipv4_print a b c d = dec_print a @ ch CHR ''.'' # dec_print b @ ch CHR ''.'' # dec_print c @ ch CHR ''.'' # dec_print d"

lemma dot_not_digit: "\<not> is_digit 0x2E" "\<not> is_blank 0x2E"
  by (simp_all add: is_digit_def is_blank_def)

lemma parse_octets_print:
  assumes "a < 255" "r = [] \<or> \<not> is_digit (hd r)"
  shows "parse_octets m ns i (dec_print a @ r) =
    (case m of
       0 \<Rightarrow> if ends_field r then (int (i + length (dec_print a)), Some (addr_of (ns @ [int a]))) else (0, None)
     | Suc m' \<Rightarrow>
        (case r of
           [] \<Rightarrow> (0, None)
         | c # r' \<Rightarrow> if c = ch CHR ''.'' then parse_octets m' (ns @ [int a]) (Suc (i + length (dec_print a))) r' else (0, None)))"
proof -
  have e: "dec (dec_print a) = int a" and p: "\<forall>c \<in> set (dec_print a). is_digit c" "dec_print a \<noteq> []"
    using dec_print_dec [of a] by blast+
  show ?thesis using parse_octets_split [OF p assms(2), of m ns i] assms(1) unfolding e by simp
qed

lemma parse_ipv4_print:
  assumes "a < 255" "b < 255" "c < 255" "d < 255" "\<forall>x \<in> set bl. is_blank x" "ends_field r"
  shows "parse_ipv4 (bl @ ipv4_print a b c d @ r) =
    (int (length bl + length (ipv4_print a b c d)), Some (of_nat (a * 2 ^ 24 + b * 2 ^ 16 + c * 2 ^ 8 + d)))"
proof -
  let ?s = "ipv4_print a b c d @ r"
  have hd: "hd ?s \<in> set (dec_print a)" using dec_print_dec [of a] by (simp add: ipv4_print_def)
  then have "\<not> is_blank (hd ?s)" using dec_print_dec [of a] blank_not_digit by blast
  note run = run_of_class [of bl is_blank ?s, OF assms(5) disjI2, OF this]
  have r: "r = [] \<or> \<not> is_digit (hd r)" using assms(6) blank_not_digit by (auto simp: ends_field_def)
  have "parse_octets 3 [] (length bl) ?s
      = (int (length bl + length (ipv4_print a b c d)), Some (addr_of [int a, int b, int c, int d]))"
    using assms r dot_not_digit
    by (simp add: ipv4_print_def parse_octets_print numeral_3_eq_3)
  moreover have "addr_of [int a, int b, int c, int d] = of_nat (a * 2 ^ 24 + b * 2 ^ 16 + c * 2 ^ 8 + d)"
    by (simp add: addr_of_def wi_hom_add [symmetric] wi_hom_mult [symmetric] algebra_simps)
  ultimately show ?thesis by (simp add: parse_ipv4_def run)
qed

text \<open>
  C36.  \<open>get_ipv4_addr\<close> (and \<open>match_ipv4_addr\<close>, and \<open>get_ipv4_addr2\<close> on NUL-terminated input of at most
  15 bytes) is total and computes exactly the reference grammar: blanks, four dotted decimal octets
  below 255, then a blank or the end.
\<close>

theorem get_ipv4_addr_correct:
  assumes "len \<le> length buf" "has_nul str"
  shows "get_ipv4_addr buf (int len) = Some (parse_ipv4 (take len buf)) \<and>
    match_ipv4_addr buf (int len) = Some (fst (parse_ipv4 (take len buf))) \<and>
    get_ipv4_addr2 str = Some (if length (cstr str) \<in> {1..15} then parse_ipv4 (cstr str) else (0, None))"
proof -
  have "length (cstr str) \<le> length str" using has_nul_length_cstr [OF assms(2)] by simp
  then have "get_ipv4_addr2 str = Some (if length (cstr str) \<in> {1..15} then parse_ipv4 (cstr str) else (0, None))"
    using get_ipv4_parse [of "length (cstr str)" str, unfolded cstr_take]
    by (cases "cstr str") (simp_all add: get_ipv4_addr2_def strnlen_cstr [OF assms(2)] min_def)
  then show ?thesis
    by (simp add: get_ipv4_parse [OF assms(1)] match_ipv4_addr_def split: prod.splits)
qed

theorem get_ipv4_addr_correct_witness:
  "get_ipv4_addr (bytes ''10.0.0.255'') 9 = Some (9, Some 0x0A000019) \<and>
   match_ipv4_addr (bytes ''10.0.0.255'') 9 = Some 9 \<and>
   get_ipv4_addr2 (bytes '' 1.2.3.x'' @ [0]) = Some (0, None)"
  using get_ipv4_addr_correct [of 9 "bytes ''10.0.0.255''" "bytes '' 1.2.3.x'' @ [0]"]
  by (simp add: parse_ipv4_def parse_octets.simps is_blank_def is_digit_def dec_def digit_val_def ends_field_def
      addr_of_def cstr_def has_nul_def)

text \<open>
  C37.  Round trip: the dotted form of four octets below 255, after any blanks and before a blank or
  the end of the input, is read back as the address with these octets, and the return value is the
  position behind it.
\<close>

theorem get_ipv4_addr_roundtrip:
  assumes "a < 255" "b < 255" "c < 255" "d < 255" "\<forall>x \<in> set bl. is_blank x" "ends_field r"
  shows "get_ipv4_addr (bl @ ipv4_print a b c d @ r) (int (length (bl @ ipv4_print a b c d @ r))) =
    Some (int (length bl + length (ipv4_print a b c d)), Some (of_nat (a * 2 ^ 24 + b * 2 ^ 16 + c * 2 ^ 8 + d)))"
  by (subst get_ipv4_parse) (simp_all only: parse_ipv4_print [OF assms] take_all order.refl)

theorem get_ipv4_addr_roundtrip_witness:
  "get_ipv4_addr (bytes '' 192.168.1.20'') 13 = Some (13, Some 0xC0A80114)"
  using get_ipv4_addr_roundtrip [of 192 168 1 20 "[32]" "[]"]
  by (simp add: ends_field_def is_blank_def ipv4_print_def dec_print.simps)

section \<open>Hash strings\<close>

definition hash_string_handle_table :: "nat list" where
  "hash_string_handle_table =
     replicate 9 0 @ [2, 2, 0, 0, 2] @ replicate 18 0 @ [2] @ replicate 15 0 @ replicate 10 1
     @ replicate 7 0 @ replicate 6 1 @ replicate 17 0 @ [3] @ replicate 8 0 @ replicate 6 1
     @ replicate 17 0 @ [3] @ replicate 135 0"

datatype hash_statu = H_START | H_HASH

text \<open>The return value, and the values stored through \<open>hash_start\<close> and \<open>hash_len\<close>.\<close>

type_synonym hash_result = "int \<times> (int \<times> int) option"

definition hs_finished :: "nat \<Rightarrow> nat \<Rightarrow> hash_result" where
  "hs_finished start i =
     (let l = int i - int start in
      if l AND 1 \<noteq> 0 then (-1, None) else (int i + 1, Some (int start, l)))"

definition hs_step :: "hash_statu \<times> nat \<Rightarrow> nat \<Rightarrow> byte \<Rightarrow> (hash_result + hash_statu \<times> nat) option" where
  "hs_step s i c =
     do {
       h \<leftarrow> rd hash_string_handle_table (unat c);
       Some (if h = 0 then Inl (-1, None)
             else if h = 1 then (case s of (H_START, start) \<Rightarrow> Inr (H_HASH, i) | (H_HASH, start) \<Rightarrow> Inr s)
             else if h = 2 then (case s of (H_START, start) \<Rightarrow> Inr s | (H_HASH, start) \<Rightarrow> Inl (-1, None))
             else if h = 3 then Inl (hs_finished (snd s) i)
             else Inl (-1, None))
     }"

definition get_hash_string :: "byte list \<Rightarrow> int \<Rightarrow> hash_result option" where
  "get_hash_string buf len = scan hs_step (\<lambda>s i. Some (-1, None)) buf len 0 (H_START, 0)"

definition hash_string_2_bin_table :: "int list" where
  "hash_string_2_bin_table =
     replicate 48 0 @ [0, 1, 2, 3, 4, 5, 6, 7, 8, 9] @ replicate 7 0 @ [10, 11, 12, 13, 14, 15]
     @ replicate 26 0 @ [10, 11, 12, 13, 14, 15] @ replicate 153 0"

function hs2b_loop :: "byte list \<Rightarrow> byte list \<Rightarrow> int \<Rightarrow> nat \<Rightarrow> nat \<Rightarrow> byte list option" where
  "hs2b_loop buf hash_string hash_str_len i w =
     (if int i < hash_str_len then
        do {
          a \<leftarrow> rd hash_string i;
          ch \<leftarrow> rd hash_string_2_bin_table (unat a);
          b \<leftarrow> rd hash_string (i + 1);
          cl \<leftarrow> rd hash_string_2_bin_table (unat b);
          buf' \<leftarrow> wr buf w (word_of_int (push_bit 4 ch + cl));
          hs2b_loop buf' hash_string hash_str_len (i + 2) (w + 1)
        }
      else Some buf)"
  by pat_completeness auto
termination
  by (relation "measure (\<lambda>(buf, hs, l, i, w). nat (l - int i))") auto

declare hs2b_loop.simps [simp del]

definition hash_str_2_bin :: "byte list \<Rightarrow> byte list \<Rightarrow> int \<Rightarrow> (int \<times> byte list) option" where
  "hash_str_2_bin buf hash_string hash_str_len =
     (if hash_str_len AND 1 \<noteq> 0 then Some (-1, buf)
      else do { buf' \<leftarrow> hs2b_loop buf hash_string hash_str_len 0 0; Some (0, buf') })"

text \<open>The classes of characters, and the values of the digits.\<close>

definition is_hex :: "byte \<Rightarrow> bool" where
  "is_hex c \<longleftrightarrow> 48 \<le> unat c \<and> unat c \<le> 57 \<or> 65 \<le> unat c \<and> unat c \<le> 70 \<or> 97 \<le> unat c \<and> unat c \<le> 102"

definition is_mark :: "byte \<Rightarrow> bool" where
  "is_mark c \<longleftrightarrow> c = ch CHR ''x'' \<or> c = ch CHR ''X''"

definition hash_class :: "nat \<Rightarrow> nat" where
  "hash_class n =
     (if 48 \<le> n \<and> n \<le> 57 \<or> 65 \<le> n \<and> n \<le> 70 \<or> 97 \<le> n \<and> n \<le> 102 then 1
      else if n \<in> {9, 10, 13, 32} then 2 else if n \<in> {88, 120} then 3 else 0)"

definition hash_val :: "nat \<Rightarrow> int" where
  "hash_val n =
     (if 48 \<le> n \<and> n \<le> 57 then int n - 48
      else if 65 \<le> n \<and> n \<le> 70 then int n - 55
      else if 97 \<le> n \<and> n \<le> 102 then int n - 87 else 0)"

interpretation hs: byte_table hash_string_handle_table hash_class
  by unfold_locales code_simp

interpretation hb: byte_table hash_string_2_bin_table hash_val
  by unfold_locales code_simp

text \<open>What the scan computes on a whole buffer, in terms of its last step.\<close>

definition hash_scan :: "byte list \<Rightarrow> hash_result" where
  "hash_scan s =
     (let bl = takeWhile is_blank s; s' = dropWhile is_blank s;
          hx = takeWhile is_hex s'; r = dropWhile is_hex s'; start = (if hx = [] then 0 else length bl) in
      if r = [] \<or> \<not> is_mark (hd r) then (-1, None) else hs_finished start (length bl + length hx))"

lemma hs_step_cases:
  "is_blank c \<Longrightarrow> hs_step s i c = Some (case s of (H_START, start) \<Rightarrow> Inr s | (H_HASH, start) \<Rightarrow> Inl (-1, None))"
  "is_hex c \<Longrightarrow> hs_step s i c = Some (case s of (H_START, start) \<Rightarrow> Inr (H_HASH, i) | (H_HASH, start) \<Rightarrow> Inr s)"
  "is_mark c \<Longrightarrow> hs_step s i c = Some (Inl (hs_finished (snd s) i))"
  "\<not> is_blank c \<Longrightarrow> \<not> is_hex c \<Longrightarrow> \<not> is_mark c \<Longrightarrow> hs_step s i c = Some (Inl (-1, None))"
  unfolding hs_step_def hs.tbl_rd
  by (auto simp: hash_class_def is_blank_def is_hex_def is_mark_def word_unat_eq_iff)

lemma hash_classes_disjoint:
  "is_blank c \<Longrightarrow> \<not> is_hex c \<and> \<not> is_mark c" "is_mark c \<Longrightarrow> \<not> is_hex c"
  by (auto simp: is_blank_def is_hex_def is_mark_def)

lemma hs_hash:
  "scan_list hs_step (\<lambda>s i. Some (-1, None)) i (H_HASH, start) s =
     (let hx = takeWhile is_hex s; r = dropWhile is_hex s in
      Some (if r = [] \<or> \<not> is_mark (hd r) then (-1, None) else hs_finished start (i + length hx)))"
proof (induction s arbitrary: i)
  case (Cons c s)
  consider "is_hex c" | "is_mark c" "\<not> is_hex c" | "\<not> is_mark c" "\<not> is_hex c" by blast
  then show ?case
    using Cons hash_classes_disjoint [of c]
    by cases (cases "is_blank c"; simp add: hs_step_cases Let_def)+
qed simp

lemma hs_start:
  "scan_list hs_step (\<lambda>s i. Some (-1, None)) i (H_START, start) s =
     (let bl = takeWhile is_blank s; s' = dropWhile is_blank s; hx = takeWhile is_hex s'; r = dropWhile is_hex s' in
      Some (if r = [] \<or> \<not> is_mark (hd r) then (-1, None)
            else hs_finished (if hx = [] then start else i + length bl) (i + length bl + length hx)))"
proof (induction s arbitrary: i)
  case (Cons c s)
  consider "is_blank c" | "is_hex c" "\<not> is_blank c" | "is_mark c" "\<not> is_hex c" "\<not> is_blank c"
    | "\<not> is_mark c" "\<not> is_hex c" "\<not> is_blank c" using hash_classes_disjoint by blast
  then show ?case
    using Cons by cases (simp_all add: hs_step_cases hs_hash Let_def)
qed simp

lemma get_hash_scan:
  "len \<le> length buf \<Longrightarrow> get_hash_string buf (int len) = Some (hash_scan (take len buf))"
  by (simp add: get_hash_string_def scan_eq_list hs_start hash_scan_def Let_def)

definition hash_byte :: "byte list \<Rightarrow> nat \<Rightarrow> byte" where
  "hash_byte hs j = word_of_int (16 * hash_val (unat (hs ! (2 * j))) + hash_val (unat (hs ! (2 * j + 1))))"

lemma hs2b_loop_correct:
  assumes "2 * k \<le> length hs" "k \<le> length b" "w \<le> k"
  shows "hs2b_loop (patched (map (hash_byte hs) [0..<w]) b) hs (int (2 * k)) (2 * w) w
    = Some (patched (map (hash_byte hs) [0..<k]) b)"
  using assms
proof (induction "k - w" arbitrary: w rule: less_induct)
  case less
  let ?ds = "map (hash_byte hs) [0..<w]"
  show ?case
  proof (cases "w = k")
    case True
    then show ?thesis by (simp add: hs2b_loop.simps [of _ hs])
  next
    case False
    then have w: "w < k" using less.prems by simp
    have "wr (patched ?ds b) w v = Some (patched (?ds @ [v]) b)" for v
      using wr_patched [of ?ds b v] w less.prems by simp
    moreover have "rd hs (2 * w) = Some (hs ! (2 * w))" "rd hs (2 * w + 1) = Some (hs ! (2 * w + 1))"
      using w less.prems by (simp_all add: rd_in)
    ultimately have "hs2b_loop (patched ?ds b) hs (int (2 * k)) (2 * w) w
        = hs2b_loop (patched (?ds @ [hash_byte hs w]) b) hs (int (2 * k)) (2 * w + 2) (w + 1)"
      using w by (subst hs2b_loop.simps) (simp add: hb.tbl_rd hash_byte_def push_bit_eq_mult mult.commute)
    then show ?thesis using less.hyps [of "Suc w"] w less.prems by simp
  qed
qed

lemma hash_str_2_bin_even:
  assumes "2 * k \<le> length hs" "k \<le> length b"
  shows "hash_str_2_bin b hs (int (2 * k)) = Some (0, map (hash_byte hs) [0..<k] @ drop k b)"
  using hs2b_loop_correct [OF assms, of 0]
  by (simp add: hash_str_2_bin_def and_one_eq patched_def)

text \<open>The printer of hash strings.\<close>

definition hash_digit :: "nat \<Rightarrow> byte" where
  "hash_digit n = (if n < 10 then of_nat (48 + n) else of_nat (87 + n))"

definition hash_print :: "byte list \<Rightarrow> byte list" where
  "hash_print bs = concat (map (\<lambda>b. [hash_digit (unat b div 16), hash_digit (unat b mod 16)]) bs)"

lemma hash_digit_val: "n < 16 \<Longrightarrow> is_hex (hash_digit n) \<and> hash_val (unat (hash_digit n)) = int n"
proof -
  assume "n < 16"
  then have "n \<in> set [0..<16]" by simp
  moreover have "\<forall>n \<in> set [0..<16]. is_hex (hash_digit n) \<and> hash_val (unat (hash_digit n)) = int n" by code_simp
  ultimately show ?thesis by blast
qed

lemma length_hash_print [simp]: "length (hash_print bs) = 2 * length bs"
  by (induction bs) (simp_all add: hash_print_def)

lemma nibble_less: "unat (b :: byte) div 16 < 16"
  using byte_less_256 [of b] by (simp only: less_mult_imp_div_less)

lemma hash_print_hex: "c \<in> set (hash_print bs) \<Longrightarrow> is_hex c"
  using nibble_less hash_digit_val by (fastforce simp: hash_print_def)

lemma hash_print_nth:
  "j < length bs \<Longrightarrow> hash_print bs ! (2 * j) = hash_digit (unat (bs ! j) div 16) \<and>
     hash_print bs ! (2 * j + 1) = hash_digit (unat (bs ! j) mod 16)"
proof (induction bs arbitrary: j)
  case (Cons b bs)
  have "hash_print (b # bs) = hash_digit (unat b div 16) # hash_digit (unat b mod 16) # hash_print bs"
    by (simp add: hash_print_def)
  then show ?case using Cons by (cases j) simp_all
qed simp

lemma hash_byte_print:
  assumes "j < length bs"
  shows "hash_byte (hash_print bs @ r) j = bs ! j"
proof -
  have "(hash_print bs @ r) ! (2 * j) = hash_digit (unat (bs ! j) div 16)"
    "(hash_print bs @ r) ! (2 * j + 1) = hash_digit (unat (bs ! j) mod 16)"
    using assms hash_print_nth [OF assms] by (simp_all add: nth_append)
  moreover have "16 * int (unat (bs ! j) div 16) + int (unat (bs ! j) mod 16) = int (unat (bs ! j))"
    by (metis mult_div_mod_eq of_nat_add of_nat_mult of_nat_numeral)
  ultimately show ?thesis
    using hash_digit_val [OF nibble_less [of "bs ! j"]] hash_digit_val [of "unat (bs ! j) mod 16"]
    by (simp only: hash_byte_def) simp
qed

lemma hash_scan_print:
  assumes "\<forall>x \<in> set bl. is_blank x" "bs \<noteq> []" "is_mark m"
  shows "hash_scan (bl @ hash_print bs @ m # r) =
    (int (length bl + 2 * length bs) + 1, Some (int (length bl), int (2 * length bs)))"
proof -
  have ne: "hash_print bs \<noteq> []" using assms(2) length_hash_print [of bs] by (metis length_0_conv mult_eq_0_iff zero_neq_numeral)
  then have "hd (hash_print bs @ m # r) \<in> set (hash_print bs)" by simp
  then have "\<not> is_blank (hd (hash_print bs @ m # r))" using hash_print_hex hash_classes_disjoint by blast
  note bl = run_of_class [of bl is_blank "hash_print bs @ m # r", OF assms(1) disjI2, OF this]
  have nh: "\<not> is_hex (hd (m # r))" using assms(3) hash_classes_disjoint by simp
  note hx = run_of_class [of "hash_print bs" is_hex "m # r", OF _ disjI2, OF _ nh]
  show ?thesis
    using assms(3) ne nh hash_print_hex by (simp add: hash_scan_def bl hx Let_def hs_finished_def and_one_eq)
qed

text \<open>
  The reference of the comment: blanks, an even number of hexadecimal digits, the end mark.  The result is the
  number of characters read and the place and the length of the digits.
\<close>

definition parse_hash :: "byte list \<Rightarrow> hash_result" where
  "parse_hash s =
     (let blanks = length (takeWhile is_blank s); digits = length (takeWhile is_hex (dropWhile is_blank s)) in
      case drop (blanks + digits) s of
        [] \<Rightarrow> (-1, None)
      | c # _ \<Rightarrow>
          if is_mark c \<and> even digits then (int (blanks + digits + 1), Some (int blanks, int digits)) else (-1, None))"

text \<open>Blanks followed at once by the end mark.\<close>

definition blank_hash :: "byte list \<Rightarrow> bool" where
  "blank_hash s \<longleftrightarrow> takeWhile is_blank s \<noteq> [] \<and> dropWhile is_blank s \<noteq> [] \<and> is_mark (hd (dropWhile is_blank s))"

lemma hash_scan_parse: "\<not> blank_hash s \<Longrightarrow> hash_scan s = parse_hash s"
proof -
  define bl hx r where "bl = takeWhile is_blank s" and "hx = takeWhile is_hex (dropWhile is_blank s)" and "r = dropWhile is_hex (dropWhile is_blank s)"
  assume nb: "\<not> blank_hash s"
  have d: "dropWhile is_blank s = hx @ r" by (simp add: hx_def r_def)
  have "s = bl @ hx @ r" unfolding bl_def hx_def r_def by simp
  then have "drop (length bl + length hx) s = r" by simp
  then have p: "parse_hash s = (case r of [] \<Rightarrow> (-1, None) | c # _ \<Rightarrow> if is_mark c \<and> even (length hx)
      then (int (length bl + length hx + 1), Some (int (length bl), int (length hx))) else (-1, None))"
    unfolding parse_hash_def Let_def bl_def [symmetric] hx_def [symmetric] by simp
  have "hx = [] \<Longrightarrow> r \<noteq> [] \<Longrightarrow> is_mark (hd r) \<Longrightarrow> bl = []" using nb d by (auto simp: blank_hash_def bl_def)
  then show ?thesis unfolding p hash_scan_def Let_def bl_def [symmetric] hx_def [symmetric] r_def [symmetric]
    by (cases r) (auto simp: hs_finished_def Let_def and_one_eq odd_iff_mod_2_eq_one)
qed

text \<open>The recorded start is still 0 when no digit was seen, so blanks before the end mark are taken as the hash string.\<close>

lemma get_hash_string_blank:
  assumes "\<forall>x \<in> set bl. is_blank x" "is_mark m" "even (length bl)"
  shows "get_hash_string (bl @ m # r) (int (length (bl @ m # r))) = Some (int (length bl) + 1, Some (0, int (length bl)))"
proof -
  have "\<not> is_blank m" "\<not> is_hex m" using assms(2) hash_classes_disjoint by blast+
  then have "takeWhile is_blank (bl @ m # r) = bl" "dropWhile is_blank (bl @ m # r) = m # r" using assms(1) by simp_all
  then have "hash_scan (bl @ m # r) = (int (length bl) + 1, Some (0, int (length bl)))"
    using assms(2,3) \<open>\<not> is_hex m\<close> by (simp add: hash_scan_def Let_def hs_finished_def and_one_eq)
  then show ?thesis using get_hash_scan [OF order.refl, of "bl @ m # r"] by simp
qed

text \<open>
  C39.  On every buffer that does not have blanks directly followed by the end mark, \<open>get_hash_string\<close> reads only inside
  the buffer and returns what its comment says: for blanks, an even number of hexadecimal digits and the end mark, the number
  of characters read and the place and the length of the digits; otherwise -1.  (Blanks directly before the end mark are taken
  as the hash string, lemma \<open>get_hash_string_blank\<close>.)
\<close>

theorem get_hash_string_correct:
  assumes "len \<le> length buf" "\<not> blank_hash (take len buf)"
  shows "get_hash_string buf (int len) = Some (parse_hash (take len buf))"
  using get_hash_scan [OF assms(1)] hash_scan_parse [OF assms(2)] by simp

theorem get_hash_string_correct_witness:
  "get_hash_string (bytes '' 0afx'') 5 = Some (-1, None) \<and> get_hash_string (bytes '' 00afxy'') 7 = Some (6, Some (1, 4))"
  using get_hash_string_correct [of 5 "bytes '' 0afx''"] get_hash_string_correct [of 7 "bytes '' 00afxy''"]
  by (simp add: parse_hash_def blank_hash_def is_blank_def is_hex_def is_mark_def)

text \<open>
  C40.  Round trip of hash strings: a printed non-empty hash, after blanks and before the end mark,
  is located by \<open>get_hash_string\<close>, and \<open>hash_str_2_bin\<close> on the located characters writes the original
  bytes to the start of the destination, touching nothing behind them.
\<close>

theorem hash_string_roundtrip:
  assumes "\<forall>x \<in> set bl. is_blank x" "bs \<noteq> []" "is_mark m" "length bs \<le> length dst"
  shows "\<exists>k start l. get_hash_string (bl @ hash_print bs @ m # r) (int (length (bl @ hash_print bs @ m # r)))
             = Some (k, Some (start, l)) \<and>
           hash_str_2_bin dst (drop (nat start) (bl @ hash_print bs @ m # r)) l
             = Some (0, bs @ drop (length bs) dst)"
proof -
  have "map (hash_byte (hash_print bs @ m # r)) [0..<length bs] = bs"
    by (rule nth_equalityI) (simp_all add: hash_byte_print)
  then have "hash_str_2_bin dst (hash_print bs @ m # r) (int (2 * length bs)) = Some (0, bs @ drop (length bs) dst)"
    using hash_str_2_bin_even [of "length bs" "hash_print bs @ m # r" dst] assms(4) by simp
  then show ?thesis
    using get_hash_scan [OF order.refl, of "bl @ hash_print bs @ m # r"] hash_scan_print [OF assms(1-3), of r]
    by (intro exI [of _ "int (length bl + 2 * length bs) + 1"] exI [of _ "int (length bl)"] exI [of _ "int (2 * length bs)"])
      (simp only: take_all order.refl nat_int append_eq_conv_conj drop_append, simp)
qed

theorem hash_string_roundtrip_witness:
  "\<exists>k start l. get_hash_string (bytes '' 00ffx'') 6 = Some (k, Some (start, l)) \<and>
     hash_str_2_bin [1, 2, 3] (drop (nat start) (bytes '' 00ffx'')) l = Some (0, [0, 255, 3])"
  using hash_string_roundtrip [of "[32]" "[0, 255]" "0x78" "[1, 2, 3]" "[]"]
  by (simp add: is_blank_def is_mark_def hash_print_def hash_digit_def)

end
