(* ===== verification/Esq_Percent.thy ===== *)
theory Esq_Percent
  imports Esq_Prelude
begin

text \<open>
  The in-place percent decoder of \<^verbatim>\<open>libs/escape-percent/escape-percent.c\<close>, and its reference:
  a structural decoder on byte lists.  The loop keeps a read index and a write index into one
  buffer; the refinement shows that the reference decoding of the first \<open>l\<close> bytes ends up at the
  start of the buffer, that no access leaves the buffer, and that malformed escapes give \<open>-1\<close>.
\<close>

section \<open>The model\<close>

definition epip_translate_table :: "int list" where
  "epip_translate_table =
     replicate 48 (-1) @ [0, 1, 2, 3, 4, 5, 6, 7, 8, 9] @ replicate 7 (-1)
     @ [10, 11, 12, 13, 14, 15] @ replicate 26 (-1)
     @ [10, 11, 12, 13, 14, 15] @ replicate 153 (-1)"

function epip_loop :: "int \<Rightarrow> byte list \<Rightarrow> nat \<Rightarrow> nat \<Rightarrow> (int \<times> byte list) option" where
  "epip_loop l buf i w =
     (if int i < l then
        do {
          c \<leftarrow> rd buf i;
          if c = ch CHR ''%'' then
            (if l - int i < 3 then Some (-1, buf)
             else do {
               t \<leftarrow> rd buf (i + 1);
               k \<leftarrow> rd epip_translate_table (unat t);
               (if k = -1 then Some (-1, buf)
                else do {
                  let code = (push_bit 4 (word_of_int k) :: byte);
                  t \<leftarrow> rd buf (i + 2);
                  k \<leftarrow> rd epip_translate_table (unat t);
                  (if k = -1 then Some (-1, buf)
                   else do {
                     let code = code + word_of_int k;
                     buf' \<leftarrow> wr buf w code;
                     epip_loop l buf' (i + 3) (w + 1)
                   })
                })
             })
          else do {
            buf' \<leftarrow> wr buf w c;
            epip_loop l buf' (i + 1) (w + 1)
          }
        }
      else Some (int w, buf))"
  by pat_completeness auto
termination
  by (relation "measure (\<lambda>(l, buf, i, w). nat (l - int i))") auto

declare epip_loop.simps [simp del]

definition escape_percent_in_place :: "byte list \<Rightarrow> int \<Rightarrow> (int \<times> byte list) option" where
  "escape_percent_in_place buf l = epip_loop l buf 0 0"

section \<open>The reference decoder and encoder\<close>

definition hexval_spec :: "nat \<Rightarrow> int" where
  "hexval_spec n =
     (if 48 \<le> n \<and> n \<le> 57 then int n - 48
      else if 65 \<le> n \<and> n \<le> 70 then int n - 55
      else if 97 \<le> n \<and> n \<le> 102 then int n - 87
      else -1)"

definition hexval :: "byte \<Rightarrow> nat option" where
  "hexval b = (let k = hexval_spec (unat b) in if k = -1 then None else Some (nat k))"

fun percent_decode :: "byte list \<Rightarrow> byte list option" where
  "percent_decode [] = Some []"
| "percent_decode (c # r) =
     (if c = ch CHR ''%'' then
        (case r of
           a # b # r' \<Rightarrow>
             (case (hexval a, hexval b) of
                (Some x, Some y) \<Rightarrow> map_option ((#) (of_nat (16 * x + y))) (percent_decode r')
              | _ \<Rightarrow> None)
         | _ \<Rightarrow> None)
      else map_option ((#) c) (percent_decode r))"

definition hexdigit :: "nat \<Rightarrow> byte" where
  "hexdigit n = (if n < 10 then of_nat (48 + n) else of_nat (55 + n))"

definition percent_encode_byte :: "byte \<Rightarrow> byte list" where
  "percent_encode_byte b = [ch CHR ''%'', hexdigit (unat b div 16), hexdigit (unat b mod 16)]"

section \<open>Table and digits\<close>

interpretation epip: byte_table epip_translate_table hexval_spec
  by unfold_locales code_simp

lemma hexval_spec_cases: "hexval_spec n = -1 \<or> 0 \<le> hexval_spec n \<and> hexval_spec n \<le> 15"
  by (auto simp: hexval_spec_def)

lemma hexval_lookup:
  "hexval b = None \<longleftrightarrow> hexval_spec (unat b) = -1"
  "hexval b = Some x \<Longrightarrow> hexval_spec (unat b) = int x \<and> x < 16"
  using hexval_spec_cases [of "unat b"] by (auto simp: hexval_def Let_def split: if_splits)

lemma hexval_hexdigit: "n < 16 \<Longrightarrow> hexval (hexdigit n) = Some n"
proof -
  assume "n < 16"
  then have "n \<in> set [0..<16]" by simp
  moreover have "\<forall>n \<in> set [0..<16]. hexval (hexdigit n) = Some n" by code_simp
  ultimately show ?thesis by blast
qed

lemma code_byte_eq:
  "(push_bit 4 (of_nat x) :: byte) + of_nat y = of_nat (16 * x + y)"
  by (simp add: push_bit_eq_mult mult.commute)

section \<open>One iteration of the loop, by branch\<close>

lemma epip_done: "\<not> int i < l \<Longrightarrow> epip_loop l buf i w = Some (int w, buf)"
  by (simp add: epip_loop.simps)

lemma epip_plain:
  assumes "int i < l" "rd buf i = Some c" "c \<noteq> ch CHR ''%''" "wr buf w c = Some buf'"
  shows "epip_loop l buf i w = epip_loop l buf' (Suc i) (Suc w)"
  using assms by (simp add: epip_loop.simps [of l buf i w])

lemma epip_short:
  assumes "int i < l" "rd buf i = Some (ch CHR ''%'')" "l - int i < 3"
  shows "epip_loop l buf i w = Some (-1, buf)"
  using assms by (simp add: epip_loop.simps [of l buf i w])

lemma epip_bad:
  assumes "int i + 2 < l" "rd buf i = Some (ch CHR ''%'')" "rd buf (i + 1) = Some a" "rd buf (i + 2) = Some b"
    and "hexval a = None \<or> hexval b = None"
  shows "epip_loop l buf i w = Some (-1, buf)"
  using assms by (auto simp: epip_loop.simps [of l buf i w] epip.tbl_rd hexval_lookup)

lemma epip_good:
  assumes "int i + 2 < l" "rd buf i = Some (ch CHR ''%'')" "rd buf (i + 1) = Some a" "rd buf (i + 2) = Some b"
    and "hexval a = Some x" "hexval b = Some y" "wr buf w (of_nat (16 * x + y)) = Some buf'"
  shows "epip_loop l buf i w = epip_loop l buf' (i + 3) (Suc w)"
  using assms hexval_lookup(2) [OF assms(5)] hexval_lookup(2) [OF assms(6)]
  by (simp add: epip_loop.simps [of l buf i w] epip.tbl_rd code_byte_eq del: of_nat_add of_nat_mult)

section \<open>The loop computes the reference decoding in place\<close>

text \<open>What the loop owes for the bytes \<open>xs\<close> still to be read, when \<open>ds\<close> has been written.\<close>

definition epip_post :: "byte list \<Rightarrow> byte list \<Rightarrow> byte list \<Rightarrow> (int \<times> byte list) option \<Rightarrow> bool" where
  "epip_post b ds xs res =
     (case percent_decode xs of
        Some es \<Rightarrow> res = Some (int (length (ds @ es)), patched (ds @ es) b)
      | None \<Rightarrow> (\<exists>b'. res = Some (-1, b') \<and> length b' = length b))"

lemma epip_post_plain:
  "c \<noteq> ch CHR ''%'' \<Longrightarrow> epip_post b ds (c # xs) res = epip_post b (ds @ [c]) xs res"
  by (auto simp: epip_post_def split: option.splits)

lemma epip_post_good:
  "c = ch CHR ''%'' \<Longrightarrow> hexval a = Some x \<Longrightarrow> hexval d = Some y \<Longrightarrow>
   epip_post b ds (c # a # d # xs) res = epip_post b (ds @ [of_nat (16 * x + y)]) xs res"
  by (auto simp: epip_post_def split: option.splits)

lemma epip_post_fail:
  "percent_decode xs = None \<Longrightarrow> length buf = length b \<Longrightarrow> epip_post b ds xs (Some (-1, buf))"
  by (simp add: epip_post_def)

lemma percent_decode_short: "length xs < 2 \<Longrightarrow> percent_decode (ch CHR ''%'' # xs) = None"
  by (auto split: list.splits)

lemma epip_loop_refines:
  assumes "length ds \<le> i" and "i \<le> l" and "l \<le> length b"
  shows "epip_post b ds (drop i (take l b)) (epip_loop (int l) (patched ds b) i (length ds))"
  using assms
proof (induction "l - i" arbitrary: i ds rule: less_induct)
  case less
  show ?case
  proof (cases "i < l")
    case False
    then show ?thesis using less.prems by (simp add: epip_done epip_post_def)
  next
    case True
    then have rd: "rd (patched ds b) i = Some (b ! i)"
      and wr: "wr (patched ds b) (length ds) v = Some (patched (ds @ [v]) b)" for v
      using less.prems by (simp_all add: c_patch)
    show ?thesis
    proof (cases "b ! i = ch CHR ''%''")
      case False
      then show ?thesis
        using less.hyps [of "Suc i" "ds @ [b ! i]"] True less.prems
        by (simp add: epip_plain [OF _ rd _ wr] drop_take_Cons epip_post_plain)
    next
      case esc: True
      show ?thesis
      proof (cases "l - i < 3")
        case short: True
        then have "length (drop (Suc i) (take l b)) < 2" using True less.prems by simp
        then have "percent_decode (drop i (take l b)) = None"
          using True esc less.prems by (simp only: drop_take_Cons percent_decode_short)
        then show ?thesis
          using short True rd esc less.prems by (simp add: epip_short epip_post_fail)
      next
        case False
        then have rd2: "rd (patched ds b) (i + 1) = Some (b ! (i + 1))"
          "rd (patched ds b) (i + 2) = Some (b ! (i + 2))" and l: "int i + 2 < int l"
          using less.prems by (simp_all add: c_patch)
        have xs: "drop i (take l b) = ch CHR ''%'' # b ! (i + 1) # b ! (i + 2) # drop (i + 3) (take l b)"
          using False esc less.prems by (simp add: drop_take_Cons numeral_eq_Suc)
        note acc = l rd [unfolded esc] rd2
        show ?thesis
        proof (cases "hexval (b ! (i + 1)) = None \<or> hexval (b ! (i + 2)) = None")
          case True
          then show ?thesis
            unfolding xs using epip_bad [OF acc True] less.prems by (auto intro!: epip_post_fail split: option.splits)
        next
          case False
          then obtain x y where "hexval (b ! (i + 1)) = Some x" "hexval (b ! (i + 2)) = Some y" by auto
          moreover have "l - (i + 3) < l - i" using l by linarith
          ultimately show ?thesis
            using less.hyps [of "i + 3" "ds @ [of_nat (16 * x + y)]"] l less.prems
            unfolding xs by (simp add: epip_good [OF acc _ _ wr] epip_post_good)
        qed
      qed
    qed
  qed
qed

section \<open>Properties\<close>

lemma percent_decode_length: "percent_decode xs = Some ds \<Longrightarrow> length ds \<le> length xs"
proof (induction xs arbitrary: ds rule: percent_decode.induct)
  case (2 c r)
  then show ?case by (fastforce split: if_splits list.splits option.splits)
qed simp

lemma escape_percent_post:
  "l \<le> length buf \<Longrightarrow> epip_post buf [] (take l buf) (escape_percent_in_place buf (int l))"
  using epip_loop_refines [of "[]" 0 l buf] by (simp add: escape_percent_in_place_def)

text \<open>
  C29.  \<open>escape_percent_in_place\<close> refines the reference decoder: on a buffer that holds the \<open>l\<close>
  bytes announced it never accesses memory outside the buffer and always returns; when the input
  decodes, the decoded bytes are at the start of the buffer, the bytes behind them are untouched
  and the return value is their number, which is at most \<open>l\<close>; otherwise the return value is \<open>-1\<close>.
\<close>

theorem escape_percent_correct:
  assumes "l \<le> length buf"
  shows "case percent_decode (take l buf) of
           Some ds \<Rightarrow> escape_percent_in_place buf (int l) = Some (int (length ds), ds @ drop (length ds) buf)
                      \<and> length ds \<le> l
         | None \<Rightarrow> \<exists>buf'. escape_percent_in_place buf (int l) = Some (-1, buf') \<and> length buf' = length buf"
  using escape_percent_post [OF assms] assms
  by (auto simp: epip_post_def patched_def dest: percent_decode_length split: option.splits)

theorem escape_percent_correct_witness:
  "escape_percent_in_place (bytes ''a%2Fb%20'') 8 = Some (4, bytes ''a/b '' @ bytes ''b%20'')"
  using escape_percent_correct [of 8 "bytes ''a%2Fb%20''"]
  by (simp add: hexval_def hexval_spec_def Let_def)

lemma byte_nibbles: "of_nat (16 * (unat b div 16) + unat b mod 16) = (b :: byte)"
  by (simp only: mult_div_mod_eq byte_eq_of_nat [symmetric])

lemma percent_decode_encode: "percent_decode (concat (map percent_encode_byte s)) = Some s"
proof (induction s)
  case (Cons b s)
  have "unat b div 16 < 16" using byte_less_256 [of b] by (simp only: less_mult_imp_div_less)
  then show ?case
    using Cons by (simp add: percent_encode_byte_def hexval_hexdigit byte_nibbles
        del: of_nat_add of_nat_mult)
qed simp

text \<open>
  C30.  Round trip: a buffer that holds the \<^verbatim>\<open>%XX\<close> encoding of any byte string is decoded back to
  that string, so every byte value (NUL, \<^verbatim>\<open>%\<close> and bytes above 127 included) can be transported.
\<close>

theorem escape_percent_roundtrip:
  assumes "enc = concat (map percent_encode_byte s)"
  shows "\<exists>tail. escape_percent_in_place (enc @ rest) (int (length enc)) = Some (int (length s), s @ tail)"
  using escape_percent_post [of "length enc" "enc @ rest"] assms
  by (simp add: epip_post_def percent_decode_encode patched_def)

theorem escape_percent_roundtrip_witness:
  "\<exists>tail. escape_percent_in_place (concat (map percent_encode_byte [0, 37, 255])) 9
           = Some (3, [0, 37, 255] @ tail)"
  using escape_percent_roundtrip [OF refl, of "[0, 37, 255]" "[]"]
  by (simp add: percent_encode_byte_def)

end
