(* ===== verification/Esq_Url.thy ===== *)
theory Esq_Url
  imports Esq_Percent
begin

text \<open>
  The URL parameter splitter \<^verbatim>\<open>libs/url-parameters-spliter/url-parameters-spliter.c\<close>: a five-state
  machine over strings such as \<^verbatim>\<open>?a=xxx?b=yyy\<close> that cuts names and values out of the buffer by
  overwriting separators with NUL and records their offsets and lengths in a parameter array.
  Pointers into the URL are offsets (\<open>None\<close> is \<open>NULL\<close>).
\<close>

section \<open>The model\<close>

definition esq_param_spliter_char_type :: "nat list" where
  "esq_param_spliter_char_type =
     replicate 37 0 @ [4] @ replicate 10 0 @ replicate 10 1 @ [0, 0, 0, 14, 0, 15, 0]
     @ replicate 26 2 @ replicate 6 0 @ replicate 26 3 @ replicate 133 0"

datatype split_state = S | Aq | Name | Ae | Value

record esq_url_parameter_t =
  pname :: "nat option"
  pname_len :: int
  pvalue :: "nat option"
  pvalue_len :: int

record splitter =
  sp_s :: split_state
  sp_idx :: nat
  sp_name_start :: nat
  sp_value_start :: nat
  sp_url :: "byte list"
  sp_param :: "esq_url_parameter_t list"

type_synonym split_result = "int \<times> byte list \<times> esq_url_parameter_t list"

text \<open>Return values: the count or \<open>-1\<close>, with the URL buffer and the parameters as they are then.\<close>

definition sp_return :: "int \<Rightarrow> splitter \<Rightarrow> split_result" where
  "sp_return r st = (r, sp_url st, sp_param st)"

text \<open>Assignments to \<^verbatim>\<open>param[idx]\<close> and \<^verbatim>\<open>url[i]\<close>, \<open>None\<close> when the index is out of range.\<close>

definition sp_set :: "(esq_url_parameter_t \<Rightarrow> esq_url_parameter_t) \<Rightarrow> splitter \<Rightarrow> splitter option" where
  "sp_set f st =
     do { p \<leftarrow> rd (sp_param st) (sp_idx st); ps \<leftarrow> wr (sp_param st) (sp_idx st) (f p); Some (st\<lparr>sp_param := ps\<rparr>) }"

definition sp_nul :: "nat \<Rightarrow> splitter \<Rightarrow> splitter option" where
  "sp_nul i st = do { u \<leftarrow> wr (sp_url st) i 0; Some (st\<lparr>sp_url := u\<rparr>) }"

text \<open>The two ways a parameter is completed.\<close>

definition sp_no_value :: "splitter \<Rightarrow> splitter option" where
  "sp_no_value st =
     do {
       st \<leftarrow> sp_set (\<lambda>p. p\<lparr>pvalue := None, pvalue_len := 0\<rparr>) st;
       Some (st\<lparr>sp_idx := sp_idx st + 1\<rparr>)
     }"

definition sp_end_value :: "nat \<Rightarrow> splitter \<Rightarrow> splitter option" where
  "sp_end_value i st =
     do {
       st \<leftarrow> sp_nul i st;
       st \<leftarrow> sp_set (\<lambda>p. p\<lparr>pvalue := Some (sp_value_start st), pvalue_len := int i - int (sp_value_start st)\<rparr>) st;
       Some (st\<lparr>sp_idx := sp_idx st + 1\<rparr>)
     }"

definition sp_step :: "int \<Rightarrow> splitter \<Rightarrow> nat \<Rightarrow> byte \<Rightarrow> (split_result + splitter) option" where
  "sp_step param_max st i c =
     do {
       r \<leftarrow> rd esq_param_spliter_char_type (unat c);
       (case sp_s st of
          S \<Rightarrow> if c = ch CHR ''?'' then Some (Inr (st\<lparr>sp_s := Aq\<rparr>)) else Some (Inl (sp_return (-1) st))
        | Aq \<Rightarrow>
            if r \<in> {1, 2, 3} then Some (Inr (st\<lparr>sp_name_start := i, sp_s := Name\<rparr>))
            else if r = 4 then Some (Inl (sp_return (-1) st))
            else if r = 15 \<or> r = 14 then Some (Inr st)
            else Some (Inl (sp_return (-1) st))
        | Name \<Rightarrow>
            if r \<in> {1, 2, 3} then Some (Inr st)
            else if r = 14 then
              (let st = st\<lparr>sp_s := Ae\<rparr> in
               if int (sp_idx st) < param_max then
                 do {
                   st \<leftarrow> sp_nul i st;
                   st \<leftarrow> sp_set (\<lambda>p. p\<lparr>pname := Some (sp_name_start st), pname_len := int i - int (sp_name_start st)\<rparr>) st;
                   Some (Inr st)
                 }
               else Some (Inl (sp_return (-1) st)))
            else Some (Inl (sp_return (-1) st))
        | Ae \<Rightarrow>
            if r \<in> {1, 2, 3} then Some (Inr (st\<lparr>sp_s := Value, sp_value_start := i\<rparr>))
            else if r = 4 then Some (Inr st)
            else if r = 15 then do { st \<leftarrow> sp_no_value (st\<lparr>sp_s := Aq\<rparr>); Some (Inr st) }
            else Some (Inl (sp_return (-1) st))
        | Value \<Rightarrow>
            if r \<in> {1, 2, 3, 4, 14} then Some (Inr st)
            else if r = 15 then do { st \<leftarrow> sp_end_value i (st\<lparr>sp_s := Aq\<rparr>); Some (Inr st) }
            else Some (Inl (sp_return (-1) st)))
     }"

text \<open>The loop that clears the parameters from \<open>idx\<close> on.\<close>

definition url_param_null :: esq_url_parameter_t where
  "url_param_null = \<lparr>pname = None, pname_len = 0, pvalue = None, pvalue_len = 0\<rparr>"

function sp_clear :: "int \<Rightarrow> nat \<Rightarrow> esq_url_parameter_t list \<Rightarrow> esq_url_parameter_t list option" where
  "sp_clear param_max i ps =
     (if int i < param_max then do { ps' \<leftarrow> wr ps i url_param_null; sp_clear param_max (i + 1) ps' }
      else Some ps)"
  by pat_completeness auto
termination
  by (relation "measure (\<lambda>(m, i, ps). nat (m - int i))") auto

declare sp_clear.simps [simp del]

definition sp_finish :: "int \<Rightarrow> splitter \<Rightarrow> nat \<Rightarrow> split_result option" where
  "sp_finish param_max st i =
     do {
       st \<leftarrow> (case sp_s st of Value \<Rightarrow> sp_end_value i st | Ae \<Rightarrow> sp_no_value st | _ \<Rightarrow> Some st);
       ps \<leftarrow> sp_clear param_max (sp_idx st) (sp_param st);
       Some (int (sp_idx st), sp_url st, ps)
     }"

function sp_loop :: "int \<Rightarrow> int \<Rightarrow> nat \<Rightarrow> splitter \<Rightarrow> split_result option" where
  "sp_loop url_len param_max i st =
     (if int i < url_len then
        do {
          c \<leftarrow> rd (sp_url st) i;
          x \<leftarrow> sp_step param_max st i c;
          (case x of Inl r \<Rightarrow> Some r | Inr st' \<Rightarrow> sp_loop url_len param_max (i + 1) st')
        }
      else sp_finish param_max st i)"
  by pat_completeness auto
termination
  by (relation "measure (\<lambda>(l, m, i, st). nat (l - int i))") auto

declare sp_loop.simps [simp del]

definition esq_split_parameters ::
  "byte list \<Rightarrow> int \<Rightarrow> esq_url_parameter_t list \<Rightarrow> int \<Rightarrow> split_result option" where
  "esq_split_parameters url url_len param param_max =
     sp_loop url_len param_max 0
       \<lparr>sp_s = S, sp_idx = 0, sp_name_start = 0, sp_value_start = 0, sp_url = url, sp_param = param\<rparr>"

text \<open>
  Decoding names and values in place: the decoder runs on the part of the URL buffer the pointer
  designates; a \<open>NULL\<close> pointer is only dereferenced by the final store of the terminator.
\<close>

definition escape_at :: "byte list \<Rightarrow> nat option \<Rightarrow> int \<Rightarrow> (int \<times> byte list) option" where
  "escape_at url p l =
     (case p of
        None \<Rightarrow> if 0 < l then None else Some (0, url)
      | Some off \<Rightarrow>
          if off \<le> length url then
            do { (r, b) \<leftarrow> escape_percent_in_place (drop off url) l; Some (r, take off url @ b) }
          else None)"

definition store_nul :: "byte list \<Rightarrow> nat option \<Rightarrow> int \<Rightarrow> byte list option" where
  "store_nul url p r = (case p of None \<Rightarrow> None | Some off \<Rightarrow> wr url (off + nat r) 0)"

function upe_loop :: "int \<Rightarrow> nat \<Rightarrow> byte list \<Rightarrow> esq_url_parameter_t list \<Rightarrow> split_result option" where
  "upe_loop param_max i url ps =
     (if int i < param_max then
        (case rd ps i of
           None \<Rightarrow> None
         | Some p \<Rightarrow>
             (case escape_at url (pname p) (pname_len p) of
                None \<Rightarrow> None
              | Some (r, url) \<Rightarrow>
                  if r < 0 then Some (-1, url, ps)
                  else do {
                    url \<leftarrow> store_nul url (pname p) r;
                    let p = p\<lparr>pname_len := r\<rparr>;
                    (case escape_at url (pvalue p) (pvalue_len p) of
                       None \<Rightarrow> None
                     | Some (r, url) \<Rightarrow>
                         if r < 0 then Some (-1, url, ps[i := p])
                         else do {
                           url \<leftarrow> store_nul url (pvalue p) r;
                           upe_loop param_max (i + 1) url (ps[i := p\<lparr>pvalue_len := r\<rparr>])
                         })
                  }))
      else Some (0, url, ps))"
  by pat_completeness auto
termination
  by (relation "measure (\<lambda>(m, i, url, ps). nat (m - int i))") auto

declare upe_loop.simps [simp del]

definition esq_url_parames_escape_in_place ::
  "byte list \<Rightarrow> esq_url_parameter_t list \<Rightarrow> int \<Rightarrow> split_result option" where
  "esq_url_parames_escape_in_place url param param_max = upe_loop param_max 0 url param"

section \<open>Character classes\<close>

definition url_class :: "nat \<Rightarrow> nat" where
  "url_class n =
     (if 48 \<le> n \<and> n \<le> 57 then 1 else if 65 \<le> n \<and> n \<le> 90 then 2 else if 97 \<le> n \<and> n \<le> 122 then 3
      else if n = 37 then 4 else if n = 61 then 14 else if n = 63 then 15 else 0)"

interpretation url: byte_table esq_param_spliter_char_type url_class
  by unfold_locales code_simp

definition alnum :: "byte \<Rightarrow> bool" where
  "alnum c \<longleftrightarrow> url_class (unat c) \<in> {1, 2, 3}"

definition value_char :: "byte \<Rightarrow> bool" where
  "value_char c \<longleftrightarrow> alnum c \<or> c = ch CHR ''%'' \<or> c = ch CHR ''=''"

section \<open>Safety: an invariant of the loop\<close>

lemma sp_clear_correct:
  "i \<le> length ps \<Longrightarrow> sp_clear (int (length ps)) i ps = Some (take i ps @ replicate (length ps - i) url_param_null)"
proof (induction "length ps - i" arbitrary: i ps rule: less_induct)
  case less
  show ?case
  proof (cases "i < length ps")
    case True
    then have "length ps - i = Suc (length ps - Suc i)" by simp
    then show ?thesis
      using True less.hyps [of "ps[i := url_param_null]" "Suc i"]
      by (simp add: sp_clear.simps [of _ i] wr_in take_Suc_conv_app_nth)
  next
    case False
    then show ?thesis using less.prems by (subst sp_clear.simps) simp
  qed
qed

definition sp_inv :: "nat \<Rightarrow> nat \<Rightarrow> splitter \<Rightarrow> bool" where
  "sp_inv blen param_max st \<longleftrightarrow>
     length (sp_param st) = param_max \<and> length (sp_url st) = blen \<and> sp_idx st \<le> param_max \<and>
     (sp_s st \<in> {Ae, Value} \<longrightarrow> sp_idx st < param_max)"

definition sp_result_ok :: "nat \<Rightarrow> nat \<Rightarrow> split_result option \<Rightarrow> bool" where
  "sp_result_ok blen param_max res \<longleftrightarrow>
     (\<exists>r url ps. res = Some (r, url, ps) \<and> (r = -1 \<or> 0 \<le> r \<and> r \<le> int param_max) \<and>
        length url = blen \<and> length ps = param_max)"

lemmas sp_ops = sp_set_def sp_nul_def sp_no_value_def sp_end_value_def rd_def wr_def

lemma sp_step_inv:
  assumes "sp_inv blen m st" "i < blen"
  shows "\<exists>x. sp_step (int m) st i c = Some x \<and>
    (case x of Inl r \<Rightarrow> sp_result_ok blen m (Some r) | Inr st' \<Rightarrow> sp_inv blen m st')"
  using assms unfolding sp_step_def url.tbl_rd
  by (cases "sp_s st")
    (simp_all add: sp_inv_def sp_result_ok_def sp_return_def sp_ops Let_def)

lemma sp_finish_inv:
  assumes "sp_inv blen m st" "i < blen"
  shows "sp_result_ok blen m (sp_finish (int m) st i)"
proof (cases "sp_s st")
  case Value
  then show ?thesis
    using assms sp_clear_correct [of "Suc (sp_idx st)" "(sp_param st)[sp_idx st := _]"]
    by (simp add: sp_finish_def sp_inv_def sp_result_ok_def sp_ops)
next
  case Ae
  then show ?thesis
    using assms sp_clear_correct [of "Suc (sp_idx st)" "(sp_param st)[sp_idx st := _]"]
    by (simp add: sp_finish_def sp_inv_def sp_result_ok_def sp_ops)
qed (use assms sp_clear_correct [of "sp_idx st" "sp_param st"] in
  \<open>simp_all add: sp_finish_def sp_inv_def sp_result_ok_def\<close>)

lemma sp_loop_safe:
  assumes "sp_inv blen m st" "l < blen" "i \<le> l"
  shows "sp_result_ok blen m (sp_loop (int l) (int m) i st)"
  using assms
proof (induction "l - i" arbitrary: i st rule: less_induct)
  case less
  show ?case
  proof (cases "i < l")
    case True
    have rd: "rd (sp_url st) i = Some (sp_url st ! i)"
      using True less.prems by (simp add: rd_in sp_inv_def)
    obtain x where x: "sp_step (int m) st i (sp_url st ! i) = Some x"
      "case x of Inl r \<Rightarrow> sp_result_ok blen m (Some r) | Inr st' \<Rightarrow> sp_inv blen m st'"
      using sp_step_inv [OF less.prems(1), of i] True less.prems by auto
    show ?thesis
      using less.hyps [of "Suc i"] less.prems True rd x
      by (cases x) (simp_all add: sp_loop.simps [of "int l" _ i])
  next
    case False
    then show ?thesis
      using less.prems sp_finish_inv [OF less.prems(1), of i] by (subst sp_loop.simps) simp
  qed
qed

section \<open>Splitting a well-formed parameter string\<close>

type_synonym param_text = "byte list \<times> byte list"

definition param_text_ok :: "param_text \<Rightarrow> bool" where
  "param_text_ok nv \<longleftrightarrow>
     (case nv of (n, v) \<Rightarrow> n \<noteq> [] \<and> (\<forall>c \<in> set n. alnum c) \<and> (\<forall>c \<in> set v. value_char c) \<and> (v \<noteq> [] \<longrightarrow> alnum (hd v)))"

fun params_text :: "param_text list \<Rightarrow> byte list" where
  "params_text [] = []"
| "params_text ((n, v) # ps) = n @ ch CHR ''='' # v @ (if ps = [] then [] else ch CHR ''?'' # params_text ps)"

text \<open>The buffer after splitting (\<open>t\<close> is the byte behind the string), and the recorded parameters.\<close>

fun params_cut :: "byte \<Rightarrow> param_text list \<Rightarrow> byte list" where
  "params_cut t [] = []"
| "params_cut t ((n, v) # ps) =
     n @ 0 # v @ (if v \<noteq> [] then 0 else if ps = [] then t else ch CHR ''?'') # params_cut t ps"

definition param_entry :: "nat \<Rightarrow> param_text \<Rightarrow> esq_url_parameter_t" where
  "param_entry off nv =
     (case nv of (n, v) \<Rightarrow>
        \<lparr>pname = Some off, pname_len = int (length n),
         pvalue = (if v = [] then None else Some (off + length n + 1)), pvalue_len = int (length v)\<rparr>)"

fun param_entries :: "nat \<Rightarrow> param_text list \<Rightarrow> esq_url_parameter_t list" where
  "param_entries off [] = []"
| "param_entries off ((n, v) # ps) = param_entry off (n, v) # param_entries (off + length n + length v + 2) ps"

lemma sp_loop_step:
  assumes "sp_url st = ds @ c # s" "length ds < l" "sp_step m st (length ds) c = Some (Inr st')"
  shows "sp_loop (int l) m (length ds) st = sp_loop (int l) m (Suc (length ds)) st'"
  using assms by (simp add: sp_loop.simps [of "int l" m "length ds"] rd_def)

lemma alnum_class: "alnum c \<Longrightarrow> url_class (unat c) \<in> {1, 2, 3}"
  by (simp add: alnum_def)

lemma value_class: "value_char c \<Longrightarrow> url_class (unat c) \<in> {1, 2, 3, 4, 14}"
  unfolding value_char_def by (elim disjE) (use alnum_class in auto, simp_all add: url_class_def)

lemma name_run:
  assumes "sp_s st = Name" "sp_url st = ds @ n @ s" "\<forall>c \<in> set n. alnum c" "length ds + length n \<le> l"
  shows "sp_loop (int l) m (length ds) st = sp_loop (int l) m (length ds + length n) st"
  using assms
proof (induction n arbitrary: ds)
  case (Cons c n)
  have "sp_step m st (length ds) c = Some (Inr st)"
    unfolding sp_step_def url.tbl_rd using Cons.prems alnum_class [of c] by simp
  then have "sp_loop (int l) m (length ds) st = sp_loop (int l) m (Suc (length ds)) st"
    using Cons.prems by (intro sp_loop_step) auto
  then show ?case using Cons.IH [of "ds @ [c]"] Cons.prems by simp
qed simp

lemma value_run:
  assumes "sp_s st = Value" "sp_url st = ds @ v @ s" "\<forall>c \<in> set v. value_char c" "length ds + length v \<le> l"
  shows "sp_loop (int l) m (length ds) st = sp_loop (int l) m (length ds + length v) st"
  using assms
proof (induction v arbitrary: ds)
  case (Cons c v)
  have "sp_step m st (length ds) c = Some (Inr st)"
    unfolding sp_step_def url.tbl_rd using Cons.prems value_class [of c] by simp
  then have "sp_loop (int l) m (length ds) st = sp_loop (int l) m (Suc (length ds)) st"
    using Cons.prems by (intro sp_loop_step) auto
  then show ?case using Cons.IH [of "ds @ [c]"] Cons.prems by simp
qed simp

text \<open>The state after one parameter has been scanned, before it is closed.\<close>

definition sp_open :: "splitter \<Rightarrow> byte list \<Rightarrow> byte list \<Rightarrow> byte list \<Rightarrow> byte list \<Rightarrow> splitter" where
  "sp_open st ds n v s =
     st\<lparr>sp_s := (if v = [] then Ae else Value), sp_name_start := length ds,
        sp_value_start := (if v = [] then sp_value_start st else length ds + length n + 1),
        sp_url := ds @ n @ 0 # v @ s,
        sp_param := (sp_param st)[sp_idx st := (sp_param st ! sp_idx st)\<lparr>pname := Some (length ds), pname_len := int (length n)\<rparr>]\<rparr>"

lemma url_class_marks [simp]: "url_class 61 = 14" "url_class 63 = 15"
  by (simp_all add: url_class_def)

lemma param_scan_value:
  assumes "sp_s st = Ae" "sp_url st = ds @ v @ s" "length ds + length v \<le> l"
    and "\<forall>c \<in> set v. value_char c" "v \<noteq> [] \<Longrightarrow> alnum (hd v)"
  shows "sp_loop (int l) m (length ds) st = sp_loop (int l) m (length ds + length v)
    (if v = [] then st else st\<lparr>sp_s := Value, sp_value_start := length ds\<rparr>)"
proof (cases v)
  case (Cons c v')
  let ?st = "st\<lparr>sp_s := Value, sp_value_start := length ds\<rparr>"
  have "sp_step m st (length ds) c = Some (Inr ?st)"
    unfolding sp_step_def url.tbl_rd using assms(1,5) Cons alnum_class [of c] by simp
  then have "sp_loop (int l) m (length ds) st = sp_loop (int l) m (Suc (length ds)) ?st"
    using assms Cons by (intro sp_loop_step) auto
  then show ?thesis using value_run [of ?st "ds @ [c]" v' s l m] assms Cons by simp
qed simp

lemma param_scan:
  assumes "sp_s st = Aq" "sp_url st = ds @ n @ ch CHR ''='' # v @ s" "param_text_ok (n, v)"
    and "sp_idx st < length (sp_param st)" "length ds + length n + length v + 1 \<le> l"
  shows "sp_loop (int l) (int (length (sp_param st))) (length ds) st
    = sp_loop (int l) (int (length (sp_param st))) (length ds + length n + 1 + length v) (sp_open st ds n v s)"
proof -
  obtain c n' where n: "n = c # n'" "alnum c" "\<forall>c \<in> set n'. alnum c"
    using assms(3) by (cases n) (auto simp: param_text_ok_def)
  let ?m = "int (length (sp_param st))"
  let ?st1 = "st\<lparr>sp_name_start := length ds, sp_s := Name\<rparr>"
  let ?st2 = "st\<lparr>sp_s := Ae, sp_name_start := length ds, sp_url := ds @ n @ 0 # v @ s,
        sp_param := (sp_param st)[sp_idx st := (sp_param st ! sp_idx st)\<lparr>pname := Some (length ds), pname_len := int (length n)\<rparr>]\<rparr>"
  have "sp_step ?m st (length ds) c = Some (Inr ?st1)"
    unfolding sp_step_def url.tbl_rd using assms(1) alnum_class [OF n(2)] by simp
  then have "sp_loop (int l) ?m (length ds) st = sp_loop (int l) ?m (Suc (length ds)) ?st1"
    using assms n by (intro sp_loop_step) auto
  also have "\<dots> = sp_loop (int l) ?m (length (ds @ n)) ?st1"
    using name_run [of ?st1 "ds @ [c]" n' "ch CHR ''='' # v @ s" l ?m] assms n by simp
  also have "\<dots> = sp_loop (int l) ?m (Suc (length (ds @ n))) ?st2"
  proof (rule sp_loop_step)
    show "sp_step ?m ?st1 (length (ds @ n)) (ch CHR ''='') = Some (Inr ?st2)"
      unfolding sp_step_def url.tbl_rd using assms(2,4) by (simp add: sp_ops list_update_append)
  qed (use assms in auto)
  also have "\<dots> = sp_loop (int l) ?m (length ds + length n + 1 + length v) (sp_open st ds n v s)"
  proof -
    have "(if v = [] then ?st2 else ?st2\<lparr>sp_s := Value, sp_value_start := length (ds @ n @ [0])\<rparr>) = sp_open st ds n v s"
      by (cases st) (simp add: sp_open_def)
    with param_scan_value [of ?st2 "ds @ n @ [0]" v s l ?m] assms(3,5) show ?thesis
      by (simp add: param_text_ok_def)
  qed
  finally show ?thesis .
qed

text \<open>Closing a parameter, at the next question mark or at the end of the string.\<close>

definition sp_closed :: "splitter \<Rightarrow> byte list \<Rightarrow> byte list \<Rightarrow> byte list \<Rightarrow> byte list \<Rightarrow> byte \<Rightarrow> splitter" where
  "sp_closed st ds n v s x =
     (sp_open st ds n v s)\<lparr>sp_s := Aq, sp_idx := Suc (sp_idx st),
        sp_url := ds @ n @ 0 # v @ (if v = [] then x else 0) # s,
        sp_param := (sp_param st)[sp_idx st := param_entry (length ds) (n, v)]\<rparr>"

lemma sp_open_simps [simp]:
  "sp_s (sp_open st ds n v s) = (if v = [] then Ae else Value)"
  "sp_idx (sp_open st ds n v s) = sp_idx st"
  "v \<noteq> [] \<Longrightarrow> sp_value_start (sp_open st ds n v s) = length ds + length n + 1"
  "sp_url (sp_open st ds n v s) = ds @ n @ 0 # v @ s"
  "sp_param (sp_open st ds n v s) = (sp_param st)[sp_idx st := (sp_param st ! sp_idx st)\<lparr>pname := Some (length ds), pname_len := int (length n)\<rparr>]"
  by (simp_all add: sp_open_def)

lemma sp_close:
  assumes "sp_idx st < length (sp_param st)" "i = length ds + length n + 1 + length v"
  shows "(if v = [] then sp_no_value ((sp_open st ds n v (x # s))\<lparr>sp_s := Aq\<rparr>)
          else sp_end_value i ((sp_open st ds n v (x # s))\<lparr>sp_s := Aq\<rparr>)) = Some (sp_closed st ds n v s x)"
proof -
  have upd: "(p\<lparr>pname := a, pname_len := b\<rparr>)\<lparr>pvalue := c, pvalue_len := d\<rparr> = \<lparr>pname = a, pname_len = b, pvalue = c, pvalue_len = d\<rparr>"
    for p :: esq_url_parameter_t and a b c d by (cases p) simp
  have "(ds @ n @ 0 # v @ x # s)[i := 0] = ds @ n @ 0 # v @ 0 # s"
    using assms(2) by (simp add: list_update_append)
  then show ?thesis
    using assms by (cases st) (simp add: sp_ops sp_closed_def param_entry_def sp_open_def upd)
qed

lemma sp_closed_simps [simp]:
  "sp_s (sp_closed st ds n v s x) = Aq" "sp_idx (sp_closed st ds n v s x) = Suc (sp_idx st)"
  "sp_url (sp_closed st ds n v s x) = ds @ n @ 0 # v @ (if v = [] then x else 0) # s"
  "sp_param (sp_closed st ds n v s x) = (sp_param st)[sp_idx st := param_entry (length ds) (n, v)]"
  by (simp_all add: sp_closed_def)

lemma param_next:
  assumes "sp_idx st < length (sp_param st)" "length ds + length n + 1 + length v < l"
  shows "sp_loop (int l) m (length ds + length n + 1 + length v) (sp_open st ds n v (ch CHR ''?'' # s))
    = sp_loop (int l) m (length ds + length n + length v + 2) (sp_closed st ds n v s (ch CHR ''?''))"
proof -
  let ?i = "length (ds @ n @ 0 # v)"
  have "sp_step m (sp_open st ds n v (ch CHR ''?'' # s)) ?i (ch CHR ''?'')
      = Some (Inr (sp_closed st ds n v s (ch CHR ''?'')))"
    unfolding sp_step_def url.tbl_rd using sp_close [OF assms(1), where ds = ds and n = n and v = v and x = "ch CHR ''?''" and s = s]
    by (cases "v = []") (simp_all add: add.assoc)
  then have "sp_loop (int l) m ?i (sp_open st ds n v (ch CHR ''?'' # s))
      = sp_loop (int l) m (Suc ?i) (sp_closed st ds n v s (ch CHR ''?''))"
    using assms by (intro sp_loop_step) auto
  then show ?thesis by (simp add: add.assoc)
qed

lemma param_last:
  assumes "sp_idx st < length (sp_param st)" "l = length ds + length n + 1 + length v"
  shows "sp_loop (int l) (int (length (sp_param st))) l (sp_open st ds n v (t # s)) =
    Some (int (Suc (sp_idx st)), ds @ params_cut t [(n, v)] @ s,
      take (sp_idx st) (sp_param st) @ param_entry (length ds) (n, v)
        # replicate (length (sp_param st) - Suc (sp_idx st)) url_param_null)"
proof -
  let ?ps = "(sp_param st)[sp_idx st := param_entry (length ds) (n, v)]"
  have "take (Suc (sp_idx st)) ?ps = take (sp_idx st) (sp_param st) @ [param_entry (length ds) (n, v)]"
    using assms(1) by (simp add: take_Suc_conv_app_nth)
  with sp_clear_correct [of "Suc (sp_idx st)" ?ps] assms(1) have clear:
    "sp_clear (int (length (sp_param st))) (Suc (sp_idx st)) ?ps = Some (take (sp_idx st) (sp_param st) @
       param_entry (length ds) (n, v) # replicate (length (sp_param st) - Suc (sp_idx st)) url_param_null)" by simp
  have keep: "sp_no_value (st\<lparr>sp_s := y\<rparr>) = map_option (\<lambda>st. st\<lparr>sp_s := y\<rparr>) (sp_no_value st)"
    "sp_end_value i (st\<lparr>sp_s := y\<rparr>) = map_option (\<lambda>st. st\<lparr>sp_s := y\<rparr>) (sp_end_value i st)" for i st y
    by (cases st; simp add: sp_ops)+
  have proj: "z\<lparr>sp_s := y\<rparr> = w \<Longrightarrow> sp_idx z = sp_idx w \<and> sp_param z = sp_param w \<and> sp_url z = sp_url w" for z w y
    by auto
  show ?thesis
    using sp_close [OF assms, of t s] clear
    by (subst sp_loop.simps) (auto simp: sp_finish_def keep dest!: proj split: if_splits)
qed

lemma params_loop:
  assumes "sp_s st = Aq" "sp_url st = ds @ params_text ps @ t # s" "ps \<noteq> []" "\<forall>p \<in> set ps. param_text_ok p"
    and "sp_idx st + length ps \<le> length (sp_param st)" "l = length ds + length (params_text ps)"
  shows "sp_loop (int l) (int (length (sp_param st))) (length ds) st =
    Some (int (sp_idx st + length ps), ds @ params_cut t ps @ s,
      take (sp_idx st) (sp_param st) @ param_entries (length ds) ps
        @ replicate (length (sp_param st) - sp_idx st - length ps) url_param_null)"
  using assms
proof (induction ps arbitrary: ds st)
  case (Cons p ps)
  obtain n v where p: "p = (n, v)" by force
  show ?case
  proof (cases "ps = []")
    case True
    have l: "length ds + length n + 1 + length v = l" using Cons.prems True p by simp
    show ?thesis
      using Cons.prems param_scan [of st ds n v "t # s" l, unfolded l] param_last [OF _ l [symmetric], of st t s] True
      by (simp add: p l)
  next
    case False
    let ?r = "params_text ps @ t # s"
    let ?st = "sp_closed st ds n v ?r (ch CHR ''?'')"
    let ?ds = "ds @ n @ 0 # v @ [if v = [] then ch CHR ''?'' else 0]"
    have idx: "sp_idx st < length (sp_param st)" and l: "length ds + length n + 1 + length v < l"
      and ok: "param_text_ok (n, v)" using Cons.prems p False by auto
    have "sp_loop (int l) (int (length (sp_param st))) (length ds) st
        = sp_loop (int l) (int (length (sp_param ?st))) (length ?ds) ?st"
      using param_scan [of st ds n v "ch CHR ''?'' # ?r" l] param_next [OF idx l, of _ ?r] Cons.prems p False idx l ok
      by (simp add: add.assoc)
    also have "\<dots> = Some (int (sp_idx ?st + length ps), ?ds @ params_cut t ps @ s,
        take (sp_idx ?st) (sp_param ?st) @ param_entries (length ?ds) ps
          @ replicate (length (sp_param ?st) - sp_idx ?st - length ps) url_param_null)"
      by (rule Cons.IH) (use Cons.prems p False in auto)
    finally show ?thesis using p False idx by (simp add: take_Suc_conv_app_nth add.assoc)
  qed
qed simp

text \<open>A recorded pointer and length designate a text: it is there, followed by a NUL.\<close>

definition designates :: "byte list \<Rightarrow> nat option \<Rightarrow> int \<Rightarrow> byte list \<Rightarrow> bool" where
  "designates url p l txt \<longleftrightarrow>
     (case p of
        None \<Rightarrow> False
      | Some off \<Rightarrow> l = int (length txt) \<and> take (length txt + 1) (drop off url) = txt @ [0])"

definition param_designates :: "byte list \<Rightarrow> param_text \<Rightarrow> esq_url_parameter_t \<Rightarrow> bool" where
  "param_designates url nv e \<longleftrightarrow>
     (case nv of (n, v) \<Rightarrow>
        designates url (pname e) (pname_len e) n \<and>
        (if v = [] then pvalue e = None \<and> pvalue_len e = 0 else designates url (pvalue e) (pvalue_len e) v))"

lemma designates_at: "off = length ds \<Longrightarrow> designates (ds @ txt @ 0 # s) (Some off) (int (length txt)) txt"
  by (simp add: designates_def)

lemma entries_designate:
  "list_all2 (param_designates (ds @ params_cut t ps @ s)) ps (param_entries (length ds) ps)"
proof (induction ps arbitrary: ds)
  case (Cons p ps)
  obtain n v where p: "p = (n, v)" by force
  let ?x = "if v \<noteq> [] then 0 else if ps = [] then t else ch CHR ''?''"
  have "param_designates (ds @ params_cut t (p # ps) @ s) (n, v) (param_entry (length ds) (n, v))"
    using designates_at [OF refl, of ds n] designates_at [of _ "ds @ n @ [0]" v]
    by (simp add: param_designates_def param_entry_def p)
  moreover have "list_all2 (param_designates ((ds @ n @ 0 # v @ [?x]) @ params_cut t ps @ s)) ps
      (param_entries (length (ds @ n @ 0 # v @ [?x])) ps)" by (rule Cons.IH)
  ultimately show ?case by (simp add: p add.assoc)
qed simp

section \<open>Properties\<close>

text \<open>
  C26.  \<open>esq_split_parameters\<close> on any bytes, in a buffer that has at least one byte behind the URL and
  with a parameter array of the announced size, performs no access outside either, returns, and
  returns \<open>-1\<close> or a count that does not exceed the array.
\<close>

theorem esq_split_parameters_safe:
  assumes "l < length url"
  shows "\<exists>r url' ps. esq_split_parameters url (int l) param (int (length param)) = Some (r, url', ps) \<and>
    (r = -1 \<or> 0 \<le> r \<and> r \<le> int (length param)) \<and> length url' = length url \<and> length ps = length param"
proof -
  have "sp_inv (length url) (length param)
      \<lparr>sp_s = S, sp_idx = 0, sp_name_start = 0, sp_value_start = 0, sp_url = url, sp_param = param\<rparr>"
    by (simp add: sp_inv_def)
  from sp_loop_safe [OF this assms, of 0] show ?thesis
    by (simp add: esq_split_parameters_def sp_result_ok_def)
qed

theorem esq_split_parameters_safe_witness:
  "\<exists>r url' ps. esq_split_parameters (bytes ''?a=b'' @ [0]) 4 [] 0 = Some (r, url', ps) \<and> r \<le> 0"
  using esq_split_parameters_safe [of 4 "bytes ''?a=b'' @ [0]" "[]"] by auto

text \<open>
  C25.  Splitting a parameter string of the form \<^verbatim>\<open>?name=value?name=value\<close> (the question mark is the separator of the code), with
  non-empty names of letters and digits and with values that are empty or consist of letters, digits, percent and equals signs and
  start with a letter or digit, followed by at least one byte for the terminator and fitting the array, returns the number of
  parameters; each entry designates its name and value, NUL-terminated in the rewritten buffer, and the unused entries are cleared.
  (A value that starts with a percent sign is not read back, lemma \<open>split_drops_leading_percent\<close>.)
\<close>

theorem esq_split_parameters_correct:
  assumes "ps \<noteq> []" "\<forall>p \<in> set ps. param_text_ok p" "length ps \<le> length param"
  shows "\<exists>url' es. esq_split_parameters (ch CHR ''?'' # params_text ps @ t # s) (int (1 + length (params_text ps)))
        param (int (length param))
      = Some (int (length ps), url', es @ replicate (length param - length ps) url_param_null) \<and>
    list_all2 (param_designates url') ps es"
proof -
  let ?init = "\<lparr>sp_s = S, sp_idx = 0, sp_name_start = 0, sp_value_start = 0,
    sp_url = ch CHR ''?'' # params_text ps @ t # s, sp_param = param\<rparr>"
  let ?st = "?init\<lparr>sp_s := Aq\<rparr>"
  let ?l = "1 + length (params_text ps)"
  have "sp_step m ?init (length []) (ch CHR ''?'') = Some (Inr ?st)" for m
    unfolding sp_step_def url.tbl_rd by simp
  then have "sp_loop (int ?l) (int (length param)) 0 ?init = sp_loop (int ?l) (int (length param)) 1 ?st"
    using sp_loop_step [of ?init "[]" "ch CHR ''?''" "params_text ps @ t # s" ?l "int (length param)" ?st] by simp
  then have "esq_split_parameters (ch CHR ''?'' # params_text ps @ t # s) (int ?l) param (int (length param))
      = Some (int (length ps), [ch CHR ''?''] @ params_cut t ps @ s,
          param_entries 1 ps @ replicate (length param - length ps) url_param_null)"
    using params_loop [of ?st "[ch CHR ''?'']" ps t s ?l] assms by (simp add: esq_split_parameters_def)
  then show ?thesis using entries_designate [of "[ch CHR ''?'']" t ps s]
    by (intro exI [of _ "[ch CHR ''?''] @ params_cut t ps @ s"] exI [of _ "param_entries 1 ps"]) simp
qed

theorem esq_split_parameters_correct_witness:
  "\<exists>url' es. esq_split_parameters (bytes ''?a=1?bc=x%20y'' @ [0]) 13 [url_param_null, url_param_null] 2
      = Some (2, url', es) \<and>
    list_all2 (param_designates url') [(bytes ''a'', bytes ''1''), (bytes ''bc'', bytes ''x%20y'')] es"
  using esq_split_parameters_correct [of "[(bytes ''a'', bytes ''1''), (bytes ''bc'', bytes ''x%20y'')]"
      "[url_param_null, url_param_null]" 0 "[]"]
  by (simp add: param_text_ok_def alnum_def value_char_def url_class_def)

section \<open>Limits of the code\<close>

text \<open>A value at the end of a buffer without a spare byte: the terminator is written past the end.\<close>

lemma split_writes_past_end: "esq_split_parameters (bytes ''?a=b'') 4 [url_param_null] 1 = None"
  by code_simp

text \<open>A value that starts with a percent sign loses it: the recorded value starts behind it.\<close>

lemma split_drops_leading_percent:
  "map_option (\<lambda>(r, u, ps). (r, map (\<lambda>p. (pvalue p, pvalue_len p)) ps))
     (esq_split_parameters (bytes ''?a=%41'' @ [0]) 6 [url_param_null] 1) = Some (1, [(Some 4, 2)])"
  by code_simp

text \<open>Decoding in place dereferences \<open>NULL\<close> on an entry that is not used.\<close>

lemma escape_unused_parameter: "esq_url_parames_escape_in_place [0] [url_param_null] 1 = None"
  by code_simp

end
