(* ===== verification/Esq_Bloom.thy ===== *)
theory Esq_Bloom
  imports Esq_Prelude
begin

text \<open>
  The Bloom filter on path names, \<^verbatim>\<open>libs/path-bloom-filter/path-bloom-filter.c\<close>.  A pointer to a filter
  is an option (\<open>None\<close> is \<open>NULL\<close>), and so is a pointer to a path; operations on a filter return their
  result with the updated filter.  The interface locale states what a client of an approximate
  membership structure relies on, and derives that nothing that was added is ever reported absent.
\<close>

section \<open>An approximate membership structure\<close>

locale approximate_set =
  fixes add :: "'s \<Rightarrow> 'e \<Rightarrow> 's" and exists :: "'s \<Rightarrow> 'e \<Rightarrow> bool" and inv :: "'s \<Rightarrow> bool" and ok :: "'e \<Rightarrow> bool"
  assumes inv_add: "inv s \<Longrightarrow> ok e \<Longrightarrow> inv (add s e)"
    and exists_add: "inv s \<Longrightarrow> ok e \<Longrightarrow> exists (add s e) e"
    and exists_mono: "inv s \<Longrightarrow> ok e \<Longrightarrow> ok x \<Longrightarrow> exists s x \<Longrightarrow> exists (add s e) x"
begin

lemma inv_adds: "inv s \<Longrightarrow> \<forall>e \<in> set es. ok e \<Longrightarrow> inv (foldl add s es)"
  by (induction es arbitrary: s) (auto intro: inv_add)

lemma exists_adds: "inv s \<Longrightarrow> \<forall>e \<in> set es. ok e \<Longrightarrow> ok x \<Longrightarrow> exists s x \<Longrightarrow> exists (foldl add s es) x"
  by (induction es arbitrary: s) (auto intro: inv_add exists_mono)

lemma no_false_negative:
  "inv s \<Longrightarrow> \<forall>e \<in> set es. ok e \<Longrightarrow> x \<in> set es \<Longrightarrow> exists (foldl add s es) x"
  by (induction es arbitrary: s) (auto intro: inv_add exists_add exists_adds)

end

section \<open>The model\<close>

definition BITS_ARRAY_SIZE :: nat where "BITS_ARRAY_SIZE = 512"
definition ESQ_PATH_BLOOM_MAX :: nat where "ESQ_PATH_BLOOM_MAX = 1024"
definition MGC0 :: int where "MGC0 = 0x189a189a"
definition MGC1 :: int where "MGC1 = 0x189b189b"

record path_bloom_filter_t =
  magic0 :: int
  bitmap0 :: "byte list"
  bitmap1 :: "byte list"
  bitmap2 :: "byte list"
  magic1 :: int

text \<open>\<open>malloc_ok\<close> tells whether the allocation succeeds.\<close>

definition path_bloom_filter_new :: "bool \<Rightarrow> path_bloom_filter_t option" where
  "path_bloom_filter_new malloc_ok =
     (if malloc_ok then
        Some \<lparr>magic0 = MGC0, bitmap0 = replicate BITS_ARRAY_SIZE 0, bitmap1 = replicate BITS_ARRAY_SIZE 0,
              bitmap2 = replicate BITS_ARRAY_SIZE 0, magic1 = MGC1\<rparr>
      else None)"

text \<open>The three hash loops; the characters are signed and extended to 32 bits.\<close>

definition bloom_step0 :: "u32 \<Rightarrow> nat \<Rightarrow> byte \<Rightarrow> u32" where
  "bloom_step0 hash i b =
     (let c = (scast b :: u32); k = i AND 3 in
      if k = 0 then hash + c
      else if k = 1 then hash + push_bit 3 c
      else if k = 2 then hash + push_bit 5 c
      else hash + push_bit 8 c)"

definition path_bloom_hash0 :: "byte list \<Rightarrow> int \<Rightarrow> u32 option" where
  "path_bloom_hash0 path len =
     scan (\<lambda>hash i c. Some (Inr (bloom_step0 hash i c))) (\<lambda>hash i. Some (hash AND 0xfff)) path len 0 0"

definition path_bloom_hash1 :: "byte list \<Rightarrow> int \<Rightarrow> u32 option" where
  "path_bloom_hash1 path len =
     scan (\<lambda>hash i c. Some (Inr (hash * 131 + (scast c :: u32)))) (\<lambda>hash i. Some (hash AND 0xfff)) path len 0 0"

definition bloom_step2 :: "u32 \<times> u32 \<times> u32 \<Rightarrow> nat \<Rightarrow> byte \<Rightarrow> u32 \<times> u32 \<times> u32" where
  "bloom_step2 s i b =
     (case s of (hash, k, lst) \<Rightarrow>
        (let c = (scast b :: u32); k = (k + of_nat i) AND 7 in
         if k = 0 then (hash XOR c, k, lst)
         else if k = 1 then (hash XOR NOT (push_bit 2 c), k, c)
         else if k = 2 then (hash XOR (push_bit 7 c XOR lst), k, lst)
         else if k = 3 then (hash XOR NOT (push_bit 5 c), k, c)
         else if k = 4 then (hash XOR push_bit 6 c, k, lst)
         else if k = 5 then (hash XOR NOT (push_bit 3 c), k, c)
         else if k = 6 then (hash XOR push_bit 1 c, k, lst)
         else (hash XOR (push_bit 4 c XOR lst), k, lst)))"

definition path_bloom_hash2 :: "byte list \<Rightarrow> int \<Rightarrow> u32 option" where
  "path_bloom_hash2 path len =
     scan (\<lambda>s i c. Some (Inr (bloom_step2 s i c))) (\<lambda>(hash, k, lst) i. Some (hash AND 0xfff)) path len 0 (0, 0, 68)"

text \<open>\<open>path_bloom_filter_free\<close>: whether the filter is released.\<close>

definition bloom_magic :: "path_bloom_filter_t \<Rightarrow> bool" where
  "bloom_magic p \<longleftrightarrow> MGC0 = magic0 p \<and> MGC1 = magic1 p"

definition path_bloom_filter_free :: "path_bloom_filter_t option \<Rightarrow> bool" where
  "path_bloom_filter_free ptr = (case ptr of None \<Rightarrow> False | Some p \<Rightarrow> bloom_magic p)"

text \<open>\<^verbatim>\<open>bitmap[hash >> 3] |= (1 << (hash & 0x3))\<close> and the test of that bit.\<close>

definition set_bitmap :: "byte list \<Rightarrow> u32 \<Rightarrow> byte list option" where
  "set_bitmap bm hash =
     do {
       b \<leftarrow> rd bm (unat (drop_bit 3 hash));
       wr bm (unat (drop_bit 3 hash)) (b OR push_bit (unat (hash AND 3)) 1)
     }"

definition test_bitmap :: "byte list \<Rightarrow> u32 \<Rightarrow> bool option" where
  "test_bitmap bm hash =
     do { b \<leftarrow> rd bm (unat (drop_bit 3 hash)); Some (b AND push_bit (unat (hash AND 3)) 1 \<noteq> 0) }"

definition bloom_add_path :: "path_bloom_filter_t \<Rightarrow> byte list \<Rightarrow> int \<Rightarrow> (int \<times> path_bloom_filter_t) option" where
  "bloom_add_path p path path_length =
     (if bloom_magic p then
        do {
          hash0 \<leftarrow> path_bloom_hash0 path path_length;
          hash1 \<leftarrow> path_bloom_hash1 path path_length;
          hash2 \<leftarrow> path_bloom_hash2 path path_length;
          b0 \<leftarrow> set_bitmap (bitmap0 p) hash0;
          b1 \<leftarrow> set_bitmap (bitmap1 p) hash1;
          b2 \<leftarrow> set_bitmap (bitmap2 p) hash2;
          Some (0, p\<lparr>bitmap0 := b0, bitmap1 := b1, bitmap2 := b2\<rparr>)
        }
      else Some (ESQ_ERROR_PARAM, p))"

definition path_bloom_filter_add_path2 ::
  "path_bloom_filter_t option \<Rightarrow> byte list option \<Rightarrow> int \<Rightarrow> (int \<times> path_bloom_filter_t option) option" where
  "path_bloom_filter_add_path2 ptr path path_length =
     (case (ptr, path) of
        (Some p, Some s) \<Rightarrow>
          if path_length > 0 then do { (r, p') \<leftarrow> bloom_add_path p s path_length; Some (r, Some p') }
          else Some (ESQ_ERROR_PARAM, ptr)
      | _ \<Rightarrow> Some (ESQ_ERROR_PARAM, ptr))"

definition path_bloom_filter_add_path ::
  "path_bloom_filter_t option \<Rightarrow> byte list option \<Rightarrow> (int \<times> path_bloom_filter_t option) option" where
  "path_bloom_filter_add_path ptr path =
     (case (ptr, path) of
        (Some p, Some s) \<Rightarrow>
          do {
            path_length \<leftarrow> strnlen s ESQ_PATH_BLOOM_MAX;
            (if path_length \<le> 0 \<or> path_length \<ge> ESQ_PATH_BLOOM_MAX then Some (ESQ_ERROR_PARAM, ptr)
             else do { (r, p') \<leftarrow> bloom_add_path p s (int path_length); Some (r, Some p') })
          }
      | _ \<Rightarrow> Some (ESQ_ERROR_PARAM, ptr))"

definition bloom_check_exist :: "path_bloom_filter_t \<Rightarrow> byte list \<Rightarrow> int \<Rightarrow> int option" where
  "bloom_check_exist p path path_length =
     (if bloom_magic p then
        do {
          hash0 \<leftarrow> path_bloom_hash0 path path_length;
          hash1 \<leftarrow> path_bloom_hash1 path path_length;
          hash2 \<leftarrow> path_bloom_hash2 path path_length;
          t0 \<leftarrow> test_bitmap (bitmap0 p) hash0;
          (if \<not> t0 then Some 0
           else do {
             t1 \<leftarrow> test_bitmap (bitmap1 p) hash1;
             (if \<not> t1 then Some 0
              else do {
                t2 \<leftarrow> test_bitmap (bitmap2 p) hash2;
                (if \<not> t2 then Some 0 else Some 1)
              })
           })
        }
      else Some 0)"

definition path_bloom_filter_check_exist2 ::
  "path_bloom_filter_t option \<Rightarrow> byte list option \<Rightarrow> int \<Rightarrow> int option" where
  "path_bloom_filter_check_exist2 ptr path path_length =
     (case (ptr, path) of
        (Some p, Some s) \<Rightarrow> if path_length > 0 then bloom_check_exist p s path_length else Some 0
      | _ \<Rightarrow> Some 0)"

definition path_bloom_filter_check_exist ::
  "path_bloom_filter_t option \<Rightarrow> byte list option \<Rightarrow> int option" where
  "path_bloom_filter_check_exist ptr path =
     (case (ptr, path) of
        (Some p, Some s) \<Rightarrow>
          do {
            path_length \<leftarrow> strnlen s ESQ_PATH_BLOOM_MAX;
            (if path_length \<le> 0 \<or> path_length \<ge> ESQ_PATH_BLOOM_MAX then Some 0
             else bloom_check_exist p s (int path_length))
          }
      | _ \<Rightarrow> Some 0)"

section \<open>Hashes and bits\<close>

lemma scan_total:
  assumes "len \<le> length buf"
  shows "\<exists>s. scan (\<lambda>s i c. Some (Inr (f s i c))) fin buf (int len) 0 s0 = fin s len"
proof -
  have "\<exists>s. scan_list (\<lambda>s i c. Some (Inr (f s i c))) fin i st xs = fin s (i + length xs)" for i st xs
  proof (induction xs arbitrary: i st)
    case (Cons x xs)
    show ?case using Cons [of "Suc i" "f st i x"] by simp
  qed auto
  from this [of 0 s0 "take len buf"] show ?thesis
    using assms by (simp add: scan_eq_list)
qed

lemma scan_take:
  assumes "take len a = take len b" "len \<le> length a" "len \<le> length b"
  shows "scan step fin a (int len) 0 s = scan step fin b (int len) 0 s"
  using assms by (simp add: scan_eq_list)

definition bloom_hash :: "nat \<Rightarrow> byte list \<Rightarrow> int \<Rightarrow> u32 option" where
  "bloom_hash j = (if j = 0 then path_bloom_hash0 else if j = 1 then path_bloom_hash1 else path_bloom_hash2)"

lemma hash_range: "unat (drop_bit 3 ((h :: u32) AND 0xfff)) < BITS_ARRAY_SIZE"
proof -
  have "h AND 0xfff = take_bit 12 h" using take_bit_eq_mask [of 12 h] by (simp add: mask_eq_exp_minus_1)
  then have "unat (h AND 0xfff) < 2 ^ 12" using take_bit_nat_less_exp [of 12 "unat h"] by (simp add: unsigned_take_bit_eq)
  then show ?thesis by (simp add: BITS_ARRAY_SIZE_def drop_bit_eq_div unat_div less_mult_imp_div_less)
qed

lemma path_bloom_hash_total:
  assumes "len \<le> length path"
  shows "\<exists>h. bloom_hash j path (int len) = Some h \<and> unat (drop_bit 3 h) < BITS_ARRAY_SIZE"
proof -
  note total = scan_total [OF assms]
  consider "j = 0" | "j = 1" | "j \<noteq> 0" "j \<noteq> 1" by blast
  then show ?thesis
  proof cases
    case 1
    then show ?thesis
      using total [of bloom_step0 "\<lambda>hash i. Some (hash AND 0xfff)" 0] hash_range
      by (auto simp: bloom_hash_def path_bloom_hash0_def)
  next
    case 2
    then show ?thesis
      using total [of "\<lambda>hash i c. hash * 131 + (scast c :: u32)" "\<lambda>hash i. Some (hash AND 0xfff)" 0] hash_range
      by (auto simp: bloom_hash_def path_bloom_hash1_def)
  next
    case 3
    then show ?thesis
      using total [of bloom_step2 "\<lambda>(hash, k, lst) i. Some (hash AND 0xfff)" "(0, 0, 68)"] hash_range
      by (auto simp: bloom_hash_def path_bloom_hash2_def)
  qed
qed

lemma bloom_hash_take:
  assumes "take len a = take len b" "len \<le> length a" "len \<le> length b"
  shows "bloom_hash j a (int len) = bloom_hash j b (int len)"
  unfolding bloom_hash_def path_bloom_hash0_def path_bloom_hash1_def path_bloom_hash2_def
  by (simp add: scan_take [OF assms])

text \<open>The bit of a bitmap that a hash selects.\<close>

definition bloom_bit :: "byte list \<Rightarrow> u32 \<Rightarrow> bool" where
  "bloom_bit bm h \<longleftrightarrow> bit (bm ! unat (drop_bit 3 h)) (unat (h AND 3))"

lemma hash_low: "unat ((h :: u32) AND 3) < 8"
proof -
  have "h AND 3 = take_bit 2 h" using take_bit_eq_mask [of 2 h] by (simp add: mask_eq_exp_minus_1)
  then have "unat (h AND 3) < 2 ^ 2" using take_bit_nat_less_exp [of 2 "unat h"] by (simp add: unsigned_take_bit_eq)
  then show ?thesis by simp
qed

lemma test_bitmap_bit:
  "unat (drop_bit 3 h) < length bm \<Longrightarrow> test_bitmap bm h = Some (bloom_bit bm h)"
  by (simp add: test_bitmap_def rd_in bloom_bit_def push_bit_eq_mult and_exp_eq_0_iff_not_bit)

lemma set_bitmap_bit:
  assumes "unat (drop_bit 3 h) < length bm"
  shows "\<exists>bm'. set_bitmap bm h = Some bm' \<and> length bm' = length bm \<and>
    bloom_bit bm' h \<and> (\<forall>g. unat (drop_bit 3 g) < length bm \<longrightarrow> bloom_bit bm g \<longrightarrow> bloom_bit bm' g)"
  using assms hash_low [of h]
  by (auto simp: set_bitmap_def rd_in wr_in bloom_bit_def nth_list_update bit_or_iff push_bit_eq_mult bit_exp_iff)

section \<open>Adding and checking\<close>

definition bloom_inv :: "path_bloom_filter_t \<Rightarrow> bool" where
  "bloom_inv p \<longleftrightarrow> bloom_magic p \<and> length (bitmap0 p) = BITS_ARRAY_SIZE \<and>
     length (bitmap1 p) = BITS_ARRAY_SIZE \<and> length (bitmap2 p) = BITS_ARRAY_SIZE"

text \<open>The three bits a path selects are set.\<close>

definition bloom_has :: "path_bloom_filter_t \<Rightarrow> byte list \<Rightarrow> int \<Rightarrow> bool" where
  "bloom_has p path len \<longleftrightarrow>
     bloom_bit (bitmap0 p) (the (bloom_hash 0 path len)) \<and> bloom_bit (bitmap1 p) (the (bloom_hash 1 path len)) \<and>
     bloom_bit (bitmap2 p) (the (bloom_hash 2 path len))"

lemma bloom_hash_simps:
  "path_bloom_hash0 = bloom_hash 0" "path_bloom_hash1 = bloom_hash 1" "path_bloom_hash2 = bloom_hash 2"
  by (simp_all add: bloom_hash_def)

lemma bloom_check_has:
  assumes "bloom_inv p" "len \<le> length path"
  shows "bloom_check_exist p path (int len) = Some (if bloom_has p path (int len) then 1 else 0)"
proof -
  obtain h0 h1 h2 where h: "bloom_hash 0 path (int len) = Some h0" "unat (drop_bit 3 h0) < BITS_ARRAY_SIZE"
    "bloom_hash 1 path (int len) = Some h1" "unat (drop_bit 3 h1) < BITS_ARRAY_SIZE"
    "bloom_hash 2 path (int len) = Some h2" "unat (drop_bit 3 h2) < BITS_ARRAY_SIZE"
    using path_bloom_hash_total [OF assms(2)] by metis
  then show ?thesis
    using assms(1) unfolding bloom_check_exist_def bloom_hash_simps
    by (simp add: bloom_inv_def test_bitmap_bit bloom_has_def)
qed

lemma bloom_add_has:
  assumes "bloom_inv p" "len \<le> length path"
  shows "\<exists>p'. bloom_add_path p path (int len) = Some (0, p') \<and> bloom_inv p' \<and> bloom_has p' path (int len) \<and>
    (\<forall>s n. n \<le> length s \<longrightarrow> bloom_has p s (int n) \<longrightarrow> bloom_has p' s (int n))"
proof -
  obtain h0 h1 h2 where h: "bloom_hash 0 path (int len) = Some h0" "unat (drop_bit 3 h0) < BITS_ARRAY_SIZE"
    "bloom_hash 1 path (int len) = Some h1" "unat (drop_bit 3 h1) < BITS_ARRAY_SIZE"
    "bloom_hash 2 path (int len) = Some h2" "unat (drop_bit 3 h2) < BITS_ARRAY_SIZE"
    using path_bloom_hash_total [OF assms(2)] by metis
  obtain b0 where b0: "set_bitmap (bitmap0 p) h0 = Some b0" "length b0 = length (bitmap0 p)" "bloom_bit b0 h0"
    "\<And>g. unat (drop_bit 3 g) < length (bitmap0 p) \<Longrightarrow> bloom_bit (bitmap0 p) g \<Longrightarrow> bloom_bit b0 g"
    using set_bitmap_bit [of h0 "bitmap0 p"] h assms(1) by (auto simp: bloom_inv_def)
  obtain b1 where b1: "set_bitmap (bitmap1 p) h1 = Some b1" "length b1 = length (bitmap1 p)" "bloom_bit b1 h1"
    "\<And>g. unat (drop_bit 3 g) < length (bitmap1 p) \<Longrightarrow> bloom_bit (bitmap1 p) g \<Longrightarrow> bloom_bit b1 g"
    using set_bitmap_bit [of h1 "bitmap1 p"] h assms(1) by (auto simp: bloom_inv_def)
  obtain b2 where b2: "set_bitmap (bitmap2 p) h2 = Some b2" "length b2 = length (bitmap2 p)" "bloom_bit b2 h2"
    "\<And>g. unat (drop_bit 3 g) < length (bitmap2 p) \<Longrightarrow> bloom_bit (bitmap2 p) g \<Longrightarrow> bloom_bit b2 g"
    using set_bitmap_bit [of h2 "bitmap2 p"] h assms(1) by (auto simp: bloom_inv_def)
  let ?p = "p\<lparr>bitmap0 := b0, bitmap1 := b1, bitmap2 := b2\<rparr>"
  have "bloom_has ?p s (int n)" if "n \<le> length s" "bloom_has p s (int n)" for s n
  proof -
    have r: "unat (drop_bit 3 (the (bloom_hash j s (int n)))) < BITS_ARRAY_SIZE" for j
      using path_bloom_hash_total [OF that(1), of j] by auto
    show ?thesis
      using that(2) r [of 0] r [of 1] r [of 2] assms(1) b0(4) b1(4) b2(4) by (simp add: bloom_has_def bloom_inv_def)
  qed
  moreover have "bloom_add_path p path (int len) = Some (0, ?p)"
    using assms(1) h b0(1) b1(1) b2(1) unfolding bloom_add_path_def bloom_hash_simps by (simp add: bloom_inv_def)
  ultimately show ?thesis
    using h assms(1) b0(2,3) b1(2,3) b2(2,3) by (auto simp: bloom_inv_def bloom_has_def bloom_magic_def)
qed

section \<open>The filter is an approximate set of path names\<close>

text \<open>The operations as a client uses them: on NUL-terminated names, the filter threaded through.\<close>

definition bloom_path_ok :: "byte list \<Rightarrow> bool" where
  "bloom_path_ok s \<longleftrightarrow> has_nul s \<and> 0 < length (cstr s) \<and> length (cstr s) < ESQ_PATH_BLOOM_MAX"

definition bloom_add :: "path_bloom_filter_t option \<Rightarrow> byte list \<Rightarrow> path_bloom_filter_t option" where
  "bloom_add ptr s = snd (the (path_bloom_filter_add_path ptr (Some s)))"

definition bloom_exists :: "path_bloom_filter_t option \<Rightarrow> byte list \<Rightarrow> bool" where
  "bloom_exists ptr s \<longleftrightarrow> path_bloom_filter_check_exist ptr (Some s) = Some 1"

definition bloom_ptr_inv :: "path_bloom_filter_t option \<Rightarrow> bool" where
  "bloom_ptr_inv ptr \<longleftrightarrow> (case ptr of None \<Rightarrow> False | Some p \<Rightarrow> bloom_inv p)"

lemma bloom_path_length:
  assumes "bloom_path_ok s"
  shows "strnlen s ESQ_PATH_BLOOM_MAX = Some (length (cstr s))" "length (cstr s) \<le> length s"
  using assms has_nul_length_cstr [of s] by (simp_all add: bloom_path_ok_def strnlen_cstr)

lemma bloom_check_ok:
  assumes "bloom_inv p" "bloom_path_ok s"
  shows "path_bloom_filter_check_exist (Some p) (Some s)
    = Some (if bloom_has p s (int (length (cstr s))) then 1 else 0)"
  using assms bloom_path_length [OF assms(2)] bloom_check_has [OF assms(1) bloom_path_length(2) [OF assms(2)]]
  by (simp add: path_bloom_filter_check_exist_def bloom_path_ok_def)

lemma bloom_add_ok:
  assumes "bloom_inv p" "bloom_path_ok s"
  shows "\<exists>p'. path_bloom_filter_add_path (Some p) (Some s) = Some (0, Some p') \<and> bloom_inv p' \<and>
    bloom_has p' s (int (length (cstr s))) \<and>
    (\<forall>x n. n \<le> length x \<longrightarrow> bloom_has p x (int n) \<longrightarrow> bloom_has p' x (int n))"
  using assms bloom_path_length [OF assms(2)] bloom_add_has [OF assms(1) bloom_path_length(2) [OF assms(2)]]
  by (auto simp: path_bloom_filter_add_path_def bloom_path_ok_def)

interpretation bloom: approximate_set bloom_add bloom_exists bloom_ptr_inv bloom_path_ok
proof
  fix s e
  assume "bloom_ptr_inv s" and e: "bloom_path_ok e"
  then obtain p where p: "s = Some p" "bloom_inv p" by (auto simp: bloom_ptr_inv_def split: option.splits)
  from bloom_add_ok [OF p(2) e] obtain p' where p': "bloom_add s e = Some p'" "bloom_inv p'"
    "bloom_has p' e (int (length (cstr e)))" "\<And>x n. n \<le> length x \<Longrightarrow> bloom_has p x (int n) \<Longrightarrow> bloom_has p' x (int n)"
    using p by (auto simp: bloom_add_def)
  show "bloom_ptr_inv (bloom_add s e)" using p' by (simp add: bloom_ptr_inv_def)
  show "bloom_exists (bloom_add s e) e" using p' bloom_check_ok [OF p'(2) e] by (simp add: bloom_exists_def)
  fix x
  assume x: "bloom_path_ok x" and "bloom_exists s x"
  then have "bloom_has p x (int (length (cstr x)))"
    using bloom_check_ok [OF p(2) x] p(1) by (simp add: bloom_exists_def split: if_splits)
  then show "bloom_exists (bloom_add s e) x"
    using p' bloom_check_ok [OF p'(2) x] bloom_path_length(2) [OF x] by (simp add: bloom_exists_def)
qed

lemma bloom_exists_cstr:
  assumes "bloom_ptr_inv ptr" "bloom_path_ok s" "bloom_path_ok t" "cstr s = cstr t"
  shows "bloom_exists ptr s = bloom_exists ptr t"
proof -
  obtain p where p: "ptr = Some p" "bloom_inv p" using assms(1) by (auto simp: bloom_ptr_inv_def split: option.splits)
  have "bloom_hash j s (int (length (cstr s))) = bloom_hash j t (int (length (cstr s)))" for j
    using assms(2-4) bloom_path_length(2) [OF assms(2)] bloom_path_length(2) [OF assms(3)] cstr_take
    by (intro bloom_hash_take) metis+
  then show ?thesis
    using p assms(4) bloom_check_ok [OF p(2) assms(2)] bloom_check_ok [OF p(2) assms(3)]
    by (simp add: bloom_exists_def bloom_has_def)
qed

lemma bloom_new_inv: "bloom_ptr_inv (path_bloom_filter_new True)"
  by (simp add: path_bloom_filter_new_def bloom_ptr_inv_def bloom_inv_def bloom_magic_def)

section \<open>Properties\<close>

text \<open>
  C27.  No false negatives: in a filter that is created and then receives any sequence of
  non-empty names shorter than the limit, every name that was added is reported as existing, in
  whatever buffer it is presented.
\<close>

theorem path_bloom_no_false_negative:
  assumes "\<forall>s \<in> set paths. bloom_path_ok s" "s \<in> set paths" "bloom_path_ok t" "cstr t = cstr s"
  shows "path_bloom_filter_check_exist (foldl bloom_add (path_bloom_filter_new True) paths) (Some t) = Some 1"
proof -
  have "bloom_exists (foldl bloom_add (path_bloom_filter_new True) paths) s"
    by (rule bloom.no_false_negative [OF bloom_new_inv assms(1,2)])
  then show ?thesis
    using bloom_exists_cstr [OF bloom.inv_adds [OF bloom_new_inv assms(1)] assms(3) _ assms(4)] assms(1,2)
    by (simp add: bloom_exists_def)
qed

theorem path_bloom_no_false_negative_witness:
  "path_bloom_filter_check_exist
     (foldl bloom_add (path_bloom_filter_new True) [bytes ''/etc'' @ [0], bytes ''/usr'' @ [0]])
     (Some (bytes ''/etc'' @ [0, 7])) = Some 1"
  using path_bloom_no_false_negative [of "[bytes ''/etc'' @ [0], bytes ''/usr'' @ [0]]" "bytes ''/etc'' @ [0]"
      "bytes ''/etc'' @ [0, 7]"]
  by (simp add: bloom_path_ok_def has_nul_def cstr_def ESQ_PATH_BLOOM_MAX_def)

text \<open>
  C28.  A new filter reports every well-formed name as absent; adding a well-formed name to a valid
  filter succeeds, and adding through a null pointer, a null path, an empty or over-long name or to a
  filter whose magic numbers are damaged returns the parameter error and leaves the filter alone.
\<close>

theorem path_bloom_new_and_errors:
  assumes "bloom_path_ok s" "has_nul bad" "length (cstr bad) = 0 \<or> ESQ_PATH_BLOOM_MAX \<le> length (cstr bad)"
    and "bloom_ptr_inv ptr" "\<not> bloom_magic q"
  shows "path_bloom_filter_check_exist (path_bloom_filter_new True) (Some s) = Some 0 \<and>
    (\<exists>ptr'. path_bloom_filter_add_path ptr (Some s) = Some (0, ptr')) \<and>
    path_bloom_filter_add_path ptr (Some bad) = Some (ESQ_ERROR_PARAM, ptr) \<and>
    path_bloom_filter_add_path ptr None = Some (ESQ_ERROR_PARAM, ptr) \<and>
    path_bloom_filter_add_path None path = Some (ESQ_ERROR_PARAM, None) \<and>
    path_bloom_filter_add_path (Some q) (Some s) = Some (ESQ_ERROR_PARAM, Some q) \<and>
    path_bloom_filter_check_exist (Some q) (Some s) = Some 0"
proof -
  let ?p = "the (path_bloom_filter_new True)"
  have inv: "bloom_inv ?p" using bloom_new_inv by (simp add: bloom_ptr_inv_def path_bloom_filter_new_def)
  have bit0: "\<not> bloom_bit (replicate BITS_ARRAY_SIZE 0) h" if "unat (drop_bit 3 h) < BITS_ARRAY_SIZE" for h
    using that by (simp add: bloom_bit_def)
  obtain h where "bloom_hash 0 s (int (length (cstr s))) = Some h" "unat (drop_bit 3 h) < BITS_ARRAY_SIZE"
    using path_bloom_hash_total [OF bloom_path_length(2) [OF assms(1)]] by blast
  then have "\<not> bloom_has ?p s (int (length (cstr s)))"
    using bit0 by (simp add: bloom_has_def path_bloom_filter_new_def)
  then have new: "path_bloom_filter_check_exist (path_bloom_filter_new True) (Some s) = Some 0"
    using bloom_check_ok [OF inv assms(1)] by (simp add: path_bloom_filter_new_def)
  obtain p where p: "ptr = Some p" "bloom_inv p" using assms(4) by (auto simp: bloom_ptr_inv_def split: option.splits)
  note bad = strnlen_cstr [OF assms(2), of ESQ_PATH_BLOOM_MAX]
  show ?thesis
    using new bloom_add_ok [OF p(2) assms(1)] p(1) bad assms(1,3,5) bloom_path_length(1) [OF assms(1)]
    by (auto simp: path_bloom_filter_add_path_def path_bloom_filter_check_exist_def bloom_add_path_def
        bloom_check_exist_def bloom_path_ok_def split: option.splits)
qed

theorem path_bloom_new_and_errors_witness:
  "path_bloom_filter_check_exist (path_bloom_filter_new True) (Some (bytes ''/a'' @ [0])) = Some 0"
  using path_bloom_new_and_errors [of "bytes ''/a'' @ [0]" "[0]" "path_bloom_filter_new True"
      "\<lparr>magic0 = 0, bitmap0 = [], bitmap1 = [], bitmap2 = [], magic1 = 0\<rparr>"] bloom_new_inv
  by (simp add: bloom_path_ok_def has_nul_def cstr_def ESQ_PATH_BLOOM_MAX_def bloom_magic_def MGC0_def)

section \<open>Limits of the code\<close>

text \<open>
  The mask \<^verbatim>\<open>0x3\<close> selects one of four bits only: the upper half of every bitmap byte stays unused,
  so the effective size of each bitmap is half of what its size suggests.
\<close>

lemma bloom_upper_bits_unused:
  assumes "set_bitmap bm h = Some bm'" "\<forall>b \<in> set bm. take_bit 4 b = b"
  shows "\<forall>b \<in> set bm'. take_bit 4 b = b"
proof -
  have "h AND 3 = take_bit 2 h" using take_bit_eq_mask [of 2 h] by (simp add: mask_eq_exp_minus_1)
  then have k: "unat (h AND 3) < 4" using take_bit_nat_less_exp [of 2 "unat h"] by (simp add: unsigned_take_bit_eq)
  have "take_bit 4 (b OR push_bit (unat (h AND 3)) 1) = b OR push_bit (unat (h AND 3)) 1" if "take_bit 4 b = b" for b :: byte
  proof -
    have "bit b n \<Longrightarrow> n < 4" for n using that by (metis bit_take_bit_iff)
    then show ?thesis using k by (intro bit_word_eqI) (auto simp: bit_simps)
  qed
  then show ?thesis
    using assms by (auto simp: set_bitmap_def rd_def wr_def dest!: set_update_subset_insert [THEN subsetD] split: if_splits)
qed

end
