(* ===== verification/Esq_Hmt.thy ===== *)
theory Esq_Hmt
  imports Esq_Prelude "HOL-Library.Sublist"
begin

text \<open>
  The head match tree, \<^verbatim>\<open>libs/head-match-tree\<close>: a set of patterns kept sorted (\<^verbatim>\<open>add.c\<close>), compiled into
  jump tables indexed by pattern and depth (\<^verbatim>\<open>compile.c\<close>), and searched for the longest pattern that is
  a prefix of a string (\<^verbatim>\<open>match.c\<close>).  This theory holds the model of the four source files; the proofs
  are in \<open>Esq_Hmt_Add\<close> and \<open>Esq_Hmt_Match\<close>.

  The item array has the allocated length, its unused slots hold \<open>None\<close>; a null table is the empty
  list, and a cell of a fresh table is \<open>None\<close> until it is written, so that a result \<open>Some\<close> also means
  that no uninitialised cell was used.  A user data pointer is a number, 0 is \<open>NULL\<close>.
\<close>

section \<open>Library functions\<close>

definition rdi :: "'a list \<Rightarrow> int \<Rightarrow> 'a option" where
  "rdi xs i = (if i < 0 then None else rd xs (nat i))"

definition wri :: "'a list \<Rightarrow> int \<Rightarrow> 'a \<Rightarrow> 'a list option" where
  "wri xs i v = (if i < 0 then None else wr xs (nat i) v)"

definition cell :: "'a option list \<Rightarrow> int \<Rightarrow> 'a option" where
  "cell t i = do { x \<leftarrow> rdi t i; x }"

text \<open>Conversion to \<open>char\<close>.\<close>

definition c8 :: "int \<Rightarrow> int" where
  "c8 x = (x + 128) mod 256 - 128"

fun strncmp_at :: "byte list \<Rightarrow> byte list \<Rightarrow> nat \<Rightarrow> nat \<Rightarrow> int option" where
  "strncmp_at a b i 0 = Some 0"
| "strncmp_at a b i (Suc n) =
     do {
       x \<leftarrow> rd a i;
       y \<leftarrow> rd b i;
       (if x \<noteq> y then Some (int (unat x) - int (unat y))
        else if x = 0 then Some 0
        else strncmp_at a b (Suc i) n)
     }"

definition strncmp :: "byte list \<Rightarrow> byte list \<Rightarrow> nat \<Rightarrow> int option" where
  "strncmp a b n = strncmp_at a b 0 n"

text \<open>Whether \<open>memcmp\<close> on \<open>n\<close> bytes reports a difference.\<close>

definition memcmp_ne :: "byte list \<Rightarrow> byte list \<Rightarrow> nat \<Rightarrow> bool option" where
  "memcmp_ne a b n = (if n \<le> length a \<and> n \<le> length b then Some (take n a \<noteq> take n b) else None)"

section \<open>hmt-internal.h and new.c\<close>

definition HMT_ITEM_MAX :: int where "HMT_ITEM_MAX = 111"

record hmt_item_t =
  pattern :: "byte list"
  userdata :: nat
  malloc_item :: bool

record hmt_t =
  hmax :: int
  cnt :: int
  enter_point :: int
  higher_jump_table :: "int option list"
  lower_jump_table :: "int option list"
  someone_else_matched_table :: "int option list"
  next_level_enter_point_table :: "int option list"
  patterns_length :: "int option list"
  pattern_len_max :: int
  pattern_len_max_shift :: nat
  items :: "hmt_item_t option list"

definition hmt_free_content :: "hmt_t \<Rightarrow> hmt_t" where
  "hmt_free_content pt =
     pt\<lparr>higher_jump_table := [], lower_jump_table := [], someone_else_matched_table := [],
        next_level_enter_point_table := [], patterns_length := [], enter_point := -1\<rparr>"

datatype hmt_scale = HMT_SCALE_16 | HMT_SCALE_32 | HMT_SCALE_64 | HMT_SCALE_128 | HMT_SCALE_512 | HMT_SCALE_other

definition hmt_scale_shift :: "hmt_scale \<Rightarrow> int \<times> nat" where
  "hmt_scale_shift scale =
     (case scale of
        HMT_SCALE_16 \<Rightarrow> (16, 4)
      | HMT_SCALE_32 \<Rightarrow> (32, 5)
      | HMT_SCALE_64 \<Rightarrow> (64, 6)
      | HMT_SCALE_128 \<Rightarrow> (128, 7)
      | HMT_SCALE_512 \<Rightarrow> (512, 9)
      | HMT_SCALE_other \<Rightarrow> (128, 7))"

definition hmt_new2 :: "bool \<Rightarrow> int \<Rightarrow> hmt_scale \<Rightarrow> hmt_t option" where
  "hmt_new2 malloc_ok mx scale =
     (if mx \<ge> HMT_ITEM_MAX then None
      else if \<not> malloc_ok then None
      else Some
        \<lparr>hmax = mx, cnt = 0, enter_point = -1, higher_jump_table = [], lower_jump_table = [],
         someone_else_matched_table = [], next_level_enter_point_table = [], patterns_length = [],
         pattern_len_max = fst (hmt_scale_shift scale), pattern_len_max_shift = snd (hmt_scale_shift scale),
         items = replicate (nat mx) None\<rparr>)"

definition hmt_new :: "bool \<Rightarrow> int \<Rightarrow> hmt_t option" where
  "hmt_new malloc_ok mx = hmt_new2 malloc_ok mx HMT_SCALE_32"

text \<open>The items whose private copy of the pattern is released by \<open>hmt_free\<close>.\<close>

definition hmt_free :: "hmt_t \<Rightarrow> hmt_item_t list" where
  "hmt_free pt = filter malloc_item (map the (take (nat (cnt (hmt_free_content pt))) (items pt)))"

section \<open>add.c\<close>

definition hmt_item_compare :: "hmt_item_t \<Rightarrow> hmt_item_t \<Rightarrow> int \<Rightarrow> int option" where
  "hmt_item_compare a b len_max = strncmp (pattern a) (pattern b) (nat len_max)"

text \<open>The search for the insertion index: \<open>Inl\<close> is the early return.\<close>

function hmt_add_find :: "hmt_t \<Rightarrow> hmt_item_t \<Rightarrow> int \<Rightarrow> (int + int) option" where
  "hmt_add_find pt k i =
     (if i < cnt pt then
        do {
          it \<leftarrow> cell (items pt) i;
          r \<leftarrow> hmt_item_compare k it (pattern_len_max pt);
          (if r > 0 then Some (Inr i)
           else if r < 0 then hmt_add_find pt k (i + 1)
           else Some (Inl (-3)))
        }
      else Some (Inr i))"
  by pat_completeness auto
termination
  by (relation "measure (\<lambda>(pt, k, i). nat (cnt pt - i))") auto

declare hmt_add_find.simps [simp del]

function hmt_add_shift :: "hmt_item_t option list \<Rightarrow> int \<Rightarrow> int \<Rightarrow> hmt_item_t option list option" where
  "hmt_add_shift its j i =
     (if j > i then do { x \<leftarrow> rdi its (j - 1); its' \<leftarrow> wri its j x; hmt_add_shift its' (j - 1) i }
      else Some its)"
  by pat_completeness auto
termination
  by (relation "measure (\<lambda>(its, j, i). nat (j - i))") auto

declare hmt_add_shift.simps [simp del]

definition hmt_add_item :: "hmt_t \<Rightarrow> byte list \<Rightarrow> nat \<Rightarrow> bool \<Rightarrow> (int \<times> hmt_t) option" where
  "hmt_add_item pt pat udata mitem =
     (if cnt pt \<ge> hmax pt then Some (-1, pt)
      else
        (let k = \<lparr>pattern = pat, userdata = udata, malloc_item = mitem\<rparr> in
         do {
           f \<leftarrow> hmt_add_find pt k 0;
           (case f of
              Inl r \<Rightarrow> Some (r, pt)
            | Inr i \<Rightarrow>
                do {
                  its \<leftarrow> hmt_add_shift (items pt) (cnt pt) i;
                  its \<leftarrow> wri its i (Some k);
                  Some (0, pt\<lparr>items := its, cnt := cnt pt + 1\<rparr>)
                })
         }))"

definition hmt_add :: "hmt_t \<Rightarrow> byte list \<Rightarrow> nat \<Rightarrow> (int \<times> hmt_t) option" where
  "hmt_add pt pat udata =
     do {
       l \<leftarrow> strnlen pat (nat (pattern_len_max pt));
       (if int l \<ge> pattern_len_max pt \<or> l \<le> 0 then Some (-2, pt) else hmt_add_item pt pat udata False)
     }"

definition hmt_add2 :: "bool \<Rightarrow> hmt_t \<Rightarrow> byte list \<Rightarrow> nat \<Rightarrow> (int \<times> hmt_t) option" where
  "hmt_add2 malloc_ok pt pat udata =
     do {
       l \<leftarrow> strnlen pat (nat (pattern_len_max pt));
       (if int l \<ge> pattern_len_max pt \<or> l \<le> 0 then Some (-2, pt)
        else if \<not> malloc_ok then Some (-4, pt)
        else if l + 1 \<le> length pat then hmt_add_item pt (take (l + 1) pat) udata True
        else None)
     }"

section \<open>compile.c\<close>

definition pat_char :: "hmt_t \<Rightarrow> int \<Rightarrow> int \<Rightarrow> byte option" where
  "pat_char pt i depth = do { it \<leftarrow> cell (items pt) i; rdi (pattern it) depth }"

function center_down :: "hmt_t \<Rightarrow> int \<Rightarrow> byte \<Rightarrow> int \<Rightarrow> int \<Rightarrow> int \<Rightarrow> int option" where
  "center_down pt depth c start i s =
     (if i \<ge> start then
        do { x \<leftarrow> pat_char pt i depth; if x = c then center_down pt depth c start (i - 1) i else Some s }
      else Some s)"
  by pat_completeness auto
termination
  by (relation "measure (\<lambda>(pt, depth, c, start, i, s). nat (i - start + 1))") auto

function center_up :: "hmt_t \<Rightarrow> int \<Rightarrow> byte \<Rightarrow> int \<Rightarrow> int \<Rightarrow> int \<Rightarrow> int option" where
  "center_up pt depth c stop i e =
     (if i \<le> stop then
        do { x \<leftarrow> pat_char pt i depth; if x = c then center_up pt depth c stop (i + 1) i else Some e }
      else Some e)"
  by pat_completeness auto
termination
  by (relation "measure (\<lambda>(pt, depth, c, stop, i, e). nat (stop - i + 1))") auto

declare center_down.simps [simp del] center_up.simps [simp del]

definition hmt_find_center_group_border :: "hmt_t \<Rightarrow> int \<Rightarrow> int \<Rightarrow> int \<Rightarrow> (int \<times> int) option" where
  "hmt_find_center_group_border pt depth start stop =
     do {
       let m = drop_bit 1 (start + stop);
       c \<leftarrow> pat_char pt m depth;
       s \<leftarrow> center_down pt depth c start (m - 1) m;
       e \<leftarrow> center_up pt depth c stop (m + 1) m;
       Some (c8 s, c8 e)
     }"

partial_function (option) hmt_fill_jump_tables :: "hmt_t \<Rightarrow> int \<Rightarrow> int \<Rightarrow> int \<Rightarrow> (int \<times> hmt_t) option" where
  "hmt_fill_jump_tables pt depth start stop =
     (if depth \<ge> pattern_len_max pt then Some (start, pt)
      else do {
        c \<leftarrow> pat_char pt start depth;
        (if c = 0 then Some (start, pt)
         else do {
           (bs, be) \<leftarrow> hmt_find_center_group_border pt depth start stop;
           (higher, pt) \<leftarrow> (if bs = start then Some (-1, pt) else hmt_fill_jump_tables pt depth start (c8 (bs - 1)));
           (lower, pt) \<leftarrow> (if be = stop then Some (-1, pt) else hmt_fill_jump_tables pt depth (c8 (be + 1)) stop);
           let idx = push_bit (pattern_len_max_shift pt) bs + depth;
           h \<leftarrow> wri (higher_jump_table pt) idx (Some higher);
           l \<leftarrow> wri (lower_jump_table pt) idx (Some lower);
           let pt = pt\<lparr>higher_jump_table := h, lower_jump_table := l\<rparr>;
           (if depth < pattern_len_max pt then
              do {
                (n, pt) \<leftarrow> hmt_fill_jump_tables pt (depth + 1) bs be;
                t \<leftarrow> wri (next_level_enter_point_table pt) idx (Some n);
                Some (bs, pt\<lparr>next_level_enter_point_table := t\<rparr>)
              }
            else Some (bs, pt))
         })
      })"

function hmt_fill_lengths :: "hmt_t \<Rightarrow> int \<Rightarrow> int option list \<Rightarrow> int option list option" where
  "hmt_fill_lengths pt i lengthes =
     (if i < cnt pt then
        do {
          it \<leftarrow> cell (items pt) i;
          l \<leftarrow> strnlen (pattern it) (nat (pattern_len_max pt));
          lengthes' \<leftarrow> wri lengthes i (Some (int l));
          hmt_fill_lengths pt (i + 1) lengthes'
        }
      else Some lengthes)"
  by pat_completeness auto
termination
  by (relation "measure (\<lambda>(pt, i, l). nat (cnt pt - i))") auto

declare hmt_fill_lengths.simps [simp del]

definition hmt_fill_patterns_length_table :: "hmt_t \<Rightarrow> hmt_t option" where
  "hmt_fill_patterns_length_table pt =
     do { l \<leftarrow> hmt_fill_lengths pt 0 (patterns_length pt); Some (pt\<lparr>patterns_length := l\<rparr>) }"

function hmt_someone_k :: "hmt_t \<Rightarrow> int \<Rightarrow> int \<Rightarrow> int \<Rightarrow> int option" where
  "hmt_someone_k pt idx i k =
     (if k < cnt pt then
        do {
          lk \<leftarrow> cell (patterns_length pt) k;
          (if lk \<ge> i + 1 then hmt_someone_k pt idx i (k + 1)
           else do {
             a \<leftarrow> cell (items pt) idx;
             b \<leftarrow> cell (items pt) k;
             d \<leftarrow> memcmp_ne (pattern a) (pattern b) (nat lk);
             (if d then hmt_someone_k pt idx i (k + 1) else Some k)
           })
        }
      else Some (-1))"
  by pat_completeness auto
termination
  by (relation "measure (\<lambda>(pt, idx, i, k). nat (cnt pt - k))") auto

declare hmt_someone_k.simps [simp del]

function hmt_someone_i :: "hmt_t \<Rightarrow> int \<Rightarrow> int \<Rightarrow> int \<Rightarrow> int option list \<Rightarrow> int option list option" where
  "hmt_someone_i pt idx len i t =
     (if i < len then
        do {
          m \<leftarrow> hmt_someone_k pt idx i (idx + 1);
          t' \<leftarrow> wri t (push_bit (pattern_len_max_shift pt) idx + i) (Some (c8 m));
          hmt_someone_i pt idx len (i + 1) t'
        }
      else Some t)"
  by pat_completeness auto
termination
  by (relation "measure (\<lambda>(pt, idx, len, i, t). nat (len - i))") auto

declare hmt_someone_i.simps [simp del]

definition hmt_find_someone_else_matched :: "hmt_t \<Rightarrow> int \<Rightarrow> hmt_t option" where
  "hmt_find_someone_else_matched pt idx =
     do {
       len \<leftarrow> cell (patterns_length pt) idx;
       t \<leftarrow> hmt_someone_i pt idx len 0 (someone_else_matched_table pt);
       Some (pt\<lparr>someone_else_matched_table := t\<rparr>)
     }"

text \<open>The loop over all patterns; \<open>n\<close> is the count, which the body does not change.\<close>

function hmt_fill_someone_else :: "int \<Rightarrow> int \<Rightarrow> hmt_t \<Rightarrow> hmt_t option" where
  "hmt_fill_someone_else n i pt =
     (if i < n then do { pt' \<leftarrow> hmt_find_someone_else_matched pt i; hmt_fill_someone_else n (i + 1) pt' }
      else Some pt)"
  by pat_completeness auto
termination
  by (relation "measure (\<lambda>(n, i, pt). nat (n - i))") auto

declare hmt_fill_someone_else.simps [simp del]

definition hmt_fill_someone_else_matched_table :: "hmt_t \<Rightarrow> hmt_t option" where
  "hmt_fill_someone_else_matched_table pt = hmt_fill_someone_else (cnt pt) 0 pt"

text \<open>\<open>malloc_ok j\<close> tells whether the \<open>j\<close>-th of the five allocations succeeds.\<close>

definition hmt_compile :: "(nat \<Rightarrow> bool) \<Rightarrow> hmt_t \<Rightarrow> (int \<times> hmt_t) option" where
  "hmt_compile malloc_ok pt =
     (let pt = hmt_free_content pt;
          jump_table_size = push_bit (pattern_len_max_shift pt) (cnt pt);
          fresh = replicate (nat jump_table_size) None in
      if jump_table_size = 0 \<or> \<not> (\<forall>j < 5. malloc_ok j) then Some (-1, hmt_free_content pt)
      else
        (let pt = pt\<lparr>higher_jump_table := fresh, lower_jump_table := fresh, someone_else_matched_table := fresh,
                     next_level_enter_point_table := fresh, patterns_length := replicate (nat (cnt pt)) None\<rparr> in
         do {
           pt \<leftarrow> hmt_fill_patterns_length_table pt;
           pt \<leftarrow> hmt_fill_someone_else_matched_table pt;
           (e, pt) \<leftarrow> hmt_fill_jump_tables pt 0 0 (c8 (cnt pt - 1));
           Some (0, pt\<lparr>enter_point := e\<rparr>)
         }))"

section \<open>match.c\<close>

definition hmt_item_result :: "hmt_t \<Rightarrow> int \<Rightarrow> (nat \<times> int option) option" where
  "hmt_item_result pt m =
     do { l \<leftarrow> cell (patterns_length pt) m; it \<leftarrow> cell (items pt) m; Some (userdata it, Some l) }"

definition hmt_someone_else :: "hmt_t \<Rightarrow> int \<Rightarrow> int \<Rightarrow> (nat \<times> int option) option" where
  "hmt_someone_else pt m depth =
     do {
       n \<leftarrow> cell (someone_else_matched_table pt) (push_bit (pattern_len_max_shift pt) m + depth);
       (if n = -1 then Some (0, None) else hmt_item_result pt n)
     }"

partial_function (option) hmt_match_loop :: "hmt_t \<Rightarrow> byte list \<Rightarrow> int \<Rightarrow> int \<Rightarrow> (nat \<times> int option) option" where
  "hmt_match_loop pt str m depth =
     (if depth < pattern_len_max pt then
        do {
          c \<leftarrow> rdi str depth;
          pc \<leftarrow> pat_char pt m depth;
          let idx = push_bit (pattern_len_max_shift pt) m + depth;
          (if pc = 0 then hmt_item_result pt m
           else if c = pc then
             do {
               n \<leftarrow> cell (next_level_enter_point_table pt) idx;
               (if n = -1 then hmt_someone_else pt m depth else hmt_match_loop pt str n (depth + 1))
             }
           else if sint c > sint pc then
             do {
               n \<leftarrow> cell (higher_jump_table pt) idx;
               (if n = -1 then hmt_someone_else pt m depth else hmt_match_loop pt str n depth)
             }
           else
             do {
               n \<leftarrow> cell (lower_jump_table pt) idx;
               (if n = -1 then hmt_someone_else pt m depth else hmt_match_loop pt str n depth)
             })
        }
      else Some (0, None))"

text \<open>The returned pointer, and the matched length when it is stored.\<close>

definition hmt_match :: "hmt_t \<Rightarrow> byte list \<Rightarrow> (nat \<times> int option) option" where
  "hmt_match pt str =
     (if enter_point pt = -1 then Some (0, None) else hmt_match_loop pt str (enter_point pt) 0)"

declare hmt_fill_jump_tables.simps [code] hmt_match_loop.simps [code]

end
