(* ===== verification/Esq_Hmt_Add.thy ===== *)
theory Esq_Hmt_Add
  imports Esq_Hmt
begin

text \<open>
  The pattern store of the head match tree: the invariant of \<^verbatim>\<open>hmt_t\<close> (patterns NUL-terminated,
  bounded, strictly descending in the order of \<open>strncmp\<close>), and the behaviour of the insertion on every
  branch.
\<close>

section \<open>The order of the patterns\<close>

fun lexlt :: "byte list \<Rightarrow> byte list \<Rightarrow> bool" where
  "lexlt [] (y # ys) \<longleftrightarrow> True"
| "lexlt xs [] \<longleftrightarrow> False"
| "lexlt (x # xs) (y # ys) \<longleftrightarrow> unat x < unat y \<or> x = y \<and> lexlt xs ys"

lemma lexlt_irrefl [simp]: "\<not> lexlt xs xs"
  by (induction xs) auto

lemma lexlt_trans: "lexlt xs ys \<Longrightarrow> lexlt ys zs \<Longrightarrow> lexlt xs zs"
proof (induction xs ys arbitrary: zs rule: lexlt.induct)
  case (1 y ys)
  then show ?case by (cases zs) auto
next
  case (3 x xs y ys)
  then show ?case by (cases zs) auto
qed simp

lemma lexlt_linear: "lexlt xs ys \<or> xs = ys \<or> lexlt ys xs"
proof (induction xs ys rule: lexlt.induct)
  case (2 xs)
  then show ?case by (cases xs) auto
qed (auto simp: word_unat_eq_iff)

lemma lexlt_append [simp]: "lexlt (p @ xs) (p @ ys) = lexlt xs ys"
  by (induction p) auto

lemma lexlt_prefix: "strict_prefix q p \<Longrightarrow> lexlt q p"
  by (elim strict_prefixE') (metis append_Nil2 lexlt.simps(1) lexlt_append)

section \<open>strncmp\<close>

lemma rd_cstr:
  assumes "has_nul a" "i \<le> length (cstr a)"
  shows "rd a i = Some (if i < length (cstr a) then cstr a ! i else 0)"
  using assms has_nul_length_cstr [OF assms(1)] by (auto simp: rd_in nth_cstr has_nul_nth_cstr not_less)

lemma uint_less_unat: "uint (x :: byte) < uint y \<longleftrightarrow> unat x < unat y"
  using of_nat_less_iff [of "unat x" "unat y", where ?'a = int] by simp

lemma strncmp_at_order:
  assumes "has_nul a" "has_nul b" "i \<le> length (cstr a)" "i \<le> length (cstr b)"
    and "length (cstr a) < i + n" "length (cstr b) < i + n"
  shows "\<exists>r. strncmp_at a b i n = Some r \<and>
    (r > 0 \<longleftrightarrow> lexlt (drop i (cstr b)) (drop i (cstr a))) \<and>
    (r < 0 \<longleftrightarrow> lexlt (drop i (cstr a)) (drop i (cstr b)))"
  using assms
proof (induction n arbitrary: i)
  case (Suc n)
  note rd = rd_cstr [OF Suc.prems(1,3)] rd_cstr [OF Suc.prems(2,4)]
  have nz: "c \<in> set (cstr a) \<union> set (cstr b) \<Longrightarrow> 0 < uint c" for c
    using cstr_no_nul [of c a] cstr_no_nul [of c b] by (auto simp: word_gt_0 word_less_def [of 0, simplified, symmetric])
  consider "i = length (cstr a)" "i = length (cstr b)" | "i = length (cstr a)" "i < length (cstr b)"
    | "i < length (cstr a)" "i = length (cstr b)" | "i < length (cstr a)" "i < length (cstr b)"
    using Suc.prems by linarith
  then show ?case
  proof cases
    case 1
    then show ?thesis using rd by simp
  next
    case 2
    then have "0 < uint (cstr b ! i)" using nz by simp
    then show ?thesis using 2 rd by (auto simp flip: Cons_nth_drop_Suc)
  next
    case 3
    then have "0 < uint (cstr a ! i)" using nz by simp
    then show ?thesis using 3 rd by (auto simp flip: Cons_nth_drop_Suc)
  next
    case 4
    then have d: "drop i (cstr a) = cstr a ! i # drop (Suc i) (cstr a)"
      "drop i (cstr b) = cstr b ! i # drop (Suc i) (cstr b)" by (simp_all add: Cons_nth_drop_Suc)
    have "cstr a ! i \<noteq> 0" using 4 cstr_no_nul [OF nth_mem] by blast
    with 4 d rd Suc.IH [of "Suc i"] Suc.prems show ?thesis
      by (cases "cstr a ! i = cstr b ! i") (simp_all add: uint_less_unat)
  qed
qed simp

lemma strncmp_order:
  assumes "has_nul a" "has_nul b" "length (cstr a) < n" "length (cstr b) < n"
  shows "\<exists>r. strncmp a b n = Some r \<and> (r > 0 \<longleftrightarrow> lexlt (cstr b) (cstr a)) \<and> (r < 0 \<longleftrightarrow> lexlt (cstr a) (cstr b))"
  using strncmp_at_order [OF assms(1,2), of 0 n] assms by (simp add: strncmp_def)

section \<open>The invariant\<close>

definition pat_ok :: "int \<Rightarrow> hmt_item_t \<Rightarrow> bool" where
  "pat_ok len_max it \<longleftrightarrow>
     has_nul (pattern it) \<and> 0 < length (cstr (pattern it)) \<and> int (length (cstr (pattern it))) < len_max"

definition hview :: "hmt_t \<Rightarrow> hmt_item_t list" where
  "hview pt = map the (take (nat (cnt pt)) (items pt))"

definition pats :: "hmt_t \<Rightarrow> byte list list" where
  "pats pt = map (\<lambda>it. cstr (pattern it)) (hview pt)"

definition hmt_wf :: "hmt_t \<Rightarrow> bool" where
  "hmt_wf pt \<longleftrightarrow>
     0 \<le> cnt pt \<and> cnt pt \<le> hmax pt \<and> hmax pt < HMT_ITEM_MAX \<and> length (items pt) = nat (hmax pt) \<and>
     pattern_len_max pt = 2 ^ pattern_len_max_shift pt \<and>
     (\<forall>x \<in> set (take (nat (cnt pt)) (items pt)). x \<noteq> None) \<and>
     (\<forall>it \<in> set (hview pt). pat_ok (pattern_len_max pt) it) \<and>
     sorted_wrt (\<lambda>p q. lexlt q p) (pats pt)"

lemma hmt_wf_cnt:
  assumes "hmt_wf pt"
  shows "nat (cnt pt) \<le> length (items pt)" "nat (cnt pt) \<le> 110" "int (nat (cnt pt)) = cnt pt"
  using assms unfolding hmt_wf_def HMT_ITEM_MAX_def by linarith+

lemma length_hview [simp]: "hmt_wf pt \<Longrightarrow> length (hview pt) = nat (cnt pt)"
  using hmt_wf_cnt(1) [of pt] by (simp add: hview_def)

lemma length_pats [simp]: "length (pats pt) = length (hview pt)"
  by (simp add: pats_def)

lemma cell_nat: "cell t (int i) = (if i < length t then t ! i else None)"
  by (simp add: cell_def rdi_def rd_def)

lemma cell_items:
  assumes "hmt_wf pt" "i < nat (cnt pt)"
  shows "cell (items pt) (int i) = Some (hview pt ! i)"
proof -
  have "i < length (items pt)" using assms(2) hmt_wf_cnt(1) [OF assms(1)] by simp
  moreover have "items pt ! i \<in> set (take (nat (cnt pt)) (items pt))"
    using assms calculation by (auto simp: in_set_conv_nth)
  then have "items pt ! i \<noteq> None" using assms by (simp add: hmt_wf_def)
  ultimately show ?thesis using assms(2) by (auto simp: cell_nat hview_def)
qed

lemma pats_nth: "i < length (hview pt) \<Longrightarrow> pats pt ! i = cstr (pattern (hview pt ! i))"
  by (simp add: pats_def)

lemma hview_ok: "hmt_wf pt \<Longrightarrow> i < nat (cnt pt) \<Longrightarrow> pat_ok (pattern_len_max pt) (hview pt ! i)"
  using nth_mem [of i "hview pt"] length_hview [of pt] unfolding hmt_wf_def by auto

lemma pats_desc: "hmt_wf pt \<Longrightarrow> i < j \<Longrightarrow> j < nat (cnt pt) \<Longrightarrow> lexlt (pats pt ! j) (pats pt ! i)"
  using sorted_wrt_nth_less [of "\<lambda>p q. lexlt q p" "pats pt" i j] length_hview [of pt] unfolding hmt_wf_def by auto

section \<open>Finding the insertion index\<close>

lemma hmt_add_find_correct:
  assumes "hmt_wf pt" "pat_ok (pattern_len_max pt) k" "i \<le> nat (cnt pt)"
    and "\<forall>l < i. lexlt (cstr (pattern k)) (pats pt ! l)"
  shows "hmt_add_find pt k (int i) = Some (Inl (-3)) \<and> cstr (pattern k) \<in> set (pats pt) \<or>
    (\<exists>j \<le> nat (cnt pt). hmt_add_find pt k (int i) = Some (Inr (int j)) \<and>
       (\<forall>l < j. lexlt (cstr (pattern k)) (pats pt ! l)) \<and>
       (\<forall>l. j \<le> l \<and> l < nat (cnt pt) \<longrightarrow> lexlt (pats pt ! l) (cstr (pattern k))))"
  using assms
proof (induction "nat (cnt pt) - i" arbitrary: i rule: less_induct)
  case less
  show ?case
  proof (cases "i < nat (cnt pt)")
    case False
    then have "hmt_add_find pt k (int i) = Some (Inr (int i))"
      using less.prems(3) by (subst hmt_add_find.simps) auto
    then show ?thesis using less.prems False by (intro disjI2 exI [of _ i]) auto
  next
    case True
    let ?it = "hview pt ! i"
    have it: "cell (items pt) (int i) = Some ?it" "pat_ok (pattern_len_max pt) ?it" "pats pt ! i = cstr (pattern ?it)"
      using True less.prems(1) by (simp_all add: cell_items hview_ok pats_nth)
    obtain r where r: "hmt_item_compare k ?it (pattern_len_max pt) = Some r"
      "r > 0 \<longleftrightarrow> lexlt (pats pt ! i) (cstr (pattern k))" "r < 0 \<longleftrightarrow> lexlt (cstr (pattern k)) (pats pt ! i)"
      using strncmp_order [of "pattern k" "pattern ?it" "nat (pattern_len_max pt)"] it less.prems(2)
      unfolding hmt_item_compare_def pat_ok_def by (metis zless_nat_eq_int_zless)
    have step: "hmt_add_find pt k (int i) =
        (if r > 0 then Some (Inr (int i)) else if r < 0 then hmt_add_find pt k (int (Suc i)) else Some (Inl (-3)))"
      using True it(1) r(1) by (subst hmt_add_find.simps) (auto simp: add.commute)
    consider "r > 0" | "r < 0" | "r = 0" by linarith
    then show ?thesis
    proof cases
      case 1
      have "lexlt (pats pt ! l) (cstr (pattern k))" if "i \<le> l" "l < nat (cnt pt)" for l
        using that 1 r(2) pats_desc [OF less.prems(1), of i l] lexlt_trans by (cases "i = l") auto
      then show ?thesis using step 1 True less.prems by (intro disjI2 exI [of _ i]) simp
    next
      case 2
      then have "\<forall>l < Suc i. lexlt (cstr (pattern k)) (pats pt ! l)" using r(3) less.prems(4) less_Suc_eq by auto
      with less.hyps [of "Suc i"] less.prems True step 2 show ?thesis by simp
    next
      case 3
      then have "cstr (pattern k) = pats pt ! i" using r lexlt_linear by blast
      moreover have "pats pt ! i \<in> set (pats pt)" using True less.prems(1) by (intro nth_mem) simp
      ultimately show ?thesis using step 3 by simp
    qed
  qed
qed

section \<open>Shifting and inserting\<close>

lemma hmt_add_shift_correct:
  assumes "i \<le> n" "n < length its"
  shows "\<exists>its'. hmt_add_shift its (int n) (int i) = Some its' \<and> length its' = length its \<and>
    (\<forall>l < length its. its' ! l = (if i < l \<and> l \<le> n then its ! (l - 1) else its ! l))"
  using assms
proof (induction "n - i" arbitrary: n its rule: less_induct)
  case less
  show ?case
  proof (cases "i < n")
    case False
    then have "hmt_add_shift its (int n) (int i) = Some its" by (subst hmt_add_shift.simps) simp
    then show ?thesis using False less.prems by auto
  next
    case True
    let ?its = "its[n := its ! (n - 1)]"
    have pred: "int n - 1 = int (n - 1)" using True by simp
    have step: "hmt_add_shift its (int n) (int i) = hmt_add_shift ?its (int (n - 1)) (int i)"
      using True less.prems
      by (subst hmt_add_shift.simps) (simp add: pred rdi_def wri_def rd_in wr_in del: of_nat_diff)
    have dec: "n - 1 - i < n - i" "i \<le> n - 1" "n - 1 < length ?its" using True less.prems by simp_all
    obtain its' where its': "hmt_add_shift ?its (int (n - 1)) (int i) = Some its'" "length its' = length its"
      "\<And>l. l < length its \<Longrightarrow> its' ! l = (if i < l \<and> l \<le> n - 1 then ?its ! (l - 1) else ?its ! l)"
      using less.hyps [OF dec(1), of ?its, OF dec(2,3)] by (auto simp del: of_nat_diff)
    have "its' ! l = (if i < l \<and> l \<le> n then its ! (l - 1) else its ! l)" if "l < length its" for l
      using its'(3) [OF that] that True less.prems by (auto simp: nth_list_update)
    then show ?thesis using step its' by auto
  qed
qed

text \<open>The item array after the insertion, as seen through the count.\<close>

lemma insert_view:
  assumes "j \<le> n" "n < length its" "length its' = length its"
    and "\<forall>l < length its. its' ! l = (if j < l \<and> l \<le> n then its ! (l - 1) else its ! l)"
  shows "take (Suc n) (its'[j := x]) = take j (take n its) @ x # drop j (take n its)"
proof (rule nth_equalityI)
  fix l assume "l < length (take (Suc n) (its'[j := x]))"
  then have l: "l < Suc n" "l < length its" using assms by simp_all
  consider "l < j" | "l = j" | "j < l" by linarith
  then show "take (Suc n) (its'[j := x]) ! l = (take j (take n its) @ x # drop j (take n its)) ! l"
  proof cases
    case 3
    then have "(take j (take n its) @ x # drop j (take n its)) ! l = drop j (take n its) ! (l - j - 1)"
      using assms by (simp add: nth_append min_def nth_Cons')
    also have "\<dots> = its ! (l - 1)" using 3 l assms by (simp add: nth_drop)
    finally show ?thesis using 3 l assms by simp
  qed (use l assms in \<open>simp_all add: nth_append min_def\<close>)
qed (use assms in \<open>simp add: min_def\<close>)

definition hmt_insert :: "nat \<Rightarrow> hmt_item_t \<Rightarrow> hmt_item_t list \<Rightarrow> hmt_item_t list" where
  "hmt_insert j k its = take j its @ k # drop j its"

lemma set_hmt_insert [simp]: "set (hmt_insert j k its) = insert k (set its)"
  by (metis Un_insert_right append_take_drop_id hmt_insert_def list.simps(15) set_append)

lemma sorted_insert:
  assumes "sorted_wrt R ps" "\<forall>l < j. R (ps ! l) q" "\<forall>l. j \<le> l \<and> l < length ps \<longrightarrow> R q (ps ! l)" "j \<le> length ps"
  shows "sorted_wrt R (take j ps @ q # drop j ps)"
proof -
  have "sorted_wrt R (take j ps) \<and> sorted_wrt R (drop j ps) \<and> (\<forall>x \<in> set (take j ps). \<forall>y \<in> set (drop j ps). R x y)"
    using assms(1) by (metis append_take_drop_id sorted_wrt_append)
  moreover have "\<forall>x \<in> set (take j ps). R x q" using assms(2,4) by (auto simp: in_set_conv_nth)
  moreover have "\<forall>x \<in> set (drop j ps). R q x" using assms(3,4) by (fastforce simp: in_set_conv_nth)
  ultimately show ?thesis by (auto simp: sorted_wrt_append)
qed

lemma hmt_add_item_correct:
  assumes wf: "hmt_wf pt" and k: "k = \<lparr>pattern = p, userdata = u, malloc_item = mi\<rparr>" "pat_ok (pattern_len_max pt) k"
  shows "if cnt pt = hmax pt then hmt_add_item pt p u mi = Some (-1, pt)
    else if cstr p \<in> set (pats pt) then hmt_add_item pt p u mi = Some (-3, pt)
    else \<exists>j pt'. hmt_add_item pt p u mi = Some (0, pt') \<and> hmt_wf pt' \<and> hmax pt' = hmax pt \<and>
           pattern_len_max pt' = pattern_len_max pt \<and> cnt pt' = cnt pt + 1 \<and>
           hview pt' = hmt_insert j k (hview pt)"
proof (cases "cnt pt \<ge> hmax pt")
  case True
  then have "cnt pt = hmax pt" using wf by (simp add: hmt_wf_def)
  then show ?thesis by (simp add: hmt_add_item_def)
next
  case False
  let ?n = "nat (cnt pt)"
  have n: "?n < length (items pt)" "int ?n = cnt pt" "nat (cnt pt + 1) = Suc ?n"
    using False wf unfolding hmt_wf_def by linarith+
  consider "hmt_add_find pt k (int 0) = Some (Inl (-3))" "cstr p \<in> set (pats pt)"
    | j where "j \<le> ?n" "hmt_add_find pt k (int 0) = Some (Inr (int j))"
      "\<forall>l < j. lexlt (cstr p) (pats pt ! l)" "\<forall>l. j \<le> l \<and> l < ?n \<longrightarrow> lexlt (pats pt ! l) (cstr p)"
    using hmt_add_find_correct [OF wf k(2), of 0] k(1) by auto
  then show ?thesis
  proof cases
    case 1
    then show ?thesis using False k(1) by (simp add: hmt_add_item_def)
  next
    case (2 j)
    obtain its' where its': "hmt_add_shift (items pt) (cnt pt) (int j) = Some its'" "length its' = length (items pt)"
      "\<forall>l < length (items pt). its' ! l = (if j < l \<and> l \<le> ?n then items pt ! (l - 1) else items pt ! l)"
      using hmt_add_shift_correct [OF 2(1) n(1)] n(2) by auto
    let ?pt = "pt\<lparr>items := its'[j := Some k], cnt := cnt pt + 1\<rparr>"
    have add: "hmt_add_item pt p u mi = Some (0, ?pt)"
      using False k(1) 2 its' n by (simp add: hmt_add_item_def wri_def wr_in)
    have tk: "take (nat (cnt ?pt)) (items ?pt) = take j (take ?n (items pt)) @ Some k # drop j (take ?n (items pt))"
      using insert_view [OF 2(1) n(1) its'(2,3)] n(3) by simp
    then have hv: "hview ?pt = hmt_insert j k (hview pt)"
      by (simp add: hview_def hmt_insert_def take_map drop_map)
    have ps: "pats ?pt = take j (pats pt) @ cstr p # drop j (pats pt)"
      using hv k(1) by (simp add: pats_def hmt_insert_def take_map drop_map)
    have srt: "sorted_wrt (\<lambda>p q. lexlt q p) (pats ?pt)"
      unfolding ps using 2 wf by (intro sorted_insert) (auto simp: hmt_wf_def)
    have some: "\<forall>x \<in> set (take (nat (cnt ?pt)) (items ?pt)). x \<noteq> None"
      using wf unfolding tk hmt_wf_def set_append list.set by (blast dest: in_set_takeD in_set_dropD)
    have "hmt_wf ?pt"
      unfolding hmt_wf_def using srt some hv k(2) wf False its'(2) by (auto simp: hmt_wf_def)
    moreover have "cstr p \<notin> set (pats pt)"
    proof
      assume "cstr p \<in> set (pats pt)"
      then obtain l where "l < ?n" "pats pt ! l = cstr p" using wf by (auto simp: in_set_conv_nth)
      then show False using 2 by (metis lexlt_irrefl not_less)
    qed
    moreover have "hmax ?pt = hmax pt" "pattern_len_max ?pt = pattern_len_max pt" "cnt ?pt = cnt pt + 1" by simp_all
    ultimately show ?thesis using add hv False by (metis less_irrefl not_le)
  qed
qed

section \<open>Properties\<close>

lemma hmt_new_wf: "hmt_new2 True mx scale = Some pt \<Longrightarrow> 0 \<le> mx \<Longrightarrow> hmt_wf pt \<and> hview pt = [] \<and> hmax pt = mx"
  by (cases scale) (auto simp: hmt_new2_def hmt_wf_def hview_def pats_def hmt_scale_shift_def split: if_splits)

lemma hmt_add_cases:
  assumes "hmt_wf pt" "has_nul p"
  shows "if cstr p = [] \<or> pattern_len_max pt \<le> int (length (cstr p)) then hmt_add pt p u = Some (-2, pt)
    else if cnt pt = hmax pt then hmt_add pt p u = Some (-1, pt)
    else if cstr p \<in> set (pats pt) then hmt_add pt p u = Some (-3, pt)
    else \<exists>j pt'. hmt_add pt p u = Some (0, pt') \<and> hmt_wf pt' \<and> hmax pt' = hmax pt \<and>
           pattern_len_max pt' = pattern_len_max pt \<and> cnt pt' = cnt pt + 1 \<and>
           hview pt' = hmt_insert j \<lparr>pattern = p, userdata = u, malloc_item = False\<rparr> (hview pt)"
proof -
  let ?k = "\<lparr>pattern = p, userdata = u, malloc_item = False\<rparr>"
  have len: "strnlen p (nat (pattern_len_max pt)) = Some (min (nat (pattern_len_max pt)) (length (cstr p)))"
    using assms(2) by (rule strnlen_cstr)
  have pos: "0 < pattern_len_max pt" using assms(1) by (simp add: hmt_wf_def)
  show ?thesis
  proof (cases "cstr p = [] \<or> pattern_len_max pt \<le> int (length (cstr p))")
    case True
    then show ?thesis using len pos by (auto simp: hmt_add_def min_def)
  next
    case False
    then have "pat_ok (pattern_len_max pt) ?k" using assms(2) by (simp add: pat_ok_def)
    note item = hmt_add_item_correct [OF assms(1) refl this]
    have "hmt_add pt p u = hmt_add_item pt p u False" using False len pos by (auto simp: hmt_add_def min_def)
    then show ?thesis using item False by (simp only: if_False)
  qed
qed

text \<open>
  C22.  \<open>hmt_add\<close> on a valid tree returns one of four codes and never accesses anything out of bounds:
  \<open>-2\<close> for an empty pattern and for one as long as the limit of the scale or longer, \<open>-1\<close> when the tree is full, \<open>-3\<close> when the
  pattern exists (the tree is unchanged in these cases), and otherwise 0 with the item inserted once, everything
  else kept, and the invariant (bounded, NUL-terminated, strictly descending patterns) preserved.  A pattern one byte shorter than the
  limit is accepted, although the comment in the code asks for less than the limit minus one, and \<open>-2\<close> is described there as too long
  only.
\<close>

theorem hmt_add_correct:
  assumes "hmt_wf pt" "has_nul p"
  shows "if cstr p = [] \<or> pattern_len_max pt \<le> int (length (cstr p)) then hmt_add pt p u = Some (-2, pt)
    else if cnt pt = hmax pt then hmt_add pt p u = Some (-1, pt)
    else if cstr p \<in> set (pats pt) then hmt_add pt p u = Some (-3, pt)
    else \<exists>j pt'. hmt_add pt p u = Some (0, pt') \<and> hmt_wf pt' \<and> hmax pt' = hmax pt \<and>
           hview pt' = hmt_insert j \<lparr>pattern = p, userdata = u, malloc_item = False\<rparr> (hview pt)"
  using hmt_add_cases [OF assms, of u] by (auto split: if_splits)

theorem hmt_add_correct_witness:
  "\<exists>j pt'. hmt_add (the (hmt_new True 4)) (bytes ''/a'' @ [0]) 7 = Some (0, pt') \<and> hmt_wf pt'"
proof -
  have "hmt_wf (the (hmt_new True 4)) \<and> hview (the (hmt_new True 4)) = []"
    using hmt_new_wf [of 4 HMT_SCALE_32] by (simp add: hmt_new_def hmt_new2_def HMT_ITEM_MAX_def)
  then show ?thesis
    using hmt_add_correct [of "the (hmt_new True 4)" "bytes ''/a'' @ [0]" 7]
    by (auto simp: has_nul_def cstr_def pats_def hmt_new_def hmt_new2_def hmt_scale_shift_def HMT_ITEM_MAX_def)
qed

end
