(* ===== verification/Esq_Hmt_Match.thy ===== *)
theory Esq_Hmt_Match
  imports Esq_Hmt_Add
begin

text \<open>
  Correctness of the compiled head match tree: the jump tables that \<open>hmt_compile\<close> writes are described
  by an inductive predicate \<open>jt\<close> on ranges of the sorted patterns; \<open>hmt_match\<close> on such tables finds the
  longest pattern that is a prefix of the string.  The patterns are assumed to be plain ASCII, because
  the search compares signed characters while the patterns are sorted as unsigned ones.
\<close>

section \<open>Patterns by position\<close>

definition pchr :: "byte list list \<Rightarrow> nat \<Rightarrow> nat \<Rightarrow> byte" where
  "pchr P i d = (if d < length (P ! i) then P ! i ! d else 0)"

lemma pat_char_pchr:
  assumes "hmt_wf pt" "i < nat (cnt pt)" "d \<le> length (pats pt ! i)"
  shows "pat_char pt (int i) (int d) = Some (pchr (pats pt) i d)"
  using assms rd_cstr [of "pattern (hview pt ! i)" d] hview_ok [OF assms(1,2)]
  by (simp add: pat_char_def cell_items pats_nth rdi_def pchr_def pat_ok_def)

lemma pats_no_nul: "c \<in> set p \<Longrightarrow> p \<in> set (pats pt) \<Longrightarrow> c \<noteq> 0"
  using cstr_no_nul by (auto simp: pats_def)

lemma pchr_eq_0:
  assumes "i < length (pats pt)"
  shows "pchr (pats pt) i d = 0 \<longleftrightarrow> length (pats pt ! i) \<le> d"
  using pats_no_nul [of "pats pt ! i ! d" "pats pt ! i" pt] assms by (auto simp: pchr_def)

text \<open>In a range of patterns with a common prefix of length \<open>d\<close>, the next characters descend.\<close>

definition rng :: "byte list list \<Rightarrow> nat \<Rightarrow> nat \<Rightarrow> nat \<Rightarrow> bool" where
  "rng P d b e \<longleftrightarrow> b \<le> e \<and> e < length P \<and> (\<forall>i. b \<le> i \<and> i \<le> e \<longrightarrow> d \<le> length (P ! i) \<and> take d (P ! i) = take d (P ! b))"

lemma rng_desc:
  assumes wf: "hmt_wf pt" and r: "rng (pats pt) d b e" and ij: "b \<le> i" "i < j" "j \<le> e"
  shows "d < length (pats pt ! i)" "unat (pchr (pats pt) j d) \<le> unat (pchr (pats pt) i d)"
proof -
  let ?P = "pats pt"
  have eq: "take d (?P ! i) = take d (?P ! j)" "d \<le> length (?P ! i)" "d \<le> length (?P ! j)"
    using r ij unfolding rng_def by (metis le_trans less_imp_le)+
  have j: "j < nat (cnt pt)" using r ij wf by (simp add: rng_def)
  have "lexlt (take d (?P ! i) @ drop d (?P ! j)) (take d (?P ! i) @ drop d (?P ! i))"
    using pats_desc [OF wf ij(2) j] eq(1) by (metis append_take_drop_id)
  then have lt: "lexlt (drop d (?P ! j)) (drop d (?P ! i))" by (simp only: lexlt_append)
  then show d: "d < length (?P ! i)" using eq(2) by (cases "d = length (?P ! i)") auto
  then have di: "drop d (?P ! i) = ?P ! i ! d # drop (Suc d) (?P ! i)" by (simp add: Cons_nth_drop_Suc)
  show "unat (pchr ?P j d) \<le> unat (pchr ?P i d)"
  proof (cases "d < length (?P ! j)")
    case True
    then have "drop d (?P ! j) = ?P ! j ! d # drop (Suc d) (?P ! j)" by (simp add: Cons_nth_drop_Suc)
    then show ?thesis using lt di d True by (auto simp: pchr_def)
  qed (simp add: pchr_def)
qed

lemma rng_leaf: "hmt_wf pt \<Longrightarrow> rng (pats pt) d b e \<Longrightarrow> length (pats pt ! b) \<le> d \<Longrightarrow> e = b"
  using rng_desc(1) [of pt d b e b e] by (auto simp: rng_def le_less)

section \<open>The center group\<close>

lemma center_down_correct:
  assumes wf: "hmt_wf pt" and r: "rng (pats pt) d b e" and s: "b \<le> s" "s \<le> e" "pchr (pats pt) s d = c"
  shows "\<exists>s'. center_down pt (int d) c (int b) (int s - 1) (int s) = Some (int s') \<and> b \<le> s' \<and> s' \<le> s \<and>
    (\<forall>l. s' \<le> l \<and> l \<le> s \<longrightarrow> pchr (pats pt) l d = c) \<and> (b < s' \<longrightarrow> pchr (pats pt) (s' - 1) d \<noteq> c)"
  using s
proof (induction s)
  case 0
  then show ?case by (subst center_down.simps) (auto intro!: exI [of _ 0])
next
  case (Suc s)
  show ?case
  proof (cases "b \<le> s")
    case False
    then show ?thesis using Suc.prems by (subst center_down.simps) (auto intro!: exI [of _ "Suc s"] simp: le_Suc_eq)
  next
    case True
    have pc: "pat_char pt (int s) (int d) = Some (pchr (pats pt) s d)"
      using True Suc.prems r wf by (intro pat_char_pchr) (auto simp: rng_def)
    show ?thesis
    proof (cases "pchr (pats pt) s d = c")
      case eq: True
      obtain s' where "center_down pt (int d) c (int b) (int s - 1) (int s) = Some (int s')" "b \<le> s'" "s' \<le> s"
        "\<forall>l. s' \<le> l \<and> l \<le> s \<longrightarrow> pchr (pats pt) l d = c" "b < s' \<longrightarrow> pchr (pats pt) (s' - 1) d \<noteq> c"
        using Suc.IH [OF True _ eq] Suc.prems by auto
      then show ?thesis
        using pc eq True Suc.prems by (subst center_down.simps) (auto intro!: exI [of _ s'] simp: le_Suc_eq)
    next
      case False
      then show ?thesis
        using pc True Suc.prems by (subst center_down.simps) (auto intro!: exI [of _ "Suc s"] simp: le_antisym)
    qed
  qed
qed

lemma center_up_correct:
  assumes wf: "hmt_wf pt" and r: "rng (pats pt) d b e" and s: "b \<le> s" "s \<le> e" "pchr (pats pt) s d = c"
  shows "\<exists>s'. center_up pt (int d) c (int e) (int s + 1) (int s) = Some (int s') \<and> s \<le> s' \<and> s' \<le> e \<and>
    (\<forall>l. s \<le> l \<and> l \<le> s' \<longrightarrow> pchr (pats pt) l d = c) \<and> (s' < e \<longrightarrow> pchr (pats pt) (Suc s') d \<noteq> c)"
  using s
proof (induction "e - s" arbitrary: s rule: less_induct)
  case less
  show ?case
  proof (cases "s < e")
    case False
    then show ?thesis using less.prems by (subst center_up.simps) (auto intro!: exI [of _ s] simp: le_antisym)
  next
    case True
    have pc: "pat_char pt (int (Suc s)) (int d) = Some (pchr (pats pt) (Suc s) d)"
      using True less.prems r wf by (intro pat_char_pchr) (auto simp: rng_def)
    show ?thesis
    proof (cases "pchr (pats pt) (Suc s) d = c")
      case eq: True
      have prem: "e - Suc s < e - s" "b \<le> Suc s" "Suc s \<le> e" using True less.prems by simp_all
      obtain s' where "center_up pt (int d) c (int e) (int (Suc s) + 1) (int (Suc s)) = Some (int s')" "Suc s \<le> s'" "s' \<le> e"
        "\<forall>l. Suc s \<le> l \<and> l \<le> s' \<longrightarrow> pchr (pats pt) l d = c" "s' < e \<longrightarrow> pchr (pats pt) (Suc s') d \<noteq> c"
        using less.hyps [OF prem eq] by blast
      moreover have "center_up pt (int d) c (int e) (int s + 1) (int s) = center_up pt (int d) c (int e) (int (Suc s) + 1) (int (Suc s))"
        using pc eq True by (subst center_up.simps) (simp add: add.commute)
      moreover have "\<forall>l. s \<le> l \<and> l \<le> s' \<longrightarrow> pchr (pats pt) l d = c"
        using calculation(4) less.prems(3) by (metis Suc_leI le_eq_less_or_eq)
      ultimately show ?thesis by (metis Suc_leD)
    next
      case False
      then show ?thesis
        using pc True less.prems by (subst center_up.simps) (auto intro!: exI [of _ s] simp: le_antisym add.commute)
    qed
  qed
qed

lemma c8_id: "-128 \<le> x \<Longrightarrow> x < 128 \<Longrightarrow> c8 x = x"
  by (simp add: c8_def)

definition group :: "byte list list \<Rightarrow> nat \<Rightarrow> nat \<Rightarrow> nat \<Rightarrow> nat \<Rightarrow> nat \<Rightarrow> bool" where
  "group P d b e bs be \<longleftrightarrow>
     b \<le> bs \<and> bs \<le> be \<and> be \<le> e \<and>
     (\<forall>l. bs \<le> l \<and> l \<le> be \<longrightarrow> pchr P l d = pchr P bs d) \<and>
     (\<forall>l. b \<le> l \<and> l < bs \<longrightarrow> unat (pchr P bs d) < unat (pchr P l d)) \<and>
     (\<forall>l. be < l \<and> l \<le> e \<longrightarrow> unat (pchr P l d) < unat (pchr P bs d))"

lemma center_group:
  assumes wf: "hmt_wf pt" and r: "rng (pats pt) d b e"
  shows "\<exists>bs be. hmt_find_center_group_border pt (int d) (int b) (int e) = Some (int bs, int be) \<and>
    group (pats pt) d b e bs be \<and> bs \<le> (b + e) div 2"
proof -
  let ?P = "pats pt"
  define m where "m = (b + e) div 2"
  have m: "b \<le> m" "m \<le> e" "drop_bit 1 (int b + int e) = int m"
    using r by (auto simp: m_def rng_def drop_bit_eq_div zdiv_int)
  have e: "e < 128" using r hmt_wf_cnt(2) [OF wf] wf by (simp add: rng_def)
  obtain bs where bs: "center_down pt (int d) (pchr ?P m d) (int b) (int m - 1) (int m) = Some (int bs)" "b \<le> bs" "bs \<le> m"
    "\<forall>l. bs \<le> l \<and> l \<le> m \<longrightarrow> pchr ?P l d = pchr ?P m d" "b < bs \<longrightarrow> pchr ?P (bs - 1) d \<noteq> pchr ?P m d"
    using center_down_correct [OF wf r m(1,2) refl] by blast
  obtain be where be: "center_up pt (int d) (pchr ?P m d) (int e) (int m + 1) (int m) = Some (int be)" "m \<le> be" "be \<le> e"
    "\<forall>l. m \<le> l \<and> l \<le> be \<longrightarrow> pchr ?P l d = pchr ?P m d" "be < e \<longrightarrow> pchr ?P (Suc be) d \<noteq> pchr ?P m d"
    using center_up_correct [OF wf r m(1,2) refl] by blast
  have c: "pchr ?P bs d = pchr ?P m d" using bs by blast
  have "pat_char pt (int m) (int d) = Some (pchr ?P m d)"
    using m r wf by (intro pat_char_pchr) (auto simp: rng_def)
  then have res: "hmt_find_center_group_border pt (int d) (int b) (int e) = Some (int bs, int be)"
    using m(3) bs(1,3) be(1,3) m(2) e by (simp add: hmt_find_center_group_border_def c8_id)
  have hi: "unat (pchr ?P bs d) < unat (pchr ?P l d)" if "b \<le> l" "l < bs" for l
  proof -
    have "unat (pchr ?P (bs - 1) d) \<le> unat (pchr ?P l d)"
      using rng_desc(2) [OF wf r that(1), of "bs - 1"] that bs(3) m(2) by (cases "l = bs - 1") auto
    moreover have "unat (pchr ?P bs d) \<le> unat (pchr ?P (bs - 1) d)"
      using rng_desc(2) [OF wf r, of "bs - 1" bs] that bs(2,3) m(2) by auto
    moreover have "unat (pchr ?P bs d) \<noteq> unat (pchr ?P (bs - 1) d)"
      using bs(5) c that by (auto simp: word_unat_eq_iff [symmetric])
    ultimately show ?thesis by linarith
  qed
  have lo: "unat (pchr ?P l d) < unat (pchr ?P bs d)" if "be < l" "l \<le> e" for l
  proof -
    have "unat (pchr ?P l d) \<le> unat (pchr ?P (Suc be) d)"
      using rng_desc(2) [OF wf r, of "Suc be" l] that m(1) be(2) by (cases "l = Suc be") auto
    moreover have "unat (pchr ?P (Suc be) d) \<le> unat (pchr ?P m d)"
      using rng_desc(2) [OF wf r m(1), of "Suc be"] that be(2) by auto
    moreover have "unat (pchr ?P m d) \<noteq> unat (pchr ?P (Suc be) d)"
      using be(5) that by (auto simp: word_unat_eq_iff [symmetric])
    ultimately show ?thesis unfolding c by linarith
  qed
  have same: "pchr ?P l d = pchr ?P bs d" if "bs \<le> l" "l \<le> be" for l
    using bs(4) be(4) c that by (metis nat_le_linear)
  have "bs \<le> be" using bs(3) be(2) by simp
  then have "group ?P d b e bs be" unfolding group_def using bs(2) be(3) hi lo same by blast
  with res bs(3) show ?thesis unfolding m_def by blast
qed

section \<open>Table cells\<close>

definition row :: "hmt_t \<Rightarrow> nat" where
  "row pt = 2 ^ pattern_len_max_shift pt"

definition at :: "hmt_t \<Rightarrow> int option list \<Rightarrow> nat \<Rightarrow> nat \<Rightarrow> int option" where
  "at pt t i d = cell t (int (i * row pt + d))"

lemma row_index: "push_bit (pattern_len_max_shift pt) (int i) + int d = int (i * row pt + d)"
  by (simp add: row_def push_bit_eq_mult)

lemma row_eq_iff:
  assumes "d < n" "d' < (n :: nat)"
  shows "i * n + d = i' * n + d' \<longleftrightarrow> i = i' \<and> d = d'"
proof
  assume eq: "i * n + d = i' * n + d'"
  have "(i * n + d) div n = i" "(i' * n + d') div n = i'" "(i * n + d) mod n = d" "(i' * n + d') mod n = d'"
    using assms by simp_all
  then show "i = i' \<and> d = d'" using eq by metis
qed simp

lemma row_bound: "i < n \<Longrightarrow> d < k \<Longrightarrow> i * k + d < n * (k :: nat)"
proof -
  assume "i < n" "d < k"
  then have "i * k + d < Suc i * k" by simp
  also have "\<dots> \<le> n * k" using \<open>i < n\<close> by (intro mult_le_mono1) simp
  finally show ?thesis .
qed

lemma wri_at:
  assumes "length t = n * row pt" "i < n" "d < row pt"
  shows "\<exists>t'. wri t (int (i * row pt + d)) v = Some t' \<and> length t' = length t \<and>
    (\<forall>i' d'. d' < row pt \<longrightarrow> at pt t' i' d' = (if i' = i \<and> d' = d then v else at pt t i' d'))"
proof -
  let ?k = "i * row pt + d"
  have k: "?k < length t" using row_bound [OF assms(2,3)] assms(1) by simp
  have "wri t (int ?k) v = Some (t[?k := v])" using k by (simp add: wri_def wr_in nat_int_add [symmetric] del: of_nat_add of_nat_mult)
  moreover have "at pt (t[?k := v]) i' d' = (if i' = i \<and> d' = d then v else at pt t i' d')" if "d' < row pt" for i' d'
  proof -
    have "cell (t[?k := v]) (int q) = (if q = ?k then v else cell t (int q))" for q
      using k by (auto simp: cell_nat nth_list_update simp del: of_nat_add of_nat_mult)
    then show ?thesis using row_eq_iff [OF that assms(3), of i' i] by (simp only: at_def)
  qed
  ultimately show ?thesis by (intro exI [of _ "t[?k := v]"]) simp
qed

section \<open>Frames\<close>

text \<open>\<open>pt'\<close> differs from \<open>pt\<close> at most in the jump table cells of the region \<open>R\<close>.\<close>

definition jump_cells :: "hmt_t \<Rightarrow> nat \<Rightarrow> nat \<Rightarrow> int option \<times> int option \<times> int option" where
  "jump_cells pt i d =
     (at pt (higher_jump_table pt) i d, at pt (lower_jump_table pt) i d, at pt (next_level_enter_point_table pt) i d)"

definition jump_size :: "hmt_t \<Rightarrow> nat \<Rightarrow> bool" where
  "jump_size pt n \<longleftrightarrow> length (higher_jump_table pt) = n * row pt \<and> length (lower_jump_table pt) = n * row pt \<and>
     length (next_level_enter_point_table pt) = n * row pt"

definition jump_only :: "hmt_t \<Rightarrow> hmt_t \<Rightarrow> bool" where
  "jump_only pt pt' \<longleftrightarrow>
     pt'\<lparr>enter_point := 0, higher_jump_table := [], lower_jump_table := [], next_level_enter_point_table := []\<rparr> =
     pt\<lparr>enter_point := 0, higher_jump_table := [], lower_jump_table := [], next_level_enter_point_table := []\<rparr>"

definition frame :: "hmt_t \<Rightarrow> hmt_t \<Rightarrow> (nat \<Rightarrow> nat \<Rightarrow> bool) \<Rightarrow> bool" where
  "frame pt pt' R \<longleftrightarrow> jump_only pt pt' \<and> (\<forall>n. jump_size pt n \<longrightarrow> jump_size pt' n) \<and>
     (\<forall>i d. d < row pt \<longrightarrow> \<not> R i d \<longrightarrow> jump_cells pt' i d = jump_cells pt i d)"

lemma jump_onlyD:
  assumes "jump_only pt pt'"
  shows "items pt' = items pt" "cnt pt' = cnt pt" "hmax pt' = hmax pt" "pattern_len_max pt' = pattern_len_max pt"
    "pattern_len_max_shift pt' = pattern_len_max_shift pt" "patterns_length pt' = patterns_length pt"
    "someone_else_matched_table pt' = someone_else_matched_table pt"
  using assms by (cases pt; cases pt'; simp add: jump_only_def)+

lemma jump_only_view:
  assumes "jump_only pt pt'"
  shows "hview pt' = hview pt" "pats pt' = pats pt" "row pt' = row pt" "hmt_wf pt' = hmt_wf pt"
  using jump_onlyD [OF assms] by (simp_all add: hview_def pats_def row_def hmt_wf_def)

lemma frame_refl: "frame pt pt R"
  by (simp add: frame_def jump_only_def)

lemma frame_trans: "frame a b R \<Longrightarrow> frame b c R' \<Longrightarrow> frame a c (\<lambda>i d. R i d \<or> R' i d)"
  using jump_only_view(3) [of a b] by (auto simp: frame_def jump_only_def)

lemma frame_mono: "frame a b R \<Longrightarrow> (\<And>i d. R i d \<Longrightarrow> R' i d) \<Longrightarrow> frame a b R'"
  unfolding frame_def by blast

text \<open>Writing the two jump cells, and the next-level cell, of position \<open>(i, d)\<close>.\<close>

lemma write_jumps:
  assumes "jump_size pt n" "i < n" "d < row pt"
  shows "\<exists>h l. wri (higher_jump_table pt) (int (i * row pt + d)) (Some x) = Some h \<and>
    wri (lower_jump_table pt) (int (i * row pt + d)) (Some y) = Some l \<and>
    frame pt (pt\<lparr>higher_jump_table := h, lower_jump_table := l\<rparr>) (\<lambda>i' d'. i' = i \<and> d' = d) \<and>
    at pt h i d = Some x \<and> at pt l i d = Some y"
proof -
  obtain h l where hl: "wri (higher_jump_table pt) (int (i * row pt + d)) (Some x) = Some h" "length h = n * row pt"
    "\<forall>i' d'. d' < row pt \<longrightarrow> at pt h i' d' = (if i' = i \<and> d' = d then Some x else at pt (higher_jump_table pt) i' d')"
    "wri (lower_jump_table pt) (int (i * row pt + d)) (Some y) = Some l" "length l = n * row pt"
    "\<forall>i' d'. d' < row pt \<longrightarrow> at pt l i' d' = (if i' = i \<and> d' = d then Some y else at pt (lower_jump_table pt) i' d')"
    using wri_at [of "higher_jump_table pt" n pt i d "Some x"] wri_at [of "lower_jump_table pt" n pt i d "Some y"] assms
    unfolding jump_size_def by (metis (no_types))
  then show ?thesis
    using assms by (intro exI [of _ h] exI [of _ l])
      (auto simp: frame_def jump_only_def jump_cells_def jump_size_def at_def row_def)
qed

lemma write_next:
  assumes "jump_size pt n" "i < n" "d < row pt"
  shows "\<exists>t. wri (next_level_enter_point_table pt) (int (i * row pt + d)) (Some x) = Some t \<and>
    frame pt (pt\<lparr>next_level_enter_point_table := t\<rparr>) (\<lambda>i' d'. i' = i \<and> d' = d) \<and> at pt t i d = Some x"
proof -
  obtain t where t: "wri (next_level_enter_point_table pt) (int (i * row pt + d)) (Some x) = Some t" "length t = n * row pt"
    "\<forall>i' d'. d' < row pt \<longrightarrow> at pt t i' d' = (if i' = i \<and> d' = d then Some x else at pt (next_level_enter_point_table pt) i' d')"
    using wri_at [of "next_level_enter_point_table pt" n pt i d "Some x"] assms
    unfolding jump_size_def by (metis (no_types))
  then show ?thesis
    using assms by (intro exI [of _ t])
      (auto simp: frame_def jump_only_def jump_cells_def jump_size_def at_def row_def)
qed

section \<open>Valid jump tables\<close>

text \<open>
  \<open>jt pt d b e r\<close>: entering at pattern \<open>r\<close>, the tables describe the patterns \<open>b .. e\<close>, which share their
  first \<open>d\<close> characters.
\<close>

inductive jt :: "hmt_t \<Rightarrow> nat \<Rightarrow> nat \<Rightarrow> nat \<Rightarrow> nat \<Rightarrow> bool" for pt where
  leaf: "b < length (pats pt) \<Longrightarrow> length (pats pt ! b) = d \<Longrightarrow> jt pt d b b b"
| node: "group (pats pt) d b e bs be \<Longrightarrow> e < length (pats pt) \<Longrightarrow> d < length (pats pt ! bs) \<Longrightarrow> d < row pt \<Longrightarrow>
    at pt (higher_jump_table pt) bs d = Some H \<Longrightarrow> at pt (lower_jump_table pt) bs d = Some L \<Longrightarrow>
    at pt (next_level_enter_point_table pt) bs d = Some (int n) \<Longrightarrow>
    bs = b \<and> H = -1 \<or> (\<exists>h. b < bs \<and> H = int h \<and> jt pt d b (bs - 1) h) \<Longrightarrow>
    be = e \<and> L = -1 \<or> (\<exists>l. be < e \<and> L = int l \<and> jt pt d (Suc be) e l) \<Longrightarrow>
    jt pt (Suc d) bs be n \<Longrightarrow> jt pt d b e bs"

lemma jt_bounds: "jt pt d b e r \<Longrightarrow> b \<le> r \<and> r \<le> e \<and> e < length (pats pt)"
  by (erule jt.cases) (auto simp: group_def)

lemma jt_frame:
  assumes "jt pt d b e r" "frame pt pt' R" "\<And>i j. b \<le> i \<Longrightarrow> i \<le> e \<Longrightarrow> d \<le> j \<Longrightarrow> \<not> R i j"
  shows "jt pt' d b e r"
  using assms(1,3)
proof (induction rule: jt.induct)
  case (leaf b d)
  then show ?case using jump_only_view(2) [of pt pt'] assms(2) by (auto simp: frame_def intro: jt.leaf)
next
  case (node d b e bs be H L n)
  have only: "jump_only pt pt'" using assms(2) by (simp add: frame_def)
  note view = jump_only_view [OF only]
  have g: "b \<le> bs" "bs \<le> be" "be \<le> e" using node.hyps(1) by (simp_all add: group_def)
  then have "\<not> R bs d" using node.prems [of bs d] by simp
  then have "jump_cells pt' bs d = jump_cells pt bs d" using assms(2) node.hyps(4) by (simp add: frame_def)
  then have cells: "at pt' (higher_jump_table pt') bs d = Some H" "at pt' (lower_jump_table pt') bs d = Some L"
    "at pt' (next_level_enter_point_table pt') bs d = Some (int n)"
    using node.hyps by (simp_all add: jump_cells_def at_def view)
  show ?case
  proof (rule jt.node [OF _ _ _ _ cells])
    show "bs = b \<and> H = -1 \<or> (\<exists>h. b < bs \<and> H = int h \<and> jt pt' d b (bs - 1) h)"
      using node.IH(1) node.prems g by fastforce
    show "be = e \<and> L = -1 \<or> (\<exists>l. be < e \<and> L = int l \<and> jt pt' d (Suc be) e l)"
      using node.IH(2) node.prems g by fastforce
    show "jt pt' (Suc d) bs be n" using node.IH(3) node.prems g by auto
  qed (use node.hyps view in auto)
qed

section \<open>hmt_fill_jump_tables builds valid tables\<close>

definition filled :: "hmt_t \<Rightarrow> nat \<Rightarrow> nat \<Rightarrow> nat \<Rightarrow> (int \<times> hmt_t) option \<Rightarrow> bool" where
  "filled pt d b e res \<longleftrightarrow>
     (\<exists>r pt'. res = Some (int r, pt') \<and> jt pt' d b e r \<and> frame pt pt' (\<lambda>i j. b \<le> i \<and> i \<le> e \<and> d \<le> j))"

lemma rng_group:
  assumes "rng P d b e" "group P d b e bs be"
  shows "b < bs \<Longrightarrow> rng P d b (bs - 1)" "be < e \<Longrightarrow> rng P d (Suc be) e"
    "d < length (P ! bs) \<Longrightarrow> \<forall>p \<in> set P. (0 :: byte) \<notin> set p \<Longrightarrow> rng P (Suc d) bs be"
proof -
  have r: "b \<le> e" "e < length P" "\<And>i. b \<le> i \<Longrightarrow> i \<le> e \<Longrightarrow> d \<le> length (P ! i) \<and> take d (P ! i) = take d (P ! b)"
    using assms(1) unfolding rng_def by blast+
  have g: "b \<le> bs" "bs \<le> be" "be \<le> e" "\<And>l. bs \<le> l \<Longrightarrow> l \<le> be \<Longrightarrow> pchr P l d = pchr P bs d"
    using assms(2) unfolding group_def by blast+
  show "rng P d b (bs - 1)" if "b < bs"
  proof -
    have "b \<le> bs - 1" "bs - 1 < length P" "bs - 1 \<le> e" using that r(2) g(2,3) by linarith+
    then show ?thesis unfolding rng_def using r(3) le_trans by blast
  qed
  show "rng P d (Suc be) e" if "be < e"
  proof -
    have be: "b \<le> Suc be" "Suc be \<le> e" using that g(1-3) by linarith+
    have "d \<le> length (P ! i) \<and> take d (P ! i) = take d (P ! Suc be)" if "Suc be \<le> i" "i \<le> e" for i
      using r(3) [of i] r(3) [OF be] that be(1) by simp
    then show ?thesis unfolding rng_def using be(2) r(2) by blast
  qed
  assume d: "d < length (P ! bs)" and nul: "\<forall>p \<in> set P. (0 :: byte) \<notin> set p"
  have "P ! bs ! d \<in> set (P ! bs)" "P ! bs \<in> set P" using d r(2) g(1-3) by auto
  then have nz: "P ! bs ! d \<noteq> 0" using nul by metis
  have "Suc d \<le> length (P ! i) \<and> take (Suc d) (P ! i) = take (Suc d) (P ! bs)" if i: "bs \<le> i" "i \<le> be" for i
  proof -
    have "pchr P i d = P ! bs ! d" using g(4) [OF i] d by (simp add: pchr_def)
    then have "d < length (P ! i)" "P ! i ! d = P ! bs ! d" using nz by (auto simp: pchr_def split: if_splits)
    moreover have "take d (P ! i) = take d (P ! bs)" using r(3) [of i] r(3) [of bs] i g(1-3) by simp
    ultimately show ?thesis using d by (simp add: take_Suc_conv_app_nth)
  qed
  moreover have "be < length P" using g(3) r(2) by linarith
  ultimately show "rng P (Suc d) bs be" unfolding rng_def using g(2) by blast
qed

lemma pats_nul_free: "\<forall>p \<in> set (pats pt). (0 :: byte) \<notin> set p"
  using pats_no_nul by blast

lemma row_len_max: "hmt_wf pt \<Longrightarrow> pattern_len_max pt = int (row pt)"
  by (simp add: hmt_wf_def row_def)

lemma pats_short:
  assumes "hmt_wf pt" "i < length (pats pt)"
  shows "length (pats pt ! i) < row pt"
proof -
  have "int (length (pats pt ! i)) < pattern_len_max pt"
    using hview_ok [of pt i] assms by (simp add: pats_nth pat_ok_def)
  then show ?thesis using row_len_max [OF assms(1)] by simp
qed

text \<open>The part of the node case that follows the two recursive calls on the outer ranges.\<close>

definition fill_tail :: "hmt_t \<Rightarrow> nat \<Rightarrow> nat \<Rightarrow> nat \<Rightarrow> int \<Rightarrow> int \<Rightarrow> (int \<times> hmt_t) option" where
  "fill_tail pt d bs be higher lower =
     do {
       h \<leftarrow> wri (higher_jump_table pt) (int (bs * row pt + d)) (Some higher);
       l \<leftarrow> wri (lower_jump_table pt) (int (bs * row pt + d)) (Some lower);
       (n, pt') \<leftarrow> hmt_fill_jump_tables (pt\<lparr>higher_jump_table := h, lower_jump_table := l\<rparr>) (int (Suc d)) (int bs) (int be);
       t \<leftarrow> wri (next_level_enter_point_table pt') (int (bs * row pt + d)) (Some n);
       Some (int bs, pt'\<lparr>next_level_enter_point_table := t\<rparr>)
     }"

lemma fill_tail_ok:
  assumes size: "jump_size pt n" "bs < n" "d < row pt" and le: "bs \<le> be"
    and IH: "\<And>pt'. frame pt pt' (\<lambda>i j. i = bs \<and> j = d) \<Longrightarrow>
       filled pt' (Suc d) bs be (hmt_fill_jump_tables pt' (int (Suc d)) (int bs) (int be))"
  shows "\<exists>pt' k. fill_tail pt d bs be x y = Some (int bs, pt') \<and> frame pt pt' (\<lambda>i j. bs \<le> i \<and> i \<le> be \<and> d \<le> j) \<and>
    at pt' (higher_jump_table pt') bs d = Some x \<and> at pt' (lower_jump_table pt') bs d = Some y \<and>
    at pt' (next_level_enter_point_table pt') bs d = Some (int k) \<and> jt pt' (Suc d) bs be k"
proof -
  obtain h l where hl: "wri (higher_jump_table pt) (int (bs * row pt + d)) (Some x) = Some h"
    "wri (lower_jump_table pt) (int (bs * row pt + d)) (Some y) = Some l"
    "frame pt (pt\<lparr>higher_jump_table := h, lower_jump_table := l\<rparr>) (\<lambda>i j. i = bs \<and> j = d)"
    "at pt h bs d = Some x" "at pt l bs d = Some y"
    using write_jumps [OF size] by blast
  let ?p1 = "pt\<lparr>higher_jump_table := h, lower_jump_table := l\<rparr>"
  obtain k p2 where k: "hmt_fill_jump_tables ?p1 (int (Suc d)) (int bs) (int be) = Some (int k, p2)"
    "jt p2 (Suc d) bs be k" "frame ?p1 p2 (\<lambda>i j. bs \<le> i \<and> i \<le> be \<and> Suc d \<le> j)"
    using IH [OF hl(3)] by (auto simp: filled_def)
  have row: "row ?p1 = row pt" "row p2 = row pt"
    using jump_only_view(3) [of ?p1 p2] k(3) by (simp_all add: frame_def row_def)
  have size2: "jump_size p2 n" using k(3) hl(3) size(1) by (simp add: frame_def)
  obtain t where t: "wri (next_level_enter_point_table p2) (int (bs * row pt + d)) (Some (int k)) = Some t"
    "frame p2 (p2\<lparr>next_level_enter_point_table := t\<rparr>) (\<lambda>i j. i = bs \<and> j = d)" "at p2 t bs d = Some (int k)"
    using write_next [OF size2 size(2), of d "int k"] size(3) row by auto
  let ?p3 = "p2\<lparr>next_level_enter_point_table := t\<rparr>"
  have "frame pt ?p3 (\<lambda>i j. bs \<le> i \<and> i \<le> be \<and> d \<le> j)"
    using frame_trans [OF frame_trans [OF hl(3) k(3)] t(2)] by (rule frame_mono) (use le in auto)
  moreover have "jt ?p3 (Suc d) bs be k" by (rule jt_frame [OF k(2) t(2)]) auto
  moreover have "jump_cells p2 bs d = jump_cells ?p1 bs d" using k(3) size(3) row by (simp add: frame_def)
  then have "at ?p3 (higher_jump_table ?p3) bs d = Some x" "at ?p3 (lower_jump_table ?p3) bs d = Some y"
    using hl(4,5) row by (simp_all add: jump_cells_def at_def row_def)
  moreover have "at ?p3 (next_level_enter_point_table ?p3) bs d = Some (int k)"
    using t(3) by (simp add: at_def row_def)
  ultimately show ?thesis using hl(1,2) k(1) t(1) by (auto simp: fill_tail_def row)
qed

lemma fill_unfold:
  assumes "int d < pattern_len_max pt" "pat_char pt (int b) (int d) = Some c" "c \<noteq> 0"
    and "hmt_find_center_group_border pt (int d) (int b) (int e) = Some (int bs, int be)"
    and "(if bs = b then Some (-1, pt) else hmt_fill_jump_tables pt (int d) (int b) (int (bs - 1))) = Some (hi, p1)"
    and "(if be = e then Some (-1, p1) else hmt_fill_jump_tables p1 (int d) (int (Suc be)) (int e)) = Some (lo, p2)"
    and "pattern_len_max p2 = pattern_len_max pt" "b \<le> bs" "bs < 128" "be < 127"
  shows "hmt_fill_jump_tables pt (int d) (int b) (int e) = fill_tail p2 d bs be hi lo"
proof -
  have hi: "(if int bs = int b then Some (-1, pt) else hmt_fill_jump_tables pt (int d) (int b) (c8 (int bs - 1))) = Some (hi, p1)"
  proof (cases "bs = b")
    case False
    then have "c8 (int bs - 1) = int (bs - 1)" using assms(8,9) by (subst c8_id) auto
    then show ?thesis using assms(5) False by simp
  qed (use assms(5) in simp)
  have lo: "(if int be = int e then Some (-1, p1) else hmt_fill_jump_tables p1 (int d) (c8 (int be + 1)) (int e)) = Some (lo, p2)"
    using assms(6,10) by (cases "be = e") (simp_all add: c8_id add.commute)
  show ?thesis
    using assms(1-4,7) hi lo row_index [of p2 bs d]
    by (subst hmt_fill_jump_tables.simps) (simp add: fill_tail_def Let_def add.commute [of _ 1] del: of_nat_add of_nat_mult)
qed

lemma frame_wf:
  assumes "frame pt pt' R" "hmt_wf pt" "jump_size pt n"
  shows "hmt_wf pt'" "jump_size pt' n" "pats pt' = pats pt" "row pt' = row pt" "pattern_len_max pt' = pattern_len_max pt"
  using assms jump_only_view [of pt pt'] jump_onlyD(4) [of pt pt'] by (auto simp: frame_def)

lemma fill_optional:
  assumes "\<not> c \<Longrightarrow> filled pt d b e res"
  shows "\<exists>x pt'. (if c then Some (-1, pt) else res) = Some (x, pt') \<and> frame pt pt' (\<lambda>i j. \<not> c \<and> b \<le> i \<and> i \<le> e \<and> d \<le> j) \<and>
    (c \<and> x = -1 \<or> \<not> c \<and> (\<exists>r. x = int r \<and> jt pt' d b e r))"
  using assms by (cases c) (auto simp: filled_def frame_refl)

lemma fill_assemble:
  assumes g: "group (pats pt) d b e bs be" "e < length (pats pt)" "d < length (pats pt ! bs)" "d < row pt"
    and wf: "hmt_wf pt" "jump_size pt n"
    and hi: "frame pt p1 (\<lambda>i j. bs \<noteq> b \<and> b \<le> i \<and> i \<le> bs - 1 \<and> d \<le> j)"
      "bs = b \<and> hi = -1 \<or> bs \<noteq> b \<and> (\<exists>r. hi = int r \<and> jt p1 d b (bs - 1) r)"
    and lo: "frame p1 p2 (\<lambda>i j. be \<noteq> e \<and> Suc be \<le> i \<and> i \<le> e \<and> d \<le> j)"
      "be = e \<and> lo = -1 \<or> be \<noteq> e \<and> (\<exists>r. lo = int r \<and> jt p2 d (Suc be) e r)"
    and tail: "frame p2 p3 (\<lambda>i j. bs \<le> i \<and> i \<le> be \<and> d \<le> j)"
      "at p3 (higher_jump_table p3) bs d = Some hi" "at p3 (lower_jump_table p3) bs d = Some lo"
      "at p3 (next_level_enter_point_table p3) bs d = Some (int k)" "jt p3 (Suc d) bs be k"
  shows "frame pt p3 (\<lambda>i j. b \<le> i \<and> i \<le> e \<and> d \<le> j)" "jt p3 d b e bs"
proof -
  have bs: "b \<le> bs" "bs \<le> be" "be \<le> e" using g(1) by (simp_all add: group_def)
  show fr: "frame pt p3 (\<lambda>i j. b \<le> i \<and> i \<le> e \<and> d \<le> j)"
    using frame_trans [OF frame_trans [OF hi(1) lo(1)] tail(1)] by (rule frame_mono) (use bs in auto)
  note view = frame_wf [OF fr wf]
  have up: "jt p3 d b (bs - 1) r" if "jt p1 d b (bs - 1) r" "bs \<noteq> b" for r
    by (rule jt_frame [OF jt_frame [OF that(1) lo(1)] tail(1)]) (use that(2) bs in linarith)+
  have down: "jt p3 d (Suc be) e r" if "jt p2 d (Suc be) e r" for r
    by (rule jt_frame [OF that tail(1)]) linarith
  show "jt p3 d b e bs"
  proof (rule jt.node [OF _ _ _ _ tail(2-4) _ _ tail(5)])
    show "bs = b \<and> hi = -1 \<or> (\<exists>h. b < bs \<and> hi = int h \<and> jt p3 d b (bs - 1) h)"
      using hi(2) bs(1) up by (metis le_neq_implies_less)
    show "be = e \<and> lo = -1 \<or> (\<exists>l. be < e \<and> lo = int l \<and> jt p3 d (Suc be) e l)"
      using lo(2) bs(3) down by (metis le_neq_implies_less)
  qed (use g view in auto)
qed

lemma fill_node:
  assumes wf: "hmt_wf pt" and r: "rng (pats pt) d b e" and size: "jump_size pt (nat (cnt pt))"
    and nl: "length (pats pt ! b) \<noteq> d"
    and IH: "\<And>pt' d' b' e' R. (row pt - d') * 128 + (e' - b') < (row pt - d) * 128 + (e - b) \<Longrightarrow> frame pt pt' R \<Longrightarrow>
      rng (pats pt) d' b' e' \<Longrightarrow> filled pt' d' b' e' (hmt_fill_jump_tables pt' (int d') (int b') (int e'))"
  shows "filled pt d b e (hmt_fill_jump_tables pt (int d) (int b) (int e))"
proof -
  let ?P = "pats pt"
  have b: "b \<le> e" "e < nat (cnt pt)" "e < 127" "b < length ?P" "d \<le> length (?P ! b)"
    using r wf hmt_wf_cnt(2) [OF wf] by (auto simp: rng_def)
  have d: "d < row pt" using pats_short [OF wf b(4)] b(5) by simp
  have pc: "pat_char pt (int b) (int d) = Some (pchr ?P b d)" using b by (intro pat_char_pchr wf) auto
  have c: "pchr ?P b d \<noteq> 0" using pchr_eq_0 [OF b(4), of d] b(5) nl by auto
  obtain bs be where cg: "hmt_find_center_group_border pt (int d) (int b) (int e) = Some (int bs, int be)"
    and g: "group ?P d b e bs be" and mid: "bs \<le> (b + e) div 2" using center_group [OF wf r] by blast
  have bs: "b \<le> bs" "bs \<le> be" "be \<le> e" using g by (simp_all add: group_def)
  have dbs: "d < length (?P ! bs)"
  proof (cases "b = e")
    case False
    then have "bs < e" using mid b(1) by simp
    then show ?thesis using rng_desc(1) [OF wf r bs(1) _ order.refl] by blast
  next
    case True
    then have "bs = b" using bs by linarith
    then show ?thesis using b(5) nl by simp
  qed
  note sub = rng_group [OF r g]
  have f1: "filled pt d b (bs - 1) (hmt_fill_jump_tables pt (int d) (int b) (int (bs - 1)))" if "bs \<noteq> b"
    using that bs by (intro IH [OF _ frame_refl sub(1)]) auto
  obtain hi p1 where hi: "(if bs = b then Some (-1, pt) else hmt_fill_jump_tables pt (int d) (int b) (int (bs - 1))) = Some (hi, p1)"
    "frame pt p1 (\<lambda>i j. bs \<noteq> b \<and> b \<le> i \<and> i \<le> bs - 1 \<and> d \<le> j)"
    "bs = b \<and> hi = -1 \<or> bs \<noteq> b \<and> (\<exists>r. hi = int r \<and> jt p1 d b (bs - 1) r)"
    using fill_optional [OF f1] by blast
  have f2: "filled p1 d (Suc be) e (hmt_fill_jump_tables p1 (int d) (int (Suc be)) (int e))" if "be \<noteq> e"
    using that bs by (intro IH [OF _ hi(2) sub(2)]) auto
  obtain lo p2 where lo: "(if be = e then Some (-1, p1) else hmt_fill_jump_tables p1 (int d) (int (Suc be)) (int e)) = Some (lo, p2)"
    "frame p1 p2 (\<lambda>i j. be \<noteq> e \<and> Suc be \<le> i \<and> i \<le> e \<and> d \<le> j)"
    "be = e \<and> lo = -1 \<or> be \<noteq> e \<and> (\<exists>r. lo = int r \<and> jt p2 d (Suc be) e r)"
    using fill_optional [OF f2] by blast
  note fr2 = frame_trans [OF hi(2) lo(2)]
  note view2 = frame_wf [OF fr2 wf size]
  have "filled pt' (Suc d) bs be (hmt_fill_jump_tables pt' (int (Suc d)) (int bs) (int be))"
    if "frame p2 pt' (\<lambda>i j. i = bs \<and> j = d)" for pt'
    using d bs b(3) by (intro IH [OF _ frame_trans [OF fr2 that] sub(3)] dbs pats_nul_free) auto
  then obtain p3 k where tail: "fill_tail p2 d bs be hi lo = Some (int bs, p3)"
    "frame p2 p3 (\<lambda>i j. bs \<le> i \<and> i \<le> be \<and> d \<le> j)"
    "at p3 (higher_jump_table p3) bs d = Some hi" "at p3 (lower_jump_table p3) bs d = Some lo"
    "at p3 (next_level_enter_point_table p3) bs d = Some (int k)" "jt p3 (Suc d) bs be k"
    using fill_tail_ok [OF view2(2), of bs d be hi lo] bs b(2) d view2(4) by auto
  have "hmt_fill_jump_tables pt (int d) (int b) (int e) = Some (int bs, p3)"
    using fill_unfold [OF _ pc c cg hi(1) lo(1) view2(5) bs(1)] tail(1) d row_len_max [OF wf] bs b(3) by simp
  moreover have "e < length ?P" using b(2) wf by simp
  ultimately show ?thesis
    using fill_assemble [OF g _ dbs d wf size hi(2,3) lo(2,3) tail(2-6)] by (auto simp: filled_def)
qed

lemma fill_jump_tables_correct:
  assumes "hmt_wf pt" "rng (pats pt) d b e" "jump_size pt (nat (cnt pt))"
  shows "filled pt d b e (hmt_fill_jump_tables pt (int d) (int b) (int e))"
  using assms
proof (induction "(row pt - d) * 128 + (e - b)" arbitrary: pt d b e rule: less_induct)
  case less
  note wf = less.prems(1) and r = less.prems(2) and size = less.prems(3)
  have b: "b < nat (cnt pt)" "d \<le> length (pats pt ! b)" using r wf by (auto simp: rng_def)
  show ?case
  proof (cases "length (pats pt ! b) = d")
    case True
    then have "pchr (pats pt) b d = 0" "e = b" using pchr_eq_0 [of b pt d] b wf rng_leaf [OF wf r] by simp_all
    then have "hmt_fill_jump_tables pt (int d) (int b) (int e) = Some (int b, pt)"
      using pat_char_pchr [OF wf b] by (subst hmt_fill_jump_tables.simps) simp
    then show ?thesis using True b wf \<open>e = b\<close> by (auto simp: filled_def frame_refl intro: jt.leaf)
  next
    case False
    have "filled pt' d' b' e' (hmt_fill_jump_tables pt' (int d') (int b') (int e'))"
      if "(row pt - d') * 128 + (e' - b') < (row pt - d) * 128 + (e - b)" "frame pt pt' R" "rng (pats pt) d' b' e'"
      for pt' d' b' e' R
      using less.hyps [of pt' d' e' b'] that frame_wf [OF that(2) wf size] jump_onlyD(2) [of pt pt']
      by (simp add: frame_def)
    then show ?thesis by (rule fill_node [OF wf r size False])
  qed
qed

section \<open>The length table and the table of shorter matches\<close>

definition lens_ok :: "hmt_t \<Rightarrow> bool" where
  "lens_ok pt \<longleftrightarrow> (\<forall>k < nat (cnt pt). cell (patterns_length pt) (int k) = Some (int (length (pats pt ! k))))"

lemma fill_lengths_correct:
  assumes "hmt_wf pt" "i \<le> nat (cnt pt)" "length t = nat (cnt pt)" "\<forall>j < i. t ! j = Some (int (length (pats pt ! j)))"
  shows "\<exists>t'. hmt_fill_lengths pt (int i) t = Some t' \<and> length t' = nat (cnt pt) \<and>
    (\<forall>j < nat (cnt pt). t' ! j = Some (int (length (pats pt ! j))))"
  using assms(2-4)
proof (induction "nat (cnt pt) - i" arbitrary: i t rule: less_induct)
  case less
  show ?case
  proof (cases "i < nat (cnt pt)")
    case False
    then show ?thesis using less.prems by (subst hmt_fill_lengths.simps) auto
  next
    case True
    have ok: "pat_ok (pattern_len_max pt) (hview pt ! i)" by (rule hview_ok [OF assms(1) True])
    then have len: "strnlen (pattern (hview pt ! i)) (nat (pattern_len_max pt)) = Some (length (pats pt ! i))"
      using True assms(1) unfolding pat_ok_def by (simp add: strnlen_cstr pats_nth) linarith
    let ?t = "t[i := Some (int (length (pats pt ! i)))]"
    have "hmt_fill_lengths pt (int i) t = hmt_fill_lengths pt (int (Suc i)) ?t"
      using True True [unfolded zless_nat_eq_int_zless] len less.prems(2) cell_items [OF assms(1) True]
      by (subst hmt_fill_lengths.simps) (simp add: wri_def wr_in add.commute)
    moreover have "\<forall>j < Suc i. ?t ! j = Some (int (length (pats pt ! j)))"
      using less.prems(2,3) True by (auto simp: nth_list_update less_Suc_eq)
    ultimately show ?thesis using less.hyps [of "Suc i" ?t] True less.prems(2) by simp
  qed
qed

text \<open>Pattern \<open>k\<close> is a prefix of pattern \<open>idx\<close> of length at most \<open>i\<close>; the first such pattern after \<open>idx\<close>.\<close>

definition shorter :: "byte list list \<Rightarrow> nat \<Rightarrow> nat \<Rightarrow> nat \<Rightarrow> bool" where
  "shorter P idx i k \<longleftrightarrow> idx < k \<and> k < length P \<and> length (P ! k) \<le> i \<and> prefix (P ! k) (P ! idx)"

definition first_shorter :: "byte list list \<Rightarrow> nat \<Rightarrow> nat \<Rightarrow> int \<Rightarrow> bool" where
  "first_shorter P idx i v \<longleftrightarrow>
     v = -1 \<and> (\<forall>k. \<not> shorter P idx i k) \<or>
     (\<exists>k. v = int k \<and> shorter P idx i k \<and> (\<forall>j < k. \<not> shorter P idx i j))"

lemma prefix_take: "prefix q p \<longleftrightarrow> length q \<le> length p \<and> take (length q) p = q"
  by (metis append_eq_conv_conj append_take_drop_id prefix_def prefix_length_le)

lemma memcmp_prefix:
  assumes "hmt_wf pt" "k < nat (cnt pt)" "idx < nat (cnt pt)" "length (pats pt ! k) \<le> length (pats pt ! idx)"
  shows "memcmp_ne (pattern (hview pt ! idx)) (pattern (hview pt ! k)) (length (pats pt ! k))
    = Some (\<not> prefix (pats pt ! k) (pats pt ! idx))"
proof -
  let ?a = "pattern (hview pt ! idx)" and ?b = "pattern (hview pt ! k)"
  have nul: "has_nul ?a" "has_nul ?b" and P: "pats pt ! idx = cstr ?a" "pats pt ! k = cstr ?b"
    using hview_ok [OF assms(1,2)] hview_ok [OF assms(1,3)] assms(1-3) by (simp_all add: pat_ok_def pats_nth)
  have "take (length (cstr ?b)) ?a = take (length (cstr ?b)) (cstr ?a)"
    using assms(4) P by (metis cstr_take min.absorb1 take_take)
  then have "take (length (cstr ?b)) ?a = take (length (cstr ?b)) ?b \<longleftrightarrow> prefix (cstr ?b) (cstr ?a)"
    using assms(4) P by (simp add: prefix_take cstr_take)
  then show ?thesis
    using nul [THEN has_nul_length_cstr] assms(4) P by (simp add: memcmp_ne_def)
qed

lemma someone_k_correct:
  assumes wf: "hmt_wf pt" and lens: "lens_ok pt" and idx: "idx < nat (cnt pt)" "i < length (pats pt ! idx)"
    and k: "idx < k" "k \<le> nat (cnt pt)" "\<forall>j < k. \<not> shorter (pats pt) idx i j"
  shows "\<exists>v. hmt_someone_k pt (int idx) (int i) (int k) = Some v \<and> first_shorter (pats pt) idx i v"
  using k
proof (induction "nat (cnt pt) - k" arbitrary: k rule: less_induct)
  case less
  show ?case
  proof (cases "k < nat (cnt pt)")
    case False
    then have "hmt_someone_k pt (int idx) (int i) (int k) = Some (-1)"
      using less.prems by (subst hmt_someone_k.simps) auto
    moreover have "\<not> shorter (pats pt) idx i j" for j
      using less.prems False wf by (cases "j < k") (auto simp: shorter_def)
    ultimately show ?thesis by (auto simp: first_shorter_def)
  next
    case True
    let ?P = "pats pt"
    have step: "hmt_someone_k pt (int idx) (int i) (int k) =
        (if shorter ?P idx i k then Some (int k) else hmt_someone_k pt (int idx) (int i) (int (Suc k)))"
      using True lens cell_items [OF wf True] cell_items [OF wf idx(1)] memcmp_prefix [OF wf True idx(1)]
        less.prems(1) idx(2) wf
      by (subst hmt_someone_k.simps) (auto simp: lens_ok_def shorter_def add.commute)
    show ?thesis
    proof (cases "shorter ?P idx i k")
      case sh: True
      then show ?thesis using step less.prems(3) by (auto simp: first_shorter_def)
    next
      case False
      then have "\<forall>j < Suc k. \<not> shorter ?P idx i j" using less.prems(3) less_Suc_eq by blast
      then show ?thesis using less.hyps [of "Suc k"] less.prems True step False by simp
    qed
  qed
qed

definition row_ok :: "hmt_t \<Rightarrow> int option list \<Rightarrow> nat \<Rightarrow> nat \<Rightarrow> bool" where
  "row_ok pt t idx n \<longleftrightarrow> (\<forall>j < n. \<exists>v. at pt t idx j = Some v \<and> first_shorter (pats pt) idx j v)"

lemma first_shorter_c8:
  "hmt_wf pt \<Longrightarrow> first_shorter (pats pt) idx i v \<Longrightarrow> c8 v = v"
  using hmt_wf_cnt(2) [of pt] by (auto simp: first_shorter_def shorter_def intro!: c8_id)

lemma someone_i_correct:
  assumes wf: "hmt_wf pt" and lens: "lens_ok pt" and idx: "idx < nat (cnt pt)"
    and i: "i \<le> length (pats pt ! idx)" "length t = nat (cnt pt) * row pt" "row_ok pt t idx i"
  shows "\<exists>t'. hmt_someone_i pt (int idx) (int (length (pats pt ! idx))) (int i) t = Some t' \<and>
    length t' = length t \<and> row_ok pt t' idx (length (pats pt ! idx)) \<and>
    (\<forall>k j. k \<noteq> idx \<longrightarrow> j < row pt \<longrightarrow> at pt t' k j = at pt t k j)"
  using i
proof (induction "length (pats pt ! idx) - i" arbitrary: i t rule: less_induct)
  case less
  show ?case
  proof (cases "i < length (pats pt ! idx)")
    case False
    then show ?thesis using less.prems by (subst hmt_someone_i.simps) auto
  next
    case True
    have "i < row pt" using True pats_short [OF wf, of idx] idx wf by simp
    obtain v where v: "hmt_someone_k pt (int idx) (int i) (int (Suc idx)) = Some v" "first_shorter (pats pt) idx i v"
      using someone_k_correct [OF wf lens idx True, of "Suc idx"] idx by (auto simp: shorter_def)
    obtain t1 where t1: "wri t (int (idx * row pt + i)) (Some v) = Some t1" "length t1 = length t"
      "\<And>k j. j < row pt \<Longrightarrow> at pt t1 k j = (if k = idx \<and> j = i then Some v else at pt t k j)"
      using wri_at [OF less.prems(2) idx \<open>i < row pt\<close>, of "Some v"] by blast
    have step: "hmt_someone_i pt (int idx) (int (length (pats pt ! idx))) (int i) t
        = hmt_someone_i pt (int idx) (int (length (pats pt ! idx))) (int (Suc i)) t1"
      using True v first_shorter_c8 [OF wf v(2)] t1(1) row_index [of pt idx i]
      by (subst hmt_someone_i.simps) (simp add: add.commute [of _ 1] del: of_nat_add of_nat_mult)
    have "row_ok pt t1 idx (Suc i)"
      using less.prems(3) v(2) t1(3) \<open>i < row pt\<close> unfolding row_ok_def by (metis less_Suc_eq less_trans)
    then obtain t' where "hmt_someone_i pt (int idx) (int (length (pats pt ! idx))) (int (Suc i)) t1 = Some t'"
      "length t' = length t1" "row_ok pt t' idx (length (pats pt ! idx))"
      "\<forall>k j. k \<noteq> idx \<longrightarrow> j < row pt \<longrightarrow> at pt t' k j = at pt t1 k j"
      using less.hyps [OF diff_less_mono2 [OF lessI True], of t1] True less.prems(2) t1(2) by auto
    then show ?thesis using step t1(2,3) by auto
  qed
qed

definition someone_ok :: "hmt_t \<Rightarrow> bool" where
  "someone_ok pt \<longleftrightarrow>
     (\<forall>idx < nat (cnt pt). row_ok pt (someone_else_matched_table pt) idx (length (pats pt ! idx)))"

lemma someone_update_view [simp]:
  "hview (pt\<lparr>someone_else_matched_table := t\<rparr>) = hview pt" "pats (pt\<lparr>someone_else_matched_table := t\<rparr>) = pats pt"
  "hmt_wf (pt\<lparr>someone_else_matched_table := t\<rparr>) = hmt_wf pt" "lens_ok (pt\<lparr>someone_else_matched_table := t\<rparr>) = lens_ok pt"
  "row_ok (pt\<lparr>someone_else_matched_table := t\<rparr>) = row_ok pt" "row (pt\<lparr>someone_else_matched_table := t\<rparr>) = row pt"
  by (simp_all add: hview_def pats_def hmt_wf_def lens_ok_def row_def row_ok_def at_def fun_eq_iff)

lemma fill_someone_else_correct:
  assumes "hmt_wf pt" "lens_ok pt" "length (someone_else_matched_table pt) = nat (cnt pt) * row pt" "i \<le> nat (cnt pt)"
    and "\<forall>idx < i. row_ok pt (someone_else_matched_table pt) idx (length (pats pt ! idx))"
  shows "\<exists>t. hmt_fill_someone_else (cnt pt) (int i) pt = Some (pt\<lparr>someone_else_matched_table := t\<rparr>) \<and>
    someone_ok (pt\<lparr>someone_else_matched_table := t\<rparr>)"
  using assms
proof (induction "nat (cnt pt) - i" arbitrary: i pt rule: less_induct)
  case less
  show ?case
  proof (cases "i < nat (cnt pt)")
    case False
    then show ?thesis
      using less.prems by (subst hmt_fill_someone_else.simps) (auto simp: someone_ok_def intro: exI [of _ "someone_else_matched_table pt"])
  next
    case True
    let ?t = "someone_else_matched_table pt"
    obtain t1 where t1: "hmt_someone_i pt (int i) (int (length (pats pt ! i))) (int 0) ?t = Some t1"
      "length t1 = length ?t" "row_ok pt t1 i (length (pats pt ! i))"
      "\<And>k j. k \<noteq> i \<Longrightarrow> j < row pt \<Longrightarrow> at pt t1 k j = at pt ?t k j"
      using someone_i_correct [OF less.prems(1,2) True _ less.prems(3), of 0] by (auto simp: row_ok_def)
    let ?pt = "pt\<lparr>someone_else_matched_table := t1\<rparr>"
    have "cell (patterns_length pt) (int i) = Some (int (length (pats pt ! i)))"
      using less.prems(2) True by (simp add: lens_ok_def)
    then have "hmt_fill_someone_else (cnt pt) (int i) pt = hmt_fill_someone_else (cnt pt) (int (Suc i)) ?pt"
      using True [unfolded zless_nat_eq_int_zless] t1(1) by (subst hmt_fill_someone_else.simps) (simp add: hmt_find_someone_else_matched_def add.commute)
    moreover have "row_ok pt t1 idx (length (pats pt ! idx))" if "idx < Suc i" for idx
    proof (cases "idx = i")
      case False
      then have "row_ok pt ?t idx (length (pats pt ! idx))" using less.prems(5) that by simp
      moreover have "length (pats pt ! idx) < row pt"
        using that True less.prems(1) by (intro pats_short) auto
      ultimately show ?thesis using t1(4) [OF False] unfolding row_ok_def by (metis less_trans)
    qed (use t1(3) in simp)
    ultimately show ?thesis using less.hyps [of ?pt "Suc i"] less.prems True t1(2) by auto
  qed
qed

section \<open>Searching\<close>

text \<open>The specification: the longest pattern that is a prefix of \<open>s\<close>, if there is one.\<close>

definition longest_match :: "hmt_item_t list \<Rightarrow> byte list \<Rightarrow> nat \<times> int option \<Rightarrow> bool" where
  "longest_match its s res \<longleftrightarrow>
     (\<exists>it \<in> set its. prefix (cstr (pattern it)) s \<and>
        (\<forall>jt \<in> set its. prefix (cstr (pattern jt)) s \<longrightarrow> length (cstr (pattern jt)) \<le> length (cstr (pattern it))) \<and>
        res = (userdata it, Some (int (length (cstr (pattern it)))))) \<or>
     ((\<forall>it \<in> set its. \<not> prefix (cstr (pattern it)) s) \<and> res = (0, None))"

lemma longest_match_some:
  assumes "hmt_wf pt" "k < nat (cnt pt)" "prefix (pats pt ! k) s"
    and "\<And>j. j < nat (cnt pt) \<Longrightarrow> prefix (pats pt ! j) s \<Longrightarrow> length (pats pt ! j) \<le> length (pats pt ! k)"
  shows "longest_match (hview pt) s (userdata (hview pt ! k), Some (int (length (pats pt ! k))))"
proof -
  have "hview pt ! k \<in> set (hview pt)" using assms(1,2) by simp
  moreover have "length (cstr (pattern it)) \<le> length (pats pt ! k)" if "it \<in> set (hview pt)" "prefix (cstr (pattern it)) s" for it
    using that assms(1,4) by (metis in_set_conv_nth length_hview pats_nth)
  ultimately show ?thesis using assms(1-3) unfolding longest_match_def by (metis length_hview pats_nth)
qed

lemma longest_match_none:
  assumes "hmt_wf pt" "\<And>j. j < nat (cnt pt) \<Longrightarrow> \<not> prefix (pats pt ! j) s"
  shows "longest_match (hview pt) s (0, None)"
  using assms unfolding longest_match_def by (metis in_set_conv_nth length_hview pats_nth)

lemma item_result:
  "hmt_wf pt \<Longrightarrow> lens_ok pt \<Longrightarrow> k < nat (cnt pt) \<Longrightarrow>
   hmt_item_result pt (int k) = Some (userdata (hview pt ! k), Some (int (length (pats pt ! k))))"
  by (simp add: hmt_item_result_def lens_ok_def cell_items)

text \<open>Two prefixes of one string: the one that comes first in the descending order is not shorter.\<close>

lemma prefixes_desc:
  assumes "hmt_wf pt" "i < j" "j < nat (cnt pt)" "prefix (pats pt ! i) s" "prefix (pats pt ! j) s"
  shows "length (pats pt ! j) < length (pats pt ! i)"
proof (rule ccontr)
  assume "\<not> ?thesis"
  then have "prefix (pats pt ! i) (pats pt ! j)" using assms(4,5) by (meson not_le prefix_length_prefix)
  then have "pats pt ! i = pats pt ! j \<or> lexlt (pats pt ! i) (pats pt ! j)"
    using lexlt_prefix by (metis strict_prefixI)
  then show False using pats_desc [OF assms(1-3)] lexlt_trans lexlt_irrefl by metis
qed

lemma someone_else_longest:
  assumes wf: "hmt_wf pt" and tabs: "lens_ok pt" "someone_ok pt"
    and i: "i < nat (cnt pt)" "d < length (pats pt ! i)" "take d (pats pt ! i) = take d s" "d \<le> length s"
    and none: "\<And>k. k < nat (cnt pt) \<Longrightarrow> prefix (pats pt ! k) s \<Longrightarrow> length (pats pt ! k) \<le> d"
  shows "\<exists>res. hmt_someone_else pt (int i) (int d) = Some res \<and> longest_match (hview pt) s res"
proof -
  let ?P = "pats pt"
  obtain v where v: "at pt (someone_else_matched_table pt) i d = Some v" "first_shorter ?P i d v"
    using tabs(2) i(1,2) by (auto simp: someone_ok_def row_ok_def)
  have cell: "cell (someone_else_matched_table pt) (push_bit (pattern_len_max_shift pt) (int i) + int d) = Some v"
    using v(1) by (simp only: row_index at_def)
  have pre: "prefix (?P ! k) s \<longleftrightarrow> prefix (?P ! k) (?P ! i)" if "length (?P ! k) \<le> d" for k
    using that i by (simp add: prefix_take) (metis min.absorb1 take_take)
  have sh: "shorter ?P i d k \<longleftrightarrow> prefix (?P ! k) s" if "k < nat (cnt pt)" for k
  proof
    show "prefix (?P ! k) s" if "shorter ?P i d k" using that pre by (simp add: shorter_def)
    assume p: "prefix (?P ! k) s"
    then have len: "length (?P ! k) \<le> d" using none \<open>k < nat (cnt pt)\<close> by simp
    then have "strict_prefix (?P ! k) (?P ! i)" using pre p i(2) by (auto simp: strict_prefix_def)
    then have "lexlt (?P ! k) (?P ! i)" by (rule lexlt_prefix)
    then have "i < k" using pats_desc [OF wf _ i(1), of k] lexlt_trans lexlt_irrefl by (metis linorder_neqE_nat)
    then show "shorter ?P i d k" using len p pre that wf by (simp add: shorter_def)
  qed
  show ?thesis
  proof (cases "v = -1")
    case True
    then have "\<not> shorter ?P i d k" for k using v(2) by (auto simp: first_shorter_def)
    then show ?thesis using True cell sh longest_match_none [OF wf] by (auto simp: hmt_someone_else_def)
  next
    case False
    then obtain k where k: "v = int k" "shorter ?P i d k" "\<forall>j < k. \<not> shorter ?P i d j" using v(2) by (auto simp: first_shorter_def)
    then have kn: "k < nat (cnt pt)" using wf by (simp add: shorter_def)
    have "length (?P ! j) \<le> length (?P ! k)" if "j < nat (cnt pt)" "prefix (?P ! j) s" for j
      using that k sh kn prefixes_desc [OF wf, of k j s] by (metis le_less linorder_neqE_nat)
    then show ?thesis
      using cell k(1) item_result [OF wf tabs(1) kn] longest_match_some [OF wf kn] sh [OF kn] k(2)
      by (auto simp: hmt_someone_else_def)
  qed
qed

definition ascii_pats :: "hmt_t \<Rightarrow> bool" where
  "ascii_pats pt \<longleftrightarrow> (\<forall>p \<in> set (pats pt). \<forall>c \<in> set p. unat c < 128)"

lemma sint_ascii: "unat (x :: byte) < 128 \<Longrightarrow> sint x = int (unat x)"
proof -
  assume "unat x < 128"
  then have "uint x < 128" using of_nat_less_iff [of "unat x" 128, where ?'a = int] by simp
  moreover have "- 128 \<le> uint x" using unsigned_greater_eq [of x, where ?'a = int] by linarith
  ultimately show ?thesis using signed_take_bit_int_eq_self [of 7 "uint x"] by (simp add: sint_uint)
qed

lemma pchr_ascii:
  assumes "ascii_pats pt" "i < length (pats pt)"
  shows "unat (pchr (pats pt) i d) < 128"
proof (cases "d < length (pats pt ! i)")
  case True
  then have "pats pt ! i ! d \<in> set (pats pt ! i)" "pats pt ! i \<in> set (pats pt)"
    using assms(2) by (simp_all only: nth_mem)
  then show ?thesis using assms(1) True by (simp add: pchr_def ascii_pats_def)
qed (simp add: pchr_def)

definition schr :: "byte list \<Rightarrow> nat \<Rightarrow> byte" where
  "schr s d = (if d < length s then s ! d else 0)"

lemma prefix_schr: "prefix (P ! k) s \<Longrightarrow> d < length (P ! k) \<Longrightarrow> pchr P k d = schr s d"
  by (auto simp: prefix_def pchr_def schr_def nth_append)

text \<open>One iteration at a position whose pattern continues.\<close>

lemma match_step:
  assumes "hmt_wf pt" "has_nul str" "d \<le> length (cstr str)" "m < nat (cnt pt)" "d < length (pats pt ! m)"
    and "at pt (higher_jump_table pt) m d = Some H" "at pt (lower_jump_table pt) m d = Some L"
    and "at pt (next_level_enter_point_table pt) m d = Some (int n)"
  shows "hmt_match_loop pt str (int m) (int d) =
    (if schr (cstr str) d = pchr (pats pt) m d then hmt_match_loop pt str (int n) (int (Suc d))
     else if sint (pchr (pats pt) m d) < sint (schr (cstr str) d) then
       (if H = -1 then hmt_someone_else pt (int m) (int d) else hmt_match_loop pt str H (int d))
     else (if L = -1 then hmt_someone_else pt (int m) (int d) else hmt_match_loop pt str L (int d)))"
proof -
  have m: "m < length (pats pt)" using assms(1,4) by simp
  have "int d < pattern_len_max pt" using pats_short [OF assms(1) m] row_len_max [OF assms(1)] assms(5) by simp
  moreover have "rdi str (int d) = Some (schr (cstr str) d)"
    using rd_cstr [OF assms(2,3)] by (simp add: rdi_def schr_def)
  moreover have "pat_char pt (int m) (int d) = Some (pchr (pats pt) m d)"
    using assms by (intro pat_char_pchr) auto
  moreover have "pchr (pats pt) m d \<noteq> 0" using pchr_eq_0 [OF m] assms(5) by simp
  moreover have "cell t (push_bit (pattern_len_max_shift pt) (int m) + int d) = at pt t m d" for t
    by (simp only: row_index at_def)
  ultimately show ?thesis
    using assms(6-8) by (subst hmt_match_loop.simps) (simp add: Let_def add.commute [of _ 1])
qed

lemma match_leaf:
  assumes "hmt_wf pt" "lens_ok pt" "has_nul str" "m < nat (cnt pt)" "length (pats pt ! m) = d" "d \<le> length (cstr str)"
  shows "hmt_match_loop pt str (int m) (int d) = Some (userdata (hview pt ! m), Some (int d))"
proof -
  have m: "m < length (pats pt)" using assms(1,4) by simp
  have "int d < pattern_len_max pt" using pats_short [OF assms(1) m] row_len_max [OF assms(1)] assms(5) by simp
  moreover have "rdi str (int d) = Some (schr (cstr str) d)"
    using rd_cstr [OF assms(3,6)] by (simp add: rdi_def schr_def)
  moreover have "pat_char pt (int m) (int d) = Some 0"
    using pat_char_pchr [OF assms(1,4)] pchr_eq_0 [OF m, of d] assms(5) by simp
  ultimately show ?thesis
    using item_result [OF assms(1,2,4)] assms(5) by (subst hmt_match_loop.simps) simp
qed

text \<open>
  What the loop knows at depth \<open>d\<close> in the range \<open>b .. e\<close>: the patterns of the range agree with the
  string so far, and every pattern that matches beyond \<open>d\<close> is in the range.
\<close>

definition in_range :: "hmt_t \<Rightarrow> byte list \<Rightarrow> nat \<Rightarrow> nat \<Rightarrow> nat \<Rightarrow> bool" where
  "in_range pt s d b e \<longleftrightarrow> d \<le> length s \<and>
     (\<forall>i. b \<le> i \<and> i \<le> e \<longrightarrow> d \<le> length (pats pt ! i) \<and> take d (pats pt ! i) = take d s) \<and>
     (\<forall>k < nat (cnt pt). prefix (pats pt ! k) s \<longrightarrow> d < length (pats pt ! k) \<longrightarrow> b \<le> k \<and> k \<le> e)"

lemma in_range_next:
  assumes r: "in_range pt s d b e" and g: "group (pats pt) d b e bs be" and c: "schr s d = pchr (pats pt) bs d"
    and n: "e < length (pats pt)" "d < length (pats pt ! bs)"
  shows "in_range pt s (Suc d) bs be"
proof -
  let ?P = "pats pt"
  have bs: "b \<le> bs" "bs \<le> be" "be \<le> e" "\<And>l. bs \<le> l \<Longrightarrow> l \<le> be \<Longrightarrow> pchr ?P l d = pchr ?P bs d"
    "\<And>l. b \<le> l \<Longrightarrow> l < bs \<Longrightarrow> pchr ?P l d \<noteq> pchr ?P bs d" "\<And>l. be < l \<Longrightarrow> l \<le> e \<Longrightarrow> pchr ?P l d \<noteq> pchr ?P bs d"
    using g unfolding group_def by (blast, blast, blast, blast, metis less_irrefl, metis less_irrefl)
  have nz: "pchr ?P bs d \<noteq> 0" using pchr_eq_0 [of bs pt d] n bs(2,3) by simp
  then have d: "d < length s" "s ! d = pchr ?P bs d" using c by (auto simp: schr_def split: if_splits)
  have "Suc d \<le> length (?P ! i) \<and> take (Suc d) (?P ! i) = take (Suc d) s" if i: "bs \<le> i" "i \<le> be" for i
  proof -
    have "pchr ?P i d = s ! d" using bs(4) [OF i] d by simp
    then have "d < length (?P ! i)" "?P ! i ! d = s ! d" using nz d by (auto simp: pchr_def split: if_splits)
    moreover have "take d (?P ! i) = take d s" using r i bs(1,3) by (simp add: in_range_def)
    ultimately show ?thesis using d by (simp add: take_Suc_conv_app_nth)
  qed
  moreover have "bs \<le> k \<and> k \<le> be" if "k < nat (cnt pt)" "prefix (?P ! k) s" "Suc d < length (?P ! k)" for k
  proof -
    have "b \<le> k" "k \<le> e" using r that by (auto simp: in_range_def)
    moreover have "pchr ?P k d = pchr ?P bs d" using prefix_schr [OF that(2), of d] that(3) c by simp
    ultimately show ?thesis using bs(5,6) by (metis not_le)
  qed
  ultimately show ?thesis using d(1) unfolding in_range_def by auto
qed

text \<open>A pattern that matches beyond \<open>d\<close> lies on the side of the center group that the comparison selects.\<close>

lemma match_side:
  assumes r: "in_range pt s d b e" and g: "group (pats pt) d b e bs be" and a: "ascii_pats pt" "e < length (pats pt)"
    and c: "schr s d \<noteq> pchr (pats pt) bs d"
    and k: "k < nat (cnt pt)" "prefix (pats pt ! k) s" "d < length (pats pt ! k)"
  shows "if sint (pchr (pats pt) bs d) < sint (schr s d) then b \<le> k \<and> k < bs else be < k \<and> k \<le> e"
proof -
  let ?P = "pats pt"
  have bs: "bs \<le> be" "be \<le> e" "\<And>l. bs \<le> l \<Longrightarrow> l \<le> be \<Longrightarrow> pchr ?P l d = pchr ?P bs d"
    "\<And>l. b \<le> l \<Longrightarrow> l < bs \<Longrightarrow> unat (pchr ?P bs d) < unat (pchr ?P l d)"
    "\<And>l. be < l \<Longrightarrow> l \<le> e \<Longrightarrow> unat (pchr ?P l d) < unat (pchr ?P bs d)"
    using g unfolding group_def by blast+
  have kr: "b \<le> k" "k \<le> e" using r k by (auto simp: in_range_def)
  have ck: "schr s d = pchr ?P k d" using prefix_schr [OF k(2,3)] by simp
  have "unat (pchr ?P k d) < 128" "unat (pchr ?P bs d) < 128"
    using a kr bs(1,2) by (auto intro!: pchr_ascii)
  then have cmp: "sint (pchr ?P bs d) < sint (schr s d) \<longleftrightarrow> unat (pchr ?P bs d) < unat (pchr ?P k d)"
    by (simp add: ck sint_ascii uint_less_unat)
  consider "k < bs" | "bs \<le> k" "k \<le> be" | "be < k" by linarith
  then show ?thesis
  proof cases
    case 2
    then show ?thesis using bs(3) ck c by metis
  qed (use bs(4) [OF kr(1)] bs(5) [OF _ kr(2)] cmp kr in auto)
qed

lemma in_range_sub:
  "in_range pt s d b e \<Longrightarrow> b \<le> b' \<Longrightarrow> e' \<le> e \<Longrightarrow>
   (\<And>k. k < nat (cnt pt) \<Longrightarrow> prefix (pats pt ! k) s \<Longrightarrow> d < length (pats pt ! k) \<Longrightarrow> b' \<le> k \<and> k \<le> e') \<Longrightarrow>
   in_range pt s d b' e'"
  unfolding in_range_def by (meson le_trans)

lemma match_loop_longest:
  assumes "jt pt d b e r" and wf: "hmt_wf pt" "lens_ok pt" "someone_ok pt" "ascii_pats pt" and str: "has_nul str"
    and "in_range pt (cstr str) d b e"
  shows "\<exists>res. hmt_match_loop pt str (int r) (int d) = Some res \<and> longest_match (hview pt) (cstr str) res"
  using assms(1,7)
proof (induction rule: jt.induct)
  case (leaf b d)
  let ?s = "cstr str"
  have b: "b < nat (cnt pt)" using leaf.hyps(1) wf(1) by simp
  have d: "d \<le> length ?s" "take d (pats pt ! b) = take d ?s" using leaf.prems by (auto simp: in_range_def)
  then have "prefix (pats pt ! b) ?s" using leaf.hyps(2) by (simp add: prefix_take)
  moreover have "length (pats pt ! j) \<le> length (pats pt ! b)" if "j < nat (cnt pt)" "prefix (pats pt ! j) ?s" for j
    using leaf.prems leaf.hyps(2) that by (cases "d < length (pats pt ! j)") (auto simp: in_range_def)
  ultimately show ?case
    using match_leaf [OF wf(1,2) str b leaf.hyps(2) d(1)] longest_match_some [OF wf(1) b] leaf.hyps(2) by auto
next
  case (node d b e bs be H L n)
  let ?s = "cstr str" and ?P = "pats pt"
  have bs: "b \<le> bs" "bs \<le> be" "be \<le> e" using node.hyps(1) by (simp_all add: group_def)
  have m: "bs < nat (cnt pt)" using bs node.hyps(2) wf(1) by simp
  have d: "d \<le> length ?s" "take d (?P ! bs) = take d ?s" using node.prems bs by (auto simp: in_range_def)
  note step = match_step [OF wf(1) str d(1) m node.hyps(3,5,6,7)]
  note other = someone_else_longest [OF wf(1-3) m node.hyps(3) d(2,1)]
  note side = match_side [OF node.prems node.hyps(1) wf(4) node.hyps(2)]
  consider "schr ?s d = pchr ?P bs d" | "schr ?s d \<noteq> pchr ?P bs d" "sint (pchr ?P bs d) < sint (schr ?s d)"
    | "schr ?s d \<noteq> pchr ?P bs d" "\<not> sint (pchr ?P bs d) < sint (schr ?s d)" by blast
  then show ?case
  proof cases
    case 1
    then show ?thesis using node.IH(3) in_range_next [OF node.prems node.hyps(1) 1 node.hyps(2,3)] step by simp
  next
    case 2
    show ?thesis
    proof (cases "bs = b")
      case True
      then have "length (?P ! k) \<le> d" if "k < nat (cnt pt)" "prefix (?P ! k) ?s" for k
        using side [OF 2(1) that] 2(2) by (cases "d < length (?P ! k)") auto
      then show ?thesis using other step 2 True node.IH(1) by auto
    next
      case False
      then obtain h where h: "H = int h" and
        IH: "in_range pt ?s d b (bs - 1) \<Longrightarrow> \<exists>res. hmt_match_loop pt str (int h) (int d) = Some res \<and> longest_match (hview pt) ?s res"
        using node.IH(1) by auto
      have "in_range pt ?s d b (bs - 1)"
        using side [OF 2(1)] 2(2) bs by (intro in_range_sub [OF node.prems]) (auto, fastforce)
      then show ?thesis using IH step 2 h by simp
    qed
  next
    case 3
    show ?thesis
    proof (cases "be = e")
      case True
      then have "length (?P ! k) \<le> d" if "k < nat (cnt pt)" "prefix (?P ! k) ?s" for k
        using side [OF 3(1) that] 3(2) by (cases "d < length (?P ! k)") auto
      then show ?thesis using other step 3 True node.IH(2) by auto
    next
      case False
      then obtain l where l: "L = int l" and
        IH: "in_range pt ?s d (Suc be) e \<Longrightarrow> \<exists>res. hmt_match_loop pt str (int l) (int d) = Some res \<and> longest_match (hview pt) ?s res"
        using node.IH(2) by auto
      have "in_range pt ?s d (Suc be) e"
        using side [OF 3(1)] 3(2) bs by (intro in_range_sub [OF node.prems]) (auto simp: Suc_le_eq)
      then show ?thesis using IH step 3 l by simp
    qed
  qed
qed

section \<open>Compiling\<close>

definition compiled :: "hmt_t \<Rightarrow> bool" where
  "compiled pt \<longleftrightarrow> hmt_wf pt \<and> lens_ok pt \<and> someone_ok pt \<and>
     (\<exists>r. enter_point pt = int r \<and> jt pt 0 0 (nat (cnt pt) - 1) r)"

lemma frame_tables:
  assumes "frame pt pt' R" "lens_ok pt" "someone_ok pt"
  shows "lens_ok pt'" "someone_ok pt'"
proof -
  have only: "jump_only pt pt'" using assms(1) by (simp add: frame_def)
  note f = jump_onlyD [OF only] jump_only_view [OF only]
  show "lens_ok pt'" using assms(2) f by (simp add: lens_ok_def)
  show "someone_ok pt'" using assms(3) f by (simp add: someone_ok_def row_ok_def at_def)
qed

lemma rng_all: "hmt_wf pt \<Longrightarrow> 0 < cnt pt \<Longrightarrow> rng (pats pt) 0 0 (nat (cnt pt) - 1)"
  by (auto simp: rng_def)

lemma hmt_compile_tables:
  assumes wf: "hmt_wf pt" "0 < cnt pt" and tabs: "lens_ok pt" "someone_ok pt" "jump_size pt (nat (cnt pt))"
  shows "\<exists>e pt'. hmt_fill_jump_tables pt 0 0 (c8 (cnt pt - 1)) = Some (e, pt') \<and>
    compiled (pt'\<lparr>enter_point := e\<rparr>) \<and> hview (pt'\<lparr>enter_point := e\<rparr>) = hview pt"
proof -
  have c: "c8 (cnt pt - 1) = int (nat (cnt pt) - 1)"
    using wf hmt_wf_cnt(2,3) [OF wf(1)] by (subst c8_id) auto
  obtain r pt' where r: "hmt_fill_jump_tables pt (int 0) (int 0) (int (nat (cnt pt) - 1)) = Some (int r, pt')"
    "jt pt' 0 0 (nat (cnt pt) - 1) r" "frame pt pt' (\<lambda>i j. 0 \<le> i \<and> i \<le> nat (cnt pt) - 1 \<and> 0 \<le> j)"
    using fill_jump_tables_correct [OF wf(1) rng_all [OF wf] tabs(3)] unfolding filled_def by blast
  let ?pt = "pt'\<lparr>enter_point := int r\<rparr>"
  have fe: "frame pt' ?pt (\<lambda>i j. False)" by (simp add: frame_def jump_only_def jump_cells_def jump_size_def at_def row_def)
  note fr = frame_trans [OF r(3) fe]
  have "jt ?pt 0 0 (nat (cnt pt) - 1) r" by (rule jt_frame [OF r(2) fe]) simp
  moreover have "hmt_wf ?pt" using frame_wf(1) [OF fr wf(1) tabs(3)] .
  moreover have "hview ?pt = hview pt" "cnt ?pt = cnt pt" using fr jump_only_view(1) jump_onlyD(2) by (simp_all only: frame_def)
  ultimately show ?thesis
    using r(1) c frame_tables [OF fr tabs(1,2)] by (intro exI [of _ "int r"] exI [of _ pt']) (auto simp: compiled_def)
qed

lemma same_items_view:
  assumes "items a = items b" "cnt a = cnt b" "hmax a = hmax b" "pattern_len_max a = pattern_len_max b"
    "pattern_len_max_shift a = pattern_len_max_shift b"
  shows "hview a = hview b" "pats a = pats b" "row a = row b" "hmt_wf a = hmt_wf b"
  unfolding pats_def hview_def row_def hmt_wf_def assms by simp_all

lemma hmt_compile_ok:
  assumes wf: "hmt_wf pt" "0 < cnt pt" and ok: "\<forall>j < 5. malloc_ok j"
  shows "\<exists>pt'. hmt_compile malloc_ok pt = Some (0, pt') \<and> compiled pt' \<and> hview pt' = hview pt"
proof -
  let ?n = "nat (cnt pt)" and ?fresh = "replicate (nat (push_bit (pattern_len_max_shift pt) (cnt pt))) None"
  define p0 where "p0 = (hmt_free_content pt)\<lparr>higher_jump_table := ?fresh, lower_jump_table := ?fresh,
    someone_else_matched_table := ?fresh, next_level_enter_point_table := ?fresh, patterns_length := replicate ?n None\<rparr>"
  have view0: "hview p0 = hview pt" "pats p0 = pats pt" "cnt p0 = cnt pt" "row p0 = row pt" "hmt_wf p0"
    using wf(1) same_items_view [of p0 pt] by (simp_all add: p0_def hmt_free_content_def)
  have "push_bit (pattern_len_max_shift pt) (cnt pt) = int (?n * row pt)"
    using hmt_wf_cnt(3) [OF wf(1)] by (simp add: push_bit_eq_mult row_def)
  then have size: "nat (push_bit (pattern_len_max_shift pt) (cnt pt)) = ?n * row pt" "push_bit (pattern_len_max_shift pt) (cnt pt) \<noteq> 0"
    using wf(2) by (simp only: nat_int, simp add: push_bit_eq_mult)
  obtain t where t: "hmt_fill_lengths p0 (int 0) (patterns_length p0) = Some t" "length t = ?n"
    "\<And>j. j < ?n \<Longrightarrow> t ! j = Some (int (length (pats pt ! j)))"
    using fill_lengths_correct [OF view0(5), of 0 "patterns_length p0"] view0 by (auto simp: p0_def)
  define p1 where "p1 = p0\<lparr>patterns_length := t\<rparr>"
  have view1: "hview p1 = hview pt" "pats p1 = pats pt" "cnt p1 = cnt pt" "row p1 = row pt" "hmt_wf p1"
    using view0 same_items_view [of p1 p0] by (simp_all add: p1_def)
  have lens: "lens_ok p1" using t view1 by (simp add: lens_ok_def p1_def cell_nat)
  obtain u where u: "hmt_fill_someone_else (cnt p1) (int 0) p1 = Some (p1\<lparr>someone_else_matched_table := u\<rparr>)"
    "someone_ok (p1\<lparr>someone_else_matched_table := u\<rparr>)"
    using fill_someone_else_correct [OF view1(5) lens, of 0] size(1) view1 by (auto simp: p1_def p0_def)
  let ?p2 = "p1\<lparr>someone_else_matched_table := u\<rparr>"
  have "jump_size ?p2 (nat (cnt ?p2))"
    using size(1) view1 by (simp add: jump_size_def p1_def p0_def hmt_free_content_def row_def)
  then obtain e p3 where e: "hmt_fill_jump_tables ?p2 0 0 (c8 (cnt ?p2 - 1)) = Some (e, p3)"
    "compiled (p3\<lparr>enter_point := e\<rparr>)" "hview (p3\<lparr>enter_point := e\<rparr>) = hview ?p2"
    using hmt_compile_tables [of ?p2] view1 lens u(2) wf(2) by auto
  have "hmt_compile malloc_ok pt = Some (0, p3\<lparr>enter_point := e\<rparr>)"
    using ok size(2) t(1) u(1) e(1) view1(3)
    by (simp add: hmt_compile_def hmt_free_content_def hmt_fill_patterns_length_table_def
        hmt_fill_someone_else_matched_table_def p0_def p1_def Let_def)
  then show ?thesis using e(2,3) view1(1) by auto
qed

lemma compiled_match:
  assumes "compiled pt" "ascii_pats pt" "has_nul str"
  shows "\<exists>res. hmt_match pt str = Some res \<and> longest_match (hview pt) (cstr str) res"
proof -
  obtain r where r: "enter_point pt = int r" "jt pt 0 0 (nat (cnt pt) - 1) r"
    and wf: "hmt_wf pt" "lens_ok pt" "someone_ok pt" using assms(1) by (auto simp: compiled_def)
  have "in_range pt (cstr str) 0 0 (nat (cnt pt) - 1)" by (auto simp: in_range_def)
  then show ?thesis
    using match_loop_longest [OF r(2) wf assms(2,3)] r(1) by (simp add: hmt_match_def)
qed

section \<open>Adding a list of patterns\<close>

fun hmt_adds :: "hmt_t \<Rightarrow> (byte list \<times> nat) list \<Rightarrow> hmt_t option" where
  "hmt_adds pt [] = Some pt"
| "hmt_adds pt ((p, u) # ps) =
     do { (r, pt') \<leftarrow> hmt_add pt p u; if r = 0 then hmt_adds pt' ps else None }"

definition item_of :: "byte list \<times> nat \<Rightarrow> hmt_item_t" where
  "item_of pu = \<lparr>pattern = fst pu, userdata = snd pu, malloc_item = False\<rparr>"

lemma hmt_adds_ok:
  assumes "hmt_wf pt" "\<forall>(p, u) \<in> set ps. has_nul p \<and> cstr p \<noteq> [] \<and> int (length (cstr p)) < pattern_len_max pt"
    and "distinct (map (\<lambda>(p, u). cstr p) ps)" "\<forall>(p, u) \<in> set ps. cstr p \<notin> set (pats pt)"
    and "cnt pt + int (length ps) \<le> hmax pt"
  shows "\<exists>pt'. hmt_adds pt ps = Some pt' \<and> hmt_wf pt' \<and> set (hview pt') = set (hview pt) \<union> item_of ` set ps \<and>
    cnt pt' = cnt pt + int (length ps)"
  using assms
proof (induction ps arbitrary: pt)
  case (Cons pu ps)
  obtain p u where pu: "pu = (p, u)" by force
  obtain j pt1 where add: "hmt_add pt p u = Some (0, pt1)" "hmt_wf pt1" "hmax pt1 = hmax pt"
    "pattern_len_max pt1 = pattern_len_max pt" "cnt pt1 = cnt pt + 1" "hview pt1 = hmt_insert j (item_of (p, u)) (hview pt)"
    using hmt_add_cases [OF Cons.prems(1), of p u] Cons.prems pu by (auto simp: item_of_def)
  have "set (pats pt1) = insert (cstr p) (set (pats pt))" using add(6) by (auto simp: pats_def item_of_def)
  then have "\<exists>pt'. hmt_adds pt1 ps = Some pt' \<and> hmt_wf pt' \<and> set (hview pt') = set (hview pt1) \<union> item_of ` set ps \<and>
      cnt pt' = cnt pt1 + int (length ps)"
    using Cons.prems pu add by (intro Cons.IH) (fastforce simp: image_iff)+
  then show ?case using add pu by auto
qed simp

section \<open>Properties\<close>

text \<open>
  C21.  Longest match: from a valid, non-empty tree all of whose patterns have 7-bit characters only, \<open>hmt_compile\<close> succeeds
  (allocations permitting) without touching anything out of bounds, and \<open>hmt_match\<close> on any
  NUL-terminated string terminates, uses no uninitialised table cell, and returns the user data and the
  length of the longest pattern that is a prefix of the string, or nothing when there is none.  (With a pattern byte above 127
  the search can miss, lemma \<open>match_misses_signed\<close>.)
\<close>

theorem hmt_match_longest:
  assumes "hmt_wf pt" "0 < cnt pt" "ascii_pats pt" "\<forall>j < 5. malloc_ok j" "has_nul str"
  shows "\<exists>pt' res. hmt_compile malloc_ok pt = Some (0, pt') \<and> hview pt' = hview pt \<and>
    hmt_match pt' str = Some res \<and> longest_match (hview pt) (cstr str) res"
proof -
  obtain pt' where pt': "hmt_compile malloc_ok pt = Some (0, pt')" "compiled pt'" "hview pt' = hview pt"
    using hmt_compile_ok [OF assms(1,2,4)] by blast
  then have "ascii_pats pt'" using assms(3) by (simp add: ascii_pats_def pats_def)
  then show ?thesis using compiled_match [OF pt'(2) _ assms(5)] pt' by auto
qed

lemma hmt_new_ready:
  assumes "0 \<le> mx" "mx < HMT_ITEM_MAX"
  shows "\<exists>pt. hmt_new2 True mx scale = Some pt \<and> hmt_wf pt \<and> hview pt = [] \<and> hmax pt = mx \<and> cnt pt = 0 \<and>
    pattern_len_max pt = fst (hmt_scale_shift scale)"
  using assms hmt_new_wf [of mx scale] by (auto simp: hmt_new2_def)

theorem hmt_match_longest_witness:
  "\<exists>pt pt' res. hmt_adds (the (hmt_new2 True 2 HMT_SCALE_16)) [(bytes ''/'' @ [0], 1), (bytes ''/a/'' @ [0], 2)] = Some pt \<and>
    hmt_compile (\<lambda>_. True) pt = Some (0, pt') \<and> hmt_match pt' (bytes ''/a/b'' @ [0]) = Some res \<and>
    longest_match (hview pt) (bytes ''/a/b'') res"
proof -
  obtain p0 where p0: "hmt_new2 True 2 HMT_SCALE_16 = Some p0" "hmt_wf p0" "hview p0 = []" "hmax p0 = 2" "cnt p0 = 0"
    "pattern_len_max p0 = 16" using hmt_new_ready [of 2 HMT_SCALE_16] by (auto simp: HMT_ITEM_MAX_def hmt_scale_shift_def)
  let ?ps = "[(bytes ''/'' @ [0], 1), (bytes ''/a/'' @ [0], 2)]"
  obtain pt where pt: "hmt_adds p0 ?ps = Some pt" "hmt_wf pt" "set (hview pt) = item_of ` set ?ps" "cnt pt = 2"
    using hmt_adds_ok [OF p0(2), of ?ps] p0 by (auto simp: has_nul_def cstr_def pats_def)
  have "ascii_pats pt" unfolding ascii_pats_def pats_def set_map pt(3) by (simp add: item_of_def cstr_def)
  then show ?thesis
    using hmt_match_longest [OF pt(2), of "\<lambda>_. True" "bytes ''/a/b'' @ [0]"] pt p0(1)
    by (auto simp: has_nul_def cstr_def)
qed

text \<open>
  C20.  From creation to search: a new tree receives any list of distinct, non-empty patterns of 7-bit characters,
  shorter than the limit of its scale and no more than its capacity; all additions succeed, the tree
  compiles when memory is available, and a search for any NUL-terminated subject, of whatever bytes, returns the longest of exactly
  these patterns that is a prefix of it.  (With a pattern byte above 127 the search can miss, lemma \<open>match_misses_signed\<close>.)
\<close>

theorem hmt_end_to_end:
  assumes "ps \<noteq> []" "int (length ps) \<le> mx" "mx < HMT_ITEM_MAX" "distinct (map (\<lambda>(p, u). cstr p) ps)"
    and "\<forall>(p, u) \<in> set ps. has_nul p \<and> cstr p \<noteq> [] \<and> int (length (cstr p)) < fst (hmt_scale_shift scale) \<and>
           (\<forall>c \<in> set (cstr p). unat c < 128)"
    and "has_nul str"
  shows "\<exists>p0 pt pt' res. hmt_new2 True mx scale = Some p0 \<and> hmt_adds p0 ps = Some pt \<and>
    hmt_compile (\<lambda>_. True) pt = Some (0, pt') \<and> hmt_match pt' str = Some res \<and>
    longest_match (map item_of ps) (cstr str) res"
proof -
  obtain p0 where p0: "hmt_new2 True mx scale = Some p0" "hmt_wf p0" "hview p0 = []" "hmax p0 = mx" "cnt p0 = 0"
    "pattern_len_max p0 = fst (hmt_scale_shift scale)" using hmt_new_ready [of mx scale] assms(2,3) by auto
  have "\<forall>(p, u) \<in> set ps. has_nul p \<and> cstr p \<noteq> [] \<and> int (length (cstr p)) < pattern_len_max p0"
    using assms(5) p0(6) by auto
  then obtain pt where pt: "hmt_adds p0 ps = Some pt" "hmt_wf pt" "set (hview pt) = item_of ` set ps" "cnt pt = int (length ps)"
    using hmt_adds_ok [OF p0(2), of ps] p0 assms(2,4) by (auto simp: pats_def)
  have "ascii_pats pt" unfolding ascii_pats_def pats_def set_map pt(3) using assms(5) by (auto simp: item_of_def)
  moreover have "0 < cnt pt" using pt(4) assms(1) by simp
  ultimately obtain pt' where pt': "hmt_compile (\<lambda>_. True) pt = Some (0, pt')" "compiled pt'" "hview pt' = hview pt"
    "ascii_pats pt'" using hmt_compile_ok [OF pt(2), of "\<lambda>_. True"] by (auto simp: ascii_pats_def pats_def)
  obtain res where "hmt_match pt' str = Some res" "longest_match (hview pt) (cstr str) res"
    using compiled_match [OF pt'(2,4) assms(6)] pt'(3) by auto
  moreover have "longest_match (hview pt) (cstr str) res = longest_match (map item_of ps) (cstr str) res"
    unfolding longest_match_def pt(3) by simp
  ultimately show ?thesis using p0(1) pt(1) pt'(1) by blast
qed

theorem hmt_end_to_end_witness:
  "\<exists>p0 pt pt' res. hmt_new2 True 5 HMT_SCALE_32 = Some p0 \<and>
    hmt_adds p0 [(bytes ''/'' @ [0], 1), (bytes ''/img/'' @ [0], 2)] = Some pt \<and>
    hmt_compile (\<lambda>_. True) pt = Some (0, pt') \<and> hmt_match pt' (bytes ''/img/x'' @ [0]) = Some res \<and>
    longest_match (map item_of [(bytes ''/'' @ [0], 1), (bytes ''/img/'' @ [0], 2)]) (bytes ''/img/x'') res"
  using hmt_end_to_end [of "[(bytes ''/'' @ [0], 1), (bytes ''/img/'' @ [0], 2)]" 5 HMT_SCALE_32 "bytes ''/img/x'' @ [0]"]
  by (simp add: has_nul_def cstr_def hmt_scale_shift_def HMT_ITEM_MAX_def)

section \<open>Limits of the code\<close>

text \<open>
  Patterns are sorted with \<open>strncmp\<close>, which compares unsigned characters, but the search compares signed
  ones: with a pattern that starts with a byte above 127 in the tree, the pattern \<^verbatim>\<open>a\<close> is not found.
\<close>

definition signed_tree :: hmt_t where
  "signed_tree =
     \<lparr>hmax = 2, cnt = 2, enter_point = -1, higher_jump_table = [], lower_jump_table = [],
      someone_else_matched_table = [], next_level_enter_point_table = [], patterns_length = [],
      pattern_len_max = 16, pattern_len_max_shift = 4,
      items = [Some \<lparr>pattern = [0xE9, 0], userdata = 1, malloc_item = False\<rparr>,
               Some \<lparr>pattern = [0x61, 0], userdata = 2, malloc_item = False\<rparr>]\<rparr>"

lemma signed_tree_wf: "hmt_wf signed_tree"
  by (simp add: hmt_wf_def signed_tree_def HMT_ITEM_MAX_def hview_def pats_def pat_ok_def has_nul_def cstr_def)

lemma match_misses_signed:
  "(do { (r, pt) \<leftarrow> hmt_compile (\<lambda>_. True) signed_tree; hmt_match pt [0x61, 0] }) = Some (0, None)"
  by (simp add: signed_tree_def hmt_compile_def hmt_free_content_def push_bit_eq_mult Let_def
      hmt_fill_patterns_length_table_def hmt_fill_lengths.simps cell_def rdi_def wri_def rd_def wr_def
      strnlen_cstr has_nul_def cstr_def nth_list_update hmt_fill_someone_else_matched_table_def
      hmt_fill_someone_else.simps hmt_find_someone_else_matched_def hmt_someone_i.simps hmt_someone_k.simps
      c8_def memcmp_ne_def hmt_fill_jump_tables.simps hmt_find_center_group_border_def pat_char_def
      center_down.simps center_up.simps)
    (simp add: hmt_match_def hmt_match_loop.simps cell_def rdi_def rd_def pat_char_def hmt_someone_else_def
      nth_list_update push_bit_eq_mult)

end
