(* ===== verification/Esq_LinkList.thy ===== *)
theory Esq_LinkList
  imports Esq_Prelude
begin

text \<open>
  The link-list macros of \<^verbatim>\<open>public/esqll.h\<close> on an explicit heap.

  A macro receives the names of the link fields; here it receives them as \<open>field\<close> values, a getter
  and a setter.  The head and the tail of a list are a pair of nullable addresses.  Every access
  through a pointer is checked: an address that is not allocated gives \<open>Fault\<close>.  The library locale
  \<open>link_fields\<close> states what distinct struct fields satisfy and proves, once, that the macros implement
  the corresponding operations on lists of addresses; the session model interprets it on its
  own fields.
\<close>

section \<open>Results of code that may stop\<close>

text \<open>
  \<open>Exit\<close> is a call of \<^verbatim>\<open>exit\<close> (\<^verbatim>\<open>esq_design_error\<close>, \<^verbatim>\<open>INVALID_ACTION_TYPE\<close>), \<open>Fault\<close> an access through a
  null or dangling pointer or a signed overflow, \<open>Fuel\<close> the end of the fuel of a model loop.
\<close>

datatype stop = Exit | Fault | Fuel

type_synonym 'a res = "stop + 'a"

definition bindE :: "'a res \<Rightarrow> ('a \<Rightarrow> 'b res) \<Rightarrow> 'b res" where
  "bindE x f = (case x of Inl e \<Rightarrow> Inl e | Inr y \<Rightarrow> f y)"

lemma bindE_simps [simp]: "bindE (Inr y) f = f y" "bindE (Inl e) f = Inl e"
  by (simp_all add: bindE_def)

lemma bindE_InrD: "bindE x f = Inr z \<Longrightarrow> \<exists>y. x = Inr y \<and> f y = Inr z"
  by (cases x) auto

primrec run :: "('w \<Rightarrow> 'w res) list \<Rightarrow> 'w \<Rightarrow> 'w res" where
  "run [] w = Inr w"
| "run (f # fs) w = bindE (f w) (run fs)"

definition of_opt :: "'a option \<Rightarrow> 'a res" where
  "of_opt x = (case x of None \<Rightarrow> Inl Fault | Some y \<Rightarrow> Inr y)"

lemma of_opt_simps [simp]: "of_opt None = Inl Fault" "of_opt (Some y) = Inr y"
  by (simp_all add: of_opt_def)

section \<open>Fields and heaps\<close>

type_synonym addr = nat

type_synonym ('a, 'n) heap = "'a \<Rightarrow> 'n option"

record ('a, 'n) field =
  get :: "'n \<Rightarrow> 'a option"
  put :: "'a option \<Rightarrow> 'n \<Rightarrow> 'n"

record 'a ll =
  head :: "'a option"
  tail :: "'a option"

definition ll_empty :: "'a ll" where "ll_empty = \<lparr>head = None, tail = None\<rparr>"

definition load :: "('a, 'n) field \<Rightarrow> 'a \<Rightarrow> ('a, 'n) heap \<Rightarrow> 'a option res" where
  "load f a h = (case h a of None \<Rightarrow> Inl Fault | Some n \<Rightarrow> Inr (get f n))"

definition store :: "('a, 'n) field \<Rightarrow> 'a \<Rightarrow> 'a option \<Rightarrow> ('a, 'n) heap \<Rightarrow> ('a, 'n) heap res" where
  "store f a v h = (case h a of None \<Rightarrow> Inl Fault | Some n \<Rightarrow> Inr (h(a \<mapsto> put f v n)))"

section \<open>The macros\<close>

definition DOUBLE_LL_JOIN_HEAD ::
  "('a, 'n) field \<Rightarrow> ('a, 'n) field \<Rightarrow> 'a \<Rightarrow> 'a ll \<Rightarrow> ('a, 'n) heap \<Rightarrow> ('a ll \<times> ('a, 'n) heap) res" where
  "DOUBLE_LL_JOIN_HEAD prev_f next_f node l h =
     bindE (store prev_f node None h) (\<lambda>h.
     case head l of
       Some hd0 \<Rightarrow>
         bindE (store next_f node (Some hd0) h) (\<lambda>h.
         bindE (store prev_f hd0 (Some node) h) (\<lambda>h.
         Inr (l\<lparr>head := Some node\<rparr>, h)))
     | None \<Rightarrow>
         bindE (store next_f node None h) (\<lambda>h.
         Inr (l\<lparr>head := Some node, tail := Some node\<rparr>, h)))"

definition DOUBLE_LL_JOIN_TAIL ::
  "('a, 'n) field \<Rightarrow> ('a, 'n) field \<Rightarrow> 'a \<Rightarrow> 'a ll \<Rightarrow> ('a, 'n) heap \<Rightarrow> ('a ll \<times> ('a, 'n) heap) res" where
  "DOUBLE_LL_JOIN_TAIL prev_f next_f node l h =
     bindE (store next_f node None h) (\<lambda>h.
     case tail l of
       Some tl0 \<Rightarrow>
         bindE (store prev_f node (Some tl0) h) (\<lambda>h.
         bindE (store next_f tl0 (Some node) h) (\<lambda>h.
         Inr (l\<lparr>tail := Some node\<rparr>, h)))
     | None \<Rightarrow>
         bindE (store prev_f node None h) (\<lambda>h.
         Inr (l\<lparr>head := Some node, tail := Some node\<rparr>, h)))"

definition DOUBLE_LL_LEFT ::
  "('a, 'n) field \<Rightarrow> ('a, 'n) field \<Rightarrow> 'a \<Rightarrow> 'a ll \<Rightarrow> ('a, 'n) heap \<Rightarrow> ('a ll \<times> ('a, 'n) heap) res" where
  "DOUBLE_LL_LEFT prev_f next_f node l h =
     bindE (load prev_f node h) (\<lambda>p.
     bindE (load next_f node h) (\<lambda>n.
     case p of
       Some p0 \<Rightarrow>
         (case n of
            Some n0 \<Rightarrow>
              bindE (store next_f p0 (Some n0) h) (\<lambda>h.
              bindE (store prev_f n0 (Some p0) h) (\<lambda>h.
              Inr (l, h)))
          | None \<Rightarrow>
              bindE (store next_f p0 None h) (\<lambda>h.
              Inr (l\<lparr>tail := Some p0\<rparr>, h)))
     | None \<Rightarrow>
         (case n of
            Some n0 \<Rightarrow>
              bindE (store prev_f n0 None h) (\<lambda>h.
              Inr (l\<lparr>head := Some n0\<rparr>, h))
          | None \<Rightarrow> Inr (l\<lparr>head := None, tail := None\<rparr>, h))))"

definition SINGLE_LL_JOIN_HEAD ::
  "('a, 'n) field \<Rightarrow> 'a \<Rightarrow> 'a ll \<Rightarrow> ('a, 'n) heap \<Rightarrow> ('a ll \<times> ('a, 'n) heap) res" where
  "SINGLE_LL_JOIN_HEAD next_f node l h =
     (case head l of
        Some hd0 \<Rightarrow> bindE (store next_f node (Some hd0) h) (\<lambda>h. Inr (l\<lparr>head := Some node\<rparr>, h))
      | None \<Rightarrow> bindE (store next_f node None h) (\<lambda>h. Inr (l\<lparr>head := Some node, tail := Some node\<rparr>, h)))"

definition SINGLE_LL_JOIN_TAIL ::
  "('a, 'n) field \<Rightarrow> 'a \<Rightarrow> 'a ll \<Rightarrow> ('a, 'n) heap \<Rightarrow> ('a ll \<times> ('a, 'n) heap) res" where
  "SINGLE_LL_JOIN_TAIL next_f node l h =
     (case tail l of
        Some tl0 \<Rightarrow>
          bindE (store next_f tl0 (Some node) h) (\<lambda>h.
          bindE (store next_f node None h) (\<lambda>h.
          Inr (l\<lparr>tail := Some node\<rparr>, h)))
      | None \<Rightarrow>
          bindE (store next_f node None h) (\<lambda>h.
          Inr (l\<lparr>head := Some node, tail := Some node\<rparr>, h)))"

section \<open>Lists of addresses in the heap\<close>

definition first :: "'a list \<Rightarrow> 'a option \<Rightarrow> 'a option" where
  "first xs q = (case xs of [] \<Rightarrow> q | x # _ \<Rightarrow> Some x)"

definition final :: "'a list \<Rightarrow> 'a option \<Rightarrow> 'a option" where
  "final xs p = (if xs = [] then p else Some (last xs))"

lemma first_simps [simp]: "first [] q = q" "first (x # xs) q = Some x" "first (xs @ ys) q = first xs (first ys q)"
  by (auto simp: first_def split: list.splits)

lemma final_simps [simp]: "final [] p = p" "final (xs @ [x]) p = Some x" "final [x] p = Some x"
  "final (x # xs) p = final xs (Some x)" "final (xs @ ys) p = final ys (final xs p)"
  by (auto simp: final_def)

fun links :: "('a, 'n) field \<Rightarrow> ('a, 'n) field \<Rightarrow> ('a, 'n) heap \<Rightarrow> 'a option \<Rightarrow> 'a list \<Rightarrow> 'a option \<Rightarrow> bool" where
  "links pf nf h p [] q \<longleftrightarrow> True"
| "links pf nf h p (x # xs) q \<longleftrightarrow>
     (\<exists>n. h x = Some n \<and> get pf n = p \<and> get nf n = first xs q) \<and> links pf nf h (Some x) xs q"

fun chain :: "('a, 'n) field \<Rightarrow> ('a, 'n) heap \<Rightarrow> 'a list \<Rightarrow> 'a option \<Rightarrow> bool" where
  "chain nf h [] q \<longleftrightarrow> True"
| "chain nf h (x # xs) q \<longleftrightarrow> (\<exists>n. h x = Some n \<and> get nf n = first xs q) \<and> chain nf h xs q"

definition ends :: "'a ll \<Rightarrow> 'a list \<Rightarrow> bool" where
  "ends l xs \<longleftrightarrow> head l = first xs None \<and> tail l = final xs None"

definition dll :: "('a, 'n) field \<Rightarrow> ('a, 'n) field \<Rightarrow> ('a, 'n) heap \<Rightarrow> 'a ll \<Rightarrow> 'a list \<Rightarrow> bool" where
  "dll pf nf h l xs \<longleftrightarrow> distinct xs \<and> ends l xs \<and> links pf nf h None xs None"

definition sll :: "('a, 'n) field \<Rightarrow> ('a, 'n) heap \<Rightarrow> 'a ll \<Rightarrow> 'a list \<Rightarrow> bool" where
  "sll nf h l xs \<longleftrightarrow> distinct xs \<and> ends l xs \<and> chain nf h xs None"

lemma links_append [simp]:
  "links pf nf h p (xs @ ys) q \<longleftrightarrow> links pf nf h p xs (first ys q) \<and> links pf nf h (final xs p) ys q"
  by (induction xs arbitrary: p) auto

lemma chain_append [simp]: "chain nf h (xs @ ys) q \<longleftrightarrow> chain nf h xs (first ys q) \<and> chain nf h ys q"
  by (induction xs) auto

lemma links_frame: "\<forall>x \<in> set xs. h' x = h x \<Longrightarrow> links pf nf h' p xs q = links pf nf h p xs q"
  by (induction xs arbitrary: p) auto

lemma chain_frame: "\<forall>x \<in> set xs. h' x = h x \<Longrightarrow> chain nf h' xs q = chain nf h xs q"
  by (induction xs) auto

lemma links_upd [simp]: "a \<notin> set xs \<Longrightarrow> links pf nf (h(a := v)) p xs q = links pf nf h p xs q"
  by (rule links_frame) auto

lemma chain_upd [simp]: "a \<notin> set xs \<Longrightarrow> chain nf (h(a := v)) xs q = chain nf h xs q"
  by (rule chain_frame) auto

lemma links_alloc: "links pf nf h p xs q \<Longrightarrow> x \<in> set xs \<Longrightarrow> h x \<noteq> None"
  by (induction xs arbitrary: p) auto

lemma chain_alloc: "chain nf h xs q \<Longrightarrow> x \<in> set xs \<Longrightarrow> h x \<noteq> None"
  by (induction xs) auto

lemma dll_frame: "\<forall>x \<in> set xs. h' x = h x \<Longrightarrow> dll pf nf h' l xs = dll pf nf h l xs"
  unfolding dll_def using links_frame by metis

lemma dll_same_links:
  assumes "\<And>x. map_option (\<lambda>n. (get pf n, get nf n)) (h' x) = map_option (\<lambda>n. (get pf n, get nf n)) (h x)"
  shows "dll pf nf h' l xs = dll pf nf h l xs"
proof -
  have "(\<exists>n. h' x = Some n \<and> get pf n = p \<and> get nf n = q) = (\<exists>n. h x = Some n \<and> get pf n = p \<and> get nf n = q)" for x p q
    using assms [of x] by (cases "h' x"; cases "h x") auto
  then have "links pf nf h' p xs q = links pf nf h p xs q" for p q by (induction xs arbitrary: p) auto
  then show ?thesis by (simp add: dll_def)
qed

lemma sll_frame: "\<forall>x \<in> set xs. h' x = h x \<Longrightarrow> sll nf h' l xs = sll nf h l xs"
  unfolding sll_def using chain_frame by metis

lemma dll_alloc: "dll pf nf h l xs \<Longrightarrow> x \<in> set xs \<Longrightarrow> h x \<noteq> None"
  unfolding dll_def using links_alloc by metis

lemma sll_alloc: "sll nf h l xs \<Longrightarrow> x \<in> set xs \<Longrightarrow> h x \<noteq> None"
  unfolding sll_def using chain_alloc by metis

lemma dll_empty: "dll pf nf h ll_empty []" and sll_empty: "sll nf h ll_empty []"
  by (simp_all add: dll_def sll_def ends_def ll_empty_def)

lemma snoc_cases: obtains "xs = []" | ys y where "xs = ys @ [y]"
  by (cases xs rule: rev_cases) auto

section \<open>The macros implement list operations\<close>

definition same_data :: "('n \<Rightarrow> 'd) \<Rightarrow> ('a, 'n) heap \<Rightarrow> ('a, 'n) heap \<Rightarrow> bool" where
  "same_data data h h' \<longleftrightarrow> (\<forall>a. map_option data (h' a) = map_option data (h a))"

definition touches :: "('n \<Rightarrow> 'd) \<Rightarrow> 'a set \<Rightarrow> ('a, 'n) heap \<Rightarrow> ('a, 'n) heap \<Rightarrow> bool" where
  "touches data A h h' \<longleftrightarrow> same_data data h h' \<and> (\<forall>b. b \<notin> A \<longrightarrow> h' b = h b)"

lemma same_dataD: "same_data data h h' \<Longrightarrow> h a = Some n \<Longrightarrow> \<exists>n'. h' a = Some n' \<and> data n' = data n"
  unfolding same_data_def by (auto dest!: spec [of _ a])

lemma same_data_refl: "same_data data h h"
  by (simp add: same_data_def)

lemma same_data_trans: "same_data data h h' \<Longrightarrow> same_data data h' h'' \<Longrightarrow> same_data data h h''"
  by (simp add: same_data_def)

lemma same_data_None: "same_data data h h' \<Longrightarrow> h' a = None \<longleftrightarrow> h a = None"
  unfolding same_data_def by (metis option.map_disc_iff)

text \<open>
  What the code relies on of two link fields of a struct: they are independent of each other and of
  the \<open>data\<close> of the node, everything else it holds.
\<close>

locale link_fields =
  fixes pf nf :: "('a, 'n) field" and data :: "'n \<Rightarrow> 'd"
  assumes get_put: "get pf (put pf v n) = v" "get nf (put nf v n) = v"
    and indep: "get pf (put nf v n) = get pf n" "get nf (put pf v n) = get nf n"
    and data_put: "data (put pf v n) = data n" "data (put nf v n) = data n"
begin

lemmas laws = get_put indep data_put

lemma join_head:
  assumes "dll pf nf h l xs" "node \<notin> set xs" "h node \<noteq> None"
  shows "\<exists>l' h'. DOUBLE_LL_JOIN_HEAD pf nf node l h = Inr (l', h') \<and> dll pf nf h' l' (node # xs) \<and>
    touches data (insert node (set xs)) h h'"
  using assms
  by (cases xs)
    (auto simp: DOUBLE_LL_JOIN_HEAD_def dll_def ends_def store_def laws touches_def same_data_def)

lemma join_tail:
  assumes "dll pf nf h l xs" "node \<notin> set xs" "h node \<noteq> None"
  shows "\<exists>l' h'. DOUBLE_LL_JOIN_TAIL pf nf node l h = Inr (l', h') \<and> dll pf nf h' l' (xs @ [node]) \<and>
    touches data (insert node (set xs)) h h'"
  using assms
  by (cases xs rule: rev_cases)
    (auto simp: DOUBLE_LL_JOIN_TAIL_def dll_def ends_def store_def laws touches_def same_data_def)

lemma left_split:
  assumes "dll pf nf h l (us @ node # vs)"
  shows "\<exists>l' h'. DOUBLE_LL_LEFT pf nf node l h = Inr (l', h') \<and> dll pf nf h' l' (us @ vs) \<and>
    touches data (set us \<union> set vs) h h'"
  using assms
  by (cases us rule: rev_cases; cases vs)
    (auto simp: DOUBLE_LL_LEFT_def dll_def ends_def load_def store_def laws touches_def same_data_def)

lemma left:
  assumes "dll pf nf h l xs" "node \<in> set xs"
  shows "\<exists>l' h'. DOUBLE_LL_LEFT pf nf node l h = Inr (l', h') \<and> dll pf nf h' l' (removeAll node xs) \<and>
    touches data (set xs) h h'"
proof -
  obtain us vs where xs: "xs = us @ node # vs" using assms(2) split_list by metis
  then have "removeAll node xs = us @ vs" using assms(1) by (auto simp: dll_def)
  then show ?thesis using left_split [of h l us node vs] assms(1) xs by (auto simp: touches_def)
qed

end

end
