(* ===== verification/Esq_Session.thy ===== *)
theory Esq_Session
  imports Esq_LinkList
begin

text \<open>
  The data model of the session engine (\<^verbatim>\<open>session/internal.h\<close>, \<^verbatim>\<open>session/core_ctx.h\<close>) and the operations
  its state machines are made of: the lists of a worker (\<^verbatim>\<open>timing.c\<close>, \<^verbatim>\<open>worker.c\<close>), the requests to the
  kernel (\<^verbatim>\<open>os_events.c\<close>) and the plain accessors (\<^verbatim>\<open>session.c\<close>).

  The state is what one worker thread sees: the heap of sessions, the lists of its context, the shared
  list of new sessions, the hash locks, and the requests it has submitted to io_uring, in order.
  \<open>env\<close> holds what a call obtains from outside: the time, the result of \<^verbatim>\<open>malloc\<close>, and the answer
  of the coroutine library to \<^verbatim>\<open>mco_is_end\<close>; \<open>loop_fuel\<close> bounds the loops that follow pointers, and theorems
  ask for no more of it than the length of the list followed; \<open>junk\<close> is what the stack holds where an
  action is declared without being initialised.  The debugging fields \<^verbatim>\<open>name\<close> and \<^verbatim>\<open>state\<close> are left out.
\<close>

section \<open>Constants\<close>

definition ESQ_EVENT_BIT_FD_CLOSE :: u32 where "ESQ_EVENT_BIT_FD_CLOSE = 0x01"
definition ESQ_EVENT_BIT_ERROR :: u32 where "ESQ_EVENT_BIT_ERROR = 0x02"
definition ESQ_EVENT_BIT_TIMEOUT :: u32 where "ESQ_EVENT_BIT_TIMEOUT = 0x04"
definition ESQ_EVENT_BIT_READ :: u32 where "ESQ_EVENT_BIT_READ = 0x08"
definition ESQ_EVENT_BIT_WRITE :: u32 where "ESQ_EVENT_BIT_WRITE = 0x10"
definition ESQ_EVENT_BIT_LOCK_OBTAIN :: u32 where "ESQ_EVENT_BIT_LOCK_OBTAIN = 0x20"
definition ESQ_EVENT_BIT_TASK_DONE :: u32 where "ESQ_EVENT_BIT_TASK_DONE = 0x40"
definition ESQ_EVENT_BIT_EXIT :: u32 where "ESQ_EVENT_BIT_EXIT = 0x80"

lemmas event_bit_defs = ESQ_EVENT_BIT_FD_CLOSE_def ESQ_EVENT_BIT_ERROR_def ESQ_EVENT_BIT_TIMEOUT_def
  ESQ_EVENT_BIT_READ_def ESQ_EVENT_BIT_WRITE_def ESQ_EVENT_BIT_LOCK_OBTAIN_def
  ESQ_EVENT_BIT_TASK_DONE_def ESQ_EVENT_BIT_EXIT_def

definition ESQ_SESSION_MAGIC :: int where "ESQ_SESSION_MAGIC = 0x1a1a8e8e"

definition ESQ_SESSION_TYPE_NEW :: byte where "ESQ_SESSION_TYPE_NEW = 0"
definition ESQ_SESSION_TYPE_SOCKET_CB :: byte where "ESQ_SESSION_TYPE_SOCKET_CB = 1"
definition ESQ_SESSION_TYPE_MULTI_SOCKET_CB :: byte where "ESQ_SESSION_TYPE_MULTI_SOCKET_CB = 2"
definition ESQ_SESSION_TYPE_MCO :: byte where "ESQ_SESSION_TYPE_MCO = 3"
definition ESQ_SESSION_TYPE_NO_FD :: byte where "ESQ_SESSION_TYPE_NO_FD = 4"
definition ESQ_SESSION_TYPE_WAIT_FOR_HASH_LOCK :: byte where "ESQ_SESSION_TYPE_WAIT_FOR_HASH_LOCK = 5"

lemmas session_type_defs = ESQ_SESSION_TYPE_NEW_def ESQ_SESSION_TYPE_SOCKET_CB_def
  ESQ_SESSION_TYPE_MULTI_SOCKET_CB_def ESQ_SESSION_TYPE_MCO_def ESQ_SESSION_TYPE_NO_FD_def
  ESQ_SESSION_TYPE_WAIT_FOR_HASH_LOCK_def

definition POP_NO_OP :: byte where "POP_NO_OP = 0"
definition POP_FREE_SESSION :: byte where "POP_FREE_SESSION = 0x01"
definition POP_SWITCH_SESSION_TYPE :: byte where "POP_SWITCH_SESSION_TYPE = 0x02"
definition POP_RETURN_VALUE :: byte where "POP_RETURN_VALUE = 0x04"
definition POP_JOIN_GLOBAL_NEW_LIST :: byte where "POP_JOIN_GLOBAL_NEW_LIST = 0x08"
definition POP_JOIN_LOCAL_NEW_LIST :: byte where "POP_JOIN_LOCAL_NEW_LIST = 0x10"

lemmas pop_defs = POP_NO_OP_def POP_FREE_SESSION_def POP_SWITCH_SESSION_TYPE_def POP_RETURN_VALUE_def
  POP_JOIN_GLOBAL_NEW_LIST_def POP_JOIN_LOCAL_NEW_LIST_def

definition ESQ_SESSION_HASH_LOCK_READ :: int where "ESQ_SESSION_HASH_LOCK_READ = 0"
definition ESQ_SESSION_HASH_LOCK_WRITE :: int where "ESQ_SESSION_HASH_LOCK_WRITE = 1"
definition ESQ_SESSION_HASH_LOCK_OWNER_MAX :: nat where "ESQ_SESSION_HASH_LOCK_OWNER_MAX = 3"

section \<open>Types\<close>

datatype esq_session_action_type_e =
    ACTION_NO | ACTION_WIND_UP | ACTION_WIND_UP_RR | ACTION_PICK_UP | ACTION_SET_PARENT
  | ACTION_ADD_CHILD | ACTION_ADD_SOCK_FD_MULTI | ACTION_ADD_SOCK_FD_SINGLE | ACTION_MCO_SERVICE_FINISH
  | ACTION_REMOVE_FD | ACTION_NOTIFY_EVENT | ACTION_NOTIFY_AIO_REMOVED | ACTION_NOTIFY_TIMEOUT
  | ACTION_NOTIFY_EXIT | ACTION_EXECUTE_CB | ACTION_HASH_LOCK_READ | ACTION_HASH_LOCK_WRITE

text \<open>
  A saved \<^verbatim>\<open>__LINE__\<close> is the label it follows: the resume points of the state machines.  \<open>PT_START\<close> is
  the value 0, from which a machine starts.
\<close>

datatype pt_label =
    PT_START | PT_initial | PT_wait_for_cpu | PT_winded_up | PT_wait_for_removed_then_active | PT_active
  | PT_execute_cb | PT_wait_for_reinstall | PT_wait_for_removed_and_wind_up | PT_wait_for_removed
  | PT_wait_for_wind_up | PT_execute_cb_installed_socket_fd | PT_die

record esq_session_pt_action_t =
  a_type :: esq_session_action_type_e
  a_fd :: int
  a_exp_event_bits :: u32
  a_notify_event_bits :: u32
  a_timeouts :: int
  a_timeoutms :: int
  a_cb :: "nat option"
  a_user_param :: "nat option"
  a_hash_lock_idx :: int

text \<open>A hash lock context lies in the array inside its session, or is allocated on its own.\<close>

datatype ctx_ref = Embedded addr nat | Malloced nat

record esq_hash_lock_ctx_t =
  c_state :: int
  c_idx :: int
  c_session :: "addr option"
  c_next :: "ctx_ref option"
  c_next_in_esq_session :: "ctx_ref option"
  c_next_in_local_wake_up_list :: "ctx_ref option"
  c_worker_ctx :: nat

record esq_session_t =
  magic0 :: int
  session_type :: byte
  post_op :: byte
  hash_lock_state :: int
  hash_lock_idx :: int
  hash_lock_ctx_list :: "ctx_ref option"
  have_parent_session :: bool
  exp_event_bits :: "16 word"
  event_bits :: "16 word"
  event_bits2 :: "16 word"
  timeouts :: int
  timeoutms :: int
  fd :: int
  lc :: pt_label
  wind_up_s :: int
  wind_up_ms :: int
  magic1 :: int
  retval :: int
  cb :: "nat option"
  user_param :: "nat option"
  mco :: "nat option"
  nxt :: "addr option"
  prv :: "addr option"
  parent_session :: "addr option"
  next_child :: "addr option"
  child_session_list :: "addr option"
  finished_child_session_list :: "addr option"
  session_done_cb :: "nat option"

text \<open>
  The lists of a worker context, by the name of their head and tail fields, and the shared list of
  new sessions (\<open>L_global\<close>, \<^verbatim>\<open>esq_global_new_head\<close> and \<^verbatim>\<open>esq_global_new_tail\<close>).
\<close>

datatype list_id = L_global | L_new | L_active | L_0ms_to_100ms | L_100ms_to_1s | L_1s_to_10s
  | L_longer_than_10s | L_no_time

datatype sqe = Poll_add int u32 addr | Poll_multishot int u32 addr | Poll_remove addr

record world =
  heap :: "(addr, esq_session_t) heap"
  lists :: "list_id \<Rightarrow> addr ll"
  esq_os_event_wait_max :: int
  esq_worker_stop_session_flag :: bool
  io_uring :: "sqe list"
  esq_server_stop_flag :: bool
  self :: nat
  ctxs :: "(ctx_ref, esq_hash_lock_ctx_t) heap"
  locks :: "nat \<Rightarrow> ctx_ref ll"
  wake_up :: "nat \<Rightarrow> ctx_ref ll"
  done_calls :: "(nat \<times> addr) list"

record env =
  gettimeofday :: "(int \<times> int) option"
  malloc_session :: "addr option"
  malloc_ctx :: "nat option"
  mco_is_end :: "nat \<Rightarrow> bool"
  loop_fuel :: nat
  junk :: esq_session_pt_action_t

section \<open>Access to a session\<close>

definition sess :: "addr \<Rightarrow> world \<Rightarrow> esq_session_t res" where
  "sess a w = of_opt (heap w a)"

definition upd :: "(esq_session_t \<Rightarrow> esq_session_t) \<Rightarrow> addr \<Rightarrow> world \<Rightarrow> world res" where
  "upd f a w = bindE (sess a w) (\<lambda>s. Inr (w\<lparr>heap := (heap w)(a \<mapsto> f s)\<rparr>))"

definition or_event_bits :: "u32 \<Rightarrow> esq_session_t \<Rightarrow> esq_session_t" where
  "or_event_bits b s = s\<lparr>event_bits := event_bits s OR ucast b\<rparr>"

definition or_event_bits2 :: "u32 \<Rightarrow> esq_session_t \<Rightarrow> esq_session_t" where
  "or_event_bits2 b s = s\<lparr>event_bits2 := event_bits2 s OR ucast b\<rparr>"

definition ESQ_CHECK_SESSION :: "esq_session_t \<Rightarrow> bool" where
  "ESQ_CHECK_SESSION s \<longleftrightarrow> magic0 s = ESQ_SESSION_MAGIC \<and> magic1 s = ESQ_SESSION_MAGIC"

section \<open>Creation and accessors\<close>

definition session_zero :: esq_session_t where
  "session_zero = \<lparr>magic0 = 0, session_type = 0, post_op = 0, hash_lock_state = 0, hash_lock_idx = 0,
     hash_lock_ctx_list = None, have_parent_session = False, exp_event_bits = 0, event_bits = 0,
     event_bits2 = 0, timeouts = 0, timeoutms = 0, fd = 0, lc = PT_START, wind_up_s = 0, wind_up_ms = 0,
     magic1 = 0, retval = 0, cb = None, user_param = None, mco = None, nxt = None, prv = None,
     parent_session = None, next_child = None, child_session_list = None,
     finished_child_session_list = None, session_done_cb = None\<rparr>"

definition ctx_zero :: esq_hash_lock_ctx_t where
  "ctx_zero = \<lparr>c_state = 0, c_idx = 0, c_session = None, c_next = None, c_next_in_esq_session = None,
     c_next_in_local_wake_up_list = None, c_worker_ctx = 0\<rparr>"

definition embedded_ctxs :: "addr \<Rightarrow> esq_hash_lock_ctx_t option \<Rightarrow> world \<Rightarrow> world" where
  "embedded_ctxs a v w = w\<lparr>ctxs := (\<lambda>r. case r of
       Embedded b i \<Rightarrow> if b = a \<and> i < ESQ_SESSION_HASH_LOCK_OWNER_MAX then v else ctxs w r
     | Malloced n \<Rightarrow> ctxs w r)\<rparr>"

definition esq_session_new :: "env \<Rightarrow> world \<Rightarrow> addr option \<times> world" where
  "esq_session_new e w =
     (case malloc_session e of
        None \<Rightarrow> (None, w)
      | Some a \<Rightarrow>
          (Some a, embedded_ctxs a (Some ctx_zero)
             (w\<lparr>heap := (heap w)(a \<mapsto> session_zero\<lparr>magic0 := ESQ_SESSION_MAGIC, magic1 := ESQ_SESSION_MAGIC,
                session_type := ESQ_SESSION_TYPE_NEW\<rparr>)\<rparr>)))"

definition free_session :: "addr \<Rightarrow> world \<Rightarrow> world res" where
  "free_session a w =
     bindE (upd (\<lambda>s. s\<lparr>magic0 := 0, magic1 := 0\<rparr>) a w) (\<lambda>w.
     Inr (embedded_ctxs a None (w\<lparr>heap := (heap w)(a := None)\<rparr>)))"

definition esq_session_init_mco_params :: "addr \<Rightarrow> nat \<Rightarrow> world \<Rightarrow> world res" where
  "esq_session_init_mco_params a m = upd (\<lambda>s. s\<lparr>session_type := ESQ_SESSION_TYPE_MCO, mco := Some m\<rparr>) a"

definition esq_session_check_magic :: "addr option \<Rightarrow> world \<Rightarrow> int res" where
  "esq_session_check_magic p w =
     (case p of
        None \<Rightarrow> Inr ESQ_ERROR_PARAM
      | Some a \<Rightarrow> bindE (sess a w) (\<lambda>s. Inr (if ESQ_CHECK_SESSION s then ESQ_OK else ESQ_ERROR_PARAM)))"

definition esq_session_set_param :: "addr option \<Rightarrow> nat option \<Rightarrow> world \<Rightarrow> world res" where
  "esq_session_set_param p v w =
     (case p of
        None \<Rightarrow> Inr w
      | Some a \<Rightarrow> bindE (sess a w) (\<lambda>s.
          if ESQ_CHECK_SESSION s then upd (\<lambda>s. s\<lparr>user_param := v\<rparr>) a w else Inr w))"

definition esq_session_set_cb :: "addr option \<Rightarrow> nat option \<Rightarrow> world \<Rightarrow> (int \<times> world) res" where
  "esq_session_set_cb p v w =
     (case p of
        None \<Rightarrow> Inr (ESQ_ERROR_PARAM, w)
      | Some a \<Rightarrow> bindE (sess a w) (\<lambda>s.
          if ESQ_CHECK_SESSION s then bindE (upd (\<lambda>s. s\<lparr>cb := v\<rparr>) a w) (\<lambda>w. Inr (ESQ_OK, w))
          else Inr (ESQ_ERROR_PARAM, w)))"

definition checked_get :: "'b \<Rightarrow> (esq_session_t \<Rightarrow> 'b) \<Rightarrow> addr option \<Rightarrow> world \<Rightarrow> 'b res" where
  "checked_get d f p w =
     (case p of
        None \<Rightarrow> Inr d
      | Some a \<Rightarrow> bindE (sess a w) (\<lambda>s. Inr (if ESQ_CHECK_SESSION s then f s else d)))"

definition esq_session_get_param :: "addr option \<Rightarrow> world \<Rightarrow> nat option res" where
  "esq_session_get_param = checked_get None user_param"

definition esq_session_get_parent :: "addr option \<Rightarrow> world \<Rightarrow> addr option res" where
  "esq_session_get_parent = checked_get None parent_session"

definition esq_session_get_fd :: "addr option \<Rightarrow> world \<Rightarrow> int res" where
  "esq_session_get_fd = checked_get 0 fd"

definition esq_session_get_event_bits :: "addr option \<Rightarrow> world \<Rightarrow> int res" where
  "esq_session_get_event_bits = checked_get ESQ_ERROR_PARAM (\<lambda>s. uint (event_bits s))"

section \<open>Requests to the kernel\<close>

definition POLLIN :: u32 where "POLLIN = 0x001"
definition POLLOUT :: u32 where "POLLOUT = 0x004"
definition POLLERR :: u32 where "POLLERR = 0x008"
definition POLLHUP :: u32 where "POLLHUP = 0x010"
definition POLLRDHUP :: u32 where "POLLRDHUP = 0x2000"

lemmas poll_defs = POLLIN_def POLLOUT_def POLLERR_def POLLHUP_def POLLRDHUP_def

definition event_flags :: "u32 \<Rightarrow> u32" where
  "event_flags exp =
     (let f = (POLLERR OR POLLHUP) OR POLLRDHUP;
          f = (if ESQ_EVENT_BIT_READ AND exp \<noteq> 0 then f OR POLLIN else f)
      in if ESQ_EVENT_BIT_WRITE AND exp \<noteq> 0 then f OR POLLOUT else f)"

definition esq_os_events_add_socket_fd :: "int \<Rightarrow> addr \<Rightarrow> 16 word \<Rightarrow> world \<Rightarrow> int \<times> world" where
  "esq_os_events_add_socket_fd f a exp w =
     (ESQ_OK, w\<lparr>io_uring := io_uring w @ [Poll_add f (event_flags (ucast exp)) a]\<rparr>)"

definition esq_os_events_add_socket_fd_multishot :: "int \<Rightarrow> addr \<Rightarrow> 16 word \<Rightarrow> world \<Rightarrow> int \<times> world" where
  "esq_os_events_add_socket_fd_multishot f a exp w =
     (ESQ_OK, w\<lparr>io_uring := io_uring w @ [Poll_multishot f (event_flags (ucast exp)) a]\<rparr>)"

definition esq_os_events_remove_fd :: "addr \<Rightarrow> world \<Rightarrow> int \<times> world" where
  "esq_os_events_remove_fd a w = (ESQ_OK, w\<lparr>io_uring := io_uring w @ [Poll_remove a]\<rparr>)"

definition esq_os_events_remove_socket_fd :: "addr \<Rightarrow> world \<Rightarrow> int \<times> world" where
  "esq_os_events_remove_socket_fd a w = esq_os_events_remove_fd a w"

section \<open>The lists of a worker\<close>

definition prev_f :: "(addr, esq_session_t) field" where
  "prev_f = \<lparr>get = prv, put = (\<lambda>v s. s\<lparr>prv := v\<rparr>)\<rparr>"

definition next_f :: "(addr, esq_session_t) field" where
  "next_f = \<lparr>get = nxt, put = (\<lambda>v s. s\<lparr>nxt := v\<rparr>)\<rparr>"

definition on_list :: "list_id \<Rightarrow>
    (addr ll \<Rightarrow> (addr, esq_session_t) heap \<Rightarrow> (addr ll \<times> (addr, esq_session_t) heap) res) \<Rightarrow> world \<Rightarrow> world res" where
  "on_list l f w =
     bindE (f (lists w l) (heap w)) (\<lambda>(l', h). Inr (w\<lparr>lists := (lists w)(l := l'), heap := h\<rparr>))"

text \<open>The assignment of a \<^verbatim>\<open>long\<close> to an \<^verbatim>\<open>int\<close>.\<close>

definition to_int32 :: "int \<Rightarrow> int" where
  "to_int32 x = sint (word_of_int x :: 32 word)"

definition RECORD_WIND_UP_TIME :: "env \<Rightarrow> addr \<Rightarrow> world \<Rightarrow> world res" where
  "RECORD_WIND_UP_TIME e a w =
     (case gettimeofday e of
        None \<Rightarrow> Inr (w\<lparr>esq_server_stop_flag := True\<rparr>)
      | Some (sec, usec) \<Rightarrow> upd (\<lambda>s. s\<lparr>wind_up_s := to_int32 sec, wind_up_ms := to_int32 usec\<rparr>) a w)"

definition timing_list :: "esq_session_t \<Rightarrow> list_id" where
  "timing_list s =
     (if 10 \<le> timeouts s then L_longer_than_10s
      else if 1 \<le> timeouts s then L_1s_to_10s
      else if 100 \<le> timeoutms s then L_100ms_to_1s
      else if 0 < timeoutms s then L_0ms_to_100ms
      else L_no_time)"

definition esq_session_join_timing_list :: "env \<Rightarrow> addr \<Rightarrow> world \<Rightarrow> world res" where
  "esq_session_join_timing_list e a w =
     bindE (sess a w) (\<lambda>s.
     run [on_list (timing_list s) (DOUBLE_LL_JOIN_HEAD prev_f next_f a), RECORD_WIND_UP_TIME e a] w)"

definition esq_session_left_timing_list :: "addr \<Rightarrow> world \<Rightarrow> world res" where
  "esq_session_left_timing_list a w =
     bindE (sess a w) (\<lambda>s. on_list (timing_list s) (DOUBLE_LL_LEFT prev_f next_f a) w)"

definition esq_session_change_to_no_timing_list :: "env \<Rightarrow> addr \<Rightarrow> world \<Rightarrow> world res" where
  "esq_session_change_to_no_timing_list e a w =
     bindE (sess a w) (\<lambda>s.
     if timeouts s \<noteq> 0 \<or> timeoutms s \<noteq> 0 then
       run [esq_session_left_timing_list a,
            upd (\<lambda>s. s\<lparr>timeouts := 0, timeoutms := 0\<rparr>) a,
            esq_session_join_timing_list e a] w
     else Inr w)"

definition esq_session_update_polling_interval :: "world \<Rightarrow> world" where
  "esq_session_update_polling_interval w =
     w\<lparr>esq_os_event_wait_max :=
        (if head (lists w L_0ms_to_100ms) \<noteq> None then 5
         else if head (lists w L_100ms_to_1s) \<noteq> None then 50
         else if head (lists w L_1s_to_10s) \<noteq> None then 500
         else if head (lists w L_longer_than_10s) \<noteq> None then 5000
         else -1)\<rparr>"

definition esq_update_polling_interval :: "world \<Rightarrow> world res" where
  "esq_update_polling_interval w = Inr (esq_session_update_polling_interval w)"

definition esq_session_join_active_list :: "addr \<Rightarrow> world \<Rightarrow> world res" where
  "esq_session_join_active_list a w = on_list L_active (DOUBLE_LL_JOIN_TAIL prev_f next_f a) w"

definition esq_session_left_active_list :: "addr \<Rightarrow> world \<Rightarrow> world res" where
  "esq_session_left_active_list a w = on_list L_active (DOUBLE_LL_LEFT prev_f next_f a) w"

text \<open>The body that \<^verbatim>\<open>esq_join_local_new_list\<close> and \<^verbatim>\<open>esq_join_global_new_list\<close> share.\<close>

definition join_new_list :: "addr \<Rightarrow> addr ll \<Rightarrow> (addr, esq_session_t) heap \<Rightarrow>
    (addr ll \<times> (addr, esq_session_t) heap) res" where
  "join_new_list a l h =
     bindE (store prev_f a None h) (\<lambda>h.
     bindE (store next_f a None h) (\<lambda>h.
     case tail l of
       Some t \<Rightarrow> bindE (store next_f t (Some a) h) (\<lambda>h. Inr (l\<lparr>tail := Some a\<rparr>, h))
     | None \<Rightarrow> Inr (l\<lparr>head := Some a, tail := Some a\<rparr>, h)))"

definition esq_join_local_new_list :: "addr \<Rightarrow> world \<Rightarrow> world res" where
  "esq_join_local_new_list a = on_list L_new (join_new_list a)"

definition esq_join_global_new_list :: "addr \<Rightarrow> world \<Rightarrow> world res" where
  "esq_join_global_new_list a = on_list L_global (join_new_list a)"

text \<open>Removal of the first session of a list of new sessions, in \<^verbatim>\<open>worker.c\<close>.\<close>

definition pop_new_list :: "addr \<Rightarrow> addr ll \<Rightarrow> (addr, esq_session_t) heap \<Rightarrow>
    (addr ll \<times> (addr, esq_session_t) heap) res" where
  "pop_new_list a l h =
     bindE (load next_f a h) (\<lambda>n.
     Inr (case n of Some n0 \<Rightarrow> (l\<lparr>head := Some n0\<rparr>, h) | None \<Rightarrow> (l\<lparr>head := None, tail := None\<rparr>, h)))"

end
