(* ===== verification/Esq_HashLock.thy ===== *)
theory Esq_HashLock
  imports Esq_Session
begin

text \<open>
  The hash locks of \<^verbatim>\<open>session/hash_lock.c\<close>: an array of reader-writer locks, each a queue of contexts in
  order of arrival.  The holders are the leading readers, or a leading writer; the others wait until a
  release moves them to the wake-up list of their worker.  The spin locks around the queues are
  not part of the model: an operation is one step.
\<close>

section \<open>Contexts\<close>

definition cnext_f :: "(ctx_ref, esq_hash_lock_ctx_t) field" where
  "cnext_f = \<lparr>get = c_next, put = (\<lambda>v c. c\<lparr>c_next := v\<rparr>)\<rparr>"

definition cwake_f :: "(ctx_ref, esq_hash_lock_ctx_t) field" where
  "cwake_f = \<lparr>get = c_next_in_local_wake_up_list, put = (\<lambda>v c. c\<lparr>c_next_in_local_wake_up_list := v\<rparr>)\<rparr>"

definition hctx :: "ctx_ref \<Rightarrow> world \<Rightarrow> esq_hash_lock_ctx_t res" where
  "hctx r w = of_opt (ctxs w r)"

definition upd_ctx :: "(esq_hash_lock_ctx_t \<Rightarrow> esq_hash_lock_ctx_t) \<Rightarrow> ctx_ref \<Rightarrow> world \<Rightarrow> world res" where
  "upd_ctx f r w = bindE (hctx r w) (\<lambda>c. Inr (w\<lparr>ctxs := (ctxs w)(r \<mapsto> f c)\<rparr>))"

function alloc_embedded :: "addr \<Rightarrow> nat \<Rightarrow> world \<Rightarrow> (ctx_ref option \<times> world) res" where
  "alloc_embedded a i w =
     (if i < ESQ_SESSION_HASH_LOCK_OWNER_MAX then
        bindE (hctx (Embedded a i) w) (\<lambda>c.
        if c_session c \<noteq> None then alloc_embedded a (i + 1) w
        else bindE (upd_ctx (\<lambda>c. c\<lparr>c_session := Some a\<rparr>) (Embedded a i) w) (\<lambda>w. Inr (Some (Embedded a i), w)))
      else Inr (None, w))"
  by auto
termination by (relation "measure (\<lambda>(a, i, w). ESQ_SESSION_HASH_LOCK_OWNER_MAX - i)") auto

declare alloc_embedded.simps [simp del]

definition esq_alloc_hash_lock_ctx :: "env \<Rightarrow> addr \<Rightarrow> world \<Rightarrow> (ctx_ref option \<times> world) res" where
  "esq_alloc_hash_lock_ctx e a w =
     bindE (alloc_embedded a 0 w) (\<lambda>(r, w).
     case r of
       Some x \<Rightarrow> Inr (Some x, w)
     | None \<Rightarrow>
         (case malloc_ctx e of
            None \<Rightarrow> Inr (None, w)
          | Some n \<Rightarrow> Inr (Some (Malloced n), w\<lparr>ctxs := (ctxs w)(Malloced n \<mapsto> ctx_zero\<lparr>c_session := Some a\<rparr>)\<rparr>)))"

definition esq_free_hash_lock_ctx :: "ctx_ref \<Rightarrow> world \<Rightarrow> world res" where
  "esq_free_hash_lock_ctx r w =
     bindE (hctx r w) (\<lambda>c.
     if c_session c = None then Inl Exit
     else bindE (upd_ctx (\<lambda>c. c\<lparr>c_session := None\<rparr>) r w) (\<lambda>w.
       case r of Embedded _ _ \<Rightarrow> Inr w | Malloced n \<Rightarrow> Inr (w\<lparr>ctxs := (ctxs w)(r := None)\<rparr>)))"

section \<open>Locks\<close>

definition HASH_LOCK_MAX :: int where "HASH_LOCK_MAX = 128"

definition on_lock :: "nat \<Rightarrow> (ctx_ref ll \<Rightarrow> (ctx_ref, esq_hash_lock_ctx_t) heap \<Rightarrow>
    (ctx_ref ll \<times> (ctx_ref, esq_hash_lock_ctx_t) heap) res) \<Rightarrow> world \<Rightarrow> world res" where
  "on_lock i f w = bindE (f (locks w i) (ctxs w)) (\<lambda>(l, h). Inr (w\<lparr>locks := (locks w)(i := l), ctxs := h\<rparr>))"

definition CTX_JOIN_TAIL :: "ctx_ref \<Rightarrow> ctx_ref ll \<Rightarrow> (ctx_ref, esq_hash_lock_ctx_t) heap \<Rightarrow>
    (ctx_ref ll \<times> (ctx_ref, esq_hash_lock_ctx_t) heap) res" where
  "CTX_JOIN_TAIL r l h =
     (case tail l of
        None \<Rightarrow> Inl Fault
      | Some t \<Rightarrow>
          bindE (store cnext_f t (Some r) h) (\<lambda>h.
          bindE (store cnext_f r None h) (\<lambda>h.
          Inr (l\<lparr>tail := Some r\<rparr>, h))))"

definition CTX_JOIN_AS_THE_FIRST :: "ctx_ref \<Rightarrow> ctx_ref ll \<Rightarrow> (ctx_ref, esq_hash_lock_ctx_t) heap \<Rightarrow>
    (ctx_ref ll \<times> (ctx_ref, esq_hash_lock_ctx_t) heap) res" where
  "CTX_JOIN_AS_THE_FIRST r l h =
     bindE (store cnext_f r None h) (\<lambda>h. Inr (l\<lparr>head := Some r, tail := Some r\<rparr>, h))"

definition JOIN_SESSION :: "ctx_ref \<Rightarrow> world \<Rightarrow> world res" where
  "JOIN_SESSION r w =
     bindE (hctx r w) (\<lambda>c.
     bindE (of_opt (c_session c)) (\<lambda>a.
     bindE (sess a w) (\<lambda>s.
     run [upd_ctx (\<lambda>c. c\<lparr>c_next_in_esq_session := hash_lock_ctx_list s\<rparr>) r,
          upd (\<lambda>s. s\<lparr>hash_lock_ctx_list := Some r\<rparr>) a] w)))"

text \<open>The search of \<^verbatim>\<open>esq_try_read_hash_lock\<close> for a context that is not a reader.\<close>

fun all_readers :: "nat \<Rightarrow> ctx_ref option \<Rightarrow> world \<Rightarrow> bool res" where
  "all_readers n None w = Inr True"
| "all_readers 0 (Some p) w = Inl Fuel"
| "all_readers (Suc n) (Some p) w =
     bindE (hctx p w) (\<lambda>c.
     if c_state c = ESQ_SESSION_HASH_LOCK_READ then all_readers n (c_next c) w else Inr False)"

definition esq_try_read_hash_lock :: "env \<Rightarrow> nat \<Rightarrow> ctx_ref \<Rightarrow> world \<Rightarrow> (int \<times> world) res" where
  "esq_try_read_hash_lock e i r w =
     (if head (locks w i) \<noteq> None then
        bindE (all_readers (loop_fuel e) (head (locks w i)) w) (\<lambda>b.
        bindE (run [on_lock i (CTX_JOIN_TAIL r), JOIN_SESSION r] w) (\<lambda>w.
        Inr (if b then ESQ_OK else ESQ_ERROR_BUSY, w)))
      else
        bindE (run [on_lock i (CTX_JOIN_AS_THE_FIRST r), JOIN_SESSION r] w) (\<lambda>w.
        Inr (ESQ_OK, w)))"

definition esq_try_write_hash_lock :: "nat \<Rightarrow> ctx_ref \<Rightarrow> world \<Rightarrow> (int \<times> world) res" where
  "esq_try_write_hash_lock i r w =
     (if head (locks w i) \<noteq> None then
        bindE (run [on_lock i (CTX_JOIN_TAIL r), JOIN_SESSION r] w) (\<lambda>w. Inr (ESQ_ERROR_BUSY, w))
      else
        bindE (run [on_lock i (CTX_JOIN_AS_THE_FIRST r), JOIN_SESSION r] w) (\<lambda>w. Inr (ESQ_OK, w)))"

text \<open>\<^verbatim>\<open>esq_design_error\<close> does not return, so a duplicate ends the program.\<close>

fun esq_hash_lock_check_dup :: "nat \<Rightarrow> ctx_ref option \<Rightarrow> ctx_ref \<Rightarrow> addr option \<Rightarrow> world \<Rightarrow> int res" where
  "esq_hash_lock_check_dup n None r a w = Inr ESQ_OK"
| "esq_hash_lock_check_dup 0 (Some p) r a w = Inl Fuel"
| "esq_hash_lock_check_dup (Suc n) (Some p) r a w =
     (if r = p then Inl Exit
      else bindE (hctx p w) (\<lambda>c.
        if c_session c = a then Inl Exit else esq_hash_lock_check_dup n (c_next c) r a w))"

definition fetch_hash_lock :: "env \<Rightarrow> nat \<Rightarrow> ctx_ref \<Rightarrow> (world \<Rightarrow> (int \<times> world) res) \<Rightarrow> world \<Rightarrow> (int \<times> world) res" where
  "fetch_hash_lock e i r try w =
     bindE (hctx r w) (\<lambda>c.
     bindE (esq_hash_lock_check_dup (loop_fuel e) (head (locks w i)) r (c_session c) w) (\<lambda>v.
     if v \<noteq> 0 then bindE (esq_free_hash_lock_ctx r w) (\<lambda>w. Inr (v, w)) else try w))"

definition esq_try_fetch_hash_lock :: "env \<Rightarrow> addr \<Rightarrow> world \<Rightarrow> (int \<times> world) res" where
  "esq_try_fetch_hash_lock e a w =
     bindE (sess a w) (\<lambda>s.
     let idx = hash_lock_idx s in
     if idx < 0 \<or> HASH_LOCK_MAX \<le> idx then Inl Exit
     else if esq_server_stop_flag w then Inr (ESQ_ERROR_CLOSE, w)
     else bindE (esq_alloc_hash_lock_ctx e a w) (\<lambda>(r, w).
       case r of
         None \<Rightarrow> Inr (ESQ_ERROR_MEMORY, w)
       | Some r \<Rightarrow>
           bindE (upd_ctx (\<lambda>c. c\<lparr>c_state := hash_lock_state s, c_idx := idx, c_worker_ctx := self w\<rparr>) r w) (\<lambda>w.
           if hash_lock_state s = ESQ_SESSION_HASH_LOCK_READ then
             fetch_hash_lock e (nat idx) r (esq_try_read_hash_lock e (nat idx) r) w
           else if hash_lock_state s = ESQ_SESSION_HASH_LOCK_WRITE then
             fetch_hash_lock e (nat idx) r (esq_try_write_hash_lock (nat idx) r) w
           else Inl Exit)))"

definition HASH_LOCK_CTX_JOIN_WORK_CTX :: "ctx_ref \<Rightarrow> world \<Rightarrow> world res" where
  "HASH_LOCK_CTX_JOIN_WORK_CTX p w =
     bindE (hctx p w) (\<lambda>c.
     let k = c_worker_ctx c; l = wake_up w k in
     if head l \<noteq> None then
       bindE (of_opt (tail l)) (\<lambda>t.
       bindE (store cwake_f t (Some p) (ctxs w)) (\<lambda>h.
       bindE (store cwake_f p None h) (\<lambda>h.
       Inr (w\<lparr>ctxs := h, wake_up := (wake_up w)(k := l\<lparr>tail := Some p\<rparr>)\<rparr>))))
     else
       bindE (store cwake_f p None (ctxs w)) (\<lambda>h.
       Inr (w\<lparr>ctxs := h, wake_up := (wake_up w)(k := \<lparr>head = Some p, tail = Some p\<rparr>)\<rparr>)))"

fun wake_readers :: "nat \<Rightarrow> ctx_ref option \<Rightarrow> world \<Rightarrow> world res" where
  "wake_readers n None w = Inr w"
| "wake_readers 0 (Some p) w = Inl Fuel"
| "wake_readers (Suc n) (Some p) w =
     bindE (hctx p w) (\<lambda>c.
     if c_state c = ESQ_SESSION_HASH_LOCK_READ then
       bindE (HASH_LOCK_CTX_JOIN_WORK_CTX p w) (\<lambda>w. wake_readers n (c_next c) w)
     else Inr w)"

definition esq_hash_lock_ctx_join_local_wake_up_list :: "env \<Rightarrow> nat \<Rightarrow> world \<Rightarrow> world res" where
  "esq_hash_lock_ctx_join_local_wake_up_list e i w =
     (case head (locks w i) of
        None \<Rightarrow> Inr w
      | Some p \<Rightarrow>
          bindE (hctx p w) (\<lambda>c.
          if c_state c = ESQ_SESSION_HASH_LOCK_READ then wake_readers (loop_fuel e) (Some p) w
          else if c_state c = ESQ_SESSION_HASH_LOCK_WRITE then HASH_LOCK_CTX_JOIN_WORK_CTX p w
          else Inl Exit))"

text \<open>The loop of \<^verbatim>\<open>esq_hash_lock_release\<close>: the context of the session among the leading readers.\<close>

fun find_reader :: "nat \<Rightarrow> addr \<Rightarrow> ctx_ref option \<Rightarrow> ctx_ref option \<Rightarrow> world \<Rightarrow> (ctx_ref option \<times> ctx_ref) res" where
  "find_reader n a pp None w = Inl Exit"
| "find_reader 0 a pp (Some p) w = Inl Fuel"
| "find_reader (Suc n) a pp (Some p) w =
     bindE (hctx p w) (\<lambda>c.
     if c_state c = ESQ_SESSION_HASH_LOCK_READ then
       if c_session c = Some a then Inr (pp, p) else find_reader n a (Some p) (c_next c) w
     else Inl Exit)"

definition set_head :: "nat \<Rightarrow> ctx_ref option \<Rightarrow> world \<Rightarrow> world" where
  "set_head i p w = w\<lparr>locks := (locks w)(i := (locks w i)\<lparr>head := p\<rparr>)\<rparr>"

definition esq_hash_lock_release :: "env \<Rightarrow> addr \<Rightarrow> int \<Rightarrow> world \<Rightarrow> (int \<times> world) res" where
  "esq_hash_lock_release e a idx w =
     (if idx < 0 \<or> HASH_LOCK_MAX \<le> idx then Inl Exit
      else let i = nat idx in
        case head (locks w i) of
          None \<Rightarrow> Inl Exit
        | Some p \<Rightarrow>
            bindE (hctx p w) (\<lambda>c.
            if c_state c = ESQ_SESSION_HASH_LOCK_READ then
              bindE (find_reader (loop_fuel e) a None (Some p) w) (\<lambda>(pp, p).
              bindE (hctx p w) (\<lambda>c.
              case pp of
                Some q \<Rightarrow>
                  bindE (upd_ctx (\<lambda>d. d\<lparr>c_next := c_next c\<rparr>) q w) (\<lambda>w.
                  bindE (esq_free_hash_lock_ctx p w) (\<lambda>w. Inr (ESQ_OK, w)))
              | None \<Rightarrow>
                  bindE (of_opt (c_next c)) (\<lambda>n.
                  bindE (hctx n (set_head i (c_next c) w)) (\<lambda>d.
                  if c_state d = ESQ_SESSION_HASH_LOCK_READ then
                    bindE (esq_free_hash_lock_ctx p (set_head i (c_next c) w)) (\<lambda>w. Inr (ESQ_OK, w))
                  else
                    bindE (run [esq_hash_lock_ctx_join_local_wake_up_list e i, esq_free_hash_lock_ctx p]
                             (set_head i (c_next c) w)) (\<lambda>w. Inr (ESQ_OK, w))))))
            else if c_state c = ESQ_SESSION_HASH_LOCK_WRITE then
              if c_session c = Some a then
                bindE (run [esq_hash_lock_ctx_join_local_wake_up_list e i, esq_free_hash_lock_ctx p]
                         (set_head i (c_next c) w)) (\<lambda>w. Inr (ESQ_OK, w))
              else Inl Exit
            else Inl Exit))"

fun wake_all :: "nat \<Rightarrow> ctx_ref option \<Rightarrow> world \<Rightarrow> world res" where
  "wake_all n None w = Inr w"
| "wake_all 0 (Some p) w = Inl Fuel"
| "wake_all (Suc n) (Some p) w =
     bindE (HASH_LOCK_CTX_JOIN_WORK_CTX p w) (\<lambda>w. bindE (hctx p w) (\<lambda>c. wake_all n (c_next c) w))"

definition esq_hash_lock_release_all :: "env \<Rightarrow> world \<Rightarrow> world res" where
  "esq_hash_lock_release_all e w =
     (if \<not> esq_server_stop_flag w then Inl Exit
      else run (map (\<lambda>i w. wake_all (loop_fuel e) (head (locks w i)) w) [0 ..< nat HASH_LOCK_MAX]) w)"

definition esq_hash_lock_init :: "(nat \<Rightarrow> bool) \<Rightarrow> world \<Rightarrow> int \<times> world" where
  "esq_hash_lock_init spin_init_ok w =
     (if \<forall>i < nat HASH_LOCK_MAX. spin_init_ok i then ESQ_OK else -1,
      w\<lparr>locks := (\<lambda>i. if i < nat HASH_LOCK_MAX then ll_empty else locks w i)\<rparr>)"

end
