(* ===== verification/Esq_Pt.thy ===== *)
theory Esq_Pt
  imports Esq_HashLock
begin

text \<open>
  The state machines of the session types: \<^verbatim>\<open>pt_of_no_fd.c\<close>, \<^verbatim>\<open>pt_of_socket.c\<close>,
  \<^verbatim>\<open>pt_of_multi_shot_socket.c\<close>, \<^verbatim>\<open>pt_of_mco.c\<close> and \<^verbatim>\<open>pt_of_hash_lock.c\<close>.

  Each is a protothread: it resumes after the label saved in \<^verbatim>\<open>session->lc\<close>, handles one action and
  returns at the next \<^verbatim>\<open>ESQ_SESSION_PT_SET\<close>, which saves the label and drops the action.  The code behind
  a label is a definition of its own; \<open>goto_set\<close> is \<^verbatim>\<open>GOTO\<close> to a label that starts with
  \<^verbatim>\<open>ESQ_SESSION_PT_SET\<close>.  \<^verbatim>\<open>INVALID_ACTION_TYPE\<close> calls \<^verbatim>\<open>exit\<close>, so what follows it is unreachable.
\<close>

type_synonym handler = "env \<Rightarrow> esq_session_pt_action_t \<Rightarrow> addr \<Rightarrow> world \<Rightarrow> world res"

definition goto_set :: "pt_label \<Rightarrow> addr \<Rightarrow> world \<Rightarrow> world res" where
  "goto_set l = upd (\<lambda>s. s\<lparr>lc := l\<rparr>)"

definition set_post_op :: "byte \<Rightarrow> addr \<Rightarrow> world \<Rightarrow> world res" where
  "set_post_op p = upd (\<lambda>s. s\<lparr>post_op := p\<rparr>)"

definition set_return :: "int \<Rightarrow> addr \<Rightarrow> world \<Rightarrow> world res" where
  "set_return r = upd (\<lambda>s. s\<lparr>post_op := POP_RETURN_VALUE, retval := r\<rparr>)"

definition INVALID_ACTION_TYPE :: "world \<Rightarrow> world res" where
  "INVALID_ACTION_TYPE w = Inl Exit"

definition switch_type :: "byte \<Rightarrow> addr \<Rightarrow> world \<Rightarrow> world res" where
  "switch_type t = upd (\<lambda>s. s\<lparr>session_type := t, post_op := POP_SWITCH_SESSION_TYPE\<rparr>)"

definition FD_NEED_INSTALL :: "int \<Rightarrow> bool" where "FD_NEED_INSTALL f \<longleftrightarrow> 0 < f"

section \<open>Sessions without a descriptor\<close>

definition esq_pt_of_no_fd :: handler where
  "esq_pt_of_no_fd e act a =
     (case a_type act of
        ACTION_WIND_UP \<Rightarrow> set_post_op POP_FREE_SESSION a
      | ACTION_ADD_SOCK_FD_MULTI \<Rightarrow> switch_type ESQ_SESSION_TYPE_MULTI_SOCKET_CB a
      | ACTION_ADD_SOCK_FD_SINGLE \<Rightarrow> switch_type ESQ_SESSION_TYPE_SOCKET_CB a
      | ACTION_HASH_LOCK_READ \<Rightarrow> switch_type ESQ_SESSION_TYPE_WAIT_FOR_HASH_LOCK a
      | ACTION_HASH_LOCK_WRITE \<Rightarrow> switch_type ESQ_SESSION_TYPE_WAIT_FOR_HASH_LOCK a
      | _ \<Rightarrow> INVALID_ACTION_TYPE)"

section \<open>Single-shot sockets\<close>

definition ss_start :: handler where
  "ss_start e act a =
     run [upd (\<lambda>s. s\<lparr>fd := a_fd act, timeouts := a_timeouts act, timeoutms := a_timeoutms act,
            user_param := a_user_param act, exp_event_bits := ucast (a_exp_event_bits act), cb := a_cb act,
            event_bits := 0, post_op := POP_NO_OP\<rparr>) a,
          goto_set PT_initial a]"

text \<open>Labels \<^verbatim>\<open>__initial\<close> and \<^verbatim>\<open>__wait_for_cpu\<close>; the hash lock machine has the same \<^verbatim>\<open>__initial\<close>.\<close>

definition pt_initial :: handler where
  "pt_initial e act a w =
     (case a_type act of
        ACTION_WIND_UP \<Rightarrow> run [set_post_op POP_JOIN_LOCAL_NEW_LIST a, goto_set PT_wait_for_cpu a] w
      | ACTION_WIND_UP_RR \<Rightarrow> run [set_post_op POP_JOIN_GLOBAL_NEW_LIST a, goto_set PT_wait_for_cpu a] w
      | ACTION_SET_PARENT \<Rightarrow>
          bindE (sess a w) (\<lambda>s.
          if have_parent_session s then INVALID_ACTION_TYPE w
          else run [upd (\<lambda>s. s\<lparr>have_parent_session := True, session_done_cb := a_cb act,
                      parent_session := a_user_param act, post_op := POP_NO_OP\<rparr>) a,
                    goto_set PT_initial a] w)
      | _ \<Rightarrow> INVALID_ACTION_TYPE w)"

definition ss_install_fd :: handler where
  "ss_install_fd e act a w =
     bindE (sess a w) (\<lambda>s.
     let (r, w) = (if FD_NEED_INSTALL (fd s) then esq_os_events_add_socket_fd (fd s) a (exp_event_bits s) w
                   else (ESQ_OK, w)) in
     if r \<noteq> 0 then
       run [upd (or_event_bits ESQ_EVENT_BIT_ERROR) a, esq_session_join_active_list a,
            set_post_op POP_NO_OP a, goto_set PT_active a] w
     else
       run [esq_session_join_timing_list e a, esq_update_polling_interval,
            set_post_op POP_NO_OP a, goto_set PT_winded_up a] w)"

definition ss_wait_for_cpu :: handler where
  "ss_wait_for_cpu e act a w =
     (if a_type act = ACTION_PICK_UP then ss_install_fd e act a w else INVALID_ACTION_TYPE w)"

definition ss_remove_fd_then_active :: handler where
  "ss_remove_fd_then_active e act a w =
     bindE (sess a w) (\<lambda>s.
     if FD_NEED_INSTALL (fd s) then
       let (r, w) = esq_os_events_remove_socket_fd a w in
       if r \<noteq> 0 then
         run [upd (\<lambda>s. s\<lparr>fd := 0\<rparr>) a, upd (or_event_bits ESQ_EVENT_BIT_ERROR) a, esq_session_left_timing_list a,
              esq_session_join_active_list a, goto_set PT_active a] w
       else
         run [upd (\<lambda>s. s\<lparr>fd := 0\<rparr>) a, esq_session_change_to_no_timing_list e a,
              goto_set PT_wait_for_removed_then_active a] w
     else
       run [esq_session_left_timing_list a, esq_session_join_active_list a, goto_set PT_active a] w)"

definition ss_winded_up :: handler where
  "ss_winded_up e act a =
     (case a_type act of
        ACTION_NOTIFY_EVENT \<Rightarrow>
          run [upd (or_event_bits (a_notify_event_bits act)) a, esq_session_left_timing_list a,
               esq_session_join_active_list a, set_post_op POP_NO_OP a, goto_set PT_active a]
      | ACTION_NOTIFY_TIMEOUT \<Rightarrow>
          run [upd (or_event_bits ESQ_EVENT_BIT_TIMEOUT) a, set_post_op POP_NO_OP a,
               ss_remove_fd_then_active e act a]
      | ACTION_NOTIFY_EXIT \<Rightarrow>
          run [upd (or_event_bits ESQ_EVENT_BIT_EXIT) a, set_post_op POP_NO_OP a,
               ss_remove_fd_then_active e act a]
      | _ \<Rightarrow> INVALID_ACTION_TYPE)"

definition ss_wait_for_removed_then_active :: handler where
  "ss_wait_for_removed_then_active e act a =
     (case a_type act of
        ACTION_NOTIFY_AIO_REMOVED \<Rightarrow>
          run [esq_session_left_timing_list a, esq_session_join_active_list a,
               set_post_op POP_NO_OP a, goto_set PT_active a]
      | ACTION_NOTIFY_EXIT \<Rightarrow>
          run [upd (or_event_bits ESQ_EVENT_BIT_EXIT) a, set_post_op POP_NO_OP a,
               goto_set PT_wait_for_removed_then_active a]
      | _ \<Rightarrow> INVALID_ACTION_TYPE)"

text \<open>
  Label \<^verbatim>\<open>__active\<close>, the same code in this and in the hash lock machine; there a return without \<^verbatim>\<open>GOTO\<close>
  keeps the label.
\<close>

definition pt_active :: handler where
  "pt_active e act a =
     (case a_type act of
        ACTION_NOTIFY_EVENT \<Rightarrow>
          run [upd (or_event_bits (a_notify_event_bits act)) a, set_post_op POP_NO_OP a]
      | ACTION_NOTIFY_EXIT \<Rightarrow>
          run [upd (or_event_bits ESQ_EVENT_BIT_EXIT) a, set_post_op POP_NO_OP a, goto_set PT_active a]
      | ACTION_EXECUTE_CB \<Rightarrow>
          run [esq_session_left_active_list a, set_return ESQ_OK a, goto_set PT_execute_cb a]
      | _ \<Rightarrow> INVALID_ACTION_TYPE)"

definition add_child :: "addr option \<Rightarrow> addr \<Rightarrow> world \<Rightarrow> world res" where
  "add_child p a w =
     bindE (of_opt p) (\<lambda>c.
     bindE (sess a w) (\<lambda>s.
     run [upd (\<lambda>t. t\<lparr>next_child := child_session_list s\<rparr>) c,
          upd (\<lambda>s. s\<lparr>child_session_list := Some c\<rparr>) a] w))"

definition ss_execute_cb :: handler where
  "ss_execute_cb e act a =
     (case a_type act of
        ACTION_WIND_UP \<Rightarrow> run [set_post_op POP_FREE_SESSION a, goto_set PT_die a]
      | ACTION_ADD_SOCK_FD_MULTI \<Rightarrow> switch_type ESQ_SESSION_TYPE_MULTI_SOCKET_CB a
      | ACTION_ADD_CHILD \<Rightarrow>
          run [add_child (a_user_param act) a, set_post_op POP_NO_OP a, goto_set PT_execute_cb a]
      | ACTION_ADD_SOCK_FD_SINGLE \<Rightarrow>
          run [upd (\<lambda>s. s\<lparr>fd := a_fd act, timeouts := a_timeouts act, timeoutms := a_timeoutms act,
                 user_param := a_user_param act, exp_event_bits := ucast (a_exp_event_bits act),
                 cb := a_cb act, post_op := POP_NO_OP\<rparr>) a,
               goto_set PT_wait_for_reinstall a]
      | ACTION_NOTIFY_EXIT \<Rightarrow>
          run [upd (or_event_bits ESQ_EVENT_BIT_EXIT) a, set_post_op POP_NO_OP a, goto_set PT_execute_cb a]
      | ACTION_NOTIFY_EVENT \<Rightarrow>
          run [upd (or_event_bits (a_notify_event_bits act)) a, set_post_op POP_NO_OP a, goto_set PT_execute_cb a]
      | ACTION_HASH_LOCK_WRITE \<Rightarrow> switch_type ESQ_SESSION_TYPE_WAIT_FOR_HASH_LOCK a
      | ACTION_HASH_LOCK_READ \<Rightarrow>
          upd (\<lambda>s. s\<lparr>session_type := ESQ_SESSION_TYPE_WAIT_FOR_HASH_LOCK,
                 post_op := ESQ_SESSION_TYPE_WAIT_FOR_HASH_LOCK\<rparr>) a
      | _ \<Rightarrow> INVALID_ACTION_TYPE)"

definition ss_wait_for_reinstall :: handler where
  "ss_wait_for_reinstall e act a =
     (case a_type act of
        ACTION_WIND_UP \<Rightarrow> ss_install_fd e act a
      | ACTION_NOTIFY_EXIT \<Rightarrow>
          run [upd (or_event_bits ESQ_EVENT_BIT_EXIT) a, set_post_op POP_NO_OP a, goto_set PT_wait_for_reinstall a]
      | ACTION_NOTIFY_EVENT \<Rightarrow>
          run [upd (or_event_bits (a_notify_event_bits act)) a, set_post_op POP_NO_OP a,
               goto_set PT_wait_for_reinstall a]
      | _ \<Rightarrow> INVALID_ACTION_TYPE)"

definition esq_pt_of_single_shot_socket :: handler where
  "esq_pt_of_single_shot_socket e act a w =
     bindE (sess a w) (\<lambda>s.
     (case lc s of
        PT_START \<Rightarrow> ss_start e act a
      | PT_initial \<Rightarrow> pt_initial e act a
      | PT_wait_for_cpu \<Rightarrow> ss_wait_for_cpu e act a
      | PT_winded_up \<Rightarrow> ss_winded_up e act a
      | PT_wait_for_removed_then_active \<Rightarrow> ss_wait_for_removed_then_active e act a
      | PT_active \<Rightarrow> pt_active e act a
      | PT_execute_cb \<Rightarrow> ss_execute_cb e act a
      | PT_wait_for_reinstall \<Rightarrow> ss_wait_for_reinstall e act a
      | PT_die \<Rightarrow> INVALID_ACTION_TYPE
      | _ \<Rightarrow> Inr) w)"

section \<open>Multi-shot sockets\<close>

definition ms_start :: handler where
  "ms_start e act a =
     run [upd (\<lambda>s. s\<lparr>fd := a_fd act, timeouts := 0, timeoutms := 0, user_param := a_user_param act,
            exp_event_bits := ucast (a_exp_event_bits act), cb := a_cb act, event_bits := 0,
            post_op := POP_NO_OP\<rparr>) a,
          goto_set PT_initial a]"

definition ms_initial :: handler where
  "ms_initial e act a =
     (case a_type act of
        ACTION_WIND_UP \<Rightarrow> run [set_post_op POP_JOIN_LOCAL_NEW_LIST a, goto_set PT_wait_for_cpu a]
      | ACTION_WIND_UP_RR \<Rightarrow> run [set_post_op POP_JOIN_GLOBAL_NEW_LIST a, goto_set PT_wait_for_cpu a]
      | _ \<Rightarrow> INVALID_ACTION_TYPE)"

definition ms_wait_for_cpu :: handler where
  "ms_wait_for_cpu e act a w =
     (if a_type act = ACTION_PICK_UP then
        bindE (sess a w) (\<lambda>s.
        let (r, w) = (if FD_NEED_INSTALL (fd s)
                      then esq_os_events_add_socket_fd_multishot (fd s) a (exp_event_bits s) w
                      else (ESQ_OK, w)) in
        if r \<noteq> 0 then
          run [upd (or_event_bits ESQ_EVENT_BIT_ERROR) a, esq_session_join_active_list a,
               set_post_op POP_NO_OP a, goto_set PT_active a] w
        else
          run [esq_session_join_timing_list e a, set_post_op POP_NO_OP a, goto_set PT_winded_up a] w)
      else INVALID_ACTION_TYPE w)"

definition ms_winded_up :: handler where
  "ms_winded_up e act a =
     (case a_type act of
        ACTION_NOTIFY_EVENT \<Rightarrow>
          run [upd (or_event_bits (a_notify_event_bits act)) a, esq_session_left_timing_list a,
               esq_session_join_active_list a, set_post_op POP_NO_OP a, goto_set PT_active a]
      | ACTION_NOTIFY_EXIT \<Rightarrow>
          run [upd (or_event_bits ESQ_EVENT_BIT_EXIT) a, esq_session_left_timing_list a,
               esq_session_join_active_list a, goto_set PT_active a]
      | _ \<Rightarrow> INVALID_ACTION_TYPE)"

definition ms_active :: handler where
  "ms_active e act a =
     (case a_type act of
        ACTION_NOTIFY_EVENT \<Rightarrow>
          run [upd (or_event_bits (a_notify_event_bits act)) a, set_post_op POP_NO_OP a, goto_set PT_active a]
      | ACTION_NOTIFY_EXIT \<Rightarrow>
          run [upd (or_event_bits ESQ_EVENT_BIT_EXIT) a, set_post_op POP_NO_OP a, goto_set PT_active a]
      | ACTION_EXECUTE_CB \<Rightarrow>
          run [esq_session_left_active_list a, set_return ESQ_OK a, upd (\<lambda>s. s\<lparr>event_bits2 := 0\<rparr>) a,
               goto_set PT_execute_cb a]
      | _ \<Rightarrow> INVALID_ACTION_TYPE)"

definition ms_execute_cb :: handler where
  "ms_execute_cb e act a w =
     bindE (sess a w) (\<lambda>s.
     case a_type act of
       ACTION_WIND_UP \<Rightarrow>
         if fd s \<noteq> 0 then
           if event_bits2 s \<noteq> 0 then
             run [upd (\<lambda>s. s\<lparr>event_bits := event_bits2 s\<rparr>) a, esq_session_join_active_list a,
                  goto_set PT_active a] w
           else
             run [esq_session_join_timing_list e a, set_post_op POP_NO_OP a, goto_set PT_winded_up a] w
         else set_post_op POP_FREE_SESSION a w
     | ACTION_REMOVE_FD \<Rightarrow>
         if FD_NEED_INSTALL (fd s) then
           let (r, w) = esq_os_events_remove_socket_fd a w in
           if r \<noteq> 0 then
             run [upd (\<lambda>s. s\<lparr>fd := 0\<rparr>) a, upd (or_event_bits2 ESQ_EVENT_BIT_ERROR) a, goto_set PT_execute_cb a] w
           else
             run [upd (\<lambda>s. s\<lparr>fd := 0\<rparr>) a, esq_session_join_timing_list e a,
                  goto_set PT_wait_for_removed_and_wind_up a] w
         else run [upd (\<lambda>s. s\<lparr>post_op := POP_NO_OP, fd := 0\<rparr>) a, goto_set PT_execute_cb a] w
     | ACTION_NOTIFY_EVENT \<Rightarrow>
         run [upd (or_event_bits2 (a_notify_event_bits act)) a, set_post_op POP_NO_OP a, goto_set PT_execute_cb a] w
     | ACTION_NOTIFY_EXIT \<Rightarrow>
         run [upd (or_event_bits2 ESQ_EVENT_BIT_EXIT) a, set_post_op POP_NO_OP a, goto_set PT_execute_cb a] w
     | _ \<Rightarrow> INVALID_ACTION_TYPE w)"

definition ms_wait_for_removed_and_wind_up :: handler where
  "ms_wait_for_removed_and_wind_up e act a =
     (case a_type act of
        ACTION_NOTIFY_AIO_REMOVED \<Rightarrow> run [set_post_op POP_NO_OP a, goto_set PT_wait_for_wind_up a]
      | ACTION_WIND_UP \<Rightarrow> run [set_post_op POP_NO_OP a, goto_set PT_wait_for_removed a]
      | _ \<Rightarrow> INVALID_ACTION_TYPE)"

definition ms_wait_for_removed :: handler where
  "ms_wait_for_removed e act a =
     (case a_type act of
        ACTION_NOTIFY_AIO_REMOVED \<Rightarrow>
          run [esq_session_left_timing_list a, set_post_op POP_FREE_SESSION a, goto_set PT_die a]
      | ACTION_NOTIFY_EXIT \<Rightarrow> run [set_post_op POP_NO_OP a, goto_set PT_wait_for_removed a]
      | _ \<Rightarrow> INVALID_ACTION_TYPE)"

definition ms_wait_for_wind_up :: handler where
  "ms_wait_for_wind_up e act a =
     (case a_type act of
        ACTION_WIND_UP \<Rightarrow>
          run [esq_session_left_timing_list a, set_post_op POP_FREE_SESSION a, goto_set PT_die a]
      | ACTION_NOTIFY_EXIT \<Rightarrow> run [set_post_op POP_NO_OP a, goto_set PT_wait_for_wind_up a]
      | _ \<Rightarrow> INVALID_ACTION_TYPE)"

definition esq_pt_of_multi_shot_socket :: handler where
  "esq_pt_of_multi_shot_socket e act a w =
     bindE (sess a w) (\<lambda>s.
     (case lc s of
        PT_START \<Rightarrow> ms_start e act a
      | PT_initial \<Rightarrow> ms_initial e act a
      | PT_wait_for_cpu \<Rightarrow> ms_wait_for_cpu e act a
      | PT_winded_up \<Rightarrow> ms_winded_up e act a
      | PT_active \<Rightarrow> ms_active e act a
      | PT_execute_cb \<Rightarrow> ms_execute_cb e act a
      | PT_wait_for_removed_and_wind_up \<Rightarrow> ms_wait_for_removed_and_wind_up e act a
      | PT_wait_for_removed \<Rightarrow> ms_wait_for_removed e act a
      | PT_wait_for_wind_up \<Rightarrow> ms_wait_for_wind_up e act a
      | PT_die \<Rightarrow> INVALID_ACTION_TYPE
      | _ \<Rightarrow> Inr) w)"

section \<open>Coroutines\<close>

definition mco_start :: handler where
  "mco_start e act a =
     run [esq_session_join_active_list a, set_return ESQ_OK a, goto_set PT_active a]"

definition mco_active :: handler where
  "mco_active e act a =
     (case a_type act of
        ACTION_NOTIFY_EVENT \<Rightarrow>
          run [upd (or_event_bits (a_notify_event_bits act)) a, set_post_op POP_NO_OP a, goto_set PT_active a]
      | ACTION_NOTIFY_EXIT \<Rightarrow>
          run [upd (or_event_bits ESQ_EVENT_BIT_EXIT) a, set_post_op POP_NO_OP a, goto_set PT_active a]
      | ACTION_EXECUTE_CB \<Rightarrow>
          run [esq_session_left_active_list a, set_return ESQ_OK a, goto_set PT_execute_cb a]
      | _ \<Rightarrow> INVALID_ACTION_TYPE)"

definition mco_winded_up :: handler where
  "mco_winded_up e act a =
     (let wake = (\<lambda>b. run [upd (or_event_bits b) a, esq_session_left_timing_list a,
                            esq_session_join_active_list a, set_post_op POP_NO_OP a, goto_set PT_active a]) in
      case a_type act of
        ACTION_NOTIFY_EVENT \<Rightarrow> wake (a_notify_event_bits act)
      | ACTION_NOTIFY_EXIT \<Rightarrow> wake ESQ_EVENT_BIT_EXIT
      | ACTION_NOTIFY_TIMEOUT \<Rightarrow> wake ESQ_EVENT_BIT_TIMEOUT
      | _ \<Rightarrow> INVALID_ACTION_TYPE)"

definition mco_execute_cb :: handler where
  "mco_execute_cb e act a w =
     bindE (sess a w) (\<lambda>s.
     case a_type act of
       ACTION_WIND_UP \<Rightarrow>
         bindE (of_opt (mco s)) (\<lambda>m.
         if mco_is_end e m then upd (\<lambda>s. s\<lparr>mco := None, post_op := POP_FREE_SESSION\<rparr>) a w
         else if event_bits2 s \<noteq> 0 then
           run [upd (\<lambda>s. s\<lparr>event_bits := event_bits2 s, event_bits2 := 0\<rparr>) a,
                esq_session_join_active_list a, goto_set PT_active a] w
         else INVALID_ACTION_TYPE w)
     | ACTION_ADD_SOCK_FD_SINGLE \<Rightarrow>
         let (r, w) = (if FD_NEED_INSTALL (a_fd act)
                       then esq_os_events_add_socket_fd (a_fd act) a (exp_event_bits s) w
                       else (ESQ_OK, w)) in
         if r \<noteq> 0 then run [set_return r a, goto_set PT_execute_cb a] w
         else
           run [upd (\<lambda>s. s\<lparr>fd := a_fd act\<rparr>) a, esq_session_join_timing_list e a, esq_update_polling_interval,
                set_return ESQ_OK a, goto_set PT_execute_cb_installed_socket_fd a] w
     | ACTION_NOTIFY_EXIT \<Rightarrow>
         run [upd (or_event_bits2 ESQ_EVENT_BIT_EXIT) a, set_post_op POP_NO_OP a, goto_set PT_execute_cb a] w
     | ACTION_NOTIFY_EVENT \<Rightarrow>
         run [upd (or_event_bits2 (a_notify_event_bits act)) a, set_post_op POP_NO_OP a, goto_set PT_execute_cb a] w
     | _ \<Rightarrow> INVALID_ACTION_TYPE w)"

definition mco_execute_cb_installed :: handler where
  "mco_execute_cb_installed e act a w =
     bindE (sess a w) (\<lambda>s.
     let leave = (\<lambda>b. run [upd (or_event_bits2 b) a, esq_session_left_timing_list a, set_post_op POP_NO_OP a,
                            goto_set PT_execute_cb_installed_socket_fd a]) in
     case a_type act of
       ACTION_WIND_UP \<Rightarrow>
         bindE (of_opt (mco s)) (\<lambda>m.
         if mco_is_end e m then INVALID_ACTION_TYPE w
         else if event_bits2 s \<noteq> 0 then
           run [upd (\<lambda>s. s\<lparr>event_bits := event_bits2 s, event_bits2 := 0\<rparr>) a,
                esq_session_join_active_list a, set_post_op POP_NO_OP a, goto_set PT_active a] w
         else run [set_post_op POP_NO_OP a, goto_set PT_winded_up a] w)
     | ACTION_REMOVE_FD \<Rightarrow>
         let w = (if FD_NEED_INSTALL (fd s) then snd (esq_os_events_remove_socket_fd a w) else w) in
         run [esq_session_left_timing_list a, upd (\<lambda>s. s\<lparr>post_op := POP_NO_OP, fd := 0\<rparr>) a,
              goto_set PT_execute_cb a] w
     | ACTION_NOTIFY_EXIT \<Rightarrow> leave ESQ_EVENT_BIT_EXIT w
     | ACTION_NOTIFY_EVENT \<Rightarrow> leave (a_notify_event_bits act) w
     | ACTION_NOTIFY_TIMEOUT \<Rightarrow> leave ESQ_EVENT_BIT_TIMEOUT w
     | _ \<Rightarrow> INVALID_ACTION_TYPE w)"

definition esq_pt_of_mco :: handler where
  "esq_pt_of_mco e act a w =
     bindE (sess a w) (\<lambda>s.
     (case lc s of
        PT_START \<Rightarrow> mco_start e act a
      | PT_active \<Rightarrow> mco_active e act a
      | PT_winded_up \<Rightarrow> mco_winded_up e act a
      | PT_execute_cb \<Rightarrow> mco_execute_cb e act a
      | PT_execute_cb_installed_socket_fd \<Rightarrow> mco_execute_cb_installed e act a
      | _ \<Rightarrow> Inr) w)"

section \<open>Hash locks\<close>

text \<open>\<^verbatim>\<open>hash_lock_idx\<close> and \<^verbatim>\<open>hash_lock_state\<close> are short integers.\<close>

definition to_int16 :: "int \<Rightarrow> int" where
  "to_int16 x = sint (word_of_int x :: 16 word)"

definition hl_start :: handler where
  "hl_start e act a =
     run [upd (\<lambda>s. s\<lparr>fd := a_fd act, timeouts := a_timeouts act, timeoutms := a_timeoutms act,
            user_param := a_user_param act, cb := a_cb act, event_bits := 0,
            hash_lock_idx := to_int16 (a_hash_lock_idx act),
            hash_lock_state := (if a_type act = ACTION_HASH_LOCK_READ then ESQ_SESSION_HASH_LOCK_READ
                                else ESQ_SESSION_HASH_LOCK_WRITE),
            post_op := POP_NO_OP\<rparr>) a,
          goto_set PT_initial a]"

definition hl_try_fetch_hash_lock :: handler where
  "hl_try_fetch_hash_lock e act a w =
     bindE (esq_try_fetch_hash_lock e a w) (\<lambda>(r, w).
     let activate = (\<lambda>b. run [upd (or_event_bits b) a, esq_session_join_active_list a,
                               set_post_op POP_NO_OP a, goto_set PT_active a]) in
     if r = ESQ_ERROR_BUSY then
       bindE (sess a w) (\<lambda>s.
       if 0 < timeouts s then
         run [esq_session_join_timing_list e a, esq_update_polling_interval, set_post_op POP_NO_OP a,
              goto_set PT_winded_up a] w
       else activate ESQ_EVENT_BIT_TIMEOUT w)
     else if r = ESQ_OK then activate ESQ_EVENT_BIT_LOCK_OBTAIN w
     else activate ESQ_EVENT_BIT_ERROR w)"

definition hl_wait_for_cpu :: handler where
  "hl_wait_for_cpu e act a w =
     (if a_type act = ACTION_PICK_UP then hl_try_fetch_hash_lock e act a w else INVALID_ACTION_TYPE w)"

definition hl_winded_up :: handler where
  "hl_winded_up e act a =
     (case a_type act of
        ACTION_NOTIFY_EVENT \<Rightarrow>
          run [upd (or_event_bits (a_notify_event_bits act)) a, esq_session_left_timing_list a,
               esq_session_join_active_list a, set_post_op POP_NO_OP a, goto_set PT_active a]
      | ACTION_NOTIFY_TIMEOUT \<Rightarrow>
          run [upd (or_event_bits ESQ_EVENT_BIT_TIMEOUT) a, set_post_op POP_NO_OP a, goto_set PT_active a]
      | ACTION_NOTIFY_EXIT \<Rightarrow>
          run [upd (or_event_bits ESQ_EVENT_BIT_EXIT) a, set_post_op POP_NO_OP a, goto_set PT_active a]
      | _ \<Rightarrow> INVALID_ACTION_TYPE)"

definition hl_execute_cb :: handler where
  "hl_execute_cb e act a =
     (case a_type act of
        ACTION_WIND_UP \<Rightarrow> run [set_post_op POP_FREE_SESSION a, goto_set PT_die a]
      | ACTION_ADD_SOCK_FD_MULTI \<Rightarrow> switch_type ESQ_SESSION_TYPE_MULTI_SOCKET_CB a
      | ACTION_ADD_CHILD \<Rightarrow>
          run [add_child (a_user_param act) a, set_post_op POP_NO_OP a, goto_set PT_execute_cb a]
      | ACTION_ADD_SOCK_FD_SINGLE \<Rightarrow> switch_type ESQ_SESSION_TYPE_SOCKET_CB a
      | ACTION_NOTIFY_EXIT \<Rightarrow>
          run [upd (or_event_bits ESQ_EVENT_BIT_EXIT) a, set_post_op POP_NO_OP a, goto_set PT_execute_cb a]
      | ACTION_NOTIFY_EVENT \<Rightarrow>
          run [upd (or_event_bits (a_notify_event_bits act)) a, set_post_op POP_NO_OP a, goto_set PT_execute_cb a]
      | ACTION_HASH_LOCK_WRITE \<Rightarrow> switch_type ESQ_SESSION_TYPE_WAIT_FOR_HASH_LOCK a
      | ACTION_HASH_LOCK_READ \<Rightarrow>
          upd (\<lambda>s. s\<lparr>session_type := ESQ_SESSION_TYPE_WAIT_FOR_HASH_LOCK,
                 post_op := ESQ_SESSION_TYPE_WAIT_FOR_HASH_LOCK\<rparr>) a
      | _ \<Rightarrow> INVALID_ACTION_TYPE)"

definition esq_pt_of_hash_lock :: handler where
  "esq_pt_of_hash_lock e act a w =
     bindE (sess a w) (\<lambda>s.
     (case lc s of
        PT_START \<Rightarrow> hl_start e act a
      | PT_initial \<Rightarrow> pt_initial e act a
      | PT_wait_for_cpu \<Rightarrow> hl_wait_for_cpu e act a
      | PT_winded_up \<Rightarrow> hl_winded_up e act a
      | PT_active \<Rightarrow> pt_active e act a
      | PT_execute_cb \<Rightarrow> hl_execute_cb e act a
      | PT_die \<Rightarrow> INVALID_ACTION_TYPE
      | _ \<Rightarrow> Inr) w)"

end
