(* ===== verification/Esq_Chassis.thy ===== *)
theory Esq_Chassis
  imports Esq_Pt
begin

text \<open>
  \<^verbatim>\<open>session/chassis.c\<close>, which runs the state machine of a session's type on an action and then carries out
  the operation the machine asked for, and \<^verbatim>\<open>session/action.c\<close>, the functions that build the actions.

  The loop of \<^verbatim>\<open>__esq_session_take_action\<close> over type switches and its call for the parent session share one
  fuel argument.  The interface functions start with \<open>TAKE_ACTION_FUEL\<close>, which the theorems of
  \<^verbatim>\<open>Esq_Action\<close> show to be enough.
\<close>

section \<open>Child sessions\<close>

definition call_session_done_cb :: "addr \<Rightarrow> world \<Rightarrow> world res" where
  "call_session_done_cb a w =
     bindE (sess a w) (\<lambda>s.
     Inr (case session_done_cb s of None \<Rightarrow> w | Some f \<Rightarrow> w\<lparr>done_calls := done_calls w @ [(f, a)]\<rparr>))"

fun unhook_children :: "nat \<Rightarrow> addr option \<Rightarrow> world \<Rightarrow> world res" where
  "unhook_children n None w = Inr w"
| "unhook_children 0 (Some p) w = Inl Fuel"
| "unhook_children (Suc n) (Some p) w =
     bindE (sess p w) (\<lambda>s.
     bindE (upd (\<lambda>s. s\<lparr>next_child := None, parent_session := None\<rparr>) p w) (\<lambda>w.
     unhook_children n (next_child s) w))"

fun free_finished_children :: "nat \<Rightarrow> addr option \<Rightarrow> world \<Rightarrow> world res" where
  "free_finished_children n None w = Inr w"
| "free_finished_children 0 (Some p) w = Inl Fuel"
| "free_finished_children (Suc n) (Some p) w =
     bindE (sess p w) (\<lambda>s.
     bindE (run [upd (\<lambda>s. s\<lparr>parent_session := None\<rparr>) p, call_session_done_cb p, free_session p] w) (\<lambda>w.
     free_finished_children n (next_child s) w))"

definition esq_unhook_child_session :: "env \<Rightarrow> addr \<Rightarrow> world \<Rightarrow> world res" where
  "esq_unhook_child_session e a w =
     bindE (sess a w) (\<lambda>s.
     bindE (unhook_children (loop_fuel e) (child_session_list s) w) (\<lambda>w.
     bindE (sess a w) (\<lambda>s.
     run [free_finished_children (loop_fuel e) (finished_child_session_list s),
          upd (\<lambda>s. s\<lparr>child_session_list := None, finished_child_session_list := None\<rparr>) a] w)))"

fun find_child :: "nat \<Rightarrow> addr \<Rightarrow> addr option \<Rightarrow> addr option \<Rightarrow> world \<Rightarrow> addr option res" where
  "find_child n a pp None w = Inl Exit"
| "find_child 0 a pp (Some p) w = Inl Fuel"
| "find_child (Suc n) a pp (Some p) w =
     (if p = a then Inr pp
      else bindE (sess p w) (\<lambda>s. find_child n a (Some p) (next_child s) w))"

definition esq_move_child_session_into_finish_list :: "env \<Rightarrow> addr \<Rightarrow> addr \<Rightarrow> world \<Rightarrow> world res" where
  "esq_move_child_session_into_finish_list e parent a w =
     bindE (sess parent w) (\<lambda>ps.
     bindE (find_child (loop_fuel e) a None (child_session_list ps) w) (\<lambda>pp.
     bindE (sess a w) (\<lambda>s.
     bindE (case pp of
              Some q \<Rightarrow> upd (\<lambda>t. t\<lparr>next_child := next_child s\<rparr>) q w
            | None \<Rightarrow> upd (\<lambda>t. t\<lparr>child_session_list := next_child s\<rparr>) parent w) (\<lambda>w.
     bindE (sess parent w) (\<lambda>ps.
     run [upd (\<lambda>s. s\<lparr>next_child := finished_child_session_list ps\<rparr>) a,
          upd (\<lambda>t. t\<lparr>finished_child_session_list := Some a\<rparr>) parent] w)))))"

section \<open>Taking an action\<close>

definition pt_of_type :: "byte \<Rightarrow> handler option" where
  "pt_of_type t =
     (if t = ESQ_SESSION_TYPE_NEW then Some esq_pt_of_no_fd
      else if t = ESQ_SESSION_TYPE_SOCKET_CB then Some esq_pt_of_single_shot_socket
      else if t = ESQ_SESSION_TYPE_MULTI_SOCKET_CB then Some esq_pt_of_multi_shot_socket
      else if t = ESQ_SESSION_TYPE_MCO then Some esq_pt_of_mco
      else if t = ESQ_SESSION_TYPE_NO_FD then Some esq_pt_of_no_fd
      else if t = ESQ_SESSION_TYPE_WAIT_FOR_HASH_LOCK then Some esq_pt_of_hash_lock
      else None)"

definition notify_action :: "env \<Rightarrow> u32 \<Rightarrow> esq_session_pt_action_t" where
  "notify_action e b = (junk e)\<lparr>a_type := ACTION_NOTIFY_EVENT, a_notify_event_bits := b\<rparr>"

fun esq_session_take_action ::
  "nat \<Rightarrow> env \<Rightarrow> esq_session_pt_action_t \<Rightarrow> addr option \<Rightarrow> world \<Rightarrow> (int \<times> world) res" where
  "esq_session_take_action n e act None w = Inr (ESQ_ERROR_PARAM, w)"
| "esq_session_take_action 0 e act (Some a) w = Inl Fuel"
| "esq_session_take_action (Suc n) e act (Some a) w =
     bindE (sess a w) (\<lambda>s.
     if \<not> ESQ_CHECK_SESSION s then Inr (ESQ_ERROR_PARAM, w)
     else case pt_of_type (session_type s) of
       None \<Rightarrow> Inl Exit
     | Some pt \<Rightarrow>
         bindE (run [set_post_op POP_NO_OP a, pt e act a] w) (\<lambda>w.
         bindE (sess a w) (\<lambda>s.
         if POP_JOIN_GLOBAL_NEW_LIST AND post_op s \<noteq> 0 then
           bindE (esq_join_global_new_list a w) (\<lambda>w. Inr (ESQ_OK, w))
         else if POP_JOIN_LOCAL_NEW_LIST AND post_op s \<noteq> 0 then
           bindE (esq_join_local_new_list a w) (\<lambda>w. Inr (ESQ_OK, w))
         else if POP_FREE_SESSION AND post_op s \<noteq> 0 then
           bindE (esq_unhook_child_session e a w) (\<lambda>w.
           bindE (sess a w) (\<lambda>s.
           if have_parent_session s then
             case parent_session s of
               Some p \<Rightarrow>
                 bindE (esq_move_child_session_into_finish_list e p a w) (\<lambda>w.
                 bindE (esq_session_take_action n e (notify_action e ESQ_EVENT_BIT_TASK_DONE) (Some p) w) (\<lambda>(r, w).
                 Inr (ESQ_OK, w)))
             | None \<Rightarrow> bindE (run [call_session_done_cb a, free_session a] w) (\<lambda>w. Inr (ESQ_OK, w))
           else bindE (free_session a w) (\<lambda>w. Inr (ESQ_OK, w))))
         else if POP_SWITCH_SESSION_TYPE AND post_op s \<noteq> 0 then
           bindE (goto_set PT_START a w) (\<lambda>w. esq_session_take_action n e act (Some a) w)
         else if POP_RETURN_VALUE AND post_op s \<noteq> 0 then Inr (retval s, w)
         else Inr (ESQ_OK, w))))"

declare esq_session_take_action.simps [simp del]

definition TAKE_ACTION_FUEL :: nat where "TAKE_ACTION_FUEL = 3"

definition take_action :: "env \<Rightarrow> esq_session_pt_action_t \<Rightarrow> addr option \<Rightarrow> world \<Rightarrow> (int \<times> world) res" where
  "take_action e = esq_session_take_action TAKE_ACTION_FUEL e"

section \<open>Actions\<close>

text \<open>Functions without a result drop it.\<close>

definition drop_result :: "(int \<times> world) res \<Rightarrow> world res" where
  "drop_result x = bindE x (\<lambda>(r, w). Inr w)"

definition nonnull :: "addr option \<Rightarrow> 'b res \<Rightarrow> 'b res" where
  "nonnull p x = (case p of None \<Rightarrow> Inl Exit | Some _ \<Rightarrow> x)"

definition esq_session_set_socket_fd :: "env \<Rightarrow> addr option \<Rightarrow> int \<Rightarrow> nat option \<Rightarrow> u32 \<Rightarrow> int \<Rightarrow> int \<Rightarrow> nat option \<Rightarrow>
    world \<Rightarrow> (int \<times> world) res" where
  "esq_session_set_socket_fd e p f c bits ts tms param w =
     (case p of
        None \<Rightarrow> Inl Exit
      | Some a \<Rightarrow>
          bindE (if c \<noteq> None then Inr () else bindE (sess a w) (\<lambda>s. if mco s \<noteq> None then Inr () else Inl Exit)) (\<lambda>_.
          take_action e ((junk e)\<lparr>a_type := ACTION_ADD_SOCK_FD_SINGLE, a_fd := f, a_timeouts := ts, a_timeoutms := tms,
            a_user_param := param, a_exp_event_bits := bits, a_cb := c\<rparr>) p w))"

definition esq_session_set_socket_fd_multi :: "env \<Rightarrow> addr option \<Rightarrow> int \<Rightarrow> nat option \<Rightarrow> nat option \<Rightarrow>
    world \<Rightarrow> (int \<times> world) res" where
  "esq_session_set_socket_fd_multi e p f c param w =
     (if p = None \<or> c = None then Inl Exit
      else take_action e ((junk e)\<lparr>a_type := ACTION_ADD_SOCK_FD_MULTI, a_fd := f, a_timeouts := 0, a_timeoutms := 0,
        a_user_param := param, a_exp_event_bits := ESQ_EVENT_BIT_READ OR ESQ_EVENT_BIT_WRITE, a_cb := c\<rparr>) p w)"

definition esq_session_bundle_child :: "env \<Rightarrow> addr option \<Rightarrow> addr option \<Rightarrow> nat option \<Rightarrow> world \<Rightarrow> (int \<times> world) res" where
  "esq_session_bundle_child e parent child f w =
     (case (parent, child) of
        (Some p, Some c) \<Rightarrow>
          bindE (sess p w) (\<lambda>ps.
          if \<not> ESQ_CHECK_SESSION ps then Inr (ESQ_ERROR_PARAM, w)
          else bindE (sess c w) (\<lambda>cs.
          if \<not> ESQ_CHECK_SESSION cs then Inr (ESQ_ERROR_PARAM, w)
          else
            let act = (junk e)\<lparr>a_type := ACTION_SET_PARENT, a_user_param := parent, a_cb := f\<rparr> in
            bindE (take_action e act child w) (\<lambda>(r, w).
            if r \<noteq> 0 then Inr (r, w)
            else bindE (take_action e (act\<lparr>a_type := ACTION_ADD_CHILD, a_user_param := child\<rparr>) parent w) (\<lambda>(r, w).
              if r \<noteq> 0 then Inr (r, w) else Inr (ESQ_OK, w)))))
      | _ \<Rightarrow> Inl Exit)"

definition simple_action :: "env \<Rightarrow> esq_session_action_type_e \<Rightarrow> esq_session_pt_action_t" where
  "simple_action e t = (junk e)\<lparr>a_type := t\<rparr>"

definition esq_session_remove_req :: "env \<Rightarrow> addr option \<Rightarrow> world \<Rightarrow> world res" where
  "esq_session_remove_req e p w = nonnull p (drop_result (take_action e (simple_action e ACTION_REMOVE_FD) p w))"

definition esq_session_check_for_executing :: "env \<Rightarrow> addr option \<Rightarrow> world \<Rightarrow> (int \<times> world) res" where
  "esq_session_check_for_executing e p w = take_action e (simple_action e ACTION_EXECUTE_CB) p w"

definition esq_session_wind_up :: "env \<Rightarrow> addr option \<Rightarrow> world \<Rightarrow> world res" where
  "esq_session_wind_up e p w = nonnull p (drop_result (take_action e (simple_action e ACTION_WIND_UP) p w))"

definition esq_session_wind_up_rr :: "env \<Rightarrow> addr option \<Rightarrow> world \<Rightarrow> world res" where
  "esq_session_wind_up_rr e p w = nonnull p (drop_result (take_action e (simple_action e ACTION_WIND_UP_RR) p w))"

definition esq_session_pick_up :: "env \<Rightarrow> addr option \<Rightarrow> world \<Rightarrow> world res" where
  "esq_session_pick_up e p w = nonnull p (drop_result (take_action e (simple_action e ACTION_PICK_UP) p w))"

definition esq_notify_event_to_session :: "env \<Rightarrow> addr option \<Rightarrow> u32 \<Rightarrow> world \<Rightarrow> world res" where
  "esq_notify_event_to_session e p b w = nonnull p (drop_result (take_action e (notify_action e b) p w))"

definition esq_hash_lock_read :: "env \<Rightarrow> addr option \<Rightarrow> int \<Rightarrow> nat option \<Rightarrow> nat option \<Rightarrow> int \<Rightarrow> world \<Rightarrow> world res" where
  "esq_hash_lock_read e p idx c param ts w =
     nonnull p (if ts < -1 then Inl Exit
       else drop_result (take_action e ((junk e)\<lparr>a_timeouts := ts, a_type := ACTION_HASH_LOCK_READ,
         a_user_param := param, a_cb := c, a_hash_lock_idx := idx\<rparr>) p w))"

definition esq_hash_lock_write :: "env \<Rightarrow> addr option \<Rightarrow> int \<Rightarrow> nat option \<Rightarrow> nat option \<Rightarrow> int \<Rightarrow> world \<Rightarrow> world res" where
  "esq_hash_lock_write e p idx c param ts w =
     nonnull p (if ts < -1 then Inl Exit
       else drop_result (take_action e ((junk e)\<lparr>a_timeouts := ts, a_timeoutms := 0, a_type := ACTION_HASH_LOCK_WRITE,
         a_user_param := param, a_cb := c, a_hash_lock_idx := idx\<rparr>) p w))"

definition esq_notify_aio_removed :: "env \<Rightarrow> addr option \<Rightarrow> world \<Rightarrow> world res" where
  "esq_notify_aio_removed e p w =
     nonnull p (drop_result (take_action e (simple_action e ACTION_NOTIFY_AIO_REMOVED) p w))"

definition esq_notify_timeout_event :: "env \<Rightarrow> addr option \<Rightarrow> world \<Rightarrow> world res" where
  "esq_notify_timeout_event e p w =
     nonnull p (drop_result (take_action e (simple_action e ACTION_NOTIFY_TIMEOUT) p w))"

definition esq_notify_exit :: "env \<Rightarrow> addr option \<Rightarrow> world \<Rightarrow> world res" where
  "esq_notify_exit e p w = drop_result (take_action e (simple_action e ACTION_NOTIFY_EXIT) p w)"

end
