(* ===== verification/Esq_Lists.thy ===== *)
theory Esq_Lists
  imports Esq_Chassis
begin

text \<open>
  The lists of a worker, refined to lists of sessions.

  \<open>absw D L w\<close> relates a state of the model to its abstraction: \<open>D\<close> is the heap of sessions without their
  link fields and \<open>L\<close> gives the members of every list, in order.  The lists are well linked, share no
  session, and hold allocated sessions only.  For every operation on the lists there is a rule that says
  what it does to \<open>D\<close> and \<open>L\<close>; \<open>safe Q x\<close> means that \<open>x\<close> neither faults nor runs out of fuel, and
  satisfies \<open>Q\<close> unless the program exited.
\<close>

section \<open>Safe results\<close>

definition safe :: "('a \<Rightarrow> bool) \<Rightarrow> 'a res \<Rightarrow> bool" where
  "safe Q x \<longleftrightarrow> (case x of Inl e \<Rightarrow> e = Exit | Inr y \<Rightarrow> Q y)"

lemma safe_simps [simp]: "safe Q (Inr y) = Q y" "safe Q (Inl Exit)" "\<not> safe Q (Inl Fault)" "\<not> safe Q (Inl Fuel)"
  by (simp_all add: safe_def)

lemma safe_bind: "safe (\<lambda>y. safe Q (f y)) x \<Longrightarrow> safe Q (bindE x f)"
  by (cases x) (auto simp: safe_def)

lemma safe_run: "safe (\<lambda>w. safe Q (run fs w)) (f w) \<Longrightarrow> safe Q (run (f # fs) w)"
  by (simp add: safe_bind)

lemma safe_mono: "safe Q x \<Longrightarrow> (\<And>y. Q y \<Longrightarrow> R y) \<Longrightarrow> safe R x"
  by (auto simp: safe_def split: sum.splits)

lemma safe_Inr: "\<exists>y. x = Inr y \<and> Q y \<Longrightarrow> safe Q x"
  by auto

section \<open>Abstraction\<close>

definition strip :: "esq_session_t \<Rightarrow> esq_session_t" where
  "strip s = s\<lparr>nxt := None, prv := None\<rparr>"

interpretation sl: link_fields prev_f next_f strip
  by unfold_locales (simp_all add: prev_f_def next_f_def strip_def)

definition list_inv :: "list_id \<Rightarrow> (addr, esq_session_t) heap \<Rightarrow> addr ll \<Rightarrow> addr list \<Rightarrow> bool" where
  "list_inv l h q xs \<longleftrightarrow>
     (if l = L_global \<or> l = L_new then sll next_f h q xs else dll prev_f next_f h q xs)"

definition lists_ok :: "(list_id \<Rightarrow> addr list) \<Rightarrow> world \<Rightarrow> bool" where
  "lists_ok L w \<longleftrightarrow>
     (\<forall>l. list_inv l (heap w) (lists w l) (L l)) \<and> (\<forall>l m. l \<noteq> m \<longrightarrow> set (L l) \<inter> set (L m) = {})"

definition absw :: "(addr \<Rightarrow> esq_session_t option) \<Rightarrow> (list_id \<Rightarrow> addr list) \<Rightarrow> world \<Rightarrow> bool" where
  "absw D L w \<longleftrightarrow> D = (\<lambda>a. map_option strip (heap w a)) \<and> lists_ok L w"

definition nowhere :: "addr \<Rightarrow> (list_id \<Rightarrow> addr list) \<Rightarrow> bool" where
  "nowhere a L \<longleftrightarrow> (\<forall>l. a \<notin> set (L l))"

text \<open>A change of a session that has nothing to do with its links.\<close>

definition neutral :: "(esq_session_t \<Rightarrow> esq_session_t) \<Rightarrow> bool" where
  "neutral f \<longleftrightarrow> (\<forall>s. strip (f s) = f (strip s) \<and> nxt (f s) = nxt s \<and> prv (f s) = prv s)"

lemma list_inv_frame: "\<forall>x \<in> set xs. h' x = h x \<Longrightarrow> list_inv l h' q xs = list_inv l h q xs"
  unfolding list_inv_def using dll_frame [of xs h' h] sll_frame [of xs h' h] by metis

lemma list_inv_alloc: "list_inv l h q xs \<Longrightarrow> x \<in> set xs \<Longrightarrow> h x \<noteq> None"
  unfolding list_inv_def using dll_alloc sll_alloc by (metis (full_types))

lemma list_inv_distinct: "list_inv l h q xs \<Longrightarrow> distinct xs"
  by (simp add: list_inv_def dll_def sll_def split: if_splits)

lemma absw_distinct: "absw D L w \<Longrightarrow> distinct (L l)"
  unfolding absw_def lists_ok_def using list_inv_distinct by blast

lemma absw_disjoint: "absw D L w \<Longrightarrow> l \<noteq> m \<Longrightarrow> a \<in> set (L l) \<Longrightarrow> a \<notin> set (L m)"
  by (auto simp: absw_def lists_ok_def)

lemma absw_alloc:
  assumes "absw D L w" "a \<in> set (L l)"
  shows "D a \<noteq> None"
proof -
  have "list_inv l (heap w) (lists w l) (L l)" using assms(1) by (simp add: absw_def lists_ok_def)
  then show ?thesis using list_inv_alloc [OF _ assms(2)] assms(1) by (auto simp: absw_def)
qed

lemma absw_head: "absw D L w \<Longrightarrow> head (lists w l) = first (L l) None"
  by (auto simp: absw_def lists_ok_def list_inv_def dll_def sll_def ends_def split: if_splits dest!: spec [of _ l])

lemma absw_sess: "absw D L w \<Longrightarrow> D a = Some s \<Longrightarrow> \<exists>n p. sess a w = Inr (s\<lparr>nxt := n, prv := p\<rparr>)"
proof -
  assume "absw D L w" "D a = Some s"
  then obtain t where "heap w a = Some t" "strip t = s" by (auto simp: absw_def)
  then have "sess a w = Inr (s\<lparr>nxt := nxt t, prv := prv t\<rparr>)" by (auto simp: sess_def strip_def)
  then show ?thesis by blast
qed

lemma absw_None: "absw D L w \<Longrightarrow> heap w a = None \<longleftrightarrow> D a = None"
  by (auto simp: absw_def)

lemma absw_strip: "absw D L w \<Longrightarrow> D a = Some s \<Longrightarrow> strip s = s"
  by (auto simp: absw_def strip_def)

section \<open>Changes of one list\<close>

text \<open>Link operations that touch one list and one session outside all lists keep the others.\<close>

lemma absw_change:
  assumes "absw D L w" "touches strip (insert a (set (L l))) (heap w) h'" "\<forall>m. m \<noteq> l \<longrightarrow> a \<notin> set (L m)"
    and "list_inv l h' q xs" "set xs \<subseteq> insert a (set (L l))"
  shows "absw D (L(l := xs)) (w\<lparr>lists := (lists w)(l := q), heap := h'\<rparr>)"
proof -
  have D: "D = (\<lambda>b. map_option strip (h' b))"
    using assms(1,2) by (simp add: absw_def touches_def same_data_def)
  have "list_inv m h' (lists w m) (L m)" if "m \<noteq> l" for m
  proof -
    have "\<forall>x \<in> set (L m). h' x = heap w x"
      using assms(2,3) that absw_disjoint [OF assms(1)] unfolding touches_def by (metis insertE)
    from list_inv_frame [OF this] show ?thesis using assms(1) by (simp add: absw_def lists_ok_def)
  qed
  moreover have "set xs \<inter> set (L m) = {}" if "m \<noteq> l" for m
    using assms(1,3,5) that by (force simp: absw_def lists_ok_def)
  moreover have "set (L m) \<inter> set (L k) = {}" if "m \<noteq> k" for m k
    using assms(1) that by (simp add: absw_def lists_ok_def)
  ultimately show ?thesis using D assms(4) by (auto simp: absw_def lists_ok_def)
qed

lemma on_list_dll:
  assumes "absw D L w" "l \<notin> {L_global, L_new}" "\<forall>m. m \<noteq> l \<longrightarrow> a \<notin> set (L m)"
    and "\<And>h q. h = heap w \<Longrightarrow> dll prev_f next_f h q (L l) \<Longrightarrow>
      \<exists>q' h'. f q h = Inr (q', h') \<and> dll prev_f next_f h' q' xs \<and> touches strip (insert a (set (L l))) h h'"
    and "set xs \<subseteq> insert a (set (L l))" "\<And>w'. absw D (L(l := xs)) w' \<Longrightarrow> Q w'"
  shows "safe Q (on_list l f w)"
proof -
  have "dll prev_f next_f (heap w) (lists w l) (L l)"
    using assms(1,2) by (auto simp: absw_def lists_ok_def list_inv_def dest!: spec [of _ l])
  from assms(4) [OF refl this] obtain q' h' where *: "f (lists w l) (heap w) = Inr (q', h')"
    "dll prev_f next_f h' q' xs" "touches strip (insert a (set (L l))) (heap w) h'" by blast
  then have "absw D (L(l := xs)) (w\<lparr>lists := (lists w)(l := q'), heap := h'\<rparr>)"
    using absw_change [OF assms(1) *(3) assms(3), of q' xs] assms(2,5) by (simp add: list_inv_def)
  then show ?thesis using *(1) assms(6) by (simp add: on_list_def)
qed

lemma touches_mono: "touches d A h h' \<Longrightarrow> A \<subseteq> B \<Longrightarrow> touches d B h h'"
  by (auto simp: touches_def)

lemma timing_list_not_new [simp]: "timing_list s \<noteq> L_global" "timing_list s \<noteq> L_new" "timing_list s \<noteq> L_active"
  by (simp_all add: timing_list_def)

lemma join_active_safe:
  assumes "absw (D(a \<mapsto> s)) L w" "nowhere a L"
    and "\<And>w'. absw (D(a \<mapsto> s)) (L(L_active := L L_active @ [a])) w' \<Longrightarrow> Q w'"
  shows "safe Q (esq_session_join_active_list a w)"
proof -
  have "heap w a \<noteq> None" using absw_None [OF assms(1), of a] by simp
  then show ?thesis unfolding esq_session_join_active_list_def
    using assms(2,3)
    by (intro on_list_dll [OF assms(1)]) (auto simp: nowhere_def intro!: sl.join_tail)
qed

lemma left_safe:
  assumes "absw D L w" "l \<notin> {L_global, L_new}" "a \<in> set (L l)"
    and "\<And>w'. absw D (L(l := removeAll a (L l))) w' \<Longrightarrow> Q w'"
  shows "safe Q (on_list l (DOUBLE_LL_LEFT prev_f next_f a) w)"
proof (rule on_list_dll [OF assms(1,2)])
  show "\<forall>m. m \<noteq> l \<longrightarrow> a \<notin> set (L m)" using absw_disjoint [OF assms(1)] assms(3) by metis
next
  fix h q assume "dll prev_f next_f h q (L l)"
  from sl.left [OF this assms(3)] show "\<exists>q' h'. DOUBLE_LL_LEFT prev_f next_f a q h = Inr (q', h') \<and>
      dll prev_f next_f h' q' (removeAll a (L l)) \<and> touches strip (insert a (set (L l))) h h'"
    using touches_mono subset_insertI by metis
qed (use assms(4) in auto)

lemma left_active_safe:
  assumes "absw (D(a \<mapsto> s)) L w" "a \<in> set (L L_active)"
    and "\<And>w'. absw (D(a \<mapsto> s)) (L(L_active := removeAll a (L L_active))) w' \<Longrightarrow> Q w'"
  shows "safe Q (esq_session_left_active_list a w)"
  unfolding esq_session_left_active_list_def using assms by (intro left_safe) auto

lemma sess_safe:
  assumes "absw (D(a \<mapsto> s)) L w" "\<And>n p. Q (s\<lparr>nxt := n, prv := p\<rparr>)"
  shows "safe Q (sess a w)"
  using absw_sess [OF assms(1), of a s] assms(2) by auto

lemma timing_list_links [simp]: "timing_list (s\<lparr>nxt := n, prv := p\<rparr>) = timing_list s"
  by (simp add: timing_list_def)

lemma left_timing_safe:
  assumes "absw (D(a \<mapsto> s)) L w" "a \<in> set (L (timing_list s))"
    and "\<And>w'. absw (D(a \<mapsto> s)) (L(timing_list s := removeAll a (L (timing_list s)))) w' \<Longrightarrow> Q w'"
  shows "safe Q (esq_session_left_timing_list a w)"
  unfolding esq_session_left_timing_list_def
  by (rule safe_bind, rule sess_safe [OF assms(1)]) (use assms in \<open>auto intro!: left_safe\<close>)

lemma upd_safe:
  assumes "absw (D(a \<mapsto> s)) L w" "neutral f" "\<And>w'. absw (D(a \<mapsto> f s)) L w' \<Longrightarrow> Q w'"
  shows "safe Q (upd f a w)"
proof -
  obtain t where t: "heap w a = Some t" "strip t = s"
  proof -
    have "(D(a \<mapsto> s)) a = map_option strip (heap w a)" using assms(1) unfolding absw_def by metis
    then have "map_option strip (heap w a) = Some s" by simp
    then show thesis using that by (auto simp: map_option_eq_Some)
  qed
  let ?w = "w\<lparr>heap := (heap w)(a \<mapsto> f t)\<rparr>"
  have D: "D(a \<mapsto> f s) = (\<lambda>b. map_option strip (heap ?w b))"
  proof
    fix x
    have "(D(a \<mapsto> s)) x = map_option strip (heap w x)" using assms(1) unfolding absw_def by metis
    then show "(D(a \<mapsto> f s)) x = map_option strip (heap ?w x)" using t assms(2) by (auto simp: neutral_def)
  qed
  have links: "links prev_f next_f (heap ?w) p xs q = links prev_f next_f (heap w) p xs q"
    "chain next_f (heap ?w) xs q = chain next_f (heap w) xs q" for p xs q
    using t(1) assms(2) by (induction xs arbitrary: p) (auto simp: prev_f_def next_f_def neutral_def)
  have "list_inv l (heap ?w) q xs = list_inv l (heap w) q xs" for l q xs
    unfolding list_inv_def dll_def sll_def links ..
  then have "lists_ok L ?w" using assms(1) by (simp add: absw_def lists_ok_def)
  then have "absw (D(a \<mapsto> f s)) L ?w" using D by (simp add: absw_def)
  then show ?thesis using t(1) assms(3) by (simp add: upd_def sess_def)
qed

lemma join_timing_safe:
  assumes "absw (D(a \<mapsto> s)) L w" "nowhere a L"
    and "\<And>x y w'. absw (D(a \<mapsto> s\<lparr>wind_up_s := x, wind_up_ms := y\<rparr>)) (L(timing_list s := a # L (timing_list s))) w'
      \<Longrightarrow> Q w'"
  shows "safe Q (esq_session_join_timing_list e a w)"
proof -
  let ?L = "L(timing_list s := a # L (timing_list s))"
  have alloc: "heap w a \<noteq> None" using absw_None [OF assms(1), of a] by simp
  have rec: "safe Q (RECORD_WIND_UP_TIME e a w')" if "absw (D(a \<mapsto> s)) ?L w'" for w'
  proof (cases "gettimeofday e")
    case None
    have "absw (D(a \<mapsto> s\<lparr>wind_up_s := wind_up_s s, wind_up_ms := wind_up_ms s\<rparr>)) ?L (w'\<lparr>esq_server_stop_flag := True\<rparr>)"
      using that by (simp add: absw_def lists_ok_def)
    then show ?thesis using None assms(3) [where x = "wind_up_s s" and y = "wind_up_ms s"] by (simp add: RECORD_WIND_UP_TIME_def)
  next
    case (Some t)
    then show ?thesis
      by (cases t) (use assms(3) in \<open>auto simp: RECORD_WIND_UP_TIME_def neutral_def strip_def intro!: upd_safe [OF that]\<close>)
  qed
  show ?thesis unfolding esq_session_join_timing_list_def
    apply (rule safe_bind, rule sess_safe [OF assms(1)], rule safe_run)
    apply (rule on_list_dll [OF assms(1), where xs = "a # L (timing_list s)" and a = a])
    using assms(2) alloc rec sl.join_head by (auto simp: nowhere_def intro: safe_bind)
qed

lemma on_list_sll:
  assumes "absw D L w" "l \<in> {L_global, L_new}" "\<forall>m. m \<noteq> l \<longrightarrow> a \<notin> set (L m)"
    and "\<And>h q. h = heap w \<Longrightarrow> sll next_f h q (L l) \<Longrightarrow>
      \<exists>q' h'. f q h = Inr (q', h') \<and> sll next_f h' q' xs \<and> touches strip (insert a (set (L l))) h h'"
    and "set xs \<subseteq> insert a (set (L l))" "\<And>w'. absw D (L(l := xs)) w' \<Longrightarrow> Q w'"
  shows "safe Q (on_list l f w)"
proof -
  have "sll next_f (heap w) (lists w l) (L l)"
    using assms(1,2) by (auto simp: absw_def lists_ok_def list_inv_def dest!: spec [of _ l])
  from assms(4) [OF refl this] obtain q' h' where *: "f (lists w l) (heap w) = Inr (q', h')"
    "sll next_f h' q' xs" "touches strip (insert a (set (L l))) (heap w) h'" by blast
  then have "absw D (L(l := xs)) (w\<lparr>lists := (lists w)(l := q'), heap := h'\<rparr>)"
    using absw_change [OF assms(1) *(3) assms(3), of q' xs] assms(2,5) by (auto simp: list_inv_def)
  then show ?thesis using *(1) assms(6) by (simp add: on_list_def)
qed

lemma join_new_list_sll:
  assumes "sll next_f h q xs" "a \<notin> set xs" "h a \<noteq> None"
  shows "\<exists>q' h'. join_new_list a q h = Inr (q', h') \<and> sll next_f h' q' (xs @ [a]) \<and>
    touches strip (insert a (set xs)) h h'"
  using assms
  by (cases xs rule: rev_cases)
    (auto simp: join_new_list_def sll_def ends_def store_def sl.laws touches_def same_data_def)

lemma pop_new_list_sll:
  assumes "sll next_f h q (a # xs)"
  shows "\<exists>q' h'. pop_new_list a q h = Inr (q', h') \<and> sll next_f h' q' xs \<and> h' = h"
  using assms by (cases xs) (auto simp: pop_new_list_def sll_def ends_def load_def)

lemma join_new_safe:
  assumes "absw (D(a \<mapsto> s)) L w" "nowhere a L" "l \<in> {L_global, L_new}"
    and "\<And>w'. absw (D(a \<mapsto> s)) (L(l := L l @ [a])) w' \<Longrightarrow> Q w'"
  shows "safe Q (on_list l (join_new_list a) w)"
proof -
  have "heap w a \<noteq> None" using absw_None [OF assms(1), of a] by simp
  then show ?thesis
    using assms(2,3,4)
    by (intro on_list_sll [OF assms(1,3), where xs = "L l @ [a]" and a = a])
      (auto simp: nowhere_def intro!: join_new_list_sll)
qed

lemma pop_new_safe:
  assumes "absw D L w" "l \<in> {L_global, L_new}" "L l = a # xs" "\<And>w'. absw D (L(l := xs)) w' \<Longrightarrow> Q w'"
  shows "safe Q (on_list l (pop_new_list a) w)"
proof (rule on_list_sll [OF assms(1,2)])
  show "\<forall>m. m \<noteq> l \<longrightarrow> a \<notin> set (L m)" using absw_disjoint [OF assms(1)] assms(3) by (metis list.set_intros(1))
next
  fix h q assume "sll next_f h q (L l)"
  then show "\<exists>q' h'. pop_new_list a q h = Inr (q', h') \<and> sll next_f h' q' xs \<and> touches strip (insert a (set (L l))) h h'"
    using pop_new_list_sll [of h q a xs] assms(3) by (auto simp: touches_def same_data_def)
qed (use assms(3,4) in auto)

lemma absw_other:
  assumes "absw D L w" "heap w' = heap w" "lists w' = lists w"
  shows "absw D L w'"
  using assms by (simp add: absw_def lists_ok_def)

lemma update_polling_safe:
  assumes "absw D L w" "\<And>w'. absw D L w' \<Longrightarrow> Q w'"
  shows "safe Q (esq_update_polling_interval w)"
  using assms(2) absw_other [OF assms(1)]
  by (simp add: esq_update_polling_interval_def esq_session_update_polling_interval_def)

lemma change_to_no_timing_safe:
  assumes "absw (D(a \<mapsto> s)) L w" "a \<in> set (L (timing_list s))"
    and "\<And>x y w' L'. \<lbrakk>absw (D(a \<mapsto> s\<lparr>timeouts := 0, timeoutms := 0, wind_up_s := x, wind_up_ms := y\<rparr>)) L' w';
         a \<in> set (L' L_no_time); 
         \<forall>l. removeAll a (L' l) = removeAll a (L l) \<and> (a \<in> set (L' l) \<longrightarrow> L' l = L l \<or> L' l = a # removeAll a (L l))\<rbrakk> \<Longrightarrow> Q w'"
  shows "safe Q (esq_session_change_to_no_timing_list e a w)"
proof -
  have nw: "nowhere a (L(timing_list s := removeAll a (L (timing_list s))))"
    using absw_disjoint [OF assms(1) _ assms(2)] by (auto simp: nowhere_def)
  have tl: "timing_list (s\<lparr>timeouts := 0, timeoutms := 0\<rparr>) = L_no_time" by (simp add: timing_list_def)
  have same: "Q w" if "timeouts s = 0 \<and> timeoutms s = 0"
    using assms(1,2) assms(3) [where x = "wind_up_s s" and y = "wind_up_ms s" and L' = L and w' = w] that
    by (cases s) (simp add: timing_list_def)
  let ?L1 = "L(timing_list s := removeAll a (L (timing_list s)))"
  let ?L2 = "?L1(L_no_time := a # ?L1 L_no_time)"
  have L2: "removeAll a (?L2 l) = removeAll a (L l) \<and> (a \<in> set (?L2 l) \<longrightarrow> ?L2 l = L l \<or> ?L2 l = a # removeAll a (L l))" for l
    using absw_disjoint [OF assms(1) _ assms(2), of l] by (cases "l = L_no_time"; cases "l = timing_list s") simp_all
  have "safe Q (run [esq_session_left_timing_list a, upd (\<lambda>s. s\<lparr>timeouts := 0, timeoutms := 0\<rparr>) a,
     esq_session_join_timing_list e a] w)"
  proof (rule safe_run, rule left_timing_safe [OF assms(1,2)], rule safe_run, erule upd_safe)
    fix w1 assume w1: "absw (D(a \<mapsto> s\<lparr>timeouts := 0, timeoutms := 0\<rparr>)) ?L1 w1"
    show "safe Q (run [esq_session_join_timing_list e a] w1)"
    proof (rule safe_run, rule join_timing_safe [OF w1 nw])
      fix x y w2
      assume "absw (D(a \<mapsto> s\<lparr>timeouts := 0, timeoutms := 0, wind_up_s := x, wind_up_ms := y\<rparr>))
          (?L1(timing_list (s\<lparr>timeouts := 0, timeoutms := 0\<rparr>) := a # ?L1 (timing_list (s\<lparr>timeouts := 0, timeoutms := 0\<rparr>)))) w2"
      from assms(3) [OF this [unfolded tl]] show "safe Q (run [] w2)" using L2 by simp
    qed
  qed (simp add: neutral_def strip_def)
  then show ?thesis unfolding esq_session_change_to_no_timing_list_def
    by (intro safe_bind sess_safe [OF assms(1)]) (use same in auto)
qed

end
