(* ===== verification/Esq_Invariant.thy ===== *)
theory Esq_Invariant
  imports Esq_Lists
begin

text \<open>
  The state machines of the socket types against the lists.

  A session belongs in the list its resume point names (\<open>places\<close>, \<open>right\<close>).  For every handler of
  \<^verbatim>\<open>pt_of_no_fd.c\<close>, \<^verbatim>\<open>pt_of_socket.c\<close> and \<^verbatim>\<open>pt_of_multi_shot_socket.c\<close> it is shown that, started in such
  a state, it neither faults nor links a session into two lists, leaves all other sessions alone, and ends
  where the requested operation (\<^verbatim>\<open>post_op\<close>) expects it (\<open>handled\<close>).
\<close>

section \<open>One session among the others\<close>

text \<open>
  \<open>cfg a D L0 s p w\<close>: in \<open>w\<close> the session at \<open>a\<close> is \<open>s\<close> and lies in list \<open>p\<close> (in none, if \<open>p\<close> is \<open>None\<close>); the
  other sessions are those of \<open>D\<close>, in the lists of \<open>L0\<close>.
\<close>

definition pos :: "addr \<Rightarrow> (list_id \<Rightarrow> addr list) \<Rightarrow> list_id option \<Rightarrow> bool" where
  "pos a L p \<longleftrightarrow> (\<forall>l. a \<in> set (L l) \<longleftrightarrow> p = Some l)"

text \<open>
  \<open>others a L L'\<close>: the lists differ in \<open>a\<close> only.  If a timing list still holds \<open>a\<close>, it is unchanged or \<open>a\<close> is
  now its first session.
\<close>

definition others :: "addr \<Rightarrow> (list_id \<Rightarrow> addr list) \<Rightarrow> (list_id \<Rightarrow> addr list) \<Rightarrow> bool" where
  "others a L L' \<longleftrightarrow> (\<forall>l. removeAll a (L' l) = removeAll a (L l) \<and>
     (a \<in> set (L' l) \<longrightarrow> L' l = L l \<or> L' l = a # removeAll a (L l) \<or> l \<in> {L_active, L_global, L_new}))"

lemma others_refl [simp]: "others a L L"
  by (simp add: others_def)

lemma others_removeAll: "others a L L' \<Longrightarrow> removeAll a (L' l) = removeAll a (L l)"
  by (simp add: others_def)

lemma others_mem: "others a L L' \<Longrightarrow> b \<noteq> a \<Longrightarrow> b \<in> set (L' l) \<longleftrightarrow> b \<in> set (L l)"
  using others_removeAll [of a L L' l] set_removeAll [of a] by (metis Diff_iff singletonD)

lemma others_upd:
  assumes "others a L0 L" "removeAll a xs = removeAll a (L l)"
    "a \<in> set xs \<Longrightarrow> xs = a # removeAll a xs \<or> l \<in> {L_active, L_global, L_new}"
  shows "others a L0 (L(l := xs))"
  unfolding others_def
proof
  fix m
  show "removeAll a ((L(l := xs)) m) = removeAll a (L0 m) \<and> (a \<in> set ((L(l := xs)) m) \<longrightarrow>
      (L(l := xs)) m = L0 m \<or> (L(l := xs)) m = a # removeAll a (L0 m) \<or> m \<in> {L_active, L_global, L_new})"
    using assms others_removeAll [OF assms(1), of m] by (cases "m = l") (auto simp: others_def)
qed

definition cfg :: "addr \<Rightarrow> (addr \<Rightarrow> esq_session_t option) \<Rightarrow> (list_id \<Rightarrow> addr list) \<Rightarrow> esq_session_t \<Rightarrow>
    list_id option \<Rightarrow> world \<Rightarrow> bool" where
  "cfg a D L0 s p w \<longleftrightarrow> (\<exists>L. absw (D(a \<mapsto> s)) L w \<and> others a L0 L \<and> pos a L p)"

lemma pos_nowhere: "pos a L None \<longleftrightarrow> nowhere a L"
  by (simp add: pos_def nowhere_def)

lemma cfgI: "absw (D(a \<mapsto> s)) L w \<Longrightarrow> pos a L p \<Longrightarrow> cfg a D L s p w"
  unfolding cfg_def using others_refl by blast

lemma cfgI2: "absw (D(a \<mapsto> s)) L w \<Longrightarrow> others a L0 L \<Longrightarrow> pos a L p \<Longrightarrow> cfg a D L0 s p w"
  unfolding cfg_def by blast

lemma cfg_upd:
  assumes "cfg a D L0 s p w" "neutral f" "\<And>w'. cfg a D L0 (f s) p w' \<Longrightarrow> Q w'"
  shows "safe Q (upd f a w)"
  using assms upd_safe [of D a s _ w f Q] unfolding cfg_def by blast

lemma cfg_sess:
  assumes "cfg a D L0 s p w" "\<And>n q. Q (s\<lparr>nxt := n, prv := q\<rparr>)"
  shows "safe Q (sess a w)"
  using assms sess_safe [of D a s _ w Q] unfolding cfg_def by blast

lemma cfg_join_active:
  assumes "cfg a D L0 s None w" "\<And>w'. cfg a D L0 s (Some L_active) w' \<Longrightarrow> Q w'"
  shows "safe Q (esq_session_join_active_list a w)"
proof -
  obtain L where L: "absw (D(a \<mapsto> s)) L w" "others a L0 L" "pos a L None" using assms(1) by (auto simp: cfg_def)
  have "others a L0 (L(L_active := L L_active @ [a]))" by (rule others_upd [OF L(2)]) simp_all
  moreover have "pos a (L(L_active := L L_active @ [a])) (Some L_active)" using L(3) by (auto simp: pos_def)
  ultimately show ?thesis using assms(2) L(1,3) by (intro join_active_safe) (auto simp: cfg_def pos_nowhere)
qed

lemma cfg_left_active:
  assumes "cfg a D L0 s (Some L_active) w" "\<And>w'. cfg a D L0 s None w' \<Longrightarrow> Q w'"
  shows "safe Q (esq_session_left_active_list a w)"
proof -
  obtain L where L: "absw (D(a \<mapsto> s)) L w" "others a L0 L" "pos a L (Some L_active)" using assms(1) by (auto simp: cfg_def)
  have "others a L0 (L(L_active := removeAll a (L L_active)))" by (rule others_upd [OF L(2)]) simp_all
  moreover have "pos a (L(L_active := removeAll a (L L_active))) None" using L(3) by (auto simp: pos_def)
  ultimately have "cfg a D L0 s None w'" if "absw (D(a \<mapsto> s)) (L(L_active := removeAll a (L L_active))) w'" for w' using cfgI2 [OF that] by blast
  then show ?thesis using assms(2) L(3) by (intro left_active_safe [OF L(1)]) (auto simp: pos_def)
qed

lemma cfg_left_timing:
  assumes "cfg a D L0 s p w" "p = Some (timing_list s)" "\<And>w'. cfg a D L0 s None w' \<Longrightarrow> Q w'"
  shows "safe Q (esq_session_left_timing_list a w)"
proof -
  let ?l = "timing_list s"
  obtain L where L: "absw (D(a \<mapsto> s)) L w" "others a L0 L" "pos a L (Some ?l)" using assms(1,2) by (auto simp: cfg_def)
  have "others a L0 (L(?l := removeAll a (L ?l)))" by (rule others_upd [OF L(2)]) simp_all
  moreover have "pos a (L(?l := removeAll a (L ?l))) None" using L(3) by (auto simp: pos_def)
  ultimately have "cfg a D L0 s None w'" if "absw (D(a \<mapsto> s)) (L(?l := removeAll a (L ?l))) w'" for w' using cfgI2 [OF that] by blast
  then show ?thesis using assms(3) L(3) by (intro left_timing_safe [OF L(1)]) (auto simp: pos_def)
qed

lemma cfg_join_timing:
  assumes "cfg a D L0 s None w"
    and "\<And>w' x y. cfg a D L0 (s\<lparr>wind_up_s := x, wind_up_ms := y\<rparr>) (Some (timing_list s)) w' \<Longrightarrow> Q w'"
  shows "safe Q (esq_session_join_timing_list e a w)"
proof -
  let ?l = "timing_list s"
  obtain L where L: "absw (D(a \<mapsto> s)) L w" "others a L0 L" "pos a L None" using assms(1) by (auto simp: cfg_def)
  have "others a L0 (L(?l := a # L ?l))" using L(3) by (intro others_upd [OF L(2)]) (simp_all add: pos_def)
  moreover have "pos a (L(?l := a # L ?l)) (Some ?l)" using L(3) by (auto simp: pos_def)
  ultimately show ?thesis using assms(2) L(1,3) by (intro join_timing_safe) (auto simp: cfg_def pos_nowhere)
qed

lemma cfg_change_timing:
  assumes "cfg a D L0 s p w" "p = Some (timing_list s)"
    and "\<And>w' x y. cfg a D L0 (s\<lparr>timeouts := 0, timeoutms := 0, wind_up_s := x, wind_up_ms := y\<rparr>) (Some L_no_time) w' \<Longrightarrow> Q w'"
  shows "safe Q (esq_session_change_to_no_timing_list e a w)"
proof -
  obtain L where L: "absw (D(a \<mapsto> s)) L w" "others a L0 L" "pos a L p" using assms(1) by (auto simp: cfg_def)
  have "others a L0 L'" if "\<forall>l. removeAll a (L' l) = removeAll a (L l) \<and> (a \<in> set (L' l) \<longrightarrow> L' l = L l \<or> L' l = a # removeAll a (L l))" for L'
    unfolding others_def using that L(2) [unfolded others_def] by metis
  moreover have "pos a L' (Some L_no_time)" if "absw D' L' w'" "a \<in> set (L' L_no_time)" for D' L' w'
    using that absw_disjoint unfolding pos_def by (metis option.inject)
  ultimately have "Q w'" if "absw (D(a \<mapsto> s\<lparr>timeouts := 0, timeoutms := 0, wind_up_s := x, wind_up_ms := y\<rparr>)) L' w'"
    "a \<in> set (L' L_no_time)" "\<forall>l. removeAll a (L' l) = removeAll a (L l) \<and> (a \<in> set (L' l) \<longrightarrow> L' l = L l \<or> L' l = a # removeAll a (L l))" for x y w' L'
    using that assms(3) cfgI2 by metis
  then show ?thesis using assms(2) L(3) by (intro change_to_no_timing_safe [OF L(1)]) (auto simp: pos_def)
qed

lemma cfg_join_new:
  assumes "cfg a D L0 s None w" "l \<in> {L_global, L_new}" "\<And>w'. cfg a D L0 s (Some l) w' \<Longrightarrow> Q w'"
  shows "safe Q (on_list l (join_new_list a) w)"
proof -
  obtain L where L: "absw (D(a \<mapsto> s)) L w" "others a L0 L" "pos a L None" using assms(1) by (auto simp: cfg_def)
  have "others a L0 (L(l := L l @ [a]))" using assms(2) by (intro others_upd [OF L(2)]) auto
  moreover have "pos a (L(l := L l @ [a])) (Some l)" using L(3) by (auto simp: pos_def)
  ultimately show ?thesis using assms(3) L(1,3)
    by (intro join_new_safe [OF L(1) _ assms(2)]) (auto simp: cfg_def pos_nowhere)
qed

lemma cfg_other: "cfg a D L0 s p w \<Longrightarrow> heap w' = heap w \<Longrightarrow> lists w' = lists w \<Longrightarrow> cfg a D L0 s p w'"
  unfolding cfg_def using absw_other by metis

lemma cfg_polling:
  assumes "cfg a D L0 s p w" "\<And>w'. cfg a D L0 s p w' \<Longrightarrow> Q w'"
  shows "safe Q (esq_update_polling_interval w)"
  using assms(2) cfg_other [OF assms(1)]
  by (simp add: esq_update_polling_interval_def esq_session_update_polling_interval_def)

section \<open>Where a session belongs\<close>

definition places :: "esq_session_t \<Rightarrow> list_id set" where
  "places s =
     (if session_type s \<in> {ESQ_SESSION_TYPE_SOCKET_CB, ESQ_SESSION_TYPE_MULTI_SOCKET_CB} then
        (case lc s of
           PT_wait_for_cpu \<Rightarrow> {L_global, L_new}
         | PT_winded_up \<Rightarrow> {timing_list s}
         | PT_wait_for_removed_then_active \<Rightarrow> {timing_list s}
         | PT_active \<Rightarrow> {L_active}
         | PT_wait_for_removed_and_wind_up \<Rightarrow> {timing_list s}
         | PT_wait_for_removed \<Rightarrow> {timing_list s}
         | PT_wait_for_wind_up \<Rightarrow> {timing_list s}
         | _ \<Rightarrow> {})
      else {})"

text \<open>The labels at which a machine can rest between two actions.\<close>

definition labels :: "esq_session_t \<Rightarrow> pt_label set" where
  "labels s =
     (if session_type s = ESQ_SESSION_TYPE_SOCKET_CB then
        {PT_initial, PT_wait_for_cpu, PT_winded_up, PT_wait_for_removed_then_active, PT_active, PT_execute_cb,
         PT_wait_for_reinstall, PT_die}
      else if session_type s = ESQ_SESSION_TYPE_MULTI_SOCKET_CB then
        {PT_initial, PT_wait_for_cpu, PT_winded_up, PT_active, PT_execute_cb, PT_wait_for_removed_and_wind_up,
         PT_wait_for_removed, PT_wait_for_wind_up, PT_die}
      else {PT_START})"

text \<open>A multi-shot session, and a session that waits for the removal of its descriptor, has no timeout.\<close>

definition settled :: "esq_session_t \<Rightarrow> bool" where
  "settled s \<longleftrightarrow> (session_type s = ESQ_SESSION_TYPE_MULTI_SOCKET_CB \<or> lc s = PT_wait_for_removed_then_active \<longrightarrow>
     timeouts s = 0 \<and> timeoutms s = 0)"

definition right :: "esq_session_t \<Rightarrow> list_id option \<Rightarrow> bool" where
  "right s p \<longleftrightarrow> lc s \<in> labels s \<and> settled s \<and> (case p of None \<Rightarrow> places s = {} | Some l \<Rightarrow> l \<in> places s)"

definition family :: "esq_session_t \<Rightarrow> bool \<times> addr option \<times> addr option \<times> addr option \<times> addr option \<times> int \<times> int" where
  "family s = (have_parent_session s, parent_session s, next_child s, child_session_list s,
     finished_child_session_list s, magic0 s, magic1 s)"

definition fresh :: "esq_session_t \<Rightarrow> bool" where
  "fresh s \<longleftrightarrow> session_type s \<in> {ESQ_SESSION_TYPE_NEW, ESQ_SESSION_TYPE_NO_FD}"

definition dead :: "esq_session_t \<Rightarrow> bool" where
  "dead s \<longleftrightarrow> lc s = PT_die \<or>
     session_type s = ESQ_SESSION_TYPE_MULTI_SOCKET_CB \<and> lc s = PT_execute_cb \<and> fd s = 0"

definition supported :: "esq_session_t \<Rightarrow> bool" where
  "supported s \<longleftrightarrow> fresh s \<or> session_type s \<in> {ESQ_SESSION_TYPE_SOCKET_CB, ESQ_SESSION_TYPE_MULTI_SOCKET_CB}"

text \<open>What a machine leaves behind, by the operation it asks for.\<close>

definition post_ok :: "esq_session_t \<Rightarrow> list_id option \<Rightarrow> bool" where
  "post_ok s p \<longleftrightarrow>
     post_op s \<in> {POP_JOIN_GLOBAL_NEW_LIST, POP_JOIN_LOCAL_NEW_LIST} \<and> places s = {L_global, L_new} \<and> p = None \<and> settled s \<or>
     post_op s = POP_FREE_SESSION \<and> places s = {} \<and> p = None \<and> settled s \<and> (dead s \<or> fresh s) \<or>
     post_op s = POP_SWITCH_SESSION_TYPE \<and> p = None \<and> \<not> fresh s \<or>
     post_op s \<in> {POP_NO_OP, POP_RETURN_VALUE} \<and> right s p"

definition handled :: "addr \<Rightarrow> (addr \<Rightarrow> esq_session_t option) \<Rightarrow> (list_id \<Rightarrow> addr list) \<Rightarrow> esq_session_t \<Rightarrow> world \<Rightarrow> bool" where
  "handled a D L s w \<longleftrightarrow>
     (\<exists>s' p. cfg a D L s' p w \<and> family s' = family s \<and> supported s' \<and>
        (dead s \<longrightarrow> dead s') \<and> (fresh s' \<longrightarrow> fresh s) \<and>
        (post_op s' = POP_SWITCH_SESSION_TYPE \<longrightarrow> \<not> dead s) \<and> post_ok s' p)"

definition entry :: "esq_session_pt_action_t \<Rightarrow> esq_session_t \<Rightarrow> list_id option \<Rightarrow> bool" where
  "entry act s p \<longleftrightarrow>
     (if lc s = PT_wait_for_cpu \<and> a_type act = ACTION_PICK_UP \<or> lc s = PT_START then p = None \<and> (lc s = PT_START \<or> settled s)
      else right s p)"

lemma handledI:
  "\<lbrakk>cfg a D L s' p w; family s' = family s \<and> supported s' \<and> (dead s \<longrightarrow> dead s') \<and> (fresh s' \<longrightarrow> fresh s) \<and>
    (post_op s' = POP_SWITCH_SESSION_TYPE \<longrightarrow> \<not> dead s) \<and> post_ok s' p\<rbrakk>
    \<Longrightarrow> handled a D L s w"
  unfolding handled_def by blast

section \<open>The single-shot machine\<close>

lemma safe_nil: "Q w \<Longrightarrow> safe Q (run [] w)"
  by simp

lemmas pt_ops = goto_set_def set_post_op_def set_return_def switch_type_def INVALID_ACTION_TYPE_def

lemmas place_defs = places_def labels_def right_def settled_def family_def fresh_def dead_def supported_def post_ok_def
  timing_list_def session_type_defs pop_defs or_event_bits_def or_event_bits2_def

lemmas neutral_defs = neutral_def strip_def or_event_bits_def or_event_bits2_def

lemma cfg_io_uring [simp]: "cfg a D L s p (w\<lparr>io_uring := x\<rparr>) = cfg a D L s p w"
  using cfg_other [of a D L s p w "w\<lparr>io_uring := x\<rparr>"] cfg_other [of a D L s p "w\<lparr>io_uring := x\<rparr>" w] by auto

lemmas os_defs = esq_os_events_add_socket_fd_def esq_os_events_add_socket_fd_multishot_def
  esq_os_events_remove_socket_fd_def esq_os_events_remove_fd_def ESQ_OK_def

text \<open>Operations on the lists, in the states in which the machines perform them.\<close>

lemma cfg_wake:
  assumes "cfg a D L s p w" "p = Some (timing_list s)" "\<And>w'. cfg a D L s (Some L_active) w' \<Longrightarrow> safe Q (run fs w')"
  shows "safe Q (run (esq_session_left_timing_list a # esq_session_join_active_list a # fs) w)"
  by (intro safe_run cfg_left_timing [OF assms(1,2)]) (auto intro!: safe_bind elim!: cfg_join_active dest: assms(3))

lemma right_timing: "right s p \<Longrightarrow> places s = {timing_list s} \<Longrightarrow> p = Some (timing_list s)"
  by (auto simp: right_def split: option.splits)

lemma right_active: "right s p \<Longrightarrow> places s = {L_active} \<Longrightarrow> p = Some L_active"
  by (auto simp: right_def split: option.splits)

lemma right_none: "right s p \<Longrightarrow> places s = {} \<Longrightarrow> p = None"
  by (auto simp: right_def split: option.splits)

lemma right_settled: "right s p \<Longrightarrow> settled s"
  by (simp add: right_def)

lemma multi_timeouts:
  assumes "settled s" "session_type s = ESQ_SESSION_TYPE_MULTI_SOCKET_CB"
  shows "timeouts s = 0" "timeoutms s = 0"
  using assms by (simp_all add: settled_def)

lemma ss_install_fd_handled:
  assumes "cfg a D L s None w" "session_type s = ESQ_SESSION_TYPE_SOCKET_CB" "lc s \<noteq> PT_die"
  shows "safe (handled a D L s) (ss_install_fd e act a w)"
proof -
  define w2 where "w2 = (if FD_NEED_INSTALL (fd s)
    then w\<lparr>io_uring := io_uring w @ [Poll_add (fd s) (event_flags (ucast (exp_event_bits s))) a]\<rparr> else w)"
  have "cfg a D L s None w2" using assms(1) by (simp add: w2_def)
  then have "safe (handled a D L s) (run [esq_session_join_timing_list e a, esq_update_polling_interval,
            set_post_op POP_NO_OP a, goto_set PT_winded_up a] w2)"
    apply (simp only: pt_ops)
    apply (rule safe_run | rule safe_nil | erule cfg_upd, simp add: neutral_defs | erule cfg_join_timing | erule cfg_polling)+
    apply (erule handledI, simp add: place_defs assms(2) [unfolded session_type_defs] assms(3))
    done
  then show ?thesis unfolding ss_install_fd_def
    by (intro safe_bind cfg_sess [OF assms(1)]) (simp add: w2_def os_defs split: if_splits)
qed

lemma ss_remove_handled:
  assumes "cfg a D L t p w" "p = Some (timing_list t)" "session_type t = ESQ_SESSION_TYPE_SOCKET_CB"
    and "session_type s = ESQ_SESSION_TYPE_SOCKET_CB" "lc s \<noteq> PT_die" "family t = family s" "post_op t = POP_NO_OP"
  shows "safe (handled a D L s) (ss_remove_fd_then_active e act a w)"
proof -
  note st = assms(3,4) [unfolded session_type_defs] assms(5) assms(6) [unfolded family_def] assms(7) [unfolded pop_defs]
  have "cfg a D L t (Some (timing_list t)) (w\<lparr>io_uring := io_uring w @ [Poll_remove a]\<rparr>)" using assms(1,2) by simp
  then have 1: "safe (handled a D L s) (run [upd (\<lambda>s. s\<lparr>fd := 0\<rparr>) a, esq_session_change_to_no_timing_list e a,
         goto_set PT_wait_for_removed_then_active a] (w\<lparr>io_uring := io_uring w @ [Poll_remove a]\<rparr>))"
    apply (simp only: pt_ops)
    apply (rule safe_run | rule safe_nil | erule cfg_upd, simp add: neutral_defs
        | erule cfg_change_timing, simp add: timing_list_def)+
    apply (erule handledI, simp add: place_defs st)
    done
  have 2: "safe (handled a D L s)
      (run [esq_session_left_timing_list a, esq_session_join_active_list a, goto_set PT_active a] w)"
    using assms(1)
    apply (simp only: pt_ops)
    apply (rule cfg_wake, assumption, simp add: assms(2))
    apply (rule safe_run | rule safe_nil | erule cfg_upd, simp add: neutral_defs)+
    apply (erule handledI, simp add: place_defs st)
    done
  show ?thesis unfolding ss_remove_fd_then_active_def
    by (intro safe_bind cfg_sess [OF assms(1)]) (use 1 2 in \<open>simp add: os_defs\<close>)
qed

lemma ss_winded_up_handled:
  assumes "cfg a D L s p w" "session_type s = ESQ_SESSION_TYPE_SOCKET_CB" "lc s = PT_winded_up" "right s p"
  shows "safe (handled a D L s) (ss_winded_up e act a w)"
proof -
  note st = assms(2) [unfolded session_type_defs] assms(3)
  have p: "p = Some (timing_list s)" using right_timing [OF assms(4)] assms(2,3) by (simp add: places_def)
  have 1: "safe (handled a D L s) (run [upd (or_event_bits b) a, esq_session_left_timing_list a,
               esq_session_join_active_list a, set_post_op POP_NO_OP a, goto_set PT_active a] w)" for b
    using assms(1)
    apply (simp only: pt_ops)
    apply (rule safe_run, erule cfg_upd, simp add: neutral_defs)
    apply (rule cfg_wake, assumption, simp add: p timing_list_def or_event_bits_def)
    apply (rule safe_run | rule safe_nil | erule cfg_upd, simp add: neutral_defs)+
    apply (erule handledI, simp add: place_defs st)
    done
  have 2: "safe (handled a D L s) (run [upd (or_event_bits b) a, set_post_op POP_NO_OP a,
               ss_remove_fd_then_active e act a] w)" for b
    using assms(1)
    apply (simp only: pt_ops)
    apply (rule safe_run, erule cfg_upd, simp add: neutral_defs)+
    apply (rule safe_run, rule safe_mono, erule ss_remove_handled)
          apply (simp_all add: p timing_list_def st or_event_bits_def session_type_defs family_def)
    done
  show ?thesis using 1 2
    by (cases "a_type act") (simp_all add: ss_winded_up_def INVALID_ACTION_TYPE_def)
qed

lemma ss_wait_for_removed_handled:
  assumes "cfg a D L s p w" "session_type s = ESQ_SESSION_TYPE_SOCKET_CB"
    "lc s = PT_wait_for_removed_then_active" "right s p"
  shows "safe (handled a D L s) (ss_wait_for_removed_then_active e act a w)"
proof -
  note st = assms(2) [unfolded session_type_defs] assms(3)
  have z: "timeouts s = 0" "timeoutms s = 0" using right_settled [OF assms(4)] assms(3) by (simp_all add: settled_def)
  have p: "p = Some (timing_list s)" using right_timing [OF assms(4)] assms(2,3) by (simp add: places_def)
  have 1: "safe (handled a D L s) (run [esq_session_left_timing_list a, esq_session_join_active_list a,
               set_post_op POP_NO_OP a, goto_set PT_active a] w)"
    using assms(1)
    apply (simp only: pt_ops)
    apply (rule cfg_wake, assumption, simp add: p)
    apply (rule safe_run | rule safe_nil | erule cfg_upd, simp add: neutral_defs)+
    apply (erule handledI, simp add: place_defs st)
    done
  have 2: "safe (handled a D L s) (run [upd (or_event_bits b) a, set_post_op POP_NO_OP a,
               goto_set PT_wait_for_removed_then_active a] w)" for b
    using assms(1)
    apply (simp only: pt_ops)
    apply (rule safe_run | rule safe_nil | erule cfg_upd, simp add: neutral_defs)+
    apply (erule handledI, simp add: p z place_defs st)
    done
  show ?thesis using 1 2
    by (cases "a_type act") (simp_all add: ss_wait_for_removed_then_active_def INVALID_ACTION_TYPE_def)
qed

text \<open>
  Handlers that only change fields of the session: the new values decide.  \<open>ms\<close> lists the changes.
\<close>

lemma upds_handled:
  assumes "cfg a D L s p w" "list_all neutral fs"
    and "\<And>t. t = foldl (\<lambda>t f. f t) s fs \<Longrightarrow>
      family t = family s \<and> supported t \<and> (dead s \<longrightarrow> dead t) \<and> (fresh t \<longrightarrow> fresh s) \<and>
      (post_op t = POP_SWITCH_SESSION_TYPE \<longrightarrow> \<not> dead s) \<and> post_ok t p"
  shows "safe (handled a D L s) (run (map (\<lambda>f. upd f a) fs) w)"
proof -
  have "safe (\<lambda>w'. cfg a D L (foldl (\<lambda>t f. f t) t fs) p w') (run (map (\<lambda>f. upd f a) fs) w)"
    if "cfg a D L t p w" "list_all neutral fs" for t w
    using that by (induction fs arbitrary: t w) (auto intro!: safe_bind elim!: cfg_upd)
  from this [OF assms(1,2)] show ?thesis by (rule safe_mono) (use assms(3) in \<open>auto intro: handledI\<close>)
qed

lemma pt_initial_handled:
  assumes "cfg a D L s p w" "session_type s = ESQ_SESSION_TYPE_SOCKET_CB" "lc s = PT_initial" "right s p"
    "a_type act \<noteq> ACTION_SET_PARENT"
  shows "safe (handled a D L s) (pt_initial e act a w)"
proof -
  note st = assms(2) [unfolded session_type_defs] assms(3)
  have p: "p = None" using right_none [OF assms(4)] assms(2,3) by (simp add: places_def)
  have "safe (handled a D L s) (run [set_post_op b a, goto_set PT_wait_for_cpu a] w)"
    if "b \<in> {POP_JOIN_GLOBAL_NEW_LIST, POP_JOIN_LOCAL_NEW_LIST}" for b
    using upds_handled [OF assms(1), of "[\<lambda>s. s\<lparr>post_op := b\<rparr>, \<lambda>s. s\<lparr>lc := PT_wait_for_cpu\<rparr>]"] that
    by (auto simp: pt_ops neutral_defs place_defs st p)
  then show ?thesis
    using assms(5) by (cases "a_type act") (simp_all add: pt_initial_def INVALID_ACTION_TYPE_def del: run.simps)
qed

lemma pt_active_handled:
  assumes "cfg a D L s p w" "session_type s = ESQ_SESSION_TYPE_SOCKET_CB" "lc s = PT_active" "right s p"
  shows "safe (handled a D L s) (pt_active e act a w)"
proof -
  note st = assms(2) [unfolded session_type_defs] assms(3)
  have p: "p = Some L_active" using right_active [OF assms(4)] assms(2,3) by (simp add: places_def)
  have 1: "safe (handled a D L s) (run [upd (or_event_bits b) a, set_post_op POP_NO_OP a] w)" for b
    using upds_handled [OF assms(1), of "[or_event_bits b, \<lambda>s. s\<lparr>post_op := POP_NO_OP\<rparr>]"]
    by (simp add: pt_ops neutral_defs place_defs st p)
  have 2: "safe (handled a D L s) (run [upd (or_event_bits b) a, set_post_op POP_NO_OP a, goto_set PT_active a] w)" for b
    using upds_handled [OF assms(1), of "[or_event_bits b, \<lambda>s. s\<lparr>post_op := POP_NO_OP\<rparr>, \<lambda>s. s\<lparr>lc := PT_active\<rparr>]"]
    by (simp add: pt_ops neutral_defs place_defs st p)
  have 3: "safe (handled a D L s) (run [esq_session_left_active_list a, set_return ESQ_OK a, goto_set PT_execute_cb a] w)"
    using assms(1)
    apply (simp only: pt_ops p)
    apply (rule safe_run, erule cfg_left_active)
    apply (rule safe_run | rule safe_nil | erule cfg_upd, simp add: neutral_defs)+
    apply (erule handledI, simp add: place_defs st)
    done
  show ?thesis using 1 2 3
    by (cases "a_type act") (simp_all add: pt_active_def INVALID_ACTION_TYPE_def del: run.simps)
qed

text \<open>The actions whose machines touch neither a lock nor another session.\<close>

definition plain :: "esq_session_pt_action_t \<Rightarrow> bool" where
  "plain act \<longleftrightarrow> a_type act \<notin> {ACTION_SET_PARENT, ACTION_ADD_CHILD, ACTION_HASH_LOCK_READ, ACTION_HASH_LOCK_WRITE}"

lemma ss_execute_cb_handled:
  assumes "cfg a D L s p w" "session_type s = ESQ_SESSION_TYPE_SOCKET_CB" "lc s = PT_execute_cb" "right s p" "plain act"
  shows "safe (handled a D L s) (ss_execute_cb e act a w)"
proof -
  note st = assms(2) [unfolded session_type_defs] assms(3)
  have p: "p = None" using right_none [OF assms(4)] assms(2,3) by (simp add: places_def)
  note u = upds_handled [OF assms(1)]
  have 1: "safe (handled a D L s) (run [set_post_op POP_FREE_SESSION a, goto_set PT_die a] w)"
    using u [of "[\<lambda>s. s\<lparr>post_op := POP_FREE_SESSION\<rparr>, \<lambda>s. s\<lparr>lc := PT_die\<rparr>]"]
    by (simp add: pt_ops neutral_defs place_defs st p)
  have 2: "safe (handled a D L s) (switch_type ESQ_SESSION_TYPE_MULTI_SOCKET_CB a w)"
    using assms(1) by (simp only: pt_ops, elim cfg_upd)
      (auto simp: neutral_defs place_defs st p elim!: handledI)
  have 3: "safe (handled a D L s) (run [upd (\<lambda>s. s\<lparr>fd := a_fd act, timeouts := a_timeouts act, timeoutms := a_timeoutms act,
                 user_param := a_user_param act, exp_event_bits := ucast (a_exp_event_bits act),
                 cb := a_cb act, post_op := POP_NO_OP\<rparr>) a, goto_set PT_wait_for_reinstall a] w)"
    using u [of "[\<lambda>s. s\<lparr>fd := a_fd act, timeouts := a_timeouts act, timeoutms := a_timeoutms act,
                 user_param := a_user_param act, exp_event_bits := ucast (a_exp_event_bits act),
                 cb := a_cb act, post_op := POP_NO_OP\<rparr>, \<lambda>s. s\<lparr>lc := PT_wait_for_reinstall\<rparr>]"]
    by (simp add: pt_ops neutral_defs place_defs st p)
  have 4: "safe (handled a D L s) (run [upd (or_event_bits b) a, set_post_op POP_NO_OP a, goto_set PT_execute_cb a] w)" for b
    using u [of "[or_event_bits b, \<lambda>s. s\<lparr>post_op := POP_NO_OP\<rparr>, \<lambda>s. s\<lparr>lc := PT_execute_cb\<rparr>]"]
    by (simp add: pt_ops neutral_defs place_defs st p)
  show ?thesis using 1 2 3 4 assms(5)
    by (cases "a_type act") (simp_all add: ss_execute_cb_def INVALID_ACTION_TYPE_def plain_def del: run.simps)
qed

lemma ss_wait_for_reinstall_handled:
  assumes "cfg a D L s p w" "session_type s = ESQ_SESSION_TYPE_SOCKET_CB" "lc s = PT_wait_for_reinstall" "right s p"
  shows "safe (handled a D L s) (ss_wait_for_reinstall e act a w)"
proof -
  note st = assms(2) [unfolded session_type_defs] assms(3)
  have p: "p = None" using right_none [OF assms(4)] assms(2,3) by (simp add: places_def)
  have 1: "safe (handled a D L s) (ss_install_fd e act a w)"
    using ss_install_fd_handled assms(1-3) p by simp
  have 2: "safe (handled a D L s) (run [upd (or_event_bits b) a, set_post_op POP_NO_OP a, goto_set PT_wait_for_reinstall a] w)" for b
    using upds_handled [OF assms(1), of "[or_event_bits b, \<lambda>s. s\<lparr>post_op := POP_NO_OP\<rparr>, \<lambda>s. s\<lparr>lc := PT_wait_for_reinstall\<rparr>]"]
    by (simp add: pt_ops neutral_defs place_defs st p)
  show ?thesis using 1 2
    by (cases "a_type act") (simp_all add: ss_wait_for_reinstall_def INVALID_ACTION_TYPE_def del: run.simps)
qed

lemma ss_start_handled:
  assumes "cfg a D L s p w" "session_type s = ESQ_SESSION_TYPE_SOCKET_CB" "lc s = PT_START" "p = None"
  shows "safe (handled a D L s) (ss_start e act a w)"
proof -
  note st = assms(2) [unfolded session_type_defs] assms(3)
  show ?thesis
    using upds_handled [OF assms(1), of "[\<lambda>s. s\<lparr>fd := a_fd act, timeouts := a_timeouts act, timeoutms := a_timeoutms act,
            user_param := a_user_param act, exp_event_bits := ucast (a_exp_event_bits act), cb := a_cb act,
            event_bits := 0, post_op := POP_NO_OP\<rparr>, \<lambda>s. s\<lparr>lc := PT_initial\<rparr>]"]
    by (simp add: ss_start_def pt_ops neutral_defs place_defs st assms(4))
qed

lemma rest_handled:
  assumes "cfg a D L s p w" "supported s" "post_op s = POP_NO_OP" "right s p"
  shows "handled a D L s w"
  using assms by (auto intro!: handledI simp: post_ok_def pop_defs)

lemma pt_single_shot_handled:
  assumes "cfg a D L s p w" "session_type s = ESQ_SESSION_TYPE_SOCKET_CB" "entry act s p" "plain act" "post_op s = POP_NO_OP"
  shows "safe (handled a D L s) (esq_pt_of_single_shot_socket e act a w)"
  unfolding esq_pt_of_single_shot_socket_def
proof (intro safe_bind cfg_sess [OF assms(1)])
  fix n q
  have rest: "handled a D L s w" if "right s p" using rest_handled [OF assms(1)] assms(2,5) that by (simp add: supported_def)
  have cpu: "safe (handled a D L s) (ss_wait_for_cpu e act a w)" if "lc s = PT_wait_for_cpu"
    using ss_install_fd_handled [of a D L s w e act] assms(1-3) that
    by (auto simp: ss_wait_for_cpu_def INVALID_ACTION_TYPE_def entry_def)
  have "a_type act \<noteq> ACTION_SET_PARENT" using assms(4) by (simp add: plain_def)
  then show "safe (handled a D L s) ((case lc (s\<lparr>nxt := n, prv := q\<rparr>) of
        PT_START \<Rightarrow> ss_start e act a
      | PT_initial \<Rightarrow> pt_initial e act a
      | PT_wait_for_cpu \<Rightarrow> ss_wait_for_cpu e act a
      | PT_winded_up \<Rightarrow> ss_winded_up e act a
      | PT_wait_for_removed_then_active \<Rightarrow> ss_wait_for_removed_then_active e act a
      | PT_active \<Rightarrow> pt_active e act a
      | PT_execute_cb \<Rightarrow> ss_execute_cb e act a
      | PT_wait_for_reinstall \<Rightarrow> ss_wait_for_reinstall e act a
      | PT_die \<Rightarrow> INVALID_ACTION_TYPE
      | _ \<Rightarrow> Inr) w)"
    using assms(3,4) rest cpu
    by (cases "lc s")
      (simp_all add: entry_def INVALID_ACTION_TYPE_def ss_start_handled [OF assms(1,2)] pt_initial_handled [OF assms(1,2)]
        ss_winded_up_handled [OF assms(1,2)] ss_wait_for_removed_handled [OF assms(1,2)]
        pt_active_handled [OF assms(1,2)] ss_execute_cb_handled [OF assms(1,2)]
        ss_wait_for_reinstall_handled [OF assms(1,2)])
qed

section \<open>The other machines\<close>

lemma pt_no_fd_handled:
  assumes "cfg a D L s p w" "fresh s" "right s p" "plain act"
  shows "safe (handled a D L s) (esq_pt_of_no_fd e act a w)"
proof -
  have p: "p = None" using right_none [OF assms(3)] assms(2) by (auto simp: places_def fresh_def session_type_defs)
  have 1: "safe (handled a D L s) (set_post_op POP_FREE_SESSION a w)"
    using assms(1-3) by (simp only: pt_ops, elim cfg_upd)
      (auto simp: neutral_defs place_defs p elim!: handledI)
  have 2: "safe (handled a D L s) (switch_type t a w)"
    if "t \<in> {ESQ_SESSION_TYPE_SOCKET_CB, ESQ_SESSION_TYPE_MULTI_SOCKET_CB}" for t
    using assms(1-3) that by (simp only: pt_ops, elim cfg_upd)
      (auto simp: neutral_defs place_defs p elim!: handledI)
  show ?thesis using 1 2 assms(4)
    by (cases "a_type act") (simp_all add: esq_pt_of_no_fd_def INVALID_ACTION_TYPE_def plain_def)
qed

lemma ms_wait_for_cpu_handled:
  assumes "cfg a D L s p w" "session_type s = ESQ_SESSION_TYPE_MULTI_SOCKET_CB" "lc s = PT_wait_for_cpu" "entry act s p"
  shows "safe (handled a D L s) (ms_wait_for_cpu e act a w)"
proof (cases "a_type act = ACTION_PICK_UP")
  case True
  then have p: "p = None" "settled s" using assms(3,4) by (simp_all add: entry_def)
  define w2 where "w2 = (if FD_NEED_INSTALL (fd s)
    then w\<lparr>io_uring := io_uring w @ [Poll_multishot (fd s) (event_flags (ucast (exp_event_bits s))) a]\<rparr> else w)"
  have "cfg a D L s None w2" using assms(1) p by (simp add: w2_def)
  then have "safe (handled a D L s) (run [esq_session_join_timing_list e a, set_post_op POP_NO_OP a,
      goto_set PT_winded_up a] w2)"
    apply (simp only: pt_ops)
    apply (rule safe_run | rule safe_nil | erule cfg_upd, simp add: neutral_defs | erule cfg_join_timing)+
    apply (erule handledI, simp add: place_defs assms(2) [unfolded session_type_defs] assms(3) multi_timeouts [OF p(2) assms(2)])
    done
  then have "safe (handled a D L s) (bindE (sess a w) (\<lambda>s.
        let (r, w) = (if FD_NEED_INSTALL (fd s)
                      then esq_os_events_add_socket_fd_multishot (fd s) a (exp_event_bits s) w
                      else (ESQ_OK, w)) in
        if r \<noteq> 0 then
          run [upd (or_event_bits ESQ_EVENT_BIT_ERROR) a, esq_session_join_active_list a,
               set_post_op POP_NO_OP a, goto_set PT_active a] w
        else
          run [esq_session_join_timing_list e a, set_post_op POP_NO_OP a, goto_set PT_winded_up a] w))"
    by (intro safe_bind cfg_sess [OF assms(1)]) (simp add: w2_def os_defs split: if_splits)
  then show ?thesis using True by (simp add: ms_wait_for_cpu_def)
qed (simp add: ms_wait_for_cpu_def INVALID_ACTION_TYPE_def)

lemma ms_winded_up_handled:
  assumes "cfg a D L s p w" "session_type s = ESQ_SESSION_TYPE_MULTI_SOCKET_CB" "lc s = PT_winded_up" "right s p"
    "post_op s = POP_NO_OP"
  shows "safe (handled a D L s) (ms_winded_up e act a w)"
proof -
  note st = assms(2) [unfolded session_type_defs] assms(3) assms(5) [unfolded pop_defs] multi_timeouts [OF right_settled [OF assms(4)] assms(2)]
  have p: "p = Some (timing_list s)" using right_timing [OF assms(4)] assms(2,3) by (simp add: places_def)
  have 1: "safe (handled a D L s) (run [upd (or_event_bits b) a, esq_session_left_timing_list a,
               esq_session_join_active_list a, set_post_op POP_NO_OP a, goto_set PT_active a] w)" for b
    using assms(1)
    apply (simp only: pt_ops)
    apply (rule safe_run, erule cfg_upd, simp add: neutral_defs)
    apply (rule cfg_wake, assumption, simp add: p timing_list_def or_event_bits_def)
    apply (rule safe_run | rule safe_nil | erule cfg_upd, simp add: neutral_defs)+
    apply (erule handledI, simp add: place_defs st)
    done
  have 2: "safe (handled a D L s) (run [upd (or_event_bits b) a, esq_session_left_timing_list a,
               esq_session_join_active_list a, goto_set PT_active a] w)" for b
    using assms(1)
    apply (simp only: pt_ops)
    apply (rule safe_run, erule cfg_upd, simp add: neutral_defs)
    apply (rule cfg_wake, assumption, simp add: p timing_list_def or_event_bits_def)
    apply (rule safe_run | rule safe_nil | erule cfg_upd, simp add: neutral_defs)+
    apply (erule handledI, simp add: place_defs st)
    done
  show ?thesis using 1 2
    by (cases "a_type act") (simp_all add: ms_winded_up_def INVALID_ACTION_TYPE_def del: run.simps)
qed

lemma ms_active_handled:
  assumes "cfg a D L s p w" "session_type s = ESQ_SESSION_TYPE_MULTI_SOCKET_CB" "lc s = PT_active" "right s p"
  shows "safe (handled a D L s) (ms_active e act a w)"
proof -
  note st = assms(2) [unfolded session_type_defs] assms(3) multi_timeouts [OF right_settled [OF assms(4)] assms(2)]
  have p: "p = Some L_active" using right_active [OF assms(4)] assms(2,3) by (simp add: places_def)
  have 1: "safe (handled a D L s) (run [upd (or_event_bits b) a, set_post_op POP_NO_OP a, goto_set PT_active a] w)" for b
    using upds_handled [OF assms(1), of "[or_event_bits b, \<lambda>s. s\<lparr>post_op := POP_NO_OP\<rparr>, \<lambda>s. s\<lparr>lc := PT_active\<rparr>]"]
    by (simp add: pt_ops neutral_defs place_defs st p)
  have 2: "safe (handled a D L s) (run [esq_session_left_active_list a, set_return ESQ_OK a,
      upd (\<lambda>s. s\<lparr>event_bits2 := 0\<rparr>) a, goto_set PT_execute_cb a] w)"
    using assms(1)
    apply (simp only: pt_ops p)
    apply (rule safe_run, erule cfg_left_active)
    apply (rule safe_run | rule safe_nil | erule cfg_upd, simp add: neutral_defs)+
    apply (erule handledI, simp add: place_defs st)
    done
  show ?thesis using 1 2
    by (cases "a_type act") (simp_all add: ms_active_def INVALID_ACTION_TYPE_def del: run.simps)
qed

lemma ms_execute_cb_handled:
  assumes "cfg a D L s p w" "session_type s = ESQ_SESSION_TYPE_MULTI_SOCKET_CB" "lc s = PT_execute_cb" "right s p"
    "post_op s = POP_NO_OP"
  shows "safe (handled a D L s) (ms_execute_cb e act a w)"
proof -
  note st = assms(2) [unfolded session_type_defs] assms(3) assms(5) [unfolded pop_defs] multi_timeouts [OF right_settled [OF assms(4)] assms(2)]
  have p: "p = None" using right_none [OF assms(4)] assms(2,3) by (simp add: places_def)
  have c: "cfg a D L s None w" using assms(1) p by simp
  note u = upds_handled [OF c]
  have 1: "safe (handled a D L s) (run [upd (\<lambda>s. s\<lparr>event_bits := event_bits2 s\<rparr>) a, esq_session_join_active_list a,
                  goto_set PT_active a] w)" if "fd s \<noteq> 0"
    using c that
    apply (simp only: pt_ops)
    apply (rule safe_run | rule safe_nil | erule cfg_upd, simp add: neutral_defs | erule cfg_join_active)+
    apply (erule handledI, simp add: place_defs st)
    done
  have 2: "safe (handled a D L s) (run [esq_session_join_timing_list e a, set_post_op POP_NO_OP a, goto_set PT_winded_up a] w)"
    if "fd s \<noteq> 0"
    using c that
    apply (simp only: pt_ops)
    apply (rule safe_run | rule safe_nil | erule cfg_upd, simp add: neutral_defs | erule cfg_join_timing)+
    apply (erule handledI, simp add: place_defs st)
    done
  have 3: "safe (handled a D L s) (set_post_op POP_FREE_SESSION a w)" if "fd s = 0"
    using c that by (simp only: pt_ops, elim cfg_upd) (auto simp: neutral_defs place_defs st elim!: handledI)
  have "cfg a D L s None (w\<lparr>io_uring := io_uring w @ [Poll_remove a]\<rparr>)" using c by simp
  then have 4: "safe (handled a D L s) (run [upd (\<lambda>s. s\<lparr>fd := 0\<rparr>) a, esq_session_join_timing_list e a,
                  goto_set PT_wait_for_removed_and_wind_up a] (w\<lparr>io_uring := io_uring w @ [Poll_remove a]\<rparr>))"
    if "FD_NEED_INSTALL (fd s)" using that
    apply (simp only: pt_ops)
    apply (rule safe_run | rule safe_nil | erule cfg_upd, simp add: neutral_defs | erule cfg_join_timing)+
    apply (erule handledI, simp add: place_defs st FD_NEED_INSTALL_def)
    done
  have 5: "safe (handled a D L s) (run [upd (\<lambda>s. s\<lparr>post_op := POP_NO_OP, fd := 0\<rparr>) a, goto_set PT_execute_cb a] w)"
    using u [of "[\<lambda>s. s\<lparr>post_op := POP_NO_OP, fd := 0\<rparr>, \<lambda>s. s\<lparr>lc := PT_execute_cb\<rparr>]"]
    by (simp add: pt_ops neutral_defs place_defs st)
  have 6: "safe (handled a D L s) (run [upd (or_event_bits2 b) a, set_post_op POP_NO_OP a, goto_set PT_execute_cb a] w)" for b
    using u [of "[or_event_bits2 b, \<lambda>s. s\<lparr>post_op := POP_NO_OP\<rparr>, \<lambda>s. s\<lparr>lc := PT_execute_cb\<rparr>]"]
    by (simp add: pt_ops neutral_defs place_defs st)
  show ?thesis unfolding ms_execute_cb_def
    by (intro safe_bind cfg_sess [OF c], cases "a_type act")
      (use 1 2 3 4 5 6 in \<open>simp_all add: os_defs INVALID_ACTION_TYPE_def del: run.simps\<close>)
qed

lemma ms_removal_handled:
  assumes "cfg a D L s p w" "session_type s = ESQ_SESSION_TYPE_MULTI_SOCKET_CB" "right s p"
  shows "lc s = PT_wait_for_removed_and_wind_up \<Longrightarrow> safe (handled a D L s) (ms_wait_for_removed_and_wind_up e act a w)"
    and "lc s = PT_wait_for_removed \<Longrightarrow> safe (handled a D L s) (ms_wait_for_removed e act a w)"
    and "lc s = PT_wait_for_wind_up \<Longrightarrow> safe (handled a D L s) (ms_wait_for_wind_up e act a w)"
proof -
  note st = assms(2) [unfolded session_type_defs] multi_timeouts [OF right_settled [OF assms(3)] assms(2)]
  have p: "p = Some (timing_list s)" if "lc s \<in> {PT_wait_for_removed_and_wind_up, PT_wait_for_removed, PT_wait_for_wind_up}"
    using right_timing [OF assms(3)] assms(2) that by (auto simp: places_def)
  have nd: "lc s \<noteq> PT_die" "lc s \<noteq> PT_execute_cb"
    if "lc s \<in> {PT_wait_for_removed_and_wind_up, PT_wait_for_removed, PT_wait_for_wind_up}"
    using that by auto
  have 1: "safe (handled a D L s) (run [set_post_op POP_NO_OP a, goto_set l a] w)"
    if "l \<in> {PT_wait_for_removed_and_wind_up, PT_wait_for_removed, PT_wait_for_wind_up}"
      "lc s \<in> {PT_wait_for_removed_and_wind_up, PT_wait_for_removed, PT_wait_for_wind_up}" for l
    using upds_handled [OF assms(1), of "[\<lambda>s. s\<lparr>post_op := POP_NO_OP\<rparr>, \<lambda>s. s\<lparr>lc := l\<rparr>]"] that(1) p [OF that(2)] nd [OF that(2)]
    by (auto simp: pt_ops neutral_defs place_defs st)
  have 2: "safe (handled a D L s) (run [esq_session_left_timing_list a, set_post_op POP_FREE_SESSION a, goto_set PT_die a] w)"
    if "lc s \<in> {PT_wait_for_removed_and_wind_up, PT_wait_for_removed, PT_wait_for_wind_up}"
    using assms(1)
    apply (simp only: pt_ops)
    apply (rule safe_run, erule cfg_left_timing, simp add: p [OF that])
    apply (rule safe_run | rule safe_nil | erule cfg_upd, simp add: neutral_defs)+
    apply (erule handledI, simp add: place_defs st)
    done
  show "lc s = PT_wait_for_removed_and_wind_up \<Longrightarrow> safe (handled a D L s) (ms_wait_for_removed_and_wind_up e act a w)"
    using 1 by (cases "a_type act") (simp_all add: ms_wait_for_removed_and_wind_up_def INVALID_ACTION_TYPE_def del: run.simps)
  show "lc s = PT_wait_for_removed \<Longrightarrow> safe (handled a D L s) (ms_wait_for_removed e act a w)"
    using 1 2 by (cases "a_type act") (simp_all add: ms_wait_for_removed_def INVALID_ACTION_TYPE_def del: run.simps)
  show "lc s = PT_wait_for_wind_up \<Longrightarrow> safe (handled a D L s) (ms_wait_for_wind_up e act a w)"
    using 1 2 by (cases "a_type act") (simp_all add: ms_wait_for_wind_up_def INVALID_ACTION_TYPE_def del: run.simps)
qed

lemma ms_start_handled:
  assumes "cfg a D L s p w" "session_type s = ESQ_SESSION_TYPE_MULTI_SOCKET_CB" "lc s = PT_START" "p = None"
  shows "safe (handled a D L s) (ms_start e act a w)"
proof -
  note st = assms(2) [unfolded session_type_defs] assms(3)
  show ?thesis
    using upds_handled [OF assms(1), of "[\<lambda>s. s\<lparr>fd := a_fd act, timeouts := 0, timeoutms := 0, user_param := a_user_param act,
            exp_event_bits := ucast (a_exp_event_bits act), cb := a_cb act, event_bits := 0,
            post_op := POP_NO_OP\<rparr>, \<lambda>s. s\<lparr>lc := PT_initial\<rparr>]"]
    by (simp add: ms_start_def pt_ops neutral_defs place_defs st assms(4))
qed

lemma ms_initial_handled:
  assumes "cfg a D L s p w" "session_type s = ESQ_SESSION_TYPE_MULTI_SOCKET_CB" "lc s = PT_initial" "right s p"
  shows "safe (handled a D L s) (ms_initial e act a w)"
proof -
  note st = assms(2) [unfolded session_type_defs] assms(3) multi_timeouts [OF right_settled [OF assms(4)] assms(2)]
  have p: "p = None" using right_none [OF assms(4)] assms(2,3) by (auto simp: places_def)
  have "safe (handled a D L s) (run [set_post_op b a, goto_set PT_wait_for_cpu a] w)"
    if "b \<in> {POP_JOIN_GLOBAL_NEW_LIST, POP_JOIN_LOCAL_NEW_LIST}" for b
    using upds_handled [OF assms(1), of "[\<lambda>s. s\<lparr>post_op := b\<rparr>, \<lambda>s. s\<lparr>lc := PT_wait_for_cpu\<rparr>]"] that
    by (auto simp: pt_ops neutral_defs place_defs st p)
  then show ?thesis
    by (cases "a_type act") (simp_all add: ms_initial_def INVALID_ACTION_TYPE_def del: run.simps)
qed

lemma pt_multi_shot_handled:
  assumes "cfg a D L s p w" "session_type s = ESQ_SESSION_TYPE_MULTI_SOCKET_CB" "entry act s p" "post_op s = POP_NO_OP"
  shows "safe (handled a D L s) (esq_pt_of_multi_shot_socket e act a w)"
  unfolding esq_pt_of_multi_shot_socket_def
proof (intro safe_bind cfg_sess [OF assms(1)])
  fix n q
  have rest: "handled a D L s w" if "right s p" using rest_handled [OF assms(1)] assms(2,4) that by (simp add: supported_def)
  show "safe (handled a D L s) ((case lc (s\<lparr>nxt := n, prv := q\<rparr>) of
        PT_START \<Rightarrow> ms_start e act a
      | PT_initial \<Rightarrow> ms_initial e act a
      | PT_wait_for_cpu \<Rightarrow> ms_wait_for_cpu e act a
      | PT_winded_up \<Rightarrow> ms_winded_up e act a
      | PT_active \<Rightarrow> ms_active e act a
      | PT_execute_cb \<Rightarrow> ms_execute_cb e act a
      | PT_wait_for_removed_and_wind_up \<Rightarrow> ms_wait_for_removed_and_wind_up e act a
      | PT_wait_for_removed \<Rightarrow> ms_wait_for_removed e act a
      | PT_wait_for_wind_up \<Rightarrow> ms_wait_for_wind_up e act a
      | PT_die \<Rightarrow> INVALID_ACTION_TYPE
      | _ \<Rightarrow> Inr) w)"
    using assms(3,4) rest ms_wait_for_cpu_handled [OF assms(1,2) _ assms(3), of e]
    by (cases "lc s")
      (simp_all add: entry_def INVALID_ACTION_TYPE_def ms_start_handled [OF assms(1,2)] ms_initial_handled [OF assms(1,2)]
        ms_winded_up_handled [OF assms(1,2)] ms_active_handled [OF assms(1,2)]
        ms_execute_cb_handled [OF assms(1,2)] ms_removal_handled [OF assms(1,2)])
qed

end
