(* ===== verification/Esq_Safety.thy ===== *)
theory Esq_Safety
  imports Esq_Invariant
begin

text \<open>
  The invariant of the session engine and its preservation by \<^verbatim>\<open>__esq_session_take_action\<close>.

  In a valid state every session of the socket types lies in exactly the list its resume point
  demands, the lists are well linked, and the parent and child links agree: the child list and the list of
  finished children of a session hold exactly the sessions that name it as their parent.
\<close>

section \<open>Families\<close>

definition child_f :: "(addr, esq_session_t) field" where
  "child_f = \<lparr>get = next_child, put = (\<lambda>v s. s\<lparr>next_child := v\<rparr>)\<rparr>"

definition kin_ok :: "(addr \<Rightarrow> addr list) \<Rightarrow> (addr \<Rightarrow> addr list) \<Rightarrow> (addr \<Rightarrow> esq_session_t option) \<Rightarrow> addr \<Rightarrow> esq_session_t \<Rightarrow> bool" where
  "kin_ok K F D p s \<longleftrightarrow>
     child_session_list s = first (K p) None \<and> finished_child_session_list s = first (F p) None \<and>
     chain child_f D (K p) None \<and> chain child_f D (F p) None \<and> distinct (K p @ F p) \<and>
     (\<forall>c \<in> set (K p) \<union> set (F p). \<exists>t. D c = Some t \<and> parent_session t = Some p) \<and>
     (\<forall>c \<in> set (F p). (\<exists>t. D c = Some t \<and> dead t) \<and> K c = [] \<and> F c = []) \<and>
     (\<forall>q. parent_session s = Some q \<longrightarrow>
        q \<noteq> p \<and> D q \<noteq> None \<and> have_parent_session s \<and> \<not> fresh s \<and> p \<in> set (K q) \<union> set (F q))"

definition fam_ok :: "(addr \<Rightarrow> addr list) \<Rightarrow> (addr \<Rightarrow> addr list) \<Rightarrow> (addr \<Rightarrow> esq_session_t option) \<Rightarrow> bool" where
  "fam_ok K F D \<longleftrightarrow> (\<forall>p s. D p = Some s \<longrightarrow> kin_ok K F D p s)"

definition picked :: "esq_session_t \<Rightarrow> list_id option \<Rightarrow> bool" where
  "picked s p \<longleftrightarrow> p = None \<and> lc s = PT_wait_for_cpu \<and> \<not> fresh s \<and> settled s"

text \<open>Every session lies where it belongs.\<close>

definition placed :: "addr set \<Rightarrow> (addr \<Rightarrow> esq_session_t option) \<Rightarrow> (list_id \<Rightarrow> addr list) \<Rightarrow> bool" where
  "placed X D L \<longleftrightarrow> (\<forall>a s. D a = Some s \<longrightarrow> supported s \<and> ESQ_CHECK_SESSION s \<and>
     (\<exists>p. pos a L p \<and> (if a \<in> X then picked s p else right s p)))"

definition inv :: "addr set \<Rightarrow> (addr \<Rightarrow> esq_session_t option) \<Rightarrow> (list_id \<Rightarrow> addr list) \<Rightarrow>
    (addr \<Rightarrow> addr list) \<Rightarrow> (addr \<Rightarrow> addr list) \<Rightarrow> world \<Rightarrow> bool" where
  "inv X D L K F w \<longleftrightarrow>
     absw D L w \<and> fam_ok K F D \<and> placed X D L"

text \<open>
  A state is valid up to the sessions in \<open>X\<close>, which were taken off a list of new sessions to be picked up.
  \<open>A\<close> is the set of addresses sessions are allocated at.
\<close>

definition valid :: "addr set \<Rightarrow> addr set \<Rightarrow> world \<Rightarrow> bool" where
  "valid A X w \<longleftrightarrow> (\<exists>D L K F. inv X D L K F w \<and> dom D \<subseteq> A)"

text \<open>The loops over lists of sessions make at most one step more than there are sessions.\<close>

definition enough :: "env \<Rightarrow> addr set \<Rightarrow> bool" where
  "enough e A \<longleftrightarrow> finite A \<and> card A < loop_fuel e"

lemma fam_okD: "fam_ok K F D \<Longrightarrow> D p = Some s \<Longrightarrow> kin_ok K F D p s"
  by (simp add: fam_ok_def)

lemma chain_child_upd:
  assumes "D a = Some s" "next_child s' = next_child s"
  shows "chain child_f (D(a \<mapsto> s')) xs q = chain child_f D xs q"
  using assms by (induction xs) (auto simp: child_f_def)

lemma family_fields:
  "family s' = family s \<Longrightarrow> next_child s' = next_child s" "family s' = family s \<Longrightarrow> parent_session s' = parent_session s"
  "family s' = family s \<Longrightarrow> have_parent_session s' = have_parent_session s"
  "family s' = family s \<Longrightarrow> child_session_list s' = child_session_list s"
  "family s' = family s \<Longrightarrow> finished_child_session_list s' = finished_child_session_list s"
  "family s' = family s \<Longrightarrow> ESQ_CHECK_SESSION s' = ESQ_CHECK_SESSION s"
  by (simp_all add: family_def ESQ_CHECK_SESSION_def)

lemma fam_ok_upd:
  assumes "fam_ok K F D" "D a = Some s" "family s' = family s" "dead s \<Longrightarrow> dead s'" "fresh s' \<Longrightarrow> fresh s"
  shows "fam_ok K F (D(a \<mapsto> s'))"
  unfolding fam_ok_def
proof (intro allI impI)
  fix p t assume "(D(a \<mapsto> s')) p = Some t"
  then obtain u where u: "D p = Some u" "family t = family u" "fresh t \<longrightarrow> fresh u"
    using assms(2,3,5) by (auto split: if_splits)
  have look: "\<exists>t. (D(a \<mapsto> s')) c = Some t \<and> P t" if "\<exists>t. D c = Some t \<and> P t" "P s \<Longrightarrow> P s'" for c P
    using that assms(2) by auto
  note chain = chain_child_upd [of D a s s', OF assms(2) family_fields(1) [OF assms(3)]]
  note ff = family_fields [OF u(2)] family_fields [OF assms(3)]
  have k: "kin_ok K F D p u" using fam_okD [OF assms(1) u(1)] .
  have "\<forall>c \<in> set (K p) \<union> set (F p). \<exists>t. (D(a \<mapsto> s')) c = Some t \<and> parent_session t = Some p"
    using k look [where P = "\<lambda>t. parent_session t = Some p"] ff(8) unfolding kin_ok_def by metis
  moreover have "\<forall>c \<in> set (F p). \<exists>t. (D(a \<mapsto> s')) c = Some t \<and> dead t"
    using k look [where P = dead] assms(4) unfolding kin_ok_def by metis
  moreover have "(D(a \<mapsto> s')) q \<noteq> None" if "D q \<noteq> None" for q using that by simp
  ultimately show "kin_ok K F (D(a \<mapsto> s')) p t"
    using k u(3) unfolding kin_ok_def chain ff by metis
qed

text \<open>Where a session belongs depends on its type, its label and its interval.\<close>

definition locus :: "esq_session_t \<Rightarrow> byte \<times> pt_label \<times> int \<times> int" where
  "locus s = (session_type s, lc s, timeouts s, timeoutms s)"

lemma locus_cong:
  assumes "locus t = locus s"
  shows "places t = places s" "labels t = labels s" "right t p = right s p" "supported t = supported s"
    "fresh t = fresh s" "entry act t p = entry act s p" "settled t = settled s"
proof -
  have s: "session_type t = session_type s" "lc t = lc s" "timing_list t = timing_list s"
    using assms by (simp_all add: locus_def timing_list_def)
  show *: "places t = places s" "labels t = labels s" "supported t = supported s" "fresh t = fresh s"
    unfolding places_def labels_def supported_def fresh_def s by (rule refl)+
  show **: "settled t = settled s" using assms by (simp add: locus_def settled_def)
  show "right t p = right s p" unfolding right_def * ** s by (rule refl)
  then show "entry act t p = entry act s p" unfolding entry_def s ** by simp
qed

text \<open>The result of a machine, in a valid state.\<close>

lemma pos_unique: "pos a L p \<Longrightarrow> pos a L q \<Longrightarrow> p = q"
  unfolding pos_def by (cases p; cases q) auto

lemma others_pos: "others a L L' \<Longrightarrow> b \<noteq> a \<Longrightarrow> pos b L' p = pos b L p"
  by (simp add: others_mem pos_def)

lemma inv_step:
  assumes "inv X D L K F w" "D a = Some s" "cfg a D L s' p w'" "family s' = family s" "supported s'"
    "dead s \<Longrightarrow> dead s'" "fresh s' \<Longrightarrow> fresh s" "right s' p"
  shows "\<exists>L'. inv (X - {a}) (D(a \<mapsto> s')) L' K F w'"
proof -
  obtain L' where L': "absw (D(a \<mapsto> s')) L' w'" "others a L L'" "pos a L' p" using assms(3) by (auto simp: cfg_def)
  have "fam_ok K F (D(a \<mapsto> s'))" using fam_ok_upd [of K F D a s s'] assms by (simp add: inv_def)
  moreover have "ESQ_CHECK_SESSION s'" using assms(1,2) family_fields(6) [OF assms(4)] by (simp add: inv_def placed_def)
  moreover have "\<exists>q. pos b L' q \<and> (if b \<in> X - {a} then picked t q else right t q)"
    if "(D(a \<mapsto> s')) b = Some t" for b t
    using that assms(1,8) L'(3) others_pos [OF L'(2), of b] by (cases "b = a") (auto simp: inv_def placed_def)
  ultimately have "inv (X - {a}) (D(a \<mapsto> s')) L' K F w'"
    using assms(1,5) L'(1) by (auto simp: inv_def placed_def split: if_splits)
  then show ?thesis by blast
qed

lemma inv_cfg:
  assumes "inv X D L K F w" "D a = Some s"
  shows "\<exists>p. cfg a D L s p w \<and> (if a \<in> X then picked s p else right s p)"
proof -
  have "D = D(a \<mapsto> s)" using assms(2) by (simp add: map_upd_triv)
  moreover obtain p where "pos a L p" "if a \<in> X then picked s p else right s p"
    using assms by (auto simp: inv_def placed_def)
  ultimately show ?thesis using cfgI [of D a s L w p] assms(1) unfolding inv_def by metis
qed

section \<open>Operations on families\<close>

lemma free_session_safe:
  assumes "absw D L w" "D c = Some t" "nowhere c L" "\<And>w'. absw (D(c := None)) L w' \<Longrightarrow> Q w'"
  shows "safe Q (free_session c w)"
proof -
  have "D = D(c \<mapsto> t)" using assms(2) by (simp add: map_upd_triv)
  then have 1: "absw (D(c \<mapsto> t)) L w" using assms(1) by metis
  have 2: "Q (embedded_ctxs c None (w'\<lparr>heap := (heap w')(c := None)\<rparr>))"
    if "absw (D(c \<mapsto> t\<lparr>magic0 := 0, magic1 := 0\<rparr>)) L w'" for w'
  proof (rule assms(4))
    let ?w = "embedded_ctxs c None (w'\<lparr>heap := (heap w')(c := None)\<rparr>)"
    have "list_inv l (heap ?w) (lists ?w l) (L l)" for l
    proof -
      have "\<forall>x \<in> set (L l). heap ?w x = heap w' x" using assms(3) by (auto simp: nowhere_def embedded_ctxs_def)
      from list_inv_frame [OF this, of l "lists ?w l"] show ?thesis
        using that by (simp add: absw_def lists_ok_def embedded_ctxs_def fun_upd_def)
    qed
    moreover have "D(c := None) = (\<lambda>b. map_option strip (heap ?w b))"
    proof
      fix b
      have "(D(c \<mapsto> t\<lparr>magic0 := 0, magic1 := 0\<rparr>)) b = map_option strip (heap w' b)"
        using that unfolding absw_def by metis
      then show "(D(c := None)) b = map_option strip (heap ?w b)" by (simp add: embedded_ctxs_def split: if_splits)
    qed
    ultimately show "absw (D(c := None)) L ?w" using that by (simp add: absw_def lists_ok_def)
  qed
  show ?thesis unfolding free_session_def
    by (intro safe_bind upd_safe [OF 1]) (auto simp: neutral_defs intro: 2)
qed

definition orphan :: "addr set \<Rightarrow> (addr \<Rightarrow> esq_session_t option) \<Rightarrow> addr \<Rightarrow> esq_session_t option" where
  "orphan A D = (\<lambda>b. if b \<in> A then map_option (\<lambda>t. t\<lparr>next_child := None, parent_session := None\<rparr>) (D b) else D b)"

lemma absw_triv: "absw D L w \<Longrightarrow> D c = Some t \<Longrightarrow> absw (D(c \<mapsto> t)) L w"
  by (simp add: map_upd_triv)

lemma unhook_children_safe:
  assumes "absw D L w" "chain child_f D ks None" "distinct ks" "length ks \<le> n"
    and "\<And>w'. absw (orphan (set ks) D) L w' \<Longrightarrow> Q w'"
  shows "safe Q (unhook_children n (first ks None) w)"
  using assms
proof (induction ks arbitrary: D w n)
  case Nil
  then show ?case by (cases n) (simp_all add: orphan_def)
next
  case (Cons c ks)
  obtain m where n: "n = Suc m" using Cons.prems(4) by (cases n) auto
  obtain t where t: "D c = Some t" "next_child t = first ks None" using Cons.prems(2) by (auto simp: child_f_def)
  let ?t = "t\<lparr>next_child := None, parent_session := None\<rparr>"
  note c = absw_triv [OF Cons.prems(1) t(1)]
  have "safe Q (unhook_children m (first ks None) w')" if "absw (D(c \<mapsto> ?t)) L w'" for w'
  proof (rule Cons.IH [OF that])
    show "chain child_f (D(c \<mapsto> ?t)) ks None" using Cons.prems(2,3) by simp
    fix w'' assume "absw (orphan (set ks) (D(c \<mapsto> ?t))) L w''"
    moreover have "orphan (set ks) (D(c \<mapsto> ?t)) = orphan (set (c # ks)) D"
      using t(1) Cons.prems(3) by (auto simp: orphan_def)
    ultimately show "Q w''" using Cons.prems(5) by simp
  qed (use Cons.prems n in auto)
  then show ?case using t(2) by (auto simp: n neutral_defs intro!: safe_bind sess_safe [OF c] upd_safe [OF c])
qed

lemma call_done_safe:
  assumes "absw D L w" "D c = Some t" "\<And>w'. absw D L w' \<Longrightarrow> Q w'"
  shows "safe Q (call_session_done_cb c w)"
  unfolding call_session_done_cb_def
  using assms(3) absw_other [OF assms(1)]
  by (intro safe_bind sess_safe [OF absw_triv [OF assms(1,2)]]) (auto split: option.splits)

lemma free_finished_safe:
  assumes "absw D L w" "chain child_f D fs None" "distinct fs" "length fs \<le> n" "\<forall>c \<in> set fs. nowhere c L"
    and "\<And>w'. absw (D |` (- set fs)) L w' \<Longrightarrow> Q w'"
  shows "safe Q (free_finished_children n (first fs None) w)"
  using assms
proof (induction fs arbitrary: D w n)
  case Nil
  then show ?case by (cases n) simp_all
next
  case (Cons c fs)
  obtain m where n: "n = Suc m" using Cons.prems(4) by (cases n) auto
  obtain t where t: "D c = Some t" "next_child t = first fs None" using Cons.prems(2) by (auto simp: child_f_def)
  let ?t = "t\<lparr>parent_session := None\<rparr>"
  note c = absw_triv [OF Cons.prems(1) t(1)]
  have go: "safe Q (free_finished_children m (first fs None) w')" if "absw (D(c := None)) L w'" for w'
  proof (rule Cons.IH [OF that])
    show "chain child_f (D(c := None)) fs None" using Cons.prems(2,3) by simp
    fix w'' assume "absw ((D(c := None)) |` (- set fs)) L w''"
    moreover have "(D(c := None)) |` (- set fs) = D |` (- set (c # fs))" by (auto simp: restrict_map_def)
    ultimately show "Q w''" using Cons.prems(6) by simp
  qed (use Cons.prems n in auto)
  have "safe (\<lambda>w. absw (D(c := None)) L w)
      (run [upd (\<lambda>s. s\<lparr>parent_session := None\<rparr>) c, call_session_done_cb c, free_session c] w)"
    apply (rule safe_run, rule upd_safe [OF c], simp add: neutral_defs)
    apply (rule safe_run, erule call_done_safe, rule fun_upd_same)
    apply (rule safe_run, erule free_session_safe, rule fun_upd_same)
    using Cons.prems(5) by auto
  then show ?case using t(2) go
    by (auto simp: n simp del: run.simps intro!: safe_bind sess_safe [OF c] elim: safe_mono)
qed

text \<open>What is left after the family of \<open>a\<close> is dissolved.\<close>

definition dissolved :: "addr \<Rightarrow> addr list \<Rightarrow> addr list \<Rightarrow> (addr \<Rightarrow> esq_session_t option) \<Rightarrow> addr \<Rightarrow> esq_session_t option" where
  "dissolved a ks fs D =
     (\<lambda>b. if b = a then map_option (\<lambda>s. s\<lparr>child_session_list := None, finished_child_session_list := None\<rparr>) (D b)
          else if b \<in> set fs then None else orphan (set ks) D b)"

lemma unhook_session_safe:
  assumes "absw D L w" "D a = Some s" "kin_ok K F D a s" "a \<notin> set (K a) \<union> set (F a)"
    and "length (K a) \<le> loop_fuel e" "length (F a) \<le> loop_fuel e" "\<forall>c \<in> set (F a). nowhere c L"
    and "\<And>w'. absw (dissolved a (K a) (F a) D) L w' \<Longrightarrow> Q w'"
  shows "safe Q (esq_unhook_child_session e a w)"
proof -
  let ?O = "orphan (set (K a)) D"
  have k: "chain child_f D (K a) None" "chain child_f D (F a) None" "distinct (K a @ F a)"
    "child_session_list s = first (K a) None" "finished_child_session_list s = first (F a) None"
    using assms(3) by (simp_all add: kin_ok_def)
  have "\<forall>x \<in> set (F a). ?O x = D x" using k(3) by (auto simp: orphan_def)
  then have f: "chain child_f ?O (F a) None" using chain_frame k(2) by metis
  have oa: "?O a = Some s" using assms(2,4) by (simp add: orphan_def)
  let ?s = "s\<lparr>child_session_list := None, finished_child_session_list := None\<rparr>"
  have d: "(?O |` (- set (F a)))(a \<mapsto> ?s) = dissolved a (K a) (F a) D"
    using assms(2) by (auto simp: dissolved_def restrict_map_def)
  have "safe Q (run [free_finished_children (loop_fuel e) (first (F a) None),
      upd (\<lambda>s. s\<lparr>child_session_list := None, finished_child_session_list := None\<rparr>) a] w')"
    if "absw ?O L w'" for w'
  proof (rule safe_run, rule free_finished_safe [OF that f])
    fix w'' assume "absw (?O |` (- set (F a))) L w''"
    moreover have "(?O |` (- set (F a))) a = Some s" using oa assms(4) by (simp add: restrict_map_def)
    ultimately have "absw ((?O |` (- set (F a)))(a \<mapsto> s)) L w''" by (rule absw_triv)
    then show "safe Q (run [upd (\<lambda>s. s\<lparr>child_session_list := None, finished_child_session_list := None\<rparr>) a] w'')"
      using assms(8) d by (intro safe_run upd_safe) (auto simp: neutral_defs)
  qed (use k(3) assms(6,7) in auto)
  then show ?thesis unfolding esq_unhook_child_session_def
    apply (intro safe_bind sess_safe [OF absw_triv [OF assms(1,2)]])
    apply (simp add: k(4) del: run.simps)
    apply (rule unhook_children_safe [OF assms(1) k(1)])
    using k(3,5) assms(5) oa by (auto simp del: run.simps intro!: safe_bind sess_safe [OF absw_triv [of ?O L _ a s, OF _ oa]])
qed

lemma chain_child_cong:
  assumes "\<forall>x \<in> set xs. map_option next_child (h' x) = map_option next_child (h x)"
  shows "chain child_f h' xs q = chain child_f h xs q"
  using assms by (induction xs) (auto simp: child_f_def map_option_eq_Some, (metis map_option_eq_Some)+)

lemma kin_parent: "kin_ok K F D p s \<Longrightarrow> c \<in> set (K p) \<union> set (F p) \<Longrightarrow> \<exists>t. D c = Some t \<and> parent_session t = Some p"
  by (simp add: kin_ok_def)

lemma kin_finished:
  assumes "kin_ok K F D p s" "c \<in> set (F p)"
  shows "\<exists>t. D c = Some t \<and> dead t" "K c = []" "F c = []"
proof -
  have "\<forall>c \<in> set (F p). (\<exists>t. D c = Some t \<and> dead t) \<and> K c = [] \<and> F c = []"
    using assms(1) unfolding kin_ok_def by (elim conjE)
  from bspec [OF this assms(2)] show "\<exists>t. D c = Some t \<and> dead t" "K c = []" "F c = []" by simp_all
qed

lemma kin_up:
  assumes "kin_ok K F D p s" "parent_session s = Some q"
  shows "q \<noteq> p" "D q \<noteq> None" "have_parent_session s" "\<not> fresh s" "p \<in> set (K q) \<union> set (F q)"
  using assms by (simp_all add: kin_ok_def)

lemma kin_lists:
  assumes "kin_ok K F D p s"
  shows "child_session_list s = first (K p) None" "finished_child_session_list s = first (F p) None"
    "chain child_f D (K p) None" "chain child_f D (F p) None" "distinct (K p @ F p)"
  using assms by (simp_all add: kin_ok_def)

lemma kin_okI:
  assumes "child_session_list s = first (K p) None" "finished_child_session_list s = first (F p) None"
    "chain child_f D (K p) None" "chain child_f D (F p) None" "distinct (K p @ F p)"
    and "\<And>c. c \<in> set (K p) \<union> set (F p) \<Longrightarrow> \<exists>t. D c = Some t \<and> parent_session t = Some p"
    and "\<And>c. c \<in> set (F p) \<Longrightarrow> \<exists>t. D c = Some t \<and> dead t"
    and "\<And>c. c \<in> set (F p) \<Longrightarrow> K c = [] \<and> F c = []"
    and "\<And>q. parent_session s = Some q \<Longrightarrow>
        q \<noteq> p \<and> D q \<noteq> None \<and> have_parent_session s \<and> \<not> fresh s \<and> p \<in> set (K q) \<union> set (F q)"
  shows "kin_ok K F D p s"
proof -
  have 6: "\<forall>c \<in> set (K p) \<union> set (F p). \<exists>t. D c = Some t \<and> parent_session t = Some p" using assms(6) by blast
  have 7: "\<forall>c \<in> set (F p). (\<exists>t. D c = Some t \<and> dead t) \<and> K c = [] \<and> F c = []" using assms(7,8) by blast
  have 8: "\<forall>q. parent_session s = Some q \<longrightarrow>
      q \<noteq> p \<and> D q \<noteq> None \<and> have_parent_session s \<and> \<not> fresh s \<and> p \<in> set (K q) \<union> set (F q)" using assms(9) by blast
  show ?thesis unfolding kin_ok_def by (intro conjI assms(1-5) 6 7 8)
qed

lemma kin_disjoint:
  assumes "fam_ok K F D" "D p = Some s" "D q = Some t" "p \<noteq> q" "c \<in> set (K p) \<union> set (F p)"
  shows "c \<notin> set (K q) \<union> set (F q)"
  using kin_parent [OF fam_okD [OF assms(1,2)] assms(5)] kin_parent [OF fam_okD [OF assms(1,3)], of c] assms(4) by auto

lemma dissolved_other:
  assumes "fam_ok K F D" "D a = Some s" "D p = Some t" "p \<noteq> a" "c \<in> set (K p) \<union> set (F p)"
  shows "dissolved a (K a) (F a) D c =
    (if c = a then Some (s\<lparr>child_session_list := None, finished_child_session_list := None\<rparr>) else D c)"
  using kin_disjoint [OF assms(1,3,2,4,5)] assms(2) by (auto simp: dissolved_def orphan_def)

lemma dissolved_alloc:
  assumes "fam_ok K F D" "D a = Some s" "D q = Some t" "K q \<noteq> [] \<or> F q \<noteq> []"
  shows "dissolved a (K a) (F a) D q \<noteq> None"
proof -
  have "q \<notin> set (F a)" using fam_okD [OF assms(1,2)] assms(4) by (auto simp: kin_ok_def)
  then show ?thesis using assms(2,3) by (simp add: dissolved_def orphan_def)
qed

lemma kin_dissolved:
  assumes "fam_ok K F D" "D a = Some s" "D p = Some u" "p \<noteq> a" "p \<notin> set (F a)" "dissolved a (K a) (F a) D p = Some t"
  shows "kin_ok (K(a := [])) (F(a := [])) (dissolved a (K a) (F a) D) p t"
proof -
  define D' where "D' = dissolved a (K a) (F a) D"
  define s' where "s' = s\<lparr>child_session_list := None, finished_child_session_list := None\<rparr>"
  have k: "kin_ok K F D p u" using fam_okD [OF assms(1,3)] .
  have oth: "D' c = (if c = a then Some s' else D c)" if "c \<in> set (K p) \<union> set (F p)" for c
    using dissolved_other [OF assms(1-4) that] by (simp add: D'_def s'_def)
  have s': "next_child s' = next_child s" "parent_session s' = parent_session s" "dead s' = dead s"
    by (simp_all add: s'_def dead_def)
  have t: "t = (if p \<in> set (K a) then u\<lparr>next_child := None, parent_session := None\<rparr> else u)"
    using assms(3-6) by (auto simp: dissolved_def orphan_def split: if_splits)
  have nc: "\<forall>c \<in> set (K p) \<union> set (F p). map_option next_child (D' c) = map_option next_child (D c)"
    using oth assms(2) s'(1) by auto
  have ch: "chain child_f D' (K p) None" "chain child_f D' (F p) None"
    using chain_child_cong [of "K p" D' D] chain_child_cong [of "F p" D' D] nc kin_lists(3,4) [OF k] by simp_all
  have tl: "child_session_list t = first (K p) None" "finished_child_session_list t = first (F p) None"
    using t kin_lists(1,2) [OF k] by simp_all
  have "kin_ok (K(a := [])) (F(a := [])) D' p t"
  proof (rule kin_okI)
    fix c assume "c \<in> set ((K(a := [])) p) \<union> set ((F(a := [])) p)"
    then have c: "c \<in> set (K p) \<union> set (F p)" using assms(4) by simp
    show "\<exists>t. D' c = Some t \<and> parent_session t = Some p"
      using oth [OF c] kin_parent [OF k c] assms(2) s'(2) by (cases "c = a") auto
  next
    fix c assume "c \<in> set ((F(a := [])) p)"
    then have c: "c \<in> set (F p)" using assms(4) by simp
    have "D' c = (if c = a then Some s' else D c)" using oth c by blast
    then show "\<exists>t. D' c = Some t \<and> dead t"
      using kin_finished(1) [OF k c] assms(2) s'(3) by (cases "c = a") simp_all
    show "(K(a := [])) c = [] \<and> (F(a := [])) c = []" using kin_finished(2,3) [OF k c] by simp
  next
    fix q assume q: "parent_session t = Some q"
    have ka: "p \<notin> set (K a)"
    proof
      assume "p \<in> set (K a)"
      then have "parent_session t = None" using t by simp
      then show False using q by simp
    qed
    then have tu: "t = u" using t by simp
    note up = kin_up [OF k q [unfolded tu]]
    have qa: "q \<noteq> a" using up(5) ka assms(5) by auto
    obtain v where v: "D q = Some v" using up(2) by auto
    have "K q \<noteq> [] \<or> F q \<noteq> []" using up(5) by auto
    from dissolved_alloc [OF assms(1,2) v this] have "D' q \<noteq> None" unfolding D'_def .
    then show "q \<noteq> p \<and> D' q \<noteq> None \<and> have_parent_session t \<and> \<not> fresh t \<and>
        p \<in> set ((K(a := [])) q) \<union> set ((F(a := [])) q)" using up qa tu by simp
  qed (use assms(4) tl ch kin_lists(5) [OF k] in simp_all)
  then show ?thesis by (simp add: D'_def)
qed

lemma fam_dissolved:
  assumes "fam_ok K F D" "D a = Some s"
  shows "fam_ok (K(a := [])) (F(a := [])) (dissolved a (K a) (F a) D)"
  unfolding fam_ok_def
proof (intro allI impI)
  fix p t assume p: "dissolved a (K a) (F a) D p = Some t"
  show "kin_ok (K(a := [])) (F(a := [])) (dissolved a (K a) (F a) D) p t"
  proof (cases "p = a")
    case True
    have k: "kin_ok K F D a s" using fam_okD [OF assms] .
    have t: "t = s\<lparr>child_session_list := None, finished_child_session_list := None\<rparr>"
      using p True assms(2) by (simp add: dissolved_def)
    have "dissolved a (K a) (F a) D q \<noteq> None" if "parent_session s = Some q" for q
      using kin_up(2,5) [OF k that] dissolved_alloc [OF assms, of q] by fastforce
    then show ?thesis using kin_up [OF k] t True by (intro kin_okI) (auto simp: fresh_def)
  next
    case False
    then obtain u where "D p = Some u" "p \<notin> set (F a)"
      using p by (auto simp: dissolved_def orphan_def split: if_splits)
    then show ?thesis using kin_dissolved [OF assms] False p by blast
  qed
qed

text \<open>Removal of a session without parent.\<close>

lemma fam_free:
  assumes "fam_ok K F D" "D a = Some s" "K a = []" "F a = []" "parent_session s = None"
  shows "fam_ok K F (D(a := None))"
  unfolding fam_ok_def
proof (intro allI impI)
  fix p t assume p: "(D(a := None)) p = Some t"
  then have pa: "p \<noteq> a" "D p = Some t" by (auto split: if_splits)
  have k: "kin_ok K F D p t" using fam_okD [OF assms(1) pa(2)] .
  have "a \<notin> set (K p) \<union> set (F p)" using kin_parent [OF k, of a] assms(2,5) by auto
  then have "\<forall>c \<in> set (K p) \<union> set (F p). (D(a := None)) c = D c" by auto
  moreover from this have "chain child_f (D(a := None)) (K p) None = chain child_f D (K p) None"
    "chain child_f (D(a := None)) (F p) None = chain child_f D (F p) None"
    using chain_frame [of "K p" "D(a := None)" D] chain_frame [of "F p" "D(a := None)" D] by auto
  moreover have "q \<noteq> a" if "parent_session t = Some q" for q
    using kin_up(5) [OF k that] assms(3,4) by auto
  ultimately show "kin_ok K F (D(a := None)) p t"
    using kin_lists [OF k] kin_parent [OF k] kin_finished [OF k] kin_up [OF k] by (intro kin_okI) simp_all
qed

text \<open>The move of a finished session to the list of its parent.\<close>

lemma absw_load: "absw D L w \<Longrightarrow> D c = Some t \<Longrightarrow> \<exists>n q. sess c w = Inr (t\<lparr>nxt := n, prv := q\<rparr>)"
  by (rule absw_sess)

lemma find_child_found:
  assumes "absw D L w" "chain child_f D (us @ a # vs) None" "a \<notin> set us" "length us < n"
  shows "find_child n a pp (first (us @ a # vs) None) w = Inr (final us pp)"
  using assms(2-4)
proof (induction us arbitrary: n pp)
  case Nil
  then show ?case by (cases n) auto
next
  case (Cons c us)
  obtain m where n: "n = Suc m" using Cons.prems(3) by (cases n) auto
  obtain t where t: "D c = Some t" "next_child t = first (us @ a # vs) None"
    using Cons.prems(1) by (auto simp: child_f_def)
  have "find_child m a (Some c) (first (us @ a # vs) None) w = Inr (final us (Some c))"
    using Cons.IH [of m "Some c"] Cons.prems n by simp
  then show ?case using absw_load [OF assms(1) t(1)] t(2) Cons.prems(2) by (auto simp: n)
qed

lemma find_child_missing:
  assumes "absw D L w" "chain child_f D xs None" "a \<notin> set xs" "length xs \<le> n"
  shows "find_child n a pp (first xs None) w = Inl Exit"
  using assms(2-4)
proof (induction xs arbitrary: n pp)
  case Nil
  then show ?case by (cases n) auto
next
  case (Cons c xs)
  obtain m where n: "n = Suc m" using Cons.prems(3) by (cases n) auto
  obtain t where t: "D c = Some t" "next_child t = first xs None"
    using Cons.prems(1) by (auto simp: child_f_def)
  have "find_child m a (Some c) (first xs None) w = Inl Exit"
    using Cons.IH [of m "Some c"] Cons.prems n by simp
  then show ?case using absw_load [OF assms(1) t(1)] t(2) Cons.prems(2) by (auto simp: n)
qed

definition cut :: "addr \<Rightarrow> addr list \<Rightarrow> addr option \<Rightarrow> (addr \<Rightarrow> esq_session_t option) \<Rightarrow> addr \<Rightarrow> esq_session_t option" where
  "cut p us n D =
     (case final us None of
        Some q \<Rightarrow> D(q \<mapsto> (the (D q))\<lparr>next_child := n\<rparr>)
      | None \<Rightarrow> D(p \<mapsto> (the (D p))\<lparr>child_session_list := n\<rparr>))"

definition moved :: "addr \<Rightarrow> addr \<Rightarrow> addr list \<Rightarrow> esq_session_t \<Rightarrow> (addr \<Rightarrow> esq_session_t option) \<Rightarrow> addr \<Rightarrow> esq_session_t option" where
  "moved p a us s D =
     (let E = cut p us (next_child s) D; f = finished_child_session_list (the (E p)) in
      E(a \<mapsto> s\<lparr>next_child := f\<rparr>, p \<mapsto> (the (E p))\<lparr>finished_child_session_list := Some a\<rparr>))"

lemma move_safe:
  assumes "absw D L w" "D a = Some s" "D p = Some ps" "a \<noteq> p" "kin_ok K F D p ps" "K p = us @ a # vs" "p \<notin> set us"
    and "length (K p) \<le> loop_fuel e" "\<And>w'. absw (moved p a us s D) L w' \<Longrightarrow> Q w'"
  shows "safe Q (esq_move_child_session_into_finish_list e p a w)"
proof -
  define E where "E = cut p us (next_child s) D"
  have k: "chain child_f D (us @ a # vs) None" "child_session_list ps = first (us @ a # vs) None" "a \<notin> set us"
    using kin_lists [OF assms(5)] assms(6) by auto
  have find: "find_child (loop_fuel e) a None (child_session_list ps) w = Inr (final us None)"
    using find_child_found [OF assms(1) k(1,3)] assms(6,8) by (simp add: k(2))
  have step: "safe (\<lambda>w. absw E L w) (case final us None of
              Some q \<Rightarrow> upd (\<lambda>t. t\<lparr>next_child := next_child s\<rparr>) q w
            | None \<Rightarrow> upd (\<lambda>t. t\<lparr>child_session_list := next_child s\<rparr>) p w)"
  proof (cases us rule: rev_cases)
    case Nil
    have "absw (D(p \<mapsto> ps)) L w" by (rule absw_triv [OF assms(1,3)])
    then show ?thesis using assms(3) Nil by (auto simp: neutral_defs E_def cut_def intro!: upd_safe)
  next
    case (snoc us' q)
    then obtain t where t: "D q = Some t" using k(1) by auto
    then have "absw (D(q \<mapsto> t)) L w" by (rule absw_triv [OF assms(1)])
    then show ?thesis using t snoc by (auto simp: neutral_defs E_def cut_def intro!: upd_safe)
  qed
  have Ea: "E a = Some s" using assms(2,4) k(3) by (auto simp: E_def cut_def final_def)
  have "E p \<noteq> None" using assms(3) by (auto simp: E_def cut_def split: option.splits)
  then obtain es where Ep: "E p = Some es" by blast
  let ?f = "finished_child_session_list es"
  have "safe Q (run [upd (\<lambda>s. s\<lparr>next_child := ?f\<rparr>) a, upd (\<lambda>t. t\<lparr>finished_child_session_list := Some a\<rparr>) p] w')"
    if "absw E L w'" for w'
  proof (rule safe_run, rule upd_safe [OF absw_triv [OF that Ea]])
    fix w'' assume *: "absw (E(a \<mapsto> s\<lparr>next_child := ?f\<rparr>)) L w''"
    have "(E(a \<mapsto> s\<lparr>next_child := ?f\<rparr>)) p = Some es" using Ep assms(4) by simp
    note * = absw_triv [OF * this]
    have eq: "(E(a \<mapsto> s\<lparr>next_child := ?f\<rparr>))(p \<mapsto> es\<lparr>finished_child_session_list := Some a\<rparr>) = moved p a us s D"
      using Ep by (simp add: moved_def E_def Let_def)
    show "safe Q (run [upd (\<lambda>t. t\<lparr>finished_child_session_list := Some a\<rparr>) p] w'')"
    proof (rule safe_run, rule upd_safe [OF *])
      fix v assume "absw (E(a \<mapsto> s\<lparr>next_child := ?f\<rparr>, p \<mapsto> es\<lparr>finished_child_session_list := Some a\<rparr>)) L v"
      then show "safe Q (run [] v)" using assms(9) unfolding eq by (intro safe_nil)
    qed (simp add: neutral_defs)
  qed (simp add: neutral_defs)
  then show ?thesis unfolding esq_move_child_session_into_finish_list_def
    apply (intro safe_bind sess_safe [OF absw_triv [OF assms(1,3)]])
    apply (simp add: find del: run.simps)
    apply (intro safe_bind sess_safe [OF absw_triv [OF assms(1,2)]])
    apply (simp del: run.simps cong: option.case_cong)
    apply (rule safe_mono [OF step])
    apply (intro safe_bind, rule sess_safe, rule absw_triv [of E L _ p es, OF _ Ep], assumption)
    apply (simp del: run.simps)
    done
qed

definition core :: "esq_session_t \<Rightarrow> addr option \<times> bool \<times> bool \<times> bool \<times> bool \<times> byte \<times> pt_label \<times> int \<times> int" where
  "core s = (parent_session s, have_parent_session s, fresh s, dead s, ESQ_CHECK_SESSION s, locus s)"

lemma moved_facts:
  assumes "D a = Some s" "D p = Some ps" "a \<noteq> p" "kin_ok K F D p ps" "K p = us @ a # vs" "p \<notin> set us"
  shows "moved p a us s D p = Some (ps\<lparr>child_session_list := first (us @ vs) None, finished_child_session_list := Some a\<rparr>)"
    and "moved p a us s D a = Some (s\<lparr>next_child := first (F p) None\<rparr>)"
    and "us = us' @ [q] \<Longrightarrow> D q = Some t \<Longrightarrow> moved p a us s D q = Some (t\<lparr>next_child := first vs None\<rparr>)"
    and "b \<noteq> p \<Longrightarrow> b \<noteq> a \<Longrightarrow> us = [] \<or> b \<noteq> last us \<Longrightarrow> moved p a us s D b = D b"
    and "map_option core (moved p a us s D b) = map_option core (D b)"
proof -
  note k = kin_lists [OF assms(4)]
  have n: "next_child s = first vs None" using k(3) assms(1,5) by (simp add: child_f_def)
  have au: "a \<notin> set us" using k(5) assms(5) by auto
  have c: "child_session_list ps = first (us @ a # vs) None" using k(1) assms(5) by simp
  have q: "\<exists>t. D (last us) = Some t" if "us \<noteq> []"
    using chain_alloc [OF k(3), of "last us"] that assms(5) by simp
  have E: "cut p us (next_child s) D p = Some (ps\<lparr>child_session_list := first (us @ vs) None\<rparr>)"
    using assms(2,6) n c by (cases us rule: rev_cases) (auto simp: cut_def)
  then have m: "moved p a us s D = (cut p us (next_child s) D)(a \<mapsto> s\<lparr>next_child := first (F p) None\<rparr>,
      p \<mapsto> ps\<lparr>child_session_list := first (us @ vs) None, finished_child_session_list := Some a\<rparr>)"
    using k(2) by (simp add: moved_def Let_def)
  show 1: "moved p a us s D p = Some (ps\<lparr>child_session_list := first (us @ vs) None, finished_child_session_list := Some a\<rparr>)"
    and 2: "moved p a us s D a = Some (s\<lparr>next_child := first (F p) None\<rparr>)"
    using assms(3) by (simp_all add: m)
  show 3: "us = us' @ [q] \<Longrightarrow> D q = Some t \<Longrightarrow> moved p a us s D q = Some (t\<lparr>next_child := first vs None\<rparr>)" for us' q t
    unfolding m using assms(6) au n by (auto simp: cut_def)
  show 4: "b \<noteq> p \<Longrightarrow> b \<noteq> a \<Longrightarrow> us = [] \<or> b \<noteq> last us \<Longrightarrow> moved p a us s D b = D b" for b
    using assms(3) by (auto simp: m cut_def final_def)
  have 5: "core (t\<lparr>next_child := x\<rparr>) = core t" "core (t\<lparr>child_session_list := x, finished_child_session_list := y\<rparr>) = core t" for t x y
    by (simp_all add: core_def fresh_def dead_def locus_def ESQ_CHECK_SESSION_def)
  show "map_option core (moved p a us s D b) = map_option core (D b)"
  proof (cases "b = p \<or> b = a")
    case True
    then show ?thesis using 1 2 5 assms(1,2) by auto
  next
    case False
    show ?thesis
    proof (cases us rule: rev_cases)
      case Nil
      then show ?thesis using 4 False by simp
    next
      case (snoc us' q')
      then obtain t where "D q' = Some t" using q by auto
      then show ?thesis using 3 [OF snoc] 4 [of b] 5 False snoc by (cases "b = q'") auto
    qed
  qed
qed

lemma coreD: "map_option core (D' c) = map_option core (D c) \<Longrightarrow> D c = Some t \<Longrightarrow> \<exists>t'. D' c = Some t' \<and> core t' = core t"
  by auto

lemma core_fields:
  "core t = core u \<Longrightarrow> parent_session t = parent_session u" "core t = core u \<Longrightarrow> dead t = dead u"
  "core t = core u \<Longrightarrow> fresh t = fresh u" "core t = core u \<Longrightarrow> have_parent_session t = have_parent_session u"
  "core t = core u \<Longrightarrow> locus t = locus u" "core t = core u \<Longrightarrow> ESQ_CHECK_SESSION t = ESQ_CHECK_SESSION u"
  by (simp_all add: core_def)

lemma fam_moved:
  assumes "fam_ok K F D" "D a = Some s" "D p = Some ps" "a \<noteq> p" "K p = us @ a # vs" "p \<notin> set us"
    "dead s" "K a = []" "F a = []"
  shows "fam_ok (K(p := us @ vs)) (F(p := a # F p)) (moved p a us s D)"
  unfolding fam_ok_def
proof (intro allI impI)
  define D' where "D' = moved p a us s D"
  define K' where "K' = K(p := us @ vs)"
  define F' where "F' = F(p := a # F p)"
  note kp = fam_okD [OF assms(1,3)]
  note m = moved_facts [OF assms(2-4) kp assms(5,6), folded D'_def]
  have look: "\<exists>t'. D' c = Some t' \<and> core t' = core t" if "D c = Some t" for c t
    using coreD [of D' c D, OF m(5)] that by auto
  have lists: "set (K' q) \<union> set (F' q) = set (K q) \<union> set (F q)" for q
    using assms(5) by (auto simp: K'_def F'_def)
  fix r t assume "moved p a us s D r = Some t"
  then have r: "D' r = Some t" by (simp add: D'_def)
  then obtain u where u: "D r = Some u" "core t = core u" using m(5) [of r] by (metis (no_types, lifting) map_option_eq_Some)
  note k = fam_okD [OF assms(1) u(1)]
  have up: "q \<noteq> r \<and> D' q \<noteq> None \<and> have_parent_session t \<and> \<not> fresh t \<and> r \<in> set (K' q) \<union> set (F' q)"
    if "parent_session t = Some q" for q
  proof -
    have q: "parent_session u = Some q" using that core_fields(1) [OF u(2)] by simp
    obtain y where "D q = Some y" using kin_up [OF k q] by blast
    then have "D' q \<noteq> None" using look by fastforce
    then show ?thesis using kin_up [OF k q] core_fields [OF u(2)] lists by auto
  qed
  have par: "\<exists>t. D' c = Some t \<and> parent_session t = Some r" if "c \<in> set (K' r) \<union> set (F' r)" for c
    using kin_parent [OF k, of c] that look core_fields(1) unfolding lists by metis
  have "kin_ok K' F' D' r t"
  proof (cases "r = p")
    case True
    have ch: "chain child_f D (us @ a # vs) None" "chain child_f D (F p) None" "distinct (us @ a # vs @ F p)"
      using kin_lists [OF kp] assms(5) by simp_all
    have p_out: "p \<notin> set (K p) \<union> set (F p)" using kin_parent [OF kp, of p] kin_up(1) [OF kp] assms(3) by auto
    have cf: "D' b = D b" if "b \<in> set vs \<union> set (F p)" for b
    proof (rule m(4))
      have "b \<notin> set us" using that ch(3) by auto
      then show "us = [] \<or> b \<noteq> last us" by auto
    qed (use that ch(3) p_out assms(5) in auto)
    have 1: "chain child_f D' vs None" using chain_frame [of vs D' D] cf ch(1) by simp
    have 2: "chain child_f D' (us @ vs) None"
    proof (cases us rule: rev_cases)
      case (snoc us' q)
      obtain v where v: "D q = Some v" using ch(1) snoc by auto
      have "D' b = D b" if "b \<in> set us'" for b
        using that ch(3) p_out assms(5) snoc by (intro m(4)) auto
      then have "chain child_f D' us' (Some q)" using chain_frame [of us' D' D] ch(1) snoc by simp
      then show ?thesis using 1 m(3) [OF snoc v] snoc by (simp add: child_f_def)
    qed (use 1 in simp)
    have 3: "chain child_f D' (a # F p) None"
      using chain_frame [of "F p" D' D] cf ch(2) m(2) by (simp add: child_f_def)
    have fin: "(\<exists>t. D' c = Some t \<and> dead t) \<and> K' c = [] \<and> F' c = []" if "c \<in> set (F' p)" for c
    proof -
      have "(\<exists>t. D c = Some t \<and> dead t) \<and> K c = [] \<and> F c = []" 
        using that assms(2,7-9) kin_finished [OF kp, of c] by (cases "c = a") (auto simp: F'_def)
      moreover have "c \<noteq> p" using that p_out assms(4) by (auto simp: F'_def)
      ultimately show ?thesis using look core_fields(2) by (metis K'_def F'_def fun_upd_other)
    qed
    have t: "child_session_list t = first (us @ vs) None" "finished_child_session_list t = Some a"
      using m(1) r True by auto
    show ?thesis
    proof (rule kin_okI)
      show "distinct (K' r @ F' r)" using ch(3) True by (auto simp: K'_def F'_def)
    next
      fix q assume "parent_session t = Some q"
      then show "q \<noteq> r \<and> D' q \<noteq> None \<and> have_parent_session t \<and> \<not> fresh t \<and> r \<in> set (K' q) \<union> set (F' q)" by (rule up)
    next
      fix c assume "c \<in> set (K' r) \<union> set (F' r)"
      then show "\<exists>t. D' c = Some t \<and> parent_session t = Some r" by (rule par)
    qed (use 2 3 t True fin in \<open>simp_all add: K'_def F'_def\<close>)
  next
    case False
    then have kr: "K' r = K r" "F' r = F r" by (simp_all add: K'_def F'_def)
    have nc: "map_option next_child (D' c) = map_option next_child (D c)" if "c \<in> set (K r) \<union> set (F r)" for c
    proof -
      have "c \<notin> set (K p) \<union> set (F p)" using kin_disjoint [OF assms(1) u(1) assms(3) False that] .
      then have c: "c \<noteq> a" "us = [] \<or> c \<noteq> last us" using assms(5) by auto
      have "D' c = D c" if "c \<noteq> p" using m(4) [OF that c] .
      moreover have "map_option next_child (D' p) = map_option next_child (D p)" unfolding m(1) assms(3) by simp
      ultimately show ?thesis by (cases "c = p") simp_all
    qed
    have cp: "c \<noteq> p" if "c \<in> set (F r)" for c using kin_finished(2) [OF k that] assms(5) by auto
    have fin: "(\<exists>t. D' c = Some t \<and> dead t) \<and> K' c = [] \<and> F' c = []" if "c \<in> set (F r)" for c
      using kin_finished [OF k that] cp [OF that] look core_fields(2) by (metis K'_def F'_def fun_upd_other)
    have t: "child_session_list t = child_session_list u" "finished_child_session_list t = finished_child_session_list u"
    proof -
      have "t = u \<or> (\<exists>x. t = u\<lparr>next_child := x\<rparr>)"
      proof -
        consider "r = a" | "r \<noteq> a" "us \<noteq> []" "r = last us" | "r \<noteq> a" "us = [] \<or> r \<noteq> last us" by blast
        then show ?thesis
        proof cases
          case 1
          then have "u = s" "t = s\<lparr>next_child := first (F p) None\<rparr>" using u(1) assms(2) r m(2) by simp_all
          then show ?thesis by blast
        next
          case 2
          then have "us = butlast us @ [r]" by simp
          from m(3) [OF this u(1)] have "t = u\<lparr>next_child := first vs None\<rparr>" using r by simp
          then show ?thesis by blast
        next
          case 3
          from m(4) [OF False this] show ?thesis using r u(1) by simp
        qed
      qed
      then show "child_session_list t = child_session_list u" "finished_child_session_list t = finished_child_session_list u"
        by auto
    qed
    show ?thesis
      by (rule kin_okI)
        (use kr t kin_lists [OF k] chain_child_cong [of "K r" D' D] chain_child_cong [of "F r" D' D] nc par up fin in simp_all)
  qed
  then show "kin_ok (K(p := us @ vs)) (F(p := a # F p)) (moved p a us s D) r t" by (simp add: D'_def K'_def F'_def)
qed

end
