(* ===== verification/Esq_Action.thy ===== *)
theory Esq_Action
  imports Esq_Safety
begin

text \<open>
  \<^verbatim>\<open>__esq_session_take_action\<close> keeps the invariant of the engine.

  A machine that was told of an event or starts asks for no further operation, so the call for the parent
  of a finished session and the loop over type switches are at most one level deep.
\<close>

section \<open>One run of a machine\<close>

lemma pt_of_type_supported:
  assumes "supported s"
  shows "\<exists>pt. pt_of_type (session_type s) = Some pt"
  using assms by (auto simp: supported_def fresh_def pt_of_type_def)

lemma handled_cong:
  assumes "handled a D L s w" "family s = family t" "dead s = dead t" "fresh s = fresh t"
  shows "handled a D L t w"
  using assms unfolding handled_def by metis

lemma post_op_same [simp]:
  "family (s\<lparr>post_op := b\<rparr>) = family s" "dead (s\<lparr>post_op := b\<rparr>) = dead s" "locus (s\<lparr>post_op := b\<rparr>) = locus s"
  by (simp_all add: family_def dead_def locus_def)

lemmas post_op_cong [simp] = locus_cong [OF post_op_same(3)]

text \<open>The state in which a session may be given an action.\<close>

definition ready :: "addr set \<Rightarrow> esq_session_pt_action_t \<Rightarrow> addr \<Rightarrow> bool" where
  "ready X act a \<longleftrightarrow> X = (if a_type act = ACTION_PICK_UP then {a} else {})"

lemma machine_handled:
  assumes "cfg a D L s p w" "supported s" "fresh s \<Longrightarrow> right s p" "\<not> fresh s \<Longrightarrow> entry act s p" "plain act"
    "pt_of_type (session_type s) = Some pt"
  shows "safe (handled a D L s) (run [set_post_op POP_NO_OP a, pt e act a] w)"
proof -
  let ?s = "s\<lparr>post_op := POP_NO_OP\<rparr>"
  have "safe (handled a D L ?s) (pt e act a w')" if c: "cfg a D L ?s p w'" for w'
  proof -
    consider "fresh s" "pt = esq_pt_of_no_fd"
      | "\<not> fresh s" "session_type s = ESQ_SESSION_TYPE_SOCKET_CB" "pt = esq_pt_of_single_shot_socket"
      | "\<not> fresh s" "session_type s = ESQ_SESSION_TYPE_MULTI_SOCKET_CB" "pt = esq_pt_of_multi_shot_socket"
      using assms(2,6) by (auto simp: supported_def fresh_def pt_of_type_def session_type_defs split: if_splits)
    then show ?thesis
    proof cases
      case 1
      then show ?thesis using pt_no_fd_handled [OF c _ _ assms(5)] assms(3) by simp
    next
      case 2
      then show ?thesis using pt_single_shot_handled [OF c _ _ assms(5)] assms(4) by simp
    next
      case 3
      then show ?thesis using pt_multi_shot_handled [OF c] assms(4) by simp
    qed
  qed
  then have "safe (handled a D L s) (pt e act a w')" if "cfg a D L ?s p w'" for w'
    by (rule safe_mono) (use that in \<open>auto intro: handled_cong\<close>)
  then show ?thesis
    by (intro safe_run, unfold set_post_op_def, intro cfg_upd [OF assms(1)])
      (auto simp: neutral_defs intro: safe_bind elim!: safe_mono)
qed

text \<open>A machine that is told of an event, or starts, asks for nothing.\<close>

definition yields :: "addr \<Rightarrow> (esq_session_t \<Rightarrow> bool) \<Rightarrow> world res \<Rightarrow> bool" where
  "yields a P x \<longleftrightarrow> (\<forall>w. x = Inr w \<longrightarrow> (\<exists>s. heap w a = Some s \<and> P s))"

lemma yields_run: "(\<And>w. yields a P (run fs w)) \<Longrightarrow> yields a P (run (f # fs) w)"
  by (cases "f w") (simp_all add: yields_def)

lemma yields_exit [simp]: "yields a P (Inl x)"
  by (simp add: yields_def)

definition quiet :: "addr \<Rightarrow> world res \<Rightarrow> bool" where
  "quiet a = yields a (\<lambda>s. post_op s = POP_NO_OP)"

lemma quiet_run: "(\<And>w. quiet a (run fs w)) \<Longrightarrow> quiet a (run (f # fs) w)"
  unfolding quiet_def by (rule yields_run)

lemma quiet_end:
  "quiet a (run [set_post_op POP_NO_OP a, goto_set l a] w)" "quiet a (run [set_post_op POP_NO_OP a] w)"
  by (auto simp: quiet_def yields_def pt_ops upd_def sess_def of_opt_def bindE_def split: option.splits)

lemma quiet_start: "(\<And>s. post_op (f s) = POP_NO_OP) \<Longrightarrow> quiet a (run [upd f a, goto_set l a] w)"
  by (auto simp: quiet_def yields_def pt_ops upd_def sess_def of_opt_def bindE_def split: option.splits)

lemma quiet_ends:
  "quiet a (run [f, set_post_op POP_NO_OP a] w)" "quiet a (run [f, set_post_op POP_NO_OP a, goto_set l a] w)"
  "quiet a (run [f, g, h, set_post_op POP_NO_OP a, goto_set l a] w)"
  by (rule quiet_end quiet_run)+

lemma quiet_exit [simp]: "quiet a (Inl x)"
  by (simp add: quiet_def)

lemma machine_start:
  assumes "heap w a = Some t"
  shows "run [set_post_op POP_NO_OP a, pt e act a] w = pt e act a (w\<lparr>heap := (heap w)(a \<mapsto> t\<lparr>post_op := POP_NO_OP\<rparr>)\<rparr>)"
  using assms by (cases "pt e act a (w\<lparr>heap := (heap w)(a \<mapsto> t\<lparr>post_op := POP_NO_OP\<rparr>)\<rparr>)")
    (simp_all add: pt_ops upd_def sess_def of_opt_def)

lemma single_shot_quiet:
  assumes "heap w a = Some s" "post_op s = POP_NO_OP" "a_type act = ACTION_NOTIFY_EVENT \<or> lc s = PT_START"
  shows "quiet a (esq_pt_of_single_shot_socket e act a w)"
proof (cases "lc s = PT_START")
  case True
  then show ?thesis using assms(1)
    by (simp add: esq_pt_of_single_shot_socket_def sess_def of_opt_def ss_start_def quiet_start del: run.simps)
next
  case False
  have "quiet a (Inr w)" using assms(1,2) by (simp add: quiet_def yields_def)
  moreover have "quiet a (h e act a w)" if "h \<in> {pt_initial, ss_wait_for_cpu, ss_winded_up,
      ss_wait_for_removed_then_active, pt_active, ss_execute_cb, ss_wait_for_reinstall}" for h
    using that assms(3) False
    by (auto simp: pt_initial_def ss_wait_for_cpu_def ss_winded_up_def ss_wait_for_removed_then_active_def
        pt_active_def ss_execute_cb_def ss_wait_for_reinstall_def INVALID_ACTION_TYPE_def
        quiet_ends simp del: run.simps)
  ultimately show ?thesis using assms(1) False
    by (cases "lc s") (simp_all add: esq_pt_of_single_shot_socket_def sess_def of_opt_def INVALID_ACTION_TYPE_def)
qed

lemma multi_shot_quiet:
  assumes "heap w a = Some s" "post_op s = POP_NO_OP" "a_type act = ACTION_NOTIFY_EVENT \<or> lc s = PT_START"
  shows "quiet a (esq_pt_of_multi_shot_socket e act a w)"
proof (cases "lc s = PT_START")
  case True
  then show ?thesis using assms(1)
    by (simp add: esq_pt_of_multi_shot_socket_def sess_def of_opt_def ms_start_def quiet_start del: run.simps)
next
  case False
  have "quiet a (Inr w)" using assms(1,2) by (simp add: quiet_def yields_def)
  moreover have "quiet a (h e act a w)" if "h \<in> {ms_initial, ms_wait_for_cpu, ms_winded_up, ms_active, ms_execute_cb,
      ms_wait_for_removed_and_wind_up, ms_wait_for_removed, ms_wait_for_wind_up}" for h
    using that assms(1,3) False
    by (auto simp: ms_initial_def ms_wait_for_cpu_def ms_winded_up_def ms_active_def ms_execute_cb_def sess_def of_opt_def
        ms_wait_for_removed_and_wind_up_def ms_wait_for_removed_def ms_wait_for_wind_up_def INVALID_ACTION_TYPE_def
        quiet_ends simp del: run.simps)
  ultimately show ?thesis using assms(1) False
    by (cases "lc s") (simp_all add: esq_pt_of_multi_shot_socket_def sess_def of_opt_def INVALID_ACTION_TYPE_def)
qed

text \<open>Both results of a machine together, in a valid state.\<close>

lemma safe_conj: "safe P x \<Longrightarrow> (\<And>y. x = Inr y \<Longrightarrow> Q y) \<Longrightarrow> safe (\<lambda>y. P y \<and> Q y) x"
  by (auto simp: safe_def split: sum.splits)

lemma machine_quiet:
  assumes "supported s" "heap w a = Some t" "session_type t = session_type s" "lc t = lc s"
    "a_type act = ACTION_NOTIFY_EVENT \<or> lc s = PT_START \<and> \<not> fresh s" "pt_of_type (session_type s) = Some pt"
  shows "quiet a (run [set_post_op POP_NO_OP a, pt e act a] w)"
proof -
  let ?t = "t\<lparr>post_op := POP_NO_OP\<rparr>" and ?w = "w\<lparr>heap := (heap w)(a \<mapsto> t\<lparr>post_op := POP_NO_OP\<rparr>)\<rparr>"
  have "quiet a (pt e act a ?w)"
  proof -
    consider "fresh s" "pt = esq_pt_of_no_fd" | "pt = esq_pt_of_single_shot_socket" | "pt = esq_pt_of_multi_shot_socket"
      using assms(1,6) by (auto simp: supported_def fresh_def pt_of_type_def session_type_defs split: if_splits)
    then show ?thesis
    proof cases
      case 1
      then show ?thesis using assms(5) by (auto simp: esq_pt_of_no_fd_def INVALID_ACTION_TYPE_def)
    next
      case 2
      then show ?thesis using single_shot_quiet [of ?w a ?t] assms(4,5) by auto
    next
      case 3
      then show ?thesis using multi_shot_quiet [of ?w a ?t] assms(4,5) by auto
    qed
  qed
  then show ?thesis by (simp only: machine_start [OF assms(2)])
qed

section \<open>The operation a machine asked for\<close>

definition post_operation :: "nat \<Rightarrow> env \<Rightarrow> esq_session_pt_action_t \<Rightarrow> addr \<Rightarrow> world \<Rightarrow> (int \<times> world) res" where
  "post_operation n e act a w =
     bindE (sess a w) (\<lambda>s.
         if POP_JOIN_GLOBAL_NEW_LIST AND post_op s \<noteq> 0 then
           bindE (esq_join_global_new_list a w) (\<lambda>w. Inr (ESQ_OK, w))
         else if POP_JOIN_LOCAL_NEW_LIST AND post_op s \<noteq> 0 then
           bindE (esq_join_local_new_list a w) (\<lambda>w. Inr (ESQ_OK, w))
         else if POP_FREE_SESSION AND post_op s \<noteq> 0 then
           bindE (esq_unhook_child_session e a w) (\<lambda>w.
           bindE (sess a w) (\<lambda>s.
           if have_parent_session s then
             case parent_session s of
               Some p \<Rightarrow>
                 bindE (esq_move_child_session_into_finish_list e p a w) (\<lambda>w.
                 bindE (esq_session_take_action n e (notify_action e ESQ_EVENT_BIT_TASK_DONE) (Some p) w) (\<lambda>(r, w).
                 Inr (ESQ_OK, w)))
             | None \<Rightarrow> bindE (run [call_session_done_cb a, free_session a] w) (\<lambda>w. Inr (ESQ_OK, w))
           else bindE (free_session a w) (\<lambda>w. Inr (ESQ_OK, w))))
         else if POP_SWITCH_SESSION_TYPE AND post_op s \<noteq> 0 then
           bindE (goto_set PT_START a w) (\<lambda>w. esq_session_take_action n e act (Some a) w)
         else if POP_RETURN_VALUE AND post_op s \<noteq> 0 then Inr (retval s, w)
         else Inr (ESQ_OK, w))"

lemma take_action_machine:
  assumes "sess a w = Inr s" "ESQ_CHECK_SESSION s" "pt_of_type (session_type s) = Some pt"
  shows "esq_session_take_action (Suc n) e act (Some a) w =
    bindE (run [set_post_op POP_NO_OP a, pt e act a] w) (post_operation n e act a)"
  using assms by (simp add: esq_session_take_action.simps post_operation_def [abs_def])

lemma post_bits [simp]:
  "POP_JOIN_GLOBAL_NEW_LIST AND POP_NO_OP = 0" "POP_JOIN_LOCAL_NEW_LIST AND POP_NO_OP = 0"
  "POP_FREE_SESSION AND POP_NO_OP = 0" "POP_SWITCH_SESSION_TYPE AND POP_NO_OP = 0" "POP_RETURN_VALUE AND POP_NO_OP = 0"
  "POP_JOIN_GLOBAL_NEW_LIST \<noteq> 0" "POP_JOIN_LOCAL_NEW_LIST \<noteq> 0" "POP_FREE_SESSION \<noteq> 0" "POP_SWITCH_SESSION_TYPE \<noteq> 0"
  "POP_JOIN_GLOBAL_NEW_LIST AND POP_JOIN_LOCAL_NEW_LIST = 0"
  "POP_JOIN_GLOBAL_NEW_LIST AND POP_FREE_SESSION = 0" "POP_JOIN_LOCAL_NEW_LIST AND POP_FREE_SESSION = 0"
  "POP_JOIN_GLOBAL_NEW_LIST AND POP_SWITCH_SESSION_TYPE = 0" "POP_JOIN_LOCAL_NEW_LIST AND POP_SWITCH_SESSION_TYPE = 0"
  "POP_FREE_SESSION AND POP_SWITCH_SESSION_TYPE = 0"
  "POP_JOIN_GLOBAL_NEW_LIST AND POP_RETURN_VALUE = 0" "POP_JOIN_LOCAL_NEW_LIST AND POP_RETURN_VALUE = 0"
  "POP_FREE_SESSION AND POP_RETURN_VALUE = 0" "POP_SWITCH_SESSION_TYPE AND POP_RETURN_VALUE = 0"
  by (simp_all add: pop_defs)

definition result :: "esq_session_t \<Rightarrow> int" where
  "result s = (if post_op s = POP_RETURN_VALUE then retval s else ESQ_OK)"

lemma post_result:
  assumes "cfg a D L s p w" "post_op s = POP_NO_OP \<or> post_op s = POP_RETURN_VALUE" "Q (result s, w)"
  shows "safe Q (post_operation n e act a w)"
  unfolding post_operation_def
  by (intro safe_bind cfg_sess [OF assms(1)]) (use assms(2,3) in \<open>auto simp: result_def pop_defs\<close>)

lemma post_none:
  assumes "cfg a D L s p w" "post_op s \<in> {POP_NO_OP, POP_RETURN_VALUE}" "Q w"
  shows "safe (\<lambda>(r, w). Q w) (post_operation n e act a w)"
  using post_result [OF assms(1), of "\<lambda>(r, w). Q w"] assms(2,3) by auto

text \<open>What is known of the session of an action before and after its machine ran.\<close>

definition stepped :: "esq_session_t \<Rightarrow> esq_session_t \<Rightarrow> bool" where
  "stepped s t \<longleftrightarrow> family t = family s \<and> supported t \<and> (dead s \<longrightarrow> dead t) \<and> (fresh t \<longrightarrow> fresh s)"

lemma stepped_trans: "stepped s t \<Longrightarrow> stepped t u \<Longrightarrow> stepped s u"
  by (simp add: stepped_def)

lemma handled_iff: "handled a D L s w \<longleftrightarrow> (\<exists>s' p. cfg a D L s' p w \<and> stepped s s' \<and>
    (post_op s' = POP_SWITCH_SESSION_TYPE \<longrightarrow> \<not> dead s) \<and> post_ok s' p)"
  unfolding handled_def stepped_def by (simp add: conj_assoc)

lemma inv_stepped:
  assumes "inv X D L K F w" "D a = Some s" "cfg a D L s' p w'" "stepped s s'" "right s' p"
  shows "\<exists>L'. inv (X - {a}) (D(a \<mapsto> s')) L' K F w'"
  using inv_step [OF assms(1-3)] assms(4,5) by (auto simp: stepped_def)

lemma cfg_heap: "cfg a D L s p w \<Longrightarrow> \<exists>t. heap w a = Some t \<and> strip t = s"
  unfolding cfg_def absw_def by (metis fun_upd_same map_option_eq_Some)

text \<open>A machine that asks for no operation on other sessions.\<close>

lemma post_ok_right:
  assumes "post_ok s p" "post_op s = POP_NO_OP \<or> post_op s = POP_RETURN_VALUE"
  shows "right s p"
proof -
  have "post_op s \<notin> {POP_JOIN_GLOBAL_NEW_LIST, POP_JOIN_LOCAL_NEW_LIST}" "post_op s \<noteq> POP_FREE_SESSION"
    "post_op s \<noteq> POP_SWITCH_SESSION_TYPE"
    using assms(2) by (elim disjE; simp add: pop_defs)+
  then show ?thesis using assms(1) unfolding post_ok_def by blast
qed

lemma take_yields:
  assumes "inv X D L K F w0" "D a = Some s0" "cfg a D L s p w" "stepped s0 s" "plain act"
    and "fresh s \<Longrightarrow> right s p" "\<not> fresh s \<Longrightarrow> entry act s p" "pt_of_type (session_type s) = Some pt"
    and "yields a P (run [set_post_op POP_NO_OP a, pt e act a] w)" "\<And>t. P (strip t) = P t"
    and "\<And>t. P t \<Longrightarrow> post_op t = POP_NO_OP \<or> post_op t = POP_RETURN_VALUE"
  shows "safe (\<lambda>(r, w'). \<exists>s' p'. cfg a D L s' p' w' \<and> stepped s0 s' \<and> right s' p' \<and> P s' \<and>
      r = result s') (esq_session_take_action (Suc n) e act (Some a) w)"
    (is "safe ?Q _")
proof -
  have sup: "supported s" using assms(4) by (simp add: stepped_def)
  obtain t where t: "heap w a = Some t" "strip t = s" using cfg_heap [OF assms(3)] by blast
  have st: "session_type t = session_type s" "family t = family s" using t(2) by (auto simp: strip_def family_def)
  have "ESQ_CHECK_SESSION s0" using assms(1,2) by (simp add: inv_def placed_def)
  then have ck: "ESQ_CHECK_SESSION t" using st(2) assms(4) family_fields(6) [of s s0] family_fields(6) [of t s]
    by (simp add: stepped_def)
  have "safe (\<lambda>w. handled a D L s w \<and> (\<exists>t. heap w a = Some t \<and> P t)) (run [set_post_op POP_NO_OP a, pt e act a] w)"
    using machine_handled [OF assms(3) sup assms(6,7,5,8)] assms(9) by (intro safe_conj) (auto simp: yields_def)
  moreover have "safe ?Q (post_operation n e act a w')" if h: "handled a D L s w'" "heap w' a = Some t'" "P t'" for w' t'
  proof -
    obtain s' p' where s': "cfg a D L s' p' w'" "stepped s s'" "post_ok s' p'" using h(1) by (auto simp: handled_iff)
    obtain u where "heap w' a = Some u" "strip u = s'" using cfg_heap [OF s'(1)] by blast
    then have P: "P s'" using h(2,3) assms(10) by (metis option.inject)
    then have po: "post_op s' = POP_NO_OP \<or> post_op s' = POP_RETURN_VALUE" by (rule assms(11))
    then have "right s' p'" using post_ok_right [OF s'(3)] by blast
    then show ?thesis using P po s'(1) stepped_trans [OF assms(4) s'(2)] by (intro post_result [OF s'(1)]) auto
  qed
  ultimately have "safe ?Q (bindE (run [set_post_op POP_NO_OP a, pt e act a] w) (post_operation n e act a))"
    by (intro safe_bind) (auto elim!: safe_mono)
  then show ?thesis using take_action_machine [of a w t pt n e act] t(1) ck assms(8) st(1) by (simp add: sess_def of_opt_def)
qed

lemma take_quiet:
  assumes "inv X D L K F w0" "D a = Some s0" "cfg a D L s p w" "stepped s0 s" "plain act"
    and "a_type act = ACTION_NOTIFY_EVENT \<and> right s p \<or> lc s = PT_START \<and> \<not> fresh s \<and> p = None"
  shows "safe (\<lambda>(r, w'). \<exists>s' L'. inv (X - {a}) (D(a \<mapsto> s')) L' K F w') (esq_session_take_action (Suc n) e act (Some a) w)"
proof -
  have sup: "supported s" using assms(4) by (simp add: stepped_def)
  obtain pt where pt: "pt_of_type (session_type s) = Some pt" using pt_of_type_supported [OF sup] by blast
  obtain t where t: "heap w a = Some t" "strip t = s" using cfg_heap [OF assms(3)] by blast
  have st: "session_type t = session_type s" "lc t = lc s" using t(2) by (auto simp: strip_def)
  have en: "fresh s \<Longrightarrow> right s p" "\<not> fresh s \<Longrightarrow> entry act s p"
    using assms(6) sup by (auto simp: entry_def right_def labels_def fresh_def supported_def split: if_splits)
  have q: "yields a (\<lambda>s. post_op s = POP_NO_OP) (run [set_post_op POP_NO_OP a, pt e act a] w)"
    using machine_quiet [OF sup t(1) st _ pt, of act e] assms(6) by (auto simp: quiet_def)
  show ?thesis
    by (rule safe_mono [OF take_yields [OF assms(1-5) en pt q]])
      (use inv_stepped [OF assms(1,2)] in \<open>auto simp: strip_def, blast\<close>)
qed

section \<open>Removal of a session\<close>

lemma dead_places:
  assumes "dead s" "supported s" "\<not> fresh s"
  shows "places s = {}" "lc s \<in> labels s" "settled s \<Longrightarrow> right s None"
  using assms by (auto simp: dead_def places_def labels_def supported_def right_def session_type_defs)

lemma placedD:
  assumes "placed X D L" "D b = Some u" "b \<notin> X"
  shows "supported u" "ESQ_CHECK_SESSION u" "\<exists>p. pos b L p \<and> right u p"
proof -
  have "supported u \<and> ESQ_CHECK_SESSION u \<and>
      (\<exists>p. pos b L p \<and> (if b \<in> X then picked u p else right u p))"
    using assms(1,2) unfolding placed_def by blast
  then show "supported u" "ESQ_CHECK_SESSION u" "\<exists>p. pos b L p \<and> right u p" using assms(3) by auto
qed

lemma finished_nowhere:
  assumes "inv X D L K F w" "X \<subseteq> {a}" "D a = Some s" "c \<in> set (F a)" "others a L L'"
  shows "nowhere c L'"
proof -
  have k: "kin_ok K F D a s" using assms(1,3) by (simp add: inv_def fam_okD)
  obtain t where t: "D c = Some t" "dead t" using kin_finished(1) [OF k assms(4)] by blast
  obtain u where u: "D c = Some u" "parent_session u = Some a" using kin_parent [OF k, of c] assms(4) by blast
  have "kin_ok K F D c u" using assms(1) u(1) by (simp add: inv_def fam_okD)
  from kin_up [OF this u(2)] have nf: "a \<noteq> c" "\<not> fresh t" using t(1) u(1) by simp_all
  have "placed X D L" "c \<notin> X" using assms(1,2) nf(1) by (auto simp: inv_def)
  then obtain p where p: "pos c L p" "right t p" "supported t" using placedD [of X D L c t] t(1) by blast
  have "p = None" using right_none [OF p(2)] dead_places(1) [OF t(2) p(3) nf(2)] .
  then show ?thesis using p(1) others_pos [OF assms(5), of c None] nf(1) by (auto simp: pos_nowhere)
qed

lemma kin_length:
  assumes "kin_ok K F D a s" "dom D \<subseteq> A" "enough e A"
  shows "length (K a) \<le> loop_fuel e" "length (F a) \<le> loop_fuel e"
proof -
  have "set (K a) \<union> set (F a) \<subseteq> A" using kin_parent [OF assms(1)] assms(2) by blast
  moreover have "distinct (K a)" "distinct (F a)" using kin_lists(5) [OF assms(1)] by auto
  ultimately show "length (K a) \<le> loop_fuel e" "length (F a) \<le> loop_fuel e"
    using assms(3) card_mono [of A "set (K a)"] card_mono [of A "set (F a)"]
    by (auto simp: enough_def distinct_card)
qed

lemma placed_change:
  assumes "placed X D L" "X \<subseteq> {a}" "others a L L'"
    and "\<And>b t. D' b = Some t \<Longrightarrow> b \<noteq> a \<Longrightarrow>
      \<exists>u. D b = Some u \<and> locus t = locus u \<and> ESQ_CHECK_SESSION t = ESQ_CHECK_SESSION u"
    and "\<And>t. D' a = Some t \<Longrightarrow> supported t \<and> ESQ_CHECK_SESSION t \<and> (\<exists>p. pos a L' p \<and> right t p)"
  shows "placed {} D' L'"
  unfolding placed_def
proof (intro allI impI)
  fix b t assume b: "D' b = Some t"
  show "supported t \<and> ESQ_CHECK_SESSION t \<and>
      (\<exists>p. pos b L' p \<and> (if b \<in> {} then picked t p else right t p))"
  proof (cases "b = a")
    case False
    then obtain u where u: "D b = Some u" "locus t = locus u" "ESQ_CHECK_SESSION t = ESQ_CHECK_SESSION u"
      using assms(4) [OF b] by blast
    have "b \<notin> X" using assms(2) False by blast
    then obtain p where "pos b L p" "right u p" "supported u" "ESQ_CHECK_SESSION u"
      using placedD [OF assms(1) u(1)] by blast
    then show ?thesis using locus_cong [OF u(2)] u(3) others_pos [OF assms(3) False] by auto
  qed (use assms(5) b in auto)
qed

lemma dissolved_locus:
  assumes "dissolved a ks fs D b = Some t"
  shows "\<exists>u. D b = Some u \<and> locus t = locus u \<and> ESQ_CHECK_SESSION t = ESQ_CHECK_SESSION u"
  using assms by (auto simp: dissolved_def orphan_def locus_def ESQ_CHECK_SESSION_def split: if_splits)

text \<open>A session that has left all lists and has no children any more.\<close>

definition bare :: "addr set \<Rightarrow> addr \<Rightarrow> esq_session_t \<Rightarrow> (addr \<Rightarrow> esq_session_t option) \<Rightarrow> (list_id \<Rightarrow> addr list) \<Rightarrow>
    (addr \<Rightarrow> addr list) \<Rightarrow> (addr \<Rightarrow> addr list) \<Rightarrow> world \<Rightarrow> bool" where
  "bare A a s D L K F w \<longleftrightarrow> absw D L w \<and> fam_ok K F D \<and> D a = Some s \<and> K a = [] \<and> F a = [] \<and> nowhere a L \<and>
     placed {} (D(a := None)) L \<and> dom D \<subseteq> A \<and> supported s \<and> settled s \<and> ESQ_CHECK_SESSION s"

lemma unhook_bare:
  assumes "inv X D L K F w0" "X \<subseteq> {a}" "D a = Some s0" "cfg a D L s None w" "stepped s0 s" "dom D \<subseteq> A" "enough e A"
    and "settled s" "\<And>D' L' K' F' w'. bare A a (s\<lparr>child_session_list := None, finished_child_session_list := None\<rparr>) D' L' K' F' w' \<Longrightarrow> Q w'"
  shows "safe Q (esq_unhook_child_session e a w)"
proof -
  let ?D = "D(a \<mapsto> s)" and ?s = "s\<lparr>child_session_list := None, finished_child_session_list := None\<rparr>"
  note i = assms(1) [unfolded inv_def]
  obtain L1 where L1: "absw ?D L1 w" "others a L L1" "pos a L1 None" using assms(4) by (auto simp: cfg_def)
  have fam: "fam_ok K F ?D" using fam_ok_upd [of K F D a s0 s] i assms(3,5) by (simp add: stepped_def)
  have k: "kin_ok K F ?D a s" using fam_okD [OF fam, of a s] by simp
  have ck: "ESQ_CHECK_SESSION s" using i assms(3,5) family_fields(6) [of s s0] by (simp add: stepped_def placed_def)
  have self: "a \<notin> set (K a) \<union> set (F a)" using kin_parent [OF k, of a] kin_up(1) [OF k] by auto
  have dom: "dom ?D \<subseteq> A" using assms(3,6) by auto
  show ?thesis
  proof (rule unhook_session_safe [OF L1(1) _ k self kin_length [OF k dom assms(7)]])
    fix w' assume w': "absw (dissolved a (K a) (F a) ?D) L1 w'"
    let ?D2 = "dissolved a (K a) (F a) ?D"
    have "fam_ok (K(a := [])) (F(a := [])) ?D2" using fam_dissolved [OF fam] by simp
    moreover have "?D2 a = Some ?s" by (simp add: dissolved_def)
    moreover have "\<exists>u. D b = Some u \<and> locus t = locus u \<and> ESQ_CHECK_SESSION t = ESQ_CHECK_SESSION u"
      if "?D2 b = Some t" "b \<noteq> a" for b t using dissolved_locus [OF that(1)] that(2) by simp
    then have "placed {} (?D2(a := None)) L1"
      by (intro placed_change [OF _ assms(2) L1(2), of D]) (use i in \<open>auto split: if_splits\<close>)
    moreover have "dom ?D2 \<subseteq> A" using dom by (rule subset_trans [rotated]) (auto simp: dissolved_def orphan_def split: if_splits)
    ultimately have "bare A a ?s ?D2 L1 (K(a := [])) (F(a := [])) w'"
      using w' L1(3) ck assms(5,8) by (simp add: bare_def pos_nowhere stepped_def supported_def fresh_def ESQ_CHECK_SESSION_def settled_def)
    then show "Q w'" by (rule assms(9))
  qed (use finished_nowhere [OF assms(1-3) _ L1(2)] in auto)
qed

lemma free_bare:
  assumes "bare A a s D L K F w" "parent_session s = None"
  shows "safe (valid A {}) (free_session a w)"
proof (rule free_session_safe)
  note b = assms(1) [unfolded bare_def]
  show "absw D L w" "D a = Some s" "nowhere a L" using b by simp_all
  fix w' assume "absw (D(a := None)) L w'"
  then have "inv {} (D(a := None)) L K F w'" using b fam_free [of K F D a s] assms(2) by (simp add: inv_def)
  moreover have "dom (D(a := None)) \<subseteq> A" using b by auto
  ultimately show "valid A {} w'" unfolding valid_def by blast
qed

lemma inv_moved:
  assumes "bare A a s D L K F w" "D q = Some qs" "a \<noteq> q" "K q = us @ a # vs" "q \<notin> set us" "dead s" "\<not> fresh s"
    and "absw (moved q a us s D) L w'"
  shows "inv {} (moved q a us s D) L (K(q := us @ vs)) (F(q := a # F q)) w'" "dom (moved q a us s D) \<subseteq> A"
proof -
  let ?D = "moved q a us s D"
  note b = assms(1) [unfolded bare_def]
  have kq: "kin_ok K F D q qs" using b assms(2) by (simp add: fam_okD)
  have Da: "D a = Some s" using b by simp
  note m = moved_facts [OF Da assms(2,3) kq assms(4,5)]
  have core: "\<exists>u. D b = Some u \<and> core t = core u" if "?D b = Some t" for b t
    using m(5) [of b] that by (metis (no_types, lifting) map_option_eq_Some)
  have "placed {} ?D L"
  proof (rule placed_change [of "{}" "D(a := None)" L a])
    show "placed {} (D(a := None)) L" using b by simp
    show "\<exists>u. (D(a := None)) c = Some u \<and> locus t = locus u \<and> ESQ_CHECK_SESSION t = ESQ_CHECK_SESSION u"
      if c: "?D c = Some t" "c \<noteq> a" for c t
    proof -
      obtain u where "D c = Some u" "core t = core u" using core [OF c(1)] by blast
      then show ?thesis using core_fields(5,6) [of t u] c(2) by simp
    qed
    show "supported t \<and> ESQ_CHECK_SESSION t \<and> (\<exists>p. pos a L p \<and> right t p)" if "?D a = Some t" for t
    proof -
      have t: "core t = core s" using core [OF that] Da by simp
      note lo = locus_cong [OF core_fields(5) [OF t]]
      show ?thesis
        using b lo core_fields(6) [OF t] dead_places(3) [OF assms(6) _ assms(7)] by (auto simp: pos_nowhere [symmetric])
    qed
  qed simp_all
  moreover have "fam_ok (K(q := us @ vs)) (F(q := a # F q)) ?D"
    by (rule fam_moved [of K F D a s q qs us vs]) (use b assms(2-6) in simp_all)
  ultimately show "inv {} ?D L (K(q := us @ vs)) (F(q := a # F q)) w'" using assms(8) by (simp add: inv_def)
  show "dom ?D \<subseteq> A" using core b by blast
qed

lemma notify_parent:
  assumes "inv {} D L K F w" "D q = Some qs" "dom D \<subseteq> A"
  shows "safe (\<lambda>(r, w). valid A {} w) (esq_session_take_action (Suc n) e (notify_action e b) (Some q) w)"
proof -
  obtain p where p: "cfg q D L qs p w" "right qs p" using inv_cfg [OF assms(1,2)] by auto
  have sup: "stepped qs qs" using assms(1,2) by (simp add: stepped_def inv_def placed_def)
  have "safe (\<lambda>(r, w'). \<exists>s' L'. inv ({} - {q}) (D(q \<mapsto> s')) L' K F w')
      (esq_session_take_action (Suc n) e (notify_action e b) (Some q) w)"
    by (rule take_quiet [OF assms(1,2) p(1) sup]) (simp_all add: plain_def notify_action_def p(2))
  then show ?thesis
  proof (rule safe_mono)
    fix y assume "case y of (r, w') \<Rightarrow> \<exists>s' L'. inv ({} - {q}) (D(q \<mapsto> s')) L' K F w'"
    then obtain s' L' where "inv {} (D(q \<mapsto> s')) L' K F (snd y)" by (auto split: prod.splits)
    moreover have "dom (D(q \<mapsto> s')) \<subseteq> A" using assms(2,3) by auto
    ultimately have "valid A {} (snd y)" unfolding valid_def by blast
    then show "case y of (r, w) \<Rightarrow> valid A {} w" by (simp add: case_prod_beta)
  qed
qed

lemma move_bare:
  assumes "bare A a s D L K F w" "parent_session s = Some q" "dead s" "enough e A"
  shows "safe (\<lambda>(r, w). valid A {} w) (bindE (esq_move_child_session_into_finish_list e q a w) (\<lambda>w.
      bindE (esq_session_take_action (Suc n) e (notify_action e b) (Some q) w) (\<lambda>(r, w). Inr (ESQ_OK, w))))"
proof -
  note ba = assms(1) [unfolded bare_def]
  have k: "kin_ok K F D a s" using ba by (simp add: fam_okD)
  note up = kin_up [OF k assms(2)]
  obtain qs where qs: "D q = Some qs" using up(2) by auto
  have kq: "kin_ok K F D q qs" using ba qs by (simp add: fam_okD)
  have dom: "dom D \<subseteq> A" using ba by simp
  have len: "length (K q) \<le> loop_fuel e" using kin_length [OF kq dom assms(4)] by simp
  show ?thesis
  proof (cases "a \<in> set (K q)")
    case True
    then obtain us vs where K: "K q = us @ a # vs" by (meson split_list)
    have nq: "q \<notin> set us" using kin_parent [OF kq, of q] kin_up(1) [OF kq] K qs by auto
    have "safe (\<lambda>(r, w). valid A {} w)
        (bindE (esq_session_take_action (Suc n) e (notify_action e b) (Some q) w') (\<lambda>(r, w). Inr (ESQ_OK, w)))"
      if w': "absw (moved q a us s D) L w'" for w'
    proof -
      note iv = inv_moved [OF assms(1) qs up(1) [symmetric] K nq assms(3) up(4) w']
      have "moved q a us s D q \<noteq> None" using moved_facts(1) [OF _ qs up(1) [symmetric] kq K nq] ba by simp
      then obtain q3 where "moved q a us s D q = Some q3" by blast
      from notify_parent [OF iv(1) this iv(2), of n e b] show ?thesis by (rule safe_bind [OF safe_mono]) auto
    qed
    moreover have "absw D L w" "D a = Some s" using ba by simp_all
    ultimately show ?thesis
      by (intro safe_bind [of _ _ "esq_move_child_session_into_finish_list e q a w"]
          move_safe [OF _ _ qs up(1) [symmetric] kq K nq len])
  next
    case False
    have "absw D L w" using ba by simp
    then obtain n p where "sess q w = Inr (qs\<lparr>nxt := n, prv := p\<rparr>)" using absw_sess qs by blast
    then show ?thesis
      using find_child_missing [OF \<open>absw D L w\<close> kin_lists(3) [OF kq] False len, of None] kin_lists(1) [OF kq]
      by (simp add: esq_move_child_session_into_finish_list_def)
  qed
qed

lemma post_free:
  assumes "inv X D L K F w0" "X \<subseteq> {a}" "D a = Some s0" "cfg a D L s None w" "stepped s0 s" "dom D \<subseteq> A" "enough e A"
    and "settled s" "post_op s = POP_FREE_SESSION" "dead s \<or> fresh s"
  shows "safe (\<lambda>(r, w). valid A {} w) (post_operation (Suc n) e act a w)"
proof -
  let ?s = "s\<lparr>child_session_list := None, finished_child_session_list := None\<rparr>"
  let ?rest = "\<lambda>w. bindE (sess a w) (\<lambda>s.
           if have_parent_session s then
             case parent_session s of
               Some p \<Rightarrow>
                 bindE (esq_move_child_session_into_finish_list e p a w) (\<lambda>w.
                 bindE (esq_session_take_action (Suc n) e (notify_action e ESQ_EVENT_BIT_TASK_DONE) (Some p) w) (\<lambda>(r, w).
                 Inr (ESQ_OK, w)))
             | None \<Rightarrow> bindE (run [call_session_done_cb a, free_session a] w) (\<lambda>w. Inr (ESQ_OK, w))
           else bindE (free_session a w) (\<lambda>w. Inr (ESQ_OK, w)))"
  have "safe (\<lambda>(r, w). valid A {} w) (?rest w')" if b: "bare A a ?s D' L' K' F' w'" for D' L' K' F' w'
  proof -
    note b' = b [unfolded bare_def]
    obtain n p where sess: "sess a w' = Inr (?s\<lparr>nxt := n, prv := p\<rparr>)" using b' absw_sess by blast
    have k: "kin_ok K' F' D' a ?s" using b' by (simp add: fam_okD)
    have free: "safe (valid A {}) (free_session a v)" if "bare A a ?s D' L' K' F' v" "parent_session s = None" for v
      using free_bare [OF that(1)] that(2) by simp
    have ok: "safe (\<lambda>(r, w). valid A {} w) (bindE x (\<lambda>w. Inr (ESQ_OK, w)))" if "safe (valid A {}) x" for x
      using that by (auto intro: safe_bind)
    show ?thesis
    proof (cases "parent_session s")
      case None
      have "safe (\<lambda>v. bare A a ?s D' L' K' F' v) (call_session_done_cb a w')"
        using b' by (intro call_done_safe) (auto simp: bare_def)
      then have "safe (valid A {}) (run [call_session_done_cb a, free_session a] w')"
        using free None by (auto intro!: safe_bind elim!: safe_mono)
      then show ?thesis using sess None ok free [OF b] by (simp del: run.simps)
    next
      case (Some q)
      have "have_parent_session s" "dead ?s" using kin_up [OF k, of q] Some assms(10) by (simp_all add: dead_def fresh_def)
      then show ?thesis using sess Some move_bare [OF b _ _ assms(7), of q] by simp
    qed
  qed
  then have "safe (\<lambda>(r, w). valid A {} w) (bindE (esq_unhook_child_session e a w) ?rest)"
    by (intro safe_bind [of _ ?rest] unhook_bare [OF assms(1-8)])
  then show ?thesis unfolding post_operation_def
    by (intro safe_bind [of _ _ "sess a w"] cfg_sess [OF assms(4)]) (simp add: assms(9))
qed

section \<open>Every action\<close>

lemma validI: "inv X D L K F w \<Longrightarrow> dom D \<subseteq> A \<Longrightarrow> valid A X w"
  unfolding valid_def by blast

lemma valid_stepped:
  assumes "inv X D L K F w" "X \<subseteq> {a}" "D a = Some s" "cfg a D L s' p w'" "stepped s s'" "right s' p" "dom D \<subseteq> A"
  shows "valid A {} w'"
proof -
  have X: "X - {a} = {}" using assms(2) by blast
  obtain L' where "inv {} (D(a \<mapsto> s')) L' K F w'" using inv_stepped [OF assms(1,3-6)] unfolding X by blast
  moreover have "dom (D(a \<mapsto> s')) \<subseteq> A" using assms(3,7) by auto
  ultimately show ?thesis by (rule validI)
qed

lemma new_places: "places s = {L_global, L_new} \<Longrightarrow> settled s \<Longrightarrow> l \<in> {L_global, L_new} \<Longrightarrow> right s (Some l)"
  by (auto simp: places_def right_def labels_def session_type_defs split: if_splits pt_label.splits)

lemma post_join:
  assumes "inv X D L K F w0" "X \<subseteq> {a}" "D a = Some s0" "cfg a D L s None w" "stepped s0 s" "dom D \<subseteq> A"
    and "post_op s \<in> {POP_JOIN_GLOBAL_NEW_LIST, POP_JOIN_LOCAL_NEW_LIST}" "places s = {L_global, L_new}" "settled s"
  shows "safe (\<lambda>(r, w). valid A {} w) (post_operation n e act a w)"
proof -
  have "safe (\<lambda>(r, w). valid A {} w) (bindE (on_list l (join_new_list a) w) (\<lambda>w. Inr (ESQ_OK, w)))"
    if "l \<in> {L_global, L_new}" for l
    using valid_stepped [OF assms(1-3) _ assms(5) new_places [OF assms(8,9) that] assms(6)]
    by (intro safe_bind cfg_join_new [OF assms(4) that]) simp
  then show ?thesis unfolding post_operation_def
    by (intro safe_bind [of _ _ "sess a w"] cfg_sess [OF assms(4)])
      (use assms(7) in \<open>auto simp: esq_join_local_new_list_def esq_join_global_new_list_def\<close>)
qed

lemma post_switch:
  assumes "inv X D L K F w0" "X \<subseteq> {a}" "D a = Some s0" "cfg a D L s None w" "stepped s0 s" "dom D \<subseteq> A" "plain act"
    and "post_op s = POP_SWITCH_SESSION_TYPE" "\<not> fresh s" "\<not> dead s0"
  shows "safe (\<lambda>(r, w). valid A {} w) (post_operation (Suc n) e act a w)"
proof -
  let ?s = "s\<lparr>lc := PT_START\<rparr>"
  have st: "stepped s0 ?s" using assms(5,9,10) by (simp add: stepped_def family_def supported_def fresh_def)
  have X: "X - {a} = {}" using assms(2) by blast
  have "safe (\<lambda>(r, w). valid A {} w) (esq_session_take_action (Suc n) e act (Some a) w')" if c: "cfg a D L ?s None w'" for w'
  proof (rule safe_mono)
    show "safe (\<lambda>(r, w'). \<exists>s' L'. inv (X - {a}) (D(a \<mapsto> s')) L' K F w') (esq_session_take_action (Suc n) e act (Some a) w')"
      by (rule take_quiet [OF assms(1,3) c st assms(7)]) (use assms(9) in \<open>simp add: fresh_def\<close>)
    fix y assume "case y of (r, w') \<Rightarrow> \<exists>s' L'. inv (X - {a}) (D(a \<mapsto> s')) L' K F w'"
    then obtain s' L' where "inv {} (D(a \<mapsto> s')) L' K F (snd y)" using X by (auto simp: case_prod_beta)
    moreover have "dom (D(a \<mapsto> s')) \<subseteq> A" using assms(3,6) by auto
    ultimately have "valid A {} (snd y)" by (rule validI)
    then show "case y of (r, w) \<Rightarrow> valid A {} w" by (simp add: case_prod_beta)
  qed
  then have "safe (\<lambda>(r, w). valid A {} w) (bindE (goto_set PT_START a w) (\<lambda>w. esq_session_take_action (Suc n) e act (Some a) w))"
    by (intro safe_bind, unfold goto_set_def, intro cfg_upd [OF assms(4)]) (simp_all add: neutral_defs)
  then show ?thesis unfolding post_operation_def
    by (intro safe_bind [of _ _ "sess a w"] cfg_sess [OF assms(4)]) (simp add: assms(8))
qed

lemma inv_entry:
  assumes "inv X D L K F w" "D a = Some s" "ready X act a"
  shows "\<exists>p. cfg a D L s p w \<and> (fresh s \<longrightarrow> right s p) \<and> (\<not> fresh s \<longrightarrow> entry act s p)"
proof -
  obtain p where p: "cfg a D L s p w" "if a \<in> X then picked s p else right s p"
    using inv_cfg [OF assms(1,2)] by blast
  have "supported s" using assms(1,2) by (simp add: inv_def placed_def)
  moreover have "lc s \<noteq> PT_START" if "right s p" "\<not> fresh s"
    using that calculation by (auto simp: right_def labels_def supported_def split: if_splits)
  ultimately have "(fresh s \<longrightarrow> right s p) \<and> (\<not> fresh s \<longrightarrow> entry act s p)"
    using p(2) assms(3) by (auto simp: ready_def entry_def picked_def split: if_splits)
  then show ?thesis using p(1) by blast
qed

lemma take_plain:
  assumes "valid A X w" "heap w a \<noteq> None" "ready X act a" "plain act" "enough e A"
  shows "safe (\<lambda>(r, w). valid A {} w) (esq_session_take_action (Suc (Suc n)) e act (Some a) w)"
proof -
  obtain D L K F where i: "inv X D L K F w" "dom D \<subseteq> A" using assms(1) by (auto simp: valid_def)
  then obtain s where s: "D a = Some s" using absw_None [of D L w a] assms(2) by (auto simp: inv_def)
  have X: "X \<subseteq> {a}" using assms(3) by (simp add: ready_def)
  obtain p where p: "cfg a D L s p w" "fresh s \<Longrightarrow> right s p" "\<not> fresh s \<Longrightarrow> entry act s p"
    using inv_entry [OF i(1) s assms(3)] by blast
  have sup: "supported s" and ck: "ESQ_CHECK_SESSION s" using i(1) s by (simp_all add: inv_def placed_def)
  obtain pt where pt: "pt_of_type (session_type s) = Some pt" using pt_of_type_supported [OF sup] by blast
  obtain m q where sess: "sess a w = Inr (s\<lparr>nxt := m, prv := q\<rparr>)" using i(1) absw_sess s by (metis inv_def)
  have "safe (\<lambda>(r, w). valid A {} w) (post_operation (Suc n) e act a w')" if hd: "handled a D L s w'" for w'
  proof -
    obtain s' p' where h: "cfg a D L s' p' w'" "stepped s s'" "post_op s' = POP_SWITCH_SESSION_TYPE \<Longrightarrow> \<not> dead s" "post_ok s' p'"
      using hd unfolding handled_iff by blast
    note r = i(1) X s h(1,2)
    show ?thesis using h(4) unfolding post_ok_def
      apply (elim disjE conjE)
      using post_join [OF r(1-3) _ r(5) i(2)] post_free [OF r(1-3) _ r(5) i(2) assms(5)]
        post_switch [OF r(1-3) _ r(5) i(2) assms(4)] h post_none [OF h(1), of "valid A {}"]
        valid_stepped [OF r _ i(2)] by auto
  qed
  then have "safe (\<lambda>(r, w). valid A {} w) (bindE (run [set_post_op POP_NO_OP a, pt e act a] w) (post_operation (Suc n) e act a))"
    by (intro safe_bind safe_mono [OF machine_handled [OF p(1) sup p(2,3) assms(4) pt]])
  then show ?thesis using take_action_machine [OF sess, of pt] ck pt by (simp add: ESQ_CHECK_SESSION_def)
qed

end
