(* ===== verification/Esq_Worker.thy ===== *)
theory Esq_Worker
  imports Esq_Chassis
begin

text \<open>
  The worker thread: \<^verbatim>\<open>session/worker.c\<close> and the timer scan of \<^verbatim>\<open>session/timing.c\<close>.

  A pass of the loop of \<^verbatim>\<open>esq_worker_loop\<close> is one function of the state, of the user code it may call
  (\<open>user_code\<close>: the callbacks and the coroutine library) and of what waiting for the kernel returned.
  Signals to other threads and the list of worker contexts are not part of the model.
\<close>

section \<open>Timers\<close>

text \<open>The two sums are \<^verbatim>\<open>int\<close> additions; \<open>i32\<close> is undefined on overflow.\<close>

definition deadline_passed :: "int \<Rightarrow> int \<Rightarrow> esq_session_t \<Rightarrow> bool res" where
  "deadline_passed now_sec now_ms p =
     bindE (of_opt (i32 (wind_up_s p + timeouts p))) (\<lambda>d.
     if d < now_sec then Inr True
     else if now_sec = d then
       bindE (of_opt (i32 (wind_up_ms p + timeoutms p))) (\<lambda>m. Inr (m < now_ms))
     else Inr False)"

fun CHECK_EVENTS_TIMING2 :: "nat \<Rightarrow> env \<Rightarrow> int \<Rightarrow> int \<Rightarrow> addr option \<Rightarrow> bool \<Rightarrow> world \<Rightarrow> (bool \<times> world) res" where
  "CHECK_EVENTS_TIMING2 n e now_sec now_ms None t w = Inr (t, w)"
| "CHECK_EVENTS_TIMING2 0 e now_sec now_ms (Some p) t w = Inl Fuel"
| "CHECK_EVENTS_TIMING2 (Suc n) e now_sec now_ms (Some p) t w =
     bindE (sess p w) (\<lambda>s.
     bindE (deadline_passed now_sec now_ms s) (\<lambda>d.
     if d then
       bindE (esq_notify_timeout_event e (Some p) w) (\<lambda>w.
       CHECK_EVENTS_TIMING2 n e now_sec now_ms (nxt s) True w)
     else CHECK_EVENTS_TIMING2 n e now_sec now_ms (nxt s) t w))"

fun check_timing_lists :: "env \<Rightarrow> int \<Rightarrow> int \<Rightarrow> list_id list \<Rightarrow> bool \<Rightarrow> world \<Rightarrow> (bool \<times> world) res" where
  "check_timing_lists e now_sec now_ms [] t w = Inr (t, w)"
| "check_timing_lists e now_sec now_ms (l # ls) t w =
     bindE (CHECK_EVENTS_TIMING2 (loop_fuel e) e now_sec now_ms (head (lists w l)) t w) (\<lambda>(t, w).
     check_timing_lists e now_sec now_ms ls t w)"

definition esq_session_timing :: "env \<Rightarrow> world \<Rightarrow> world res" where
  "esq_session_timing e w =
     (case gettimeofday e of
        None \<Rightarrow> Inr (w\<lparr>esq_server_stop_flag := True\<rparr>)
      | Some (sec, usec) \<Rightarrow>
          bindE (check_timing_lists e (to_int32 sec) (to_int32 usec)
                   [L_0ms_to_100ms, L_100ms_to_1s, L_1s_to_10s, L_longer_than_10s] False w) (\<lambda>(t, w).
          Inr (if t then esq_session_update_polling_interval w else w)))"

section \<open>Events\<close>

definition cqe_flags :: "u32 \<Rightarrow> u32" where
  "cqe_flags r =
     (if r AND POLLERR \<noteq> 0 then ESQ_EVENT_BIT_ERROR else 0) OR
     (if r AND POLLHUP \<noteq> 0 then ESQ_EVENT_BIT_FD_CLOSE else 0) OR
     (if r AND POLLRDHUP \<noteq> 0 then ESQ_EVENT_BIT_FD_CLOSE else 0) OR
     (if r AND POLLIN \<noteq> 0 then ESQ_EVENT_BIT_READ else 0) OR
     (if r AND POLLOUT \<noteq> 0 then ESQ_EVENT_BIT_WRITE else 0)"

definition ECANCELED :: int where "ECANCELED = 125"

definition esq_worker_receive_fd_event :: "env \<Rightarrow> addr option \<Rightarrow> int \<Rightarrow> world \<Rightarrow> world res" where
  "esq_worker_receive_fd_event e data res w =
     (case data of
        None \<Rightarrow> Inr w
      | Some a \<Rightarrow>
          if res = - ECANCELED then esq_notify_aio_removed e (Some a) w
          else if res < 0 then Inr w
          else
            let flags = cqe_flags (word_of_int res) in
            if flags = 0 then Inr w
            else bindE (sess a w) (\<lambda>s.
              if ESQ_CHECK_SESSION s then esq_notify_event_to_session e (Some a) flags w else Inr w))"

fun notify_exit_list :: "nat \<Rightarrow> env \<Rightarrow> addr option \<Rightarrow> world \<Rightarrow> world res" where
  "notify_exit_list n e None w = Inr w"
| "notify_exit_list 0 e (Some p) w = Inl Fuel"
| "notify_exit_list (Suc n) e (Some p) w =
     bindE (sess p w) (\<lambda>s. bindE (esq_notify_exit e (Some p) w) (\<lambda>w. notify_exit_list n e (nxt s) w))"

definition esq_worker_notify_exit_to_all_sessions :: "env \<Rightarrow> world \<Rightarrow> world res" where
  "esq_worker_notify_exit_to_all_sessions e =
     run (map (\<lambda>l w. notify_exit_list (loop_fuel e) e (head (lists w l)) w)
       [L_active, L_0ms_to_100ms, L_100ms_to_1s, L_1s_to_10s, L_longer_than_10s, L_no_time])"

definition esq_session_notify_exit_to_all_sessions :: "world \<Rightarrow> world" where
  "esq_session_notify_exit_to_all_sessions w = w\<lparr>esq_worker_stop_session_flag := True\<rparr>"

section \<open>New sessions\<close>

definition esq_worker_pick_up_from_local_list :: "env \<Rightarrow> world \<Rightarrow> (bool \<times> world) res" where
  "esq_worker_pick_up_from_local_list e w =
     (case head (lists w L_new) of
        None \<Rightarrow> Inr (False, w)
      | Some a \<Rightarrow>
          bindE (run [on_list L_new (pop_new_list a), esq_session_pick_up e (Some a)] w) (\<lambda>w. Inr (True, w)))"

fun pick_up_global :: "nat \<Rightarrow> env \<Rightarrow> bool \<Rightarrow> world \<Rightarrow> (bool \<times> world) res" where
  "pick_up_global 0 e r w = Inl Fuel"
| "pick_up_global (Suc n) e r w =
     (case head (lists w L_global) of
        None \<Rightarrow> Inr (r, w)
      | Some a \<Rightarrow>
          bindE (run [on_list L_global (pop_new_list a), esq_session_pick_up e (Some a)] w) (\<lambda>w.
          pick_up_global n e True w))"

definition esq_worker_pick_up_from_global_list :: "env \<Rightarrow> world \<Rightarrow> (bool \<times> world) res" where
  "esq_worker_pick_up_from_global_list e w =
     (if head (lists w L_global) = None then Inr (False, w) else pick_up_global (loop_fuel e) e False w)"

definition esq_worker_pick_up_from_local_wake_up_list :: "env \<Rightarrow> world \<Rightarrow> (bool \<times> world) res" where
  "esq_worker_pick_up_from_local_wake_up_list e w =
     (case head (wake_up w (self w)) of
        None \<Rightarrow> Inr (False, w)
      | Some r \<Rightarrow>
          bindE (hctx r w) (\<lambda>c.
          let l = wake_up w (self w);
              l' = (case c_next_in_local_wake_up_list c of
                      Some n \<Rightarrow> l\<lparr>head := Some n\<rparr>
                    | None \<Rightarrow> l\<lparr>head := None, tail := None\<rparr>);
              w = w\<lparr>wake_up := (wake_up w)(self w := l')\<rparr> in
          if c_worker_ctx c \<noteq> self w then Inl Exit
          else bindE (of_opt (c_session c)) (\<lambda>a.
            bindE (run [upd (or_event_bits (if esq_server_stop_flag w then ESQ_EVENT_BIT_EXIT
                                            else ESQ_EVENT_BIT_LOCK_OBTAIN)) a,
                        esq_session_pick_up e (Some a)] w) (\<lambda>w. Inr (True, w)))))"

section \<open>Execution\<close>

record user_code =
  run_cb :: "nat \<Rightarrow> addr \<Rightarrow> world \<Rightarrow> world res"
  mco_resume :: "nat \<Rightarrow> addr \<Rightarrow> world \<Rightarrow> world res"
  mco_check_stack :: "nat \<Rightarrow> bool"

fun pop_active :: "nat \<Rightarrow> env \<Rightarrow> addr option \<Rightarrow> world \<Rightarrow> (addr option \<times> world) res" where
  "pop_active n e None w = Inr (None, w)"
| "pop_active 0 e (Some p) w = Inl Fuel"
| "pop_active (Suc n) e (Some p) w =
     bindE (take_action e (simple_action e ACTION_EXECUTE_CB) (Some p) w) (\<lambda>(r, w).
     if r \<noteq> 0 then bindE (sess p w) (\<lambda>s. pop_active n e (nxt s) w)
     else Inr (Some p, w))"

definition esq_session_pop_the_first_active :: "env \<Rightarrow> world \<Rightarrow> (addr option \<times> world) res" where
  "esq_session_pop_the_first_active e w = pop_active (loop_fuel e) e (head (lists w L_active)) w"

definition esq_worker_execute_session :: "user_code \<Rightarrow> env \<Rightarrow> addr \<Rightarrow> world \<Rightarrow> world res" where
  "esq_worker_execute_session u e a w =
     bindE (sess a w) (\<lambda>s.
     case mco s of
       Some m \<Rightarrow>
         bindE (mco_resume u m a w) (\<lambda>w.
         if mco_check_stack u m then Inl Exit else esq_session_wind_up e (Some a) w)
     | None \<Rightarrow>
         (case cb s of
            Some f \<Rightarrow> bindE (run_cb u f a w) (\<lambda>w. esq_session_wind_up e (Some a) w)
          | None \<Rightarrow> Inl Exit))"

definition esq_worker_still_work_to_do :: "world \<Rightarrow> bool" where
  "esq_worker_still_work_to_do w \<longleftrightarrow>
     (\<exists>l \<in> {L_0ms_to_100ms, L_100ms_to_1s, L_1s_to_10s, L_longer_than_10s, L_no_time, L_active, L_global}.
        head (lists w l) \<noteq> None)"

fun run_done_cbs :: "nat \<Rightarrow> addr option \<Rightarrow> world \<Rightarrow> world res" where
  "run_done_cbs n None w = Inr w"
| "run_done_cbs 0 (Some p) w = Inl Fuel"
| "run_done_cbs (Suc n) (Some p) w =
     bindE (sess p w) (\<lambda>s.
     if \<not> ESQ_CHECK_SESSION s then Inl Exit
     else bindE (call_session_done_cb p w) (\<lambda>w.
       run_done_cbs n (next_child s) (embedded_ctxs p None (w\<lparr>heap := (heap w)(p := None)\<rparr>))))"

definition esq_execute_session_done_cb :: "env \<Rightarrow> addr \<Rightarrow> world \<Rightarrow> world res" where
  "esq_execute_session_done_cb e a w =
     bindE (sess a w) (\<lambda>s.
     if \<not> ESQ_CHECK_SESSION s then Inl Exit
     else run [run_done_cbs (loop_fuel e) (finished_child_session_list s),
               upd (\<lambda>s. s\<lparr>finished_child_session_list := None\<rparr>) a] w)"

section \<open>The loop\<close>

text \<open>What waiting for the kernel returns: a completion, a signal, the end of the interval, another error.\<close>

datatype poll = Poll_cqe "addr option" int | Poll_intr | Poll_time | Poll_error

text \<open>\<^verbatim>\<open>kt.tv_nsec\<close>, an \<^verbatim>\<open>int\<close> product; \<open>None\<close> inside means waiting without a limit.\<close>

definition polling_nsec :: "world \<Rightarrow> int option res" where
  "polling_nsec w =
     (if esq_os_event_wait_max w \<le> 0 then Inr None
      else bindE (of_opt (i32 (esq_os_event_wait_max w * 1000))) (\<lambda>us.
           bindE (of_opt (i32 (us * 1000))) (\<lambda>ns. Inr (Some ns))))"

definition esq_worker_wait :: "env \<Rightarrow> poll \<Rightarrow> world \<Rightarrow> world res" where
  "esq_worker_wait e ev w =
     (case ev of
        Poll_cqe data res \<Rightarrow>
          bindE (esq_worker_receive_fd_event e data res w) (\<lambda>w. Inr (esq_session_update_polling_interval w))
      | Poll_time \<Rightarrow> bindE (esq_session_timing e w) (\<lambda>w. Inr (esq_session_update_polling_interval w))
      | _ \<Rightarrow> Inr w)"

text \<open>One pass; the flag is false when the loop ends.\<close>

definition esq_worker_loop :: "user_code \<Rightarrow> env \<Rightarrow> poll \<Rightarrow> world \<Rightarrow> (bool \<times> world) res" where
  "esq_worker_loop u e ev w =
     bindE (esq_session_pop_the_first_active e w) (\<lambda>(p, w).
     case p of
       Some a \<Rightarrow> bindE (esq_worker_execute_session u e a w) (\<lambda>w. Inr (True, w))
     | None \<Rightarrow>
         bindE (esq_worker_pick_up_from_global_list e w) (\<lambda>(r, w).
         if r then Inr (True, w) else
         bindE (esq_worker_pick_up_from_local_list e w) (\<lambda>(r, w).
         if r then Inr (True, w) else
         bindE (esq_worker_pick_up_from_local_wake_up_list e w) (\<lambda>(r, w).
         if r then Inr (True, w) else
         if esq_worker_stop_session_flag w then
           bindE (esq_worker_notify_exit_to_all_sessions e (w\<lparr>esq_worker_stop_session_flag := False\<rparr>)) (\<lambda>w.
           Inr (True, w))
         else
           bindE (polling_nsec w) (\<lambda>_.
           bindE (esq_worker_wait e ev w) (\<lambda>w.
           if esq_server_stop_flag w then
             if esq_worker_still_work_to_do w then
               bindE (esq_worker_notify_exit_to_all_sessions e w) (\<lambda>w. Inr (True, w))
             else Inr (False, w)
           else Inr (True, w)))))))"

end
