(* ===== verification/Esq_Engine.thy ===== *)
theory Esq_Engine
  imports Esq_Action Esq_Worker
begin

text \<open>
  The interface functions that change the set of sessions or their lists: creation of a session, bundling of
  a child with its parent, and the pick-up of new sessions by a worker, all shown to keep the invariant.
\<close>

section \<open>Parent and child\<close>

lemma fam_add_child:
  assumes "fam_ok K F D" "D p = Some ps" "D c = Some cs" "p \<noteq> c" "parent_session cs = None" "\<not> dead ps"
    and "parent_session cs' = Some p" "have_parent_session cs'" "next_child cs' = child_session_list ps"
    and "child_session_list cs' = child_session_list cs" "finished_child_session_list cs' = finished_child_session_list cs"
    and "\<not> fresh cs'" "child_session_list ps' = Some c" "next_child ps' = next_child ps" "parent_session ps' = parent_session ps"
    and "have_parent_session ps' = have_parent_session ps" "finished_child_session_list ps' = finished_child_session_list ps"
    and "fresh ps' \<Longrightarrow> fresh ps"
  shows "fam_ok (K(p := c # K p)) F (D(c \<mapsto> cs', p \<mapsto> ps'))"
  unfolding fam_ok_def
proof (intro allI impI)
  define D' where "D' = D(c \<mapsto> cs', p \<mapsto> ps')"
  define K' where "K' = K(p := c # K p)"
  fix r t assume "(D(c \<mapsto> cs', p \<mapsto> ps')) r = Some t"
  then have t: "D' r = Some t" by (simp add: D'_def)
  then obtain u where u: "D r = Some u" using assms(2,3) by (auto simp: D'_def split: if_splits)
  note k = fam_okD [OF assms(1) u]
  note kp = fam_okD [OF assms(1,2)]
  have c_out: "c \<notin> set (K q) \<union> set (F q)" if "D q = Some v" for q v
    using kin_parent [OF fam_okD [OF assms(1) that], of c] assms(3,5) by auto
  have p_out: "p \<notin> set (F q)" if "D q = Some v" for q v
    using kin_finished(1) [OF fam_okD [OF assms(1) that], of p] assms(2,6) by auto
  have nc: "map_option next_child (D' x) = map_option next_child (D x)" if "x \<in> set (K r) \<union> set (F r)" for x
    using c_out [OF u] that assms(2,14) by (auto simp: D'_def)
  have ch: "chain child_f D' (K r) None" "chain child_f D' (F r) None"
    using chain_child_cong [of "K r" D' D] chain_child_cong [of "F r" D' D] nc kin_lists(3,4) [OF k] by simp_all
  have par: "\<exists>t. D' x = Some t \<and> parent_session t = Some r" if "x \<in> set (K r) \<union> set (F r)" for x
    using kin_parent [OF k that] c_out [OF u] that assms(2,15) by (auto simp: D'_def)
  have fin: "\<exists>t. D' x = Some t \<and> dead t" "K' x = [] \<and> F x = []" if "x \<in> set (F r)" for x
    using kin_finished [OF k that] p_out [OF u] c_out [OF u] that by (auto simp: D'_def K'_def)
  have up: "q \<noteq> r \<and> D' q \<noteq> None \<and> have_parent_session t \<and> \<not> fresh t \<and> r \<in> set (K' q) \<union> set (F q)"
    if "parent_session t = Some q" for q
  proof (cases "r = c")
    case True
    then show ?thesis using t that assms(4,7,8,12) by (simp add: D'_def K'_def)
  next
    case False
    then have "parent_session u = Some q" using t u that assms(2,15) by (auto simp: D'_def split: if_splits)
    note kin_up [OF k this]
    moreover have "have_parent_session t = have_parent_session u" "fresh t \<longrightarrow> fresh u"
      using False t u assms(2,16,18) by (auto simp: D'_def split: if_splits)
    ultimately show ?thesis by (auto simp: D'_def K'_def)
  qed
  have "kin_ok K' F D' r t"
  proof (cases "r = p")
    case True
    then have tp: "t = ps'" "u = ps" "K' r = c # K r" using t u assms(2) by (simp_all add: D'_def K'_def)
    have "chain child_f D' (c # K r) None"
      using ch(1) assms(4,9) kin_lists(1) [OF k] tp by (simp add: D'_def child_f_def)
    moreover have "\<exists>t. D' c = Some t \<and> parent_session t = Some r" using assms(4,7) True by (simp add: D'_def)
    ultimately show ?thesis
      using tp ch par fin up kin_lists [OF k] c_out [OF u] assms(13,17) by (intro kin_okI) auto
  next
    case False
    then have "K' r = K r" "child_session_list t = child_session_list u"
      "finished_child_session_list t = finished_child_session_list u"
      using t u assms(3,10,11) by (auto simp: D'_def K'_def split: if_splits)
    then show ?thesis using ch par fin up kin_lists [OF k] by (intro kin_okI) auto
  qed
  then show "kin_ok (K(p := c # K p)) F (D(c \<mapsto> cs', p \<mapsto> ps')) r t" by (simp add: D'_def K'_def)
qed

lemma post_no_op:
  assumes "absw (D(a \<mapsto> s)) L w" "post_op s = POP_NO_OP" "Q (ESQ_OK, w)"
  shows "safe Q (post_operation n e act a w)"
  unfolding post_operation_def
  by (intro safe_bind sess_safe [OF assms(1)]) (use assms(2,3) in simp)

lemma take_action_absw:
  assumes "absw D L w" "D a = Some s" "ESQ_CHECK_SESSION s" "pt_of_type (session_type s) = Some pt"
  shows "esq_session_take_action (Suc n) e act (Some a) w =
    bindE (run [set_post_op POP_NO_OP a, pt e act a] w) (post_operation n e act a)"
proof -
  obtain m q where "sess a w = Inr (s\<lparr>nxt := m, prv := q\<rparr>)" using absw_sess [OF assms(1,2)] by blast
  from take_action_machine [OF this, of pt] show ?thesis using assms(3,4) by (simp add: ESQ_CHECK_SESSION_def)
qed

text \<open>Only a single-shot session that still waits for its first wind-up can be given a parent.\<close>

lemma set_parent_safe:
  assumes "inv {} D L K F w" "D c = Some s" "a_type act = ACTION_SET_PARENT"
    and "\<And>w' t. \<lbrakk>session_type s = ESQ_SESSION_TYPE_SOCKET_CB; lc s = PT_initial; \<not> have_parent_session s;
        t = s\<lparr>have_parent_session := True, session_done_cb := a_cb act, parent_session := a_user_param act, post_op := POP_NO_OP\<rparr>;
        absw (D(c \<mapsto> t)) L w'\<rbrakk> \<Longrightarrow> Q (ESQ_OK, w')"
  shows "safe Q (esq_session_take_action (Suc n) e act (Some c) w)"
proof -
  have i: "absw D L w" "supported s" "\<exists>p. right s p" "ESQ_CHECK_SESSION s"
    using assms(1,2) by (auto simp: inv_def placed_def)
  obtain pt where pt: "pt_of_type (session_type s) = Some pt" using pt_of_type_supported [OF i(2)] by blast
  let ?s = "s\<lparr>post_op := POP_NO_OP\<rparr>"
  let ?t = "s\<lparr>have_parent_session := True, session_done_cb := a_cb act, parent_session := a_user_param act, post_op := POP_NO_OP\<rparr>"
  have "safe (\<lambda>v. session_type s = ESQ_SESSION_TYPE_SOCKET_CB \<and> lc s = PT_initial \<and> \<not> have_parent_session s \<and>
      absw (D(c \<mapsto> ?t)) L v) (pt e act c w')" if a: "absw (D(c \<mapsto> ?s)) L w'" for w'
  proof -
    obtain m q where ld: "sess c w' = Inr (?s\<lparr>nxt := m, prv := q\<rparr>)" using absw_sess [OF a, of c ?s] by auto
    have init: "safe (\<lambda>v. absw (D(c \<mapsto> ?t)) L v) (run [upd (\<lambda>s. s\<lparr>have_parent_session := True, session_done_cb := a_cb act,
                      parent_session := a_user_param act, post_op := POP_NO_OP\<rparr>) c, goto_set PT_initial c] w')"
      if "lc s = PT_initial"
      apply (rule safe_run, rule upd_safe [OF a], simp add: neutral_defs)
      apply (unfold goto_set_def, rule safe_run, erule upd_safe, simp add: neutral_defs)
      using that by (cases s) simp
    consider "fresh s" "pt = esq_pt_of_no_fd"
      | "session_type s = ESQ_SESSION_TYPE_SOCKET_CB" "lc s \<in> labels s" "pt = esq_pt_of_single_shot_socket"
      | "session_type s = ESQ_SESSION_TYPE_MULTI_SOCKET_CB" "lc s \<in> labels s" "pt = esq_pt_of_multi_shot_socket"
      using i(2,3) pt by (auto simp: supported_def fresh_def right_def pt_of_type_def session_type_defs split: if_splits)
    then show ?thesis
    proof cases
      case 1
      then show ?thesis using assms(3) by (simp add: esq_pt_of_no_fd_def INVALID_ACTION_TYPE_def)
    next
      case 2
      then show ?thesis using ld assms(3) init
        by (auto simp: labels_def esq_pt_of_single_shot_socket_def pt_initial_def ss_wait_for_cpu_def ss_winded_up_def
          ss_wait_for_removed_then_active_def pt_active_def ss_execute_cb_def ss_wait_for_reinstall_def
          INVALID_ACTION_TYPE_def simp del: run.simps)
    next
      case 3
      then show ?thesis using ld assms(3)
        by (auto simp: labels_def session_type_defs esq_pt_of_multi_shot_socket_def ms_initial_def ms_wait_for_cpu_def
          ms_winded_up_def ms_active_def ms_execute_cb_def ms_wait_for_removed_and_wind_up_def ms_wait_for_removed_def
          ms_wait_for_wind_up_def INVALID_ACTION_TYPE_def simp del: run.simps)
    qed
  qed
  note pts = this
  have "safe Q (bindE (run [set_post_op POP_NO_OP c, pt e act c] w) (post_operation n e act c))"
    apply (rule safe_bind, rule safe_run, unfold set_post_op_def)
    apply (rule upd_safe [OF absw_triv [OF i(1) assms(2)]], simp add: neutral_defs)
    apply (rule safe_run, rule safe_mono [OF pts], assumption)
    using assms(4) by (auto intro!: post_no_op)
  then show ?thesis by (simp only: take_action_absw [OF i(1) assms(2) i(4) pt])
qed

text \<open>Only a single-shot session that runs its callback can be given a child.\<close>

lemma add_child_safe:
  assumes "absw D L w" "D p = Some s" "D c = Some cs" "p \<noteq> c" "supported s" "right s q" "ESQ_CHECK_SESSION s"
    and "a_type act = ACTION_ADD_CHILD" "a_user_param act = Some c"
    and "\<And>w'. \<lbrakk>session_type s = ESQ_SESSION_TYPE_SOCKET_CB; lc s = PT_execute_cb;
        absw (D(c \<mapsto> cs\<lparr>next_child := child_session_list s\<rparr>, p \<mapsto> s\<lparr>post_op := POP_NO_OP, child_session_list := Some c\<rparr>)) L w'\<rbrakk>
      \<Longrightarrow> Q (ESQ_OK, w')"
  shows "safe Q (esq_session_take_action (Suc n) e act (Some p) w)"
proof -
  obtain pt where pt: "pt_of_type (session_type s) = Some pt" using pt_of_type_supported [OF assms(5)] by blast
  let ?s = "s\<lparr>post_op := POP_NO_OP\<rparr>" and ?t = "s\<lparr>post_op := POP_NO_OP, child_session_list := Some c\<rparr>"
    and ?c = "cs\<lparr>next_child := child_session_list s\<rparr>"
  let ?D = "D(c \<mapsto> ?c, p \<mapsto> ?t)"
  have pts: "safe (\<lambda>v. session_type s = ESQ_SESSION_TYPE_SOCKET_CB \<and> lc s = PT_execute_cb \<and> absw ?D L v) (pt e act p w')"
    if a: "absw (D(p \<mapsto> ?s)) L w'" for w'
  proof -
    obtain m x where ld: "sess p w' = Inr (?s\<lparr>nxt := m, prv := x\<rparr>)" using absw_sess [OF a, of p ?s] by auto
    have add: "safe (\<lambda>v. absw ?D L v) (run [add_child (Some c) p, set_post_op POP_NO_OP p, goto_set PT_execute_cb p] w')"
      if "lc s = PT_execute_cb"
    proof -
      have c: "(D(p \<mapsto> ?s)) c = Some cs" using assms(3,4) by simp
      have eq: "D(p \<mapsto> ?s, c \<mapsto> ?c, p \<mapsto> ?t) = ?D" using assms(4) by auto
      have "safe (\<lambda>v. absw ?D L v) (add_child (Some c) p w')"
        unfolding add_child_def
        apply (simp add: of_opt_def ld del: run.simps)
        apply (rule safe_run, rule upd_safe [OF absw_triv [OF a c]], simp add: neutral_defs)
        apply (rule safe_run, drule absw_triv [where c = p and t = ?s], use assms(4) in simp)
        apply (erule upd_safe, simp add: neutral_defs)
        by (simp only: eq run.simps safe_simps)
      moreover have "safe (\<lambda>v. absw ?D L v) (run [set_post_op POP_NO_OP p, goto_set PT_execute_cb p] v)" if "absw ?D L v" for v
        apply (unfold pt_ops, rule safe_run, rule upd_safe [OF that], simp add: neutral_defs)
        apply (rule safe_run, erule upd_safe, simp add: neutral_defs)
        using \<open>lc s = PT_execute_cb\<close> by (cases s) simp
      ultimately show ?thesis by (intro safe_run) (blast intro: safe_mono)
    qed
    consider "fresh s" "pt = esq_pt_of_no_fd"
      | "session_type s = ESQ_SESSION_TYPE_SOCKET_CB" "lc s \<in> labels s" "pt = esq_pt_of_single_shot_socket"
      | "session_type s = ESQ_SESSION_TYPE_MULTI_SOCKET_CB" "lc s \<in> labels s" "pt = esq_pt_of_multi_shot_socket"
      using assms(5,6) pt by (auto simp: supported_def fresh_def right_def pt_of_type_def session_type_defs split: if_splits)
    then show ?thesis
    proof cases
      case 1
      then show ?thesis using assms(8) by (simp add: esq_pt_of_no_fd_def INVALID_ACTION_TYPE_def)
    next
      case 2
      then show ?thesis using ld assms(8,9) add
        by (auto simp: labels_def esq_pt_of_single_shot_socket_def pt_initial_def ss_wait_for_cpu_def ss_winded_up_def
          ss_wait_for_removed_then_active_def pt_active_def ss_execute_cb_def ss_wait_for_reinstall_def
          INVALID_ACTION_TYPE_def simp del: run.simps)
    next
      case 3
      then show ?thesis using ld assms(8)
        by (auto simp: labels_def session_type_defs esq_pt_of_multi_shot_socket_def ms_initial_def ms_wait_for_cpu_def
          ms_winded_up_def ms_active_def ms_execute_cb_def ms_wait_for_removed_and_wind_up_def ms_wait_for_removed_def
          ms_wait_for_wind_up_def INVALID_ACTION_TYPE_def simp del: run.simps)
    qed
  qed
  have "safe Q (bindE (run [set_post_op POP_NO_OP p, pt e act p] w) (post_operation n e act p))"
    apply (rule safe_bind, rule safe_run, unfold set_post_op_def)
    apply (rule upd_safe [OF absw_triv [OF assms(1,2)]], simp add: neutral_defs)
    apply (rule safe_run, rule safe_mono [OF pts], assumption)
    using assms(10) by (auto intro!: post_no_op)
  then show ?thesis by (simp only: take_action_absw [OF assms(1,2,7) pt])
qed

lemma take_action_Suc: "take_action e = esq_session_take_action (Suc 2) e"
  by (simp add: take_action_def TAKE_ACTION_FUEL_def numeral_2_eq_2 numeral_3_eq_3)

lemma inv_add_child:
  assumes "inv {} D L K F w" "D p = Some ps" "D c = Some cs" "p \<noteq> c"
    and "session_type cs = ESQ_SESSION_TYPE_SOCKET_CB" "\<not> have_parent_session cs"
    and "session_type ps = ESQ_SESSION_TYPE_SOCKET_CB" "lc ps = PT_execute_cb"
    and "cs' = cs\<lparr>have_parent_session := True, session_done_cb := f, parent_session := Some p, post_op := POP_NO_OP,
      next_child := child_session_list ps\<rparr>"
    and "absw (D(c \<mapsto> cs', p \<mapsto> ps\<lparr>post_op := POP_NO_OP, child_session_list := Some c\<rparr>)) L v"
  shows "inv {} (D(c \<mapsto> cs', p \<mapsto> ps\<lparr>post_op := POP_NO_OP, child_session_list := Some c\<rparr>)) L (K(p := c # K p)) F v"
proof -
  let ?D = "D(c \<mapsto> cs', p \<mapsto> ps\<lparr>post_op := POP_NO_OP, child_session_list := Some c\<rparr>)"
  note i = assms(1) [unfolded inv_def]
  have k: "kin_ok K F D c cs" using i assms(3) by (simp add: fam_okD)
  have "parent_session cs = None" using kin_up(3) [OF k] assms(6) by (cases "parent_session cs") auto
  then have "fam_ok (K(p := c # K p)) F ?D"
    using i by (intro fam_add_child [OF _ assms(2-4)]) (auto simp: assms(5,7-9) dead_def fresh_def session_type_defs)
  moreover have "placed {} ?D L"
  proof (rule placed_change [of "{}" D L c])
    show "placed {} D L" using i by simp
    show "\<exists>u. D b = Some u \<and> locus t = locus u \<and> ESQ_CHECK_SESSION t = ESQ_CHECK_SESSION u"
      if "?D b = Some t" "b \<noteq> c" for b t
      using that assms(2) by (cases "b = p") (auto simp: locus_def ESQ_CHECK_SESSION_def)
    show "supported t \<and> ESQ_CHECK_SESSION t \<and> (\<exists>p. pos c L p \<and> right t p)" if "?D c = Some t" for t
    proof -
      have t: "t = cs'" using that assms(4) by simp
      have p: "supported cs" "ESQ_CHECK_SESSION cs" "\<exists>q. pos c L q \<and> right cs q" using i placedD [of "{}" D L c cs] assms(3) by simp_all
      have "locus t = locus cs" "ESQ_CHECK_SESSION t" using p(2) by (simp_all add: t assms(9) locus_def ESQ_CHECK_SESSION_def)
      then show ?thesis using p(1,3) locus_cong [of t cs] by simp
    qed
  qed simp_all
  ultimately show ?thesis using assms(10) by (simp add: inv_def)
qed

lemma bundle_child_valid:
  assumes "valid A {} w" "heap w p \<noteq> None" "heap w c \<noteq> None"
  shows "safe (\<lambda>(r, w). valid A {} w) (esq_session_bundle_child e (Some p) (Some c) f w)"
proof -
  obtain D L K F where i: "inv {} D L K F w" "dom D \<subseteq> A" using assms(1) by (auto simp: valid_def)
  have ab: "absw D L w" using i(1) by (simp add: inv_def)
  obtain ps cs where d: "D p = Some ps" "D c = Some cs" using absw_None [OF ab] assms(2,3) by auto
  have pl: "supported ps" "ESQ_CHECK_SESSION ps" "\<exists>q. right ps q" "supported cs" "ESQ_CHECK_SESSION cs" "\<exists>q. pos c L q \<and> right cs q"
    using i(1) d by (auto simp: inv_def placed_def)
  let ?act = "(junk e)\<lparr>a_type := ACTION_SET_PARENT, a_user_param := Some p, a_cb := f\<rparr>"
  let ?cs = "cs\<lparr>have_parent_session := True, session_done_cb := f, parent_session := Some p, post_op := POP_NO_OP\<rparr>"
  have second: "safe (\<lambda>(r, w). valid A {} w) (esq_session_take_action (Suc n) e
      (?act\<lparr>a_type := ACTION_ADD_CHILD, a_user_param := Some c\<rparr>) (Some p) w')"
    if c: "session_type cs = ESQ_SESSION_TYPE_SOCKET_CB" "lc cs = PT_initial" "\<not> have_parent_session cs"
      "absw (D(c \<mapsto> ?cs)) L w'" for w' n
  proof (cases "p = c")
    case True
    have pt: "pt_of_type (session_type ?cs) = Some esq_pt_of_single_shot_socket" using c(1) by (simp add: pt_of_type_def session_type_defs)
    show ?thesis
      apply (subst take_action_absw [OF c(4), of p ?cs, OF _ _ pt])
      using pl(5) True apply (simp_all add: ESQ_CHECK_SESSION_def del: run.simps)
      apply (rule safe_bind, rule safe_run, unfold set_post_op_def, rule upd_safe [OF c(4)], simp add: neutral_defs)
      apply (rule safe_run, unfold esq_pt_of_single_shot_socket_def, rule safe_bind, erule sess_safe)
      using c(2) by (simp add: pt_initial_def INVALID_ACTION_TYPE_def)
  next
    case False
    obtain q where q: "right ps q" using pl(3) by blast
    let ?D = "D(c \<mapsto> ?cs\<lparr>next_child := child_session_list ps\<rparr>, p \<mapsto> ps\<lparr>post_op := POP_NO_OP, child_session_list := Some c\<rparr>)"
    have "valid A {} v" if st: "session_type ps = ESQ_SESSION_TYPE_SOCKET_CB" "lc ps = PT_execute_cb" and v: "absw ?D L v" for v
      using i(2) d by (intro validI [OF inv_add_child [OF i(1) d False c(1,3) st refl v]]) auto
    then show ?thesis using False d pl
      by (intro add_child_safe [OF c(4), of p ps c ?cs q]) (simp_all add: q)
  qed
  have go: "safe (\<lambda>(r, w). valid A {} w) (bindE (esq_session_take_action (Suc n) e ?act (Some c) w) (\<lambda>(r, w).
            if r \<noteq> 0 then Inr (r, w)
            else bindE (esq_session_take_action (Suc n) e (?act\<lparr>a_type := ACTION_ADD_CHILD, a_user_param := Some c\<rparr>) (Some p) w) (\<lambda>(r, w).
              if r \<noteq> 0 then Inr (r, w) else Inr (ESQ_OK, w))))" for n
  proof (rule safe_bind, rule set_parent_safe [OF i(1) d(2)])
    fix w' t assume "session_type cs = ESQ_SESSION_TYPE_SOCKET_CB" "lc cs = PT_initial" "\<not> have_parent_session cs"
      "t = cs\<lparr>have_parent_session := True, session_done_cb := a_cb ?act, parent_session := a_user_param ?act, post_op := POP_NO_OP\<rparr>"
      "absw (D(c \<mapsto> t)) L w'"
    from second [OF this(1-3), of w' n] this(4,5) show "safe (\<lambda>(r, w). valid A {} w) (case (ESQ_OK, w') of (r, w) \<Rightarrow>
        if r \<noteq> 0 then Inr (r, w)
        else bindE (esq_session_take_action (Suc n) e (?act\<lparr>a_type := ACTION_ADD_CHILD, a_user_param := Some c\<rparr>) (Some p) w) (\<lambda>(r, w).
              if r \<noteq> 0 then Inr (r, w) else Inr (ESQ_OK, w)))"
      by (auto simp: ESQ_OK_def intro!: safe_bind elim!: safe_mono)
  qed simp
  obtain m1 q1 m2 q2 where "sess p w = Inr (ps\<lparr>nxt := m1, prv := q1\<rparr>)" "sess c w = Inr (cs\<lparr>nxt := m2, prv := q2\<rparr>)"
    using absw_sess [OF ab] d by metis
  then show ?thesis using pl(2,5) go [of 2, folded take_action_Suc]
    by (simp add: esq_session_bundle_child_def ESQ_CHECK_SESSION_def Let_def)
qed

section \<open>New sessions\<close>

lemma fam_new:
  assumes "fam_ok K F D" "D a = None" "child_session_list s = None" "finished_child_session_list s = None" "parent_session s = None"
  shows "fam_ok (K(a := [])) (F(a := [])) (D(a \<mapsto> s))"
  unfolding fam_ok_def
proof (intro allI impI)
  fix p t assume p: "(D(a \<mapsto> s)) p = Some t"
  show "kin_ok (K(a := [])) (F(a := [])) (D(a \<mapsto> s)) p t"
  proof (cases "p = a")
    case True
    then show ?thesis using p assms(3-5) by (intro kin_okI) auto
  next
    case False
    then have k: "kin_ok K F D p t" using p fam_okD [OF assms(1)] by simp
    have a: "a \<notin> set (K p) \<union> set (F p)" using kin_parent [OF k, of a] assms(2) by auto
    have "chain child_f (D(a \<mapsto> s)) xs None = chain child_f D xs None" if "a \<notin> set xs" for xs
      using that by (intro chain_frame) auto
    moreover have "\<exists>t. (D(a \<mapsto> s)) c = Some t \<and> parent_session t = Some p" if "c \<in> set (K p) \<union> set (F p)" for c
      using kin_parent [OF k that] that a by auto
    moreover have "\<exists>t. (D(a \<mapsto> s)) c = Some t \<and> dead t" "K c = []" "F c = []" if "c \<in> set (F p)" for c
      using kin_finished [OF k that] that a by auto
    moreover have "q \<noteq> a" if "parent_session t = Some q" for q using kin_up(2) [OF k that] assms(2) by auto
    ultimately show ?thesis using kin_lists [OF k] kin_up [OF k] a False by (intro kin_okI) auto
  qed
qed

lemma new_valid:
  assumes "valid A {} w" "malloc_session e = Some a" "heap w a = None" "a \<in> A"
  shows "valid A {} (snd (esq_session_new e w))"
proof -
  obtain D L K F where i: "inv {} D L K F w" "dom D \<subseteq> A" using assms(1) by (auto simp: valid_def)
  note iv = i(1) [unfolded inv_def]
  have D: "D a = None" using absw_None [of D L w a] iv assms(3) by simp
  define s where "s = session_zero\<lparr>magic0 := ESQ_SESSION_MAGIC, magic1 := ESQ_SESSION_MAGIC, session_type := ESQ_SESSION_TYPE_NEW\<rparr>"
  let ?w = "snd (esq_session_new e w)"
  have w: "heap ?w = (heap w)(a \<mapsto> s)" "lists ?w = lists w"
    using assms(2) by (simp_all add: esq_session_new_def embedded_ctxs_def s_def)
  have nw: "nowhere a L" using absw_alloc [of D L w a] iv D by (auto simp: nowhere_def)
  have "list_inv l (heap ?w) (lists ?w l) (L l)" for l
    using list_inv_frame [of "L l" "heap ?w" "heap w" l] iv nw by (auto simp: absw_def lists_ok_def w nowhere_def)
  then have "absw (D(a \<mapsto> s)) L ?w"
    using iv by (auto simp: absw_def lists_ok_def w s_def strip_def session_zero_def)
  moreover have "fam_ok (K(a := [])) (F(a := [])) (D(a \<mapsto> s))" using iv D by (intro fam_new) (simp_all add: s_def session_zero_def)
  moreover have "placed {} (D(a \<mapsto> s)) L"
  proof (rule placed_change [of "{}" D L a])
    have "supported s" "ESQ_CHECK_SESSION s" "right s None"
      by (simp_all add: s_def session_zero_def supported_def fresh_def ESQ_CHECK_SESSION_def right_def settled_def labels_def places_def session_type_defs)
    then show "\<And>t. (D(a \<mapsto> s)) a = Some t \<Longrightarrow> supported t \<and> ESQ_CHECK_SESSION t \<and> (\<exists>p. pos a L p \<and> right t p)"
      using nw by (auto simp: pos_nowhere [symmetric])
  qed (use iv in auto)
  ultimately have "inv {} (D(a \<mapsto> s)) L (K(a := [])) (F(a := [])) ?w" by (simp add: inv_def)
  from validI [OF this, of A] show ?thesis using i(2) assms(4) by auto
qed

text \<open>A session taken off a list of new sessions is ready to be picked up.\<close>

lemma pop_inv:
  assumes "inv {} D L K F w" "l \<in> {L_global, L_new}" "L l = a # xs"
    and "\<And>w'. inv {a} D (L(l := xs)) K F w' \<Longrightarrow> Q w'"
  shows "safe Q (on_list l (pop_new_list a) w)"
proof -
  note i = assms(1) [unfolded inv_def]
  have ab: "absw D L w" using i by simp
  have out: "a \<notin> set xs" using absw_distinct [OF ab, of l] assms(3) by simp
  obtain s where s: "D a = Some s" using absw_alloc [OF ab, of a l] assms(3) by auto
  have pos: "pos a L (Some l)"
    using absw_disjoint [OF ab, of l _ a] assms(3) by (auto simp: pos_def)
  then have "right s (Some l)" using i s pos_unique placedD(3) [of "{}" D L a s] by blast
  then have pk: "picked s None"
    using assms(2) by (auto simp: right_def places_def picked_def fresh_def session_type_defs timing_list_def split: if_splits pt_label.splits)
  have pos': "pos b (L(l := xs)) p = pos b L p" if "b \<noteq> a" for b p
  proof -
    have "b \<in> set ((L(l := xs)) m) \<longleftrightarrow> b \<in> set (L m)" for m using that assms(3) by (cases "m = l") simp_all
    then show ?thesis by (simp only: pos_def)
  qed
  have "placed {a} D (L(l := xs))"
    unfolding placed_def
  proof (intro allI impI)
    fix b t assume b: "D b = Some t"
    have p: "supported t" "ESQ_CHECK_SESSION t" "\<exists>p. pos b L p \<and> right t p" using i placedD [of "{}" D L b t] b by simp_all
    have "pos a (L(l := xs)) None" using pos out by (auto simp: pos_def)
    then show "supported t \<and> ESQ_CHECK_SESSION t \<and>
        (\<exists>p. pos b (L(l := xs)) p \<and> (if b \<in> {a} then picked t p else right t p))"
      using p pk s b pos' by (cases "b = a") auto
  qed
  then show ?thesis using i assms(4) by (intro pop_new_safe [OF ab assms(2,3)]) (simp add: inv_def)
qed

lemma yields_cfg:
  assumes "safe (\<lambda>w. \<exists>s p. cfg a D L s p w \<and> P s) x" "\<And>t. P (strip t) = P t"
  shows "yields a P x"
  unfolding yields_def
proof (intro allI impI)
  fix w assume "x = Inr w"
  then obtain s p where "cfg a D L s p w" "P s" using assms(1) by auto
  then show "\<exists>s. heap w a = Some s \<and> P s" using cfg_heap assms(2) by metis
qed

lemma yields_set: "yields a (\<lambda>s. post_op s = POP_NO_OP \<and> lc s = l) (run [set_post_op POP_NO_OP a, goto_set l a] w)"
  by (auto simp: yields_def pt_ops upd_def sess_def of_opt_def bindE_def split: option.splits)

lemma yields_mono: "yields a P x \<Longrightarrow> (\<And>s. P s \<Longrightarrow> Q s) \<Longrightarrow> yields a Q x"
  unfolding yields_def by blast

definition installed :: "esq_session_t \<Rightarrow> bool" where
  "installed s \<longleftrightarrow> post_op s = POP_NO_OP \<and> lc s \<in> {PT_winded_up, PT_active}"

lemma pick_up_yields:
  assumes "heap w a = Some t" "lc t = PT_wait_for_cpu" "a_type act = ACTION_PICK_UP"
    "pt \<in> {esq_pt_of_single_shot_socket, esq_pt_of_multi_shot_socket}"
  shows "yields a installed (run [set_post_op POP_NO_OP a, pt e act a] w)"
proof -
  have set: "yields a installed (run [set_post_op POP_NO_OP a, goto_set l a] w')" if "l \<in> {PT_winded_up, PT_active}" for l w'
    by (rule yields_mono [OF yields_set]) (use that in \<open>auto simp: installed_def\<close>)
  have "yields a installed (run [f, set_post_op POP_NO_OP a, goto_set l a] w')"
      "yields a installed (run [f, g, set_post_op POP_NO_OP a, goto_set l a] w')"
    if "l \<in> {PT_winded_up, PT_active}" for l f g w'
    by (rule yields_run set [OF that])+
  then show ?thesis using assms
    by (auto simp: machine_start [OF assms(1)] esq_pt_of_single_shot_socket_def esq_pt_of_multi_shot_socket_def
        ss_wait_for_cpu_def ss_install_fd_def ms_wait_for_cpu_def sess_def of_opt_def Let_def os_defs simp del: run.simps)
qed

lemma socket_pt:
  assumes "supported s" "\<not> fresh s"
  shows "\<exists>pt \<in> {esq_pt_of_single_shot_socket, esq_pt_of_multi_shot_socket}. pt_of_type (session_type s) = Some pt"
  using assms by (auto simp: supported_def pt_of_type_def session_type_defs)

lemma inv_heap:
  assumes "inv X D L K F w" "D a = Some s"
  shows "\<exists>t. heap w a = Some t \<and> strip t = s \<and> lc t = lc s \<and> session_type t = session_type s \<and> fd t = fd s"
  using assms by (auto simp: inv_def absw_def strip_def)

lemma drop_result_safe: "safe (\<lambda>(r, w). Q w) x \<Longrightarrow> safe Q (drop_result x)"
  unfolding drop_result_def by (rule safe_bind) (auto elim: safe_mono)

lemma pick_up_step:
  assumes "inv {a} D L K F w" "D a = Some s"
  shows "safe (\<lambda>w'. \<exists>s' p'. cfg a D L s' p' w' \<and> stepped s s' \<and> right s' p' \<and> installed s') (esq_session_pick_up e (Some a) w)"
proof -
  let ?act = "simple_action e ACTION_PICK_UP"
  obtain p where p: "cfg a D L s p w" "picked s p" using inv_cfg [OF assms] by auto
  have sup: "supported s" "stepped s s" using assms by (simp_all add: inv_def placed_def stepped_def)
  have act: "plain ?act" "a_type ?act = ACTION_PICK_UP" by (simp_all add: plain_def simple_action_def)
  obtain pt where pt: "pt \<in> {esq_pt_of_single_shot_socket, esq_pt_of_multi_shot_socket}" "pt_of_type (session_type s) = Some pt"
    using socket_pt [OF sup(1)] p(2) by (auto simp: picked_def)
  obtain t where t: "heap w a = Some t" "lc t = PT_wait_for_cpu" using inv_heap [OF assms] p(2) by (auto simp: picked_def)
  have en: "fresh s \<Longrightarrow> right s p" "\<not> fresh s \<Longrightarrow> entry ?act s p" using p(2) act(2) by (auto simp: picked_def entry_def)
  have "safe (\<lambda>(r, w'). \<exists>s' p'. cfg a D L s' p' w' \<and> stepped s s' \<and> right s' p' \<and> installed s' \<and> r = result s')
      (esq_session_take_action (Suc 2) e ?act (Some a) w)"
    by (rule take_yields [OF assms p(1) sup(2) act(1) en pt(2) pick_up_yields [OF t act(2) pt(1)]])
      (auto simp: installed_def strip_def)
  then have "safe (\<lambda>w'. \<exists>s' p'. cfg a D L s' p' w' \<and> stepped s s' \<and> right s' p' \<and> installed s') (drop_result (take_action e ?act (Some a) w))"
    unfolding take_action_Suc by (intro drop_result_safe) (auto elim!: safe_mono)
  then show ?thesis by (simp add: esq_session_pick_up_def nonnull_def)
qed

lemma installed_not_new:
  assumes "installed s" "l \<in> {L_global, L_new}"
  shows "\<not> right s (Some l)"
proof -
  have "places s \<subseteq> {timing_list s, L_active}" using assms(1) by (auto simp: installed_def places_def)
  moreover have "l \<noteq> timing_list s" "l \<noteq> L_active"
    using assms(2) timing_list_not_new(1,2) [of s, symmetric] by auto
  ultimately show ?thesis by (auto simp: right_def)
qed

lemma inv_step_at:
  assumes "inv X D L K F w" "D a = Some s" "absw (D(a \<mapsto> s')) L' w'" "others a L L'" "pos a L' p" "stepped s s'" "right s' p"
  shows "inv (X - {a}) (D(a \<mapsto> s')) L' K F w'"
proof -
  have "fam_ok K F (D(a \<mapsto> s'))" using fam_ok_upd [of K F D a s s'] assms(1,2,6) by (simp add: inv_def stepped_def)
  moreover have "placed (X - {a}) (D(a \<mapsto> s')) L'"
  proof (unfold placed_def, intro allI impI)
    fix b t assume b: "(D(a \<mapsto> s')) b = Some t"
    have "ESQ_CHECK_SESSION s'"
      using assms(1,2,6) family_fields(6) [of s' s] by (simp add: inv_def placed_def stepped_def)
    then show "supported t \<and> ESQ_CHECK_SESSION t \<and> (\<exists>p. pos b L' p \<and> (if b \<in> X - {a} then picked t p else right t p))"
      using b assms(1,5-7) others_pos [OF assms(4), of b]
      by (cases "b = a") (auto simp: inv_def placed_def stepped_def)
  qed
  ultimately show ?thesis using assms(3) by (simp add: inv_def)
qed

lemma pick_up_first:
  assumes "inv {} D L K F w" "l \<in> {L_global, L_new}" "L l = a # xs" "dom D \<subseteq> A"
    and "\<And>D' L' w'. inv {} D' L' K F w' \<Longrightarrow> dom D' \<subseteq> A \<Longrightarrow> L' l = xs \<Longrightarrow> Q w'"
  shows "safe Q (run [on_list l (pop_new_list a), esq_session_pick_up e (Some a)] w)"
proof (rule safe_run, rule pop_inv [OF assms(1-3)])
  fix w' assume i: "inv {a} D (L(l := xs)) K F w'"
  have ab: "absw D L w" using assms(1) by (simp add: inv_def)
  have out: "a \<notin> set xs" using absw_distinct [OF ab, of l] assms(3) by simp
  obtain s where s: "D a = Some s" using absw_alloc [OF ab, of a l] assms(3) by auto
  have "Q v" if c: "cfg a D (L(l := xs)) s' p' v" "stepped s s'" "right s' p'" "installed s'" for s' p' v
  proof -
    have X: "{a} - {a} = ({} :: addr set)" by simp
    obtain L' where L': "absw (D(a \<mapsto> s')) L' v" "others a (L(l := xs)) L'" "pos a L' p'" using c(1) by (auto simp: cfg_def)
    have "a \<notin> set (L' l)" using installed_not_new [OF c(4) assms(2)] c(3) L'(3) unfolding pos_def by metis
    then have "L' l = xs" using others_removeAll [OF L'(2), of l] out by simp
    moreover have "inv {} (D(a \<mapsto> s')) L' K F v"
      using inv_step_at [OF i s L'(1,2,3)] c(2,3) unfolding X by blast
    moreover have "dom (D(a \<mapsto> s')) \<subseteq> A" using s assms(4) by auto
    ultimately show ?thesis using assms(5) by blast
  qed
  then show "safe Q (run [esq_session_pick_up e (Some a)] w')"
    by (intro safe_run safe_mono [OF pick_up_step [OF i s]]) auto
qed

lemma list_length:
  assumes "inv X D L K F w" "dom D \<subseteq> A" "enough e A"
  shows "length (L l) < loop_fuel e"
proof -
  have ab: "absw D L w" using assms(1) by (simp add: inv_def)
  have "set (L l) \<subseteq> A" using absw_alloc [OF ab, of _ l] assms(2) by blast
  then have "card (set (L l)) \<le> card A" using assms(3) by (simp add: enough_def card_mono)
  then show ?thesis using absw_distinct [OF ab, of l] assms(3) by (simp add: enough_def distinct_card)
qed

lemma pick_up_global_valid:
  assumes "inv {} D L K F w" "dom D \<subseteq> A" "length (L L_global) < n"
  shows "safe (\<lambda>(r, w). valid A {} w) (pick_up_global n e r w)"
  using assms
proof (induction n arbitrary: D L w r)
  case (Suc n)
  have ab: "absw D L w" using Suc.prems(1) by (simp add: inv_def)
  show ?case
  proof (cases "L L_global")
    case Nil
    then show ?thesis using absw_head [OF ab, of L_global] Suc.prems(1,2) by (simp add: validI)
  next
    case (Cons a xs)
    have "safe (\<lambda>(r, w). valid A {} w) (bindE (run [on_list L_global (pop_new_list a), esq_session_pick_up e (Some a)] w) (pick_up_global n e True))"
    proof (rule safe_bind, rule pick_up_first [OF Suc.prems(1) _ Cons Suc.prems(2)])
      fix D' L' w' assume "inv {} D' L' K F w'" "dom D' \<subseteq> A" "L' L_global = xs"
      then show "safe (\<lambda>(r, w). valid A {} w) (pick_up_global n e True w')"
        using Suc.prems(3) Cons by (intro Suc.IH [of D' L']) auto
    qed simp
    then show ?thesis using absw_head [OF ab, of L_global] Cons by (simp del: run.simps)
  qed
qed simp

lemma pick_up_lists_valid:
  assumes "valid A {} w" "enough e A"
  shows "safe (\<lambda>(r, w). valid A {} w) (esq_worker_pick_up_from_local_list e w)"
    and "safe (\<lambda>(r, w). valid A {} w) (esq_worker_pick_up_from_global_list e w)"
proof -
  obtain D L K F where i: "inv {} D L K F w" "dom D \<subseteq> A" using assms(1) by (auto simp: valid_def)
  have ab: "absw D L w" using i(1) by (simp add: inv_def)
  show "safe (\<lambda>(r, w). valid A {} w) (esq_worker_pick_up_from_local_list e w)"
  proof (cases "L L_new")
    case Nil
    then show ?thesis using absw_head [OF ab, of L_new] assms(1) by (simp add: esq_worker_pick_up_from_local_list_def)
  next
    case (Cons a xs)
    have "safe (\<lambda>(r, w). valid A {} w)
        (bindE (run [on_list L_new (pop_new_list a), esq_session_pick_up e (Some a)] w) (\<lambda>w. Inr (True, w)))"
      by (rule safe_bind, rule pick_up_first [OF i(1) _ Cons i(2)]) (auto intro: validI)
    then show ?thesis using absw_head [OF ab, of L_new] Cons by (simp add: esq_worker_pick_up_from_local_list_def del: run.simps)
  qed
  show "safe (\<lambda>(r, w). valid A {} w) (esq_worker_pick_up_from_global_list e w)"
    using pick_up_global_valid [OF i list_length [OF i assms(2)]] assms(1)
    by (simp add: esq_worker_pick_up_from_global_list_def)
qed

section \<open>Finished children\<close>

lemma absw_drop:
  assumes "absw D L w" "nowhere c L"
  shows "absw (D(c := None)) L (embedded_ctxs c None (w\<lparr>heap := (heap w)(c := None)\<rparr>))"
proof -
  let ?w = "embedded_ctxs c None (w\<lparr>heap := (heap w)(c := None)\<rparr>)"
  have h: "heap ?w = (heap w)(c := None)" "lists ?w = lists w" by (simp_all add: embedded_ctxs_def)
  have "list_inv l (heap ?w) (lists ?w l) (L l)" for l
  proof -
    have "\<forall>x \<in> set (L l). heap ?w x = heap w x" using assms(2) by (auto simp: nowhere_def h)
    then have "list_inv l (heap ?w) (lists ?w l) (L l) = list_inv l (heap w) (lists ?w l) (L l)" by (rule list_inv_frame)
    then show ?thesis using assms(1) unfolding h(2) by (simp add: absw_def lists_ok_def)
  qed
  moreover have "D(c := None) = (\<lambda>b. map_option strip (heap ?w b))" using assms(1) by (auto simp: absw_def h)
  ultimately show ?thesis using assms(1) by (simp add: absw_def lists_ok_def)
qed

lemma done_cbs_safe:
  assumes "absw D L w" "chain child_f D fs None" "distinct fs" "length fs \<le> n" "\<forall>c \<in> set fs. nowhere c L"
    and "\<forall>c \<in> set fs. \<forall>t. D c = Some t \<longrightarrow> ESQ_CHECK_SESSION t" "\<And>w'. absw (D |` (- set fs)) L w' \<Longrightarrow> Q w'"
  shows "safe Q (run_done_cbs n (first fs None) w)"
  using assms
proof (induction fs arbitrary: D w n)
  case Nil
  then show ?case by (cases n) simp_all
next
  case (Cons c fs)
  obtain m where n: "n = Suc m" using Cons.prems(4) by (cases n) auto
  obtain t where t: "D c = Some t" "next_child t = first fs None" using Cons.prems(2) by (auto simp: child_f_def)
  note c = absw_triv [OF Cons.prems(1) t(1)]
  have ck: "ESQ_CHECK_SESSION t" using Cons.prems(6) t(1) by simp
  have go: "safe Q (run_done_cbs m (first fs None) (embedded_ctxs c None (w'\<lparr>heap := (heap w')(c := None)\<rparr>)))"
    if "absw D L w'" for w'
  proof (rule Cons.IH [OF absw_drop [OF that]])
    show "chain child_f (D(c := None)) fs None" using Cons.prems(2,3) by simp
    fix w'' assume "absw ((D(c := None)) |` (- set fs)) L w''"
    moreover have "(D(c := None)) |` (- set fs) = D |` (- set (c # fs))" by (auto simp: restrict_map_def)
    ultimately show "Q w''" using Cons.prems(7) by simp
  qed (use Cons.prems n in auto)
  have "safe Q (bindE (call_session_done_cb c w) (\<lambda>w. run_done_cbs m (first fs None)
      (embedded_ctxs c None (w\<lparr>heap := (heap w)(c := None)\<rparr>))))"
    by (rule safe_bind, rule call_done_safe [OF Cons.prems(1) t(1)], rule go)
  then show ?case using t(2) ck by (auto simp: n ESQ_CHECK_SESSION_def intro!: safe_bind sess_safe [OF c])
qed

text \<open>What is left after the finished children of \<open>a\<close> are freed.\<close>

definition reaped :: "addr \<Rightarrow> addr list \<Rightarrow> (addr \<Rightarrow> esq_session_t option) \<Rightarrow> addr \<Rightarrow> esq_session_t option" where
  "reaped a fs D = (D |` (- set fs))(a \<mapsto> (the (D a))\<lparr>finished_child_session_list := None\<rparr>)"

lemma reaped_other: "b \<noteq> a \<Longrightarrow> reaped a fs D b = (if b \<in> set fs then None else D b)"
  by (simp add: reaped_def restrict_map_def)

lemma fam_reaped:
  assumes "fam_ok K F D" "D a = Some s"
  shows "fam_ok K (F(a := [])) (reaped a (F a) D)"
  unfolding fam_ok_def
proof (intro allI impI)
  define D' where "D' = reaped a (F a) D"
  fix p t assume "reaped a (F a) D p = Some t"
  then have t: "D' p = Some t" by (simp add: D'_def)
  have D'a: "D' a = Some (s\<lparr>finished_child_session_list := None\<rparr>)" using assms(2) by (simp add: D'_def reaped_def)
  have oth: "D' b = (if b \<in> set (F a) then None else D b)" if "b \<noteq> a" for b using reaped_other [OF that] by (simp add: D'_def)
  note ka = fam_okD [OF assms]
  have self: "a \<notin> set (K a) \<union> set (F a)" using kin_parent [OF ka, of a] kin_up(1) [OF ka] assms(2) by auto
  obtain u where u: "D p = Some u" "p \<notin> set (F a)"
    "fresh t = fresh u" "parent_session t = parent_session u" "have_parent_session t = have_parent_session u"
    "child_session_list t = child_session_list u" "p \<noteq> a \<Longrightarrow> t = u"
  proof (cases "p = a")
    case True
    then have "t = s\<lparr>finished_child_session_list := None\<rparr>" using t D'a by simp
    then show ?thesis using assms(2) self True by (intro that [of s]) (simp_all add: fresh_def)
  next
    case False
    then have "D p = Some t" "p \<notin> set (F a)" using t oth [OF False] by (simp_all split: if_splits)
    then show ?thesis by (intro that [of t]) simp_all
  qed
  note k = fam_okD [OF assms(1) u(1)]
  have kids: "(D' c = D c \<or> c = a) \<and> c \<notin> set (F a)" if "c \<in> set (K p) \<union> set ((F(a := [])) p)" for c
  proof -
    have "c \<notin> set (F a)"
    proof (cases "p = a")
      case True
      then show ?thesis using that kin_lists(5) [OF ka] by auto
    next
      case False
      then show ?thesis using that kin_disjoint [OF assms(1) u(1) assms(2) False, of c] by auto
    qed
    then show ?thesis using oth [of c] by auto
  qed
  have nc: "map_option next_child (D' c) = map_option next_child (D c)" if "c \<in> set (K p) \<union> set ((F(a := [])) p)" for c
    using kids [OF that] D'a assms(2) by (cases "c = a") simp_all
  have fch: "chain child_f D ((F(a := [])) p) None" using kin_lists(4) [OF k] by simp
  have ch: "chain child_f D' (K p) None" "chain child_f D' ((F(a := [])) p) None"
    by (subst chain_child_cong [of _ D' D], use nc kin_lists(3) [OF k] fch in simp, use kin_lists(3) [OF k] fch in blast)+
  have "kin_ok K (F(a := [])) D' p t"
  proof (rule kin_okI)
    show "finished_child_session_list t = first ((F(a := [])) p) None"
      using t D'a u(7) kin_lists(2) [OF k] by (cases "p = a") auto
    show "distinct (K p @ (F(a := [])) p)" using kin_lists(5) [OF k] by auto
    show "\<exists>t. D' c = Some t \<and> parent_session t = Some p" if "c \<in> set (K p) \<union> set ((F(a := [])) p)" for c
    proof -
      have "c \<in> set (K p) \<union> set (F p)" using that by (auto split: if_splits)
      then obtain v where "D c = Some v" "parent_session v = Some p" using kin_parent [OF k] by blast
      then show ?thesis using kids [OF that] D'a assms(2) by (cases "c = a") auto
    qed
    show "\<exists>t. D' c = Some t \<and> dead t" "K c = [] \<and> (F(a := [])) c = []" if "c \<in> set ((F(a := [])) p)" for c
    proof -
      have c: "c \<in> set (F p)" using that by (auto split: if_splits)
      obtain v where v: "D c = Some v" "dead v" using kin_finished(1) [OF k c] by blast
      have "dead (v\<lparr>finished_child_session_list := None\<rparr>)" using v(2) by (simp add: dead_def)
      then show "\<exists>t. D' c = Some t \<and> dead t" using kids [of c] that v D'a assms(2) by (cases "c = a") auto
      show "K c = [] \<and> (F(a := [])) c = []" using kin_finished(2,3) [OF k c] by simp
    qed
    show "q \<noteq> p \<and> D' q \<noteq> None \<and> have_parent_session t \<and> \<not> fresh t \<and> p \<in> set (K q) \<union> set ((F(a := [])) q)"
      if "parent_session t = Some q" for q
    proof -
      note up = kin_up [OF k that [unfolded u(4)]]
      have "q \<notin> set (F a)" using up(5) kin_finished(2,3) [OF ka, of q] by auto
      then have "D' q \<noteq> None" using up(2) oth [of q] D'a by (cases "q = a") auto
      then show ?thesis using up u(2,3,5) by auto
    qed
  qed (use u(6) ch kin_lists(1) [OF k] in simp_all)
  then show "kin_ok K (F(a := [])) (reaped a (F a) D) p t" by (simp add: D'_def)
qed

lemma done_cb_valid:
  assumes "valid A {} w" "heap w a \<noteq> None" "enough e A"
  shows "safe (valid A {}) (esq_execute_session_done_cb e a w)"
proof -
  obtain D L K F where i: "inv {} D L K F w" "dom D \<subseteq> A" using assms(1) by (auto simp: valid_def)
  note iv = i(1) [unfolded inv_def]
  have ab: "absw D L w" using iv by simp
  obtain s where s: "D a = Some s" using absw_None [OF ab, of a] assms(2) by auto
  have k: "kin_ok K F D a s" using iv s by (simp add: fam_okD)
  have ck: "ESQ_CHECK_SESSION t" if "D c = Some t" for c t using iv that by (simp add: placed_def)
  have self: "a \<notin> set (F a)" using kin_parent [OF k, of a] kin_up(1) [OF k] s by auto
  let ?s = "s\<lparr>finished_child_session_list := None\<rparr>"
  have fin: "valid A {} w'" if w': "absw ((D |` (- set (F a)))(a \<mapsto> ?s)) L w'" for w'
  proof -
    have D': "(D |` (- set (F a)))(a \<mapsto> ?s) = reaped a (F a) D" using s by (simp add: reaped_def)
    have look: "\<exists>u. D b = Some u \<and> locus t = locus u \<and> ESQ_CHECK_SESSION t = ESQ_CHECK_SESSION u" if "reaped a (F a) D b = Some t" for b t
    proof (cases "b = a")
      case True
      then have "t = ?s" using that s by (simp add: reaped_def)
      then show ?thesis using s True by (simp add: locus_def ESQ_CHECK_SESSION_def)
    next
      case False
      then have "D b = Some t" using that reaped_other [OF False, of "F a" D] by (simp split: if_splits)
      then show ?thesis by blast
    qed
    have "placed {} (reaped a (F a) D) L"
    proof (rule placed_change [of "{}" D L a])
      show "supported t \<and> ESQ_CHECK_SESSION t \<and> (\<exists>p. pos a L p \<and> right t p)" if r: "reaped a (F a) D a = Some t" for t
      proof -
        obtain u where u: "D a = Some u" "locus t = locus u" "ESQ_CHECK_SESSION t = ESQ_CHECK_SESSION u" using look [OF r] by blast
        have "placed {} D L" using iv by simp
        from placedD [OF this u(1)] show ?thesis using u(3) locus_cong [OF u(2)] by simp
      qed
      show "placed {} D L" using iv by simp
      show "\<exists>u. D b = Some u \<and> locus t = locus u \<and> ESQ_CHECK_SESSION t = ESQ_CHECK_SESSION u"
        if r: "reaped a (F a) D b = Some t" for b t using look [OF r] .
    qed simp_all
    then have "inv {} (reaped a (F a) D) L K (F(a := [])) w'" using w' iv fam_reaped [of K F D a s] s unfolding inv_def D' by blast
    moreover have "dom (reaped a (F a) D) \<subseteq> A" using i(2) look by blast
    ultimately show ?thesis by (rule validI)
  qed
  have "safe (valid A {}) (run [run_done_cbs (loop_fuel e) (first (F a) None), upd (\<lambda>s. s\<lparr>finished_child_session_list := None\<rparr>) a] w)"
  proof (rule safe_run, rule done_cbs_safe [OF ab kin_lists(4) [OF k]])
    show "distinct (F a)" using kin_lists(5) [OF k] by simp
    show "length (F a) \<le> loop_fuel e" by (rule kin_length(2) [OF k i(2) assms(3)])
    show "\<forall>c \<in> set (F a). nowhere c L" using finished_nowhere [OF i(1) _ s _ others_refl] by simp
    show "\<forall>c \<in> set (F a). \<forall>t. D c = Some t \<longrightarrow> ESQ_CHECK_SESSION t" using ck by blast
    fix w' assume "absw (D |` (- set (F a))) L w'"
    moreover have "(D |` (- set (F a))) a = Some s" using s self by (simp add: restrict_map_def)
    ultimately have "absw ((D |` (- set (F a)))(a \<mapsto> s)) L w'" by (rule absw_triv)
    then show "safe (valid A {}) (run [upd (\<lambda>s. s\<lparr>finished_child_session_list := None\<rparr>) a] w')"
      using fin by (intro safe_run upd_safe) (auto simp: neutral_defs)
  qed
  then show ?thesis unfolding esq_execute_session_done_cb_def
    using ck [OF s] kin_lists(2) [OF k]
    by (intro safe_bind sess_safe [OF absw_triv [OF ab s]]) (simp add: ESQ_CHECK_SESSION_def del: run.simps)
qed

end
