(* ===== verification/Esq_Loop.thy ===== *)
theory Esq_Loop
  imports Esq_Engine
begin

text \<open>
  The loop of a worker thread keeps the invariant of the engine, whatever order the events come in; with
  the interface functions it forms a step relation, and every state it reaches is valid.
\<close>

section \<open>Actions from the interface and from the kernel\<close>

lemma api_valid:
  assumes "valid A {} w" "heap w a \<noteq> None" "plain act" "a_type act \<noteq> ACTION_PICK_UP" "enough e A"
  shows "safe (\<lambda>(r, w). valid A {} w) (take_action e act (Some a) w)"
  using take_plain [OF assms(1,2) _ assms(3,5), of 1] assms(4)
  by (simp add: ready_def take_action_def TAKE_ACTION_FUEL_def numeral_3_eq_3)

lemma action_valid:
  assumes "valid A {} w" "heap w a \<noteq> None" "t \<notin> {ACTION_PICK_UP, ACTION_SET_PARENT, ACTION_ADD_CHILD, ACTION_HASH_LOCK_READ, ACTION_HASH_LOCK_WRITE}"
    "enough e A"
  shows "safe (valid A {}) (drop_result (take_action e (simple_action e t) (Some a) w))"
  using api_valid [OF assms(1,2) _ _ assms(4), of "simple_action e t"] assms(3)
  by (intro drop_result_safe) (simp add: plain_def simple_action_def)

lemma notify_valid:
  assumes "valid A {} w" "heap w a \<noteq> None" "enough e A"
  shows "safe (valid A {}) (drop_result (take_action e (notify_action e b) (Some a) w))"
  using api_valid [OF assms(1,2) _ _ assms(3), of "notify_action e b"]
  by (intro drop_result_safe) (simp add: plain_def notify_action_def)

lemma receive_valid:
  assumes "valid A {} w" "\<And>a. data = Some a \<Longrightarrow> heap w a \<noteq> None" "enough e A"
  shows "safe (valid A {}) (esq_worker_receive_fd_event e data r w)"
proof (cases data)
  case (Some a)
  have a: "heap w a \<noteq> None" using assms(2) Some by simp
  have "safe (valid A {}) (drop_result (take_action e (simple_action e ACTION_NOTIFY_AIO_REMOVED) (Some a) w))"
    by (rule action_valid [OF assms(1) a _ assms(3)]) simp
  then show ?thesis using Some a assms(1) notify_valid [OF assms(1) a assms(3)]
    by (auto simp: esq_worker_receive_fd_event_def esq_notify_aio_removed_def esq_notify_event_to_session_def nonnull_def
        sess_def of_opt_def Let_def)
qed (use assms(1) in \<open>simp add: esq_worker_receive_fd_event_def\<close>)

section \<open>Execution\<close>

definition executing :: "esq_session_t \<Rightarrow> bool" where
  "executing s \<longleftrightarrow> post_op s = POP_RETURN_VALUE \<and> retval s = ESQ_OK \<and> lc s = PT_execute_cb"

lemma execute_yields:
  assumes "heap w a = Some t" "lc t = PT_active" "a_type act = ACTION_EXECUTE_CB"
    "pt \<in> {esq_pt_of_single_shot_socket, esq_pt_of_multi_shot_socket}"
  shows "yields a executing (run [set_post_op POP_NO_OP a, pt e act a] w)"
proof -
  have e: "yields a executing (run [set_return ESQ_OK a, goto_set PT_execute_cb a] w')"
    "yields a executing (run [set_return ESQ_OK a, upd (\<lambda>s. s\<lparr>event_bits2 := 0\<rparr>) a, goto_set PT_execute_cb a] w')" for w'
    by (auto simp: yields_def executing_def pt_ops upd_def sess_def of_opt_def bindE_def split: option.splits)
  have "yields a executing (run [f, set_return ESQ_OK a, goto_set PT_execute_cb a] w')"
    "yields a executing (run [f, set_return ESQ_OK a, upd (\<lambda>s. s\<lparr>event_bits2 := 0\<rparr>) a, goto_set PT_execute_cb a] w')" for f w'
    by (rule yields_run, rule e)+
  then show ?thesis using assms
    by (auto simp: machine_start [OF assms(1)] esq_pt_of_single_shot_socket_def esq_pt_of_multi_shot_socket_def
        pt_active_def ms_active_def sess_def of_opt_def simp del: run.simps)
qed

lemma active_label:
  assumes "inv {} D L K F w" "D a = Some s" "a \<in> set (L L_active)"
  shows "lc s = PT_active" "\<not> fresh s" "right s (Some L_active)"
proof -
  obtain p where p: "pos a L p" "right s p" using assms(1,2) by (auto simp: inv_def placed_def)
  then show r: "right s (Some L_active)" using assms(3) by (auto simp: pos_def)
  then have "L_active \<in> places s" by (simp add: right_def)
  then show "lc s = PT_active" "\<not> fresh s" using timing_list_not_new(3) [of s, symmetric]
    by (auto simp: places_def fresh_def session_type_defs split: if_splits pt_label.splits)
qed

lemma pop_active_step:
  assumes "inv {} D L K F w" "L L_active = a # xs" "dom D \<subseteq> A" "0 < n"
  shows "safe (\<lambda>(p, w'). p = Some a \<and> valid A {} w' \<and> (\<exists>t. heap w' a = Some t \<and> lc t = PT_execute_cb)) (pop_active n e (Some a) w)"
proof -
  obtain m where n: "n = Suc m" using assms(4) by (cases n) auto
  let ?act = "simple_action e ACTION_EXECUTE_CB"
  have ab: "absw D L w" using assms(1) by (simp add: inv_def)
  have a: "a \<in> set (L L_active)" using assms(2) by simp
  obtain s where s: "D a = Some s" using absw_alloc [OF ab a] by auto
  note act = active_label [OF assms(1) s a]
  obtain p where p: "cfg a D L s p w" "right s p" using inv_cfg [OF assms(1) s] by auto
  have sup: "supported s" "stepped s s" using assms(1) s by (simp_all add: inv_def placed_def stepped_def)
  obtain pt where pt: "pt \<in> {esq_pt_of_single_shot_socket, esq_pt_of_multi_shot_socket}" "pt_of_type (session_type s) = Some pt"
    using socket_pt [OF sup(1) act(2)] by blast
  obtain t where t: "heap w a = Some t" "lc t = PT_active" using inv_heap [OF assms(1) s] act(1) by auto
  have en: "fresh s \<Longrightarrow> right s p" "\<not> fresh s \<Longrightarrow> entry ?act s p" using p(2) act(1) by (auto simp: entry_def)
  have "safe (\<lambda>(r, w'). \<exists>s' p'. cfg a D L s' p' w' \<and> stepped s s' \<and> right s' p' \<and> executing s' \<and> r = result s')
      (esq_session_take_action (Suc 2) e ?act (Some a) w)"
    by (rule take_yields [OF assms(1) s p(1) sup(2) _ en pt(2) execute_yields [OF t _ pt(1)]])
      (auto simp: executing_def strip_def plain_def simple_action_def)
  then have "safe (\<lambda>(r, w'). r = 0 \<and> valid A {} w' \<and> (\<exists>t. heap w' a = Some t \<and> lc t = PT_execute_cb))
      (take_action e ?act (Some a) w)"
    unfolding take_action_Suc
  proof (rule safe_mono)
    fix y assume "case y of (r, w') \<Rightarrow> \<exists>s' p'. cfg a D L s' p' w' \<and> stepped s s' \<and> right s' p' \<and> executing s' \<and> r = result s'"
    then obtain r w' s' p' where y: "y = (r, w')" "cfg a D L s' p' w'" "stepped s s'" "right s' p'" "executing s'" "r = result s'"
      by (cases y) auto
    have "r = 0" using y(5,6) by (simp add: executing_def result_def ESQ_OK_def)
    moreover have "valid A {} w'" using valid_stepped [OF assms(1) _ s y(2-4) assms(3)] by simp
    moreover have "\<exists>t. heap w' a = Some t \<and> lc t = PT_execute_cb"
      using cfg_heap [OF y(2)] y(5) by (auto simp: executing_def strip_def)
    ultimately show "case y of (r, w') \<Rightarrow> r = 0 \<and> valid A {} w' \<and> (\<exists>t. heap w' a = Some t \<and> lc t = PT_execute_cb)"
      using y(1) by simp
  qed
  then show ?thesis unfolding n by (auto intro!: safe_bind elim!: safe_mono)
qed

lemma pop_valid:
  assumes "valid A {} w" "enough e A"
  shows "safe (\<lambda>(p, w'). valid A {} w' \<and> (case p of None \<Rightarrow> w' = w | Some a \<Rightarrow> \<exists>t. heap w' a = Some t \<and> lc t = PT_execute_cb))
    (esq_session_pop_the_first_active e w)"
proof -
  obtain D L K F where i: "inv {} D L K F w" "dom D \<subseteq> A" using assms(1) by (auto simp: valid_def)
  have ab: "absw D L w" using i(1) by (simp add: inv_def)
  have n: "0 < loop_fuel e" using assms(2) by (simp add: enough_def)
  show ?thesis
  proof (cases "L L_active")
    case Nil
    then show ?thesis using absw_head [OF ab, of L_active] assms(1) by (simp add: esq_session_pop_the_first_active_def)
  next
    case (Cons a xs)
    have "head (lists w L_active) = Some a" using absw_head [OF ab, of L_active] Cons by simp
    then show ?thesis using pop_active_step [OF i(1) Cons i(2) n, of e]
      by (auto simp: esq_session_pop_the_first_active_def elim!: safe_mono)
  qed
qed

section \<open>Code that does not leave the program\<close>

text \<open>\<open>sure Q x\<close>: the result \<open>x\<close> is a value with \<open>Q\<close>, neither a fault nor a call of \<^verbatim>\<open>exit\<close>.\<close>

definition sure :: "('b \<Rightarrow> bool) \<Rightarrow> 'b res \<Rightarrow> bool" where
  "sure Q x \<longleftrightarrow> safe Q x \<and> x \<noteq> Inl Exit"

lemma sure_Inr [simp]: "sure Q (Inr y) = Q y"
  by (simp add: sure_def)

lemma sure_result: "sure Q x \<Longrightarrow> \<exists>y. x = Inr y \<and> Q y"
proof -
  assume s: "sure Q x"
  show ?thesis
  proof (cases x)
    case (Inl z)
    then show ?thesis using s by (cases z) (auto simp: sure_def)
  qed (use s in \<open>simp add: sure_def\<close>)
qed

lemma sure_safe: "sure Q x \<Longrightarrow> safe Q x"
  by (simp add: sure_def)

lemma sure_mono: "sure P x \<Longrightarrow> (\<And>y. P y \<Longrightarrow> Q y) \<Longrightarrow> sure Q x"
  unfolding sure_def using safe_mono by blast

lemma sure_bind: "sure (\<lambda>y. sure Q (f y)) x \<Longrightarrow> sure Q (bindE x f)"
  using sure_result [of "\<lambda>y. sure Q (f y)" x] by auto

definition steady :: "('w \<Rightarrow> 'b res) \<Rightarrow> bool" where
  "steady f \<longleftrightarrow> (\<forall>w. f w \<noteq> Inl Exit)"

lemma bindE_Exit: "bindE x f = Inl Exit \<longleftrightarrow> x = Inl Exit \<or> (\<exists>y. x = Inr y \<and> f y = Inl Exit)"
  by (cases x) auto

lemma steady_run: "list_all steady fs \<Longrightarrow> run fs w \<noteq> Inl Exit"
  by (induction fs arbitrary: w) (auto simp: bindE_Exit steady_def)

lemma steady_links:
  "load f a h \<noteq> Inl Exit" "store f a v h \<noteq> Inl Exit" "sess a w \<noteq> Inl Exit"
  by (auto simp: load_def store_def sess_def of_opt_def split: option.splits)

lemma steady_upd: "steady (upd f a)"
  by (simp add: steady_def upd_def bindE_Exit steady_links)

lemma steady_on_list: "(\<And>l h. f l h \<noteq> Inl Exit) \<Longrightarrow> steady (on_list m f)"
  by (auto simp: steady_def on_list_def bindE_Exit)

lemma steady_lists:
  "steady (esq_session_join_active_list a)" "steady (esq_session_left_timing_list a)"
  "steady (esq_session_join_timing_list e a)" "steady (esq_session_change_to_no_timing_list e a)"
proof -
  have ll: "steady (on_list m (DOUBLE_LL_JOIN_TAIL prev_f next_f a))" "steady (on_list m (DOUBLE_LL_JOIN_HEAD prev_f next_f a))"
    "steady (on_list m (DOUBLE_LL_LEFT prev_f next_f a))" for m
    by (rule steady_on_list, auto simp: DOUBLE_LL_JOIN_TAIL_def DOUBLE_LL_JOIN_HEAD_def DOUBLE_LL_LEFT_def bindE_Exit steady_links
        split: option.splits)+
  show "steady (esq_session_join_active_list a)"
    unfolding esq_session_join_active_list_def using ll(1) by (simp add: steady_def)
  have "steady (RECORD_WIND_UP_TIME e a)"
    using steady_upd by (auto simp: steady_def RECORD_WIND_UP_TIME_def split: option.splits)
  then show 1: "steady (esq_session_join_timing_list e a)"
    by (auto simp: steady_def [of "esq_session_join_timing_list e a"] esq_session_join_timing_list_def bindE_Exit
        steady_links steady_run ll(2) simp del: run.simps)
  show 2: "steady (esq_session_left_timing_list a)"
    using ll(3) by (auto simp: steady_def esq_session_left_timing_list_def bindE_Exit steady_links)
  show "steady (esq_session_change_to_no_timing_list e a)"
    by (auto simp: steady_def [of "esq_session_change_to_no_timing_list e a"] esq_session_change_to_no_timing_list_def bindE_Exit
        steady_links steady_run steady_upd 1 2 simp del: run.simps)
qed

lemma steady_remove: "steady (ss_remove_fd_then_active e act a)"
  by (auto simp: steady_def [of "ss_remove_fd_then_active e act a"] ss_remove_fd_then_active_def bindE_Exit steady_links os_defs pt_ops
      steady_run steady_upd steady_lists simp del: run.simps)

section \<open>Timers\<close>

definition timing_lists :: "list_id list" where
  "timing_lists = [L_0ms_to_100ms, L_100ms_to_1s, L_1s_to_10s, L_longer_than_10s]"

text \<open>A session that was told of an event with the bits \<open>b\<close>: it is active, or will be when its descriptor is removed.\<close>

definition woken :: "16 word \<Rightarrow> esq_session_t \<Rightarrow> bool" where
  "woken b s \<longleftrightarrow> post_op s = POP_NO_OP \<and> event_bits s AND b = b \<and>
     (lc s = PT_active \<or> lc s = PT_wait_for_removed_then_active \<and> timing_list s = L_no_time)"

definition woken_at :: "16 word \<Rightarrow> addr \<Rightarrow> (addr \<Rightarrow> esq_session_t option) \<Rightarrow> (list_id \<Rightarrow> addr list) \<Rightarrow> world \<Rightarrow> bool" where
  "woken_at b a D L w \<longleftrightarrow> (\<exists>s p. cfg a D L s p w \<and> woken b s)"

lemma woken_atI: "cfg a D L s p w \<Longrightarrow> woken b s \<Longrightarrow> woken_at b a D L w"
  unfolding woken_at_def by blast

lemma remove_woken:
  assumes "cfg a D L s p w" "p = Some (timing_list s)" "post_op s = POP_NO_OP" "event_bits s AND b = b"
  shows "safe (woken_at b a D L) (ss_remove_fd_then_active e act a w)"
proof -
  have "cfg a D L s (Some (timing_list s)) (w\<lparr>io_uring := io_uring w @ [Poll_remove a]\<rparr>)" using assms(1,2) by simp
  then have 1: "safe (woken_at b a D L) (run [upd (\<lambda>s. s\<lparr>fd := 0\<rparr>) a, esq_session_change_to_no_timing_list e a,
         goto_set PT_wait_for_removed_then_active a] (w\<lparr>io_uring := io_uring w @ [Poll_remove a]\<rparr>))"
    apply (simp only: pt_ops)
    apply (rule safe_run | rule safe_nil | erule cfg_upd, simp add: neutral_defs
        | erule cfg_change_timing, simp add: timing_list_def)+
    apply (erule woken_atI, simp add: woken_def timing_list_def assms(3,4))
    done
  have 2: "safe (woken_at b a D L)
      (run [esq_session_left_timing_list a, esq_session_join_active_list a, goto_set PT_active a] w)"
    using assms(1)
    apply (simp only: pt_ops)
    apply (rule cfg_wake, assumption, simp add: assms(2))
    apply (rule safe_run | rule safe_nil | erule cfg_upd, simp add: neutral_defs)+
    apply (erule woken_atI, simp add: woken_def assms(3,4))
    done
  show ?thesis unfolding ss_remove_fd_then_active_def
    by (intro safe_bind cfg_sess [OF assms(1)]) (use 1 2 in \<open>simp add: os_defs\<close>)
qed

lemma timeout_yields:
  assumes "cfg a D L s p w" "p = Some (timing_list s)" "a_type act = ACTION_NOTIFY_TIMEOUT" "right s p" "supported s"
    "pt_of_type (session_type s) = Some pt"
  shows "yields a (woken (ucast ESQ_EVENT_BIT_TIMEOUT)) (run [set_post_op POP_NO_OP a, pt e act a] w)"
proof (rule yields_cfg)
  let ?s = "s\<lparr>post_op := POP_NO_OP\<rparr>"
  have lc: "lc s \<in> {PT_winded_up, PT_wait_for_removed_then_active, PT_wait_for_removed_and_wind_up, PT_wait_for_removed, PT_wait_for_wind_up}"
    "session_type s \<in> {ESQ_SESSION_TYPE_SOCKET_CB, ESQ_SESSION_TYPE_MULTI_SOCKET_CB}" "lc s \<in> labels s"
    using assms(2,4) timing_list_not_new [of s] by (auto simp: right_def places_def split: if_splits pt_label.splits)
  have "safe (woken_at (ucast ESQ_EVENT_BIT_TIMEOUT) a D L) (pt e act a w')" if c: "cfg a D L ?s p w'" for w'
  proof -
    obtain t where t: "heap w' a = Some t" "strip t = ?s" using cfg_heap [OF c] by blast
    have "lc (strip t) = lc t" by (simp add: strip_def)
    then have ld: "sess a w' = Inr t" "lc t = lc s" using t by (simp_all add: sess_def of_opt_def)
    have 1: "safe (woken_at (ucast ESQ_EVENT_BIT_TIMEOUT) a D L) (run [upd (or_event_bits ESQ_EVENT_BIT_TIMEOUT) a, set_post_op POP_NO_OP a,
               ss_remove_fd_then_active e act a] w')"
      using c
      apply (simp only: pt_ops)
      apply (rule safe_run, erule cfg_upd, simp add: neutral_defs)+
      apply (rule safe_run, rule safe_mono, erule remove_woken)
      using assms(2) by (simp_all add: timing_list_def or_event_bits_def word_ao_absorbs)
    show ?thesis
    proof (cases "session_type s = ESQ_SESSION_TYPE_SOCKET_CB")
      case True
      then have "pt = esq_pt_of_single_shot_socket" using assms(6) by (simp add: pt_of_type_def session_type_defs)
      then show ?thesis using lc ld True 1 assms(3)
        by (auto simp: esq_pt_of_single_shot_socket_def labels_def ss_winded_up_def ss_wait_for_removed_then_active_def
            INVALID_ACTION_TYPE_def simp del: run.simps)
    next
      case False
      then have "pt = esq_pt_of_multi_shot_socket" using assms(6) lc(2) by (auto simp: pt_of_type_def session_type_defs)
      then show ?thesis using lc ld False assms(3)
        by (auto simp: esq_pt_of_multi_shot_socket_def labels_def session_type_defs ms_winded_up_def ms_wait_for_removed_and_wind_up_def ms_wait_for_removed_def
            ms_wait_for_wind_up_def INVALID_ACTION_TYPE_def simp del: run.simps)
    qed
  qed
  then have "safe (woken_at (ucast ESQ_EVENT_BIT_TIMEOUT) a D L) (run [set_post_op POP_NO_OP a, pt e act a] w)"
    by (intro safe_run, unfold set_post_op_def, intro cfg_upd [OF assms(1)])
      (auto simp: neutral_defs intro: safe_bind elim!: safe_mono)
  then show "safe (\<lambda>w. \<exists>s p. cfg a D L s p w \<and> woken (ucast ESQ_EVENT_BIT_TIMEOUT) s) (run [set_post_op POP_NO_OP a, pt e act a] w)"
    by (rule safe_mono) (simp add: woken_at_def)
qed (auto simp: woken_def timing_list_def strip_def)

lemma absw_nxt:
  assumes "absw D L w" "l \<notin> {L_global, L_new}" "L l = us @ a # ys"
  shows "\<exists>t. heap w a = Some t \<and> nxt t = first ys None"
proof -
  have "list_inv l (heap w) (lists w l) (L l)" using assms(1) by (simp add: absw_def lists_ok_def)
  then show ?thesis using assms(2,3) by (auto simp: list_inv_def dll_def next_f_def)
qed

lemma timing_label:
  assumes "inv {} D L K F w" "D a = Some s" "a \<in> set (L l)" "l \<in> set timing_lists"
  shows "timing_list s = l" "\<not> fresh s" "right s (Some l)"
proof -
  obtain p where p: "pos a L p" "right s p" using assms(1,2) by (auto simp: inv_def placed_def)
  then show r: "right s (Some l)" using assms(3) by (auto simp: pos_def)
  then have "l \<in> places s" by (simp add: right_def)
  then show "timing_list s = l" "\<not> fresh s" using assms(4)
    by (auto simp: places_def fresh_def session_type_defs timing_lists_def split: if_splits pt_label.splits)
qed

abbreviation timed_out :: "esq_session_t \<Rightarrow> bool" where
  "timed_out \<equiv> woken (ucast ESQ_EVENT_BIT_TIMEOUT)"

text \<open>Only a single-shot session with a timeout is on one of these lists, and it waits for its events there.\<close>

lemma timing_winded_up:
  assumes "inv {} D L K F w" "D a = Some s" "a \<in> set (L l)" "l \<in> set timing_lists"
  shows "session_type s = ESQ_SESSION_TYPE_SOCKET_CB" "lc s = PT_winded_up"
proof -
  note lab = timing_label [OF assms]
  have "l \<noteq> L_no_time" using assms(4) by (auto simp: timing_lists_def)
  then have "\<not> (timeouts s = 0 \<and> timeoutms s = 0)" using lab(1) by (auto simp: timing_list_def)
  then have n: "session_type s \<noteq> ESQ_SESSION_TYPE_MULTI_SOCKET_CB" "lc s \<noteq> PT_wait_for_removed_then_active"
    using right_settled [OF lab(3)] by (auto simp: settled_def)
  have l: "l \<in> places s" "lc s \<in> labels s" using lab(3) by (simp_all add: right_def)
  then show "session_type s = ESQ_SESSION_TYPE_SOCKET_CB" using n(1) by (auto simp: places_def split: if_splits)
  then show "lc s = PT_winded_up" using l n(2) assms(4)
    by (auto simp: places_def labels_def timing_lists_def session_type_defs split: pt_label.splits)
qed

lemma timeout_returns:
  assumes "heap w a = Some t" "ESQ_CHECK_SESSION t" "session_type t = ESQ_SESSION_TYPE_SOCKET_CB" "lc t = PT_winded_up"
    and "a_type act = ACTION_NOTIFY_TIMEOUT"
    and "yields a timed_out (run [set_post_op POP_NO_OP a, esq_pt_of_single_shot_socket e act a] w)"
  shows "esq_session_take_action (Suc n) e act (Some a) w \<noteq> Inl Exit"
proof -
  let ?x = "run [set_post_op POP_NO_OP a, esq_pt_of_single_shot_socket e act a] w"
  have pt: "pt_of_type (session_type t) = Some esq_pt_of_single_shot_socket"
    unfolding assms(3) by (simp add: pt_of_type_def session_type_defs)
  have "?x \<noteq> Inl Exit"
    unfolding machine_start [OF assms(1)]
    using assms(4,5) steady_run [of "[upd (or_event_bits ESQ_EVENT_BIT_TIMEOUT) a, set_post_op POP_NO_OP a, ss_remove_fd_then_active e act a]"]
      steady_upd steady_remove
    by (simp add: esq_pt_of_single_shot_socket_def ss_winded_up_def sess_def set_post_op_def del: run.simps)
  moreover have "post_operation n e act a v \<noteq> Inl Exit" if "?x = Inr v" for v
    using assms(6) that by (auto simp: yields_def woken_def post_operation_def sess_def simp del: run.simps)
  ultimately have "bindE ?x (post_operation n e act a) \<noteq> Inl Exit" by (auto simp: bindE_Exit simp del: run.simps)
  then show ?thesis using take_action_machine [OF _ assms(2) pt, of a w n e act] assms(1) by (simp add: sess_def del: run.simps)
qed

lemma timeout_step:
  assumes "inv {} D L K F w" "D a = Some s" "a \<in> set (L l)" "l \<in> set timing_lists"
  shows "sure (\<lambda>w'. \<exists>s' L'. inv {} (D(a \<mapsto> s')) L' K F w' \<and> timed_out s' \<and> (\<forall>m \<in> set timing_lists. L' m = removeAll a (L m)))
    (esq_notify_timeout_event e (Some a) w)"
proof -
  let ?act = "simple_action e ACTION_NOTIFY_TIMEOUT" and ?pt = esq_pt_of_single_shot_socket
  note a = assms(3)
  note lab = timing_label [OF assms(1,2) a assms(4)]
  note st = timing_winded_up [OF assms]
  have ab: "absw D L w" using assms(1) by (simp add: inv_def)
  have "pos a L (Some l)" using absw_disjoint [OF ab _ a] a by (auto simp: pos_def)
  then have c: "cfg a D L s (Some l) w" by (rule cfgI [OF absw_triv [OF ab assms(2)]])
  have sup: "supported s" "stepped s s" "ESQ_CHECK_SESSION s" using assms(1,2) by (simp_all add: inv_def placed_def stepped_def)
  have pt: "pt_of_type (session_type s) = Some ?pt" unfolding st(1) by (simp add: pt_of_type_def session_type_defs)
  have en: "fresh s \<Longrightarrow> right s (Some l)" "\<not> fresh s \<Longrightarrow> entry ?act s (Some l)"
    using lab st(2) by (auto simp: entry_def)
  have y: "yields a timed_out (run [set_post_op POP_NO_OP a, ?pt e ?act a] w)"
    by (rule timeout_yields [OF c _ _ lab(3) sup(1) pt]) (simp_all add: lab(1) simple_action_def)
  obtain t where t: "heap w a = Some t" "strip t = s" "lc t = lc s" "session_type t = session_type s"
    using inv_heap [OF assms(1,2)] by blast
  have "ESQ_CHECK_SESSION t" using sup(3) t(2) by (auto simp: ESQ_CHECK_SESSION_def strip_def)
  then have ex: "esq_session_take_action (Suc 2) e ?act (Some a) w \<noteq> Inl Exit"
    by (rule timeout_returns [OF t(1) _ _ _ _ y]) (simp_all add: t(3,4) st simple_action_def)
  have "safe (\<lambda>(r, w'). \<exists>s' p'. cfg a D L s' p' w' \<and> stepped s s' \<and> right s' p' \<and> timed_out s' \<and> r = result s')
      (esq_session_take_action (Suc 2) e ?act (Some a) w)"
    by (rule take_yields [OF assms(1,2) c sup(2) _ en pt y])
      (auto simp: woken_def strip_def timing_list_def plain_def simple_action_def)
  moreover have "\<exists>s' L'. inv {} (D(a \<mapsto> s')) L' K F w' \<and> timed_out s' \<and> (\<forall>m \<in> set timing_lists. L' m = removeAll a (L m))"
    if "cfg a D L s' p' w'" "stepped s s'" "right s' p'" "timed_out s'" for s' p' w'
  proof -
    obtain L' where L': "absw (D(a \<mapsto> s')) L' w'" "others a L L'" "pos a L' p'" using \<open>cfg a D L s' p' w'\<close> by (auto simp: cfg_def)
    have "places s' \<subseteq> {L_active, L_no_time}" using \<open>timed_out s'\<close> by (auto simp: woken_def places_def)
    then have "a \<notin> set (L' m)" if "m \<in> set timing_lists" for m
      using \<open>right s' p'\<close> that L'(3) by (auto simp: right_def timing_lists_def pos_def)
    then have "\<forall>m \<in> set timing_lists. L' m = removeAll a (L m)" using others_removeAll [OF L'(2)] by (metis removeAll_id)
    moreover have "inv {} (D(a \<mapsto> s')) L' K F w'"
      using inv_step_at [OF assms(1,2) L'] \<open>stepped s s'\<close> \<open>right s' p'\<close> by simp
    ultimately show ?thesis using \<open>timed_out s'\<close> by blast
  qed
  ultimately have "safe (\<lambda>w'. \<exists>s' L'. inv {} (D(a \<mapsto> s')) L' K F w' \<and> timed_out s' \<and> (\<forall>m \<in> set timing_lists. L' m = removeAll a (L m)))
      (esq_notify_timeout_event e (Some a) w)"
    unfolding esq_notify_timeout_event_def nonnull_def take_action_Suc option.case
    by (intro drop_result_safe) (auto elim!: safe_mono)
  then show ?thesis unfolding sure_def esq_notify_timeout_event_def nonnull_def take_action_Suc option.case
    using ex by (auto simp: drop_result_def bindE_Exit)
qed

text \<open>The comparison of \<^verbatim>\<open>CHECK_EVENTS_TIMING2\<close> without the bounds of \<^verbatim>\<open>int\<close>.\<close>

definition expired :: "int \<Rightarrow> int \<Rightarrow> esq_session_t \<Rightarrow> bool" where
  "expired sec ms s \<longleftrightarrow> wind_up_s s + timeouts s < sec \<or>
     wind_up_s s + timeouts s = sec \<and> wind_up_ms s + timeoutms s < ms"

definition in_range :: "esq_session_t \<Rightarrow> bool" where
  "in_range s \<longleftrightarrow> i32 (wind_up_s s + timeouts s) \<noteq> None \<and> i32 (wind_up_ms s + timeoutms s) \<noteq> None"

lemma deadline_expired: "in_range s \<Longrightarrow> deadline_passed sec ms s = Inr (expired sec ms s)"
  by (auto simp: in_range_def deadline_passed_def expired_def i32_def of_opt_def split: if_splits)

text \<open>The list \<open>l\<close> after a scan of its part \<open>ys\<close>; the part \<open>us\<close> before it was kept.\<close>

definition scanned :: "addr set \<Rightarrow> int \<Rightarrow> int \<Rightarrow> list_id \<Rightarrow> addr list \<Rightarrow> addr list \<Rightarrow> (addr \<Rightarrow> esq_session_t option) \<Rightarrow>
    (list_id \<Rightarrow> addr list) \<Rightarrow> (addr \<Rightarrow> addr list) \<Rightarrow> (addr \<Rightarrow> addr list) \<Rightarrow> world \<Rightarrow> bool" where
  "scanned A sec ms l us ys D L K F w \<longleftrightarrow> (\<exists>D' L'. inv {} D' L' K F w \<and> dom D' \<subseteq> A \<and>
      L' l = us @ filter (\<lambda>b. \<not> expired sec ms (the (D b))) ys \<and> (\<forall>m \<in> set timing_lists - {l}. L' m = L m) \<and>
      (\<forall>b. b \<notin> set ys \<longrightarrow> D' b = D b) \<and>
      (\<forall>b \<in> set ys. expired sec ms (the (D b)) \<longrightarrow> (\<exists>s'. D' b = Some s' \<and> timed_out s')))"

lemma scanned_keep:
  assumes "scanned A sec ms l (us @ [a]) ys D L K F w" "D a = Some s" "\<not> expired sec ms s"
  shows "scanned A sec ms l us (a # ys) D L K F w"
proof -
  obtain D' L' where "inv {} D' L' K F w" "dom D' \<subseteq> A" "L' l = (us @ [a]) @ filter (\<lambda>b. \<not> expired sec ms (the (D b))) ys"
    "\<forall>m \<in> set timing_lists - {l}. L' m = L m" "\<forall>b. b \<notin> set ys \<longrightarrow> D' b = D b"
    "\<forall>b \<in> set ys. expired sec ms (the (D b)) \<longrightarrow> (\<exists>s'. D' b = Some s' \<and> timed_out s')"
    using assms(1) unfolding scanned_def by blast
  then show ?thesis unfolding scanned_def using assms(2,3) by (intro exI [of _ D'] exI [of _ L']) simp
qed

lemma scanned_drop:
  assumes "scanned A sec ms l us ys (D(a \<mapsto> s')) L1 K F w" "D a = Some s" "expired sec ms s" "a \<notin> set ys" "timed_out s'"
    "\<forall>m \<in> set timing_lists - {l}. L1 m = L m"
  shows "scanned A sec ms l us (a # ys) D L K F w"
proof -
  have other: "(D(a \<mapsto> s')) b = D b" if "b \<in> set ys" for b using assms(4) that by auto
  have fl: "filter (\<lambda>b. \<not> expired sec ms (the ((D(a \<mapsto> s')) b))) ys = filter (\<lambda>b. \<not> expired sec ms (the (D b))) ys"
    by (intro filter_cong) (simp_all only: other)
  obtain D' L' where "inv {} D' L' K F w" "dom D' \<subseteq> A" "L' l = us @ filter (\<lambda>b. \<not> expired sec ms (the ((D(a \<mapsto> s')) b))) ys"
    "\<forall>m \<in> set timing_lists - {l}. L' m = L1 m" and keep: "\<forall>b. b \<notin> set ys \<longrightarrow> D' b = (D(a \<mapsto> s')) b"
    and hit: "\<forall>b \<in> set ys. expired sec ms (the ((D(a \<mapsto> s')) b)) \<longrightarrow> (\<exists>s'. D' b = Some s' \<and> timed_out s')"
    using assms(1) unfolding scanned_def by blast
  moreover have "\<exists>s'. D' b = Some s' \<and> timed_out s'" if "b \<in> set (a # ys)" "expired sec ms (the (D b))" for b
    using that hit keep other assms(4,5) by (cases "b = a") auto
  ultimately show ?thesis unfolding scanned_def fl using assms(2,3,6) by (intro exI [of _ D'] exI [of _ L']) simp
qed

lemma scan_list:
  assumes "inv {} D L K F w" "dom D \<subseteq> A" "L l = us @ ys" "l \<in> set timing_lists" "length ys \<le> n"
    and "\<And>b s. b \<in> set ys \<Longrightarrow> D b = Some s \<Longrightarrow> in_range s"
  shows "sure (\<lambda>(t', w'). scanned A sec ms l us ys D L K F w') (CHECK_EVENTS_TIMING2 n e sec ms (first ys None) t w)"
  using assms
proof (induction ys arbitrary: n D L w t us)
  case Nil
  then show ?case by (cases n) (auto simp: scanned_def intro!: exI [of _ D] exI [of _ L])
next
  case (Cons a ys)
  obtain m where n: "n = Suc m" using Cons.prems(5) by (cases n) auto
  have ab: "absw D L w" using Cons.prems(1) by (simp add: inv_def)
  have a: "a \<in> set (L l)" using Cons.prems(3) by simp
  have dist: "a \<notin> set us" "a \<notin> set ys" using absw_distinct [OF ab, of l] Cons.prems(3) by auto
  have disj: "a \<notin> set (L k)" if "k \<noteq> l" for k using absw_disjoint [OF ab _ a] that by auto
  obtain s where s: "D a = Some s" using absw_alloc [OF ab a] by auto
  have "l \<notin> {L_global, L_new}" using Cons.prems(4) by (auto simp: timing_lists_def)
  then obtain u where u: "heap w a = Some u" "nxt u = first ys None" using absw_nxt [OF ab _ Cons.prems(3)] by blast
  have strip: "strip u = s" using ab s u(1) by (simp add: absw_def)
  have "in_range s" using Cons.prems(6) [OF _ s] by simp
  moreover have "deadline_passed sec ms u = deadline_passed sec ms (strip u)" by (simp add: deadline_passed_def strip_def cong: if_cong)
  ultimately have dl: "deadline_passed sec ms u = Inr (expired sec ms s)" using strip deadline_expired by simp
  show ?case
  proof (cases "expired sec ms s")
    case False
    have "sure (\<lambda>(t', w'). scanned A sec ms l (us @ [a]) ys D L K F w') (CHECK_EVENTS_TIMING2 m e sec ms (first ys None) t w)"
      using Cons.prems n by (intro Cons.IH) auto
    then show ?thesis using u dl False s scanned_keep by (auto simp: n sess_def of_opt_def elim!: sure_mono)
  next
    case True
    have "sure (\<lambda>(t', w'). scanned A sec ms l us (a # ys) D L K F w') (CHECK_EVENTS_TIMING2 m e sec ms (first ys None) True w')"
      if i: "inv {} (D(a \<mapsto> s')) L1 K F w'" "\<forall>m \<in> set timing_lists. L1 m = removeAll a (L m)" "timed_out s'" for s' L1 w'
    proof -
      have l1: "L1 l = us @ ys" using i(2) Cons.prems(3,4) dist by simp
      have lm: "\<forall>m \<in> set timing_lists - {l}. L1 m = L m" using i(2) disj by simp
      have dm: "dom (D(a \<mapsto> s')) \<subseteq> A" using Cons.prems(2) s by auto
      have rg: "in_range z" if "b \<in> set ys" "(D(a \<mapsto> s')) b = Some z" for b z using that Cons.prems(6) [of b z] dist(2) by (auto split: if_splits)
      have "sure (\<lambda>(t', w'). scanned A sec ms l us ys (D(a \<mapsto> s')) L1 K F w') (CHECK_EVENTS_TIMING2 m e sec ms (first ys None) True w')"
        using Cons.prems(5) n by (intro Cons.IH [OF i(1) dm l1 Cons.prems(4) _ rg]) auto
      then show ?thesis by (rule sure_mono) (use scanned_drop [where D = D and a = a, OF _ s True dist(2) i(3) lm] in auto)
    qed
    then show ?thesis using u dl True s
      by (auto simp: n sess_def of_opt_def intro!: sure_bind sure_mono [OF timeout_step [OF Cons.prems(1) s a Cons.prems(4)]])
  qed
qed

definition cleared :: "addr set \<Rightarrow> int \<Rightarrow> int \<Rightarrow> list_id set \<Rightarrow> (addr \<Rightarrow> esq_session_t option) \<Rightarrow> (list_id \<Rightarrow> addr list) \<Rightarrow>
    (addr \<Rightarrow> addr list) \<Rightarrow> (addr \<Rightarrow> addr list) \<Rightarrow> world \<Rightarrow> bool" where
  "cleared A sec ms X D L K F w \<longleftrightarrow> (\<exists>D' L'. inv {} D' L' K F w \<and> dom D' \<subseteq> A \<and>
      (\<forall>l \<in> X. L' l = filter (\<lambda>b. \<not> expired sec ms (the (D b))) (L l)) \<and>
      (\<forall>l \<in> set timing_lists - X. L' l = L l) \<and>
      (\<forall>l \<in> X. \<forall>b \<in> set (L l). expired sec ms (the (D b)) \<longrightarrow> (\<exists>s'. D' b = Some s' \<and> timed_out s')) \<and>
      (\<forall>b. (\<forall>l \<in> X. b \<notin> set (L l)) \<longrightarrow> D' b = D b))"

lemma scan_lists:
  assumes "inv {} D L K F w" "dom D \<subseteq> A" "set ls \<subseteq> set timing_lists" "distinct ls" "enough e A"
    and "\<And>l b s. l \<in> set ls \<Longrightarrow> b \<in> set (L l) \<Longrightarrow> D b = Some s \<Longrightarrow> in_range s"
  shows "sure (\<lambda>(t', w'). cleared A sec ms (set ls) D L K F w') (check_timing_lists e sec ms ls t w)"
  using assms
proof (induction ls arbitrary: D L w t)
  case Nil
  then show ?case by (auto simp: cleared_def intro!: exI [of _ D] exI [of _ L])
next
  case (Cons l ls)
  have ab: "absw D L w" using Cons.prems(1) by (simp add: inv_def)
  have l: "l \<in> set timing_lists" "L l = [] @ L l" "length (L l) \<le> loop_fuel e"
    using Cons.prems(3) list_length [OF Cons.prems(1,2,5), of l] by simp_all
  have step: "sure (\<lambda>(t', w'). cleared A sec ms (set (l # ls)) D L K F w') (check_timing_lists e sec ms ls t1 w1)"
    if i: "inv {} D1 L1 K F w1" "dom D1 \<subseteq> A" "L1 l = filter (\<lambda>b. \<not> expired sec ms (the (D b))) (L l)"
      "\<forall>m \<in> set timing_lists - {l}. L1 m = L m" "\<forall>b. b \<notin> set (L l) \<longrightarrow> D1 b = D b"
      "\<forall>b \<in> set (L l). expired sec ms (the (D b)) \<longrightarrow> (\<exists>s'. D1 b = Some s' \<and> timed_out s')" for D1 L1 w1 t1
  proof -
    have ls: "l \<notin> set ls" "set ls \<subseteq> set timing_lists" "distinct ls" using Cons.prems(3,4) by auto
    have same: "L1 m = L m" "\<And>b. b \<in> set (L m) \<Longrightarrow> D1 b = D b" if "m \<in> set ls" for m
      using that ls i(4,5) absw_disjoint [OF ab, of m l] by auto
    have rg: "in_range s" if "m \<in> set ls" "b \<in> set (L1 m)" "D1 b = Some s" for m b s
      using that same Cons.prems(6) [of m b s] by simp
    have fl: "filter (\<lambda>b. \<not> expired sec ms (the (D1 b))) (L1 m) = filter (\<lambda>b. \<not> expired sec ms (the (D b))) (L m)"
      if "m \<in> set ls" for m using same [OF that] by (simp cong: filter_cong)
    have "cleared A sec ms (set (l # ls)) D L K F v" if c: "cleared A sec ms (set ls) D1 L1 K F v" for v
    proof -
      obtain D' L' where d: "inv {} D' L' K F v" "dom D' \<subseteq> A"
        "\<forall>m \<in> set ls. L' m = filter (\<lambda>b. \<not> expired sec ms (the (D1 b))) (L1 m)" "\<forall>m \<in> set timing_lists - set ls. L' m = L1 m"
        "\<forall>m \<in> set ls. \<forall>b \<in> set (L1 m). expired sec ms (the (D1 b)) \<longrightarrow> (\<exists>s'. D' b = Some s' \<and> timed_out s')"
        "\<forall>b. (\<forall>m \<in> set ls. b \<notin> set (L1 m)) \<longrightarrow> D' b = D1 b"
        using c unfolding cleared_def by blast
      have "\<forall>m \<in> set (l # ls). L' m = filter (\<lambda>b. \<not> expired sec ms (the (D b))) (L m)"
        using d(3,4) fl i(3) ls(1) l(1) by simp
      moreover have "\<forall>m \<in> set timing_lists - set (l # ls). L' m = L m" using d(4) i(4) by simp
      moreover have "\<exists>s'. D' b = Some s' \<and> timed_out s'"
        if m: "m \<in> set (l # ls)" "b \<in> set (L m)" "expired sec ms (the (D b))" for m b
      proof (cases "m = l")
        case True
        then have "\<forall>k \<in> set ls. b \<notin> set (L1 k)" using same(1) absw_disjoint [OF ab, of _ l b] m(2) ls(1) by (metis (full_types))
        then show ?thesis using d(6) i(6) True m(2,3) by metis
      next
        case False
        then have k: "m \<in> set ls" using m(1) by simp
        then show ?thesis using d(5) same(1) [OF k] same(2) [OF k m(2)] m(2,3) by metis
      qed
      moreover have "D' b = D b" if "\<forall>m \<in> set (l # ls). b \<notin> set (L m)" for b using that d(6) i(5) same(1) by simp
      ultimately show ?thesis using d(1,2) unfolding cleared_def by blast
    qed
    then show ?thesis by (intro sure_mono [OF Cons.IH [OF i(1,2) ls(2,3) Cons.prems(5) rg]]) auto
  qed
  have "sure (\<lambda>(t1, w1). sure (\<lambda>(t', w'). cleared A sec ms (set (l # ls)) D L K F w') (check_timing_lists e sec ms ls t1 w1))
      (CHECK_EVENTS_TIMING2 (loop_fuel e) e sec ms (first (L l) None) t w)"
  proof (rule sure_mono [OF scan_list [OF Cons.prems(1,2) l(2,1,3)]])
    show "in_range s" if "b \<in> set (L l)" "D b = Some s" for b s using Cons.prems(6) [OF _ that] by simp
  qed (use step in \<open>auto simp: scanned_def\<close>)
  then show ?case by (auto simp: absw_head [OF ab] intro!: sure_bind elim!: sure_mono)
qed

lemma valid_other:
  assumes "valid A X w" "heap w' = heap w" "lists w' = lists w"
  shows "valid A X w'"
  using assms absw_other unfolding valid_def inv_def by metis

lemma timing_valid:
  assumes "valid A {} w" "enough e A" "\<And>a s. heap w a = Some s \<Longrightarrow> in_range s"
  shows "safe (valid A {}) (esq_session_timing e w)"
proof (cases "gettimeofday e")
  case None
  then show ?thesis using valid_other [OF assms(1), of "w\<lparr>esq_server_stop_flag := True\<rparr>"] by (simp add: esq_session_timing_def)
next
  case (Some t)
  obtain sec usec where t: "t = (sec, usec)" by (cases t)
  obtain D L K F where i: "inv {} D L K F w" "dom D \<subseteq> A" using assms(1) by (auto simp: valid_def)
  have rg: "in_range s" if b: "D b = Some s" for b s
  proof -
    obtain u where "heap w b = Some u" "strip u = s" using inv_heap [OF i(1) b] by blast
    then show ?thesis using assms(3) [of b u] by (auto simp: in_range_def strip_def)
  qed
  have "safe (\<lambda>(t', w'). cleared A (to_int32 sec) (to_int32 usec) (set timing_lists) D L K F w')
      (check_timing_lists e (to_int32 sec) (to_int32 usec) timing_lists False w)"
    using rg by (intro sure_safe scan_lists [OF i subset_refl _ assms(2)]) (auto simp: timing_lists_def)
  then have "safe (\<lambda>(t', w'). valid A {} w') (check_timing_lists e (to_int32 sec) (to_int32 usec) timing_lists False w)"
    by (rule safe_mono) (auto simp: cleared_def valid_def)
  then show ?thesis using Some t
    by (auto simp: esq_session_timing_def timing_lists_def esq_session_update_polling_interval_def
        intro!: safe_bind elim!: safe_mono valid_other)
qed

section \<open>The end of all sessions\<close>

lemma exit_yields:
  assumes "cfg a D L s p w" "right s p" "supported s" "\<not> fresh s" "a_type act = ACTION_NOTIFY_EXIT"
    "pt_of_type (session_type s) = Some pt"
  shows "yields a (\<lambda>s. post_op s = POP_NO_OP) (run [set_post_op POP_NO_OP a, pt e act a] w)"
proof -
  let ?s = "s\<lparr>post_op := POP_NO_OP\<rparr>"
  obtain t where t: "heap w a = Some t" "strip t = s" using cfg_heap [OF assms(1)] by blast
  let ?w = "w\<lparr>heap := (heap w)(a \<mapsto> t\<lparr>post_op := POP_NO_OP\<rparr>)\<rparr>"
  have c: "cfg a D L ?s p ?w"
    using cfg_upd [OF assms(1), of "\<lambda>s. s\<lparr>post_op := POP_NO_OP\<rparr>" "cfg a D L ?s p"] t(1)
    by (simp add: neutral_defs upd_def sess_def of_opt_def)
  have st: "lc s = lc t" "session_type s = session_type t" using t(2) by (auto simp: strip_def)
  have lab: "lc t \<in> labels s" using assms(2) st(1) by (simp add: right_def)
  have tl: "p = Some (timing_list s)" if "lc t = PT_winded_up"
    using assms(2-4) that st(1) by (auto simp: right_def places_def supported_def split: option.splits if_splits)
  have ss: "yields a (\<lambda>s. post_op s = POP_NO_OP) (run [upd (or_event_bits ESQ_EVENT_BIT_EXIT) a, set_post_op POP_NO_OP a,
      ss_remove_fd_then_active e act a] ?w)" if l: "lc t = PT_winded_up"
  proof -
    have "safe (woken_at 0 a D L) (run [upd (or_event_bits ESQ_EVENT_BIT_EXIT) a, set_post_op POP_NO_OP a,
        ss_remove_fd_then_active e act a] ?w)"
      apply (simp only: pt_ops)
      apply (rule safe_run, rule cfg_upd [OF c], simp add: neutral_defs)
      apply (rule safe_run, erule cfg_upd, simp add: neutral_defs)
      apply (rule safe_run, rule safe_mono, erule remove_woken)
      using tl [OF l] by (simp_all add: timing_list_def or_event_bits_def)
    then have "yields a (woken 0) (run [upd (or_event_bits ESQ_EVENT_BIT_EXIT) a, set_post_op POP_NO_OP a,
        ss_remove_fd_then_active e act a] ?w)"
      by (intro yields_cfg [of _ D L]) (auto simp: woken_at_def [abs_def] woken_def strip_def timing_list_def)
    then show ?thesis by (rule yields_mono) (simp add: woken_def)
  qed
  have ms: "yields a (\<lambda>s. post_op s = POP_NO_OP) (run [upd (or_event_bits ESQ_EVENT_BIT_EXIT) a, esq_session_left_timing_list a,
      esq_session_join_active_list a, goto_set PT_active a] ?w)" if l: "lc t = PT_winded_up"
  proof (rule yields_cfg)
    show "safe (\<lambda>w. \<exists>s p. cfg a D L s p w \<and> post_op s = POP_NO_OP) (run [upd (or_event_bits ESQ_EVENT_BIT_EXIT) a,
        esq_session_left_timing_list a, esq_session_join_active_list a, goto_set PT_active a] ?w)"
      apply (simp only: pt_ops)
      apply (rule safe_run, rule cfg_upd [OF c], simp add: neutral_defs)
      apply (rule cfg_wake, assumption, simp add: tl [OF l] timing_list_def or_event_bits_def)
      apply (rule safe_run | rule safe_nil | erule cfg_upd, simp add: neutral_defs)+
      by (intro exI conjI, assumption, simp add: or_event_bits_def)
  qed (simp add: strip_def)
  note q = quiet_ends [unfolded quiet_def] quiet_end [unfolded quiet_def]
  have "session_type t = ESQ_SESSION_TYPE_SOCKET_CB \<and> pt = esq_pt_of_single_shot_socket \<or>
      session_type t = ESQ_SESSION_TYPE_MULTI_SOCKET_CB \<and> pt = esq_pt_of_multi_shot_socket"
    using assms(3,4,6) st(2) by (auto simp: supported_def pt_of_type_def session_type_defs)
  then have "yields a (\<lambda>s. post_op s = POP_NO_OP) (pt e act a ?w)"
    using lab ss ms assms(5) st
    by (elim disjE conjE)
      (auto simp: labels_def session_type_defs esq_pt_of_single_shot_socket_def esq_pt_of_multi_shot_socket_def sess_def of_opt_def
        pt_initial_def ss_wait_for_cpu_def ss_winded_up_def ss_wait_for_removed_then_active_def pt_active_def ss_execute_cb_def
        ss_wait_for_reinstall_def ms_initial_def ms_wait_for_cpu_def ms_winded_up_def ms_active_def ms_execute_cb_def
        ms_wait_for_removed_and_wind_up_def ms_wait_for_removed_def ms_wait_for_wind_up_def INVALID_ACTION_TYPE_def q
        simp del: run.simps)
  then show ?thesis by (simp only: machine_start [OF t(1)])
qed

lemma exit_active:
  assumes "inv {} D L K F w" "D a = Some s" "a \<in> set (L L_active)"
  shows "safe (\<lambda>w'. \<exists>s'. inv {} (D(a \<mapsto> s')) L K F w') (esq_notify_exit e (Some a) w)"
proof -
  let ?act = "simple_action e ACTION_NOTIFY_EXIT"
  let ?s = "(or_event_bits ESQ_EVENT_BIT_EXIT (s\<lparr>post_op := POP_NO_OP\<rparr>))\<lparr>post_op := POP_NO_OP, lc := PT_active\<rparr>"
  have ab: "absw D L w" using assms(1) by (simp add: inv_def)
  note lab = active_label [OF assms]
  have sup: "supported s" "ESQ_CHECK_SESSION s" using assms(1,2) by (simp_all add: inv_def placed_def)
  obtain pt where pt: "pt \<in> {esq_pt_of_single_shot_socket, esq_pt_of_multi_shot_socket}" "pt_of_type (session_type s) = Some pt"
    using socket_pt [OF sup(1) lab(2)] by blast
  have pos: "pos a L (Some L_active)" using absw_disjoint [OF ab _ assms(3)] assms(3) by (auto simp: pos_def)
  have fin: "inv {} (D(a \<mapsto> ?s)) L K F v" if "absw (D(a \<mapsto> ?s)) L v" for v
  proof -
    have "locus ?s = locus s" using lab(1) by (simp add: locus_def or_event_bits_def)
    then have "stepped s ?s" "right ?s (Some L_active)"
      using sup(1) lab locus_cong [of ?s s] by (auto simp: stepped_def family_def or_event_bits_def dead_def)
    then show ?thesis using inv_step_at [OF assms(1,2) that others_refl pos] by simp
  qed
  have body: "safe (\<lambda>v. absw (D(a \<mapsto> ?s)) L v) (pt e ?act a w1)" if c: "absw (D(a \<mapsto> s\<lparr>post_op := POP_NO_OP\<rparr>)) L w1" for w1
  proof -
    obtain m q where ld: "sess a w1 = Inr (s\<lparr>post_op := POP_NO_OP, nxt := m, prv := q\<rparr>)" using absw_sess [OF c, of a] by auto
    have "safe (\<lambda>v. absw (D(a \<mapsto> ?s)) L v) (run [upd (or_event_bits ESQ_EVENT_BIT_EXIT) a, set_post_op POP_NO_OP a, goto_set PT_active a] w1)"
      apply (simp only: pt_ops)
      apply (rule safe_run, rule upd_safe [OF c], simp add: neutral_defs)
      apply (rule safe_run | rule safe_nil | erule upd_safe, simp add: neutral_defs)+
      by simp
    then show ?thesis using pt(1) ld lab(1)
      by (auto simp: esq_pt_of_single_shot_socket_def esq_pt_of_multi_shot_socket_def pt_active_def ms_active_def
          simple_action_def simp del: run.simps)
  qed
  have "safe (\<lambda>(r, w'). \<exists>s'. inv {} (D(a \<mapsto> s')) L K F w')
      (bindE (run [set_post_op POP_NO_OP a, pt e ?act a] w) (post_operation 2 e ?act a))"
    apply (rule safe_bind, rule safe_run, unfold set_post_op_def)
    apply (rule upd_safe [OF absw_triv [OF ab assms(2)]], simp add: neutral_defs)
    apply (rule safe_run, rule safe_mono [OF body], assumption)
    by (auto intro!: post_no_op dest: fin)
  then show ?thesis
    unfolding esq_notify_exit_def take_action_Suc take_action_absw [OF ab assms(2) sup(2) pt(2)] by (rule drop_result_safe)
qed

lemma exit_step:
  assumes "inv {} D L K F w" "D a = Some s" "L l = us @ a # ys" "l \<notin> {L_global, L_new}"
  shows "safe (\<lambda>w'. \<exists>s' L' us'. inv {} (D(a \<mapsto> s')) L' K F w' \<and> L' l = us' @ ys) (esq_notify_exit e (Some a) w)"
proof (cases "l = L_active")
  case True
  have l: "L l = (us @ [a]) @ ys" using assms(3) by simp
  have "a \<in> set (L L_active)" using assms(3) True by simp
  from exit_active [OF assms(1,2) this, of e] show ?thesis by (rule safe_mono) (use l in blast)
next
  case False
  let ?act = "simple_action e ACTION_NOTIFY_EXIT"
  have ab: "absw D L w" using assms(1) by (simp add: inv_def)
  have dist: "a \<notin> set us" "a \<notin> set ys" using absw_distinct [OF ab, of l] assms(3) by auto
  obtain p where p: "cfg a D L s p w" "right s p" using inv_cfg [OF assms(1,2)] by auto
  have "pos a L (Some l)" using absw_disjoint [OF ab, of l _ a] assms(3) by (auto simp: pos_def)
  then have r: "right s (Some l)" using assms(1,2) pos_unique placedD(3) [of "{}" D L a s] by (auto simp: inv_def)
  then have nf: "\<not> fresh s" by (auto simp: right_def places_def fresh_def session_type_defs split: if_splits)
  have sup: "supported s" "stepped s s" using assms(1,2) by (simp_all add: inv_def placed_def stepped_def)
  obtain pt where pt: "pt_of_type (session_type s) = Some pt" using pt_of_type_supported [OF sup(1)] by blast
  have en: "fresh s \<Longrightarrow> right s p" "\<not> fresh s \<Longrightarrow> entry ?act s p"
    using p(2) sup(1) by (auto simp: entry_def simple_action_def right_def labels_def supported_def split: if_splits)
  have y: "yields a (\<lambda>s. post_op s = POP_NO_OP) (run [set_post_op POP_NO_OP a, pt e ?act a] w)"
    by (rule exit_yields [OF p sup(1) nf _ pt]) (simp add: simple_action_def)
  have "safe (\<lambda>(r, w'). \<exists>s' p'. cfg a D L s' p' w' \<and> stepped s s' \<and> right s' p' \<and> post_op s' = POP_NO_OP \<and> r = result s')
      (esq_session_take_action (Suc 2) e ?act (Some a) w)"
    by (rule take_yields [OF assms(1,2) p(1) sup(2) _ en pt y]) (auto simp: strip_def plain_def simple_action_def)
  moreover have "\<exists>s' L' us'. inv {} (D(a \<mapsto> s')) L' K F w' \<and> L' l = us' @ ys"
    if c: "cfg a D L s' p' w'" "stepped s s'" "right s' p'" for s' p' w'
  proof -
    obtain L' where L': "absw (D(a \<mapsto> s')) L' w'" "others a L L'" "pos a L' p'" using c(1) by (auto simp: cfg_def)
    have rm: "removeAll a (L' l) = us @ ys" using others_removeAll [OF L'(2), of l] assms(3) dist by simp
    have "\<exists>us'. L' l = us' @ ys"
    proof (cases "a \<in> set (L' l)")
      case True
      then have "L' l = L l \<or> L' l = a # removeAll a (L l)" using L'(2) False assms(4) by (auto simp: others_def)
      then show ?thesis
      proof
        assume "L' l = L l"
        then have "L' l = (us @ [a]) @ ys" using assms(3) by simp
        then show ?thesis by blast
      next
        assume "L' l = a # removeAll a (L l)"
        then have "L' l = (a # us) @ ys" using assms(3) dist by simp
        then show ?thesis by blast
      qed
    qed (use rm in auto)
    then show ?thesis using inv_step_at [OF assms(1,2) L' c(2,3)] by auto
  qed
  ultimately show ?thesis
    unfolding esq_notify_exit_def take_action_Suc by (intro drop_result_safe) (auto elim!: safe_mono)
qed

lemma exit_list_valid:
  assumes "inv {} D L K F w" "dom D \<subseteq> A" "L l = us @ ys" "l \<notin> {L_global, L_new}" "length ys \<le> n"
  shows "safe (valid A {}) (notify_exit_list n e (first ys None) w)"
  using assms
proof (induction ys arbitrary: n D L w us)
  case Nil
  then show ?case by (cases n) (auto intro: validI)
next
  case (Cons a ys)
  obtain m where n: "n = Suc m" using Cons.prems(5) by (cases n) auto
  have ab: "absw D L w" using Cons.prems(1) by (simp add: inv_def)
  obtain s where s: "D a = Some s" using absw_alloc [OF ab, of a l] Cons.prems(3) by auto
  obtain u where u: "heap w a = Some u" "nxt u = first ys None" using absw_nxt [OF ab Cons.prems(4,3)] by blast
  have "safe (valid A {}) (notify_exit_list m e (first ys None) w')"
    if "inv {} (D(a \<mapsto> s')) L' K F w'" "L' l = us' @ ys" for s' L' us' w'
  proof -
    have "dom (D(a \<mapsto> s')) \<subseteq> A" using Cons.prems(2) s by auto
    from Cons.IH [OF that(1) this that(2) Cons.prems(4), of m] show ?thesis using Cons.prems(5) n by simp
  qed
  then show ?case using u
    by (auto simp: n sess_def of_opt_def intro!: safe_bind safe_mono [OF exit_step [OF Cons.prems(1) s Cons.prems(3,4)]])
qed

lemma exit_valid:
  assumes "valid A {} w" "enough e A"
  shows "safe (valid A {}) (esq_worker_notify_exit_to_all_sessions e w)"
proof -
  have one: "safe (valid A {}) (notify_exit_list (loop_fuel e) e (head (lists v l)) v)"
    if "valid A {} v" "l \<notin> {L_global, L_new}" for v l
  proof -
    obtain D L K F where i: "inv {} D L K F v" "dom D \<subseteq> A" using \<open>valid A {} v\<close> by (auto simp: valid_def)
    have "absw D L v" using i(1) by (simp add: inv_def)
    then show ?thesis
      using exit_list_valid [OF i, of l "[]" "L l"] that(2) list_length [OF i assms(2), of l] absw_head [of D L v l] by simp
  qed
  have all: "safe (valid A {}) (run (map (\<lambda>l w. notify_exit_list (loop_fuel e) e (head (lists w l)) w) ls) v)"
    if "valid A {} v" "set ls \<inter> {L_global, L_new} = {}" for ls v
    using that
  proof (induction ls arbitrary: v)
    case (Cons l ls)
    then show ?case using one [of v l] by (auto intro!: safe_bind elim!: safe_mono)
  qed simp
  show ?thesis unfolding esq_worker_notify_exit_to_all_sessions_def by (rule all [OF assms(1)]) simp
qed

section \<open>A pass of the loop\<close>

text \<open>Callbacks may call any interface function, but do not free the session they run for.\<close>

definition well_behaved :: "addr set \<Rightarrow> user_code \<Rightarrow> bool" where
  "well_behaved A u \<longleftrightarrow> (\<forall>f a w. valid A {} w \<and> heap w a \<noteq> None \<longrightarrow>
     safe (\<lambda>w'. valid A {} w' \<and> heap w' a \<noteq> None) (run_cb u f a w) \<and>
     safe (\<lambda>w'. valid A {} w' \<and> heap w' a \<noteq> None) (mco_resume u f a w))"

lemma execute_valid:
  assumes "valid A {} w" "heap w a \<noteq> None" "well_behaved A u" "enough e A"
  shows "safe (valid A {}) (esq_worker_execute_session u e a w)"
proof -
  have wind_up: "safe (valid A {}) (esq_session_wind_up e (Some a) v)" if "valid A {} v \<and> heap v a \<noteq> None" for v
    using action_valid [of A v a ACTION_WIND_UP e] that assms(4) by (simp add: esq_session_wind_up_def nonnull_def)
  have wb: "safe (\<lambda>v. valid A {} v \<and> heap v a \<noteq> None) (run_cb u f a w)"
    "safe (\<lambda>v. valid A {} v \<and> heap v a \<noteq> None) (mco_resume u f a w)" for f
    using assms(1-3) unfolding well_behaved_def by blast+
  have code: "safe (\<lambda>v. safe (valid A {}) (esq_session_wind_up e (Some a) v)) (run_cb u f a w)"
    "safe (\<lambda>v. safe (valid A {}) (esq_session_wind_up e (Some a) v)) (mco_resume u f a w)" for f
    by (rule safe_mono [OF wb(1) wind_up] safe_mono [OF wb(2) wind_up], assumption)+
  have mco: "safe (\<lambda>v. safe (valid A {}) (if b then Inl Exit else esq_session_wind_up e (Some a) v)) (mco_resume u m a w)" for m b
    using code(2) [of m] by (rule safe_mono) simp
  show ?thesis unfolding esq_worker_execute_session_def
    using assms(2) code(1) mco by (auto simp: sess_def of_opt_def intro!: safe_bind split: option.splits)
qed

lemma pick_up_global_True: "pick_up_global n e True w = Inr (r, w') \<Longrightarrow> r"
  by (induction n arbitrary: w) (auto split: option.splits dest!: bindE_InrD simp del: run.simps)

lemma pick_up_unchanged:
  "esq_worker_pick_up_from_local_list e w = Inr (False, w') \<Longrightarrow> w' = w"
  "esq_worker_pick_up_from_global_list e w = Inr (False, w') \<Longrightarrow> w' = w"
proof -
  show "esq_worker_pick_up_from_local_list e w = Inr (False, w') \<Longrightarrow> w' = w"
    by (auto simp: esq_worker_pick_up_from_local_list_def split: option.splits dest!: bindE_InrD simp del: run.simps)
  have "pick_up_global n e False w \<noteq> Inr (False, w')" if "head (lists w L_global) \<noteq> None" for n
    using that pick_up_global_True by (cases n) (auto dest!: bindE_InrD simp del: run.simps)
  then show "esq_worker_pick_up_from_global_list e w = Inr (False, w') \<Longrightarrow> w' = w"
    by (auto simp: esq_worker_pick_up_from_global_list_def split: if_splits)
qed

text \<open>What waiting may report: a live session, and only deadlines that fit an \<^verbatim>\<open>int\<close> are compared.\<close>

definition admissible :: "poll \<Rightarrow> world \<Rightarrow> bool" where
  "admissible ev w \<longleftrightarrow> (case ev of
       Poll_cqe (Some a) r \<Rightarrow> heap w a \<noteq> None
     | Poll_time \<Rightarrow> (\<forall>a s. heap w a = Some s \<longrightarrow> in_range s)
     | _ \<Rightarrow> True)"

lemma wait_valid:
  assumes "valid A {} w" "enough e A" "admissible ev w"
  shows "safe (valid A {}) (esq_worker_wait e ev w)"
proof -
  have upd: "valid A {} (esq_session_update_polling_interval v)" if "valid A {} v" for v
    using valid_other [OF that] by (simp add: esq_session_update_polling_interval_def)
  show ?thesis
  proof (cases ev)
    case (Poll_cqe data r)
    have "safe (valid A {}) (esq_worker_receive_fd_event e data r w)"
      using assms Poll_cqe by (intro receive_valid) (auto simp: admissible_def)
    then show ?thesis using Poll_cqe upd by (auto simp: esq_worker_wait_def intro!: safe_bind elim!: safe_mono)
  next
    case Poll_time
    have "safe (valid A {}) (esq_session_timing e w)"
      using assms Poll_time by (intro timing_valid) (auto simp: admissible_def)
    then show ?thesis using Poll_time upd by (auto simp: esq_worker_wait_def intro!: safe_bind elim!: safe_mono)
  qed (use assms(1) in \<open>simp_all add: esq_worker_wait_def\<close>)
qed

lemma polling_safe: "esq_os_event_wait_max w \<le> 2147 \<Longrightarrow> safe (\<lambda>_. True) (polling_nsec w)"
  by (auto simp: polling_nsec_def i32_def of_opt_def)

lemma pick_then:
  assumes "safe (\<lambda>(r, v). Q (True, v)) x" "\<And>v. x = Inr (False, v) \<Longrightarrow> v = w" "safe Q (G w)"
  shows "safe Q (bindE x (\<lambda>(r, v). if r then Inr (True, v) else G v))"
  using assms by (cases x) (auto simp: safe_def split: prod.splits)

lemma loop_valid:
  assumes "valid A {} w" "enough e A" "well_behaved A u" "admissible ev w"
    and "head (wake_up w (self w)) = None" "esq_os_event_wait_max w \<le> 2147"
  shows "safe (\<lambda>(b, w). valid A {} w) (esq_worker_loop u e ev w)"
proof -
  let ?Q = "\<lambda>(b :: bool, w). valid A {} w"
  let ?Stop = "\<lambda>v. if esq_server_stop_flag v then
             if esq_worker_still_work_to_do v then bindE (esq_worker_notify_exit_to_all_sessions e v) (\<lambda>w. Inr (True, w))
             else Inr (False, v)
           else Inr (True, v)"
  let ?Wait = "bindE (polling_nsec w) (\<lambda>_. bindE (esq_worker_wait e ev w) ?Stop)"
  let ?Idle = "if esq_worker_stop_session_flag w then
           bindE (esq_worker_notify_exit_to_all_sessions e (w\<lparr>esq_worker_stop_session_flag := False\<rparr>)) (\<lambda>w. Inr (True, w))
         else ?Wait"
  have exit: "safe ?Q (bindE (esq_worker_notify_exit_to_all_sessions e v) (\<lambda>w. Inr (True, w)))" if "valid A {} v" for v
    using exit_valid [OF that assms(2)] by (auto intro!: safe_bind elim!: safe_mono)
  have stop: "safe ?Q (?Stop v)" if "valid A {} v" for v using that exit by simp
  have wait: "safe ?Q ?Wait"
    by (rule safe_bind, rule safe_mono [OF polling_safe [OF assms(6)]], rule safe_bind,
      rule safe_mono [OF wait_valid [OF assms(1,2,4)]], rule stop)
  have "valid A {} (w\<lparr>esq_worker_stop_session_flag := False\<rparr>)" by (rule valid_other [OF assms(1)]) simp_all
  then have idle: "safe ?Q ?Idle" using exit wait by simp
  let ?Rest = "\<lambda>w. bindE (esq_worker_pick_up_from_local_wake_up_list e w) (\<lambda>(r, w). if r then Inr (True, w) else
         if esq_worker_stop_session_flag w then
           bindE (esq_worker_notify_exit_to_all_sessions e (w\<lparr>esq_worker_stop_session_flag := False\<rparr>)) (\<lambda>w. Inr (True, w))
         else bindE (polling_nsec w) (\<lambda>_. bindE (esq_worker_wait e ev w) ?Stop))"
  have rest: "safe ?Q (?Rest w)" using idle assms(5) by (simp add: esq_worker_pick_up_from_local_wake_up_list_def)
  have pick: "safe ?Q (bindE (esq_worker_pick_up_from_global_list e w) (\<lambda>(r, w). if r then Inr (True, w) else
      bindE (esq_worker_pick_up_from_local_list e w) (\<lambda>(r, w). if r then Inr (True, w) else ?Rest w)))"
  proof (rule pick_then [where w = w])
    show "safe ?Q (bindE (esq_worker_pick_up_from_local_list e w) (\<lambda>(r, w). if r then Inr (True, w) else ?Rest w))"
    proof (rule pick_then [where w = w])
      show "safe ?Q (?Rest w)" by (rule rest)
    qed (use pick_up_lists_valid(1) [OF assms(1,2)] pick_up_unchanged(1) in auto)
  qed (use pick_up_lists_valid(2) [OF assms(1,2)] pick_up_unchanged(2) in auto)
  have exec: "safe ?Q (bindE (esq_worker_execute_session u e a v) (\<lambda>w. Inr (True, w)))"
    if "valid A {} v" "heap v a \<noteq> None" for v a
    using execute_valid [OF that assms(3,2)] by (auto intro!: safe_bind elim!: safe_mono)
  show ?thesis unfolding esq_worker_loop_def
  proof (rule safe_bind, rule safe_mono [OF pop_valid [OF assms(1,2)]])
    fix y assume y: "case y of (p, w') \<Rightarrow> valid A {} w' \<and>
      (case p of None \<Rightarrow> w' = w | Some a \<Rightarrow> \<exists>t. heap w' a = Some t \<and> lc t = PT_execute_cb)"
    obtain p v where p: "y = (p, v)" by (cases y)
    show "safe ?Q (case y of (p, w) \<Rightarrow> case p of
       Some a \<Rightarrow> bindE (esq_worker_execute_session u e a w) (\<lambda>w. Inr (True, w))
     | None \<Rightarrow> bindE (esq_worker_pick_up_from_global_list e w) (\<lambda>(r, w). if r then Inr (True, w) else
         bindE (esq_worker_pick_up_from_local_list e w) (\<lambda>(r, w). if r then Inr (True, w) else ?Rest w)))"
      using y p pick exec [of v] by (cases p) auto
  qed
qed

end
