(* ===== verification/Esq_Reach.thy ===== *)
theory Esq_Reach
  imports Esq_Loop
begin

text \<open>
  The states the engine can reach: from empty lists, by interface calls of the application and steps of the
  worker in any order.  The calls are the creation of a session, the plain actions, \<^verbatim>\<open>esq_session_bundle_child\<close> and
  \<^verbatim>\<open>esq_execute_session_done_cb\<close>; hash locks and coroutines are not among them.  A session-done callback is recorded
  (\<open>done_calls\<close>) and does not change the engine.  The theorems of this theory are the safety of the engine: no reachable state has
  a session in a wrong list, and nothing done in such a state follows a dangling pointer.
\<close>

section \<open>Steps\<close>

definition initial :: "world \<Rightarrow> bool" where
  "initial w \<longleftrightarrow> heap w = Map.empty \<and> (\<forall>l. lists w l = ll_empty)"

inductive step :: "addr set \<Rightarrow> world \<Rightarrow> world \<Rightarrow> bool" for A where
  step_new: "\<lbrakk>malloc_session e = Some a; heap w a = None; a \<in> A\<rbrakk> \<Longrightarrow> step A w (snd (esq_session_new e w))"
| step_action: "\<lbrakk>enough e A; heap w a \<noteq> None; plain act; a_type act \<noteq> ACTION_PICK_UP; take_action e act (Some a) w = Inr (r, w')\<rbrakk>
    \<Longrightarrow> step A w w'"
| step_bundle: "\<lbrakk>heap w p \<noteq> None; heap w c \<noteq> None; esq_session_bundle_child e (Some p) (Some c) f w = Inr (r, w')\<rbrakk> \<Longrightarrow> step A w w'"
| step_done: "\<lbrakk>enough e A; heap w a \<noteq> None; esq_execute_session_done_cb e a w = Inr w'\<rbrakk> \<Longrightarrow> step A w w'"
| step_local: "\<lbrakk>enough e A; esq_worker_pick_up_from_local_list e w = Inr (b, w')\<rbrakk> \<Longrightarrow> step A w w'"
| step_global: "\<lbrakk>enough e A; esq_worker_pick_up_from_global_list e w = Inr (b, w')\<rbrakk> \<Longrightarrow> step A w w'"
| step_pop: "\<lbrakk>enough e A; esq_session_pop_the_first_active e w = Inr (p, w')\<rbrakk> \<Longrightarrow> step A w w'"
| step_wait: "\<lbrakk>enough e A; admissible ev w; esq_worker_wait e ev w = Inr w'\<rbrakk> \<Longrightarrow> step A w w'"
| step_exit: "\<lbrakk>enough e A; esq_worker_notify_exit_to_all_sessions e w = Inr w'\<rbrakk> \<Longrightarrow> step A w w'"

inductive steps :: "addr set \<Rightarrow> world \<Rightarrow> world \<Rightarrow> bool" for A where
  steps_refl: "steps A w w"
| steps_step: "steps A w v \<Longrightarrow> step A v u \<Longrightarrow> steps A w u"

inductive_cases stepsE: "steps A w u"

definition reachable :: "addr set \<Rightarrow> world \<Rightarrow> bool" where
  "reachable A w \<longleftrightarrow> (\<exists>w0. initial w0 \<and> steps A w0 w)"

lemma initial_valid: "initial w \<Longrightarrow> valid A {} w"
proof -
  assume i: "initial w"
  have "absw Map.empty (\<lambda>l. []) w"
    using i dll_empty sll_empty by (auto simp: initial_def absw_def lists_ok_def list_inv_def)
  then have "inv {} Map.empty (\<lambda>l. []) (\<lambda>a. []) (\<lambda>a. []) w"
    by (simp add: inv_def fam_ok_def placed_def)
  then show "valid A {} w" by (rule validI) simp
qed

lemma safeD: "safe Q x \<Longrightarrow> x = Inr y \<Longrightarrow> Q y"
  by simp

lemma step_valid: "step A w w' \<Longrightarrow> valid A {} w \<Longrightarrow> valid A {} w'"
proof (induction rule: step.induct)
  case (step_new e a w)
  then show ?case by (intro new_valid)
next
  case (step_action e w a act r w')
  then show ?case using safeD [OF api_valid [of A w a act e]] by fastforce
next
  case (step_bundle w p c e f r w')
  then show ?case using safeD [OF bundle_child_valid [of A w p c e f]] by fastforce
next
  case (step_done e w a w')
  then show ?case using safeD [OF done_cb_valid [of A w a e]] by blast
next
  case (step_local e w b w')
  then show ?case using safeD [OF pick_up_lists_valid(1) [of A w e]] by fastforce
next
  case (step_global e w b w')
  then show ?case using safeD [OF pick_up_lists_valid(2) [of A w e]] by fastforce
next
  case (step_pop e w p w')
  then show ?case using safeD [OF pop_valid [of A w e]] by fastforce
next
  case (step_wait e ev w w')
  then show ?case using safeD [OF wait_valid [of A w e ev]] by blast
next
  case (step_exit e w w')
  then show ?case using safeD [OF exit_valid [of A w e]] by blast
qed

lemma steps_valid: "steps A w w' \<Longrightarrow> valid A {} w \<Longrightarrow> valid A {} w'"
  by (induction rule: steps.induct) (auto intro: step_valid)

lemma steps_trans: "steps A v u \<Longrightarrow> steps A w v \<Longrightarrow> steps A w u"
  by (induction rule: steps.induct) (auto intro: steps.intros)

lemma reachable_valid: "reachable A w \<Longrightarrow> valid A {} w"
  using initial_valid steps_valid unfolding reachable_def by blast

lemma safe_no_fault: "safe Q x \<Longrightarrow> x \<noteq> Inl Fault \<and> x \<noteq> Inl Fuel"
  by auto

section \<open>A small instance\<close>

text \<open>An environment and a state without sessions, at which the theorems are instantiated.\<close>

definition ex_action :: esq_session_pt_action_t where
  "ex_action = \<lparr>a_type = ACTION_NO, a_fd = 0, a_exp_event_bits = 0, a_notify_event_bits = 0, a_timeouts = 0,
     a_timeoutms = 0, a_cb = None, a_user_param = None, a_hash_lock_idx = 0\<rparr>"

definition ex_env :: env where
  "ex_env = \<lparr>gettimeofday = Some (100, 5), malloc_session = Some 0, malloc_ctx = None, mco_is_end = (\<lambda>m. False),
     loop_fuel = 4, junk = ex_action\<rparr>"

definition ex_world :: world where
  "ex_world = \<lparr>heap = Map.empty, lists = (\<lambda>l. ll_empty), esq_os_event_wait_max = -1, esq_worker_stop_session_flag = False,
     io_uring = [], esq_server_stop_flag = False, self = 0, ctxs = Map.empty, locks = (\<lambda>i. ll_empty),
     wake_up = (\<lambda>i. ll_empty), done_calls = []\<rparr>"

definition ex_new :: world where
  "ex_new = snd (esq_session_new ex_env ex_world)"

lemma ex_reachable: "reachable {0, 1} ex_world" "reachable {0, 1} ex_new"
proof -
  have i: "initial ex_world" by (simp add: initial_def ex_world_def)
  then show "reachable {0, 1} ex_world" unfolding reachable_def using steps_refl by blast
  have "step {0, 1} ex_world ex_new"
    unfolding ex_new_def by (rule step_new [of _ 0]) (simp_all add: ex_env_def ex_world_def)
  then show "reachable {0, 1} ex_new" unfolding reachable_def using i steps_refl steps_step by blast
qed

lemma ex_enough: "enough ex_env {0, 1}"
  by (simp add: enough_def ex_env_def)

lemma ex_heap: "heap ex_new = [0 \<mapsto> session_zero\<lparr>magic0 := ESQ_SESSION_MAGIC, magic1 := ESQ_SESSION_MAGIC,
    session_type := ESQ_SESSION_TYPE_NEW\<rparr>]" "wake_up ex_new 0 = ll_empty" "self ex_new = 0" "esq_os_event_wait_max ex_new = -1"
  by (simp_all add: ex_new_def esq_session_new_def ex_env_def ex_world_def embedded_ctxs_def)

text \<open>The session given a descriptor and a timeout of two seconds, wound up and picked up by the worker.\<close>

definition ex_set_fd :: esq_session_pt_action_t where
  "ex_set_fd = ex_action\<lparr>a_type := ACTION_ADD_SOCK_FD_SINGLE, a_fd := 7, a_timeouts := 2, a_cb := Some 0\<rparr>"

definition ex_added :: world where
  "ex_added = snd (projr (take_action ex_env ex_set_fd (Some 0) ex_new))"

definition ex_wound_up :: world where
  "ex_wound_up = snd (projr (take_action ex_env (simple_action ex_env ACTION_WIND_UP) (Some 0) ex_added))"

definition ex_armed :: world where
  "ex_armed = snd (projr (esq_worker_pick_up_from_local_list ex_env ex_wound_up))"

definition ex_late :: env where
  "ex_late = ex_env\<lparr>gettimeofday := Some (200, 0)\<rparr>"

lemma projr_pair: "\<not> isl x \<Longrightarrow> x = Inr (fst (projr x), snd (projr x))"
  by (cases x) auto

lemma ex_armed_reachable: "reachable {0} ex_armed"
proof -
  have i: "initial ex_world" by (simp add: initial_def ex_world_def)
  have en: "enough ex_env {0}" by (simp add: enough_def ex_env_def)
  have 1: "step {0} ex_world ex_new" unfolding ex_new_def by (rule step_new [of _ 0]) (simp_all add: ex_env_def ex_world_def)
  have 2: "step {0} ex_new ex_added"
  proof (rule step_action [OF en])
    have "\<not> isl (take_action ex_env ex_set_fd (Some 0) ex_new)" by code_simp
    from projr_pair [OF this] show "take_action ex_env ex_set_fd (Some 0) ex_new =
      Inr (fst (projr (take_action ex_env ex_set_fd (Some 0) ex_new)), ex_added)" unfolding ex_added_def .
  qed (simp_all add: ex_heap plain_def ex_set_fd_def)
  have 3: "step {0} ex_added ex_wound_up"
  proof (rule step_action [OF en])
    let ?x = "take_action ex_env (simple_action ex_env ACTION_WIND_UP) (Some 0) ex_added"
    have "\<not> isl ?x" by code_simp
    from projr_pair [OF this] show "?x = Inr (fst (projr ?x), ex_wound_up)" unfolding ex_wound_up_def .
    have "\<not> Option.is_none (heap ex_added 0)" by code_simp
    then show "heap ex_added 0 \<noteq> None" by (simp add: Option.is_none_def)
  qed (simp_all add: plain_def simple_action_def)
  have 4: "step {0} ex_wound_up ex_armed"
  proof (rule step_local [OF en])
    let ?x = "esq_worker_pick_up_from_local_list ex_env ex_wound_up"
    have "\<not> isl ?x" by code_simp
    from projr_pair [OF this] show "?x = Inr (fst (projr ?x), ex_armed)" unfolding ex_armed_def .
  qed
  have "steps {0} ex_world ex_armed"
    by (rule steps_step [OF steps_step [OF steps_step [OF steps_step [OF steps_refl 1] 2] 3] 4])
  then show ?thesis unfolding reachable_def using i by blast
qed

lemma ex_armed_values:
  "head (lists ex_armed L_1s_to_10s) = Some 0"
  "map_option (\<lambda>s. (wind_up_s s, wind_up_ms s, timeouts s, timeoutms s, lc s)) (heap ex_armed 0) = Some (100, 5, 2, 0, PT_winded_up)"
  "head (wake_up ex_armed (self ex_armed)) = None" "esq_os_event_wait_max ex_armed = 500"
  by code_simp+

lemma reachable_alloc: "reachable A w \<Longrightarrow> heap w a \<noteq> None \<Longrightarrow> a \<in> A"
proof -
  assume r: "reachable A w" and a: "heap w a \<noteq> None"
  obtain D L K F where "inv {} D L K F w" "dom D \<subseteq> A" using reachable_valid [OF r] by (auto simp: valid_def)
  moreover from this have "D a \<noteq> None" using a absw_None [of D L w a] by (simp add: inv_def)
  ultimately show ?thesis by blast
qed

section \<open>Safety\<close>

text \<open>
  C1.  In every state reached by passes of the worker loop, plain actions, interface calls and the release of finished children
  (\<open>step\<close>; sessions on sockets or without a descriptor, no hash locks and no coroutines), the lists of the worker are well linked and
  share no session, every session on a list is allocated, every session has an intact magic number and one of the types its machine
  knows, rests at a label of that machine, and is on exactly one list, one that its label names, or on none when its label names none.
\<close>

theorem reachable_sessions_placed:
  assumes "reachable A w"
  shows "\<exists>L. lists_ok L w \<and> (\<forall>l a. a \<in> set (L l) \<longrightarrow> heap w a \<noteq> None) \<and>
    (\<forall>a s. heap w a = Some s \<longrightarrow> ESQ_CHECK_SESSION s \<and> pt_of_type (session_type s) \<noteq> None \<and> lc s \<in> labels s \<and>
       (if places s = {} then \<forall>l. a \<notin> set (L l) else \<exists>l \<in> places s. \<forall>m. a \<in> set (L m) \<longleftrightarrow> m = l))"
proof -
  obtain D L K F where i: "inv {} D L K F w" using reachable_valid [OF assms] by (auto simp: valid_def)
  then have ab: "absw D L w" by (simp add: inv_def)
  have "ESQ_CHECK_SESSION s \<and> pt_of_type (session_type s) \<noteq> None \<and> lc s \<in> labels s \<and>
       (if places s = {} then \<forall>l. a \<notin> set (L l) else \<exists>l \<in> places s. \<forall>m. a \<in> set (L m) \<longleftrightarrow> m = l)"
    if s: "heap w a = Some s" for a s
  proof -
    have D: "D a = Some (strip s)" using ab s by (simp add: absw_def)
    have lo: "locus s = locus (strip s)" by (simp add: locus_def strip_def)
    obtain p where p: "pos a L p" "right (strip s) p" "supported (strip s)" "ESQ_CHECK_SESSION (strip s)"
      using i D placedD [of "{}" D L a "strip s"] by (auto simp: inv_def)
    have "right s p" "supported s" using p locus_cong [OF lo] by simp_all
    moreover have "ESQ_CHECK_SESSION s" using p(4) by (simp add: ESQ_CHECK_SESSION_def strip_def)
    ultimately show ?thesis using p(1) pt_of_type_supported [of s]
      by (cases p) (auto simp: right_def pos_def)
  qed
  moreover have "lists_ok L w" using ab by (simp add: absw_def)
  moreover have "heap w a \<noteq> None" if "a \<in> set (L l)" for l a using absw_alloc [OF ab that] absw_None [OF ab] by auto
  ultimately show ?thesis by blast
qed

theorem reachable_sessions_placed_witness:
  "reachable {0, 1} ex_new \<and> (\<exists>L. lists_ok L ex_new \<and> (\<forall>l. 0 \<notin> set (L l)))"
proof -
  obtain L where L: "lists_ok L ex_new" "\<forall>a s. heap ex_new a = Some s \<longrightarrow> ESQ_CHECK_SESSION s \<and>
      pt_of_type (session_type s) \<noteq> None \<and> lc s \<in> labels s \<and>
      (if places s = {} then \<forall>l. a \<notin> set (L l) else \<exists>l \<in> places s. \<forall>m. a \<in> set (L m) \<longleftrightarrow> m = l)"
    using reachable_sessions_placed [OF ex_reachable(2)] by blast
  have "places (session_zero\<lparr>magic0 := ESQ_SESSION_MAGIC, magic1 := ESQ_SESSION_MAGIC, session_type := ESQ_SESSION_TYPE_NEW\<rparr>) = {}"
    by (simp add: places_def session_type_defs)
  then have "\<forall>l. 0 \<notin> set (L l)" using L(2) ex_heap(1) by (auto dest!: spec [of _ 0])
  then show ?thesis using L(1) ex_reachable(2) by blast
qed

text \<open>
  C2.  A plain action, one other than \<^verbatim>\<open>SET_PARENT\<close>, \<^verbatim>\<open>ADD_CHILD\<close>, \<^verbatim>\<open>HASH_LOCK_READ\<close>, \<^verbatim>\<open>HASH_LOCK_WRITE\<close> and the worker's own \<^verbatim>\<open>PICK_UP\<close>,
  applied to a live session in a reachable state at whatever point of its machine, never follows a null or dangling pointer
  and its loops end (\<open>loop_fuel\<close> larger than the number of sessions is enough): it exits on an action its machine refuses, or
  returns in a reachable state.  Parents and children are set by \<open>step_bundle\<close>, which is a step of its own.  The session-done callbacks
  of freed sessions are recorded as calls and have no effect on the engine: they are taken not to call it back.
\<close>

theorem action_safe:
  assumes "reachable A w" "heap w a \<noteq> None" "plain act" "a_type act \<noteq> ACTION_PICK_UP" "enough e A"
  shows "take_action e act (Some a) w = Inl Exit \<or> (\<exists>r w'. take_action e act (Some a) w = Inr (r, w') \<and> reachable A w')"
proof -
  have s: "safe (\<lambda>(r, w). valid A {} w) (take_action e act (Some a) w)"
    by (rule api_valid [OF reachable_valid [OF assms(1)] assms(2-5)])
  show ?thesis
  proof (cases "take_action e act (Some a) w")
    case (Inl x)
    then show ?thesis using s by (cases x) auto
  next
    case (Inr y)
    obtain r w' where "y = (r, w')" by (cases y)
    moreover have "step A w w'" using step_action [OF assms(5,2-4)] Inr \<open>y = (r, w')\<close> by simp
    ultimately show ?thesis using Inr assms(1) steps_step unfolding reachable_def by blast
  qed
qed

theorem action_safe_witness:
  "\<exists>r w'. take_action ex_env (ex_action\<lparr>a_type := ACTION_ADD_SOCK_FD_SINGLE, a_fd := 7\<rparr>) (Some 0) ex_new = Inr (r, w') \<and>
     reachable {0, 1} w'"
proof -
  let ?act = "ex_action\<lparr>a_type := ACTION_ADD_SOCK_FD_SINGLE, a_fd := 7\<rparr>"
  have "take_action ex_env ?act (Some 0) ex_new \<noteq> Inl Exit"
    by (simp add: take_action_def TAKE_ACTION_FUEL_def numeral_3_eq_3 esq_session_take_action.simps sess_def of_opt_def ex_heap
        session_zero_def ESQ_CHECK_SESSION_def pt_of_type_def session_type_defs esq_pt_of_no_fd_def pt_ops upd_def
        esq_pt_of_single_shot_socket_def ss_start_def pop_defs)
  then show ?thesis
    using action_safe [OF ex_reachable(2) _ _ _ ex_enough, of 0 ?act] by (auto simp: ex_heap plain_def)
qed

section \<open>The worker\<close>

text \<open>Callbacks that reach the engine through its interface only and keep their session allocated.\<close>

definition calls_interface :: "addr set \<Rightarrow> user_code \<Rightarrow> bool" where
  "calls_interface A u \<longleftrightarrow> (\<forall>f a w. \<forall>x \<in> {run_cb u f a w, mco_resume u f a w}.
     case x of Inl z \<Rightarrow> z = Exit | Inr w' \<Rightarrow> steps A w w' \<and> (heap w a \<noteq> None \<longrightarrow> heap w' a \<noteq> None))"

lemma calls_interface_well_behaved: "calls_interface A u \<Longrightarrow> well_behaved A u"
  unfolding calls_interface_def well_behaved_def safe_def using steps_valid
  by (auto split: sum.splits) (metis option.exhaust)+

text \<open>
  C3.  A pass of the worker loop in a reachable state executes the first active session, or picks up new sessions, or
  forwards the exit request, or waits and handles what the kernel reports; it never follows a null or dangling pointer and its
  loops end, if: what the kernel completes names a live session or none; when the wait ends with the interval, all
  deadlines fit an \<^verbatim>\<open>int\<close>; callbacks reach the engine only by the steps of \<open>step\<close> and keep the session they run for allocated;
  no session waits for a hash lock; the polling interval is at most 2147 ms, since the product with 1000000 is an \<^verbatim>\<open>int\<close> (the
  interval of 5000 ms that the code sets for timeouts of ten seconds and more overflows it).
\<close>

theorem worker_loop_safe:
  assumes "reachable A w" "enough e A" "calls_interface A u" "admissible ev w"
    and "head (wake_up w (self w)) = None" "esq_os_event_wait_max w \<le> 2147"
  shows "esq_worker_loop u e ev w \<noteq> Inl Fault \<and> esq_worker_loop u e ev w \<noteq> Inl Fuel"
  by (rule safe_no_fault [OF loop_valid [OF reachable_valid [OF assms(1)] assms(2) calls_interface_well_behaved [OF assms(3)] assms(4-6)]])

definition ex_code :: user_code where
  "ex_code = \<lparr>run_cb = (\<lambda>f a w. Inr w), mco_resume = (\<lambda>m a w. Inl Exit), mco_check_stack = (\<lambda>m. False)\<rparr>"

theorem worker_loop_safe_witness:
  "calls_interface {0} ex_code \<and> admissible (Poll_cqe (Some 0) 1) ex_armed \<and>
   esq_worker_loop ex_code ex_env (Poll_cqe (Some 0) 1) ex_armed \<notin> {Inl Fault, Inl Fuel}"
proof -
  have "calls_interface {0} ex_code" by (simp add: calls_interface_def ex_code_def steps_refl)
  moreover have "enough ex_env {0}" by (simp add: enough_def ex_env_def)
  moreover have "admissible (Poll_cqe (Some 0) 1) ex_armed" using ex_armed_values(2) by (auto simp: admissible_def)
  ultimately show ?thesis
    using worker_loop_safe [OF ex_armed_reachable, of ex_env ex_code "Poll_cqe (Some 0) 1"] ex_armed_values(3,4) by simp
qed

text \<open>The deadline of a session in microseconds, as its wind-up time and a timeout in seconds give it.\<close>

definition deadline_usec :: "esq_session_t \<Rightarrow> int" where
  "deadline_usec s = (wind_up_s s + timeouts s) * 1000000 + wind_up_ms s"

lemma expired_seconds:
  assumes "timeoutms s = 0" "0 \<le> wind_up_ms s" "wind_up_ms s < 1000000" "0 \<le> usec" "usec < 1000000"
  shows "expired sec usec s \<longleftrightarrow> deadline_usec s < sec * 1000000 + usec"
proof -
  define d where "d = wind_up_s s + timeouts s"
  have "d < sec \<or> d = sec \<and> wind_up_ms s < usec \<longleftrightarrow> d * 1000000 + wind_up_ms s < sec * 1000000 + usec"
    using assms(2-5) by linarith
  then show ?thesis using assms(1) by (simp add: expired_def deadline_usec_def d_def)
qed

lemma to_int32_id: "-(2 ^ 31) \<le> x \<Longrightarrow> x < 2 ^ 31 \<Longrightarrow> to_int32 x = x"
  unfolding to_int32_def by (simp add: signed_of_int signed_take_bit_int_eq_self)

text \<open>
  C4.  The timer scan of a reachable state returns, if the deadlines fit an \<^verbatim>\<open>int\<close>.  It removes from every timing list exactly
  the expired sessions and keeps the order of the others; every expired session has got its timeout bit and is active,
  or will be as soon as the kernel has removed its descriptor.  A session has expired as \<^verbatim>\<open>CHECK_EVENTS_TIMING2\<close> compares: the
  seconds of its wind-up plus its timeout in seconds, then the field \<^verbatim>\<open>wind_up_ms\<close>, which holds microseconds, plus the timeout in
  milliseconds without a conversion.  For a timeout in whole seconds this is the deadline itself.
\<close>

theorem timer_scan_exact:
  assumes "reachable A w" "enough e A" "gettimeofday e = Some (sec, usec)" "\<And>a s. heap w a = Some s \<Longrightarrow> in_range s"
  shows "(\<exists>L w' L'. lists_ok L w \<and> esq_session_timing e w = Inr w' \<and> lists_ok L' w' \<and>
      (\<forall>l \<in> set timing_lists.
        L' l = filter (\<lambda>a. \<not> expired (to_int32 sec) (to_int32 usec) (the (heap w a))) (L l) \<and>
        (\<forall>a \<in> set (L l). expired (to_int32 sec) (to_int32 usec) (the (heap w a)) \<longrightarrow> (\<exists>s. heap w' a = Some s \<and>
           event_bits s AND ucast ESQ_EVENT_BIT_TIMEOUT = ucast ESQ_EVENT_BIT_TIMEOUT \<and>
           lc s \<in> {PT_active, PT_wait_for_removed_then_active})))) \<and>
    (\<forall>s. timeoutms s = 0 \<and> wind_up_ms s \<in> {0..<1000000} \<and> usec \<in> {0..<1000000} \<longrightarrow>
      (expired (to_int32 sec) (to_int32 usec) s \<longleftrightarrow> deadline_usec s < to_int32 sec * 1000000 + usec))"
proof
  let ?ex = "expired (to_int32 sec) (to_int32 usec)"
  obtain D L K F where i: "inv {} D L K F w" "dom D \<subseteq> A" using reachable_valid [OF assms(1)] by (auto simp: valid_def)
  have ab: "absw D L w" using i(1) by (simp add: inv_def)
  have strip: "in_range (strip s) = in_range s" "?ex (strip s) = ?ex s" for s
    by (simp_all add: in_range_def expired_def strip_def)
  have rg: "in_range s" if "D b = Some s" for b s using ab that assms(3,4) strip(1) by (auto simp: absw_def)
  have exD: "?ex (the (D x)) = ?ex (the (heap w x))" if x: "x \<in> set (L l)" for x l
  proof -
    obtain z where "heap w x = Some z" using absw_alloc [OF ab x] absw_None [OF ab, of x] by auto
    moreover from this have "D x = Some (strip z)" using ab by (simp add: absw_def)
    ultimately show ?thesis using strip(2) by simp
  qed
  have fl: "filter (\<lambda>a. \<not> ?ex (the (D a))) (L l) = filter (\<lambda>a. \<not> ?ex (the (heap w a))) (L l)" for l
    by (intro filter_cong refl) (simp only: exD)
  have "sure (\<lambda>(t', w'). cleared A (to_int32 sec) (to_int32 usec) (set timing_lists) D L K F w')
      (check_timing_lists e (to_int32 sec) (to_int32 usec) timing_lists False w)"
    using rg by (intro scan_lists [OF i subset_refl _ assms(2)]) (auto simp: timing_lists_def)
  from sure_result [OF this] obtain t v where v: "check_timing_lists e (to_int32 sec) (to_int32 usec) timing_lists False w = Inr (t, v)"
    and c: "cleared A (to_int32 sec) (to_int32 usec) (set timing_lists) D L K F v" by (elim exE conjE case_prodE) simp
  define w' where "w' = (if t then esq_session_update_polling_interval v else v)"
  have w': "esq_session_timing e w = Inr w'" "heap w' = heap v" "lists w' = lists v"
    unfolding esq_session_timing_def timing_lists_def [symmetric] assms(3) option.case prod.case v w'_def
    by (simp_all add: esq_session_update_polling_interval_def)
  obtain D' L' where d: "absw D' L' v" "\<forall>l \<in> set timing_lists. L' l = filter (\<lambda>b. \<not> ?ex (the (D b))) (L l)"
    "\<forall>l \<in> set timing_lists. \<forall>b \<in> set (L l). ?ex (the (D b)) \<longrightarrow> (\<exists>s'. D' b = Some s' \<and> timed_out s')"
    using c unfolding cleared_def inv_def by blast
  have "\<exists>s. heap w' a = Some s \<and> event_bits s AND ucast ESQ_EVENT_BIT_TIMEOUT = ucast ESQ_EVENT_BIT_TIMEOUT \<and>
      lc s \<in> {PT_active, PT_wait_for_removed_then_active}"
    if a: "l \<in> set timing_lists" "a \<in> set (L l)" "?ex (the (heap w a))" for l a
  proof -
    obtain s' where s': "D' a = Some s'" "timed_out s'" using d(3) a exD [OF a(2)] by blast
    then obtain s where "heap w' a = Some s" "strip s = s'" using d(1) w'(2) by (auto simp: absw_def)
    then show ?thesis using s'(2) by (auto simp: woken_def strip_def)
  qed
  moreover have "lists_ok L w" "lists_ok L' w'" using ab d(1) w'(2,3) by (simp_all add: absw_def lists_ok_def)
  ultimately show "\<exists>L w' L'. lists_ok L w \<and> esq_session_timing e w = Inr w' \<and> lists_ok L' w' \<and>
      (\<forall>l \<in> set timing_lists. L' l = filter (\<lambda>a. \<not> ?ex (the (heap w a))) (L l) \<and>
        (\<forall>a \<in> set (L l). ?ex (the (heap w a)) \<longrightarrow> (\<exists>s. heap w' a = Some s \<and>
           event_bits s AND ucast ESQ_EVENT_BIT_TIMEOUT = ucast ESQ_EVENT_BIT_TIMEOUT \<and>
           lc s \<in> {PT_active, PT_wait_for_removed_then_active})))"
    using w'(1) d(2) [unfolded fl] by (intro exI [where x = L], intro exI [where x = w'], intro exI [where x = L']) simp
  show "\<forall>s. timeoutms s = 0 \<and> wind_up_ms s \<in> {0..<1000000} \<and> usec \<in> {0..<1000000} \<longrightarrow>
      (?ex s \<longleftrightarrow> deadline_usec s < to_int32 sec * 1000000 + usec)"
    using expired_seconds to_int32_id [of usec] by auto
qed

theorem timer_scan_exact_witness:
  "head (lists ex_armed L_1s_to_10s) = Some 0 \<and>
   (\<exists>w' L' s. esq_session_timing ex_late ex_armed = Inr w' \<and> lists_ok L' w' \<and> 0 \<notin> set (L' L_1s_to_10s) \<and> heap w' 0 = Some s \<and>
      event_bits s AND ucast ESQ_EVENT_BIT_TIMEOUT = ucast ESQ_EVENT_BIT_TIMEOUT)"
proof -
  obtain s where s: "heap ex_armed 0 = Some s" "wind_up_s s = 100" "wind_up_ms s = 5" "timeouts s = 2" "timeoutms s = 0"
    using ex_armed_values(2) by auto
  have en: "enough ex_late {0}" by (simp add: enough_def ex_late_def ex_env_def)
  have rg: "in_range z" if "heap ex_armed a = Some z" for a z
    using reachable_alloc [OF ex_armed_reachable, of a] that s by (auto simp: in_range_def i32_def)
  have "gettimeofday ex_late = Some (200, 0)" by (simp add: ex_late_def)
  note scan = timer_scan_exact [OF ex_armed_reachable en this rg, THEN conjunct1]
  have t: "expired (to_int32 200) (to_int32 0) (the (heap ex_armed 0))" using s by (simp add: expired_def to_int32_id)
  obtain L w' L' where L: "lists_ok L ex_armed" "esq_session_timing ex_late ex_armed = Inr w'" "lists_ok L' w'"
    "L' L_1s_to_10s = filter (\<lambda>a. \<not> expired (to_int32 200) (to_int32 0) (the (heap ex_armed a))) (L L_1s_to_10s)"
    "\<forall>a \<in> set (L L_1s_to_10s). expired (to_int32 200) (to_int32 0) (the (heap ex_armed a)) \<longrightarrow> (\<exists>s. heap w' a = Some s \<and>
       event_bits s AND ucast ESQ_EVENT_BIT_TIMEOUT = ucast ESQ_EVENT_BIT_TIMEOUT \<and> lc s \<in> {PT_active, PT_wait_for_removed_then_active})"
    using scan unfolding timing_lists_def by force
  have "list_inv L_1s_to_10s (heap ex_armed) (lists ex_armed L_1s_to_10s) (L L_1s_to_10s)" using L(1) by (simp add: lists_ok_def)
  then have "0 \<in> set (L L_1s_to_10s)" using ex_armed_values(1) by (cases "L L_1s_to_10s") (auto simp: list_inv_def dll_def ends_def)
  moreover from this L(5) t obtain z where "heap w' 0 = Some z" "event_bits z AND ucast ESQ_EVENT_BIT_TIMEOUT = ucast ESQ_EVENT_BIT_TIMEOUT"
    by blast
  moreover have "0 \<notin> set (L' L_1s_to_10s)" using L(4) t by simp
  ultimately show ?thesis using L(2,3) ex_armed_values(1) by blast
qed

end
