(* ===== verification/Esq_Tree.thy ===== *)
theory Esq_Tree
  imports Esq_LinkList
begin

text \<open>
  The red-black tree of \<^verbatim>\<open>internal/tree.h\<close>, which the range map, the dashboard, the cookies and the file
  cache generate for their node types.  A tree is the value its links describe; the parent links of a node are
  the list of crumbs from the node up to the root, each with the side the node hangs on, the colour and
  element of the parent and the other subtree.  The two mirror branches of each loop are one case with
  the side as argument, and following a null pointer is \<open>None\<close>.
\<close>

section \<open>Trees and their links\<close>

datatype rb_color = RB_BLACK | RB_RED

lemma not_black [simp]: "c \<noteq> RB_BLACK \<longleftrightarrow> c = RB_RED"
  by (cases c) simp_all

lemma not_red [simp]: "c \<noteq> RB_RED \<longleftrightarrow> c = RB_BLACK"
  by (cases c) simp_all

datatype side = LEFT | RIGHT

datatype 'a rb = RB_NULL | RB_NODE rb_color "'a rb" 'a "'a rb"

type_synonym 'a crumb = "side \<times> rb_color \<times> 'a \<times> 'a rb"

primrec color :: "'a rb \<Rightarrow> rb_color" where
  "color RB_NULL = RB_BLACK"
| "color (RB_NODE c l a r) = c"

primrec set_color :: "rb_color \<Rightarrow> 'a rb \<Rightarrow> 'a rb" where
  "set_color d RB_NULL = RB_NULL"
| "set_color d (RB_NODE c l a r) = RB_NODE d l a r"

text \<open>A node whose child on side \<open>s\<close> is the first subtree.\<close>

fun on_side :: "side \<Rightarrow> rb_color \<Rightarrow> 'a rb \<Rightarrow> 'a \<Rightarrow> 'a rb \<Rightarrow> 'a rb" where
  "on_side LEFT c t a u = RB_NODE c t a u"
| "on_side RIGHT c t a u = RB_NODE c u a t"

fun seen_from :: "side \<Rightarrow> 'a rb \<Rightarrow> (rb_color \<times> 'a rb \<times> 'a \<times> 'a rb) option" where
  "seen_from s RB_NULL = None"
| "seen_from LEFT (RB_NODE c l a r) = Some (c, l, a, r)"
| "seen_from RIGHT (RB_NODE c l a r) = Some (c, r, a, l)"

fun other :: "side \<Rightarrow> side" where
  "other LEFT = RIGHT"
| "other RIGHT = LEFT"

primrec plug :: "'a rb \<Rightarrow> 'a crumb list \<Rightarrow> 'a rb" where
  "plug t [] = t"
| "plug t (q # ps) = (case q of (s, c, a, u) \<Rightarrow> plug (on_side s c t a u) ps)"

lemma plug_append: "plug t (ps @ qs) = plug (plug t ps) qs"
  by (induction ps arbitrary: t) (auto split: prod.splits)

text \<open>\<^verbatim>\<open>RB_ROTATE_LEFT\<close> and \<^verbatim>\<open>RB_ROTATE_RIGHT\<close>: the child on the other side moves up.\<close>

definition RB_ROTATE :: "side \<Rightarrow> 'a rb \<Rightarrow> 'a rb option" where
  "RB_ROTATE s t =
     (case seen_from s t of None \<Rightarrow> None | Some (c, x, a, tmp) \<Rightarrow>
      (case seen_from s tmp of None \<Rightarrow> None | Some (d, y, b, z) \<Rightarrow> Some (on_side s d (on_side s c x a y) b z)))"

section \<open>Search\<close>

text \<open>
  The argument \<open>cmp\<close> is the comparison of the wanted element with a node; it reads the node and may stop.
\<close>

primrec RB_FIND :: "('a \<Rightarrow> int res) \<Rightarrow> 'a rb \<Rightarrow> 'a option res" where
  "RB_FIND cmp RB_NULL = Inr None"
| "RB_FIND cmp (RB_NODE c l a r) =
     bindE (cmp a) (\<lambda>d. if d < 0 then RB_FIND cmp l else if d > 0 then RB_FIND cmp r else Inr (Some a))"

fun RB_MIN :: "'a rb \<Rightarrow> 'a option" where
  "RB_MIN RB_NULL = None"
| "RB_MIN (RB_NODE c l a r) = (if l = RB_NULL then Some a else RB_MIN l)"

section \<open>Insertion\<close>

fun RB_INSERT_COLOR :: "'a rb \<Rightarrow> 'a crumb list \<Rightarrow> 'a rb option" where
  "RB_INSERT_COLOR elm [] = Some (set_color RB_BLACK elm)"
| "RB_INSERT_COLOR elm ((s, RB_BLACK, p, u) # ps) = Some (set_color RB_BLACK (plug elm ((s, RB_BLACK, p, u) # ps)))"
| "RB_INSERT_COLOR elm [(s, RB_RED, p, u)] = None"
| "RB_INSERT_COLOR elm ((s, RB_RED, p, u) # (g, c, gp, tmp) # ps) =
     (if color tmp = RB_RED
      then RB_INSERT_COLOR (on_side g RB_RED (on_side s RB_BLACK elm p u) gp (set_color RB_BLACK tmp)) ps
      else
        case (if s = g then Some (on_side s RB_RED elm p u) else RB_ROTATE g (on_side s RB_RED elm p u)) of
          None \<Rightarrow> None
        | Some parent \<Rightarrow>
            map_option (\<lambda>top. set_color RB_BLACK (plug top ps))
              (RB_ROTATE (other g) (on_side g RB_RED (set_color RB_BLACK parent) gp tmp)))"

fun RB_INSERT_at :: "('a \<Rightarrow> int res) \<Rightarrow> 'a \<Rightarrow> 'a rb \<Rightarrow> 'a rb \<Rightarrow> 'a crumb list \<Rightarrow> ('a option \<times> 'a rb) res" where
  "RB_INSERT_at cmp elm root RB_NULL ps =
     of_opt (map_option (\<lambda>t. (None, t)) (RB_INSERT_COLOR (RB_NODE RB_RED RB_NULL elm RB_NULL) ps))"
| "RB_INSERT_at cmp elm root (RB_NODE c l a r) ps =
     bindE (cmp a) (\<lambda>d.
     if d < 0 then RB_INSERT_at cmp elm root l ((LEFT, c, a, r) # ps)
     else if d > 0 then RB_INSERT_at cmp elm root r ((RIGHT, c, a, l) # ps)
     else Inr (Some a, root))"

definition RB_INSERT :: "('a \<Rightarrow> int res) \<Rightarrow> 'a \<Rightarrow> 'a rb \<Rightarrow> ('a option \<times> 'a rb) res" where
  "RB_INSERT cmp elm root = RB_INSERT_at cmp elm root root []"

section \<open>Removal\<close>

text \<open>The sibling of the removed place: a red one is rotated above the parent first.\<close>

definition RB_BLACK_SIBLING ::
    "side \<Rightarrow> rb_color \<Rightarrow> 'a \<Rightarrow> 'a rb \<Rightarrow> 'a crumb list \<Rightarrow> (rb_color \<times> 'a rb \<times> 'a crumb list) option" where
  "RB_BLACK_SIBLING s c p tmp ps =
     (case seen_from s tmp of None \<Rightarrow> None | Some (d, x, b, y) \<Rightarrow>
        Some (if d = RB_RED then (RB_RED, x, (s, RB_BLACK, b, y) # ps) else (c, tmp, ps)))"

text \<open>A black sibling with a red child: it takes the colour of the parent and moves above it.\<close>

definition RB_LIFT_SIBLING ::
    "side \<Rightarrow> rb_color \<Rightarrow> 'a \<Rightarrow> 'a rb \<Rightarrow> 'a rb \<Rightarrow> 'a \<Rightarrow> 'a rb \<Rightarrow> 'a rb option" where
  "RB_LIFT_SIBLING s c p elm x b y =
     (if color y = RB_BLACK
      then map_option (\<lambda>(e, x1, k, x2). on_side s c (on_side s RB_BLACK elm p x1) k (on_side s RB_BLACK x2 b y)) (seen_from s x)
      else Some (on_side s c (on_side s RB_BLACK elm p x) b (set_color RB_BLACK y)))"

lemma color_on_side [simp]: "color (on_side s c t a u) = c"
  by (cases s) simp_all

lemma seen_from_on_side [simp]: "seen_from s (on_side s c t a u) = Some (c, t, a, u)"
  by (cases s) simp_all

lemma on_side_inject [simp]: "on_side s c t a u = on_side s d x b y \<longleftrightarrow> c = d \<and> t = x \<and> a = b \<and> u = y"
  by (cases s) auto

lemma seen_from_SomeD: "seen_from s t = Some (c, x, a, y) \<Longrightarrow> t = on_side s c x a y"
  by (cases "(s, t)" rule: seen_from.cases) auto

function RB_REMOVE_COLOR :: "'a rb \<Rightarrow> 'a crumb list \<Rightarrow> 'a rb option" where
  "RB_REMOVE_COLOR elm [] = Some (set_color RB_BLACK elm)"
| "RB_REMOVE_COLOR elm ((s, c, p, tmp) # ps) =
     (if color elm = RB_RED then Some (plug (set_color RB_BLACK elm) ((s, c, p, tmp) # ps))
      else
        case RB_BLACK_SIBLING s c p tmp ps of None \<Rightarrow> None | Some (c, tmp, ps') \<Rightarrow>
        (case seen_from s tmp of None \<Rightarrow> None | Some (d, x, b, y) \<Rightarrow>
           if color x = RB_BLACK \<and> color y = RB_BLACK
           then RB_REMOVE_COLOR (on_side s c elm p (set_color RB_RED tmp)) ps'
           else map_option (\<lambda>top. set_color RB_BLACK (plug top ps')) (RB_LIFT_SIBLING s c p elm x b y)))"
  by pat_completeness auto
termination
  by (relation "measure (\<lambda>(t, ps). length ps + (if color t = RB_BLACK then 1 else 0))")
    (auto simp: RB_BLACK_SIBLING_def split: if_splits option.splits)

fun RB_LEFTMOST :: "'a rb \<Rightarrow> 'a crumb list \<Rightarrow> (rb_color \<times> 'a \<times> 'a rb \<times> 'a crumb list) option" where
  "RB_LEFTMOST RB_NULL ps = None"
| "RB_LEFTMOST (RB_NODE c l a r) ps = (if l = RB_NULL then Some (c, a, r, ps) else RB_LEFTMOST l ((LEFT, c, a, r) # ps))"

text \<open>The links of the node \<open>elm\<close>: its subtree and its way to the root.\<close>

fun RB_LINKS :: "'a \<Rightarrow> 'a rb \<Rightarrow> 'a crumb list \<Rightarrow> (rb_color \<times> 'a rb \<times> 'a rb \<times> 'a crumb list) option" where
  "RB_LINKS elm RB_NULL ps = None"
| "RB_LINKS elm (RB_NODE c l a r) ps =
     (if a = elm then Some (c, l, r, ps)
      else case RB_LINKS elm l ((LEFT, c, a, r) # ps) of
             None \<Rightarrow> RB_LINKS elm r ((RIGHT, c, a, l) # ps)
           | Some x \<Rightarrow> Some x)"

definition RB_UNLINK :: "rb_color \<Rightarrow> 'a rb \<Rightarrow> 'a crumb list \<Rightarrow> 'a rb option" where
  "RB_UNLINK c child ps = (if c = RB_BLACK then RB_REMOVE_COLOR child ps else Some (plug child ps))"

definition RB_REMOVE :: "'a \<Rightarrow> 'a rb \<Rightarrow> 'a rb option" where
  "RB_REMOVE elm root =
     (case RB_LINKS elm root [] of None \<Rightarrow> None | Some (c, l, r, ps) \<Rightarrow>
        if l = RB_NULL then RB_UNLINK c r ps
        else if r = RB_NULL then RB_UNLINK c l ps
        else case RB_LEFTMOST r [] of None \<Rightarrow> None | Some (d, succ, child, qs) \<Rightarrow>
          RB_UNLINK d child (qs @ (RIGHT, c, succ, l) # ps))"

section \<open>Traversal\<close>

fun RB_CLIMB :: "'a crumb list \<Rightarrow> 'a option" where
  "RB_CLIMB [] = None"
| "RB_CLIMB ((LEFT, c, a, u) # ps) = Some a"
| "RB_CLIMB ((RIGHT, c, a, u) # ps) = RB_CLIMB ps"

definition RB_NEXT :: "'a \<Rightarrow> 'a rb \<Rightarrow> 'a option" where
  "RB_NEXT elm root =
     (case RB_LINKS elm root [] of None \<Rightarrow> None | Some (c, l, r, ps) \<Rightarrow>
        if r \<noteq> RB_NULL then RB_MIN r else RB_CLIMB ps)"

fun rb_size :: "'a rb \<Rightarrow> nat" where
  "rb_size RB_NULL = 0"
| "rb_size (RB_NODE c l a r) = rb_size l + 1 + rb_size r"

text \<open>The elements a \<^verbatim>\<open>RB_FOREACH\<close> loop visits; a loop over an unchanged tree ends within its size.\<close>

primrec rb_visit :: "nat \<Rightarrow> 'a option \<Rightarrow> 'a rb \<Rightarrow> 'a list" where
  "rb_visit 0 x t = []"
| "rb_visit (Suc n) x t = (case x of None \<Rightarrow> [] | Some a \<Rightarrow> a # rb_visit n (RB_NEXT a t) t)"

definition RB_FOREACH :: "'a rb \<Rightarrow> 'a list" where
  "RB_FOREACH t = rb_visit (rb_size t + 1) (RB_MIN t) t"

section \<open>In-order contents\<close>

primrec inorder :: "'a rb \<Rightarrow> 'a list" where
  "inorder RB_NULL = []"
| "inorder (RB_NODE c l a r) = inorder l @ a # inorder r"

fun before :: "'a crumb list \<Rightarrow> 'a list" where
  "before [] = []"
| "before ((LEFT, c, a, u) # ps) = before ps"
| "before ((RIGHT, c, a, u) # ps) = before ps @ inorder u @ [a]"

fun after :: "'a crumb list \<Rightarrow> 'a list" where
  "after [] = []"
| "after ((LEFT, c, a, u) # ps) = a # inorder u @ after ps"
| "after ((RIGHT, c, a, u) # ps) = after ps"

lemma before_append [simp]: "before (ps @ qs) = before qs @ before ps"
  by (induction ps rule: before.induct) simp_all

lemma after_append [simp]: "after (ps @ qs) = after ps @ after qs"
  by (induction ps rule: after.induct) simp_all

named_theorems rb_simps "the in-order contents and the shape of restructured trees"

lemma inorder_set_color [rb_simps]: "inorder (set_color c t) = inorder t"
  by (cases t) simp_all

lemma inorder_on_side [rb_simps]:
  "inorder (on_side s c t a u) = (case s of LEFT \<Rightarrow> inorder t @ a # inorder u | RIGHT \<Rightarrow> inorder u @ a # inorder t)"
  by (cases s) simp_all

lemma inorder_plug [rb_simps]: "inorder (plug t ps) = before ps @ inorder t @ after ps"
  by (induction ps arbitrary: t) (auto simp: inorder_on_side split: side.splits)

lemma around_crumb:
  "before ((s, c, a, u) # ps) @ inorder t @ after ((s, c, a, u) # ps) = before ps @ inorder (on_side s c t a u) @ after ps"
  by (cases s) simp_all

lemma inorder_rotate: "RB_ROTATE s t = Some u \<Longrightarrow> inorder u = inorder t"
  by (auto simp: RB_ROTATE_def rb_simps split: option.splits side.splits dest!: seen_from_SomeD)

lemma inorder_insert_color: "RB_INSERT_COLOR t ps = Some u \<Longrightarrow> inorder u = before ps @ inorder t @ after ps"
proof (induction t ps arbitrary: u rule: RB_INSERT_COLOR.induct)
  case (4 elm s p u' g c gp tmp ps)
  then show ?case
    by (cases s; cases g) (auto simp: rb_simps split: if_splits option.splits dest!: inorder_rotate)
qed (simp_all only: RB_INSERT_COLOR.simps option.inject, auto simp: around_crumb inorder_plug inorder_set_color)

lemma inorder_black_sibling:
  "RB_BLACK_SIBLING s c p tmp ps = Some (c', tmp', ps') \<Longrightarrow>
     inorder (plug (on_side s c' t p tmp') ps') = inorder (plug (on_side s c t p tmp) ps)"
  by (cases s) (auto simp: RB_BLACK_SIBLING_def rb_simps split: option.splits if_splits dest!: seen_from_SomeD)

lemma inorder_lift_sibling:
  "RB_LIFT_SIBLING s c p t x b y = Some u \<Longrightarrow> inorder u = inorder (on_side s c t p (on_side s d x b y))"
  by (cases s) (auto simp: RB_LIFT_SIBLING_def rb_simps split: if_splits dest!: seen_from_SomeD)

lemma inorder_remove_color: "RB_REMOVE_COLOR t ps = Some u \<Longrightarrow> inorder u = before ps @ inorder t @ after ps"
proof (induction t ps arbitrary: u rule: RB_REMOVE_COLOR.induct)
  case (2 elm s c p tmp ps)
  show ?case
  proof (cases "color elm = RB_RED")
    case False
    obtain c' tmp' ps' d x b y where *: "RB_BLACK_SIBLING s c p tmp ps = Some (c', tmp', ps')" "seen_from s tmp' = Some (d, x, b, y)"
      using 2(2) False by (auto split: option.splits)
    have tmp': "tmp' = on_side s d x b y" using *(2) by (rule seen_from_SomeD)
    have "inorder u = inorder (plug (on_side s c' elm p tmp') ps')"
    proof (cases "color x = RB_BLACK \<and> color y = RB_BLACK")
      case True
      then have "inorder u = before ps' @ inorder (on_side s c' elm p (set_color RB_RED tmp')) @ after ps'"
        using 2 False * by simp
      then show ?thesis by (cases s) (simp_all add: rb_simps)
    next
      case no: False
      then show ?thesis using 2(2) False * tmp' by (auto simp: rb_simps dest!: inorder_lift_sibling [where d = d])
    qed
    then show ?thesis using inorder_black_sibling [OF *(1)] by (cases s) (simp_all add: rb_simps)
  next
    case True
    then have "u = plug (on_side s c (set_color RB_BLACK elm) p tmp) ps" using 2(2) by simp
    then show ?thesis by (cases s) (simp_all add: rb_simps)
  qed
qed (auto simp: rb_simps)

lemma inorder_leftmost: "RB_LEFTMOST t ps = Some (d, a, r, qs) \<Longrightarrow>
    \<exists>rs. qs = rs @ ps \<and> before rs = [] \<and> inorder t = a # inorder r @ after rs"
proof (induction t ps rule: RB_LEFTMOST.induct)
  case (2 c l a' r' ps)
  show ?case
  proof (cases "l = RB_NULL")
    case False
    then obtain rs where "qs = rs @ (LEFT, c, a', r') # ps" "before rs = []" "inorder l = a # inorder r @ after rs"
      using 2 by auto
    then show ?thesis by (intro exI [of _ "rs @ [(LEFT, c, a', r')]"]) (simp add: rb_simps)
  qed (use 2 in auto)
qed simp


lemma links_plug: "RB_LINKS elm t ps = Some (c, l, r, qs) \<Longrightarrow> plug (RB_NODE c l elm r) qs = plug t ps"
proof (induction t arbitrary: ps)
  case (RB_NODE d t1 a t2)
  show ?case
  proof (cases "a = elm")
    case False
    show ?thesis
    proof (cases "RB_LINKS elm t1 ((LEFT, d, a, t2) # ps)")
      case None
      then show ?thesis using False RB_NODE(2) [of "(RIGHT, d, a, t1) # ps"] RB_NODE(3) by simp
    next
      case (Some z)
      then show ?thesis using False RB_NODE(1) [of "(LEFT, d, a, t2) # ps"] RB_NODE(3) by simp
    qed
  qed (use RB_NODE(3) in auto)
qed simp

lemma links_None: "RB_LINKS elm t ps = None \<longleftrightarrow> elm \<notin> set (inorder t)"
  by (induction t arbitrary: ps) (auto split: option.splits, metis option.distinct(1))

section \<open>Order\<close>

text \<open>What the comparison with a wanted element promises on the elements \<open>V\<close> of a tree: it is the order of a key.\<close>

locale rb_query =
  fixes cmp :: "'a \<Rightarrow> int res" and key :: "'a \<Rightarrow> 'k::linorder" and k :: 'k and V :: "'a set"
  assumes cmp_order: "a \<in> V \<Longrightarrow> \<exists>d. cmp a = Inr d \<and> (d < 0 \<longleftrightarrow> k < key a) \<and> (d > 0 \<longleftrightarrow> key a < k)"
begin

lemma cmp_cases:
  assumes "a \<in> V"
  obtains (less) d where "cmp a = Inr d" "d < 0" "k < key a"
    | (greater) d where "cmp a = Inr d" "d > 0" "\<not> d < 0" "key a < k"
    | (equal) "cmp a = Inr 0" "key a = k"
proof -
  obtain d where "cmp a = Inr d" "d < 0 \<longleftrightarrow> k < key a" "d > 0 \<longleftrightarrow> key a < k" using cmp_order [OF assms] by blast
  then show thesis using that by (cases "d = 0") (auto simp: neq_iff)
qed

lemma find_complete:
  assumes "sorted_wrt (<) (map key (inorder t))" "set (inorder t) \<subseteq> V"
  shows "\<exists>x. RB_FIND cmp t = Inr x \<and> (\<forall>a. x = Some a \<longleftrightarrow> a \<in> set (inorder t) \<and> key a = k)"
  using assms
proof (induction t)
  case (RB_NODE c l b r)
  have b: "b \<in> V" using RB_NODE(4) by simp
  have srt: "sorted_wrt (<) (map key (inorder l))" "sorted_wrt (<) (map key (inorder r))"
    "\<forall>x \<in> set (inorder l). key x < key b" "\<forall>y \<in> set (inorder r). key b < key y"
    using RB_NODE(3) by (auto simp: sorted_wrt_append)
  from b show ?case
  proof (cases rule: cmp_cases)
    case less
    then show ?thesis using RB_NODE(1) [OF srt(1)] RB_NODE(4) srt(3,4) by fastforce
  next
    case greater
    then show ?thesis using RB_NODE(2) [OF srt(2)] RB_NODE(4) srt(3,4) by fastforce
  next
    case equal
    then show ?thesis using srt(3,4) by auto
  qed
qed simp

lemma find_iff:
  assumes "sorted_wrt (<) (map key (inorder t))" "set (inorder t) \<subseteq> V"
  shows "RB_FIND cmp t = Inr (Some a) \<longleftrightarrow> a \<in> set (inorder t) \<and> key a = k"
proof -
  obtain x where "RB_FIND cmp t = Inr x" "x = Some a \<longleftrightarrow> a \<in> set (inorder t) \<and> key a = k"
    using find_complete [OF assms] by blast
  then show ?thesis by simp
qed

lemma find_None:
  assumes "sorted_wrt (<) (map key (inorder t))" "set (inorder t) \<subseteq> V"
  shows "RB_FIND cmp t = Inr None \<longleftrightarrow> k \<notin> key ` set (inorder t)"
proof -
  obtain x where x: "RB_FIND cmp t = Inr x" "\<And>a. x = Some a \<longleftrightarrow> a \<in> set (inorder t) \<and> key a = k"
    using find_complete [OF assms] by blast
  show ?thesis
  proof (cases x)
    case None
    then have "k \<notin> key ` set (inorder t)" using x(2) by blast
    then show ?thesis using x(1) None by simp
  next
    case (Some a)
    then have "k \<in> key ` set (inorder t)" using x(2) [of a] by blast
    then show ?thesis using x(1) Some by simp
  qed
qed

text \<open>Where the descent of an insertion ends.\<close>

lemma insert_at_existing:
  assumes "sorted_wrt (<) (map key (inorder t))" "set (inorder t) \<subseteq> V" "k \<in> key ` set (inorder t)"
  shows "RB_INSERT_at cmp elm root t ps = bindE (RB_FIND cmp t) (\<lambda>x. Inr (x, root))"
  using assms
proof (induction t arbitrary: ps)
  case (RB_NODE c l a r)
  have a: "a \<in> V" using RB_NODE(4) by simp
  then show ?case
  proof (cases rule: cmp_cases)
    case less
    then show ?thesis using RB_NODE by (force simp: sorted_wrt_append)
  next
    case greater
    then show ?thesis using RB_NODE by (force simp: sorted_wrt_append)
  next
    case equal
    then show ?thesis by simp
  qed
qed simp

lemma insert_at_new:
  assumes "sorted_wrt (<) (map key (inorder t))" "set (inorder t) \<subseteq> V" "k \<notin> key ` set (inorder t)"
  shows "\<exists>qs. RB_INSERT_at cmp elm root t ps =
       of_opt (map_option (\<lambda>t. (None, t)) (RB_INSERT_COLOR (RB_NODE RB_RED RB_NULL elm RB_NULL) (qs @ ps))) \<and>
     plug RB_NULL qs = t \<and> inorder t = before qs @ after qs \<and>
     (\<forall>x \<in> set (before qs). key x < k) \<and> (\<forall>y \<in> set (after qs). k < key y)"
  using assms
proof (induction t arbitrary: ps)
  case RB_NULL
  then show ?case by (intro exI [of _ "[]"]) simp
next
  case (RB_NODE c l a r)
  have srt: "sorted_wrt (<) (map key (inorder l))" "sorted_wrt (<) (map key (inorder r))"
    "\<forall>x \<in> set (inorder l). key x < key a" "\<forall>y \<in> set (inorder r). key a < key y"
    using RB_NODE(3) by (auto simp: sorted_wrt_append)
  have "a \<in> V" using RB_NODE(4) by simp
  then show ?case
  proof (cases rule: cmp_cases)
    case less
    obtain qs where qs: "RB_INSERT_at cmp elm root l ((LEFT, c, a, r) # ps) =
        of_opt (map_option (\<lambda>t. (None, t)) (RB_INSERT_COLOR (RB_NODE RB_RED RB_NULL elm RB_NULL) (qs @ (LEFT, c, a, r) # ps)))"
        "plug RB_NULL qs = l" "inorder l = before qs @ after qs"
        "\<forall>x \<in> set (before qs). key x < k" "\<forall>y \<in> set (after qs). k < key y"
      using RB_NODE(1) [OF srt(1), of "(LEFT, c, a, r) # ps"] RB_NODE(4,5) by fastforce
    have "plug RB_NULL (qs @ [(LEFT, c, a, r)]) = RB_NODE c l a r" using qs(2) by (simp add: plug_append)
    then show ?thesis using qs srt less
      by (intro exI [of _ "qs @ [(LEFT, c, a, r)]"]) fastforce
  next
    case greater
    obtain qs where qs: "RB_INSERT_at cmp elm root r ((RIGHT, c, a, l) # ps) =
        of_opt (map_option (\<lambda>t. (None, t)) (RB_INSERT_COLOR (RB_NODE RB_RED RB_NULL elm RB_NULL) (qs @ (RIGHT, c, a, l) # ps)))"
        "plug RB_NULL qs = r" "inorder r = before qs @ after qs"
        "\<forall>x \<in> set (before qs). key x < k" "\<forall>y \<in> set (after qs). k < key y"
      using RB_NODE(2) [OF srt(2), of "(RIGHT, c, a, l) # ps"] RB_NODE(4,5) by fastforce
    have "plug RB_NULL (qs @ [(RIGHT, c, a, l)]) = RB_NODE c l a r" using qs(2) by (simp add: plug_append)
    then show ?thesis using qs srt greater
      by (intro exI [of _ "qs @ [(RIGHT, c, a, l)]"]) fastforce
  next
    case equal
    then show ?thesis using RB_NODE(5) by simp
  qed
qed

end

section \<open>Balance\<close>

primrec bheight :: "'a rb \<Rightarrow> nat" where
  "bheight RB_NULL = 0"
| "bheight (RB_NODE c l a r) = bheight l + (if c = RB_BLACK then 1 else 0)"

text \<open>Every way from a node to a leaf has the same number of black nodes, and a red node has black children.\<close>

primrec even_black :: "'a rb \<Rightarrow> bool" where
  "even_black RB_NULL = True"
| "even_black (RB_NODE c l a r) = (even_black l \<and> even_black r \<and> bheight l = bheight r)"

primrec no_red_red :: "'a rb \<Rightarrow> bool" where
  "no_red_red RB_NULL = True"
| "no_red_red (RB_NODE c l a r) =
     (no_red_red l \<and> no_red_red r \<and> (c = RB_RED \<longrightarrow> color l = RB_BLACK \<and> color r = RB_BLACK))"

definition balanced :: "'a rb \<Rightarrow> bool" where
  "balanced t \<longleftrightarrow> even_black t \<and> no_red_red t \<and> color t = RB_BLACK"

text \<open>The same conditions on the way from a place to the root, for a tree of black height \<open>n\<close> at the place.\<close>

primrec even_path :: "nat \<Rightarrow> 'a crumb list \<Rightarrow> bool" where
  "even_path n [] = True"
| "even_path n (q # ps) = (case q of (s, c, a, u) \<Rightarrow>
     even_black u \<and> bheight u = n \<and> even_path (n + (if c = RB_BLACK then 1 else 0)) ps)"

fun under_black :: "'a crumb list \<Rightarrow> bool" where
  "under_black [] = False"
| "under_black ((s, c, a, u) # ps) = (c = RB_BLACK)"

primrec calm_path :: "'a crumb list \<Rightarrow> bool" where
  "calm_path [] = True"
| "calm_path (q # ps) = (case q of (s, c, a, u) \<Rightarrow>
     no_red_red u \<and> (c = RB_RED \<longrightarrow> color u = RB_BLACK \<and> under_black ps) \<and> calm_path ps)"

lemma bheight_on_side [simp]: "bheight t = bheight u \<Longrightarrow> bheight (on_side s c t a u) = bheight t + (if c = RB_BLACK then 1 else 0)"
  by (cases s) simp_all

lemma even_black_on_side [simp]: "even_black (on_side s c t a u) \<longleftrightarrow> even_black t \<and> even_black u \<and> bheight t = bheight u"
  by (cases s) auto

lemma no_red_red_on_side [simp]:
  "no_red_red (on_side s c t a u) \<longleftrightarrow>
     no_red_red t \<and> no_red_red u \<and> (c = RB_RED \<longrightarrow> color t = RB_BLACK \<and> color u = RB_BLACK)"
  by (cases s) auto

lemma even_black_set_color [simp]: "even_black (set_color c t) = even_black t"
  by (cases t) auto

lemma no_red_red_black: "no_red_red t \<Longrightarrow> no_red_red (set_color RB_BLACK t)"
  by (cases t) auto

lemma color_set_black [simp]: "color (set_color RB_BLACK t) = RB_BLACK"
  by (cases t) simp_all

lemma set_color_same: "color t = RB_BLACK \<Longrightarrow> set_color RB_BLACK t = t"
  by (cases t) simp_all

lemma bheight_set_black: "color t = RB_RED \<Longrightarrow> bheight (set_color RB_BLACK t) = bheight t + 1"
  by (cases t) simp_all

lemma set_color_on_side [simp]: "set_color d (on_side s c t a u) = on_side s d t a u"
  by (cases s) simp_all

lemma even_black_plug: "even_black (plug t ps) \<longleftrightarrow> even_black t \<and> even_path (bheight t) ps"
proof (induction ps arbitrary: t)
  case (Cons q ps)
  obtain s c a u where q: "q = (s, c, a, u)" by (cases q)
  show ?case by (cases "bheight u = bheight t") (auto simp: q Cons.IH)
qed simp

lemma calm_plug: "no_red_red (plug t ps) \<and> color (plug t ps) = RB_BLACK \<longleftrightarrow>
    no_red_red t \<and> calm_path ps \<and> (color t = RB_RED \<longrightarrow> under_black ps)"
proof (induction ps arbitrary: t)
  case (Cons q ps)
  obtain s c a u where q: "q = (s, c, a, u)" by (cases q)
  show ?case by (cases c) (auto simp: q Cons.IH)
qed simp

lemma balanced_plug:
  "balanced (plug t ps) \<longleftrightarrow> even_black t \<and> even_path (bheight t) ps \<and> no_red_red t \<and> calm_path ps \<and>
     (color t = RB_RED \<longrightarrow> under_black ps)"
  using even_black_plug [of t ps] calm_plug [of t ps] by (auto simp: balanced_def)

lemma insert_color_balanced:
  assumes "even_black t" "even_path (bheight t) ps" "no_red_red t" "color t = RB_RED" "calm_path ps"
  shows "\<exists>u. RB_INSERT_COLOR t ps = Some u \<and> balanced u"
  using assms
proof (induction t ps rule: RB_INSERT_COLOR.induct)
  case (1 elm)
  then show ?case by (simp add: balanced_def no_red_red_black)
next
  case (2 elm s p u ps)
  then have "balanced (plug elm ((s, RB_BLACK, p, u) # ps))" unfolding balanced_plug by simp
  moreover from this have "set_color RB_BLACK (plug elm ((s, RB_BLACK, p, u) # ps)) = plug elm ((s, RB_BLACK, p, u) # ps)"
    by (intro set_color_same) (simp add: balanced_def)
  ultimately show ?case by simp
next
  case (3 elm s p u)
  then show ?case by simp
next
  case (4 elm s p u g c gp tmp ps)
  have c: "c = RB_BLACK" using 4(6) by simp
  show ?case
  proof (cases "color tmp = RB_RED")
    case True
    then show ?thesis using 4 c by (simp add: bheight_set_black no_red_red_black)
  next
    case False
    define top where "top = (if s = g then on_side g RB_BLACK elm p (on_side g RB_RED u gp tmp)
      else case seen_from g elm of Some (d, x, b, y) \<Rightarrow> on_side g RB_BLACK (on_side g RB_RED u p x) b (on_side g RB_RED y gp tmp) | None \<Rightarrow> elm)"
    have "RB_INSERT_COLOR elm ((s, RB_RED, p, u) # (g, c, gp, tmp) # ps) = Some (set_color RB_BLACK (plug top ps))"
      using False 4(5) c by (cases s; cases g; cases elm) (auto simp: top_def RB_ROTATE_def)
    moreover have "balanced (plug top ps)"
      using False 4 c unfolding balanced_plug by (cases s; cases g; cases elm) (auto simp: top_def)
    ultimately show ?thesis by (auto simp: balanced_def set_color_same)
  qed
qed

lemma black_sibling_balanced:
  assumes "even_path (Suc n) ((s, c, p, tmp) # ps)" "calm_path ((s, c, p, tmp) # ps)"
  shows "\<exists>c' d x b y ps'. RB_BLACK_SIBLING s c p tmp ps = Some (c', on_side s d x b y, ps') \<and> d = RB_BLACK \<and>
    even_path (Suc n) ((s, c', p, on_side s d x b y) # ps') \<and> calm_path ((s, c', p, on_side s d x b y) # ps')"
proof -
  have "tmp \<noteq> RB_NULL" using assms(1) by auto
  then obtain d x b y where tmp: "tmp = on_side s d x b y" by (cases tmp; cases s) (metis on_side.simps rb.distinct(1))+
  have eq: "bheight x = bheight y" "even_black x" "even_black y" using assms(1) tmp by auto
  show ?thesis
  proof (cases d)
    case RB_RED
    then have "x \<noteq> RB_NULL" "color x = RB_BLACK" using assms tmp eq by auto
    then obtain x1 k x2 where "x = on_side s RB_BLACK x1 k x2" by (cases x; cases s) (metis on_side.simps color.simps)+
    then show ?thesis using RB_RED assms tmp eq by (auto simp: RB_BLACK_SIBLING_def)
  qed (use assms tmp in \<open>auto simp: RB_BLACK_SIBLING_def\<close>)
qed

lemma lift_sibling_balanced:
  assumes "even_black t" "even_path (Suc (bheight t)) ((s, c, p, on_side s RB_BLACK x b y) # ps)"
    and "no_red_red t" "color t = RB_BLACK" "calm_path ((s, c, p, on_side s RB_BLACK x b y) # ps)"
    and "\<not> (color x = RB_BLACK \<and> color y = RB_BLACK)"
  shows "\<exists>top. RB_LIFT_SIBLING s c p t x b y = Some top \<and> balanced (plug top ps)"
proof (cases "color y")
  case RB_RED
  then show ?thesis using assms unfolding balanced_plug
    by (auto simp: RB_LIFT_SIBLING_def balanced_plug bheight_set_black no_red_red_black)
next
  case RB_BLACK
  then have "color x = RB_RED" using assms(6) by simp
  then obtain x1 k x2 where "x = on_side s RB_RED x1 k x2" by (cases x; cases s) (metis on_side.simps color.simps rb_color.distinct(1))+
  then show ?thesis using RB_BLACK assms by (auto simp: RB_LIFT_SIBLING_def balanced_plug)
qed

lemma remove_color_balanced:
  assumes "even_black t" "even_path (Suc (bheight t)) ps" "no_red_red (set_color RB_BLACK t)" "calm_path ps"
  shows "\<exists>u. RB_REMOVE_COLOR t ps = Some u \<and> balanced u"
  using assms
proof (induction t ps rule: RB_REMOVE_COLOR.induct)
  case (1 elm)
  then show ?case by (simp add: balanced_def)
next
  case (2 t s c p tmp ps)
  show ?case
  proof (cases "color t = RB_RED")
    case True
    then have "balanced (plug (set_color RB_BLACK t) ((s, c, p, tmp) # ps))"
      using 2 unfolding balanced_plug by (simp add: bheight_set_black)
    then show ?thesis using True by simp
  next
    case False
    then have t: "color t = RB_BLACK" "no_red_red t" using 2(4) by (simp_all add: set_color_same)
    obtain c' x b y ps' where sib: "RB_BLACK_SIBLING s c p tmp ps = Some (c', on_side s RB_BLACK x b y, ps')"
      "even_path (Suc (bheight t)) ((s, c', p, on_side s RB_BLACK x b y) # ps')" "calm_path ((s, c', p, on_side s RB_BLACK x b y) # ps')"
      using black_sibling_balanced [OF 2(3,5)] by blast
    show ?thesis
    proof (cases "color x = RB_BLACK \<and> color y = RB_BLACK")
      case True
      have "\<exists>u. RB_REMOVE_COLOR (on_side s c' t p (set_color RB_RED (on_side s RB_BLACK x b y))) ps' = Some u \<and> balanced u"
        using True t sib 2(2) False by (intro 2(1) [OF _ sib(1)]) (auto simp: no_red_red_black)
      then show ?thesis using sib(1) True t by simp
    next
      case no: False
      obtain top where "RB_LIFT_SIBLING s c' p t x b y = Some top" "balanced (plug top ps')"
        using lift_sibling_balanced [OF 2(2) sib(2) t(2,1) sib(3) no] by blast
      then show ?thesis using sib(1) no t by (auto simp: set_color_same balanced_def)
    qed
  qed
qed

lemma unlink_balanced:
  assumes "balanced (plug (RB_NODE c l a r) ps)" "l = RB_NULL \<and> t = r \<or> r = RB_NULL \<and> t = l"
  shows "\<exists>u. RB_UNLINK c t ps = Some u \<and> balanced u \<and> inorder u = before ps @ inorder t @ after ps"
proof (cases c)
  case RB_RED
  then show ?thesis using assms by (auto simp: RB_UNLINK_def balanced_plug inorder_plug)
next
  case RB_BLACK
  have "no_red_red (set_color RB_BLACK t)" using assms by (auto simp: balanced_plug no_red_red_black)
  then obtain u where "RB_REMOVE_COLOR t ps = Some u" "balanced u"
    using RB_BLACK assms remove_color_balanced [of t ps] by (auto simp: balanced_plug)
  then show ?thesis using RB_BLACK by (auto simp: RB_UNLINK_def inorder_remove_color)
qed

lemma leftmost_exists: "t \<noteq> RB_NULL \<Longrightarrow> \<exists>d a r qs. RB_LEFTMOST t ps = Some (d, a, r, qs) \<and> plug (RB_NODE d RB_NULL a r) qs = plug t ps"
proof (induction t arbitrary: ps)
  case (RB_NODE c l a r)
  then show ?case using RB_NODE(1) [of "(LEFT, c, a, r) # ps"] by (cases "l = RB_NULL") auto
qed simp

section \<open>The operations\<close>

text \<open>Removal of a node of a balanced tree: no null pointer is followed, and the other nodes keep their order.\<close>

lemma remove_correct:
  assumes "balanced t" "elm \<in> set (inorder t)"
  shows "\<exists>u xs ys. RB_REMOVE elm t = Some u \<and> balanced u \<and> inorder t = xs @ elm # ys \<and> inorder u = xs @ ys"
proof -
  obtain c l r ps where l: "RB_LINKS elm t [] = Some (c, l, r, ps)" using assms(2) links_None [of elm t "[]"] by fastforce
  have t: "plug (RB_NODE c l elm r) ps = t" using links_plug [OF l] by simp
  then have b: "balanced (plug (RB_NODE c l elm r) ps)" using assms(1) by simp
  have io: "inorder t = (before ps @ inorder l) @ elm # inorder r @ after ps"
    using arg_cong [OF t, of inorder] by (simp add: inorder_plug)
  have "\<exists>u. RB_REMOVE elm t = Some u \<and> balanced u \<and> inorder u = (before ps @ inorder l) @ inorder r @ after ps"
  proof (cases "l = RB_NULL \<or> r = RB_NULL")
    case True
    define ch where "ch = (if l = RB_NULL then r else l)"
    obtain u where "RB_UNLINK c ch ps = Some u" "balanced u" "inorder u = before ps @ inorder ch @ after ps"
      using unlink_balanced [OF b, of ch] True by (auto simp: ch_def)
    then show ?thesis using l True io by (auto simp: RB_REMOVE_def ch_def)
  next
    case False
    then obtain d k r' qs where q: "RB_LEFTMOST r [] = Some (d, k, r', qs)" "plug (RB_NODE d RB_NULL k r') qs = r"
      using leftmost_exists [of r "[]"] by auto
    have w: "before qs = []" "inorder r = k # inorder r' @ after qs" using inorder_leftmost [OF q(1)] by auto
    let ?ps = "qs @ (RIGHT, c, k, l) # ps"
    have "balanced (plug (RB_NODE d RB_NULL k r') ?ps)"
      using b q(2) unfolding plug_append by (auto simp: balanced_plug split: if_splits)
    then obtain u where "RB_UNLINK d r' ?ps = Some u" "balanced u" "inorder u = before ?ps @ inorder r' @ after ?ps"
      using unlink_balanced [of d RB_NULL k r' ?ps r'] by blast
    then show ?thesis using l q(1) False w by (simp add: RB_REMOVE_def)
  qed
  then show ?thesis using io by blast
qed

context rb_query
begin

lemma insert_existing:
  assumes "sorted_wrt (<) (map key (inorder t))" "set (inorder t) \<subseteq> V" "k \<in> key ` set (inorder t)"
  shows "RB_INSERT cmp elm t = bindE (RB_FIND cmp t) (\<lambda>x. Inr (x, t))"
  using insert_at_existing [OF assms] by (simp add: RB_INSERT_def)

lemma insert_new:
  assumes "sorted_wrt (<) (map key (inorder t))" "set (inorder t) \<subseteq> V" "k \<notin> key ` set (inorder t)" "balanced t"
  shows "\<exists>u xs ys. RB_INSERT cmp elm t = Inr (None, u) \<and> balanced u \<and> inorder t = xs @ ys \<and> inorder u = xs @ elm # ys \<and>
    (\<forall>x \<in> set xs. key x < k) \<and> (\<forall>y \<in> set ys. k < key y)"
proof -
  obtain qs where q: "RB_INSERT_at cmp elm t t [] =
      of_opt (map_option (\<lambda>t. (None, t)) (RB_INSERT_COLOR (RB_NODE RB_RED RB_NULL elm RB_NULL) qs))"
    "plug RB_NULL qs = t" "inorder t = before qs @ after qs" "\<forall>x \<in> set (before qs). key x < k" "\<forall>y \<in> set (after qs). k < key y"
    using insert_at_new [OF assms(1-3), of elm t "[]"] by auto
  have "balanced (plug RB_NULL qs)" using assms(4) q(2) by simp
  then obtain u where u: "RB_INSERT_COLOR (RB_NODE RB_RED RB_NULL elm RB_NULL) qs = Some u" "balanced u"
    using insert_color_balanced [of "RB_NODE RB_RED RB_NULL elm RB_NULL" qs] by (auto simp: balanced_plug)
  have "inorder u = before qs @ elm # after qs" using inorder_insert_color [OF u(1)] by simp
  then show ?thesis using q u by (auto simp: RB_INSERT_def)
qed

lemma insert_new_sorted:
  assumes "sorted_wrt (<) (map key (inorder t))" "set (inorder t) \<subseteq> V" "k \<notin> key ` set (inorder t)" "balanced t" "key elm = k"
  shows "\<exists>u. RB_INSERT cmp elm t = Inr (None, u) \<and> balanced u \<and> sorted_wrt (<) (map key (inorder u)) \<and>
    set (inorder u) = insert elm (set (inorder t))"
proof -
  obtain u xs ys where u: "RB_INSERT cmp elm t = Inr (None, u)" "balanced u" "inorder t = xs @ ys" "inorder u = xs @ elm # ys"
      "\<forall>x \<in> set xs. key x < k" "\<forall>y \<in> set ys. k < key y"
    using insert_new [OF assms(1-4)] by blast
  then show ?thesis using assms(1,5) by (auto simp: sorted_wrt_append)
qed

end

section \<open>Traversal in order\<close>

lemma inorder_Nil [simp]: "inorder t = [] \<longleftrightarrow> t = RB_NULL"
  by (cases t) simp_all

definition front :: "'a list \<Rightarrow> 'a option" where
  "front xs = (case xs of [] \<Rightarrow> None | x # _ \<Rightarrow> Some x)"

lemma front_simps [simp]: "front [] = None" "front (x # xs) = Some x" "xs \<noteq> [] \<Longrightarrow> front (xs @ ys) = front xs"
  by (simp_all add: front_def split: list.splits)

lemma min_front: "RB_MIN t = front (inorder t)"
  by (induction t) auto

lemma climb_front: "RB_CLIMB ps = front (after ps)"
  by (induction ps rule: RB_CLIMB.induct) simp_all

lemma next_front:
  assumes "inorder t = xs @ a # ys" "distinct (inorder t)"
  shows "RB_NEXT a t = front ys"
proof -
  obtain c l r ps where l: "RB_LINKS a t [] = Some (c, l, r, ps)" using assms(1) links_None [of a t "[]"] by fastforce
  have "inorder t = (before ps @ inorder l) @ a # inorder r @ after ps"
    using arg_cong [OF links_plug [OF l], of inorder] by (simp add: inorder_plug)
  moreover have "a \<notin> set xs" "a \<notin> set ys" using assms by auto
  ultimately have "ys = inorder r @ after ps" using append_Cons_eq_iff [of a xs ys] assms(1) by metis
  then show ?thesis using l by (auto simp: RB_NEXT_def min_front climb_front)
qed

lemma visit_inorder:
  assumes "inorder t = xs @ ys" "distinct (inorder t)" "length ys < n"
  shows "rb_visit n (front ys) t = ys"
  using assms
proof (induction n arbitrary: xs ys)
  case (Suc n)
  show ?case
  proof (cases ys)
    case (Cons y zs)
    then show ?thesis using Suc.IH [of "xs @ [y]" zs] Suc.prems next_front [of t xs y zs] by simp
  qed simp
qed simp

lemma rb_size_inorder: "rb_size t = length (inorder t)"
  by (induction t) simp_all

lemma foreach_inorder: "distinct (inorder t) \<Longrightarrow> RB_FOREACH t = inorder t"
  unfolding RB_FOREACH_def min_front by (rule visit_inorder [of t "[]"]) (simp_all add: rb_size_inorder)

lemma sorted_distinct: "sorted_wrt (<) (map (key :: _ \<Rightarrow> _ :: linorder) xs) \<Longrightarrow> distinct xs"
  by (induction xs) auto

section \<open>Height\<close>

primrec rb_height :: "'a rb \<Rightarrow> nat" where
  "rb_height RB_NULL = 0"
| "rb_height (RB_NODE c l a r) = Suc (max (rb_height l) (rb_height r))"

lemma height_bheight: "even_black t \<Longrightarrow> no_red_red t \<Longrightarrow>
    rb_height t \<le> 2 * bheight t + (if color t = RB_RED then 1 else 0)"
  by (induction t) (auto split: if_splits)

lemma bheight_size: "even_black t \<Longrightarrow> 2 ^ bheight t \<le> rb_size t + 1"
  by (induction t) (auto split: if_splits)

lemma height_bound: "balanced t \<Longrightarrow> 2 ^ rb_height t \<le> (rb_size t + 1)\<^sup>2"
proof -
  assume b: "balanced t"
  have "(2::nat) ^ rb_height t \<le> 2 ^ (2 * bheight t)"
    using b height_bheight [of t] by (auto simp: balanced_def)
  also have "\<dots> = (2 ^ bheight t)\<^sup>2" by (simp add: power_mult mult.commute [of 2])
  also have "\<dots> \<le> (rb_size t + 1)\<^sup>2" using b bheight_size [of t] by (simp add: balanced_def power_mono)
  finally show ?thesis .
qed

section \<open>Sequences of operations\<close>

text \<open>What the clients of the tree do: insert an element, or find the element with a key and remove it.\<close>

datatype 'a rb_op = Insert 'a | Delete 'a

primrec rb_exec :: "('a \<Rightarrow> 'a \<Rightarrow> int res) \<Rightarrow> 'a rb_op \<Rightarrow> 'a rb \<Rightarrow> 'a rb res" where
  "rb_exec cmp (Insert a) t = bindE (RB_INSERT (cmp a) a t) (\<lambda>(x, t). Inr t)"
| "rb_exec cmp (Delete a) t =
     bindE (RB_FIND (cmp a) t) (\<lambda>x. case x of None \<Rightarrow> Inr t | Some b \<Rightarrow> of_opt (RB_REMOVE b t))"

primrec rb_arg :: "'a rb_op \<Rightarrow> 'a" where
  "rb_arg (Insert a) = a"
| "rb_arg (Delete a) = a"

definition rb_exec_all :: "('a \<Rightarrow> 'a \<Rightarrow> int res) \<Rightarrow> 'a rb_op list \<Rightarrow> 'a rb \<Rightarrow> 'a rb res" where
  "rb_exec_all cmp ops t = run (map (rb_exec cmp) ops) t"

text \<open>The specification: a finite map from keys to elements, in which the first element of a key stays.\<close>

primrec map_op :: "('a \<Rightarrow> 'k) \<Rightarrow> 'a rb_op \<Rightarrow> ('k \<Rightarrow> 'a option) \<Rightarrow> 'k \<Rightarrow> 'a option" where
  "map_op key (Insert a) m = (if m (key a) = None then m(key a \<mapsto> a) else m)"
| "map_op key (Delete a) m = m(key a := None)"

definition rb_abs :: "('a \<Rightarrow> 'k::linorder) \<Rightarrow> 'a rb \<Rightarrow> ('k \<Rightarrow> 'a option) \<Rightarrow> bool" where
  "rb_abs key t m \<longleftrightarrow> balanced t \<and> sorted_wrt (<) (map key (inorder t)) \<and>
     (\<forall>k a. m k = Some a \<longleftrightarrow> a \<in> set (inorder t) \<and> key a = k)"

lemma rb_abs_None: "rb_abs key t m \<Longrightarrow> m k = None \<longleftrightarrow> k \<notin> key ` set (inorder t)"
proof
  assume m: "rb_abs key t m" "k \<notin> key ` set (inorder t)"
  then show "m k = None" unfolding rb_abs_def by (metis image_eqI not_None_eq)
next
  assume "rb_abs key t m" "m k = None"
  then show "k \<notin> key ` set (inorder t)" unfolding rb_abs_def by (metis imageE option.distinct(1))
qed

lemma rb_abs_empty [simp]: "rb_abs key RB_NULL Map.empty"
  by (simp add: rb_abs_def balanced_def)

lemma rb_abs_ran: "rb_abs key t m \<Longrightarrow> set (inorder t) = ran m"
  unfolding rb_abs_def ran_def by blast

lemma rb_abs_foreach: "rb_abs key t m \<Longrightarrow> RB_FOREACH t = inorder t"
  using foreach_inorder sorted_distinct unfolding rb_abs_def by blast

lemma rb_abs_key: "(\<And>a. a \<in> ran m \<Longrightarrow> key' a = key a) \<Longrightarrow> rb_abs key t m \<Longrightarrow> rb_abs key' t m"
proof -
  assume k: "\<And>a. a \<in> ran m \<Longrightarrow> key' a = key a" and m: "rb_abs key t m"
  then have eq: "key' a = key a" if "a \<in> set (inorder t)" for a using rb_abs_ran [OF m] that by simp
  then have "map key' (inorder t) = map key (inorder t)" by simp
  moreover have "(a \<in> set (inorder t) \<and> key' a = k) = (a \<in> set (inorder t) \<and> key a = k)" for a k using eq by metis
  ultimately show ?thesis using m unfolding rb_abs_def by metis
qed

text \<open>The laws of a search tree, for clients: a query finds, inserts and removes as on a map.\<close>

context rb_query
begin

lemma find_abs: "rb_abs key t m \<Longrightarrow> ran m \<subseteq> V \<Longrightarrow> RB_FIND cmp t = Inr (m k)"
proof -
  assume m: "rb_abs key t m" "ran m \<subseteq> V"
  have iff: "RB_FIND cmp t = Inr (Some b) \<longleftrightarrow> m k = Some b" for b
    using m find_iff [of t b] rb_abs_ran [OF m(1)] by (simp add: rb_abs_def)
  have none: "RB_FIND cmp t = Inr None \<longleftrightarrow> m k = None"
    using m find_None [of t] rb_abs_None [OF m(1), of k] rb_abs_ran [OF m(1)] by (simp add: rb_abs_def)
  show ?thesis using iff none by (cases "m k") simp_all
qed

lemma insert_abs:
  assumes "rb_abs key t m" "ran m \<subseteq> V" "key a = k"
  shows "\<exists>u. RB_INSERT cmp a t = Inr (m k, u) \<and> rb_abs key u (map_op key (Insert a) m)"
proof (cases "m k")
  case (Some b)
  then have "k \<in> key ` set (inorder t)" using rb_abs_None [OF assms(1), of k] by auto
  moreover have "sorted_wrt (<) (map key (inorder t))" using assms by (simp add: rb_abs_def)
  ultimately have "RB_INSERT cmp a t = Inr (Some b, t)"
    using insert_existing [of t a] find_abs [OF assms(1,2)] Some rb_abs_ran [OF assms(1)] assms(2) by simp
  then show ?thesis using assms Some by simp
next
  case None
  then have n: "k \<notin> key ` set (inorder t)" using rb_abs_None [OF assms(1)] by simp
  then obtain u where "RB_INSERT cmp a t = Inr (None, u)" "balanced u" "sorted_wrt (<) (map key (inorder u))"
      "set (inorder u) = insert a (set (inorder t))"
    using insert_new_sorted [of t a] assms rb_abs_ran [OF assms(1)] by (auto simp: rb_abs_def)
  moreover have "key b \<noteq> k" if "b \<in> set (inorder t)" for b using n that by (metis imageI)
  ultimately show ?thesis using None assms by (auto simp: rb_abs_def)
qed

end

lemma remove_abs:
  assumes "rb_abs key t m" "m k = Some b"
  shows "\<exists>u. RB_REMOVE b t = Some u \<and> rb_abs key u (m(k := None))"
proof -
  have b: "b \<in> set (inorder t)" "key b = k" "balanced t" using assms by (auto simp: rb_abs_def)
  obtain u xs ys where u: "RB_REMOVE b t = Some u" "balanced u" "inorder t = xs @ b # ys" "inorder u = xs @ ys"
    using remove_correct [OF b(3,1)] by blast
  have s: "sorted_wrt (<) (map key (xs @ b # ys))" using assms(1) u(3) by (simp add: rb_abs_def)
  then have "sorted_wrt (<) (map key (xs @ ys))" "\<forall>c \<in> set xs \<union> set ys. key c \<noteq> k"
    using b(2) by (auto simp: sorted_wrt_append)
  then show ?thesis using u assms(1) b(2) by (auto simp: rb_abs_def)
qed

locale rb_client =
  fixes cmp :: "'a \<Rightarrow> 'a \<Rightarrow> int res" and key :: "'a \<Rightarrow> 'k::linorder" and V :: "'a set"
  assumes cmp_key: "a \<in> V \<Longrightarrow> b \<in> V \<Longrightarrow>
    \<exists>d. cmp a b = Inr d \<and> (d < 0 \<longleftrightarrow> key a < key b) \<and> (d > 0 \<longleftrightarrow> key b < key a)"
begin

lemma query: "a \<in> V \<Longrightarrow> rb_query (cmp a) key (key a) V"
  by unfold_locales (rule cmp_key)

lemma exec_abs:
  assumes "rb_abs key t m" "ran m \<subseteq> V" "rb_arg op \<in> V"
  shows "\<exists>u. rb_exec cmp op t = Inr u \<and> rb_abs key u (map_op key op m) \<and> ran (map_op key op m) \<subseteq> V"
proof (cases op)
  case (Insert a)
  have "ran (m(key a \<mapsto> a)) \<subseteq> insert a (ran m)" by (auto simp: ran_def)
  then have "ran (map_op key (Insert a) m) \<subseteq> V" using assms(2,3) Insert by auto
  then show ?thesis using rb_query.insert_abs [OF query assms(1,2), of a a] assms(3) Insert by auto
next
  case (Delete a)
  then have f: "RB_FIND (cmp a) t = Inr (m (key a))"
    using rb_query.find_abs [OF query assms(1,2)] assms(3) by simp
  have "ran (m(key a := None)) \<subseteq> V" using assms(2) by (auto simp: ran_def)
  then show ?thesis using f Delete remove_abs [OF assms(1), of "key a"] assms(1)
    by (cases "m (key a)") (auto simp: fun_upd_idem)
qed

lemma exec_all_abs: "rb_abs key t m \<Longrightarrow> ran m \<subseteq> V \<Longrightarrow> rb_arg ` set ops \<subseteq> V \<Longrightarrow>
    \<exists>u. rb_exec_all cmp ops t = Inr u \<and> rb_abs key u (fold (map_op key) ops m) \<and> ran (fold (map_op key) ops m) \<subseteq> V"
proof (induction ops arbitrary: t m)
  case (Cons op ops)
  then obtain u where u: "rb_exec cmp op t = Inr u" "rb_abs key u (map_op key op m)" "ran (map_op key op m) \<subseteq> V"
    using exec_abs [of t m op] by auto
  then show ?case using Cons.IH [OF u(2,3)] Cons.prems(3) by (simp add: rb_exec_all_def)
qed (simp add: rb_exec_all_def)

lemma exec_all_empty: "rb_arg ` set ops \<subseteq> V \<Longrightarrow>
    \<exists>u. rb_exec_all cmp ops RB_NULL = Inr u \<and> rb_abs key u (fold (map_op key) ops Map.empty) \<and>
      ran (fold (map_op key) ops Map.empty) \<subseteq> V"
  by (rule exec_all_abs) simp_all

end

text \<open>
  C16.  The red-black tree implements a finite map: after any sequence of insertions and removals, for any comparison that
  is the order of a key, no null pointer has been followed, a search returns what the map holds for the key, an insertion
  returns the element that is already there, the traversal visits the elements of the map in the order of their keys,
  and the tree is balanced.
\<close>

theorem rb_refines_map:
  fixes key :: "'a \<Rightarrow> 'k::linorder"
  assumes "\<And>a b. a \<in> V \<Longrightarrow> b \<in> V \<Longrightarrow> \<exists>d. cmp a b = Inr d \<and> (d < 0 \<longleftrightarrow> key a < key b) \<and> (d > 0 \<longleftrightarrow> key b < key a)"
    and "rb_arg ` set ops \<subseteq> V"
  shows "\<exists>t. rb_exec_all cmp ops RB_NULL = Inr t \<and> balanced t \<and>
    (\<forall>a \<in> V. RB_FIND (cmp a) t = Inr (fold (map_op key) ops Map.empty (key a)) \<and>
       (\<exists>u. RB_INSERT (cmp a) a t = Inr (fold (map_op key) ops Map.empty (key a), u))) \<and>
    sorted_wrt (<) (map key (RB_FOREACH t)) \<and> set (RB_FOREACH t) = ran (fold (map_op key) ops Map.empty)"
proof -
  from assms(1) have c: "rb_client cmp key V" by unfold_locales
  obtain t where t: "rb_exec_all cmp ops RB_NULL = Inr t" "rb_abs key t (fold (map_op key) ops Map.empty)"
      "ran (fold (map_op key) ops Map.empty) \<subseteq> V"
    using rb_client.exec_all_empty [OF c assms(2)] by blast
  note f = rb_abs_foreach [OF t(2)] rb_abs_ran [OF t(2)]
  have "\<exists>u. RB_INSERT (cmp a) a t = Inr (fold (map_op key) ops Map.empty (key a), u)"
    "RB_FIND (cmp a) t = Inr (fold (map_op key) ops Map.empty (key a))" if "a \<in> V" for a
    using rb_query.insert_abs [OF rb_client.query [OF c that] t(2,3)] rb_query.find_abs [OF rb_client.query [OF c that] t(2,3)]
    by auto
  moreover have "balanced t" "sorted_wrt (<) (map key (inorder t))" using t(2) by (simp_all add: rb_abs_def)
  ultimately show ?thesis using t(1) f by auto
qed

theorem rb_refines_map_witness:
  "\<exists>t. rb_exec_all (\<lambda>a b. Inr (a - b)) [Insert 3, Insert 1, Insert 2, Delete 3, Insert 5] RB_NULL = Inr t \<and>
     RB_FIND (\<lambda>b. Inr (2 - b)) t = Inr (Some 2) \<and> RB_FIND (\<lambda>b. Inr (3 - b)) t = Inr None \<and> set (RB_FOREACH t) = {1, 2, 5 :: int}"
proof -
  obtain t where t: "rb_exec_all (\<lambda>a b. Inr (a - b)) [Insert 3, Insert 1, Insert 2, Delete 3, Insert 5] RB_NULL = Inr t"
    "\<forall>a. RB_FIND (\<lambda>b. Inr (a - b)) t =
       Inr (fold (map_op (\<lambda>a. a)) [Insert 3, Insert 1, Insert 2, Delete 3, Insert 5] Map.empty a)"
    "set (RB_FOREACH t) = ran (fold (map_op (\<lambda>a. a)) [Insert 3, Insert 1, Insert 2, Delete 3, Insert 5] Map.empty)"
    using rb_refines_map [of UNIV "\<lambda>a b. Inr (a - b)" "\<lambda>a :: int. a" "[Insert 3, Insert 1, Insert 2, Delete 3, Insert 5]"] by auto
  then show ?thesis using t(1) t(2) [rule_format, of 2] t(2) [rule_format, of 3] by (auto simp: ran_def split: if_splits)
qed

text \<open>
  C19.  The bound the header of the tree gives: a tree of \<open>n\<close> elements made by any sequence of operations is at most
  \<open>2 * log 2 (n + 1)\<close> high, which bounds the steps of every search.
\<close>

theorem rb_height_bound:
  fixes key :: "'a \<Rightarrow> 'k::linorder"
  assumes "\<And>a b. a \<in> V \<Longrightarrow> b \<in> V \<Longrightarrow> \<exists>d. cmp a b = Inr d \<and> (d < 0 \<longleftrightarrow> key a < key b) \<and> (d > 0 \<longleftrightarrow> key b < key a)"
    and "rb_arg ` set ops \<subseteq> V" "rb_exec_all cmp ops RB_NULL = Inr t"
  shows "2 ^ rb_height t \<le> (length (RB_FOREACH t) + 1)\<^sup>2"
proof -
  from assms(1) have c: "rb_client cmp key V" by unfold_locales
  obtain m where m: "rb_abs key t m" using rb_client.exec_all_empty [OF c assms(2)] assms(3) by auto
  then have "balanced t" by (simp add: rb_abs_def)
  then show ?thesis using height_bound [of t] rb_abs_foreach [OF m] by (simp add: rb_size_inorder)
qed

theorem rb_height_bound_witness:
  "\<exists>t. rb_exec_all (\<lambda>a b. Inr (a - b)) (map Insert [1, 2, 3, 4, 5, 6, 7 :: int]) RB_NULL = Inr t \<and>
     2 ^ rb_height t \<le> (length (RB_FOREACH t) + 1)\<^sup>2 \<and> rb_height t = 4"
proof -
  let ?ops = "map Insert [1, 2, 3, 4, 5, 6, 7 :: int]"
  obtain t where t: "rb_exec_all (\<lambda>a b. Inr (a - b)) ?ops RB_NULL = Inr t" "rb_height t = 4"
    by (simp add: rb_exec_all_def RB_INSERT_def RB_ROTATE_def)
  then show ?thesis using rb_height_bound [of UNIV "\<lambda>a b. Inr (a - b)" "\<lambda>a :: int. a" ?ops t] by auto
qed

end
