(* ===== verification/Esq_Compare.thy ===== *)
theory Esq_Compare
  imports Esq_Tree "HOL-Library.List_Lexorder"
begin

text \<open>
  Copies between buffers, and the comparisons the tree nodes are ordered by, \<^verbatim>\<open>memcmp\<close>, \<^verbatim>\<open>strcmp\<close> and differences of integers, on checked
  buffers: each is the order of a key, the lexicographic order of unsigned bytes for the first two.
\<close>

text \<open>\<^verbatim>\<open>memcpy\<close> of \<open>n\<close> bytes to an offset of a buffer, and \<^verbatim>\<open>snprintf\<close> of a text into the \<open>n\<close> bytes from an offset.\<close>

definition put_at :: "nat \<Rightarrow> byte list \<Rightarrow> byte list \<Rightarrow> byte list res" where
  "put_at off xs dst =
     (if off + length xs \<le> length dst then Inr (take off dst @ xs @ drop (off + length xs) dst) else Inl Fault)"

definition memcpy_at :: "nat \<Rightarrow> byte list \<Rightarrow> nat \<Rightarrow> byte list \<Rightarrow> byte list res" where
  "memcpy_at off src n dst = (if n \<le> length src then put_at off (take n src) dst else Inl Fault)"

definition snprintf_at :: "nat \<Rightarrow> nat \<Rightarrow> byte list \<Rightarrow> byte list \<Rightarrow> byte list res" where
  "snprintf_at off n txt dst = (if n = 0 then Inr dst else put_at off (take (n - 1) txt @ [0]) dst)"

lemma put_at_length: "off + length xs \<le> length dst \<Longrightarrow> \<exists>b. put_at off xs dst = Inr b \<and> length b = length dst"
  by (simp add: put_at_def)

section \<open>Comparisons\<close>

fun memcmp :: "byte list \<Rightarrow> byte list \<Rightarrow> nat \<Rightarrow> int res" where
  "memcmp a b 0 = Inr 0"
| "memcmp (x # a) (y # b) (Suc n) = (if x = y then memcmp a b n else Inr (uint x - uint y))"
| "memcmp a b (Suc n) = Inl Fault"

fun strcmp :: "byte list \<Rightarrow> byte list \<Rightarrow> int res" where
  "strcmp (x # a) (y # b) = (if x \<noteq> y then Inr (uint x - uint y) else if x = 0 then Inr 0 else strcmp a b)"
| "strcmp a b = Inl Fault"

text \<open>\<^verbatim>\<open>d\<close> is the sign of the comparison of two keys.\<close>

definition order_of :: "'k::linorder \<Rightarrow> 'k \<Rightarrow> int \<Rightarrow> bool" where
  "order_of k l d \<longleftrightarrow> (d < 0 \<longleftrightarrow> k < l) \<and> (d > 0 \<longleftrightarrow> l < k)"

lemma order_of_zero: "order_of k l d \<Longrightarrow> d = 0 \<longleftrightarrow> k = l"
  by (auto simp: order_of_def neq_iff)

lemma byte_diff [simp]: "uint (x :: byte) - uint y < 0 \<longleftrightarrow> x < y" "uint (x :: byte) - uint y > 0 \<longleftrightarrow> y < x"
  "uint (x :: byte) < uint y \<longleftrightarrow> x < y"
  by (simp_all add: word_less_def)

lemma memcmp_order:
  "n \<le> length a \<Longrightarrow> n \<le> length b \<Longrightarrow> \<exists>d. memcmp a b n = Inr d \<and> order_of (take n a) (take n b) d"
proof (induction a b n rule: memcmp.induct)
  case (2 x a y b n)
  then show ?case by (cases "x = y") (auto simp: order_of_def)
qed (auto simp: order_of_def)

lemma strcmp_order:
  "has_nul a \<Longrightarrow> has_nul b \<Longrightarrow> \<exists>d. strcmp a b = Inr d \<and> order_of (cstr a) (cstr b) d"
proof (induction a b rule: strcmp.induct)
  case (1 x a y b)
  show ?case
  proof (cases "x = y \<and> x \<noteq> 0")
    case True
    then show ?thesis using 1 by (auto simp: order_of_def cstr_def has_nul_def)
  next
    case False
    then show ?thesis by (auto simp: order_of_def cstr_def word_less_def unat_gt_0 uint_0_iff less_le)
  qed
qed (auto simp: has_nul_def)

lemma rb_queryI:
  "(\<And>a. a \<in> V \<Longrightarrow> \<exists>d. cmp a = Inr d \<and> order_of k (key a) d) \<Longrightarrow> rb_query cmp key k V"
  by unfold_locales (auto simp: order_of_def)

end
