(* ===== verification/Esq_RangeMap.thy ===== *)
theory Esq_RangeMap
  imports Esq_Compare Esq_Scan
begin

text \<open>
  The range map of \<^verbatim>\<open>src/range-map.c\<close>: nodes that serve the keys whose hash starts with a given prefix.  A map
  keeps all its nodes on one list and, after a flush, one tree per prefix length; nodes with the same prefix are
  chained by \<^verbatim>\<open>next\<close>, and the last of a chain points to the chain of the longest shorter prefix, so that one
  search gives every node responsible for a hash, most specific first.  The read-write lock is not
  modelled: each operation is one critical section.  \<open>env\<close> holds what comes from outside: \<^verbatim>\<open>malloc\<close>,
  \<^verbatim>\<open>inet_addr\<close>, the questions to the network configuration and to the bucket store, what the stack holds in
  the uninitialised hash buffer, and the fuel of the loops that follow pointers.
\<close>

section \<open>Data\<close>

definition HASH_VALUE_LENGTH :: nat where "HASH_VALUE_LENGTH = 32"
definition RANGE_MAP_NAME_MAX :: nat where "RANGE_MAP_NAME_MAX = 32"
definition RANGE_MAP_MAX :: nat where "RANGE_MAP_MAX = 10"

definition RM_NODE_MAIN :: u32 where "RM_NODE_MAIN = 1"
definition RM_NODE_DELETE :: u32 where "RM_NODE_DELETE = 2"
definition RM_NODE_ME :: u32 where "RM_NODE_ME = 4"

record sockaddr_in =
  sin_port :: int
  s_addr :: u32

record range_node_t =
  hash_length :: nat
  hash_buffer :: "byte list"
  node_ip :: u32
  node_port :: int
  node_flags :: u32
  node_next :: "addr option"
  all_node_list_next :: "addr option"
  address :: sockaddr_in
  bucket :: "addr option"

record range_map_t =
  map_name :: "byte list"
  rb_by_length :: "addr rb list"
  all_list :: "addr option"
  longest :: nat

type_synonym node_heap = "addr \<Rightarrow> range_node_t option"

record rm_world =
  nodes :: node_heap
  range_map_list :: "range_map_t list"

record rm_env =
  malloc_node :: "addr option"
  inet_addr :: "byte list \<Rightarrow> u32"
  os_ip_address_is_me :: "sockaddr_in \<Rightarrow> bool"
  bee_server_is_my_port :: "int \<Rightarrow> bool"
  esq_bee_find_bucket :: "byte list \<Rightarrow> byte list \<Rightarrow> u32 \<Rightarrow> int \<Rightarrow> addr option"
  stack_bytes :: "byte list"
  rm_fuel :: nat

definition node_at :: "addr \<Rightarrow> node_heap \<Rightarrow> range_node_t res" where
  "node_at a h = of_opt (h a)"

definition upd_node :: "addr \<Rightarrow> (range_node_t \<Rightarrow> range_node_t) \<Rightarrow> node_heap \<Rightarrow> node_heap res" where
  "upd_node a f h = (case h a of None \<Rightarrow> Inl Fault | Some n \<Rightarrow> Inr (h(a \<mapsto> f n)))"

definition set_next :: "addr option \<Rightarrow> range_node_t \<Rightarrow> range_node_t" where
  "set_next p n = n\<lparr>node_next := p\<rparr>"

text \<open>The comparison of a wanted prefix, a length and a hash, with a node.\<close>

definition range_node_compare :: "nat \<Rightarrow> byte list \<Rightarrow> node_heap \<Rightarrow> addr \<Rightarrow> int res" where
  "range_node_compare al hash h b =
     bindE (node_at b h) (\<lambda>n. if al \<noteq> hash_length n then Inl Exit else memcmp hash (hash_buffer n) al)"

definition tree_at :: "range_map_t \<Rightarrow> nat \<Rightarrow> addr rb res" where
  "tree_at m l = of_opt (rd (rb_by_length m) l)"

definition range_find :: "range_map_t \<Rightarrow> nat \<Rightarrow> byte list \<Rightarrow> node_heap \<Rightarrow> addr option res" where
  "range_find m l hash h = bindE (tree_at m l) (RB_FIND (range_node_compare l hash h))"

section \<open>Building the trees\<close>

fun clean_loop :: "nat \<Rightarrow> addr option \<Rightarrow> addr option \<Rightarrow> range_map_t \<Rightarrow> node_heap \<Rightarrow> (range_map_t \<times> node_heap) res" where
  "clean_loop fuel pp None m h = Inr (m, h)"
| "clean_loop 0 pp (Some p) m h = Inl Fuel"
| "clean_loop (Suc fuel) pp (Some p) m h =
     bindE (node_at p h) (\<lambda>x. let n = all_node_list_next x in
     if node_flags x AND RM_NODE_DELETE \<noteq> 0 then
       bindE (case pp of
           Some q \<Rightarrow> bindE (upd_node q (\<lambda>y. y\<lparr>all_node_list_next := n\<rparr>) h) (\<lambda>h. Inr (m, h))
         | None \<Rightarrow> Inr (m\<lparr>all_list := n\<rparr>, h)) (\<lambda>(m, h).
       clean_loop fuel pp n m (h(p := None)))
     else
       bindE (upd_node p (set_next None) h) (\<lambda>h. clean_loop fuel (Some p) n m h))"

definition range_map_clean :: "nat \<Rightarrow> range_map_t \<Rightarrow> node_heap \<Rightarrow> (range_map_t \<times> node_heap) res" where
  "range_map_clean fuel m h =
     clean_loop fuel None (all_list m) (m\<lparr>rb_by_length := map (\<lambda>t. RB_NULL) (rb_by_length m)\<rparr>) h"

text \<open>\<^verbatim>\<open>while (s->next) s = s->next;\<close>\<close>

primrec chain_end :: "nat \<Rightarrow> addr \<Rightarrow> node_heap \<Rightarrow> addr res" where
  "chain_end 0 s h = Inl Fuel"
| "chain_end (Suc fuel) s h =
     bindE (node_at s h) (\<lambda>x. case node_next x of None \<Rightarrow> Inr s | Some n \<Rightarrow> chain_end fuel n h)"

definition append_to_chain :: "nat \<Rightarrow> addr \<Rightarrow> addr \<Rightarrow> node_heap \<Rightarrow> node_heap res" where
  "append_to_chain fuel s p h = bindE (chain_end fuel s h) (\<lambda>e. upd_node e (set_next (Some p)) h)"

definition range_map_load_node :: "nat \<Rightarrow> addr \<Rightarrow> range_map_t \<Rightarrow> node_heap \<Rightarrow> (range_map_t \<times> node_heap) res" where
  "range_map_load_node fuel p m h =
     bindE (node_at p h) (\<lambda>x.
     bindE (range_find m (hash_length x) (hash_buffer x) h) (\<lambda>s.
     case s of
       Some s \<Rightarrow> bindE (append_to_chain fuel s p h) (\<lambda>h. Inr (m, h))
     | None \<Rightarrow>
         bindE (tree_at m (hash_length x)) (\<lambda>t.
         bindE (RB_INSERT (range_node_compare (hash_length x) (hash_buffer x) h) p t) (\<lambda>(e, t).
         Inr (m\<lparr>rb_by_length := (rb_by_length m)[hash_length x := t]\<rparr>, h)))))"

text \<open>The search for shorter prefixes: \<open>l\<close> lengths, from \<open>l - 1\<close> down to \<open>0\<close>, are left.\<close>

fun link_loop :: "nat \<Rightarrow> range_map_t \<Rightarrow> byte list \<Rightarrow> addr \<Rightarrow> nat \<Rightarrow> node_heap \<Rightarrow> node_heap res" where
  "link_loop fuel m hash n 0 h = Inr h"
| "link_loop fuel m hash n (Suc l) h =
     bindE (range_find m l hash h) (\<lambda>p.
     case p of
       Some p \<Rightarrow> append_to_chain fuel n p h
     | None \<Rightarrow> link_loop fuel m hash n l h)"

definition range_map_link_short_match :: "nat \<Rightarrow> range_map_t \<Rightarrow> int \<Rightarrow> addr \<Rightarrow> node_heap \<Rightarrow> node_heap res" where
  "range_map_link_short_match fuel m len n h =
     (if len < 0 then Inr h
      else bindE (node_at n h) (\<lambda>x. link_loop fuel m (hash_buffer x) n (nat len + 1) h))"

primrec link_nodes :: "nat \<Rightarrow> range_map_t \<Rightarrow> nat \<Rightarrow> addr list \<Rightarrow> nat \<times> node_heap \<Rightarrow> (nat \<times> node_heap) res" where
  "link_nodes fuel m len [] s = Inr s"
| "link_nodes fuel m len (n # ns) s =
     (let lg = (if fst s = 0 then len else fst s) in
      bindE (range_map_link_short_match fuel m (int len - 1) n (snd s)) (\<lambda>h. link_nodes fuel m len ns (lg, h)))"

primrec cross_loop :: "nat \<Rightarrow> range_map_t \<Rightarrow> nat \<Rightarrow> nat \<times> node_heap \<Rightarrow> (nat \<times> node_heap) res" where
  "cross_loop fuel m 0 s = Inr s"
| "cross_loop fuel m (Suc l) s =
     bindE (tree_at m l) (\<lambda>t. bindE (link_nodes fuel m l (RB_FOREACH t) s) (cross_loop fuel m l))"

definition range_map_build_cross_depth_reference :: "nat \<Rightarrow> range_map_t \<Rightarrow> node_heap \<Rightarrow> (range_map_t \<times> node_heap) res" where
  "range_map_build_cross_depth_reference fuel m h =
     bindE (cross_loop fuel m (length (rb_by_length m)) (0, h)) (\<lambda>(lg, h). Inr (m\<lparr>longest := lg\<rparr>, h))"

fun load_loop :: "nat \<Rightarrow> nat \<Rightarrow> addr option \<Rightarrow> range_map_t \<Rightarrow> node_heap \<Rightarrow> (range_map_t \<times> node_heap) res" where
  "load_loop fuel n None m h = Inr (m, h)"
| "load_loop fuel 0 (Some p) m h = Inl Fuel"
| "load_loop fuel (Suc n) (Some p) m h =
     bindE (upd_node p (set_next None) h) (\<lambda>h.
     bindE (range_map_load_node fuel p m h) (\<lambda>(m, h).
     bindE (node_at p h) (\<lambda>x. load_loop fuel n (all_node_list_next x) m h)))"

definition range_map_load :: "nat \<Rightarrow> range_map_t \<Rightarrow> node_heap \<Rightarrow> (range_map_t \<times> node_heap) res" where
  "range_map_load fuel m h =
     bindE (load_loop fuel fuel (all_list m) m h) (\<lambda>(m, h). range_map_build_cross_depth_reference fuel m h)"

section \<open>Maps and their names\<close>

fun find_map_at :: "byte list \<Rightarrow> nat \<Rightarrow> range_map_t list \<Rightarrow> nat option res" where
  "find_map_at name i [] = Inr None"
| "find_map_at name i (m # ms) = bindE (strcmp (map_name m) name) (\<lambda>d. if d \<noteq> 0 then find_map_at name (i + 1) ms else Inr (Some i))"

definition range_map_find_by_name :: "byte list \<Rightarrow> rm_world \<Rightarrow> nat option res" where
  "range_map_find_by_name name w = find_map_at name 0 (range_map_list w)"

fun find_map2_at :: "byte list \<Rightarrow> nat \<Rightarrow> nat \<Rightarrow> range_map_t list \<Rightarrow> nat option res" where
  "find_map2_at name len i [] = Inr None"
| "find_map2_at name len i (m # ms) =
     bindE (memcmp (map_name m) name len) (\<lambda>d.
     if d \<noteq> 0 then find_map2_at name len (i + 1) ms
     else bindE (of_opt (rd (map_name m) len)) (\<lambda>c.
       if c \<noteq> 0 then find_map2_at name len (i + 1) ms else Inr (Some i)))"

definition range_map_find_by_name2 :: "byte list \<Rightarrow> nat \<Rightarrow> rm_world \<Rightarrow> nat option res" where
  "range_map_find_by_name2 name len w = find_map2_at name len 0 (range_map_list w)"

fun name_chars :: "nat \<Rightarrow> byte list \<Rightarrow> string option res" where
  "name_chars 0 name = Inr None"
| "name_chars (Suc n) [] = Inl Fault"
| "name_chars (Suc n) (c # cs) =
     (if sint c \<ge> sint (ch CHR ''a'') \<and> sint c \<le> sint (ch CHR ''z'') then name_chars n cs
      else if sint c \<ge> sint (ch CHR ''0'') \<and> sint c \<le> sint (ch CHR ''9'') then name_chars n cs
      else Inr (Some ''only number and lower case allowed''))"

definition range_map_name_check2 :: "byte list \<Rightarrow> int \<Rightarrow> string option res" where
  "range_map_name_check2 name l =
     (if l \<le> 0 then Inr (Some ''range map name invalid'')
      else if l \<ge> int RANGE_MAP_NAME_MAX then Inr (Some ''range map name too long'')
      else name_chars (nat l) name)"

definition range_map_name_check :: "byte list \<Rightarrow> string option res" where
  "range_map_name_check name = bindE (of_opt (strnlen name (RANGE_MAP_NAME_MAX + 2))) (\<lambda>l. range_map_name_check2 name (int l))"

fun free_slot :: "nat \<Rightarrow> range_map_t list \<Rightarrow> nat option res" where
  "free_slot i [] = Inr None"
| "free_slot i (m # ms) = bindE (of_opt (rd (map_name m) 0)) (\<lambda>c. if c \<noteq> 0 then free_slot (i + 1) ms else Inr (Some i))"

text \<open>\<^verbatim>\<open>strcpy\<close> into the array of the name.\<close>

definition copy_name :: "byte list \<Rightarrow> byte list \<Rightarrow> byte list res" where
  "copy_name dst src =
     (if has_nul src \<and> length (cstr src) < length dst then Inr (patched (cstr src @ [0]) dst) else Inl Fault)"

definition upd_map :: "nat \<Rightarrow> (range_map_t \<Rightarrow> range_map_t) \<Rightarrow> rm_world \<Rightarrow> rm_world" where
  "upd_map i f w = w\<lparr>range_map_list := (range_map_list w)[i := f (range_map_list w ! i)]\<rparr>"

definition range_map_new :: "byte list \<Rightarrow> rm_world \<Rightarrow> (string option \<times> rm_world) res" where
  "range_map_new name w =
     bindE (range_map_name_check name) (\<lambda>errs.
     case errs of Some e \<Rightarrow> Inr (Some e, w) | None \<Rightarrow>
     bindE (range_map_find_by_name name w) (\<lambda>f.
     case f of Some i \<Rightarrow> Inr (Some ''range map already exist'', w) | None \<Rightarrow>
     bindE (free_slot 0 (range_map_list w)) (\<lambda>s.
     case s of None \<Rightarrow> Inr (Some ''too many range maps'', w) | Some i \<Rightarrow>
     bindE (copy_name (map_name (range_map_list w ! i)) name) (\<lambda>nm.
     Inr (None, upd_map i (\<lambda>m. m\<lparr>map_name := nm\<rparr>) w)))))"

section \<open>Nodes\<close>

fun find_node_loop :: "nat \<Rightarrow> addr option \<Rightarrow> u32 \<Rightarrow> int \<Rightarrow> byte list \<Rightarrow> nat \<Rightarrow> node_heap \<Rightarrow> addr option res" where
  "find_node_loop fuel None ip port hash len h = Inr None"
| "find_node_loop 0 (Some p) ip port hash len h = Inl Fuel"
| "find_node_loop (Suc fuel) (Some p) ip port hash len h =
     bindE (node_at p h) (\<lambda>x. let next = find_node_loop fuel (all_node_list_next x) ip port hash len h in
     if node_ip x \<noteq> ip then next
     else if node_port x \<noteq> port then next
     else if hash_length x \<noteq> len then next
     else bindE (memcmp (hash_buffer x) hash len) (\<lambda>d. if d \<noteq> 0 then next else Inr (Some p)))"

definition range_map_find_node :: "nat \<Rightarrow> range_map_t \<Rightarrow> u32 \<Rightarrow> int \<Rightarrow> byte list \<Rightarrow> nat \<Rightarrow> node_heap \<Rightarrow> addr option res" where
  "range_map_find_node fuel m = find_node_loop fuel (all_list m)"

text \<open>\<^verbatim>\<open>TRANSLATE_MKC_PARAMS\<close>: an error message, or the address, the hash bytes, their number and the length of the string.\<close>

definition TRANSLATE_MKC_PARAMS :: "rm_env \<Rightarrow> byte list \<Rightarrow> byte list \<Rightarrow> (string + u32 \<times> byte list \<times> nat \<times> nat) res" where
  "TRANSLATE_MKC_PARAMS e ip_str hash_string =
     bindE (of_opt (strnlen ip_str 20)) (\<lambda>l.
     if l < 7 \<or> l > 15 then Inr (Inl ''invalid IP address length'') else
     bindE (of_opt (get_ipv4_addr ip_str (int l))) (\<lambda>(r, ip).
     case ip of None \<Rightarrow> Inr (Inl ''invalid IP address'') | Some ip \<Rightarrow>
     if r = 0 then Inr (Inl ''invalid IP address'') else
     bindE (of_opt (strnlen hash_string (HASH_VALUE_LENGTH + 3))) (\<lambda>l.
     if l < 1 \<or> l > HASH_VALUE_LENGTH + 1 then Inr (Inl ''invalid hash string pameter length'') else
     bindE (of_opt (get_hash_string hash_string (int l))) (\<lambda>(r, found).
     case found of None \<Rightarrow> Inr (Inl ''invalid hash string'') | Some (hash_start, hash_str_len) \<Rightarrow>
     if hash_start \<noteq> 0 \<or> hash_str_len + 1 \<noteq> int l \<or> hash_str_len > int HASH_VALUE_LENGTH * 2
     then Inr (Inl ''invalid hash string length'') else
     bindE (of_opt (hash_str_2_bin (stack_bytes e) (drop (nat hash_start) hash_string) hash_str_len)) (\<lambda>(r, hash_buffer).
     if r \<noteq> 0 then Inr (Inl ''failed to transform hash string into binary'') else
     Inr (Inr (ip, hash_buffer, nat (drop_bit 1 hash_str_len), nat hash_str_len)))))))"

text \<open>Network byte order of the lower 16 bits, on a little endian machine.\<close>

definition htons :: "int \<Rightarrow> int" where
  "htons port = (let x = port mod 2 ^ 16 in (x mod 256) * 256 + x div 256)"

definition range_map_add_node :: "rm_env \<Rightarrow> byte list \<Rightarrow> byte list \<Rightarrow> int \<Rightarrow> u32 \<Rightarrow> byte list \<Rightarrow> rm_world \<Rightarrow> (string option \<times> rm_world) res" where
  "range_map_add_node e name ip_str port flags hash_string w =
     bindE (TRANSLATE_MKC_PARAMS e ip_str hash_string) (\<lambda>x.
     case x of Inl err \<Rightarrow> Inr (Some err, w) | Inr (ip, hash, hash_len, hash_str_len) \<Rightarrow>
     bindE (range_map_find_by_name name w) (\<lambda>f.
     case f of None \<Rightarrow> Inr (Some ''range map not exist'', w) | Some i \<Rightarrow>
     bindE (range_map_find_node (rm_fuel e) (range_map_list w ! i) ip port hash hash_len (nodes w)) (\<lambda>p.
     case p of Some p \<Rightarrow> Inr (Some ''range map node already exist'', w) | None \<Rightarrow>
     (case malloc_node e of None \<Rightarrow> Inr (Some ''out of memory'', w) | Some a \<Rightarrow>
       let address = \<lparr>sin_port = htons port, s_addr = inet_addr e ip_str\<rparr>;
           me = os_ip_address_is_me e address \<and> bee_server_is_my_port e port;
           n = \<lparr>hash_length = hash_len, hash_buffer = patched (take hash_len hash) (replicate (HASH_VALUE_LENGTH + 8) 0),
                node_ip = ip, node_port = port, node_flags = (if me then flags OR RM_NODE_ME else flags),
                node_next = None, all_node_list_next = all_list (range_map_list w ! i), address = address,
                bucket = esq_bee_find_bucket e (cstr name) (take (hash_str_len + 1) hash_string)
                           (if me then 0 else ip) (if me then 0 else port)\<rparr>
       in Inr (None, upd_map i (\<lambda>m. m\<lparr>all_list := Some a\<rparr>) (w\<lparr>nodes := (nodes w)(a \<mapsto> n)\<rparr>))))))"

definition rebuild :: "nat \<Rightarrow> nat \<Rightarrow> rm_world \<Rightarrow> rm_world res" where
  "rebuild fuel i w =
     bindE (range_map_clean fuel (range_map_list w ! i) (nodes w)) (\<lambda>(m, h).
     bindE (range_map_load fuel m h) (\<lambda>(m, h). Inr (upd_map i (\<lambda>x. m) (w\<lparr>nodes := h\<rparr>))))"

definition mark_deleted :: "range_node_t \<Rightarrow> range_node_t" where
  "mark_deleted n = n\<lparr>node_flags := node_flags n OR RM_NODE_DELETE\<rparr>"

definition range_map_del_node :: "rm_env \<Rightarrow> byte list \<Rightarrow> byte list \<Rightarrow> int \<Rightarrow> byte list \<Rightarrow> rm_world \<Rightarrow> (string option \<times> rm_world) res" where
  "range_map_del_node e name ip_str port hash_string w =
     bindE (TRANSLATE_MKC_PARAMS e ip_str hash_string) (\<lambda>x.
     case x of Inl err \<Rightarrow> Inr (Some err, w) | Inr (ip, hash, hash_len, hash_str_len) \<Rightarrow>
     bindE (range_map_find_by_name name w) (\<lambda>f.
     case f of None \<Rightarrow> Inr (Some ''range map not exist'', w) | Some i \<Rightarrow>
     bindE (range_map_find_node (rm_fuel e) (range_map_list w ! i) ip port hash hash_len (nodes w)) (\<lambda>p.
     case p of None \<Rightarrow> Inr (Some ''range node not exist'', w) | Some p \<Rightarrow>
     bindE (upd_node p mark_deleted (nodes w)) (\<lambda>h.
     bindE (rebuild (rm_fuel e) i (w\<lparr>nodes := h\<rparr>)) (\<lambda>w. Inr (None, w))))))"

fun mark_all :: "nat \<Rightarrow> addr option \<Rightarrow> node_heap \<Rightarrow> node_heap res" where
  "mark_all fuel None h = Inr h"
| "mark_all 0 (Some p) h = Inl Fuel"
| "mark_all (Suc fuel) (Some p) h =
     bindE (upd_node p mark_deleted h) (\<lambda>h. bindE (node_at p h) (\<lambda>x. mark_all fuel (all_node_list_next x) h))"

definition range_map_del_all_node :: "rm_env \<Rightarrow> byte list \<Rightarrow> rm_world \<Rightarrow> (string option \<times> rm_world) res" where
  "range_map_del_all_node e name w =
     bindE (range_map_find_by_name name w) (\<lambda>f.
     case f of None \<Rightarrow> Inr (Some ''range map not exist'', w) | Some i \<Rightarrow>
     bindE (mark_all (rm_fuel e) (all_list (range_map_list w ! i)) (nodes w)) (\<lambda>h.
     bindE (rebuild (rm_fuel e) i (w\<lparr>nodes := h\<rparr>)) (\<lambda>w. Inr (None, w))))"

definition range_map_flush :: "rm_env \<Rightarrow> byte list \<Rightarrow> rm_world \<Rightarrow> (string option \<times> rm_world) res" where
  "range_map_flush e name w =
     bindE (range_map_find_by_name name w) (\<lambda>f.
     case f of None \<Rightarrow> Inr (Some ''range map not found'', w) | Some i \<Rightarrow>
     bindE (rebuild (rm_fuel e) i w) (\<lambda>w. Inr (None, w)))"

section \<open>Searches\<close>

fun find_longest :: "range_map_t \<Rightarrow> byte list \<Rightarrow> nat \<Rightarrow> node_heap \<Rightarrow> addr option res" where
  "find_longest m hash 0 h = Inr None"
| "find_longest m hash (Suc l) h =
     bindE (range_find m l hash h) (\<lambda>p. case p of Some p \<Rightarrow> Inr (Some p) | None \<Rightarrow> find_longest m hash l h)"

definition range_map_find_and_lock :: "byte list \<Rightarrow> byte list \<Rightarrow> rm_world \<Rightarrow> addr option res" where
  "range_map_find_and_lock name hash w =
     bindE (range_map_find_by_name name w) (\<lambda>f.
     case f of None \<Rightarrow> Inr None
     | Some i \<Rightarrow> find_longest (range_map_list w ! i) hash (longest (range_map_list w ! i) + 1) (nodes w))"

text \<open>The copied addresses, or \<open>None\<close> where the function returns -1.\<close>

fun addresses_loop :: "nat \<Rightarrow> addr option \<Rightarrow> int \<Rightarrow> sockaddr_in list \<Rightarrow> node_heap \<Rightarrow> sockaddr_in list option res" where
  "addresses_loop fuel None mx acc h = Inr (Some acc)"
| "addresses_loop 0 (Some n) mx acc h = Inl Fuel"
| "addresses_loop (Suc fuel) (Some n) mx acc h =
     bindE (node_at n h) (\<lambda>x.
     let n = (if RM_NODE_DELETE AND node_flags x \<noteq> 0 then node_next x else Some n) in
     if int (length acc) \<ge> mx then Inr None
     else case n of None \<Rightarrow> Inl Fault | Some n \<Rightarrow>
       bindE (node_at n h) (\<lambda>x. addresses_loop fuel (node_next x) mx (acc @ [address x]) h))"

definition range_map_get_addresses :: "rm_env \<Rightarrow> byte list \<Rightarrow> byte list \<Rightarrow> int \<Rightarrow> rm_world \<Rightarrow> sockaddr_in list option res" where
  "range_map_get_addresses e name hash mx w =
     bindE (range_map_find_and_lock name hash w) (\<lambda>n.
     case n of None \<Rightarrow> Inr (Some []) | Some n \<Rightarrow> addresses_loop (rm_fuel e) (Some n) mx [] (nodes w))"

fun main_loop :: "nat \<Rightarrow> addr option \<Rightarrow> node_heap \<Rightarrow> (int \<times> sockaddr_in option) res" where
  "main_loop fuel None h = Inr (-1, None)"
| "main_loop 0 (Some n) h = Inl Fuel"
| "main_loop (Suc fuel) (Some n) h =
     bindE (node_at n h) (\<lambda>x. if node_flags x AND RM_NODE_MAIN \<noteq> 0 then Inr (0, Some (address x)) else main_loop fuel (node_next x) h)"

definition range_map_get_main_address :: "rm_env \<Rightarrow> byte list \<Rightarrow> byte list \<Rightarrow> rm_world \<Rightarrow> (int \<times> sockaddr_in option) res" where
  "range_map_get_main_address e name hash w =
     bindE (range_map_find_and_lock name hash w) (\<lambda>n.
     case n of None \<Rightarrow> Inr (0, None) | Some n \<Rightarrow> main_loop (rm_fuel e) (Some n) (nodes w))"

section \<open>Buckets\<close>

fun each_node :: "nat \<Rightarrow> (range_node_t \<Rightarrow> range_node_t res) \<Rightarrow> addr option \<Rightarrow> node_heap \<Rightarrow> node_heap res" where
  "each_node fuel f None h = Inr h"
| "each_node 0 f (Some p) h = Inl Fuel"
| "each_node (Suc fuel) f (Some p) h =
     bindE (node_at p h) (\<lambda>x. bindE (f x) (\<lambda>y. each_node fuel f (all_node_list_next y) (h(p \<mapsto> y))))"

text \<open>
  The bucket that comes online is given by its address, its ip and port (both 0 for a bucket of this server) and its
  hash string.
\<close>

definition bucket_online :: "addr \<Rightarrow> u32 \<Rightarrow> int \<Rightarrow> byte list \<Rightarrow> nat \<Rightarrow> range_node_t \<Rightarrow> range_node_t res" where
  "bucket_online b ip port hash_str hash_str_length x =
     (let me = node_flags x AND RM_NODE_ME \<noteq> 0 in
      if (if ip \<noteq> 0 \<or> port \<noteq> 0 then me \<or> node_ip x \<noteq> ip \<or> node_port x \<noteq> port else \<not> me) then Inr x
      else if hash_length x \<noteq> hash_str_length then Inr x
      else bindE (memcmp (hash_buffer x) hash_str hash_str_length) (\<lambda>d. Inr (if d \<noteq> 0 then x else x\<lparr>bucket := Some b\<rparr>)))"

definition range_map_notify_bucket_online ::
    "nat \<Rightarrow> addr \<Rightarrow> u32 \<Rightarrow> int \<Rightarrow> byte list \<Rightarrow> nat \<Rightarrow> byte list \<Rightarrow> nat \<Rightarrow> rm_world \<Rightarrow> rm_world res" where
  "range_map_notify_bucket_online fuel b ip port hash_str hash_str_length name len w =
     bindE (range_map_find_by_name2 name len w) (\<lambda>f.
     case f of None \<Rightarrow> Inr w | Some i \<Rightarrow>
     bindE (each_node fuel (bucket_online b ip port hash_str hash_str_length) (all_list (range_map_list w ! i)) (nodes w)) (\<lambda>h.
     Inr (w\<lparr>nodes := h\<rparr>)))"

definition range_map_notify_bucket_offline :: "nat \<Rightarrow> addr \<Rightarrow> byte list \<Rightarrow> nat \<Rightarrow> rm_world \<Rightarrow> rm_world res" where
  "range_map_notify_bucket_offline fuel b name len w =
     bindE (range_map_find_by_name2 name len w) (\<lambda>f.
     case f of None \<Rightarrow> Inr w | Some i \<Rightarrow>
     bindE (each_node fuel (\<lambda>x. Inr (if bucket x = Some b then x\<lparr>bucket := None\<rparr> else x)) (all_list (range_map_list w ! i)) (nodes w)) (\<lambda>h.
     Inr (w\<lparr>nodes := h\<rparr>)))"

definition reconnect :: "rm_env \<Rightarrow> byte list \<Rightarrow> range_node_t \<Rightarrow> range_node_t" where
  "reconnect e name x =
     (if os_ip_address_is_me e (address x) \<and> bee_server_is_my_port e (node_port x)
      then x\<lparr>node_flags := node_flags x OR RM_NODE_ME,
             bucket := esq_bee_find_bucket e (cstr name) (take (hash_length x) (hash_buffer x)) 0 0\<rparr>
      else x\<lparr>node_flags := node_flags x AND NOT RM_NODE_ME,
             bucket := esq_bee_find_bucket e (cstr name) (take (hash_length x) (hash_buffer x)) (node_ip x) (node_port x)\<rparr>)"

fun reconnect_maps :: "rm_env \<Rightarrow> range_map_t list \<Rightarrow> node_heap \<Rightarrow> node_heap res" where
  "reconnect_maps e [] h = Inr h"
| "reconnect_maps e (m # ms) h =
     bindE (of_opt (rd (map_name m) 0)) (\<lambda>c.
     bindE (if c = 0 then Inr h else each_node (rm_fuel e) (\<lambda>x. Inr (reconnect e (map_name m) x)) (all_list m) h)
       (reconnect_maps e ms))"

definition esq_range_map_flush_range_node_bucket_connection :: "rm_env \<Rightarrow> rm_world \<Rightarrow> rm_world res" where
  "esq_range_map_flush_range_node_bucket_connection e w =
     bindE (reconnect_maps e (range_map_list w) (nodes w)) (\<lambda>h. Inr (w\<lparr>nodes := h\<rparr>))"

section \<open>Start and end\<close>

definition range_map_zero :: range_map_t where
  "range_map_zero = \<lparr>map_name = replicate RANGE_MAP_NAME_MAX 0, rb_by_length = replicate HASH_VALUE_LENGTH RB_NULL,
     all_list = None, longest = 0\<rparr>"

definition range_map_init :: "rm_world \<Rightarrow> rm_world" where
  "range_map_init w = w\<lparr>range_map_list := replicate RANGE_MAP_MAX range_map_zero\<rparr>"

fun range_map_free :: "nat \<Rightarrow> addr option \<Rightarrow> node_heap \<Rightarrow> node_heap res" where
  "range_map_free fuel None h = Inr h"
| "range_map_free 0 (Some p) h = Inl Fuel"
| "range_map_free (Suc fuel) (Some p) h =
     bindE (node_at p h) (\<lambda>x. range_map_free fuel (all_node_list_next x) (h(p := None)))"

primrec destroy_maps :: "nat \<Rightarrow> range_map_t list \<Rightarrow> node_heap \<Rightarrow> (range_map_t list \<times> node_heap) res" where
  "destroy_maps fuel [] h = Inr ([], h)"
| "destroy_maps fuel (m # ms) h =
     bindE (of_opt (rd (map_name m) 0)) (\<lambda>c.
     bindE (if c \<noteq> 0 then bindE (range_map_free fuel (all_list m) h) (\<lambda>h. Inr (m\<lparr>map_name := (map_name m)[0 := 0]\<rparr>, h))
            else Inr (m, h)) (\<lambda>(m, h).
     bindE (destroy_maps fuel ms h) (\<lambda>(ms, h). Inr (m # ms, h))))"

definition range_map_destroy :: "nat \<Rightarrow> rm_world \<Rightarrow> rm_world res" where
  "range_map_destroy fuel w =
     bindE (destroy_maps fuel (range_map_list w) (nodes w)) (\<lambda>(ms, h). Inr (w\<lparr>nodes := h, range_map_list := ms\<rparr>))"

end
