(* ===== verification/Esq_RangeMatch.thy ===== *)
theory Esq_RangeMatch
  imports Esq_RangeMap
begin

text \<open>
  Correctness of the range map: after a flush, the chain found for a hash is the list of all nodes of the map whose
  prefix starts the hash, the longest prefixes first, and nothing that was marked as deleted is left.
\<close>

section \<open>Chains\<close>

primrec lseg :: "(range_node_t \<Rightarrow> addr option) \<Rightarrow> node_heap \<Rightarrow> addr option \<Rightarrow> addr list \<Rightarrow> addr option \<Rightarrow> bool" where
  "lseg f h p [] q \<longleftrightarrow> p = q"
| "lseg f h p (x # xs) q \<longleftrightarrow> p = Some x \<and> (\<exists>n. h x = Some n \<and> lseg f h (f n) xs q)"

lemma lseg_append: "lseg f h p (xs @ ys) q \<longleftrightarrow> (\<exists>r. lseg f h p xs r \<and> lseg f h r ys q)"
  by (induction xs arbitrary: p) auto

lemma lseg_cong: "(\<And>x. x \<in> set xs \<Longrightarrow> map_option f (h x) = map_option f (h' x)) \<Longrightarrow> lseg f h p xs q = lseg f h' p xs q"
proof (induction xs arbitrary: p)
  case (Cons x xs)
  then have "map_option f (h x) = map_option f (h' x)" "\<And>p. lseg f h p xs q = lseg f h' p xs q" by auto
  then show ?case by (cases "h x"; cases "h' x") auto
qed simp

lemma lseg_front: "lseg f h p xs q \<Longrightarrow> xs \<noteq> [] \<Longrightarrow> p = front xs"
  by (cases xs) auto

lemma lseg_alloc: "lseg f h p xs q \<Longrightarrow> x \<in> set xs \<Longrightarrow> \<exists>n. h x = Some n"
  by (induction xs arbitrary: p) auto

lemma lseg_frame: "y \<notin> set xs \<Longrightarrow> lseg f (h(y := v)) p xs q = lseg f h p xs q"
  by (intro lseg_cong) auto

text \<open>The nodes without their chain pointer, which is all that building the trees changes.\<close>

definition static :: "node_heap \<Rightarrow> node_heap" where
  "static h = (\<lambda>a. map_option (set_next None) (h a))"

lemma static_upd [simp]: "h a = Some n \<Longrightarrow> static (h(a \<mapsto> set_next p n)) = static h"
  by (auto simp: static_def set_next_def)

lemma upd_next: "h a = Some n \<Longrightarrow> upd_node a (set_next p) h = Inr (h(a \<mapsto> set_next p n))"
  by (simp add: upd_node_def)

lemma chain_end:
  "lseg node_next h (Some s) xs None \<Longrightarrow> xs \<noteq> [] \<Longrightarrow> length xs \<le> fuel \<Longrightarrow> chain_end fuel s h = Inr (last xs)"
proof (induction fuel arbitrary: s xs)
  case (Suc fuel)
  then obtain ys n where "xs = s # ys" "h s = Some n" "lseg node_next h (node_next n) ys None" by (cases xs) auto
  then show ?case using Suc.IH [of "hd ys" ys] Suc.prems(3) by (cases ys) (auto simp: node_at_def)
qed simp

lemma append_to_chain:
  assumes "lseg node_next h (Some s) xs None" "xs \<noteq> []" "length xs \<le> fuel" "distinct xs"
  shows "\<exists>h'. append_to_chain fuel s p h = Inr h' \<and> static h' = static h \<and> lseg node_next h' (Some s) xs (Some p) \<and>
    (\<forall>a. a \<notin> set xs \<longrightarrow> h' a = h a)"
proof -
  obtain ys x where xs: "xs = ys @ [x]" using assms(2) by (metis rev_exhaust)
  then obtain n r where n: "h x = Some n" "lseg node_next h (Some s) ys (Some x)"
    using assms(1) by (auto simp: lseg_append)
  have "append_to_chain fuel s p h = Inr (h(x \<mapsto> set_next (Some p) n))"
    using chain_end [OF assms(1-3)] xs n(1) by (simp add: append_to_chain_def upd_next)
  moreover have "lseg node_next (h(x \<mapsto> set_next (Some p) n)) (Some s) xs (Some p)"
    using n assms(4) xs by (auto simp: lseg_append lseg_frame set_next_def)
  ultimately show ?thesis using n(1) xs by auto
qed

section \<open>Prefixes\<close>

definition hlen :: "node_heap \<Rightarrow> addr \<Rightarrow> nat" where
  "hlen h a = hash_length (the (h a))"

definition hkey :: "node_heap \<Rightarrow> addr \<Rightarrow> byte list" where
  "hkey h a = take (hash_length (the (h a))) (hash_buffer (the (h a)))"

lemma hlen_static [simp]: "h a = Some n \<Longrightarrow> hlen (static h) a = hash_length n"
  by (simp add: hlen_def static_def set_next_def)

lemma hkey_static [simp]: "h a = Some n \<Longrightarrow> hkey (static h) a = take (hash_length n) (hash_buffer n)"
  by (simp add: hkey_def static_def set_next_def)

definition node_ok :: "nat \<Rightarrow> node_heap \<Rightarrow> addr \<Rightarrow> bool" where
  "node_ok L d a \<longleftrightarrow> (\<exists>n. d a = Some n \<and> hash_length n < L \<and> hash_length n \<le> length (hash_buffer n))"

text \<open>The nodes of a list with a given prefix, and the nodes whose prefixes shorter than \<open>l\<close> start a hash, longest first.\<close>

definition grp :: "node_heap \<Rightarrow> addr list \<Rightarrow> nat \<Rightarrow> byte list \<Rightarrow> addr list" where
  "grp d ys l k = filter (\<lambda>a. hlen d a = l \<and> hkey d a = take l k) ys"

primrec below :: "node_heap \<Rightarrow> addr list \<Rightarrow> nat \<Rightarrow> byte list \<Rightarrow> addr list" where
  "below d ys 0 k = []"
| "below d ys (Suc l) k = grp d ys l k @ below d ys l k"

lemma grp_take: "grp d ys l (take l k) = grp d ys l k"
  by (simp add: grp_def)

lemma below_take: "l \<le> n \<Longrightarrow> below d ys l (take n k) = below d ys l k"
  by (induction l) (auto simp: grp_def min_def)

lemma grp_append: "grp d (xs @ [a]) l k = (if hlen d a = l \<and> hkey d a = take l k then grp d xs l k @ [a] else grp d xs l k)"
  by (simp add: grp_def)

lemma grp_disjoint: "x \<in> set (grp d ys l k) \<Longrightarrow> x \<in> set (grp d ys l' k') \<Longrightarrow> l = l' \<and> take l k = take l' k'"
  by (auto simp: grp_def)

lemma front_None [simp]: "front xs = None \<longleftrightarrow> xs = []"
  by (cases xs) simp_all

lemma front_append: "front (xs @ ys) = (if xs = [] then front ys else front xs)"
  by simp

lemma front_SomeD: "front xs = Some a \<Longrightarrow> a \<in> set xs"
  by (cases xs) auto

section \<open>The trees\<close>

text \<open>The nodes that can be compared with a prefix of length \<open>l\<close>.\<close>

definition comparable :: "nat \<Rightarrow> byte list \<Rightarrow> node_heap \<Rightarrow> addr set" where
  "comparable l hash h = {a. \<exists>n. h a = Some n \<and> hash_length n = l \<and> l \<le> length (hash_buffer n) \<and> l \<le> length hash}"

interpretation range: rb_query "range_node_compare l hash h" "hkey (static h)" "take l hash" "comparable l hash h" for l hash h
proof (rule rb_queryI)
  fix a assume "a \<in> comparable l hash h"
  then obtain n where n: "h a = Some n" "hash_length n = l" "l \<le> length (hash_buffer n)" "l \<le> length hash"
    by (auto simp: comparable_def)
  then show "\<exists>d. range_node_compare l hash h a = Inr d \<and> order_of (take l hash) (hkey (static h) a) d"
    using memcmp_order [of l hash "hash_buffer n"] by (simp add: range_node_compare_def node_at_def)
qed

definition head_of :: "node_heap \<Rightarrow> addr list \<Rightarrow> nat \<Rightarrow> byte list \<Rightarrow> addr option" where
  "head_of d zs l k = (if length k = l then front (grp d zs l k) else None)"

definition trees :: "node_heap \<Rightarrow> addr list \<Rightarrow> addr rb list \<Rightarrow> bool" where
  "trees d zs ts \<longleftrightarrow> (\<forall>l < length ts. rb_abs (hkey d) (ts ! l) (head_of d zs l))"

lemma head_of_SomeD: "head_of d zs l k = Some a \<Longrightarrow> a \<in> set zs \<and> hlen d a = l \<and> hkey d a = k"
  by (auto simp: head_of_def grp_def split: if_splits dest!: front_SomeD)

lemma range_find:
  assumes "trees (static h) zs (rb_by_length m)" "l < length (rb_by_length m)" "l \<le> length hash"
    and "\<And>a. a \<in> set zs \<Longrightarrow> node_ok L (static h) a"
  shows "range_find m l hash h = Inr (front (grp (static h) zs l hash))"
proof -
  have "ran (head_of (static h) zs l) \<subseteq> comparable l hash h"
  proof
    fix a assume "a \<in> ran (head_of (static h) zs l)"
    then have a: "a \<in> set zs" "hlen (static h) a = l" by (auto simp: ran_def dest!: head_of_SomeD)
    then show "a \<in> comparable l hash h" using assms(3) assms(4) [OF a(1)]
      by (auto simp: comparable_def node_ok_def static_def hlen_def set_next_def)
  qed
  moreover have "rb_abs (hkey (static h)) (rb_by_length m ! l) (head_of (static h) zs l)"
    using assms(1,2) by (simp add: trees_def)
  ultimately have "RB_FIND (range_node_compare l hash h) (rb_by_length m ! l) = Inr (head_of (static h) zs l (take l hash))"
    using range.find_abs by blast
  then show ?thesis using assms(2,3) by (simp add: range_find_def tree_at_def rd_def head_of_def grp_take)
qed

definition chains :: "node_heap \<Rightarrow> addr list \<Rightarrow> node_heap \<Rightarrow> bool" where
  "chains d zs h \<longleftrightarrow> (\<forall>l k. grp d zs l k \<noteq> [] \<longrightarrow> lseg node_next h (front (grp d zs l k)) (grp d zs l k) None)"

lemma grp_subset: "set (grp d zs l k) \<subseteq> set zs"
  by (auto simp: grp_def)

lemma grp_distinct: "distinct zs \<Longrightarrow> distinct (grp d zs l k)"
  by (simp add: grp_def)

lemma grp_length: "length (grp d zs l k) \<le> length zs"
  by (simp add: grp_def)

lemma head_of_append: "head_of d (zs @ [p]) l = (if hlen d p = l \<and> length (hkey d p) = l \<and> head_of d zs l (hkey d p) = None
    then (head_of d zs l)(hkey d p \<mapsto> p) else head_of d zs l)"
  by (rule ext) (auto simp: head_of_def grp_append front_append)

lemma hkey_length: "node_ok L d a \<Longrightarrow> length (hkey d a) = hlen d a"
  by (auto simp: node_ok_def hkey_def hlen_def)

text \<open>The state after the nodes \<open>zs\<close> have been put into their trees.\<close>

definition loaded :: "node_heap \<Rightarrow> addr list \<Rightarrow> addr rb list \<Rightarrow> node_heap \<Rightarrow> bool" where
  "loaded d zs ts h \<longleftrightarrow> static h = d \<and> trees d zs ts \<and> chains d zs h"

lemma chains_new:
  assumes "chains d zs h" "h' p = Some n" "node_next n = None" "p \<notin> set zs" "\<And>a. a \<in> set zs \<Longrightarrow> h' a = h a"
    and "grp d zs (hlen d p) (hkey d p) = []" "hkey d p = take (hlen d p) (hkey d p)"
  shows "chains d (zs @ [p]) h'"
  unfolding chains_def
proof (intro allI impI)
  fix l k assume ne: "grp d (zs @ [p]) l k \<noteq> []"
  show "lseg node_next h' (front (grp d (zs @ [p]) l k)) (grp d (zs @ [p]) l k) None"
  proof (cases "hlen d p = l \<and> hkey d p = take l k")
    case True
    then have "grp d zs l k = []" using assms(6,7) grp_take [of d zs l k] by simp
    then show ?thesis using True assms(2,3) by (simp add: grp_append)
  next
    case False
    then have *: "grp d (zs @ [p]) l k = grp d zs l k" by (auto simp: grp_append)
    have "lseg node_next h' (front (grp d zs l k)) (grp d zs l k) None = lseg node_next h (front (grp d zs l k)) (grp d zs l k) None"
      using assms(5) grp_subset [of d zs l k] by (intro lseg_cong) auto
    then show ?thesis using assms(1) ne * by (simp add: chains_def)
  qed
qed

lemma chains_extended:
  assumes "chains d zs h" "p \<notin> set zs" "h p = Some n" "node_next n = None" "G = grp d zs (hlen d p) (hkey d p)"
    and "lseg node_next h' (front G) G (Some p)" "\<forall>a. a \<notin> set G \<longrightarrow> h' a = h a" "hkey d p = take (hlen d p) (hkey d p)"
  shows "chains d (zs @ [p]) h'"
  unfolding chains_def
proof (intro allI impI)
  fix l k assume ne: "grp d (zs @ [p]) l k \<noteq> []"
  show "lseg node_next h' (front (grp d (zs @ [p]) l k)) (grp d (zs @ [p]) l k) None"
  proof (cases "hlen d p = l \<and> hkey d p = take l k")
    case True
    then have g: "grp d zs l k = G" using assms(5,8) grp_take [of d zs l k] by simp
    have "p \<notin> set G" using assms(2,5) grp_subset by blast
    then have "h' p = Some n" using assms(3,7) by simp
    then have "lseg node_next h' (front G) (G @ [p]) None" using assms(4,6) by (auto simp: lseg_append)
    moreover have "grp d (zs @ [p]) l k = G @ [p]" using True g by (simp add: grp_append)
    moreover have "front (G @ [p]) = (if G = [] then Some p else front G)" by simp
    ultimately show ?thesis using assms(6) by (cases "G = []") auto
  next
    case False
    then have *: "grp d (zs @ [p]) l k = grp d zs l k" by (auto simp: grp_append)
    have "set (grp d zs l k) \<inter> set G = {}" using False assms(5,8) by (auto simp: grp_def)
    then have "lseg node_next h' (front (grp d zs l k)) (grp d zs l k) None = lseg node_next h (front (grp d zs l k)) (grp d zs l k) None"
      using assms(7) by (intro lseg_cong) auto
    then show ?thesis using assms(1) ne * by (simp add: chains_def)
  qed
qed

lemma load_node:
  assumes ld: "loaded d zs (rb_by_length m) h" and p: "h p = Some n" "node_next n = None" "p \<notin> set zs"
    and ok: "\<And>a. a \<in> set (zs @ [p]) \<Longrightarrow> node_ok (length (rb_by_length m)) d a" and dist: "distinct zs" and fuel: "length zs \<le> fuel"
  shows "\<exists>ts h'. range_map_load_node fuel p m h = Inr (m\<lparr>rb_by_length := ts\<rparr>, h') \<and> loaded d (zs @ [p]) ts h' \<and>
    length ts = length (rb_by_length m) \<and> (\<forall>a. a \<notin> set zs \<longrightarrow> h' a = h a)"
proof -
  let ?l = "hash_length n" and ?ts = "rb_by_length m"
  let ?G = "grp d zs ?l (hash_buffer n)"
  have d: "static h = d" "trees d zs ?ts" "chains d zs h" using ld by (auto simp: loaded_def)
  have pl: "hlen d p = ?l" "hkey d p = take ?l (hash_buffer n)" using d(1) p(1) by auto
  have okp: "?l < length ?ts" "?l \<le> length (hash_buffer n)"
    using ok [of p] d(1) p(1) by (auto simp: node_ok_def static_def set_next_def)
  have find: "range_find m ?l (hash_buffer n) h = Inr (front ?G)"
    using range_find [of h zs m ?l "hash_buffer n" "length ?ts"] d ok okp by auto
  have G: "?G = grp d zs (hlen d p) (hkey d p)" using pl by (simp add: grp_take)
  show ?thesis
  proof (cases ?G)
    case (Cons s xs)
    then have ne: "?G \<noteq> []" by simp
    then have "lseg node_next h (front ?G) ?G None" using d(3) unfolding chains_def by blast
    then have seg: "lseg node_next h (Some s) ?G None" using Cons by simp
    have "length ?G \<le> fuel" using grp_length fuel le_trans by blast
    then obtain h' where h': "append_to_chain fuel s p h = Inr h'" "static h' = static h" "lseg node_next h' (Some s) ?G (Some p)"
        "\<forall>a. a \<notin> set ?G \<longrightarrow> h' a = h a"
      using append_to_chain [OF seg ne _ grp_distinct [OF dist]] by blast
    have "chains d (zs @ [p]) h'"
      using chains_extended [OF d(3) p(3,1,2) G, of h'] h'(3,4) Cons pl by simp
    moreover have "head_of d zs ?l (hkey d p) \<noteq> None" using Cons pl okp by (auto simp: head_of_def G [symmetric] grp_take)
    then have "head_of d (zs @ [p]) = head_of d zs" using pl by (intro ext) (auto simp: head_of_append)
    then have "trees d (zs @ [p]) ?ts" using d(2) by (simp add: trees_def)
    moreover have "range_map_load_node fuel p m h = Inr (m, h')"
      using p(1) find Cons h'(1) by (simp add: range_map_load_node_def node_at_def)
    moreover have "\<forall>a. a \<notin> set zs \<longrightarrow> h' a = h a" using h'(4) grp_subset by blast
    ultimately show ?thesis using h'(2) d(1) by (intro exI [of _ ?ts] exI [of _ h']) (simp add: loaded_def)
  next
    case Nil
    have "ran (head_of d zs ?l) \<subseteq> comparable ?l (hash_buffer n) h"
    proof
      fix a assume "a \<in> ran (head_of d zs ?l)"
      then have a: "a \<in> set zs" "hlen d a = ?l" by (auto simp: ran_def dest!: head_of_SomeD)
      then show "a \<in> comparable ?l (hash_buffer n) h" using okp ok [of a] d(1)
        by (auto simp: comparable_def node_ok_def static_def hlen_def set_next_def)
    qed
    moreover have "rb_abs (hkey (static h)) (?ts ! ?l) (head_of d zs ?l)" using d okp by (simp add: trees_def)
    moreover have "hkey (static h) p = take ?l (hash_buffer n)" using d(1) pl by simp
    ultimately obtain u where u: "RB_INSERT (range_node_compare ?l (hash_buffer n) h) p (?ts ! ?l) =
        Inr (head_of d zs ?l (take ?l (hash_buffer n)), u)" "rb_abs (hkey d) u (map_op (hkey d) (Insert p) (head_of d zs ?l))"
      using range.insert_abs [of h "?ts ! ?l" "head_of d zs ?l" ?l "hash_buffer n" p] d(1) by auto
    have none: "head_of d zs ?l (hkey d p) = None" using Nil pl okp by (simp add: head_of_def grp_take)
    have "trees d (zs @ [p]) (?ts[?l := u])"
      unfolding trees_def
    proof (intro allI impI)
      fix l assume l: "l < length (?ts[?l := u])"
      show "rb_abs (hkey d) (?ts[?l := u] ! l) (head_of d (zs @ [p]) l)"
      proof (cases "l = ?l")
        case True
        then show ?thesis using u(2) none pl okp l by (simp add: head_of_append)
      next
        case False
        then show ?thesis using d(2) l pl by (simp add: trees_def head_of_append)
      qed
    qed
    moreover have "chains d (zs @ [p]) h" using chains_new [of d zs h h p n] d(3) p G Nil pl by simp
    moreover have "range_map_load_node fuel p m h = Inr (m\<lparr>rb_by_length := ?ts[?l := u]\<rparr>, h)"
      using p(1) find Nil u(1) okp by (simp add: range_map_load_node_def node_at_def tree_at_def rd_def)
    ultimately show ?thesis using d(1) by (intro exI [of _ "?ts[?l := u]"] exI [of _ h]) (simp add: loaded_def)
  qed
qed

lemma lseg_all_static: "lseg all_node_list_next (static h) p xs q = lseg all_node_list_next h p xs q"
  by (rule lseg_cong) (simp add: static_def set_next_def option.map_comp comp_def)

lemma load_loop:
  assumes "loaded d zs (rb_by_length m) h" "lseg all_node_list_next d p ps None" "distinct (zs @ ps)"
    and "\<And>a. a \<in> set (zs @ ps) \<Longrightarrow> node_ok (length (rb_by_length m)) d a" "length ps \<le> n" "length (zs @ ps) \<le> fuel"
  shows "\<exists>ts h'. load_loop fuel n p m h = Inr (m\<lparr>rb_by_length := ts\<rparr>, h') \<and> loaded d (zs @ ps) ts h' \<and>
    length ts = length (rb_by_length m) \<and> (\<forall>a. a \<notin> set (zs @ ps) \<longrightarrow> h' a = h a)"
  using assms
proof (induction ps arbitrary: zs p m h n)
  case Nil
  then show ?case by (intro exI [of _ "rb_by_length m"] exI [of _ h]) simp
next
  case (Cons x ps)
  obtain n' where n: "n = Suc n'" using Cons.prems(5) by (cases n) auto
  have sd: "static h = d" using Cons.prems(1) by (simp add: loaded_def)
  obtain y where y: "p = Some x" "d x = Some y" "lseg all_node_list_next d (all_node_list_next y) ps None"
    using Cons.prems(2) by auto
  obtain z where z: "h x = Some z" "set_next None z = y" using y(2) sd by (auto simp: static_def)
  let ?h = "h(x \<mapsto> set_next None z)"
  have x: "x \<notin> set zs" using Cons.prems(3) by simp
  have "chains d zs ?h"
    unfolding chains_def
  proof (intro allI impI)
    fix l k assume "grp d zs l k \<noteq> []"
    then have "lseg node_next h (front (grp d zs l k)) (grp d zs l k) None"
      using Cons.prems(1) by (simp add: loaded_def chains_def)
    then show "lseg node_next ?h (front (grp d zs l k)) (grp d zs l k) None"
      using x grp_subset [of d zs l k] by (subst lseg_frame) auto
  qed
  then have ld: "loaded d zs (rb_by_length m) ?h" using Cons.prems(1) z(1) by (simp add: loaded_def)
  have "\<exists>ts h'. range_map_load_node fuel x m ?h = Inr (m\<lparr>rb_by_length := ts\<rparr>, h') \<and> loaded d (zs @ [x]) ts h' \<and>
      length ts = length (rb_by_length m) \<and> (\<forall>a. a \<notin> set zs \<longrightarrow> h' a = ?h a)"
    using Cons.prems(3-6) x by (intro load_node [OF ld]) (auto simp: set_next_def)
  then obtain ts h' where h': "range_map_load_node fuel x m ?h = Inr (m\<lparr>rb_by_length := ts\<rparr>, h')" "loaded d (zs @ [x]) ts h'"
      "length ts = length (rb_by_length m)" "\<forall>a. a \<notin> set zs \<longrightarrow> h' a = ?h a" by blast
  have "h' x = Some y" using h'(4) x z(2) by simp
  moreover have "\<exists>ts' h''. load_loop fuel n' (all_node_list_next y) (m\<lparr>rb_by_length := ts\<rparr>) h' = Inr (m\<lparr>rb_by_length := ts\<rparr>\<lparr>rb_by_length := ts'\<rparr>, h'') \<and>
      loaded d ((zs @ [x]) @ ps) ts' h'' \<and> length ts' = length (rb_by_length (m\<lparr>rb_by_length := ts\<rparr>)) \<and>
      (\<forall>a. a \<notin> set ((zs @ [x]) @ ps) \<longrightarrow> h'' a = h' a)"
    using h'(2,3) Cons.prems(3-6) n y(3) by (intro Cons.IH) auto
  ultimately show ?case using y(1) n z(1) h'(1,3,4) by (auto simp: upd_next node_at_def)
qed

section \<open>Links to shorter prefixes\<close>

text \<open>
  The state while the links are made: the chain of a prefix ends at the chain of the next shorter one if the prefix is among
  the finished ones, given by \<open>P\<close>, and with a null pointer otherwise.
\<close>

definition linked :: "node_heap \<Rightarrow> addr list \<Rightarrow> (nat \<Rightarrow> byte list \<Rightarrow> bool) \<Rightarrow> node_heap \<Rightarrow> bool" where
  "linked d ys P h \<longleftrightarrow> (\<forall>l k. grp d ys l k \<noteq> [] \<longrightarrow>
     lseg node_next h (front (grp d ys l k)) (grp d ys l k) (if P l (take l k) then front (below d ys l k) else None))"

lemma linkedD: "linked d ys P h \<Longrightarrow> grp d ys l k \<noteq> [] \<Longrightarrow>
    lseg node_next h (front (grp d ys l k)) (grp d ys l k) (if P l (take l k) then front (below d ys l k) else None)"
  by (auto simp: linked_def)

lemma link_loop:
  assumes "static h = d" "trees d ys (rb_by_length m)" "j \<le> length (rb_by_length m)" "j \<le> length hash"
    and "\<And>a. a \<in> set ys \<Longrightarrow> node_ok L d a"
  shows "link_loop fuel m hash n j h = (case front (below d ys j hash) of None \<Rightarrow> Inr h | Some p \<Rightarrow> append_to_chain fuel n p h)"
  using assms(3,4)
proof (induction j)
  case (Suc j)
  have "range_find m j hash h = Inr (front (grp d ys j hash))"
    using range_find [of h ys m j hash L] assms(1,2,5) Suc.prems by auto
  then show ?case using Suc by (cases "grp d ys j hash") auto
qed simp

text \<open>One node: its chain gets linked, all others stay.\<close>

lemma link_node:
  assumes d: "static h = d" "trees d ys (rb_by_length m)" "linked d ys P h" "distinct ys"
    and ok: "\<And>a. a \<in> set ys \<Longrightarrow> node_ok (length (rb_by_length m)) d a"
    and n: "grp d ys l k \<noteq> []" "front (grp d ys l k) = Some n" "\<not> P l (take l k)" and fuel: "length ys \<le> fuel"
  shows "\<exists>h'. range_map_link_short_match fuel m (int l - 1) n h = Inr h' \<and> static h' = d \<and>
    linked d ys (\<lambda>l' k'. P l' k' \<or> l' = l \<and> k' = take l k) h' \<and> (\<forall>a. a \<notin> set ys \<longrightarrow> h' a = h a)"
proof -
  let ?G = "grp d ys l k" and ?P = "\<lambda>l' k'. P l' k' \<or> l' = l \<and> k' = take l k"
  have nG: "n \<in> set ?G" using front_SomeD [OF n(2)] .
  then have nd: "n \<in> set ys" "hlen d n = l" "hkey d n = take l k" by (auto simp: grp_def)
  then obtain x where x: "h n = Some x" "hash_length x = l" "l \<le> length (hash_buffer x)" "take l (hash_buffer x) = take l k"
      "l < length (rb_by_length m)"
    using ok [OF nd(1)] d(1) by (auto simp: node_ok_def static_def hlen_def hkey_def set_next_def)
  have b: "below d ys l (hash_buffer x) = below d ys l k" using below_take [of l l d ys] x(4) by (metis order_refl)
  have step: "range_map_link_short_match fuel m (int l - 1) n h =
      (case front (below d ys l k) of None \<Rightarrow> Inr h | Some p \<Rightarrow> append_to_chain fuel n p h)"
  proof (cases l)
    case (Suc j)
    then have "nat (int l - 1) + 1 = l" by simp
    then show ?thesis using link_loop [OF d(1,2), of l "hash_buffer x" _ fuel n] ok x b Suc
      by (auto simp: range_map_link_short_match_def node_at_def)
  qed (simp add: range_map_link_short_match_def)
  have seg: "lseg node_next h (Some n) ?G None" using linkedD [OF d(3) n(1)] n(2,3) by simp
  show ?thesis
  proof (cases "front (below d ys l k)")
    case None
    have "linked d ys ?P h"
      unfolding linked_def
    proof (intro allI impI)
      fix l' k' assume "grp d ys l' k' \<noteq> []"
      note * = linkedD [OF d(3) this]
      show "lseg node_next h (front (grp d ys l' k')) (grp d ys l' k') (if ?P l' (take l' k') then front (below d ys l' k') else None)"
      proof (cases "l' = l \<and> take l' k' = take l k")
        case True
        then have "below d ys l' k' = below d ys l k" using below_take [of l l d ys] by (metis order_refl)
        then show ?thesis using * None by (auto split: if_splits)
      qed (use * in auto)
    qed
    then show ?thesis using step None d(1) by auto
  next
    case (Some p)
    obtain h' where h': "append_to_chain fuel n p h = Inr h'" "static h' = static h" "lseg node_next h' (Some n) ?G (Some p)"
        "\<forall>a. a \<notin> set ?G \<longrightarrow> h' a = h a"
      using append_to_chain [OF seg n(1) le_trans [OF grp_length fuel] grp_distinct [OF d(4)]] by blast
    have "linked d ys ?P h'"
      unfolding linked_def
    proof (intro allI impI)
      fix l' k' assume ne: "grp d ys l' k' \<noteq> []"
      show "lseg node_next h' (front (grp d ys l' k')) (grp d ys l' k') (if ?P l' (take l' k') then front (below d ys l' k') else None)"
      proof (cases "l' = l \<and> take l' k' = take l k")
        case True
        then have "grp d ys l' k' = ?G" using grp_take by metis
        moreover have "below d ys l' k' = below d ys l k" using True below_take [of l l d ys] by (metis order_refl)
        ultimately have "lseg node_next h' (front (grp d ys l' k')) (grp d ys l' k') (front (below d ys l' k'))"
          using Some h'(3) n(2) by (simp only:)
        moreover have "?P l' (take l' k')" using True by blast
        ultimately show ?thesis by (simp only: if_True)
      next
        case False
        then have "set (grp d ys l' k') \<inter> set ?G = {}" using grp_disjoint [of _ d ys l' k' l k] by blast
        then have "lseg node_next h' (front (grp d ys l' k')) (grp d ys l' k') q = lseg node_next h (front (grp d ys l' k')) (grp d ys l' k') q" for q
          using h'(4) by (intro lseg_cong) auto
        moreover have "?P l' (take l' k') = P l' (take l' k')" using False by blast
        ultimately show ?thesis using linkedD [OF d(3) ne] by (simp only:)
      qed
    qed
    moreover have "\<forall>a. a \<notin> set ys \<longrightarrow> h' a = h a" using h'(4) grp_subset by blast
    ultimately show ?thesis using step Some h'(1,2) d(1) by simp
  qed
qed

lemma linked_cong:
  assumes "linked d ys P h" "\<And>l k. grp d ys l k \<noteq> [] \<Longrightarrow> P l (take l k) = Q l (take l k)"
  shows "linked d ys Q h"
  using assms unfolding linked_def by auto

lemma link_nodes:
  assumes "static h = d" "trees d ys (rb_by_length m)" "linked d ys P h" "distinct ys" "length ys \<le> fuel"
    and ok: "\<And>a. a \<in> set ys \<Longrightarrow> node_ok (length (rb_by_length m)) d a"
    and ns: "\<And>n. n \<in> set ns \<Longrightarrow> head_of d ys l (hkey d n) = Some n \<and> \<not> P l (hkey d n)" "distinct (map (hkey d) ns)"
  shows "\<exists>h'. link_nodes fuel m l ns (lg, h) = Inr (if lg = 0 \<and> ns \<noteq> [] then l else lg, h') \<and> static h' = d \<and>
    linked d ys (\<lambda>l' k'. P l' k' \<or> l' = l \<and> k' \<in> hkey d ` set ns) h' \<and> (\<forall>a. a \<notin> set ys \<longrightarrow> h' a = h a)"
  using assms(1-5) ns
proof (induction ns arbitrary: P h lg)
  case Nil
  then show ?case by simp
next
  case (Cons n ns)
  have n: "head_of d ys l (hkey d n) = Some n" "\<not> P l (hkey d n)" using Cons.prems(6) by auto
  then have len: "length (hkey d n) = l" by (auto simp: head_of_def split: if_splits)
  then have g: "front (grp d ys l (hkey d n)) = Some n" using n(1) by (simp add: head_of_def)
  then have ne: "grp d ys l (hkey d n) \<noteq> []" by auto
  obtain h1 where h1: "range_map_link_short_match fuel m (int l - 1) n h = Inr h1" "static h1 = d"
      "linked d ys (\<lambda>l' k'. P l' k' \<or> l' = l \<and> k' = hkey d n) h1" "\<forall>a. a \<notin> set ys \<longrightarrow> h1 a = h a"
    using link_node [OF Cons.prems(1-4) ok ne g _ Cons.prems(5)] n(2) len by auto
  let ?P = "\<lambda>l' k'. P l' k' \<or> l' = l \<and> k' = hkey d n" and ?lg = "if lg = 0 then l else lg"
  have "hkey d b \<noteq> hkey d n" if "b \<in> set ns" for b using Cons.prems(7) that by (auto simp: image_iff)
  then have "\<exists>h'. link_nodes fuel m l ns (?lg, h1) = Inr (if ?lg = 0 \<and> ns \<noteq> [] then l else ?lg, h') \<and> static h' = d \<and>
      linked d ys (\<lambda>l' k'. ?P l' k' \<or> l' = l \<and> k' \<in> hkey d ` set ns) h' \<and> (\<forall>a. a \<notin> set ys \<longrightarrow> h' a = h1 a)"
    using Cons.prems(6,7) h1(2,3) by (intro Cons.IH Cons.prems(2,4,5)) auto
  then obtain h' where h': "link_nodes fuel m l ns (?lg, h1) = Inr (if ?lg = 0 \<and> ns \<noteq> [] then l else ?lg, h')" "static h' = d"
      "linked d ys (\<lambda>l' k'. ?P l' k' \<or> l' = l \<and> k' \<in> hkey d ` set ns) h'" "\<forall>a. a \<notin> set ys \<longrightarrow> h' a = h1 a" by blast
  have "linked d ys (\<lambda>l' k'. P l' k' \<or> l' = l \<and> k' \<in> hkey d ` set (n # ns)) h'"
    by (rule linked_cong [OF h'(3)]) auto
  then show ?case using h1(1,4) h'(1,2,4) by (auto simp: Let_def)
qed

definition level_used :: "node_heap \<Rightarrow> addr list \<Rightarrow> nat \<Rightarrow> bool" where
  "level_used d ys l \<longleftrightarrow> (\<exists>a \<in> set ys. hlen d a = l)"

lemma cross_loop:
  assumes "static h = d" "trees d ys (rb_by_length m)" "linked d ys (\<lambda>l' k'. j \<le> l') h" "distinct ys" "length ys \<le> fuel"
    and ok: "\<And>a. a \<in> set ys \<Longrightarrow> node_ok (length (rb_by_length m)) d a" and "j \<le> length (rb_by_length m)"
    and "lg = 0 \<or> j \<le> lg" "\<And>l. j \<le> l \<Longrightarrow> level_used d ys l \<Longrightarrow> l \<le> lg"
  shows "\<exists>lg' h'. cross_loop fuel m j (lg, h) = Inr (lg', h') \<and> static h' = d \<and> linked d ys (\<lambda>l' k'. True) h' \<and>
    (\<forall>a. a \<notin> set ys \<longrightarrow> h' a = h a) \<and> (\<forall>l. level_used d ys l \<longrightarrow> l \<le> lg') \<and> (lg' = lg \<or> lg' < j)"
  using assms(1-5,7-)
proof (induction j arbitrary: h lg)
  case 0
  then show ?case by simp
next
  case (Suc j)
  let ?t = "rb_by_length m ! j"
  have j: "j < length (rb_by_length m)" using Suc.prems(6) by simp
  have abs: "rb_abs (hkey d) ?t (head_of d ys j)" using Suc.prems(2) j by (simp add: trees_def)
  have io: "RB_FOREACH ?t = inorder ?t" "set (inorder ?t) = ran (head_of d ys j)" "distinct (map (hkey d) (inorder ?t))"
    using rb_abs_foreach [OF abs] rb_abs_ran [OF abs] abs strict_sorted_iff by (auto simp: rb_abs_def)
  have heads: "head_of d ys j (hkey d n) = Some n" if "n \<in> set (inorder ?t)" for n
    using that abs by (simp add: rb_abs_def)
  have used: "inorder ?t \<noteq> [] \<longleftrightarrow> level_used d ys j"
  proof
    assume "inorder ?t \<noteq> []"
    then obtain n where "n \<in> set (inorder ?t)" by fastforce
    then show "level_used d ys j" using head_of_SomeD [OF heads] by (auto simp: level_used_def)
  next
    assume "level_used d ys j"
    then obtain a where a: "a \<in> set ys" "hlen d a = j" by (auto simp: level_used_def)
    then have "a \<in> set (grp d ys j (hkey d a))" using hkey_length [OF ok [OF a(1)]] by (simp add: grp_def)
    then obtain b where "head_of d ys j (hkey d a) = Some b" using hkey_length [OF ok [OF a(1)]] a(2)
      by (cases "grp d ys j (hkey d a)") (auto simp: head_of_def)
    then show "inorder ?t \<noteq> []" using io(2) by (metis empty_iff list.set(1) ranI)
  qed
  have "\<exists>h'. link_nodes fuel m j (inorder ?t) (lg, h) = Inr (if lg = 0 \<and> inorder ?t \<noteq> [] then j else lg, h') \<and> static h' = d \<and>
      linked d ys (\<lambda>l' k'. Suc j \<le> l' \<or> l' = j \<and> k' \<in> hkey d ` set (inorder ?t)) h' \<and> (\<forall>a. a \<notin> set ys \<longrightarrow> h' a = h a)"
    using heads io(3) by (intro link_nodes Suc.prems(1-5) ok) auto
  then obtain h1 where h1: "link_nodes fuel m j (inorder ?t) (lg, h) = Inr (if lg = 0 \<and> inorder ?t \<noteq> [] then j else lg, h1)"
      "static h1 = d" "linked d ys (\<lambda>l' k'. Suc j \<le> l' \<or> l' = j \<and> k' \<in> hkey d ` set (inorder ?t)) h1"
      "\<forall>a. a \<notin> set ys \<longrightarrow> h1 a = h a" by blast
  let ?lg = "if lg = 0 \<and> inorder ?t \<noteq> [] then j else lg"
  have "linked d ys (\<lambda>l' k'. j \<le> l') h1"
  proof (rule linked_cong [OF h1(3)])
    fix l k assume ne: "grp d ys l k \<noteq> []"
    then obtain b where b: "front (grp d ys l k) = Some b" by (cases "grp d ys l k") auto
    then have "b \<in> set ys" "hlen d b = l" "hkey d b = take l k" using front_SomeD [OF b] by (auto simp: grp_def)
    then have "head_of d ys l (take l k) = Some b"
      using b hkey_length [OF ok, of b] by (simp add: head_of_def grp_take)
    then have "l = j \<Longrightarrow> take l k \<in> hkey d ` set (inorder ?t)"
      using io(2) \<open>hkey d b = take l k\<close> by (auto simp: ran_def image_iff)
    then show "(Suc j \<le> l \<or> l = j \<and> take l k \<in> hkey d ` set (inorder ?t)) = (j \<le> l)" by (cases "l = j") auto
  qed
  moreover have "l \<le> ?lg" if "j \<le> l" "level_used d ys l" for l
    using Suc.prems(7) Suc.prems(8) [of l] that used by (cases "l = j") (auto simp: le_Suc_eq)
  ultimately have "\<exists>lg' h'. cross_loop fuel m j (?lg, h1) = Inr (lg', h') \<and> static h' = d \<and> linked d ys (\<lambda>l' k'. True) h' \<and>
      (\<forall>a. a \<notin> set ys \<longrightarrow> h' a = h1 a) \<and> (\<forall>l. level_used d ys l \<longrightarrow> l \<le> lg') \<and> (lg' = ?lg \<or> lg' < j)"
    using Suc.prems h1(2) by (intro Suc.IH) auto
  then obtain lg' h' where h': "cross_loop fuel m j (?lg, h1) = Inr (lg', h')" "static h' = d" "linked d ys (\<lambda>l' k'. True) h'"
      "\<forall>a. a \<notin> set ys \<longrightarrow> h' a = h1 a" "\<forall>l. level_used d ys l \<longrightarrow> l \<le> lg'" "lg' = ?lg \<or> lg' < j" by blast
  then show ?case using h1(1,4) io(1) j by (auto simp: tree_at_def rd_def split: if_splits)
qed

section \<open>Removal of marked nodes\<close>

text \<open>The contents of a node without its two links.\<close>

definition core :: "range_node_t \<Rightarrow> range_node_t" where
  "core n = n\<lparr>node_next := None, all_node_list_next := None\<rparr>"

definition cores :: "node_heap \<Rightarrow> node_heap" where
  "cores h = (\<lambda>a. map_option core (h a))"

definition marked :: "node_heap \<Rightarrow> addr \<Rightarrow> bool" where
  "marked h a \<longleftrightarrow> node_flags (the (h a)) AND RM_NODE_DELETE \<noteq> 0"

lemma core_eqD: "core x = core y \<Longrightarrow> hash_length x = hash_length y \<and> hash_buffer x = hash_buffer y \<and> node_flags x = node_flags y \<and>
    address x = address y"
  unfolding core_def
  by (intro conjI; drule arg_cong [where f = hash_length] arg_cong [where f = hash_buffer] arg_cong [where f = node_flags]
      arg_cong [where f = address]; simp)

lemma marked_cores: "cores h a = cores h' a \<Longrightarrow> h a \<noteq> None \<Longrightarrow> marked h a = marked h' a"
  by (cases "h a"; cases "h' a") (auto simp: cores_def marked_def dest!: core_eqD)

lemma lseg_last:
  assumes "lseg f h p (xs @ [x]) r" "distinct (xs @ [x])" "h x = Some n"
  shows "lseg f (h(x \<mapsto> g n)) p (xs @ [x]) (f (g n))"
  using assms by (auto simp: lseg_append lseg_frame)

lemma freed_one:
  assumes "\<forall>a. if a \<in> set ps \<and> marked h1 a then h' a = None else cores h' a = cores h1 a" "x \<notin> set ps"
    and "marked h x" "h' x = None" "\<And>a. a \<noteq> x \<Longrightarrow> marked h1 a = marked h a" "\<And>a. a \<noteq> x \<Longrightarrow> cores h1 a = cores h a"
  shows "\<forall>a. if a \<in> set (x # ps) \<and> marked h a then h' a = None else cores h' a = cores h a"
  using assms by (metis set_ConsD list.set_intros(1,2))

lemma clean_loop:
  assumes "lseg all_node_list_next h (all_list m) zs p" "lseg all_node_list_next h p ps None" "distinct (zs @ ps)"
    and "pp = (if zs = [] then None else Some (last zs))" "length ps \<le> fuel"
  shows "\<exists>q h'. clean_loop fuel pp p m h = Inr (m\<lparr>all_list := q\<rparr>, h') \<and>
    lseg all_node_list_next h' q (zs @ filter (\<lambda>a. \<not> marked h a) ps) None \<and>
    (\<forall>a. if a \<in> set ps \<and> marked h a then h' a = None else cores h' a = cores h a) \<and>
    (\<forall>a. a \<notin> set (zs @ ps) \<longrightarrow> h' a = h a)"
  using assms
proof (induction ps arbitrary: zs pp p m h fuel)
  case Nil
  then show ?case by (intro exI [of _ "all_list m"] exI [of _ h]) simp
next
  case (Cons x ps)
  obtain fuel' where fuel: "fuel = Suc fuel'" using Cons.prems(5) by (cases fuel) auto
  obtain n where n: "p = Some x" "h x = Some n" "lseg all_node_list_next h (all_node_list_next n) ps None"
    using Cons.prems(2) by auto
  show ?case
  proof (cases "marked h x")
    case False
    let ?h = "h(x \<mapsto> set_next None n)"
    have same: "lseg all_node_list_next ?h q ys r = lseg all_node_list_next h q ys r" for q ys r
      using n(2) by (intro lseg_cong) (auto simp: set_next_def)
    have mk: "marked ?h a = marked h a" for a using n(2) by (auto simp: marked_def set_next_def)
    have "\<exists>q h'. clean_loop fuel' (Some x) (all_node_list_next n) m ?h = Inr (m\<lparr>all_list := q\<rparr>, h') \<and>
      lseg all_node_list_next h' q ((zs @ [x]) @ filter (\<lambda>a. \<not> marked ?h a) ps) None \<and>
      (\<forall>a. if a \<in> set ps \<and> marked ?h a then h' a = None else cores h' a = cores ?h a) \<and>
      (\<forall>a. a \<notin> set ((zs @ [x]) @ ps) \<longrightarrow> h' a = ?h a)"
    proof (rule Cons.IH)
      show "lseg all_node_list_next ?h (all_list m) (zs @ [x]) (all_node_list_next n)"
        unfolding same lseg_append using Cons.prems(1) n by auto
      show "lseg all_node_list_next ?h (all_node_list_next n) ps None" using n(3) by (simp only: same)
    qed (use Cons.prems fuel in auto)
    moreover have "cores ?h = cores h" using n(2) by (auto simp: cores_def core_def set_next_def)
    moreover have "clean_loop fuel pp p m h = clean_loop fuel' (Some x) (all_node_list_next n) m ?h"
      using n False fuel by (simp add: node_at_def marked_def upd_next)
    ultimately obtain q h' where r: "clean_loop fuel pp p m h = Inr (m\<lparr>all_list := q\<rparr>, h')"
        "lseg all_node_list_next h' q ((zs @ [x]) @ filter (\<lambda>a. \<not> marked ?h a) ps) None"
        "\<forall>a. if a \<in> set ps \<and> marked ?h a then h' a = None else cores h' a = cores h a"
        "\<forall>a. a \<notin> set ((zs @ [x]) @ ps) \<longrightarrow> h' a = ?h a" by metis
    have "\<forall>a. if a \<in> set (x # ps) \<and> marked h a then h' a = None else cores h' a = cores h a"
      using r(3) False mk by (metis set_ConsD list.set_intros(2))
    then show ?thesis using r False mk by (intro exI [of _ q] exI [of _ h']) simp
  next
    case True
    show ?thesis
    proof (cases zs rule: rev_cases)
      case Nil
      let ?m = "m\<lparr>all_list := all_node_list_next n\<rparr>" and ?h = "h(x := None)"
      have x: "x \<notin> set ps" using Cons.prems(3) by simp
      have mk: "a \<noteq> x \<Longrightarrow> marked ?h a = marked h a" for a by (simp add: marked_def)
      have "\<exists>q h'. clean_loop fuel' None (all_node_list_next n) ?m ?h = Inr (?m\<lparr>all_list := q\<rparr>, h') \<and>
        lseg all_node_list_next h' q ([] @ filter (\<lambda>a. \<not> marked ?h a) ps) None \<and>
        (\<forall>a. if a \<in> set ps \<and> marked ?h a then h' a = None else cores h' a = cores ?h a) \<and>
        (\<forall>a. a \<notin> set ([] @ ps) \<longrightarrow> h' a = ?h a)"
      proof (rule Cons.IH)
        show "lseg all_node_list_next ?h (all_node_list_next n) ps None" unfolding lseg_frame [OF x] by (rule n(3))
      qed (use Cons.prems fuel in auto)
      moreover have "clean_loop fuel pp p m h = clean_loop fuel' None (all_node_list_next n) ?m ?h"
        using n True fuel Nil Cons.prems(4) by (simp add: node_at_def marked_def Let_def)
      moreover have "filter (\<lambda>a. \<not> marked ?h a) ps = filter (\<lambda>a. \<not> marked h a) ps" using x mk by (intro filter_cong) metis+
      ultimately obtain q h' where r: "clean_loop fuel pp p m h = Inr (m\<lparr>all_list := q\<rparr>, h')"
          "lseg all_node_list_next h' q (filter (\<lambda>a. \<not> marked h a) ps) None"
          "\<forall>a. if a \<in> set ps \<and> marked ?h a then h' a = None else cores h' a = cores ?h a"
          "\<forall>a. a \<notin> set ps \<longrightarrow> h' a = ?h a" by auto
      have "\<forall>a. if a \<in> set (x # ps) \<and> marked h a then h' a = None else cores h' a = cores h a"
        by (rule freed_one [OF r(3) x]) (use True r(4) mk x in \<open>auto simp: cores_def\<close>)
      then show ?thesis using r True Nil by (intro exI [of _ q] exI [of _ h']) auto
    next
      case (snoc ws q)
      obtain y where y: "h q = Some y" using lseg_alloc [OF Cons.prems(1), of q] snoc by auto
      let ?g = "\<lambda>y. y\<lparr>all_node_list_next := all_node_list_next n\<rparr>"
      let ?h = "(h(q \<mapsto> ?g y))(x := None)"
      have x: "x \<notin> set ps" "x \<notin> set zs" "q \<notin> set ps" "x \<noteq> q" using Cons.prems(3) snoc by auto
      have mk: "a \<noteq> x \<Longrightarrow> marked ?h a = marked h a" for a using y by (simp add: marked_def)
      have "lseg all_node_list_next (h(q \<mapsto> ?g y)) (all_list m) zs (all_node_list_next n)"
        using lseg_last [of all_node_list_next h "all_list m" ws q p y ?g] Cons.prems(1,3) snoc y by simp
      then have "lseg all_node_list_next ?h (all_list m) zs (all_node_list_next n)" unfolding lseg_frame [OF x(2)] .
      moreover have "lseg all_node_list_next ?h (all_node_list_next n) ps None" using n(3) x(1,3) by (simp add: lseg_frame)
      ultimately have "\<exists>r h'. clean_loop fuel' (Some q) (all_node_list_next n) m ?h = Inr (m\<lparr>all_list := r\<rparr>, h') \<and>
        lseg all_node_list_next h' r (zs @ filter (\<lambda>a. \<not> marked ?h a) ps) None \<and>
        (\<forall>a. if a \<in> set ps \<and> marked ?h a then h' a = None else cores h' a = cores ?h a) \<and>
        (\<forall>a. a \<notin> set (zs @ ps) \<longrightarrow> h' a = ?h a)"
        by (rule Cons.IH) (use Cons.prems(3,5) fuel x snoc in auto)
      moreover have "clean_loop fuel pp p m h = clean_loop fuel' (Some q) (all_node_list_next n) m ?h"
        using n True fuel snoc Cons.prems(4) y by (simp add: node_at_def marked_def upd_node_def Let_def)
      moreover have "filter (\<lambda>a. \<not> marked ?h a) ps = filter (\<lambda>a. \<not> marked h a) ps" using x mk by (intro filter_cong) metis+
      moreover have "cores ?h a = cores h a" if "a \<noteq> x" for a using that y by (simp add: cores_def core_def)
      ultimately obtain r h' where r: "clean_loop fuel pp p m h = Inr (m\<lparr>all_list := r\<rparr>, h')"
          "lseg all_node_list_next h' r (zs @ filter (\<lambda>a. \<not> marked h a) ps) None"
          "\<forall>a. if a \<in> set ps \<and> marked ?h a then h' a = None else cores h' a = cores ?h a"
          "\<forall>a. a \<notin> set (zs @ ps) \<longrightarrow> h' a = ?h a" "\<And>a. a \<noteq> x \<Longrightarrow> cores ?h a = cores h a" by auto
      have "\<forall>a. if a \<in> set (x # ps) \<and> marked h a then h' a = None else cores h' a = cores h a"
        by (rule freed_one [OF r(3) x(1)]) (use True r(4,5) mk x in auto)
      then show ?thesis using r True snoc x by (intro exI [of _ r] exI [of _ h']) auto
    qed
  qed
qed

section \<open>A map and its nodes\<close>

text \<open>The list of all nodes of a map, and the trees over the part \<open>zs\<close> of it that was there at the last flush.\<close>

definition map_ok :: "range_map_t \<Rightarrow> node_heap \<Rightarrow> addr list \<Rightarrow> bool" where
  "map_ok m h ys \<longleftrightarrow> lseg all_node_list_next h (all_list m) ys None \<and> distinct ys \<and> length (rb_by_length m) = HASH_VALUE_LENGTH \<and>
     (\<forall>a \<in> set ys. node_ok HASH_VALUE_LENGTH h a)"

definition shaped :: "range_map_t \<Rightarrow> node_heap \<Rightarrow> addr list \<Rightarrow> bool" where
  "shaped m h zs \<longleftrightarrow> trees (static h) zs (rb_by_length m) \<and> linked (static h) zs (\<lambda>l k. True) h \<and>
     longest m < HASH_VALUE_LENGTH \<and> (\<forall>l. level_used (static h) zs l \<longrightarrow> l \<le> longest m)"

lemma node_ok_static [simp]: "node_ok L (static h) a = node_ok L h a"
  by (cases "h a") (auto simp: node_ok_def static_def set_next_def)

lemma node_ok_cores: "cores h a = cores h' a \<Longrightarrow> node_ok L h a = node_ok L h' a"
  by (cases "h a"; cases "h' a") (auto simp: node_ok_def cores_def dest: core_eqD)

lemma map_ok_alloc: "map_ok m h ys \<Longrightarrow> a \<in> set ys \<Longrightarrow> \<exists>n. h a = Some n"
  by (auto simp: map_ok_def node_ok_def)

lemma head_of_Nil [simp]: "head_of d [] l = Map.empty"
  by (auto simp: head_of_def grp_def)

lemma load_correct:
  assumes "map_ok m h ys" "length ys \<le> fuel" "rb_by_length m = replicate HASH_VALUE_LENGTH RB_NULL"
  shows "\<exists>m' h'. range_map_load fuel m h = Inr (m', h') \<and> all_list m' = all_list m \<and> map_name m' = map_name m \<and>
    static h' = static h \<and> map_ok m' h' ys \<and> shaped m' h' ys \<and> (\<forall>a. a \<notin> set ys \<longrightarrow> h' a = h a)"
proof -
  let ?d = "static h" and ?L = HASH_VALUE_LENGTH
  have "loaded ?d [] (rb_by_length m) h"
    using assms(3) by (simp add: loaded_def trees_def chains_def grp_def)
  moreover have ok: "node_ok ?L ?d a" if "a \<in> set ys" for a using assms(1) that by (simp add: map_ok_def)
  ultimately obtain ts h1 where l: "load_loop fuel fuel (all_list m) m h = Inr (m\<lparr>rb_by_length := ts\<rparr>, h1)" "loaded ?d ys ts h1"
      "length ts = ?L" "\<forall>a. a \<notin> set ys \<longrightarrow> h1 a = h a"
    using load_loop [of ?d "[]" m h "all_list m" ys fuel fuel] assms by (auto simp: map_ok_def lseg_all_static)
  let ?m = "m\<lparr>rb_by_length := ts\<rparr>"
  have unused: "\<not> level_used ?d ys j" if "?L \<le> j" for j
    using ok that by (fastforce simp: level_used_def hlen_def node_ok_def)
  have "linked ?d ys (\<lambda>l k. ?L \<le> l) h1"
  proof -
    have "linked ?d ys (\<lambda>l k. False) h1" using l(2) by (auto simp: loaded_def chains_def linked_def)
    then show ?thesis
    proof (rule linked_cong)
      fix l k assume "grp ?d ys l k \<noteq> []"
      then have "level_used ?d ys l" by (auto simp: grp_def level_used_def filter_empty_conv)
      then show "False = (?L \<le> l)" using unused [of l] by blast
    qed
  qed
  then obtain lg h' where c: "cross_loop fuel ?m ?L (0, h1) = Inr (lg, h')" "static h' = ?d" "linked ?d ys (\<lambda>l k. True) h'"
      "\<forall>a. a \<notin> set ys \<longrightarrow> h' a = h1 a" "\<forall>l. level_used ?d ys l \<longrightarrow> l \<le> lg" "lg = 0 \<or> lg < ?L"
    using cross_loop [of h1 ?d ys ?m ?L fuel 0] l assms(1,2) ok unused by (auto simp: loaded_def map_ok_def)
  let ?m' = "m\<lparr>rb_by_length := ts, longest := lg\<rparr>"
  have "map_ok ?m' h' ys"
    using assms(1) l(3) c(2) lseg_all_static [of h'] lseg_all_static [of h] ok node_ok_static [of ?L h'] by (auto simp: map_ok_def)
  moreover have "shaped ?m' h' ys"
    using l(2) c by (auto simp: shaped_def loaded_def HASH_VALUE_LENGTH_def)
  moreover have "range_map_load fuel m h = Inr (?m', h')"
    using l(1,3) c(1) by (simp add: range_map_load_def range_map_build_cross_depth_reference_def)
  ultimately show ?thesis using c(2,4) l(4) by auto
qed

lemma clean_correct:
  assumes "map_ok m h ys" "length ys \<le> fuel"
  shows "\<exists>m' h'. range_map_clean fuel m h = Inr (m', h') \<and> map_name m' = map_name m \<and>
    rb_by_length m' = replicate HASH_VALUE_LENGTH RB_NULL \<and> map_ok m' h' (filter (\<lambda>a. \<not> marked h a) ys) \<and>
    (\<forall>a. if a \<in> set ys \<and> marked h a then h' a = None else cores h' a = cores h a) \<and> (\<forall>a. a \<notin> set ys \<longrightarrow> h' a = h a)"
proof -
  let ?m = "m\<lparr>rb_by_length := map (\<lambda>t. RB_NULL) (rb_by_length m)\<rparr>"
  obtain q h' where c: "clean_loop fuel None (all_list m) ?m h = Inr (?m\<lparr>all_list := q\<rparr>, h')"
      "lseg all_node_list_next h' q (filter (\<lambda>a. \<not> marked h a) ys) None"
      "\<forall>a. if a \<in> set ys \<and> marked h a then h' a = None else cores h' a = cores h a" "\<forall>a. a \<notin> set ys \<longrightarrow> h' a = h a"
    using clean_loop [of h ?m "[]" "all_list m" ys None fuel] assms by (auto simp: map_ok_def)
  have "node_ok HASH_VALUE_LENGTH h' a" if "a \<in> set ys" "\<not> marked h a" for a
  proof -
    have "cores h' a = cores h a" using c(3) that by metis
    then show ?thesis using node_ok_cores [of h' a h] assms(1) that by (simp add: map_ok_def)
  qed
  then have "map_ok (?m\<lparr>all_list := q\<rparr>) h' (filter (\<lambda>a. \<not> marked h a) ys)"
    using assms(1) c(2) by (auto simp: map_ok_def)
  moreover have "rb_by_length (?m\<lparr>all_list := q\<rparr>) = replicate HASH_VALUE_LENGTH RB_NULL"
    using assms(1) by (simp add: map_ok_def map_replicate_const)
  ultimately show ?thesis using c by (auto simp: range_map_clean_def)
qed

lemma cores_static: "cores (static h) = cores h"
proof
  fix a show "cores (static h) a = cores h a"
    by (cases "h a") (simp_all add: cores_def static_def core_def set_next_def)
qed

lemma rebuild_correct:
  assumes "map_ok (range_map_list w ! i) (nodes w) ys" "length ys \<le> fuel"
  defines "zs \<equiv> filter (\<lambda>a. \<not> marked (nodes w) a) ys"
  shows "\<exists>m h. rebuild fuel i w = Inr (upd_map i (\<lambda>x. m) (w\<lparr>nodes := h\<rparr>)) \<and> map_name m = map_name (range_map_list w ! i) \<and>
    map_ok m h zs \<and> shaped m h zs \<and>
    (\<forall>a. if a \<in> set ys \<and> marked (nodes w) a then h a = None else cores h a = cores (nodes w) a) \<and>
    (\<forall>a. a \<notin> set ys \<longrightarrow> h a = nodes w a)"
proof -
  obtain m1 h1 where c: "range_map_clean fuel (range_map_list w ! i) (nodes w) = Inr (m1, h1)" "map_name m1 = map_name (range_map_list w ! i)"
      "rb_by_length m1 = replicate HASH_VALUE_LENGTH RB_NULL" "map_ok m1 h1 zs"
      "\<forall>a. if a \<in> set ys \<and> marked (nodes w) a then h1 a = None else cores h1 a = cores (nodes w) a"
      "\<forall>a. a \<notin> set ys \<longrightarrow> h1 a = nodes w a"
    using clean_correct [OF assms(1,2)] unfolding zs_def by blast
  have "length zs \<le> fuel" using assms(2) length_filter_le [of _ ys] unfolding zs_def by (rule le_trans [rotated])
  then obtain m h where l: "range_map_load fuel m1 h1 = Inr (m, h)" "map_name m = map_name m1" "static h = static h1"
      "map_ok m h zs" "shaped m h zs" "\<forall>a. a \<notin> set zs \<longrightarrow> h a = h1 a"
    using load_correct [OF c(4) _ c(3)] by blast
  have "if a \<in> set ys \<and> marked (nodes w) a then h a = None else cores h a = cores (nodes w) a" for a
    using c(5) [rule_format, of a] l(6) [rule_format, of a] arg_cong [OF l(3), of cores] unfolding zs_def cores_static
    by (auto split: if_splits)
  moreover have "\<forall>a. a \<notin> set ys \<longrightarrow> h a = nodes w a" using c(6) l(6) unfolding zs_def by auto
  moreover have "rebuild fuel i w = Inr (upd_map i (\<lambda>x. m) (w\<lparr>nodes := h\<rparr>))" using c(1) l(1) by (simp add: rebuild_def)
  ultimately show ?thesis using c(2) l(2,4,5) by (intro exI [of _ m] exI [of _ h]) simp
qed

section \<open>Searches\<close>

lemma below_lseg: "linked d zs (\<lambda>l k. True) h \<Longrightarrow> lseg node_next h (front (below d zs j k)) (below d zs j k) None"
proof (induction j)
  case (Suc j)
  show ?case
  proof (cases "grp d zs j k = []")
    case False
    then show ?thesis using Suc linkedD [OF Suc.prems False] by (auto simp: lseg_append)
  qed (use Suc in simp)
qed simp

lemma below_unused: "j \<le> n \<Longrightarrow> (\<And>l. level_used d zs l \<Longrightarrow> l < j) \<Longrightarrow> below d zs n k = below d zs j k"
proof (induction n)
  case (Suc n)
  show ?case
  proof (cases "j = Suc n")
    case False
    then have "j \<le> n" using Suc.prems(1) by simp
    then have "grp d zs n k = []" using Suc.prems(2) [of n] by (auto simp: grp_def level_used_def filter_empty_conv)
    then show ?thesis using Suc \<open>j \<le> n\<close> by simp
  qed simp
qed simp

lemma find_longest:
  assumes "trees (static h) zs (rb_by_length m)" "j \<le> length (rb_by_length m)" "j \<le> length hash" "\<And>a. a \<in> set zs \<Longrightarrow> node_ok L h a"
  shows "find_longest m hash j h = Inr (front (below (static h) zs j hash))"
  using assms(2,3)
proof (induction j)
  case (Suc j)
  have "range_find m j hash h = Inr (front (grp (static h) zs j hash))"
    using Suc.prems assms by (intro range_find [where L = L]) auto
  then show ?case using Suc by (cases "grp (static h) zs j hash") auto
qed simp

text \<open>The nodes that serve a hash, by decreasing length of their prefix, in the order of the list for equal prefixes.\<close>

definition serves :: "node_heap \<Rightarrow> nat \<Rightarrow> byte list \<Rightarrow> addr \<Rightarrow> bool" where
  "serves h l hash a \<longleftrightarrow> (\<exists>n. h a = Some n \<and> hash_length n = l \<and> take l (hash_buffer n) = take l hash)"

definition serving :: "node_heap \<Rightarrow> addr list \<Rightarrow> byte list \<Rightarrow> addr list" where
  "serving h zs hash = concat (map (\<lambda>l. filter (serves h l hash) zs) (rev [0..<HASH_VALUE_LENGTH]))"

lemma grp_serves: "(\<And>a. a \<in> set zs \<Longrightarrow> \<exists>n. h a = Some n) \<Longrightarrow> grp (static h) zs l k = filter (serves h l k) zs"
  unfolding grp_def
proof (rule filter_cong [OF refl])
  fix a assume "a \<in> set zs" "\<And>a. a \<in> set zs \<Longrightarrow> \<exists>n. h a = Some n"
  then obtain n where "h a = Some n" by blast
  then show "(hlen (static h) a = l \<and> hkey (static h) a = take l k) = serves h l k a" by (auto simp: serves_def)
qed

lemma below_serves: "(\<And>a. a \<in> set zs \<Longrightarrow> \<exists>n. h a = Some n) \<Longrightarrow>
    below (static h) zs j k = concat (map (\<lambda>l. filter (serves h l k) zs) (rev [0..<j]))"
  by (induction j) (simp_all add: grp_serves)

lemma below_length: "distinct zs \<Longrightarrow> length (below d zs j k) = card (set (below d zs j k))"
proof (induction j)
  case (Suc j)
  have "set (grp d zs j k) \<inter> set (below d zs j k) = {}"
  proof -
    have "hlen d a < j" if "a \<in> set (below d zs j k)" for a using that by (induction j) (auto simp: grp_def less_Suc_eq)
    then show ?thesis by (auto simp: grp_def)
  qed
  then show ?case using Suc by (simp add: card_Un_disjoint distinct_card grp_distinct)
qed simp

lemma serving_length:
  assumes "distinct zs" "\<And>a. a \<in> set zs \<Longrightarrow> \<exists>n. h a = Some n"
  shows "length (serving h zs hash) \<le> length zs"
proof -
  have b: "below (static h) zs HASH_VALUE_LENGTH hash = serving h zs hash"
    using below_serves [OF assms(2), where j = HASH_VALUE_LENGTH and k = hash] by (simp add: serving_def)
  have "card (set (serving h zs hash)) \<le> card (set zs)" by (rule card_mono) (auto simp: serving_def)
  then show ?thesis using below_length [OF assms(1), of "static h" HASH_VALUE_LENGTH hash] distinct_card [OF assms(1)] b by simp
qed

lemma search_correct:
  assumes "shaped m h zs" "length (rb_by_length m) = HASH_VALUE_LENGTH" "\<And>a. a \<in> set zs \<Longrightarrow> node_ok HASH_VALUE_LENGTH h a"
    and "length hash = HASH_VALUE_LENGTH"
  shows "find_longest m hash (longest m + 1) h = Inr (front (serving h zs hash))"
    and "lseg node_next h (front (serving h zs hash)) (serving h zs hash) None"
proof -
  have al: "\<exists>n. h a = Some n" if "a \<in> set zs" for a using assms(3) [OF that] by (auto simp: node_ok_def)
  have lg: "longest m + 1 \<le> HASH_VALUE_LENGTH" "\<And>l. level_used (static h) zs l \<Longrightarrow> l < longest m + 1"
    using assms(1) by (auto simp: shaped_def less_Suc_eq_le)
  have b: "below (static h) zs (longest m + 1) hash = serving h zs hash"
    using below_unused [OF lg(1), of "static h" zs hash, OF lg(2)] below_serves [OF al, where j = HASH_VALUE_LENGTH and k = hash] by (simp add: serving_def)
  have "find_longest m hash (longest m + 1) h = Inr (front (below (static h) zs (longest m + 1) hash))"
    using assms lg(1) by (intro find_longest [where L = HASH_VALUE_LENGTH]) (auto simp: shaped_def)
  then show "find_longest m hash (longest m + 1) h = Inr (front (serving h zs hash))" using b by simp
  have "linked (static h) zs (\<lambda>l k. True) h" using assms(1) by (simp add: shaped_def)
  from below_lseg [OF this, of "longest m + 1" hash]
  show "lseg node_next h (front (serving h zs hash)) (serving h zs hash) None" unfolding b .
qed

end
