(* ===== verification/Esq_RangeInv.thy ===== *)
theory Esq_RangeInv
  imports Esq_RangeMatch
begin

text \<open>
  The range maps of a server over any sequence of calls: the invariant of all maps and its preservation by every call,
  from which follow that no call fails or follows a dangling pointer, that no node leaks, and what a search
  returns at any time.
\<close>

section \<open>What the trees depend on\<close>

definition agree :: "node_heap \<Rightarrow> node_heap \<Rightarrow> addr \<Rightarrow> bool" where
  "agree h h' a \<longleftrightarrow> (\<exists>n n'. h a = Some n \<and> h' a = Some n' \<and> hash_length n' = hash_length n \<and> hash_buffer n' = hash_buffer n \<and>
     node_next n' = node_next n)"

lemma agree_static: "agree h h' a \<Longrightarrow> hlen (static h') a = hlen (static h) a \<and> hkey (static h') a = hkey (static h) a"
  by (auto simp: agree_def)

lemma grp_agree: "(\<And>a. a \<in> set zs \<Longrightarrow> agree h h' a) \<Longrightarrow> grp (static h') zs l k = grp (static h) zs l k"
  unfolding grp_def by (rule filter_cong [OF refl]) (metis agree_static)

lemma below_agree: "(\<And>a. a \<in> set zs \<Longrightarrow> agree h h' a) \<Longrightarrow> below (static h') zs l k = below (static h) zs l k"
  by (induction l) (simp_all add: grp_agree)

lemma shaped_agree:
  assumes "shaped m h zs" "\<And>a. a \<in> set zs \<Longrightarrow> agree h h' a" "rb_by_length m' = rb_by_length m" "longest m' = longest m"
  shows "shaped m' h' zs"
proof -
  note g = grp_agree [OF assms(2)] and b = below_agree [OF assms(2)]
  have hd: "head_of (static h') zs = head_of (static h) zs" by (intro ext) (simp add: head_of_def g)
  have "rb_abs (hkey (static h')) t (head_of (static h) zs l)" if "rb_abs (hkey (static h)) t (head_of (static h) zs l)" for t l
  proof (rule rb_abs_key [OF _ that])
    fix a assume "a \<in> ran (head_of (static h) zs l)"
    then show "hkey (static h') a = hkey (static h) a"
      using assms(2) agree_static by (auto simp: ran_def dest!: head_of_SomeD)
  qed
  then have "trees (static h') zs (rb_by_length m')" using assms(1,3) by (simp add: shaped_def trees_def hd)
  moreover have "lseg node_next h' p (grp (static h) zs l k) q = lseg node_next h p (grp (static h) zs l k) q" for p q l k
    using assms(2) grp_subset by (intro lseg_cong) (fastforce simp: agree_def)
  then have "linked (static h') zs (\<lambda>l k. True) h'" using assms(1) by (simp add: shaped_def linked_def g b)
  moreover have "level_used (static h') zs l = level_used (static h) zs l" for l
    using assms(2) agree_static unfolding level_used_def by metis
  ultimately show ?thesis using assms(1,4) by (simp add: shaped_def)
qed

lemma agree_same: "h a = Some n \<Longrightarrow> h' a = h a \<Longrightarrow> agree h h' a"
  by (simp add: agree_def)

text \<open>Changes of the heap that keep the list and the prefixes of a map.\<close>

definition keeps :: "node_heap \<Rightarrow> node_heap \<Rightarrow> addr \<Rightarrow> bool" where
  "keeps h h' a \<longleftrightarrow> agree h h' a \<and> map_option all_node_list_next (h' a) = map_option all_node_list_next (h a)"

lemma map_ok_keeps:
  assumes "map_ok m h ys" "\<And>a. a \<in> set ys \<Longrightarrow> keeps h h' a" "all_list m' = all_list m" "length (rb_by_length m') = length (rb_by_length m)"
  shows "map_ok m' h' ys"
proof -
  have "lseg all_node_list_next h' (all_list m) ys None = lseg all_node_list_next h (all_list m) ys None"
    using assms(2) by (intro lseg_cong) (simp add: keeps_def)
  moreover have "node_ok L h' a" if "a \<in> set ys" "node_ok L h a" for a L
    using assms(2) that by (fastforce simp: keeps_def agree_def node_ok_def)
  ultimately show ?thesis using assms by (simp add: map_ok_def)
qed

section \<open>All maps\<close>

definition map_inv :: "range_map_t \<Rightarrow> node_heap \<Rightarrow> addr list \<Rightarrow> addr list \<Rightarrow> bool" where
  "map_inv m h ys zs \<longleftrightarrow> map_ok m h ys \<and> (\<exists>new. ys = new @ zs) \<and> shaped m h zs \<and>
     length (map_name m) = RANGE_MAP_NAME_MAX \<and> has_nul (map_name m)"

definition rm_inv :: "rm_world \<Rightarrow> (nat \<Rightarrow> addr list) \<Rightarrow> (nat \<Rightarrow> addr list) \<Rightarrow> bool" where
  "rm_inv w Y Z \<longleftrightarrow> length (range_map_list w) = RANGE_MAP_MAX \<and>
     (\<forall>i < RANGE_MAP_MAX. map_inv (range_map_list w ! i) (nodes w) (Y i) (Z i)) \<and>
     (\<forall>i < RANGE_MAP_MAX. \<forall>j < RANGE_MAP_MAX. i \<noteq> j \<longrightarrow> set (Y i) \<inter> set (Y j) = {}) \<and>
     (\<forall>a. nodes w a \<noteq> None \<longleftrightarrow> (\<exists>i < RANGE_MAP_MAX. a \<in> set (Y i)))"

lemma map_inv_keeps:
  assumes "map_inv m h ys zs" "\<And>a. a \<in> set ys \<Longrightarrow> keeps h h' a" "all_list m' = all_list m" "rb_by_length m' = rb_by_length m"
    and "longest m' = longest m" "length (map_name m') = RANGE_MAP_NAME_MAX" "has_nul (map_name m')"
  shows "map_inv m' h' ys zs"
proof -
  have "agree h h' a" if "a \<in> set zs" for a using assms(1,2) that by (auto simp: map_inv_def keeps_def)
  then have "shaped m' h' zs" using shaped_agree [of m h zs h' m'] assms by (auto simp: map_inv_def)
  then show ?thesis using map_ok_keeps [of m h ys h' m'] assms by (auto simp: map_inv_def)
qed

lemma map_inv_other: "map_inv m h ys zs \<Longrightarrow> (\<And>a. a \<in> set ys \<Longrightarrow> h' a = h a) \<Longrightarrow> map_inv m h' ys zs"
proof (rule map_inv_keeps [where h = h and m = m])
  fix a assume m: "map_inv m h ys zs" "\<And>a. a \<in> set ys \<Longrightarrow> h' a = h a" "a \<in> set ys"
  have "map_ok m h ys" using m(1) by (simp add: map_inv_def)
  then obtain n where "h a = Some n" using map_ok_alloc m(3) by blast
  then show "keeps h h' a" using m(2,3) by (simp add: keeps_def agree_same)
qed (auto simp: map_inv_def)

text \<open>A change of one map and of its own nodes.\<close>

lemma rm_inv_upd:
  assumes "rm_inv w Y Z" "i < RANGE_MAP_MAX" "map_inv m h ys zs" "\<And>a. a \<notin> set (Y i) \<union> set ys \<Longrightarrow> h a = nodes w a"
    and "\<And>a. a \<in> set (Y i) \<union> set ys \<Longrightarrow> h a \<noteq> None \<longleftrightarrow> a \<in> set ys"
    and "\<And>a. a \<in> set ys \<Longrightarrow> a \<notin> set (Y i) \<Longrightarrow> nodes w a = None"
  shows "rm_inv (upd_map i (\<lambda>x. m) (w\<lparr>nodes := h\<rparr>)) (Y(i := ys)) (Z(i := zs))"
proof -
  have dis: "set (Y j) \<inter> (set (Y i) \<union> set ys) = {}" if "j < RANGE_MAP_MAX" "j \<noteq> i" for j
  proof -
    have "set (Y j) \<inter> set (Y i) = {}" using assms(1,2) that by (simp add: rm_inv_def)
    moreover have "nodes w a \<noteq> None" if a: "a \<in> set (Y j)" for a
      using assms(1) a \<open>j < RANGE_MAP_MAX\<close> unfolding rm_inv_def by blast
    ultimately show ?thesis using assms(6) by blast
  qed
  have "map_inv (range_map_list w ! j) h (Y j) (Z j)" if "j < RANGE_MAP_MAX" "j \<noteq> i" for j
  proof (rule map_inv_other)
    show "map_inv (range_map_list w ! j) (nodes w) (Y j) (Z j)" using assms(1) that by (simp add: rm_inv_def)
    show "h a = nodes w a" if a: "a \<in> set (Y j)" for a using a dis [OF \<open>j < RANGE_MAP_MAX\<close> \<open>j \<noteq> i\<close>] by (intro assms(4)) blast
  qed
  moreover have "h a \<noteq> None \<longleftrightarrow> (\<exists>j < RANGE_MAP_MAX. a \<in> set ((Y(i := ys)) j))" for a
  proof (cases "a \<in> set (Y i) \<union> set ys")
    case True
    then have "a \<notin> set (Y j)" if "j < RANGE_MAP_MAX" "j \<noteq> i" for j using dis [OF that] by blast
    then show ?thesis using assms(2) assms(5) [OF True] by auto
  next
    case False
    then have "h a = nodes w a" by (rule assms(4))
    moreover have "nodes w a \<noteq> None \<longleftrightarrow> (\<exists>j < RANGE_MAP_MAX. a \<in> set (Y j))" using assms(1) by (simp add: rm_inv_def)
    ultimately show ?thesis using False by auto
  qed
  moreover have "set (Y j) \<inter> set ys = {}" if "j < RANGE_MAP_MAX" "j \<noteq> i" for j using dis [OF that] by blast
  ultimately show ?thesis using assms(1-3) unfolding rm_inv_def upd_map_def by (simp add: nth_list_update Int_commute)
qed

section \<open>The calls\<close>

lemma rm_invD:
  assumes "rm_inv w Y Z" "i < RANGE_MAP_MAX"
  shows "map_inv (range_map_list w ! i) (nodes w) (Y i) (Z i)" "map_ok (range_map_list w ! i) (nodes w) (Y i)"
  using assms by (auto simp: rm_inv_def map_inv_def)

lemma find_map_at:
  assumes "\<forall>m \<in> set ms. has_nul (map_name m)" "has_nul name"
  shows "\<exists>f. find_map_at name i ms = Inr f \<and>
    (\<forall>j. f = Some j \<longrightarrow> i \<le> j \<and> j < i + length ms \<and> cstr (map_name (ms ! (j - i))) = cstr name)"
  using assms
proof (induction ms arbitrary: i)
  case (Cons m ms)
  obtain d where d: "strcmp (map_name m) name = Inr d" "order_of (cstr (map_name m)) (cstr name) d"
    using strcmp_order [of "map_name m" name] Cons.prems by auto
  show ?case
  proof (cases "d = 0")
    case True
    then show ?thesis using d order_of_zero [OF d(2)] by auto
  next
    case False
    then show ?thesis using d(1) Cons.IH [of "i + 1"] Cons.prems by (auto simp: nth_Cons')
  qed
qed simp

lemma find_by_name:
  assumes "rm_inv w Y Z" "has_nul name"
  shows "\<exists>f. range_map_find_by_name name w = Inr f \<and>
    (\<forall>i. f = Some i \<longrightarrow> i < RANGE_MAP_MAX \<and> cstr (map_name (range_map_list w ! i)) = cstr name)"
proof -
  have "\<forall>m \<in> set (range_map_list w). has_nul (map_name m)"
    using assms(1) by (auto simp: rm_inv_def map_inv_def in_set_conv_nth)
  then show ?thesis using find_map_at [of "range_map_list w" name 0] assms by (auto simp: range_map_find_by_name_def rm_inv_def)
qed

lemma find_map2_at:
  assumes "\<forall>m \<in> set ms. len < length (map_name m)" "len \<le> length name"
  shows "\<exists>f. find_map2_at name len i ms = Inr f \<and> (\<forall>j. f = Some j \<longrightarrow> i \<le> j \<and> j < i + length ms)"
  using assms
proof (induction ms arbitrary: i)
  case (Cons m ms)
  obtain d where d: "memcmp (map_name m) name len = Inr d" using memcmp_order [of len "map_name m" name] Cons.prems by auto
  then show ?case using Cons.IH [of "i + 1"] Cons.prems by (auto simp: rd_def)
qed simp

lemma find_by_name2:
  assumes "rm_inv w Y Z" "len < RANGE_MAP_NAME_MAX" "len \<le> length name"
  shows "\<exists>f. range_map_find_by_name2 name len w = Inr f \<and> (\<forall>i. f = Some i \<longrightarrow> i < RANGE_MAP_MAX)"
proof -
  have "\<forall>m \<in> set (range_map_list w). len < length (map_name m)"
    using assms by (auto simp: rm_inv_def map_inv_def in_set_conv_nth)
  then show ?thesis using find_map2_at [of "range_map_list w" len name 0] assms by (auto simp: range_map_find_by_name2_def rm_inv_def)
qed

text \<open>A rebuild of one map: all its unmarked nodes are in the trees, the marked ones are freed.\<close>

lemma rebuild_inv:
  assumes "rm_inv w Y Z" "i < RANGE_MAP_MAX" "length (Y i) \<le> fuel"
  defines "zs \<equiv> filter (\<lambda>a. \<not> marked (nodes w) a) (Y i)"
  shows "\<exists>w'. rebuild fuel i w = Inr w' \<and> rm_inv w' (Y(i := zs)) (Z(i := zs)) \<and>
    map map_name (range_map_list w') = map map_name (range_map_list w) \<and>
    (\<forall>a. if a \<in> set (Y i) \<and> marked (nodes w) a then nodes w' a = None else cores (nodes w') a = cores (nodes w) a)"
proof -
  note mi = rm_invD [OF assms(1,2)]
  obtain m h where r: "rebuild fuel i w = Inr (upd_map i (\<lambda>x. m) (w\<lparr>nodes := h\<rparr>))" "map_name m = map_name (range_map_list w ! i)"
      "map_ok m h zs" "shaped m h zs"
      "\<forall>a. if a \<in> set (Y i) \<and> marked (nodes w) a then h a = None else cores h a = cores (nodes w) a"
      "\<forall>a. a \<notin> set (Y i) \<longrightarrow> h a = nodes w a"
    using rebuild_correct [OF mi(2) assms(3)] unfolding zs_def by blast
  have mi': "map_inv m h zs zs" using r(2-4) mi(1) by (simp add: map_inv_def)
  have al: "h a \<noteq> None \<longleftrightarrow> a \<in> set zs" if "a \<in> set (Y i) \<union> set zs" for a
  proof -
    have a: "a \<in> set (Y i)" using that by (auto simp: zs_def)
    then have "nodes w a \<noteq> None" using map_ok_alloc [OF mi(2)] by blast
    then show ?thesis using r(5) [rule_format, of a] a by (auto simp: zs_def cores_def split: if_splits)
  qed
  have "rm_inv (upd_map i (\<lambda>x. m) (w\<lparr>nodes := h\<rparr>)) (Y(i := zs)) (Z(i := zs))"
    using r(6) al by (intro rm_inv_upd [OF assms(1,2) mi']) (auto simp: zs_def)
  moreover have "map map_name (range_map_list (upd_map i (\<lambda>x. m) (w\<lparr>nodes := h\<rparr>))) = map map_name (range_map_list w)"
    using r(2) by (simp add: upd_map_def map_update list_update_id nth_equalityI [of "map map_name (range_map_list w)"])
      (metis list_update_beyond list_update_id map_update not_le_imp_less nth_map)
  ultimately show ?thesis using r(1,5) by (auto simp: upd_map_def)
qed

text \<open>Changes of node contents other than prefixes and links, along the list of one map.\<close>

lemma each_node:
  assumes "lseg all_node_list_next h p ys None" "distinct ys" "length ys \<le> fuel"
    and "\<And>a n. a \<in> set ys \<Longrightarrow> h a = Some n \<Longrightarrow> \<exists>n'. f n = Inr n' \<and> hash_length n' = hash_length n \<and>
      hash_buffer n' = hash_buffer n \<and> node_next n' = node_next n \<and> all_node_list_next n' = all_node_list_next n"
  shows "\<exists>h'. each_node fuel f p h = Inr h' \<and> (\<forall>a. a \<notin> set ys \<longrightarrow> h' a = h a) \<and> (\<forall>a \<in> set ys. keeps h h' a)"
  using assms
proof (induction ys arbitrary: fuel p h)
  case (Cons x ys)
  obtain n where n: "p = Some x" "h x = Some n" "lseg all_node_list_next h (all_node_list_next n) ys None" using Cons.prems(1) by auto
  obtain n' where n': "f n = Inr n'" "hash_length n' = hash_length n" "hash_buffer n' = hash_buffer n" "node_next n' = node_next n"
      "all_node_list_next n' = all_node_list_next n"
    using Cons.prems(4) [of x n] n(2) by auto
  obtain fuel' where fuel: "fuel = Suc fuel'" using Cons.prems(3) by (cases fuel) auto
  let ?h = "h(x \<mapsto> n')"
  have x: "x \<notin> set ys" using Cons.prems(2) by simp
  have "\<exists>h'. each_node fuel' f (all_node_list_next n) ?h = Inr h' \<and> (\<forall>a. a \<notin> set ys \<longrightarrow> h' a = ?h a) \<and> (\<forall>a \<in> set ys. keeps ?h h' a)"
  proof (rule Cons.IH)
    show "lseg all_node_list_next ?h (all_node_list_next n) ys None" unfolding lseg_frame [OF x] by (rule n(3))
    show "\<exists>n'. f k = Inr n' \<and> hash_length n' = hash_length k \<and> hash_buffer n' = hash_buffer k \<and> node_next n' = node_next k \<and>
        all_node_list_next n' = all_node_list_next k" if "a \<in> set ys" "?h a = Some k" for a k
      using Cons.prems(4) [of a k] that x by (auto split: if_splits)
  qed (use Cons.prems fuel in auto)
  then obtain h' where h': "each_node fuel' f (all_node_list_next n) ?h = Inr h'" "\<forall>a. a \<notin> set ys \<longrightarrow> h' a = ?h a" "\<forall>a \<in> set ys. keeps ?h h' a"
    by blast
  have "keeps h h' x" using h'(2) x n(2) n' by (simp add: keeps_def agree_def)
  moreover have "keeps h h' a" if "a \<in> set ys" for a
    using h'(3) that x by (cases "a = x") (auto simp: keeps_def agree_def)
  ultimately show ?case using n fuel n'(1,5) h'(1,2) by (auto simp: node_at_def)
qed simp

lemma keeps_refl: "h a = Some n \<Longrightarrow> keeps h h a"
  by (simp add: keeps_def agree_def)

lemma rm_inv_nodes:
  assumes "rm_inv w Y Z" "i < RANGE_MAP_MAX" "\<And>a. a \<notin> set (Y i) \<Longrightarrow> h a = nodes w a" "\<And>a. a \<in> set (Y i) \<Longrightarrow> keeps (nodes w) h a"
  shows "rm_inv (w\<lparr>nodes := h\<rparr>) Y Z"
proof -
  note mi = rm_invD(1) [OF assms(1,2)]
  have "map_inv (range_map_list w ! i) h (Y i) (Z i)"
    using mi assms(4) by (intro map_inv_keeps [OF mi]) (auto simp: map_inv_def)
  moreover have "h a \<noteq> None" if "a \<in> set (Y i)" for a using assms(4) [OF that] by (auto simp: keeps_def agree_def)
  ultimately have "rm_inv (upd_map i (\<lambda>x. range_map_list w ! i) (w\<lparr>nodes := h\<rparr>)) (Y(i := Y i)) (Z(i := Z i))"
    using assms(3) by (intro rm_inv_upd [OF assms(1,2)]) auto
  then show ?thesis by (simp add: upd_map_def)
qed

text \<open>The parameters of a call: a message, or a prefix of at most sixteen bytes.\<close>

lemma strnlen_le: "has_nul b \<Longrightarrow> strnlen b n = Some l \<Longrightarrow> l \<le> length b"
  using has_nul_length_cstr [of b] by (auto simp: strnlen_cstr)

lemma hash_scan_even:
  assumes "hash_scan s = (r, Some (0, hl))"
  shows "\<exists>k. hl = 2 * int k \<and> 2 * k < length s"
proof -
  define bl hx rs where "bl = takeWhile is_blank s" and "hx = takeWhile is_hex (dropWhile is_blank s)"
    and "rs = dropWhile is_hex (dropWhile is_blank s)"
  have "length s = length bl + length hx + length rs"
    unfolding bl_def hx_def rs_def by (metis add.assoc length_append takeWhile_dropWhile_id)
  moreover have "rs \<noteq> []" "hl = int (length bl + length hx)" "even hl"
    using assms unfolding hash_scan_def Let_def bl_def [symmetric] hx_def [symmetric] rs_def [symmetric]
    by (auto simp: hs_finished_def Let_def and_one_eq split: if_splits)
  moreover from this have "0 < length rs" by simp
  moreover obtain k where "length bl + length hx = 2 * k" using calculation(3,4) by (metis even_of_nat evenE)
  ultimately show ?thesis by (intro exI [of _ k]) auto
qed

lemma translate_params:
  assumes "has_nul ip_str" "has_nul hash_string" "length (stack_bytes e) = HASH_VALUE_LENGTH"
  shows "\<exists>x. TRANSLATE_MKC_PARAMS e ip_str hash_string = Inr x \<and>
    (\<forall>ip hash l k. x = Inr (ip, hash, l, k) \<longrightarrow> l \<le> 16 \<and> length hash = HASH_VALUE_LENGTH)"
proof -
  obtain l1 where l1: "strnlen ip_str 20 = Some l1" "l1 \<le> length ip_str"
    using assms(1) strnlen_le [OF assms(1)] by (auto simp: strnlen_cstr)
  obtain r1 ip where r1: "get_ipv4_addr ip_str (int l1) = Some (r1, ip)" using get_ipv4_parse [OF l1(2)] by (cases "parse_ipv4 (take l1 ip_str)") simp
  obtain l2 where l2: "strnlen hash_string (HASH_VALUE_LENGTH + 3) = Some l2" "l2 \<le> length hash_string"
    using assms(2) strnlen_le [OF assms(2)] by (auto simp: strnlen_cstr)
  obtain r2 f where r2: "get_hash_string hash_string (int l2) = Some (r2, f)" "(r2, f) = hash_scan (take l2 hash_string)"
    using get_hash_scan [OF l2(2)] by (cases "hash_scan (take l2 hash_string)") simp
  have f: "\<exists>k. hl = 2 * int k \<and> 2 * k < l2" if "f = Some (0, hl)" for hl
    using hash_scan_even [of "take l2 hash_string" r2 hl] that r2(2) l2(2) by simp
  show ?thesis
  proof (cases "f")
    case None
    then show ?thesis using l1(1) r1 l2(1) r2(1) by (auto simp: TRANSLATE_MKC_PARAMS_def split: option.splits)
  next
    case (Some q)
    obtain st hl where q: "q = (st, hl)" by (cases q)
    show ?thesis
    proof (cases "st = 0 \<and> hl + 1 = int l2 \<and> l2 \<le> HASH_VALUE_LENGTH + 1")
      case False
      then show ?thesis using l1(1) r1 l2(1) r2(1) Some q by (auto simp: TRANSLATE_MKC_PARAMS_def split: option.splits)
    next
      case True
      then obtain k where k: "hl = 2 * int k" using f Some q by blast
      then have "2 * k \<le> length hash_string" "k \<le> 16" using True l2(2) by (auto simp: HASH_VALUE_LENGTH_def)
      then have "hash_str_2_bin (stack_bytes e) hash_string hl = Some (0, map (hash_byte hash_string) [0..<k] @ drop k (stack_bytes e))"
        using hash_str_2_bin_even [of k hash_string "stack_bytes e"] assms(3) k(1) by (simp add: HASH_VALUE_LENGTH_def)
      moreover have "length (map (hash_byte hash_string) [0..<k] @ drop k (stack_bytes e)) = HASH_VALUE_LENGTH"
        using assms(3) \<open>k \<le> 16\<close> by (simp add: HASH_VALUE_LENGTH_def)
      moreover have "nat (drop_bit 1 hl) = k" using k(1) by (simp add: drop_bit_eq_div)
      ultimately show ?thesis using l1(1) r1 l2(1) r2(1) Some q True \<open>k \<le> 16\<close>
        by (auto simp: TRANSLATE_MKC_PARAMS_def split: option.splits)
    qed
  qed
qed

lemma find_node_loop:
  assumes "lseg all_node_list_next h p ys None" "length ys \<le> fuel" "len \<le> length hash" "\<And>a. a \<in> set ys \<Longrightarrow> node_ok L h a"
  shows "\<exists>f. find_node_loop fuel p ip port hash len h = Inr f \<and> (\<forall>a. f = Some a \<longrightarrow> a \<in> set ys)"
  using assms
proof (induction ys arbitrary: fuel p)
  case (Cons x ys)
  obtain n where n: "p = Some x" "h x = Some n" "lseg all_node_list_next h (all_node_list_next n) ys None" using Cons.prems(1) by auto
  obtain fuel' where fuel: "fuel = Suc fuel'" using Cons.prems(2) by (cases fuel) auto
  obtain f where f: "find_node_loop fuel' (all_node_list_next n) ip port hash len h = Inr f" "\<forall>a. f = Some a \<longrightarrow> a \<in> set ys"
    using Cons.IH [OF n(3), of fuel'] Cons.prems fuel by auto
  have "\<exists>d. memcmp (hash_buffer n) hash len = Inr d" if "hash_length n = len"
    using memcmp_order [of len "hash_buffer n" hash] Cons.prems(3) Cons.prems(4) [of x] that n(2) by (auto simp: node_ok_def)
  then show ?case using n fuel f by (auto simp: node_at_def Let_def)
qed simp

lemma mark_all_each: "mark_all fuel p h = each_node fuel (\<lambda>x. Inr (mark_deleted x)) p h"
proof (induction fuel arbitrary: p h)
  case 0
  then show ?case by (cases p) simp_all
next
  case (Suc fuel)
  then show ?case by (cases p) (auto simp: upd_node_def node_at_def of_opt_def mark_deleted_def split: option.splits)
qed

text \<open>The calls as they come, with their arguments and what they get from outside.\<close>

datatype rm_call =
    RangeMapNew "byte list"
  | RangeMapAddNode rm_env "byte list" "byte list" int u32 "byte list"
  | RangeMapDelNode rm_env "byte list" "byte list" int "byte list"
  | RangeMapDelAllNode rm_env "byte list"
  | RangeMapFlush rm_env "byte list"
  | BucketOnline nat addr u32 int "byte list" nat "byte list" nat
  | BucketOffline nat addr "byte list" nat
  | SelfPortSetup rm_env

fun rm_exec :: "rm_call \<Rightarrow> rm_world \<Rightarrow> (string option \<times> rm_world) res" where
  "rm_exec (RangeMapNew name) w = range_map_new name w"
| "rm_exec (RangeMapAddNode e name ip_str port flags hash_string) w = range_map_add_node e name ip_str port flags hash_string w"
| "rm_exec (RangeMapDelNode e name ip_str port hash_string) w = range_map_del_node e name ip_str port hash_string w"
| "rm_exec (RangeMapDelAllNode e name) w = range_map_del_all_node e name w"
| "rm_exec (RangeMapFlush e name) w = range_map_flush e name w"
| "rm_exec (BucketOnline fuel b ip port hash_str k name len) w =
     bindE (range_map_notify_bucket_online fuel b ip port hash_str k name len w) (\<lambda>w. Inr (None, w))"
| "rm_exec (BucketOffline fuel b name len) w = bindE (range_map_notify_bucket_offline fuel b name len w) (\<lambda>w. Inr (None, w))"
| "rm_exec (SelfPortSetup e) w = bindE (esq_range_map_flush_range_node_bucket_connection e w) (\<lambda>w. Inr (None, w))"

text \<open>
  What a caller owes: terminated strings, arrays as long as their stated lengths, memory that is not in use from the
  allocator, and fuel for as many nodes as exist.
\<close>

definition env_ok :: "rm_env \<Rightarrow> rm_world \<Rightarrow> bool" where
  "env_ok e w \<longleftrightarrow> length (stack_bytes e) = HASH_VALUE_LENGTH \<and> (\<forall>a. malloc_node e = Some a \<longrightarrow> nodes w a = None) \<and>
     card (dom (nodes w)) \<le> rm_fuel e"

fun call_ok :: "rm_call \<Rightarrow> rm_world \<Rightarrow> bool" where
  "call_ok (RangeMapNew name) w = has_nul name"
| "call_ok (RangeMapAddNode e name ip_str port flags hash_string) w =
     (has_nul name \<and> has_nul ip_str \<and> has_nul hash_string \<and> env_ok e w)"
| "call_ok (RangeMapDelNode e name ip_str port hash_string) w = (has_nul name \<and> has_nul ip_str \<and> has_nul hash_string \<and> env_ok e w)"
| "call_ok (RangeMapDelAllNode e name) w = (has_nul name \<and> env_ok e w)"
| "call_ok (RangeMapFlush e name) w = (has_nul name \<and> env_ok e w)"
| "call_ok (BucketOnline fuel b ip port hash_str k name len) w =
     (len < RANGE_MAP_NAME_MAX \<and> len \<le> length name \<and> k \<le> length hash_str \<and> card (dom (nodes w)) \<le> fuel)"
| "call_ok (BucketOffline fuel b name len) w = (len < RANGE_MAP_NAME_MAX \<and> len \<le> length name \<and> card (dom (nodes w)) \<le> fuel)"
| "call_ok (SelfPortSetup e) w = (card (dom (nodes w)) \<le> rm_fuel e)"

lemma rm_inv_finite: "rm_inv w Y Z \<Longrightarrow> finite (dom (nodes w))"
proof -
  assume "rm_inv w Y Z"
  then have "dom (nodes w) = (\<Union>i \<in> {..<RANGE_MAP_MAX}. set (Y i))" unfolding rm_inv_def by (auto simp: dom_def)
  then show ?thesis by simp
qed

lemma rm_inv_fuel:
  assumes "rm_inv w Y Z" "i < RANGE_MAP_MAX" "card (dom (nodes w)) \<le> fuel"
  shows "length (Y i) \<le> fuel"
proof -
  have "length (Y i) = card (set (Y i))" using rm_invD(2) [OF assms(1,2)] distinct_card [of "Y i"] by (simp add: map_ok_def)
  also have "set (Y i) \<subseteq> dom (nodes w)" using assms(1,2) unfolding rm_inv_def by blast
  then have "card (set (Y i)) \<le> card (dom (nodes w))" by (rule card_mono [OF rm_inv_finite [OF assms(1)]])
  finally show ?thesis using assms(3) by simp
qed

lemma each_node_inv:
  assumes "rm_inv w Y Z" "i < RANGE_MAP_MAX" "card (dom (nodes w)) \<le> fuel"
    and "\<And>n. hash_length n \<le> length (hash_buffer n) \<Longrightarrow> \<exists>n'. f n = Inr n' \<and> hash_length n' = hash_length n \<and>
      hash_buffer n' = hash_buffer n \<and> node_next n' = node_next n \<and> all_node_list_next n' = all_node_list_next n"
  shows "\<exists>h. each_node fuel f (all_list (range_map_list w ! i)) (nodes w) = Inr h \<and> rm_inv (w\<lparr>nodes := h\<rparr>) Y Z"
proof -
  note mo = rm_invD(2) [OF assms(1,2)]
  have "\<exists>n'. f n = Inr n' \<and> hash_length n' = hash_length n \<and> hash_buffer n' = hash_buffer n \<and> node_next n' = node_next n \<and>
      all_node_list_next n' = all_node_list_next n" if "a \<in> set (Y i)" "nodes w a = Some n" for a n
    using assms(4) [of n] mo that by (auto simp: map_ok_def node_ok_def)
  then obtain h where h: "each_node fuel f (all_list (range_map_list w ! i)) (nodes w) = Inr h" "\<forall>a. a \<notin> set (Y i) \<longrightarrow> h a = nodes w a"
      "\<forall>a \<in> set (Y i). keeps (nodes w) h a"
    using each_node [of "nodes w" "all_list (range_map_list w ! i)" "Y i" fuel f] mo rm_inv_fuel [OF assms(1-3)] by (auto simp: map_ok_def)
  then show ?thesis using rm_inv_nodes [OF assms(1,2), of h] by blast
qed

text \<open>Every call on a good state returns in a good state.\<close>

definition good_end :: "(string option \<times> rm_world) res \<Rightarrow> bool" where
  "good_end x \<longleftrightarrow> (\<exists>r w Y Z. x = Inr (r, w) \<and> rm_inv w Y Z)"

lemma good_endI: "rm_inv w Y Z \<Longrightarrow> good_end (Inr (r, w))"
  by (auto simp: good_end_def)

lemma rebuild_good:
  assumes "rm_inv w Y Z" "i < RANGE_MAP_MAX" "length (Y i) \<le> fuel"
  shows "good_end (bindE (rebuild fuel i w) (\<lambda>w. Inr (None, w)))"
proof -
  obtain w' where "rebuild fuel i w = Inr w'" "rm_inv w' (Y(i := filter (\<lambda>a. \<not> marked (nodes w) a) (Y i))) (Z(i := filter (\<lambda>a. \<not> marked (nodes w) a) (Y i)))"
    using rebuild_inv [OF assms] by blast
  then show ?thesis by (auto intro: good_endI)
qed

lemma flush_good: "rm_inv w Y Z \<Longrightarrow> has_nul name \<Longrightarrow> env_ok e w \<Longrightarrow> good_end (range_map_flush e name w)"
proof -
  assume a: "rm_inv w Y Z" "has_nul name" "env_ok e w"
  obtain f where f: "range_map_find_by_name name w = Inr f" "\<And>i. f = Some i \<Longrightarrow> i < RANGE_MAP_MAX"
    using find_by_name [OF a(1,2)] by blast
  show ?thesis
  proof (cases f)
    case (Some i)
    have "length (Y i) \<le> rm_fuel e" using rm_inv_fuel [OF a(1) f(2) [OF Some]] a(3) by (simp add: env_ok_def)
    then show ?thesis using rebuild_good [OF a(1) f(2) [OF Some]] f(1) Some by (simp add: range_map_flush_def)
  qed (use f(1) a(1) in \<open>auto simp: range_map_flush_def intro: good_endI\<close>)
qed

lemma del_all_good: "rm_inv w Y Z \<Longrightarrow> has_nul name \<Longrightarrow> env_ok e w \<Longrightarrow> good_end (range_map_del_all_node e name w)"
proof -
  assume a: "rm_inv w Y Z" "has_nul name" "env_ok e w"
  have fuel: "card (dom (nodes w)) \<le> rm_fuel e" using a(3) by (simp add: env_ok_def)
  obtain f where f: "range_map_find_by_name name w = Inr f" "\<And>i. f = Some i \<Longrightarrow> i < RANGE_MAP_MAX"
    using find_by_name [OF a(1,2)] by blast
  show ?thesis
  proof (cases f)
    case (Some i)
    obtain h where h: "mark_all (rm_fuel e) (all_list (range_map_list w ! i)) (nodes w) = Inr h" "rm_inv (w\<lparr>nodes := h\<rparr>) Y Z"
      using each_node_inv [OF a(1) f(2) [OF Some] fuel, of "\<lambda>x. Inr (mark_deleted x)"] by (auto simp: mark_all_each mark_deleted_def)
    then show ?thesis
      using rebuild_good [OF h(2) f(2) [OF Some]] rm_inv_fuel [OF a(1) f(2) [OF Some] fuel] f(1) Some
      by (simp add: range_map_del_all_node_def)
  qed (use f(1) a(1) in \<open>auto simp: range_map_del_all_node_def intro: good_endI\<close>)
qed

lemma keeps_mark: "h a = Some n \<Longrightarrow> keeps h (h(a \<mapsto> mark_deleted n)) a"
  by (simp add: keeps_def agree_def mark_deleted_def)

lemma find_node:
  assumes "rm_inv w Y Z" "i < RANGE_MAP_MAX" "card (dom (nodes w)) \<le> fuel" "len \<le> length hash"
  shows "\<exists>p. range_map_find_node fuel (range_map_list w ! i) ip port hash len (nodes w) = Inr p \<and> (\<forall>a. p = Some a \<longrightarrow> a \<in> set (Y i))"
  using find_node_loop [of "nodes w" "all_list (range_map_list w ! i)" "Y i" fuel len hash HASH_VALUE_LENGTH ip port]
    rm_invD(2) [OF assms(1,2)] rm_inv_fuel [OF assms(1-3)] assms(4)
  by (simp add: range_map_find_node_def map_ok_def)

lemma del_good:
  assumes "rm_inv w Y Z" "has_nul name" "has_nul ip_str" "has_nul hash_string" "env_ok e w"
  shows "good_end (range_map_del_node e name ip_str port hash_string w)"
proof -
  have fuel: "card (dom (nodes w)) \<le> rm_fuel e" using assms(5) by (simp add: env_ok_def)
  obtain x where x: "TRANSLATE_MKC_PARAMS e ip_str hash_string = Inr x"
      "\<And>ip hash l k. x = Inr (ip, hash, l, k) \<Longrightarrow> l \<le> 16 \<and> length hash = HASH_VALUE_LENGTH"
    using translate_params [OF assms(3,4), of e] assms(5) by (auto simp: env_ok_def)
  obtain f where f: "range_map_find_by_name name w = Inr f" "\<And>i. f = Some i \<Longrightarrow> i < RANGE_MAP_MAX"
    using find_by_name [OF assms(1,2)] by blast
  show ?thesis
  proof (cases "\<exists>ip hash l k i. x = Inr (ip, hash, l, k) \<and> f = Some i")
    case True
    then obtain ip hash l k i where xi: "x = Inr (ip, hash, l, k)" "f = Some i" by blast
    then have i: "i < RANGE_MAP_MAX" "l \<le> length hash" using f(2) x(2) by (auto simp: HASH_VALUE_LENGTH_def)
    obtain p where p: "range_map_find_node (rm_fuel e) (range_map_list w ! i) ip port hash l (nodes w) = Inr p" "\<And>a. p = Some a \<Longrightarrow> a \<in> set (Y i)"
      using find_node [OF assms(1) i(1) fuel i(2)] by blast
    show ?thesis
    proof (cases p)
      case (Some a)
      then obtain n where n: "nodes w a = Some n" using map_ok_alloc [OF rm_invD(2) [OF assms(1) i(1)]] p(2) by blast
      let ?h = "(nodes w)(a \<mapsto> mark_deleted n)"
      have inv: "rm_inv (w\<lparr>nodes := ?h\<rparr>) Y Z"
      proof (rule rm_inv_nodes [OF assms(1) i(1)])
        show "?h b = nodes w b" if "b \<notin> set (Y i)" for b using that p(2) Some by auto
        show "keeps (nodes w) ?h b" if "b \<in> set (Y i)" for b
          using map_ok_alloc [OF rm_invD(2) [OF assms(1) i(1)] that] keeps_mark [of "nodes w" a n] n
          by (cases "b = a") (auto simp: keeps_def agree_def)
      qed
      then show ?thesis
        using rebuild_good [OF inv i(1)] rm_inv_fuel [OF assms(1) i(1) fuel] x(1) f(1) xi p(1) Some n
        by (simp add: range_map_del_node_def upd_node_def)
    qed (use x(1) f(1) xi p(1) assms(1) in \<open>auto simp: range_map_del_node_def intro: good_endI\<close>)
  next
    case False
    then show ?thesis using x(1) f(1) assms(1) by (cases x; cases f) (auto simp: range_map_del_node_def intro: good_endI)
  qed
qed

lemma add_good:
  assumes "rm_inv w Y Z" "has_nul name" "has_nul ip_str" "has_nul hash_string" "env_ok e w"
  shows "good_end (range_map_add_node e name ip_str port flags hash_string w)"
proof -
  have fuel: "card (dom (nodes w)) \<le> rm_fuel e" using assms(5) by (simp add: env_ok_def)
  obtain x where x: "TRANSLATE_MKC_PARAMS e ip_str hash_string = Inr x"
      "\<And>ip hash l k. x = Inr (ip, hash, l, k) \<Longrightarrow> l \<le> 16 \<and> length hash = HASH_VALUE_LENGTH"
    using translate_params [OF assms(3,4), of e] assms(5) by (auto simp: env_ok_def)
  obtain f where f: "range_map_find_by_name name w = Inr f" "\<And>i. f = Some i \<Longrightarrow> i < RANGE_MAP_MAX"
    using find_by_name [OF assms(1,2)] by blast
  show ?thesis
  proof (cases "\<exists>ip hash l k i. x = Inr (ip, hash, l, k) \<and> f = Some i")
    case True
    then obtain ip hash l k i where xi: "x = Inr (ip, hash, l, k)" "f = Some i" by blast
    then have i: "i < RANGE_MAP_MAX" "l \<le> length hash" "l \<le> 16" using f(2) x(2) by (auto simp: HASH_VALUE_LENGTH_def)
    obtain p where p: "range_map_find_node (rm_fuel e) (range_map_list w ! i) ip port hash l (nodes w) = Inr p"
      using find_node [OF assms(1) i(1) fuel i(2)] by blast
    show ?thesis
    proof (cases "p = None \<and> malloc_node e \<noteq> None")
      case True
      then obtain a where a: "malloc_node e = Some a" "p = None" by auto
      then have free: "nodes w a = None" using assms(5) by (simp add: env_ok_def)
      let ?m = "range_map_list w ! i"
      note mi = rm_invD [OF assms(1) i(1)]
      have na: "a \<notin> set (Y i)" using free map_ok_alloc [OF mi(2)] by force
      have step: "good_end (Inr (None, upd_map i (\<lambda>m. m\<lparr>all_list := Some a\<rparr>) (w\<lparr>nodes := (nodes w)(a \<mapsto> n)\<rparr>)))"
        if n: "hash_length n = l" "length (hash_buffer n) = 40" "all_node_list_next n = all_list ?m" for n
      proof -
        let ?h = "(nodes w)(a \<mapsto> n)" and ?m' = "?m\<lparr>all_list := Some a\<rparr>"
        have keep: "?h b = nodes w b" if "b \<in> set (Y i)" for b using na that by auto
        have "map_inv ?m ?h (Y i) (Z i)" by (rule map_inv_other [OF mi(1) keep])
        then have "map_inv ?m' ?h (a # Y i) (Z i)"
          using n na i(3) by (auto simp: map_inv_def map_ok_def node_ok_def HASH_VALUE_LENGTH_def shaped_def)
        then have "rm_inv (upd_map i (\<lambda>x. ?m') (w\<lparr>nodes := ?h\<rparr>)) (Y(i := a # Y i)) (Z(i := Z i))"
          using na free map_ok_alloc [OF mi(2)] by (intro rm_inv_upd [OF assms(1) i(1)]) auto
        moreover have "upd_map i (\<lambda>x. ?m') (w\<lparr>nodes := ?h\<rparr>) = upd_map i (\<lambda>m. m\<lparr>all_list := Some a\<rparr>) (w\<lparr>nodes := ?h\<rparr>)"
          by (simp add: upd_map_def)
        ultimately show ?thesis by (metis good_endI)
      qed
      show ?thesis using x(1) f(1) xi p a i
        by (auto simp: range_map_add_node_def Let_def HASH_VALUE_LENGTH_def intro!: step)
    next
      case False
      then show ?thesis using x(1) f(1) xi p assms(1)
        by (cases p; cases "malloc_node e") (auto simp: range_map_add_node_def intro: good_endI)
    qed
  next
    case False
    then show ?thesis using x(1) f(1) assms(1) by (cases x; cases f) (auto simp: range_map_add_node_def intro: good_endI)
  qed
qed

lemma online_good:
  assumes "rm_inv w Y Z" "len < RANGE_MAP_NAME_MAX" "len \<le> length name" "k \<le> length hash_str" "card (dom (nodes w)) \<le> fuel"
  shows "good_end (rm_exec (BucketOnline fuel b ip port hash_str k name len) w)"
proof -
  obtain f where f: "range_map_find_by_name2 name len w = Inr f" "\<And>i. f = Some i \<Longrightarrow> i < RANGE_MAP_MAX"
    using find_by_name2 [OF assms(1-3)] by blast
  show ?thesis
  proof (cases f)
    case (Some i)
    have "\<exists>n'. bucket_online b ip port hash_str k n = Inr n' \<and> hash_length n' = hash_length n \<and> hash_buffer n' = hash_buffer n \<and>
        node_next n' = node_next n \<and> all_node_list_next n' = all_node_list_next n" if "hash_length n \<le> length (hash_buffer n)" for n
    proof -
      have "\<exists>d. memcmp (hash_buffer n) hash_str k = Inr d" if "hash_length n = k"
        using memcmp_order [of k "hash_buffer n" hash_str] \<open>hash_length n \<le> _\<close> that assms(4) by auto
      then show ?thesis by (auto simp: bucket_online_def Let_def)
    qed
    then obtain h where "each_node fuel (bucket_online b ip port hash_str k) (all_list (range_map_list w ! i)) (nodes w) = Inr h"
        "rm_inv (w\<lparr>nodes := h\<rparr>) Y Z"
      using each_node_inv [OF assms(1) f(2) [OF Some] assms(5)] by blast
    then show ?thesis using f(1) Some by (simp add: range_map_notify_bucket_online_def good_endI)
  qed (use f(1) assms(1) in \<open>simp add: range_map_notify_bucket_online_def good_endI\<close>)
qed

lemma offline_good:
  assumes "rm_inv w Y Z" "len < RANGE_MAP_NAME_MAX" "len \<le> length name" "card (dom (nodes w)) \<le> fuel"
  shows "good_end (rm_exec (BucketOffline fuel b name len) w)"
proof -
  obtain f where f: "range_map_find_by_name2 name len w = Inr f" "\<And>i. f = Some i \<Longrightarrow> i < RANGE_MAP_MAX"
    using find_by_name2 [OF assms(1-3)] by blast
  show ?thesis
  proof (cases f)
    case (Some i)
    let ?f = "\<lambda>x. Inr (if bucket x = Some b then x\<lparr>bucket := None\<rparr> else x)"
    have "\<exists>h. each_node fuel ?f (all_list (range_map_list w ! i)) (nodes w) = Inr h \<and> rm_inv (w\<lparr>nodes := h\<rparr>) Y Z"
      by (rule each_node_inv [OF assms(1) f(2) [OF Some] assms(4)]) simp
    then obtain h where "each_node fuel ?f (all_list (range_map_list w ! i)) (nodes w) = Inr h" "rm_inv (w\<lparr>nodes := h\<rparr>) Y Z" by blast
    then show ?thesis using f(1) Some by (simp add: range_map_notify_bucket_offline_def good_endI)
  qed (use f(1) assms(1) in \<open>simp add: range_map_notify_bucket_offline_def good_endI\<close>)
qed

lemma reconnect_maps_good:
  assumes "rm_inv (w\<lparr>nodes := h\<rparr>) Y Z" "ms = drop j (range_map_list w)" "card (dom h) \<le> rm_fuel e"
  shows "\<exists>h'. reconnect_maps e ms h = Inr h' \<and> rm_inv (w\<lparr>nodes := h'\<rparr>) Y Z"
  using assms
proof (induction ms arbitrary: j h)
  case (Cons m ms)
  have j: "j < length (range_map_list w)" "m = range_map_list w ! j" "ms = drop (Suc j) (range_map_list w)"
    using Cons.prems(2) by (metis drop_all linorder_not_le list.distinct(1), metis Cons_nth_drop_Suc drop_all linorder_not_le list.distinct(1) list.inject,
        metis Cons_nth_drop_Suc drop_all linorder_not_le list.distinct(1) list.inject)
  then have jm: "j < RANGE_MAP_MAX" using Cons.prems(1) by (simp add: rm_inv_def)
  have c: "of_opt (rd (map_name m) 0) = Inr (map_name m ! 0)"
    using rm_invD(1) [OF Cons.prems(1) jm] j(2) by (simp add: map_inv_def rd_def RANGE_MAP_NAME_MAX_def)
  obtain h1 where h1: "(if map_name m ! 0 = 0 then Inr h else each_node (rm_fuel e) (\<lambda>x. Inr (reconnect e (map_name m) x)) (all_list m) h) = Inr h1"
      "rm_inv (w\<lparr>nodes := h1\<rparr>) Y Z" "card (dom h1) \<le> rm_fuel e"
  proof (cases "map_name m ! 0 = 0")
    case False
    have "\<exists>h1. each_node (rm_fuel e) (\<lambda>x. Inr (reconnect e (map_name m) x)) (all_list (range_map_list (w\<lparr>nodes := h\<rparr>) ! j)) (nodes (w\<lparr>nodes := h\<rparr>)) = Inr h1 \<and>
        rm_inv ((w\<lparr>nodes := h\<rparr>)\<lparr>nodes := h1\<rparr>) Y Z"
      by (rule each_node_inv [OF Cons.prems(1) jm]) (use Cons.prems(3) in \<open>auto simp: reconnect_def\<close>)
    then obtain h1 where "each_node (rm_fuel e) (\<lambda>x. Inr (reconnect e (map_name m) x)) (all_list m) h = Inr h1" "rm_inv (w\<lparr>nodes := h1\<rparr>) Y Z"
      using j(2) by auto
    moreover have "dom h1 = dom h" using Cons.prems(1) calculation(2) unfolding rm_inv_def by (auto simp: dom_def)
    ultimately show thesis using that False Cons.prems(3) by simp
  qed (use that Cons.prems in simp)
  then show ?case using Cons.IH [OF h1(2) j(3) h1(3)] c by simp
qed simp

lemma name_chars: "n \<le> length name \<Longrightarrow> \<exists>r. name_chars n name = Inr r"
  by (induction n name rule: name_chars.induct) auto

lemma name_check:
  assumes "has_nul name"
  shows "\<exists>r. range_map_name_check name = Inr r \<and> (r = None \<longrightarrow> 0 < length (cstr name) \<and> length (cstr name) < RANGE_MAP_NAME_MAX)"
proof -
  obtain l where l: "strnlen name (RANGE_MAP_NAME_MAX + 2) = Some l" "l = min (RANGE_MAP_NAME_MAX + 2) (length (cstr name))"
    using assms by (simp add: strnlen_cstr)
  have "l \<le> length name" using strnlen_le [OF assms l(1)] .
  then show ?thesis using l name_chars [of l name]
    by (auto simp: range_map_name_check_def range_map_name_check2_def)
qed

lemma free_slot: "\<forall>m \<in> set ms. map_name m \<noteq> [] \<Longrightarrow> \<exists>f. free_slot i ms = Inr f \<and> (\<forall>j. f = Some j \<longrightarrow> i \<le> j \<and> j < i + length ms)"
proof (induction ms arbitrary: i)
  case (Cons m ms)
  then show ?case using Cons.IH [of "i + 1"] by (auto simp: rd_def)
qed simp

lemma new_good:
  assumes "rm_inv w Y Z" "has_nul name"
  shows "good_end (range_map_new name w)"
proof -
  obtain r where r: "range_map_name_check name = Inr r" "r = None \<Longrightarrow> length (cstr name) < RANGE_MAP_NAME_MAX"
    using name_check [OF assms(2)] by blast
  obtain f where f: "range_map_find_by_name name w = Inr f" using find_by_name [OF assms] by blast
  have "map_name (range_map_list w ! i) \<noteq> []" if "i < RANGE_MAP_MAX" for i
    using rm_invD(1) [OF assms(1) that] by (auto simp: map_inv_def RANGE_MAP_NAME_MAX_def)
  then have "\<forall>m \<in> set (range_map_list w). map_name m \<noteq> []"
    using assms(1) unfolding rm_inv_def by (metis in_set_conv_nth)
  then obtain s where s: "free_slot 0 (range_map_list w) = Inr s" "\<And>i. s = Some i \<Longrightarrow> i < RANGE_MAP_MAX"
    using free_slot [of "range_map_list w" 0] assms(1) by (auto simp: rm_inv_def)
  show ?thesis
  proof (cases "r = None \<and> f = None \<and> s \<noteq> None")
    case True
    then obtain i where i: "s = Some i" "i < RANGE_MAP_MAX" using s(2) by auto
    let ?m = "range_map_list w ! i"
    note mi = rm_invD [OF assms(1) i(2)]
    have len: "length (map_name ?m) = RANGE_MAP_NAME_MAX" using mi(1) by (simp add: map_inv_def)
    let ?nm = "patched (cstr name @ [0]) (map_name ?m)"
    have c: "copy_name (map_name ?m) name = Inr ?nm" using r(2) True len assms(2) by (simp add: copy_name_def)
    have "map_inv (?m\<lparr>map_name := ?nm\<rparr>) (nodes w) (Y i) (Z i)"
    proof (rule map_inv_keeps [OF mi(1)])
      show "keeps (nodes w) (nodes w) a" if "a \<in> set (Y i)" for a using map_ok_alloc [OF mi(2) that] keeps_refl by blast
      show "has_nul (map_name (?m\<lparr>map_name := ?nm\<rparr>))" by (simp add: patched_def has_nul_def)
    qed (use len r(2) True in simp_all)
    then have "rm_inv (upd_map i (\<lambda>x. ?m\<lparr>map_name := ?nm\<rparr>) (w\<lparr>nodes := nodes w\<rparr>)) (Y(i := Y i)) (Z(i := Z i))"
      using map_ok_alloc [OF mi(2)] by (intro rm_inv_upd [OF assms(1) i(2)]) auto
    moreover have "range_map_new name w = Inr (None, upd_map i (\<lambda>x. ?m\<lparr>map_name := ?nm\<rparr>) (w\<lparr>nodes := nodes w\<rparr>))"
      using r(1) f s(1) True i c by (simp add: range_map_new_def upd_map_def)
    ultimately show ?thesis by (metis good_endI)
  next
    case False
    then show ?thesis using r(1) f s(1) assms(1)
      by (cases r; cases f; cases s) (auto simp: range_map_new_def intro: good_endI)
  qed
qed

lemma exec_good: "rm_inv w Y Z \<Longrightarrow> call_ok c w \<Longrightarrow> good_end (rm_exec c w)"
proof (cases c)
  case (SelfPortSetup e)
  moreover assume a: "rm_inv w Y Z" "call_ok c w"
  ultimately obtain h where "reconnect_maps e (range_map_list w) (nodes w) = Inr h" "rm_inv (w\<lparr>nodes := h\<rparr>) Y Z"
    using reconnect_maps_good [where w = w and h = "nodes w" and Y = Y and Z = Z and ms = "range_map_list w" and j = 0 and e = e] by auto
  then show ?thesis using SelfPortSetup by (simp add: esq_range_map_flush_range_node_bucket_connection_def good_endI)
qed (simp_all add: new_good add_good del_good del_all_good flush_good online_good [simplified] offline_good [simplified])

section \<open>Reachable states\<close>

definition rm_start :: rm_world where
  "rm_start = range_map_init \<lparr>nodes = Map.empty, range_map_list = []\<rparr>"

inductive rm_reachable :: "rm_world \<Rightarrow> bool" where
  rm_initial: "rm_reachable rm_start"
| rm_call: "rm_reachable w \<Longrightarrow> call_ok c w \<Longrightarrow> rm_exec c w = Inr (r, w') \<Longrightarrow> rm_reachable w'"

lemma start_inv: "rm_inv rm_start (\<lambda>i. []) (\<lambda>i. [])"
  by (auto simp: rm_inv_def rm_start_def range_map_init_def range_map_zero_def map_inv_def map_ok_def shaped_def trees_def linked_def
      grp_def level_used_def has_nul_def HASH_VALUE_LENGTH_def RANGE_MAP_NAME_MAX_def)

lemma reachable_inv: "rm_reachable w \<Longrightarrow> \<exists>Y Z. rm_inv w Y Z"
proof (induction rule: rm_reachable.induct)
  case (rm_call w c r w')
  then obtain Y Z where "rm_inv w Y Z" by blast
  from exec_good [OF this rm_call(2)] show ?case using rm_call(3) by (auto simp: good_end_def)
qed (use start_inv in blast)

section \<open>Searches and the end\<close>

text \<open>A search at any time returns the head of a chain of allocated nodes.\<close>

lemma lookup_state:
  assumes "rm_inv w Y Z" "has_nul name" "length hash = HASH_VALUE_LENGTH"
  shows "\<exists>xs. range_map_find_and_lock name hash w = Inr (front xs) \<and> lseg node_next (nodes w) (front xs) xs None \<and>
    length xs \<le> card (dom (nodes w))"
proof -
  obtain f where f: "range_map_find_by_name name w = Inr f" "\<And>i. f = Some i \<Longrightarrow> i < RANGE_MAP_MAX"
    using find_by_name [OF assms(1,2)] by blast
  show ?thesis
  proof (cases f)
    case None
    then show ?thesis using f(1) by (intro exI [of _ "[]"]) (simp add: range_map_find_and_lock_def)
  next
    case (Some i)
    let ?m = "range_map_list w ! i" and ?s = "serving (nodes w) (Z i) hash"
    note mi = rm_invD [OF assms(1) f(2) [OF Some]]
    have sub: "set (Z i) \<subseteq> set (Y i)" "length (Z i) \<le> length (Y i)" and dist: "distinct (Z i)" and sh: "shaped ?m (nodes w) (Z i)"
      using mi by (auto simp: map_inv_def map_ok_def)
    have len: "length (rb_by_length ?m) = HASH_VALUE_LENGTH" using mi(2) by (simp add: map_ok_def)
    have ok: "node_ok HASH_VALUE_LENGTH (nodes w) a" if "a \<in> set (Z i)" for a using mi(2) sub that by (auto simp: map_ok_def)
    note search = search_correct [OF sh len ok assms(3)]
    have al: "\<exists>n. nodes w a = Some n" if "a \<in> set (Z i)" for a using map_ok_alloc [OF mi(2)] sub that by blast
    have "length ?s \<le> card (dom (nodes w))"
      using serving_length [of "Z i" "nodes w" hash, OF dist al] sub(2) rm_inv_fuel [OF assms(1) f(2) [OF Some] order.refl] by simp
    then show ?thesis using search f(1) Some by (intro exI [of _ ?s]) (simp add: range_map_find_and_lock_def)
  qed
qed

lemma main_loop: "lseg node_next h p xs None \<Longrightarrow> length xs \<le> fuel \<Longrightarrow> \<exists>r. main_loop fuel p h = Inr r"
proof (induction xs arbitrary: fuel p)
  case (Cons x xs)
  then obtain n fuel' where "p = Some x" "h x = Some n" "lseg node_next h (node_next n) xs None" "fuel = Suc fuel'"
    by (cases fuel) auto
  then show ?case using Cons by (simp add: node_at_def)
qed simp

lemma main_address:
  assumes "rm_inv w Y Z" "has_nul name" "length hash = HASH_VALUE_LENGTH" "card (dom (nodes w)) \<le> rm_fuel e"
  shows "\<exists>r. range_map_get_main_address e name hash w = Inr r"
proof -
  obtain xs where xs: "range_map_find_and_lock name hash w = Inr (front xs)" "lseg node_next (nodes w) (front xs) xs None"
      "length xs \<le> rm_fuel e"
    using lookup_state [OF assms(1-3)] assms(4) le_trans by blast
  show ?thesis using xs(1) main_loop [OF xs(2,3)] by (cases "front xs") (simp_all add: range_map_get_main_address_def)
qed

lemma range_map_free:
  "lseg all_node_list_next h p ys None \<Longrightarrow> distinct ys \<Longrightarrow> length ys \<le> fuel \<Longrightarrow>
     range_map_free fuel p h = Inr (\<lambda>a. if a \<in> set ys then None else h a)"
proof (induction ys arbitrary: fuel p h)
  case (Cons x ys)
  obtain n fuel' where n: "p = Some x" "h x = Some n" "lseg all_node_list_next h (all_node_list_next n) ys None" "fuel = Suc fuel'"
    using Cons.prems by (cases fuel) auto
  have "lseg all_node_list_next (h(x := None)) (all_node_list_next n) ys None" using n(3) Cons.prems(2) by (simp add: lseg_frame)
  moreover have "distinct ys" "length ys \<le> fuel'" using Cons.prems(2,3) n(4) by simp_all
  ultimately have "range_map_free fuel' (all_node_list_next n) (h(x := None)) = Inr (\<lambda>a. if a \<in> set ys then None else (h(x := None)) a)"
    by (rule Cons.IH)
  moreover have "(\<lambda>a. if a \<in> set ys then None else (h(x := None)) a) = (\<lambda>a. if a \<in> set (x # ys) then None else h a)" by auto
  ultimately show ?case unfolding n(1,4) range_map_free.simps by (simp only: node_at_def n(2) of_opt_simps bindE_simps)
qed simp

text \<open>The slots whose name is not empty.\<close>

definition named :: "range_map_t list \<Rightarrow> nat \<Rightarrow> bool" where
  "named ms i \<longleftrightarrow> i < length ms \<and> map_name (ms ! i) ! 0 \<noteq> 0"

lemma named_Cons: "named (m # ms) i \<longleftrightarrow> (case i of 0 \<Rightarrow> map_name m ! 0 \<noteq> 0 | Suc j \<Rightarrow> named ms j)"
  by (simp add: named_def split: nat.split)

lemma named_UN_Cons:
  "(\<Union>i \<in> Collect (named (m # ms)). f i) = (if map_name m ! 0 \<noteq> 0 then f 0 else {}) \<union> (\<Union>i \<in> Collect (named ms). f (Suc i))"
  by (auto simp: named_Cons split: nat.splits)

lemma destroy_maps:
  assumes "\<And>i. i < length ms \<Longrightarrow> lseg all_node_list_next h (all_list (ms ! i)) (Y i) None \<and> distinct (Y i) \<and> length (Y i) \<le> fuel \<and>
      map_name (ms ! i) \<noteq> []"
    and "\<And>i j. i < length ms \<Longrightarrow> j < length ms \<Longrightarrow> i \<noteq> j \<Longrightarrow> set (Y i) \<inter> set (Y j) = {}"
  shows "\<exists>ms'. destroy_maps fuel ms h = Inr (ms', \<lambda>a. if a \<in> (\<Union>i \<in> Collect (named ms). set (Y i)) then None else h a) \<and>
    length ms' = length ms \<and> (\<forall>i. \<not> named ms' i)"
  using assms
proof (induction ms arbitrary: h Y)
  case Nil
  then show ?case by (simp add: named_def)
next
  case (Cons m ms)
  have m: "lseg all_node_list_next h (all_list m) (Y 0) None" "distinct (Y 0)" "length (Y 0) \<le> fuel" "map_name m \<noteq> []"
    using Cons.prems(1) [of 0] by simp_all
  define h1 where "h1 = (\<lambda>a. if map_name m ! 0 \<noteq> 0 \<and> a \<in> set (Y 0) then None else h a)"
  define m' where "m' = (if map_name m ! 0 \<noteq> 0 then m\<lparr>map_name := (map_name m)[0 := 0]\<rparr> else m)"
  have "\<exists>ms'. destroy_maps fuel ms h1 = Inr (ms', \<lambda>a. if a \<in> (\<Union>i \<in> Collect (named ms). set (Y (Suc i))) then None else h1 a) \<and>
      length ms' = length ms \<and> (\<forall>i. \<not> named ms' i)"
  proof (rule Cons.IH)
    fix i assume i: "i < length ms"
    have "set (Y (Suc i)) \<inter> set (Y 0) = {}" using Cons.prems(2) [of "Suc i" 0] i by simp
    then have "lseg all_node_list_next h1 p (Y (Suc i)) None = lseg all_node_list_next h p (Y (Suc i)) None" for p
      by (intro lseg_cong) (auto simp: h1_def)
    then show "lseg all_node_list_next h1 (all_list (ms ! i)) (Y (Suc i)) None \<and> distinct (Y (Suc i)) \<and> length (Y (Suc i)) \<le> fuel \<and>
        map_name (ms ! i) \<noteq> []" using Cons.prems(1) [of "Suc i"] i by simp
  qed (use Cons.prems(2) in auto)
  then obtain ms' where ms': "destroy_maps fuel ms h1 = Inr (ms', \<lambda>a. if a \<in> (\<Union>i \<in> Collect (named ms). set (Y (Suc i))) then None else h1 a)"
      "length ms' = length ms" "\<forall>i. \<not> named ms' i" by blast
  have "destroy_maps fuel (m # ms) h = bindE (destroy_maps fuel ms h1) (\<lambda>(ms, h). Inr (m' # ms, h))"
    using m range_map_free [OF m(1-3)] by (auto simp: rd_def h1_def m'_def)
  moreover have "\<forall>i. \<not> named (m' # ms') i" using ms'(3) m(4) by (auto simp: named_Cons m'_def split: nat.split)
  ultimately show ?case using ms'(1,2) by (auto simp: named_UN_Cons h1_def intro!: ext)
qed

lemma destroy_ends:
  assumes "rm_inv w Y Z" "card (dom (nodes w)) \<le> fuel"
  shows "\<exists>w'. range_map_destroy fuel w = Inr w' \<and> (\<forall>i. \<not> named (range_map_list w') i) \<and>
    dom (nodes w') = dom (nodes w) - (\<Union>i \<in> Collect (named (range_map_list w)). set (Y i))"
proof -
  have len: "length (range_map_list w) = RANGE_MAP_MAX" using assms(1) by (simp add: rm_inv_def)
  have "\<exists>ms'. destroy_maps fuel (range_map_list w) (nodes w) =
      Inr (ms', \<lambda>a. if a \<in> (\<Union>i \<in> Collect (named (range_map_list w)). set (Y i)) then None else nodes w a) \<and>
      length ms' = length (range_map_list w) \<and> (\<forall>i. \<not> named ms' i)"
  proof (rule destroy_maps)
    fix i assume "i < length (range_map_list w)"
    then have i: "i < RANGE_MAP_MAX" using len by simp
    show "lseg all_node_list_next (nodes w) (all_list (range_map_list w ! i)) (Y i) None \<and> distinct (Y i) \<and> length (Y i) \<le> fuel \<and>
        map_name (range_map_list w ! i) \<noteq> []"
      using rm_invD [OF assms(1) i] rm_inv_fuel [OF assms(1) i assms(2)] by (auto simp: map_ok_def map_inv_def RANGE_MAP_NAME_MAX_def)
  qed (use assms(1) len in \<open>simp add: rm_inv_def\<close>)
  then show ?thesis by (auto simp: range_map_destroy_def dom_def)
qed

section \<open>A small instance\<close>

text \<open>One map with one node for the hashes that start with \<^verbatim>\<open>ff\<close>.\<close>

definition ex_rm :: rm_env where
  "ex_rm = \<lparr>malloc_node = Some 0, inet_addr = (\<lambda>s. 0x04030201), os_ip_address_is_me = (\<lambda>a. False), bee_server_is_my_port = (\<lambda>p. False),
     esq_bee_find_bucket = (\<lambda>n h i p. None), stack_bytes = replicate 32 0, rm_fuel = 4\<rparr>"

definition ex_name :: "byte list" where "ex_name = bytes ''m'' @ [0]"

definition rm_after :: "rm_call \<Rightarrow> rm_world \<Rightarrow> rm_world" where
  "rm_after c w = (case rm_exec c w of Inl s \<Rightarrow> w | Inr (r, w') \<Rightarrow> w')"

definition rm_reply :: "rm_call \<Rightarrow> rm_world \<Rightarrow> string option res" where
  "rm_reply c w = bindE (rm_exec c w) (\<lambda>(r, w). Inr r)"

definition ex_add :: rm_call where
  "ex_add = RangeMapAddNode ex_rm ex_name (bytes ''1.2.3.4'' @ [0]) 80 0 (bytes ''ffx'' @ [0])"

definition ex_w1 :: rm_world where "ex_w1 = rm_after (RangeMapNew ex_name) rm_start"
definition ex_w2 :: rm_world where "ex_w2 = rm_after ex_add ex_w1"
definition ex_w3 :: rm_world where "ex_w3 = rm_after (RangeMapFlush (ex_rm\<lparr>malloc_node := None\<rparr>) ex_name) ex_w2"

lemma rm_after: "rm_reply c w = Inr r \<Longrightarrow> rm_exec c w = Inr (r, rm_after c w)"
  by (auto simp: rm_reply_def rm_after_def bindE_def split: sum.splits prod.splits)

lemma ex_replies:
  "rm_reply (RangeMapNew ex_name) rm_start = Inr None" "rm_reply ex_add ex_w1 = Inr None"
  "rm_reply (RangeMapFlush (ex_rm\<lparr>malloc_node := None\<rparr>) ex_name) ex_w2 = Inr None"
  by code_simp+

lemma new_nodes: "range_map_new name w = Inr (r, w') \<Longrightarrow> nodes w' = nodes w"
  by (auto simp: range_map_new_def upd_map_def split: option.splits dest!: bindE_InrD)

lemma add_nodes: "range_map_add_node e name ip port flags hash w = Inr (r, w') \<Longrightarrow>
    nodes w' = nodes w \<or> (\<exists>a n. malloc_node e = Some a \<and> nodes w' = (nodes w)(a \<mapsto> n))"
  by (auto simp: range_map_add_node_def upd_map_def Let_def split: option.splits sum.splits dest!: bindE_InrD) blast+

lemma ex_states: "nodes ex_w1 = Map.empty" "dom (nodes ex_w2) \<subseteq> {0}"
proof -
  have "range_map_new ex_name rm_start = Inr (None, ex_w1)" using rm_after [OF ex_replies(1)] by (simp add: ex_w1_def)
  from new_nodes [OF this] show 1: "nodes ex_w1 = Map.empty" by (simp add: rm_start_def range_map_init_def)
  have "rm_exec ex_add ex_w1 = Inr (None, ex_w2)" using rm_after [OF ex_replies(2)] by (simp add: ex_w2_def)
  then have "nodes ex_w2 = nodes ex_w1 \<or> (\<exists>a n. malloc_node ex_rm = Some a \<and> nodes ex_w2 = (nodes ex_w1)(a \<mapsto> n))"
    unfolding ex_add_def rm_exec.simps by (rule add_nodes)
  then show "dom (nodes ex_w2) \<subseteq> {0}" using 1 by (auto simp: ex_rm_def split: if_splits)
qed

lemma ex_env_ok: "env_ok ex_rm ex_w1" "env_ok (ex_rm\<lparr>malloc_node := None\<rparr>) ex_w2"
  using ex_states card_mono [OF _ ex_states(2)] by (auto simp: env_ok_def ex_rm_def HASH_VALUE_LENGTH_def)

lemma ex_rm_reachable: "rm_reachable ex_w1" "rm_reachable ex_w2"
proof -
  have "call_ok (RangeMapNew ex_name) rm_start" by (simp add: ex_name_def has_nul_def)
  from rm_call [OF rm_initial this rm_after [OF ex_replies(1)]] show 1: "rm_reachable ex_w1" by (simp add: ex_w1_def)
  have "call_ok ex_add ex_w1" using ex_env_ok(1) by (simp add: ex_add_def ex_name_def has_nul_def)
  from rm_call [OF 1 this rm_after [OF ex_replies(2)]] show "rm_reachable ex_w2" by (simp add: ex_w2_def)
qed

lemma ex_flush: "range_map_flush (ex_rm\<lparr>malloc_node := None\<rparr>) ex_name ex_w2 = Inr (None, ex_w3)"
  using rm_after [OF ex_replies(3)] by (simp add: ex_w3_def)

section \<open>Theorems\<close>

text \<open>
  The search for a map by name finds an unused slot for the empty name, which \<open>range_map_new\<close> refuses: a node added under the
  empty name goes into that slot, and \<open>range_map_destroy\<close> does not free it.
\<close>

definition ex_add_nameless :: rm_call where
  "ex_add_nameless = RangeMapAddNode ex_rm [0] (bytes ''1.2.3.4'' @ [0]) 80 0 (bytes ''ffx'' @ [0])"

lemma nameless_node_leaks:
  "rm_reply ex_add_nameless rm_start = Inr None"
  "bindE (range_map_destroy 4 (rm_after ex_add_nameless rm_start)) (\<lambda>w. Inr (nodes w 0 = None)) = Inr False"
  by code_simp+

text \<open>
  C14.  The range maps answer every call.  In a state reached by any sequence of \<open>range_map_new\<close>, \<open>range_map_add_node\<close>,
  \<open>range_map_del_node\<close>, \<open>range_map_del_all_node\<close>, \<open>range_map_flush\<close>, the two bucket notifications and the set-up of the server
  port, a further such call with proper arguments (\<open>call_ok\<close>: strings are terminated, \<open>malloc\<close> returns fresh memory) follows no null
  or dangling pointer, ends its loops, does not run into the design error of the node comparison, and returns.  So do, for a
  hash of full length, the search and \<open>range_map_get_main_address\<close>.  In every such state the nodes of the ten maps form disjoint
  lists, every allocated node is on one of them, and \<open>range_map_destroy\<close> returns, having freed exactly the nodes of the maps
  with a name.
\<close>

theorem range_map_calls_return:
  assumes "rm_reachable w"
  shows "(call_ok c w \<longrightarrow> (\<exists>r w'. rm_exec c w = Inr (r, w') \<and> rm_reachable w')) \<and>
    (has_nul name \<and> length hash = HASH_VALUE_LENGTH \<and> card (dom (nodes w)) \<le> rm_fuel e \<longrightarrow>
       (\<exists>p r. range_map_find_and_lock name hash w = Inr p \<and> range_map_get_main_address e name hash w = Inr r)) \<and>
    (\<exists>Y. (\<forall>i < RANGE_MAP_MAX. lseg all_node_list_next (nodes w) (all_list (range_map_list w ! i)) (Y i) None \<and> distinct (Y i)) \<and>
       (\<forall>i < RANGE_MAP_MAX. \<forall>j < RANGE_MAP_MAX. i \<noteq> j \<longrightarrow> set (Y i) \<inter> set (Y j) = {}) \<and>
       dom (nodes w) = (\<Union>i < RANGE_MAP_MAX. set (Y i)) \<and>
       (card (dom (nodes w)) \<le> fuel \<longrightarrow> (\<exists>w'. range_map_destroy fuel w = Inr w' \<and> (\<forall>i. \<not> named (range_map_list w') i) \<and>
          dom (nodes w') = dom (nodes w) - (\<Union>i \<in> Collect (named (range_map_list w)). set (Y i)))))"
proof -
  obtain Y Z where inv: "rm_inv w Y Z" using reachable_inv [OF assms] by blast
  have "\<exists>r w'. rm_exec c w = Inr (r, w') \<and> rm_reachable w'" if ok: "call_ok c w"
  proof -
    obtain r w' where "rm_exec c w = Inr (r, w')" using exec_good [OF inv ok] by (auto simp: good_end_def)
    then show ?thesis using rm_call [OF assms ok] by blast
  qed
  moreover have "\<exists>p r. range_map_find_and_lock name hash w = Inr p \<and> range_map_get_main_address e name hash w = Inr r"
    if "has_nul name \<and> length hash = HASH_VALUE_LENGTH \<and> card (dom (nodes w)) \<le> rm_fuel e"
    using lookup_state [OF inv] main_address [OF inv] that by blast
  moreover have "dom (nodes w) = (\<Union>i < RANGE_MAP_MAX. set (Y i))" using inv unfolding rm_inv_def by (auto simp: dom_def)
  moreover have "lseg all_node_list_next (nodes w) (all_list (range_map_list w ! i)) (Y i) None \<and> distinct (Y i)" if "i < RANGE_MAP_MAX" for i
    using rm_invD(2) [OF inv that] by (simp add: map_ok_def)
  moreover have "\<forall>i < RANGE_MAP_MAX. \<forall>j < RANGE_MAP_MAX. i \<noteq> j \<longrightarrow> set (Y i) \<inter> set (Y j) = {}" using inv by (simp add: rm_inv_def)
  ultimately show ?thesis using destroy_ends [OF inv, of fuel] by (intro conjI impI exI [of _ Y]) blast+
qed

theorem range_map_calls_return_witness:
  "(\<exists>r w'. rm_exec ex_add ex_w1 = Inr (r, w') \<and> rm_reachable w') \<and>
   (\<exists>p r. range_map_find_and_lock ex_name (replicate 32 255) ex_w2 = Inr p \<and>
      range_map_get_main_address ex_rm ex_name (replicate 32 255) ex_w2 = Inr r) \<and>
   (\<exists>w'. range_map_destroy 4 ex_w2 = Inr w' \<and> (\<forall>i. \<not> named (range_map_list w') i))"
proof -
  have name: "has_nul ex_name" and fuel: "card (dom (nodes ex_w2)) \<le> 4" "rm_fuel ex_rm = 4"
    using ex_env_ok(2) by (simp_all add: ex_name_def has_nul_def env_ok_def ex_rm_def)
  note 1 = range_map_calls_return [OF ex_rm_reachable(1), of ex_add]
    and 2 = range_map_calls_return [OF ex_rm_reachable(2), of ex_add ex_name "replicate 32 255" ex_rm 4]
  have "\<exists>r w'. rm_exec ex_add ex_w1 = Inr (r, w') \<and> rm_reachable w'"
    using 1 ex_env_ok(1) name by (auto simp: ex_add_def has_nul_def)
  moreover have "\<exists>p r. range_map_find_and_lock ex_name (replicate 32 255) ex_w2 = Inr p \<and>
      range_map_get_main_address ex_rm ex_name (replicate 32 255) ex_w2 = Inr r"
    using 2 name fuel by (simp add: HASH_VALUE_LENGTH_def)
  moreover have "\<exists>w'. range_map_destroy 4 ex_w2 = Inr w' \<and> (\<forall>i. \<not> named (range_map_list w') i)"
    using 2 fuel(1) by blast
  ultimately show ?thesis by blast
qed

lemma find_map_at_names: "map map_name ms = map map_name ms' \<Longrightarrow> find_map_at name i ms = find_map_at name i ms'"
proof (induction ms arbitrary: ms' i)
  case (Cons m ms)
  then obtain m' ns where "ms' = m' # ns" "map_name m = map_name m'" "map map_name ms = map map_name ns" by auto
  moreover from this have "find_map_at name (i + 1) ms = find_map_at name (i + 1) ns" using Cons.IH by blast
  ultimately show ?case by (simp only: find_map_at.simps)
qed simp

text \<open>What a flush leaves: the unmarked nodes, in their order, all of them in the trees.\<close>

lemma flush_state:
  assumes "rm_inv w Y Z" "has_nul name" "env_ok e w" "range_map_flush e name w = Inr (None, w')"
  shows "\<exists>i zs. i < RANGE_MAP_MAX \<and> range_map_find_by_name name w' = Inr (Some i) \<and> range_map_find_by_name name w = Inr (Some i) \<and>
    zs = filter (\<lambda>a. \<not> marked (nodes w) a) (Y i) \<and> rm_inv w' (Y(i := zs)) (Z(i := zs)) \<and>
    (\<forall>a \<in> set zs. cores (nodes w') a = cores (nodes w) a) \<and> (\<forall>a \<in> set (Y i) - set zs. nodes w' a = None)"
proof -
  obtain i where i: "range_map_find_by_name name w = Inr (Some i)" "i < RANGE_MAP_MAX"
    using find_by_name [OF assms(1,2)] assms(4) by (auto simp: range_map_flush_def split: option.splits)
  let ?zs = "filter (\<lambda>a. \<not> marked (nodes w) a) (Y i)"
  have "length (Y i) \<le> rm_fuel e" using rm_inv_fuel [OF assms(1) i(2)] assms(3) by (simp add: env_ok_def)
  then obtain v where v: "rebuild (rm_fuel e) i w = Inr v" "rm_inv v (Y(i := ?zs)) (Z(i := ?zs))"
      "map map_name (range_map_list v) = map map_name (range_map_list w)"
      "\<forall>a. if a \<in> set (Y i) \<and> marked (nodes w) a then nodes v a = None else cores (nodes v) a = cores (nodes w) a"
    using rebuild_inv [OF assms(1) i(2)] by blast
  have w': "w' = v" using assms(4) i(1) v(1) by (simp add: range_map_flush_def)
  have "range_map_find_by_name name v = Inr (Some i)"
    using i(1) find_map_at_names [OF v(3), of name 0] by (simp add: range_map_find_by_name_def)
  moreover have "\<forall>a \<in> set ?zs. cores (nodes v) a = cores (nodes w) a" "\<forall>a \<in> set (Y i) - set ?zs. nodes v a = None"
    using v(4) by (auto split: if_splits)
  ultimately show ?thesis using i v(2) w' by (intro exI [of _ i] exI [of _ ?zs]) simp
qed

text \<open>
  C13.  The search returns what the map is for.  After a flush of a map in any reachable state, the map holds its former nodes
  without those marked as deleted, which are freed; and the search for a hash finds the chain of exactly the nodes
  whose prefix starts the hash, those with longer prefixes first, and those with equal prefixes in the order of the list.
\<close>

theorem range_map_search_exact:
  assumes "rm_reachable w" "has_nul name" "env_ok e w" "range_map_flush e name w = Inr (None, w')" "length hash = HASH_VALUE_LENGTH"
  shows "\<exists>i ys. let zs = filter (\<lambda>a. \<not> marked (nodes w) a) ys in
    lseg all_node_list_next (nodes w) (all_list (range_map_list w ! i)) ys None \<and> cstr (map_name (range_map_list w ! i)) = cstr name \<and>
    lseg all_node_list_next (nodes w') (all_list (range_map_list w' ! i)) zs None \<and>
    (\<forall>a \<in> set zs. cores (nodes w') a = cores (nodes w) a) \<and> (\<forall>a \<in> set ys - set zs. nodes w' a = None) \<and>
    range_map_find_and_lock name hash w' = Inr (front (serving (nodes w') zs hash)) \<and>
    lseg node_next (nodes w') (front (serving (nodes w') zs hash)) (serving (nodes w') zs hash) None"
proof -
  obtain Y Z where inv: "rm_inv w Y Z" using reachable_inv [OF assms(1)] by blast
  obtain i where i: "i < RANGE_MAP_MAX" "range_map_find_by_name name w' = Inr (Some i)" "range_map_find_by_name name w = Inr (Some i)"
      "rm_inv w' (Y(i := filter (\<lambda>a. \<not> marked (nodes w) a) (Y i))) (Z(i := filter (\<lambda>a. \<not> marked (nodes w) a) (Y i)))"
      "\<forall>a \<in> set (filter (\<lambda>a. \<not> marked (nodes w) a) (Y i)). cores (nodes w') a = cores (nodes w) a"
      "\<forall>a \<in> set (Y i) - set (filter (\<lambda>a. \<not> marked (nodes w) a) (Y i)). nodes w' a = None"
    using flush_state [OF inv assms(2-4)] by blast
  let ?zs = "filter (\<lambda>a. \<not> marked (nodes w) a) (Y i)" and ?m = "range_map_list w' ! i"
  have mi: "map_ok ?m (nodes w') ?zs" "shaped ?m (nodes w') ?zs"
    using rm_invD [OF i(4,1)] by (auto simp: map_inv_def)
  have ok: "node_ok HASH_VALUE_LENGTH (nodes w') a" if "a \<in> set ?zs" for a using mi(1) that by (simp add: map_ok_def)
  have len: "length (rb_by_length ?m) = HASH_VALUE_LENGTH" using mi(1) by (simp add: map_ok_def)
  note search = search_correct [OF mi(2) len ok assms(5)]
  have "cstr (map_name (range_map_list w ! i)) = cstr name" using find_by_name [OF inv assms(2)] i(3) by auto
  moreover have "range_map_find_and_lock name hash w' = Inr (front (serving (nodes w') ?zs hash))"
    using search(1) i(2) by (simp add: range_map_find_and_lock_def)
  ultimately show ?thesis
    using search(2) rm_invD(2) [OF inv i(1)] mi(1) i(5,6) unfolding map_ok_def Let_def
    by (intro exI [of _ i] exI [of _ "Y i"]) auto
qed

theorem range_map_search_exact_witness:
  "range_map_find_and_lock ex_name (replicate 32 255) ex_w3 = Inr (Some 0) \<and>
   (\<exists>zs. range_map_find_and_lock ex_name (replicate 32 255) ex_w3 = Inr (front (serving (nodes ex_w3) zs (replicate 32 255))))"
proof -
  have "range_map_find_and_lock ex_name (replicate 32 255) ex_w3 = Inr (Some 0)" by code_simp
  moreover have "has_nul ex_name" by (simp add: ex_name_def has_nul_def)
  then have "\<exists>zs. range_map_find_and_lock ex_name (replicate 32 255) ex_w3 = Inr (front (serving (nodes ex_w3) zs (replicate 32 255)))"
    using range_map_search_exact [OF ex_rm_reachable(2) _ ex_env_ok(2) ex_flush, of "replicate 32 255"]
    unfolding Let_def by (auto simp: HASH_VALUE_LENGTH_def)
  ultimately show ?thesis by blast
qed

text \<open>The addresses of a chain without marked nodes.\<close>

lemma addresses_loop:
  assumes "lseg node_next h p xs None" "length xs \<le> fuel" "\<And>a. a \<in> set xs \<Longrightarrow> \<not> marked h a"
  shows "addresses_loop fuel p mx acc h =
    Inr (if xs = [] \<or> int (length acc + length xs) \<le> mx then Some (acc @ map (\<lambda>a. address (the (h a))) xs) else None)"
  using assms
proof (induction xs arbitrary: fuel p acc)
  case (Cons x xs)
  obtain n where n: "p = Some x" "h x = Some n" "lseg node_next h (node_next n) xs None" using Cons.prems(1) by auto
  obtain fuel' where fuel: "fuel = Suc fuel'" using Cons.prems(2) by (cases fuel) auto
  have "RM_NODE_DELETE AND node_flags n = 0" using Cons.prems(3) [of x] n(2) by (simp add: marked_def and.commute)
  then show ?case using n fuel Cons.IH [OF n(3), of fuel' "acc @ [address n]"] Cons.prems(2,3)
    by (auto simp: node_at_def)
qed simp

text \<open>
  C15.  The addresses a client gets after a flush are those of all nodes that serve the hash, most specific first, or an
  error when they do not fit into the array of the caller.
\<close>

theorem range_map_addresses_exact:
  assumes "rm_reachable w" "has_nul name" "env_ok e w" "range_map_flush e name w = Inr (None, w')" "length hash = HASH_VALUE_LENGTH"
    and "card (dom (nodes w)) \<le> rm_fuel e'"
  shows "\<exists>i zs. cstr (map_name (range_map_list w ! i)) = cstr name \<and>
    lseg all_node_list_next (nodes w') (all_list (range_map_list w' ! i)) zs None \<and>
    (let s = serving (nodes w') zs hash in
     range_map_get_addresses e' name hash mx w' =
       Inr (if s = [] \<or> int (length s) \<le> mx then Some (map (\<lambda>a. address (the (nodes w' a))) s) else None))"
proof -
  obtain Y Z where inv: "rm_inv w Y Z" using reachable_inv [OF assms(1)] by blast
  obtain i where i: "i < RANGE_MAP_MAX" "range_map_find_by_name name w' = Inr (Some i)"
      "rm_inv w' (Y(i := filter (\<lambda>a. \<not> marked (nodes w) a) (Y i))) (Z(i := filter (\<lambda>a. \<not> marked (nodes w) a) (Y i)))"
      "\<forall>a \<in> set (filter (\<lambda>a. \<not> marked (nodes w) a) (Y i)). cores (nodes w') a = cores (nodes w) a"
      "range_map_find_by_name name w = Inr (Some i)"
    using flush_state [OF inv assms(2-4)] by blast
  let ?zs = "filter (\<lambda>a. \<not> marked (nodes w) a) (Y i)" and ?m = "range_map_list w' ! i"
  let ?s = "serving (nodes w') ?zs hash"
  have mi: "map_ok ?m (nodes w') ?zs" "shaped ?m (nodes w') ?zs" using rm_invD [OF i(3,1)] by (auto simp: map_inv_def)
  have ok: "node_ok HASH_VALUE_LENGTH (nodes w') a" if "a \<in> set ?zs" for a using mi(1) that by (simp add: map_ok_def)
  have len: "length (rb_by_length ?m) = HASH_VALUE_LENGTH" using mi(1) by (simp add: map_ok_def)
  note search = search_correct [OF mi(2) len ok assms(5)]
  have sub: "set ?s \<subseteq> set ?zs" by (auto simp: serving_def)
  have "\<not> marked (nodes w') a" if "a \<in> set ?s" for a
  proof -
    have a: "a \<in> set ?zs" using sub that by blast
    then have "nodes w' a \<noteq> None" using map_ok_alloc [OF mi(1)] by blast
    then show ?thesis using marked_cores [of "nodes w'" a "nodes w"] i(4) a by auto
  qed
  moreover have "length ?s \<le> rm_fuel e'"
  proof -
    have "length ?s \<le> length ?zs" using mi(1) map_ok_alloc [OF mi(1)] by (intro serving_length) (simp add: map_ok_def, blast)
    also have "\<dots> \<le> rm_fuel e'" using rm_inv_fuel [OF inv i(1) assms(6)] length_filter_le le_trans by blast
    finally show ?thesis .
  qed
  ultimately have loop: "addresses_loop (rm_fuel e') (front ?s) mx [] (nodes w') =
      Inr (if ?s = [] \<or> int (length ?s) \<le> mx then Some (map (\<lambda>a. address (the (nodes w' a))) ?s) else None)"
    using addresses_loop [OF search(2), of "rm_fuel e'" mx "[]"] by auto
  have "range_map_find_and_lock name hash w' = Inr (front ?s)" using search(1) i(2) by (simp add: range_map_find_and_lock_def)
  then have "range_map_get_addresses e' name hash mx w' =
      Inr (if ?s = [] \<or> int (length ?s) \<le> mx then Some (map (\<lambda>a. address (the (nodes w' a))) ?s) else None)"
    using loop by (cases "front ?s") (auto simp: range_map_get_addresses_def)
  moreover have "cstr (map_name (range_map_list w ! i)) = cstr name" using find_by_name [OF inv assms(2)] i(5) by auto
  ultimately show ?thesis using mi(1) unfolding map_ok_def Let_def by (intro exI [of _ i] exI [of _ ?zs]) auto
qed

theorem range_map_addresses_exact_witness:
  "\<exists>i zs. lseg all_node_list_next (nodes ex_w3) (all_list (range_map_list ex_w3 ! i)) zs None \<and>
     range_map_get_addresses ex_rm ex_name (replicate 32 255) 2 ex_w3 = Inr (Some [\<lparr>sin_port = 20480, s_addr = 0x04030201\<rparr>])"
proof -
  have "has_nul ex_name" "card (dom (nodes ex_w2)) \<le> rm_fuel ex_rm" using ex_env_ok(2) by (simp_all add: ex_name_def has_nul_def env_ok_def ex_rm_def)
  then have "\<exists>i zs. lseg all_node_list_next (nodes ex_w3) (all_list (range_map_list ex_w3 ! i)) zs None"
    using range_map_addresses_exact [OF ex_rm_reachable(2) _ ex_env_ok(2) ex_flush, of "replicate 32 255" ex_rm]
    unfolding HASH_VALUE_LENGTH_def by (metis length_replicate)
  moreover have "range_map_get_addresses ex_rm ex_name (replicate 32 255) 2 ex_w3 = Inr (Some [\<lparr>sin_port = 20480, s_addr = 0x04030201\<rparr>])"
    by code_simp
  ultimately show ?thesis by blast
qed

end
