(* ===== verification/Esq_Dashboard.thy ===== *)
theory Esq_Dashboard
  imports Esq_Compare Esq_Scan
begin

text \<open>
  The dashboard of \<^verbatim>\<open>src/dashboard.c\<close>: the tasks of the server leave a text and read an operation code under an
  identifier.  The items are in a red-black tree ordered by the difference of their identifiers.  The spin lock makes
  each operation one step.  The address \<^verbatim>\<open>malloc\<close> returns and the text \<^verbatim>\<open>vsnprintf\<close> makes of its arguments are
  parameters.  The counter of identifiers wraps around, as the test for negative values in the code expects;
  an overflow of the difference in the comparison is a fault.
\<close>

section \<open>Items\<close>

definition DASHBOARD_BUFFER_SIZE :: nat where "DASHBOARD_BUFFER_SIZE = 4096"
definition ESQ_DASHBOARD_OP_STOP :: int where "ESQ_DASHBOARD_OP_STOP = 9"
definition DASHBOARD_DETACH_ALERT_CYCLE :: nat where "DASHBOARD_DETACH_ALERT_CYCLE = 100"

record esq_dashboard_item_t =
  item_id :: int
  opcode :: int
  buf_string_length :: nat
  item_buf :: "byte list"

type_synonym item_heap = "addr \<Rightarrow> esq_dashboard_item_t option"

record dashboard =
  items :: item_heap
  esq_dashboard_rb :: "addr rb"
  esq_dashboard_id_max :: int

definition item_at :: "addr \<Rightarrow> item_heap \<Rightarrow> esq_dashboard_item_t res" where
  "item_at a h = of_opt (h a)"

text \<open>The comparison of an item that is given by its identifier with an item of the tree.\<close>

definition esq_dashboard_item_compare :: "int \<Rightarrow> item_heap \<Rightarrow> addr \<Rightarrow> int res" where
  "esq_dashboard_item_compare a h b = bindE (item_at b h) (\<lambda>e. of_opt (i32 (a - item_id e)))"

definition item_find :: "int \<Rightarrow> dashboard \<Rightarrow> addr option res" where
  "item_find k w = RB_FIND (esq_dashboard_item_compare k (items w)) (esq_dashboard_rb w)"

definition new_item :: "int \<Rightarrow> esq_dashboard_item_t" where
  "new_item i = \<lparr>item_id = i, opcode = 0, buf_string_length = 0, item_buf = replicate DASHBOARD_BUFFER_SIZE 0\<rparr>"

section \<open>Operations\<close>

primrec new_loop :: "nat \<Rightarrow> int \<Rightarrow> dashboard \<Rightarrow> int res" where
  "new_loop 0 i w = Inl Fuel"
| "new_loop (Suc fuel) i w =
     (let i = if i < 0 then 0 else i in
      bindE (item_find i w) (\<lambda>e. case e of Some _ \<Rightarrow> new_loop fuel (wrap32 (i + 1)) w | None \<Rightarrow> Inr i))"

text \<open>The search for a free identifier meets every item at most once, hence the fuel.\<close>

definition esq_dashboard_new :: "addr option \<Rightarrow> dashboard \<Rightarrow> (int \<times> dashboard) res" where
  "esq_dashboard_new mem w =
     (case mem of None \<Rightarrow> Inr (-1, w) | Some p \<Rightarrow>
      bindE (new_loop (rb_size (esq_dashboard_rb w) + 1) (esq_dashboard_id_max w) w) (\<lambda>i.
      let h = (items w)(p \<mapsto> new_item i) in
      bindE (RB_INSERT (esq_dashboard_item_compare i h) p (esq_dashboard_rb w)) (\<lambda>(e, t).
      Inr (i, w\<lparr>items := h, esq_dashboard_rb := t, esq_dashboard_id_max := wrap32 (i + 1)\<rparr>))))"

definition upd_item :: "addr \<Rightarrow> (esq_dashboard_item_t \<Rightarrow> esq_dashboard_item_t res) \<Rightarrow> dashboard \<Rightarrow> dashboard res" where
  "upd_item a f w = bindE (item_at a (items w)) (\<lambda>e. bindE (f e) (\<lambda>e. Inr (w\<lparr>items := (items w)(a \<mapsto> e)\<rparr>)))"

definition esq_dashboard_set_opcode :: "int \<Rightarrow> int \<Rightarrow> dashboard \<Rightarrow> (int \<times> dashboard) res" where
  "esq_dashboard_set_opcode k c w =
     bindE (item_find k w) (\<lambda>e. case e of None \<Rightarrow> Inr (ESQ_ERROR_NOTFOUND, w) | Some a \<Rightarrow>
     bindE (upd_item a (\<lambda>e. Inr (e\<lparr>opcode := c\<rparr>)) w) (\<lambda>w. Inr (ESQ_OK, w)))"

definition esq_dashboard_get_opcode :: "int \<Rightarrow> dashboard \<Rightarrow> (int \<times> int option) res" where
  "esq_dashboard_get_opcode k w =
     bindE (item_find k w) (\<lambda>e. case e of None \<Rightarrow> Inr (ESQ_ERROR_NOTFOUND, None) | Some a \<Rightarrow>
     bindE (item_at a (items w)) (\<lambda>e. Inr (ESQ_OK, Some (opcode e))))"

text \<open>
  \<open>r\<close> is what \<^verbatim>\<open>vsnprintf\<close> returns: the length of the whole text \<open>txt\<close> of the format and its arguments, or a negative number,
  and then \<open>txt\<close> is what it had written before the error.
\<close>

definition esq_dashboard_snprintf :: "int \<Rightarrow> int \<Rightarrow> int \<Rightarrow> byte list \<Rightarrow> dashboard \<Rightarrow> (int \<times> dashboard) res" where
  "esq_dashboard_snprintf k offset r txt w =
     (if offset < 0 \<or> offset \<ge> int DASHBOARD_BUFFER_SIZE then Inr (-1, w)
      else bindE (item_find k w) (\<lambda>e. case e of None \<Rightarrow> Inr (-1, w) | Some a \<Rightarrow>
      bindE (upd_item a (\<lambda>e.
        bindE (snprintf_at (nat offset) (DASHBOARD_BUFFER_SIZE - nat offset) txt (item_buf e)) (\<lambda>b.
        Inr (e\<lparr>item_buf := b, buf_string_length := if r \<le> 0 \<or> r \<ge> int DASHBOARD_BUFFER_SIZE then buf_string_length e else nat r\<rparr>))) w) (\<lambda>w.
      Inr (r, w))))"

primrec stop_items :: "addr list \<Rightarrow> item_heap \<Rightarrow> item_heap res" where
  "stop_items [] h = Inr h"
| "stop_items (p # ps) h = bindE (item_at p h) (\<lambda>e. stop_items ps (h(p \<mapsto> e\<lparr>opcode := ESQ_DASHBOARD_OP_STOP\<rparr>)))"

definition esq_dashboard_notify_stop_to_all_tasks :: "dashboard \<Rightarrow> (int \<times> dashboard) res" where
  "esq_dashboard_notify_stop_to_all_tasks w =
     (let ps = RB_FOREACH (esq_dashboard_rb w) in
      bindE (stop_items ps (items w)) (\<lambda>h. Inr (int (length ps), w\<lparr>items := h\<rparr>)))"

text \<open>Every pass removes the smallest item of the tree, so that as many passes as items are enough.\<close>

primrec remove_all_loop :: "nat \<Rightarrow> dashboard \<Rightarrow> dashboard res" where
  "remove_all_loop 0 w = Inl Fuel"
| "remove_all_loop (Suc fuel) w =
     (case RB_MIN (esq_dashboard_rb w) of None \<Rightarrow> Inr w | Some p \<Rightarrow>
      bindE (of_opt (RB_REMOVE p (esq_dashboard_rb w))) (\<lambda>t.
      bindE (item_at p (items w)) (\<lambda>e.
      remove_all_loop fuel (w\<lparr>items := (items w)(p := None), esq_dashboard_rb := t\<rparr>))))"

definition esq_dashboard_remove_all_items :: "dashboard \<Rightarrow> dashboard res" where
  "esq_dashboard_remove_all_items w = remove_all_loop (rb_size (esq_dashboard_rb w) + 1) w"

text \<open>The decimal numbers of the identifiers, with blanks between them, as far as they fit.\<close>

definition id_text :: "nat \<Rightarrow> int \<Rightarrow> byte list" where
  "id_text offset k = (if offset \<noteq> 0 then bytes '' '' else []) @ (if k < 0 then bytes ''-'' else []) @ dec_print (nat \<bar>k\<bar>)"

fun list_loop :: "addr list \<Rightarrow> item_heap \<Rightarrow> nat \<Rightarrow> byte list \<Rightarrow> (nat \<times> byte list) res" where
  "list_loop [] h offset buf = Inr (offset, buf)"
| "list_loop (p # ps) h offset buf =
     bindE (item_at p h) (\<lambda>e.
     let txt = id_text offset (item_id e) in
     bindE (snprintf_at offset (length buf - offset) txt buf) (\<lambda>buf.
     if length txt < length buf - offset then list_loop ps h (offset + length txt) buf else Inr (offset, buf)))"

definition esq_dashboard_list_all_items :: "byte list \<Rightarrow> dashboard \<Rightarrow> (nat \<times> byte list) res" where
  "esq_dashboard_list_all_items buf w = list_loop (RB_FOREACH (esq_dashboard_rb w)) (items w) 0 buf"

definition esq_dashboard_get_item_count :: "dashboard \<Rightarrow> int" where
  "esq_dashboard_get_item_count w = int (length (RB_FOREACH (esq_dashboard_rb w)))"

definition esq_dashboard_get_item_string :: "int \<Rightarrow> byte list \<Rightarrow> dashboard \<Rightarrow> (string option \<times> nat \<times> byte list) res" where
  "esq_dashboard_get_item_string k buf w =
     bindE (item_find k w) (\<lambda>e. case e of None \<Rightarrow> Inr (Some ''dashboard item not found'', length buf, buf) | Some a \<Rightarrow>
     bindE (item_at a (items w)) (\<lambda>e.
     if buf_string_length e \<noteq> 0
     then if buf_string_length e > length buf then Inr (Some ''design issue, buffer size too small'', length buf, buf)
          else bindE (memcpy_at 0 (item_buf e) (buf_string_length e + 1) buf) (\<lambda>buf. Inr (None, buf_string_length e, buf))
     else Inr (None, 0, buf)))"

definition esq_dashboard_get_item_opcode :: "int \<Rightarrow> dashboard \<Rightarrow> (string option \<times> int option) res" where
  "esq_dashboard_get_item_opcode k w =
     bindE (item_find k w) (\<lambda>e. case e of None \<Rightarrow> Inr (Some ''dashboard item not found'', None) | Some a \<Rightarrow>
     bindE (item_at a (items w)) (\<lambda>e. Inr (None, Some (opcode e))))"

definition esq_dashboard_set_item_opcode :: "int \<Rightarrow> int \<Rightarrow> dashboard \<Rightarrow> (string option \<times> dashboard) res" where
  "esq_dashboard_set_item_opcode k c w =
     bindE (item_find k w) (\<lambda>e. case e of None \<Rightarrow> Inr (Some ''dashboard item not found'', w) | Some a \<Rightarrow>
     bindE (upd_item a (\<lambda>e. Inr (e\<lparr>opcode := c\<rparr>)) w) (\<lambda>w. Inr (None, w)))"

definition esq_dashboard_set_item_string :: "int \<Rightarrow> byte list \<Rightarrow> nat \<Rightarrow> dashboard \<Rightarrow> (string option \<times> dashboard) res" where
  "esq_dashboard_set_item_string k str n w =
     (if n \<ge> DASHBOARD_BUFFER_SIZE then Inr (Some ''string too long'', w)
      else bindE (item_find k w) (\<lambda>e. case e of None \<Rightarrow> Inr (Some ''dashboard item not found'', w) | Some a \<Rightarrow>
      bindE (upd_item a (\<lambda>e. bindE (memcpy_at 0 str (n + 1) (item_buf e)) (\<lambda>b. Inr (e\<lparr>item_buf := b, buf_string_length := n\<rparr>))) w) (\<lambda>w.
      Inr (None, w))))"

definition esq_dashboard_remove_item :: "int \<Rightarrow> dashboard \<Rightarrow> (int \<times> dashboard) res" where
  "esq_dashboard_remove_item k w =
     bindE (item_find k w) (\<lambda>e. case e of None \<Rightarrow> Inr (-1, w) | Some a \<Rightarrow>
     bindE (of_opt (RB_REMOVE a (esq_dashboard_rb w))) (\<lambda>t.
     bindE (item_at a (items w)) (\<lambda>_. Inr (0, w\<lparr>items := (items w)(a := None), esq_dashboard_rb := t\<rparr>))))"

definition esq_dashboard_remove_item2 :: "int \<Rightarrow> dashboard \<Rightarrow> (string option \<times> dashboard) res" where
  "esq_dashboard_remove_item2 k w =
     bindE (esq_dashboard_remove_item k w) (\<lambda>(r, w). Inr (if r \<noteq> 0 then Some ''dashboard item not found'' else None, w))"

definition esq_dashboard_init :: dashboard where
  "esq_dashboard_init = \<lparr>items = Map.empty, esq_dashboard_rb = RB_NULL, esq_dashboard_id_max = 0\<rparr>"

section \<open>Calls\<close>

text \<open>
  The operations as calls with replies; the text of an item is read into a buffer as \<^verbatim>\<open>esq_mkc_get_dashboard_item_string\<close>
  provides it, and the list of identifiers into a cleared buffer of the given size.
\<close>

datatype dash_call =
    DashNew "addr option"
  | DashSetOpcode int int
  | DashGetOpcode int
  | DashSnprintf int int int "byte list"
  | DashStopAll
  | DashRemoveAll
  | DashList nat
  | DashCount
  | DashGetString int
  | DashGetItemOpcode int
  | DashSetItemOpcode int int
  | DashSetString int "byte list" nat
  | DashRemove int
  | DashRemove2 int

datatype dash_reply =
    Code int
  | Opcode int "int option"
  | Errs "string option"
  | ErrsOpcode "string option" "int option"
  | Text "string option" "byte list"
  | Nothing

primrec dash_exec :: "dash_call \<Rightarrow> dashboard \<Rightarrow> (dash_reply \<times> dashboard) res" where
  "dash_exec (DashNew mem) w = bindE (esq_dashboard_new mem w) (\<lambda>(r, w). Inr (Code r, w))"
| "dash_exec (DashSetOpcode k c) w = bindE (esq_dashboard_set_opcode k c w) (\<lambda>(r, w). Inr (Code r, w))"
| "dash_exec (DashGetOpcode k) w = bindE (esq_dashboard_get_opcode k w) (\<lambda>(r, c). Inr (Opcode r c, w))"
| "dash_exec (DashSnprintf k offset r txt) w = bindE (esq_dashboard_snprintf k offset r txt w) (\<lambda>(r, w). Inr (Code r, w))"
| "dash_exec DashStopAll w = bindE (esq_dashboard_notify_stop_to_all_tasks w) (\<lambda>(r, w). Inr (Code r, w))"
| "dash_exec DashRemoveAll w = bindE (esq_dashboard_remove_all_items w) (\<lambda>w. Inr (Nothing, w))"
| "dash_exec (DashList n) w = bindE (esq_dashboard_list_all_items (replicate n 0) w) (\<lambda>(l, b). Inr (Text None (take l b), w))"
| "dash_exec DashCount w = Inr (Code (esq_dashboard_get_item_count w), w)"
| "dash_exec (DashGetString k) w =
     bindE (esq_dashboard_get_item_string k (replicate DASHBOARD_BUFFER_SIZE 0) w) (\<lambda>(s, l, b).
     Inr (Text s (if s = None then take l b else []), w))"
| "dash_exec (DashGetItemOpcode k) w = bindE (esq_dashboard_get_item_opcode k w) (\<lambda>(s, c). Inr (ErrsOpcode s c, w))"
| "dash_exec (DashSetItemOpcode k c) w = bindE (esq_dashboard_set_item_opcode k c w) (\<lambda>(s, w). Inr (Errs s, w))"
| "dash_exec (DashSetString k str n) w = bindE (esq_dashboard_set_item_string k str n w) (\<lambda>(s, w). Inr (Errs s, w))"
| "dash_exec (DashRemove k) w = bindE (esq_dashboard_remove_item k w) (\<lambda>(r, w). Inr (Code r, w))"
| "dash_exec (DashRemove2 k) w = bindE (esq_dashboard_remove_item2 k w) (\<lambda>(s, w). Inr (Errs s, w))"

text \<open>
  \<^verbatim>\<open>esq_dashboard_detach_loop\<close>: the tasks are told to stop and get some time, in which they make the calls
  \<open>others i w\<close> in the state \<open>w\<close>, until no item is left or the loop loses patience; then what is left is removed.
\<close>

function stop_loop :: "(nat \<Rightarrow> dashboard \<Rightarrow> dash_call list) \<Rightarrow> nat \<Rightarrow> dashboard \<Rightarrow> dashboard res" where
  "stop_loop others i w =
     (if i \<ge> DASHBOARD_DETACH_ALERT_CYCLE then Inr w
      else bindE (esq_dashboard_notify_stop_to_all_tasks w) (\<lambda>(r, w).
        if r \<noteq> 0 then bindE (run (map (\<lambda>c w. bindE (dash_exec c w) (\<lambda>(_, w). Inr w)) (others i w)) w) (stop_loop others (Suc i))
        else Inr w))"
  by pat_completeness auto
termination
  by (relation "measure (\<lambda>(others, i, w). DASHBOARD_DETACH_ALERT_CYCLE - i)") auto

declare stop_loop.simps [simp del]

definition esq_dashboard_detach_loop :: "(nat \<Rightarrow> dashboard \<Rightarrow> dash_call list) \<Rightarrow> dashboard \<Rightarrow> dashboard res" where
  "esq_dashboard_detach_loop others w = bindE (stop_loop others 0 w) esq_dashboard_remove_all_items"

definition esq_dashboard_stop :: "(nat \<Rightarrow> dashboard \<Rightarrow> dash_call list) \<Rightarrow> dashboard \<Rightarrow> dashboard res" where
  "esq_dashboard_stop others w = esq_dashboard_detach_loop others w"

end
