(* ===== verification/Esq_DashboardSpec.thy ===== *)
theory Esq_DashboardSpec
  imports Esq_Dashboard
begin

text \<open>
  The dashboard as a finite map from identifiers to items, and the proof that the operations on the tree
  implement it.
\<close>

section \<open>The specification\<close>

definition clamp :: "int \<Rightarrow> int" where
  "clamp i = (if i < 0 then 0 else i)"

text \<open>The first unused identifier from the counter on, in the cycle of the non-negative integers.\<close>

definition steps_to_free :: "(int \<Rightarrow> 'a option) \<Rightarrow> int \<Rightarrow> nat" where
  "steps_to_free S n = (LEAST j. S ((clamp n + int j) mod 2 ^ 31) = None)"

definition free_id :: "(int \<Rightarrow> 'a option) \<Rightarrow> int \<Rightarrow> int" where
  "free_id S n = (clamp n + int (steps_to_free S n)) mod 2 ^ 31"

definition ids_text :: "int list \<Rightarrow> byte list" where
  "ids_text ks = (case ks of [] \<Rightarrow> [] | k # ks \<Rightarrow> dec_print (nat k) @ concat (map (\<lambda>k. 32 # dec_print (nat k)) ks))"

text \<open>As many identifiers as fit into a buffer, with a terminator.\<close>

definition fitting :: "nat \<Rightarrow> int list \<Rightarrow> nat" where
  "fitting n ks = Max {m. m \<le> length ks \<and> (m = 0 \<or> length (ids_text (take m ks)) < n)}"

definition snprintf_item :: "nat \<Rightarrow> int \<Rightarrow> byte list \<Rightarrow> esq_dashboard_item_t \<Rightarrow> esq_dashboard_item_t" where
  "snprintf_item off r txt e =
     (let t = take (DASHBOARD_BUFFER_SIZE - 1 - off) txt @ [0]; b = item_buf e in
      e\<lparr>item_buf := take off b @ t @ drop (off + length t) b,
        buf_string_length := if r \<le> 0 \<or> r \<ge> int DASHBOARD_BUFFER_SIZE then buf_string_length e else nat r\<rparr>)"

type_synonym dash_spec_state = "(int \<Rightarrow> esq_dashboard_item_t option) \<times> int"

primrec dash_spec :: "dash_call \<Rightarrow> dash_spec_state \<Rightarrow> dash_reply \<times> dash_spec_state" where
  "dash_spec (DashNew mem) x = (case x of (S, n) \<Rightarrow>
     if mem = None then (Code (-1), x)
     else let k = free_id S n in (Code k, (S(k \<mapsto> new_item k), wrap32 (k + 1))))"
| "dash_spec (DashSetOpcode k c) x = (case x of (S, n) \<Rightarrow>
     case S k of None \<Rightarrow> (Code ESQ_ERROR_NOTFOUND, x) | Some e \<Rightarrow> (Code ESQ_OK, (S(k \<mapsto> e\<lparr>opcode := c\<rparr>), n)))"
| "dash_spec (DashGetOpcode k) x =
     (case fst x k of None \<Rightarrow> (Opcode ESQ_ERROR_NOTFOUND None, x) | Some e \<Rightarrow> (Opcode ESQ_OK (Some (opcode e)), x))"
| "dash_spec (DashSnprintf k offset r txt) x = (case x of (S, n) \<Rightarrow>
     if offset < 0 \<or> offset \<ge> int DASHBOARD_BUFFER_SIZE then (Code (-1), x)
     else case S k of None \<Rightarrow> (Code (-1), x)
          | Some e \<Rightarrow> (Code r, (S(k \<mapsto> snprintf_item (nat offset) r txt e), n)))"
| "dash_spec DashStopAll x = (case x of (S, n) \<Rightarrow>
     (Code (int (card (dom S))), (\<lambda>k. map_option (\<lambda>e. e\<lparr>opcode := ESQ_DASHBOARD_OP_STOP\<rparr>) (S k), n)))"
| "dash_spec DashRemoveAll x = (Nothing, (Map.empty, snd x))"
| "dash_spec (DashList n) x =
     (let ks = sorted_list_of_set (dom (fst x)) in (Text None (ids_text (take (fitting n ks) ks)), x))"
| "dash_spec DashCount x = (Code (int (card (dom (fst x)))), x)"
| "dash_spec (DashGetString k) x =
     (case fst x k of None \<Rightarrow> (Text (Some ''dashboard item not found'') [], x)
      | Some e \<Rightarrow> (Text None (take (buf_string_length e) (item_buf e)), x))"
| "dash_spec (DashGetItemOpcode k) x =
     (case fst x k of None \<Rightarrow> (ErrsOpcode (Some ''dashboard item not found'') None, x) | Some e \<Rightarrow> (ErrsOpcode None (Some (opcode e)), x))"
| "dash_spec (DashSetItemOpcode k c) x = (case x of (S, n) \<Rightarrow>
     case S k of None \<Rightarrow> (Errs (Some ''dashboard item not found''), x) | Some e \<Rightarrow> (Errs None, (S(k \<mapsto> e\<lparr>opcode := c\<rparr>), n)))"
| "dash_spec (DashSetString k str l) x = (case x of (S, n) \<Rightarrow>
     if l \<ge> DASHBOARD_BUFFER_SIZE then (Errs (Some ''string too long''), x)
     else case S k of None \<Rightarrow> (Errs (Some ''dashboard item not found''), x)
          | Some e \<Rightarrow> (Errs None, (S(k \<mapsto> e\<lparr>item_buf := patched (take (l + 1) str) (item_buf e), buf_string_length := l\<rparr>), n)))"
| "dash_spec (DashRemove k) x = (case x of (S, n) \<Rightarrow> if S k = None then (Code (-1), x) else (Code 0, (S(k := None), n)))"
| "dash_spec (DashRemove2 k) x = (case x of (S, n) \<Rightarrow>
     if S k = None then (Errs (Some ''dashboard item not found''), x) else (Errs None, (S(k := None), n)))"

section \<open>The simulation\<close>

definition item_ok :: "esq_dashboard_item_t \<Rightarrow> bool" where
  "item_ok e \<longleftrightarrow> 0 \<le> item_id e \<and> item_id e < 2 ^ 31 \<and> buf_string_length e < DASHBOARD_BUFFER_SIZE \<and>
     length (item_buf e) = DASHBOARD_BUFFER_SIZE"

definition id_of :: "item_heap \<Rightarrow> addr \<Rightarrow> int" where
  "id_of h a = item_id (the (h a))"

definition stored :: "item_heap \<Rightarrow> addr set" where
  "stored h = {a. \<exists>e. h a = Some e \<and> 0 \<le> item_id e \<and> item_id e < 2 ^ 31}"

definition known_id :: "int \<Rightarrow> bool" where
  "known_id k \<longleftrightarrow> - 1 \<le> k \<and> k < 2 ^ 31"

definition dash_tree :: "dashboard \<Rightarrow> (int \<Rightarrow> addr option) \<Rightarrow> bool" where
  "dash_tree w m \<longleftrightarrow> rb_abs (id_of (items w)) (esq_dashboard_rb w) m \<and> ran m = dom (items w)"

definition dash_sim :: "dashboard \<Rightarrow> dash_spec_state \<Rightarrow> bool" where
  "dash_sim w x \<longleftrightarrow> (\<exists>m. dash_tree w m \<and> fst x = (\<lambda>k. Option.bind (m k) (items w))) \<and>
     (\<forall>a e. items w a = Some e \<longrightarrow> item_ok e) \<and> snd x = esq_dashboard_id_max w \<and> - (2 ^ 31) \<le> snd x \<and> snd x < 2 ^ 31"

interpretation dash_find: rb_query "esq_dashboard_item_compare k h" "id_of h" k "if known_id k then stored h else {}" for k h
proof (rule rb_queryI)
  fix a assume "a \<in> (if known_id k then stored h else {})"
  then obtain e where "h a = Some e" "0 \<le> item_id e" "item_id e < 2 ^ 31" "- 1 \<le> k" "k < 2 ^ 31"
    by (auto simp: stored_def known_id_def split: if_splits)
  then show "\<exists>d. esq_dashboard_item_compare k h a = Inr d \<and> order_of k (id_of h a) d"
    by (auto simp: esq_dashboard_item_compare_def item_at_def id_of_def i32_def order_of_def)
qed

interpretation dash: rb_client "\<lambda>a. esq_dashboard_item_compare (id_of h a) h" "id_of h" "stored h" for h
proof
  fix a b assume "a \<in> stored h" and b: "b \<in> stored h"
  then have "known_id (id_of h a)" by (auto simp: stored_def known_id_def id_of_def)
  then show "\<exists>d. esq_dashboard_item_compare (id_of h a) h b = Inr d \<and> (d < 0 \<longleftrightarrow> id_of h a < id_of h b) \<and> (d > 0 \<longleftrightarrow> id_of h b < id_of h a)"
    using dash_find.cmp_order [of b "id_of h a" h] b by simp
qed

lemma dash_simE:
  assumes "dash_sim w x"
  obtains m where "dash_tree w m" "fst x = (\<lambda>k. Option.bind (m k) (items w))" "\<And>a e. items w a = Some e \<Longrightarrow> item_ok e"
    "snd x = esq_dashboard_id_max w" "- (2 ^ 31) \<le> snd x" "snd x < 2 ^ 31"
  using assms unfolding dash_sim_def by blast

lemma dash_simI:
  "dash_tree w m \<Longrightarrow> S = (\<lambda>k. Option.bind (m k) (items w)) \<Longrightarrow> (\<And>a e. items w a = Some e \<Longrightarrow> item_ok e) \<Longrightarrow>
   n = esq_dashboard_id_max w \<Longrightarrow> - (2 ^ 31) \<le> n \<Longrightarrow> n < 2 ^ 31 \<Longrightarrow> dash_sim w (S, n)"
  unfolding dash_sim_def by auto

lemma tree_item:
  assumes "dash_tree w m" "m k = Some a"
  shows "\<exists>e. items w a = Some e \<and> item_id e = k"
proof -
  have "a \<in> ran m" using assms(2) by (auto simp: ran_def)
  then obtain e where "items w a = Some e" using assms(1) by (auto simp: dash_tree_def)
  moreover have "id_of (items w) a = k" using assms by (simp add: dash_tree_def rb_abs_def)
  ultimately show ?thesis by (simp add: id_of_def)
qed

lemma tree_addr:
  assumes "dash_tree w m" "items w a = Some e"
  shows "m (item_id e) = Some a"
proof -
  have "a \<in> ran m" using assms by (auto simp: dash_tree_def)
  then obtain k where "m k = Some a" by (auto simp: ran_def)
  then show ?thesis using tree_item [OF assms(1)] assms(2) by fastforce
qed

lemma tree_stored:
  assumes "dash_tree w m" "\<And>a e. items w a = Some e \<Longrightarrow> item_ok e"
  shows "ran m \<subseteq> stored (items w)"
  using assms by (fastforce simp: dash_tree_def stored_def item_ok_def dom_def)

lemma find_tree:
  assumes "dash_tree w m" "\<And>a e. items w a = Some e \<Longrightarrow> item_ok e" "known_id k"
  shows "item_find k w = Inr (m k)"
  using dash_find.find_abs [of "items w" "esq_dashboard_rb w" m k] tree_stored [OF assms(1,2)] assms
  by (simp add: item_find_def dash_tree_def)

lemma sim_find:
  assumes "dash_sim w (S, n)" "known_id k"
  obtains (none) "item_find k w = Inr None" "S k = None"
    | (some) a e where "item_find k w = Inr (Some a)" "items w a = Some e" "S k = Some e" "item_id e = k" "item_ok e"
proof -
  obtain m where m: "dash_tree w m" "S = (\<lambda>k. Option.bind (m k) (items w))" "\<And>a e. items w a = Some e \<Longrightarrow> item_ok e"
    using dash_simE [OF assms(1)] by auto
  note f = find_tree [OF m(1,3) assms(2)]
  show thesis
  proof (cases "m k")
    case None
    then show thesis using f none m(2) by simp
  next
    case (Some a)
    then obtain e where "items w a = Some e" "item_id e = k" using tree_item [OF m(1)] by blast
    then show thesis using f Some some m(2,3) by simp
  qed
qed

section \<open>Changes of the tree\<close>

lemma upd_sim:
  assumes "dash_sim w (S, n)" "items w a = Some e" "item_id e' = item_id e" "item_ok e'"
  shows "dash_sim (w\<lparr>items := (items w)(a \<mapsto> e')\<rparr>) (S(item_id e \<mapsto> e'), n)"
proof -
  obtain m where m: "dash_tree w m" "S = (\<lambda>k. Option.bind (m k) (items w))" "\<And>a e. items w a = Some e \<Longrightarrow> item_ok e"
      "n = esq_dashboard_id_max w" "- (2 ^ 31) \<le> n" "n < 2 ^ 31"
    using dash_simE [OF assms(1)] by auto
  have "id_of ((items w)(a \<mapsto> e')) b = id_of (items w) b" for b using assms(2,3) by (simp add: id_of_def)
  then have "dash_tree (w\<lparr>items := (items w)(a \<mapsto> e')\<rparr>) m"
    using m(1) assms(2) rb_abs_key [of m "id_of ((items w)(a \<mapsto> e'))" "id_of (items w)"] by (auto simp: dash_tree_def)
  moreover have "S(item_id e \<mapsto> e') = (\<lambda>k. Option.bind (m k) ((items w)(a \<mapsto> e')))"
  proof
    fix k
    show "(S(item_id e \<mapsto> e')) k = Option.bind (m k) ((items w)(a \<mapsto> e'))"
      using m(2) tree_addr [OF m(1) assms(2)] tree_item [OF m(1), of k] assms(2) by (cases "m k") auto
  qed
  ultimately show ?thesis using m assms(4) by (intro dash_simI [of _ m]) (auto split: if_splits)
qed

lemma upd_item_sim:
  assumes "dash_sim w (S, n)" "items w a = Some e" "f e = Inr e'" "item_id e' = item_id e" "item_ok e'"
  shows "\<exists>w'. upd_item a f w = Inr w' \<and> dash_sim w' (S(item_id e \<mapsto> e'), n)"
  using assms upd_sim [OF assms(1,2,4,5)] by (simp add: upd_item_def item_at_def)

lemma del_sim:
  assumes "dash_sim w (S, n)" "items w a = Some e"
  shows "\<exists>t. RB_REMOVE a (esq_dashboard_rb w) = Some t \<and>
    dash_sim (w\<lparr>items := (items w)(a := None), esq_dashboard_rb := t\<rparr>) (S(item_id e := None), n) \<and>
    (\<forall>b. b \<in> set (inorder t) \<longleftrightarrow> b \<in> set (inorder (esq_dashboard_rb w)) \<and> b \<noteq> a)"
proof -
  obtain m where m: "dash_tree w m" "S = (\<lambda>k. Option.bind (m k) (items w))" "\<And>a e. items w a = Some e \<Longrightarrow> item_ok e"
      "n = esq_dashboard_id_max w" "- (2 ^ 31) \<le> n" "n < 2 ^ 31"
    using dash_simE [OF assms(1)] by auto
  note ma = tree_addr [OF m(1) assms(2)]
  have "rb_abs (id_of (items w)) (esq_dashboard_rb w) m" using m(1) by (simp add: dash_tree_def)
  from remove_abs [OF this ma] obtain t where t: "RB_REMOVE a (esq_dashboard_rb w) = Some t"
      "rb_abs (id_of (items w)) t (m(item_id e := None))" by blast
  have one: "m k = Some a \<Longrightarrow> k = item_id e" for k using tree_item [OF m(1), of k a] assms(2) by auto
  have "ran (m(item_id e := None)) = {b. \<exists>k. k \<noteq> item_id e \<and> m k = Some b}" by (auto simp: ran_def)
  also have "\<dots> = {b. \<exists>k. m k = Some b \<and> b \<noteq> a}" using one ma by (intro Collect_cong) (metis option.inject)
  also have "\<dots> = ran m - {a}" unfolding ran_def by blast
  finally have ran: "ran (m(item_id e := None)) = ran m - {a}" .
  have "rb_abs (id_of ((items w)(a := None))) t (m(item_id e := None))"
  proof (rule rb_abs_key [OF _ t(2)])
    fix b assume "b \<in> ran (m(item_id e := None))"
    then show "id_of ((items w)(a := None)) b = id_of (items w) b" using ran by (simp add: id_of_def)
  qed
  then have "dash_tree (w\<lparr>items := (items w)(a := None), esq_dashboard_rb := t\<rparr>) (m(item_id e := None))"
    using m(1) ran unfolding dash_tree_def by simp
  moreover have "S(item_id e := None) = (\<lambda>k. Option.bind ((m(item_id e := None)) k) ((items w)(a := None)))"
  proof
    fix k
    show "(S(item_id e := None)) k = Option.bind ((m(item_id e := None)) k) ((items w)(a := None))"
    proof (cases "k = item_id e")
      case False
      then have "m k \<noteq> Some a" using one by blast
      then show ?thesis using False by (cases "m k") (simp_all add: m(2))
    qed simp
  qed
  ultimately have "dash_sim (w\<lparr>items := (items w)(a := None), esq_dashboard_rb := t\<rparr>) (S(item_id e := None), n)"
    using m by (intro dash_simI [of _ "m(item_id e := None)"]) (auto split: if_splits)
  moreover have "set (inorder t) = ran m - {a}" using rb_abs_ran [OF t(2)] ran by simp
  moreover have "set (inorder (esq_dashboard_rb w)) = ran m" using rb_abs_ran m(1) unfolding dash_tree_def by blast
  ultimately show ?thesis using t(1) by (intro exI [of _ t]) simp
qed

lemma sim_dom: "dash_sim w (S, n) \<Longrightarrow> dom S = id_of (items w) ` dom (items w) \<and> inj_on (id_of (items w)) (dom (items w))"
proof -
  assume "dash_sim w (S, n)"
  then obtain m where m: "dash_tree w m" "S = (\<lambda>k. Option.bind (m k) (items w))" by (auto elim: dash_simE)
  have "k \<in> dom S \<longleftrightarrow> k \<in> id_of (items w) ` dom (items w)" for k
  proof
    assume "k \<in> dom S"
    then obtain a e where "m k = Some a" "items w a = Some e" using m(2) by (cases "m k") auto
    moreover have "id_of (items w) a = k" using tree_item [OF m(1)] calculation by (fastforce simp: id_of_def)
    ultimately show "k \<in> id_of (items w) ` dom (items w)" by blast
  next
    assume "k \<in> id_of (items w) ` dom (items w)"
    then obtain a e where "items w a = Some e" "k = item_id e" by (auto simp: id_of_def)
    then show "k \<in> dom S" using tree_addr [OF m(1)] m(2) by auto
  qed
  moreover have "inj_on (id_of (items w)) (dom (items w))"
  proof (rule inj_onI)
    fix a b assume "a \<in> dom (items w)" "b \<in> dom (items w)" "id_of (items w) a = id_of (items w) b"
    then obtain d e where "items w a = Some d" "items w b = Some e" "item_id d = item_id e" by (auto simp: id_of_def)
    then show "a = b" using tree_addr [OF m(1), of a d] tree_addr [OF m(1), of b e] by simp
  qed
  ultimately show ?thesis by blast
qed

lemma sim_rb:
  assumes "dash_sim w (S, n)"
  shows "RB_FOREACH (esq_dashboard_rb w) = inorder (esq_dashboard_rb w)" "set (inorder (esq_dashboard_rb w)) = dom (items w)"
    "distinct (inorder (esq_dashboard_rb w))" "map (id_of (items w)) (inorder (esq_dashboard_rb w)) = sorted_list_of_set (dom S)"
    "length (inorder (esq_dashboard_rb w)) = card (dom S)" "finite (dom S)"
proof -
  obtain m where m: "dash_tree w m" using assms by (auto elim: dash_simE)
  then have r: "rb_abs (id_of (items w)) (esq_dashboard_rb w) m" "ran m = dom (items w)" by (auto simp: dash_tree_def)
  show "RB_FOREACH (esq_dashboard_rb w) = inorder (esq_dashboard_rb w)" using rb_abs_foreach [OF r(1)] .
  show s: "set (inorder (esq_dashboard_rb w)) = dom (items w)" using rb_abs_ran [OF r(1)] r(2) by simp
  have srt: "sorted_wrt (<) (map (id_of (items w)) (inorder (esq_dashboard_rb w)))" using r(1) by (simp add: rb_abs_def)
  then show d: "distinct (inorder (esq_dashboard_rb w))" using sorted_distinct by blast
  have dom: "dom S = set (map (id_of (items w)) (inorder (esq_dashboard_rb w)))" using sim_dom [OF assms] s by simp
  then show l: "map (id_of (items w)) (inorder (esq_dashboard_rb w)) = sorted_list_of_set (dom S)"
    using srt by (metis sorted_list_of_set.idem_if_sorted_distinct strict_sorted_iff)
  show "finite (dom S)" using dom by simp
  show "length (inorder (esq_dashboard_rb w)) = card (dom S)" using l by (metis length_map length_sorted_list_of_set)
qed

section \<open>The search for an identifier\<close>

lemma wrap_next: "0 \<le> x \<Longrightarrow> x < 2 ^ 31 \<Longrightarrow> clamp (wrap32 (x + 1)) = (x + 1) mod 2 ^ 31"
  by (cases "x + 1 = 2 ^ 31") (auto simp: clamp_def wrap32_def)

lemma clamp_range: "n < 2 ^ 31 \<Longrightarrow> 0 \<le> clamp n \<and> clamp n < 2 ^ 31"
  by (simp add: clamp_def)

lemma steps_exist:
  fixes S :: "int \<Rightarrow> 'a option"
  assumes "finite (dom S)" "card (dom S) < 2 ^ 31" "0 \<le> i" "i < 2 ^ 31"
  shows "\<exists>j. S ((i + int j) mod 2 ^ 31) = None \<and> j \<le> card (dom S)"
proof (rule ccontr)
  let ?f = "\<lambda>j. (i + int j) mod 2 ^ 31"
  assume "\<not> ?thesis"
  then have sub: "?f ` {..card (dom S)} \<subseteq> dom S" by auto
  have "inj_on ?f {..card (dom S)}"
  proof (rule inj_onI)
    fix j l assume jl: "j \<in> {..card (dom S)}" "l \<in> {..card (dom S)}" "?f j = ?f l"
    then have "int j mod 2 ^ 31 = int l mod 2 ^ 31" by (simp add: mod_eq_dvd_iff)
    moreover have "int j < 2 ^ 31" "int l < 2 ^ 31" using jl(1,2) assms(2) by auto
    ultimately show "j = l" by simp
  qed
  then have "Suc (card (dom S)) \<le> card (dom S)" using card_inj_on_le [OF _ sub assms(1)] by simp
  then show False by simp
qed

lemma steps_to_free:
  assumes "finite (dom S)" "card (dom S) < 2 ^ 31" "n < 2 ^ 31"
  shows "S (free_id S n) = None" "steps_to_free S n \<le> card (dom S)" "\<And>j. j < steps_to_free S n \<Longrightarrow> S ((clamp n + int j) mod 2 ^ 31) \<noteq> None"
proof -
  obtain j where j: "S ((clamp n + int j) mod 2 ^ 31) = None" "j \<le> card (dom S)"
    using steps_exist [OF assms(1,2), of "clamp n"] clamp_range [OF assms(3)] by blast
  show "S (free_id S n) = None" unfolding free_id_def steps_to_free_def by (rule LeastI) (rule j(1))
  show "steps_to_free S n \<le> card (dom S)" using Least_le [of "\<lambda>j. S ((clamp n + int j) mod 2 ^ 31) = None", OF j(1)] j(2)
    by (simp add: steps_to_free_def)
  show "S ((clamp n + int l) mod 2 ^ 31) \<noteq> None" if "l < steps_to_free S n" for l
    using not_less_Least [of l "\<lambda>j. S ((clamp n + int j) mod 2 ^ 31) = None"] that by (simp add: steps_to_free_def)
qed

lemma new_loop_free:
  assumes "dash_sim w (S, n)" "\<And>j. j < J \<Longrightarrow> S ((i0 + int j) mod 2 ^ 31) \<noteq> None" "S ((i0 + int J) mod 2 ^ 31) = None"
    and "clamp i = (i0 + int j) mod 2 ^ 31" "j + d = J" "d < fuel"
  shows "new_loop fuel i w = Inr ((i0 + int J) mod 2 ^ 31)"
  using assms(4-6)
proof (induction d arbitrary: fuel i j)
  case (0 fuel i j)
  then obtain fuel' where fuel: "fuel = Suc fuel'" by (cases fuel) auto
  have "known_id (clamp i)" using 0(1) by (auto simp: known_id_def)
  then show ?case
  proof (cases rule: sim_find [OF assms(1), consumes 1, case_names none some])
    case none
    then show ?thesis using 0 fuel by (simp add: clamp_def Let_def split: if_splits)
  next
    case some
    then show ?thesis using 0 assms(3) by simp
  qed
next
  case (Suc d fuel i j)
  then obtain fuel' where fuel: "fuel = Suc fuel'" by (cases fuel) auto
  have k: "known_id (clamp i)" "0 \<le> clamp i" "clamp i < 2 ^ 31" using Suc(2) by (auto simp: known_id_def)
  from k(1) show ?case
  proof (cases rule: sim_find [OF assms(1), consumes 1, case_names none some])
    case none
    then show ?thesis using assms(2) [of j] Suc(2,3) by simp
  next
    case some
    have "clamp (wrap32 (clamp i + 1)) = (i0 + int (Suc j)) mod 2 ^ 31"
      using wrap_next [OF k(2,3)] Suc(2) by (simp add: mod_simps algebra_simps)
    then have "new_loop fuel' (wrap32 (clamp i + 1)) w = Inr ((i0 + int J) mod 2 ^ 31)"
      using Suc fuel by (intro Suc.IH [of _ "Suc j"]) auto
    then show ?thesis using some(1) fuel by (simp add: clamp_def Let_def split: if_splits)
  qed
qed

lemma new_sim:
  assumes "dash_sim w (S, n)" "items w p = None" "card (dom S) < 2 ^ 31"
  shows "\<exists>w'. esq_dashboard_new (Some p) w = Inr (free_id S n, w') \<and>
    dash_sim w' (S(free_id S n \<mapsto> new_item (free_id S n)), wrap32 (free_id S n + 1))"
proof -
  obtain m where m: "dash_tree w m" "S = (\<lambda>k. Option.bind (m k) (items w))" "\<And>a e. items w a = Some e \<Longrightarrow> item_ok e"
      "n = esq_dashboard_id_max w" "- (2 ^ 31) \<le> n" "n < 2 ^ 31"
    using dash_simE [OF assms(1)] by auto
  let ?k = "free_id S n" and ?h = "(items w)(p \<mapsto> new_item (free_id S n))"
  note fin = sim_rb(6) [OF assms(1)]
  note st = steps_to_free [OF fin assms(3) m(6)]
  have "clamp n = (clamp n + int 0) mod 2 ^ 31" using clamp_range [OF m(6)] by simp
  then have "new_loop fuel n w = Inr ?k" if "card (dom S) < fuel" for fuel
    using new_loop_free [OF assms(1) st(3) st(1) [unfolded free_id_def], of n 0 "steps_to_free S n" fuel] st(2) that
    by (simp only: free_id_def)
  then have loop: "new_loop (rb_size (esq_dashboard_rb w) + 1) (esq_dashboard_id_max w) w = Inr ?k"
    using m(4) sim_rb(5) [OF assms(1)] by (simp only: rb_size_inorder)
  have k: "known_id ?k" "item_ok (new_item ?k)" by (auto simp: known_id_def free_id_def item_ok_def new_item_def DASHBOARD_BUFFER_SIZE_def)
  have idp: "id_of ?h p = ?k" by (simp add: id_of_def new_item_def)
  have other: "a \<in> ran m \<Longrightarrow> a \<noteq> p" for a using m(1) assms(2) by (auto simp: dash_tree_def)
  have abs: "rb_abs (id_of ?h) (esq_dashboard_rb w) m"
  proof (rule rb_abs_key)
    show "rb_abs (id_of (items w)) (esq_dashboard_rb w) m" using m(1) by (simp add: dash_tree_def)
    show "id_of ?h a = id_of (items w) a" if "a \<in> ran m" for a using other [OF that] by (simp add: id_of_def)
  qed
  have "ran m \<subseteq> stored ?h" using tree_stored [OF m(1,3)] other by (auto simp: stored_def subset_iff)
  then obtain t where t: "RB_INSERT (esq_dashboard_item_compare ?k ?h) p (esq_dashboard_rb w) = Inr (m ?k, t)"
      "rb_abs (id_of ?h) t (map_op (id_of ?h) (Insert p) m)"
    using dash_find.insert_abs [OF abs, of ?k p] k(1) idp by auto
  have none: "m ?k = None" using st(1) tree_item [OF m(1), of ?k] by (cases "m ?k") (auto simp: fun_cong [OF m(2)])
  then have t': "rb_abs (id_of ?h) t (m(?k \<mapsto> p))" "ran (m(?k \<mapsto> p)) = insert p (ran m)" using t(2) idp by simp_all
  let ?w = "w\<lparr>items := ?h, esq_dashboard_rb := t, esq_dashboard_id_max := wrap32 (?k + 1)\<rparr>"
  have "dash_tree ?w (m(?k \<mapsto> p))" using t' m(1) by (auto simp: dash_tree_def)
  moreover have "S(?k \<mapsto> new_item ?k) = (\<lambda>k. Option.bind ((m(?k \<mapsto> p)) k) ?h)"
  proof
    fix k
    show "(S(?k \<mapsto> new_item ?k)) k = Option.bind ((m(?k \<mapsto> p)) k) ?h"
      using m(2) other [of "the (m k)"] by (cases "m k") (auto simp: ran_def)
  qed
  ultimately have "dash_sim ?w (S(?k \<mapsto> new_item ?k), wrap32 (?k + 1))"
    using m(3) k(2) wrap32_range by (intro dash_simI [of _ "m(?k \<mapsto> p)"]) (auto split: if_splits)
  moreover have "esq_dashboard_new (Some p) w = Inr (?k, ?w)" using loop t(1) by (simp add: esq_dashboard_new_def Let_def)
  ultimately show ?thesis by blast
qed

section \<open>Operations on all items\<close>

lemma stop_items_all:
  "distinct ps \<Longrightarrow> set ps \<subseteq> dom h \<Longrightarrow>
   stop_items ps h = Inr (\<lambda>a. if a \<in> set ps then map_option (\<lambda>e. e\<lparr>opcode := ESQ_DASHBOARD_OP_STOP\<rparr>) (h a) else h a)"
proof (induction ps arbitrary: h)
  case (Cons p ps)
  then obtain e where e: "h p = Some e" by auto
  have "stop_items ps (h(p \<mapsto> e\<lparr>opcode := ESQ_DASHBOARD_OP_STOP\<rparr>)) =
      Inr (\<lambda>a. if a \<in> set ps then map_option (\<lambda>e. e\<lparr>opcode := ESQ_DASHBOARD_OP_STOP\<rparr>) ((h(p \<mapsto> e\<lparr>opcode := ESQ_DASHBOARD_OP_STOP\<rparr>)) a)
               else (h(p \<mapsto> e\<lparr>opcode := ESQ_DASHBOARD_OP_STOP\<rparr>)) a)"
    using Cons.prems by (intro Cons.IH) auto
  also have "\<dots> = Inr (\<lambda>a. if a \<in> set (p # ps) then map_option (\<lambda>e. e\<lparr>opcode := ESQ_DASHBOARD_OP_STOP\<rparr>) (h a) else h a)"
    using Cons.prems e by (auto simp: fun_eq_iff)
  finally show ?case using e by (simp add: item_at_def)
qed simp

lemma stop_sim:
  assumes "dash_sim w (S, n)"
  shows "\<exists>w'. esq_dashboard_notify_stop_to_all_tasks w = Inr (int (card (dom S)), w') \<and>
    dash_sim w' (\<lambda>k. map_option (\<lambda>e. e\<lparr>opcode := ESQ_DASHBOARD_OP_STOP\<rparr>) (S k), n)"
proof -
  obtain m where m: "dash_tree w m" "S = (\<lambda>k. Option.bind (m k) (items w))" "\<And>a e. items w a = Some e \<Longrightarrow> item_ok e"
      "n = esq_dashboard_id_max w" "- (2 ^ 31) \<le> n" "n < 2 ^ 31"
    using dash_simE [OF assms(1)] by auto
  note rb = sim_rb [OF assms]
  let ?h = "\<lambda>a. map_option (\<lambda>e. e\<lparr>opcode := ESQ_DASHBOARD_OP_STOP\<rparr>) (items w a)"
  have "(if a \<in> dom (items w) then ?h a else items w a) = ?h a" for a by (cases "items w a") auto
  then have "stop_items (inorder (esq_dashboard_rb w)) (items w) = Inr ?h"
    using stop_items_all [OF rb(3), of "items w"] rb(2) by simp
  then have call: "esq_dashboard_notify_stop_to_all_tasks w = Inr (int (card (dom S)), w\<lparr>items := ?h\<rparr>)"
    using rb(1,5) by (simp add: esq_dashboard_notify_stop_to_all_tasks_def)
  have "id_of ?h a = id_of (items w) a" if "a \<in> ran m" for a
  proof -
    have "a \<in> dom (items w)" using m(1) that by (simp add: dash_tree_def)
    then show ?thesis by (auto simp: id_of_def)
  qed
  then have "dash_tree (w\<lparr>items := ?h\<rparr>) m"
    using m(1) rb_abs_key [of m "id_of ?h" "id_of (items w)"] by (auto simp: dash_tree_def)
  moreover have "(\<lambda>k. map_option (\<lambda>e. e\<lparr>opcode := ESQ_DASHBOARD_OP_STOP\<rparr>) (S k)) = (\<lambda>k. Option.bind (m k) ?h)"
  proof
    fix k
    show "map_option (\<lambda>e. e\<lparr>opcode := ESQ_DASHBOARD_OP_STOP\<rparr>) (S k) = Option.bind (m k) ?h"
      by (cases "m k") (simp_all add: m(2))
  qed
  ultimately have "dash_sim (w\<lparr>items := ?h\<rparr>) (\<lambda>k. map_option (\<lambda>e. e\<lparr>opcode := ESQ_DASHBOARD_OP_STOP\<rparr>) (S k), n)"
    using m(3-6) by (intro dash_simI [of _ m]) (auto simp: item_ok_def)
  with call show ?thesis by blast
qed

lemma remove_all_loop_sim:
  "dash_sim w (S, n) \<Longrightarrow> card (dom S) < fuel \<Longrightarrow> \<exists>w'. remove_all_loop fuel w = Inr w' \<and> dash_sim w' (Map.empty, n)"
proof (induction fuel arbitrary: w S)
  case (Suc fuel)
  note rb = sim_rb [OF Suc.prems(1)]
  show ?case
  proof (cases "inorder (esq_dashboard_rb w)")
    case Nil
    then have "S = Map.empty" using rb(5,6) by simp
    then show ?thesis using Suc.prems(1) Nil by (simp add: min_front)
  next
    case (Cons p ps)
    then obtain e where e: "items w p = Some e" using rb(2) by (metis domD list.set_intros(1))
    obtain t where t: "RB_REMOVE p (esq_dashboard_rb w) = Some t"
        "dash_sim (w\<lparr>items := (items w)(p := None), esq_dashboard_rb := t\<rparr>) (S(item_id e := None), n)"
      using del_sim [OF Suc.prems(1) e] by blast
    have "item_id e \<in> dom S" using sim_dom [OF Suc.prems(1)] e image_eqI [of "item_id e" "id_of (items w)" p] by (simp add: id_of_def domI)
    then have "card (dom (S(item_id e := None))) < fuel" using rb(6) Suc.prems(2) card_gt_0_iff [of "dom S"] by auto
    then have "\<exists>w'. remove_all_loop fuel (w\<lparr>items := (items w)(p := None), esq_dashboard_rb := t\<rparr>) = Inr w' \<and> dash_sim w' (Map.empty, n)"
      by (rule Suc.IH [OF t(2)])
    then show ?thesis using t(1) Cons e by (simp add: min_front item_at_def)
  qed
qed simp

lemma remove_all_sim: "dash_sim w (S, n) \<Longrightarrow> \<exists>w'. esq_dashboard_remove_all_items w = Inr w' \<and> dash_sim w' (Map.empty, n)"
  using remove_all_loop_sim [of w S n "rb_size (esq_dashboard_rb w) + 1"] sim_rb(5) [of w S n]
  by (simp only: esq_dashboard_remove_all_items_def rb_size_inorder)

section \<open>The list of identifiers\<close>

lemma ids_text_snoc: "ids_text (ks @ [k]) = ids_text ks @ (if ks = [] then [] else [32]) @ dec_print (nat k)"
  by (simp add: ids_text_def split: list.splits)

lemma dec_print_nonempty: "dec_print n \<noteq> []"
  using dec_print_dec by blast

lemma ids_text_empty: "ids_text ks = [] \<longleftrightarrow> ks = []"
  by (cases ks rule: rev_cases) (auto simp: ids_text_snoc dec_print_nonempty, simp add: ids_text_def)

lemma ids_text_mono: "length (ids_text ks) \<le> length (ids_text (ks @ ls))"
proof (induction ls rule: rev_induct)
  case (snoc l ls)
  then show ?case using ids_text_snoc [of "ks @ ls" l] by simp
qed simp

lemma fitting_unique:
  assumes "m \<le> length ks" "m = 0 \<or> length (ids_text (take m ks)) < n" "m < length ks \<Longrightarrow> length (ids_text (take (Suc m) ks)) \<ge> n"
  shows "fitting n ks = m"
  unfolding fitting_def
proof (rule Max_eqI)
  fix l assume l: "l \<in> {m. m \<le> length ks \<and> (m = 0 \<or> length (ids_text (take m ks)) < n)}"
  show "l \<le> m"
  proof (rule ccontr)
    assume "\<not> l \<le> m"
    then have "Suc m \<le> l" "m < length ks" using l by auto
    then have "length (ids_text (take (Suc m) ks)) \<le> length (ids_text (take l ks))"
      using ids_text_mono [of "take (Suc m) ks" "take (l - Suc m) (drop (Suc m) ks)"] by (simp flip: take_add)
    then show False using assms(3) \<open>m < length ks\<close> \<open>Suc m \<le> l\<close> l by auto
  qed
qed (use assms(1,2) in auto)

lemma list_loop_fits:
  assumes "\<And>p. p \<in> set ps \<Longrightarrow> \<exists>e. h p = Some e \<and> 0 \<le> item_id e"
    and "ks = xs @ map (id_of h) ps" "length (ids_text xs) \<le> length buf" "take (length (ids_text xs)) buf = ids_text xs"
    and "xs = [] \<or> length (ids_text xs) < length buf"
  shows "\<exists>b. list_loop ps h (length (ids_text xs)) buf = Inr (length (ids_text (take (fitting (length buf) ks) ks)), b) \<and>
    take (length (ids_text (take (fitting (length buf) ks) ks))) b = ids_text (take (fitting (length buf) ks) ks)"
  using assms
proof (induction ps arbitrary: xs buf)
  case Nil
  then have "fitting (length buf) ks = length ks" by (intro fitting_unique) auto
  then show ?case using Nil by simp
next
  case (Cons p ps)
  obtain e where e: "h p = Some e" "0 \<le> item_id e" "id_of h p = item_id e" using Cons.prems(1) [of p] by (auto simp: id_of_def)
  define tx where "tx = (if xs = [] then [] else [32 :: byte]) @ dec_print (nat (item_id e))"
  let ?o = "length (ids_text xs)" and ?ys = "xs @ [item_id e]"
  have ks: "ks = ?ys @ map (id_of h) ps" using Cons.prems(2) e(3) by simp
  have ys: "ids_text ?ys = ids_text xs @ tx" by (simp add: ids_text_snoc tx_def)
  have tx_eq: "id_text ?o (item_id e) = tx"
    using e(2) by (auto simp: id_text_def tx_def ids_text_empty bytes_simps)
  let ?n = "length buf - ?o"
  define b where "b = take ?o buf @ (take (?n - 1) tx @ [0]) @ drop (?o + length (take (?n - 1) tx @ [0])) buf"
  show ?case
  proof (cases "length tx < ?n")
    case True
    then have sn: "snprintf_at ?o ?n tx buf = Inr b" and lb: "length b = length buf" and tb: "take (length (ids_text ?ys)) b = ids_text ?ys"
      using Cons.prems(4) by (auto simp: snprintf_at_def put_at_def b_def ys)
    have "\<exists>c. list_loop ps h (length (ids_text ?ys)) b = Inr (length (ids_text (take (fitting (length b) ks) ks)), c) \<and>
        take (length (ids_text (take (fitting (length b) ks) ks))) c = ids_text (take (fitting (length b) ks) ks)"
      using Cons.prems(1) True ys lb by (intro Cons.IH [OF _ ks _ tb]) auto
    then show ?thesis using sn True e(1) lb ys by (auto simp: item_at_def tx_eq Let_def)
  next
    case False
    then have "length buf \<le> length (ids_text ?ys)" using ys by simp
    then have "fitting (length buf) ks = length xs"
      using Cons.prems(3,5) ks by (intro fitting_unique) auto
    then have take: "take (fitting (length buf) ks) ks = xs" using ks by simp
    have "\<exists>c. snprintf_at ?o ?n tx buf = Inr c \<and> take ?o c = take ?o buf \<and> length c = length buf"
      using False Cons.prems(3) by (cases "?n = 0") (auto simp: snprintf_at_def put_at_def)
    then show ?thesis using False e(1) take Cons.prems(4) by (auto simp: item_at_def tx_eq Let_def)
  qed
qed

section \<open>Calls\<close>

text \<open>
  What the callers keep to: identifiers are those of items or the error code -1, \<^verbatim>\<open>malloc\<close> gives unused memory, there are fewer
  items than identifiers, and a string has a byte after its length.
\<close>

primrec dash_call_ok :: "dash_call \<Rightarrow> dashboard \<Rightarrow> bool" where
  "dash_call_ok (DashNew mem) w \<longleftrightarrow> (\<forall>p. mem = Some p \<longrightarrow> items w p = None \<and> rb_size (esq_dashboard_rb w) < 2 ^ 31)"
| "dash_call_ok (DashSetOpcode k c) w \<longleftrightarrow> known_id k"
| "dash_call_ok (DashGetOpcode k) w \<longleftrightarrow> known_id k"
| "dash_call_ok (DashSnprintf k offset r t) w \<longleftrightarrow> known_id k \<and> (r < 0 \<or> r = int (length t))"
| "dash_call_ok DashStopAll w \<longleftrightarrow> True"
| "dash_call_ok DashRemoveAll w \<longleftrightarrow> True"
| "dash_call_ok (DashList n) w \<longleftrightarrow> True"
| "dash_call_ok DashCount w \<longleftrightarrow> True"
| "dash_call_ok (DashGetString k) w \<longleftrightarrow> known_id k"
| "dash_call_ok (DashGetItemOpcode k) w \<longleftrightarrow> known_id k"
| "dash_call_ok (DashSetItemOpcode k c) w \<longleftrightarrow> known_id k"
| "dash_call_ok (DashSetString k str n) w \<longleftrightarrow> known_id k \<and> n < length str"
| "dash_call_ok (DashRemove k) w \<longleftrightarrow> known_id k"
| "dash_call_ok (DashRemove2 k) w \<longleftrightarrow> known_id k"

definition refined :: "(dash_reply \<times> dashboard) res \<Rightarrow> dash_reply \<times> dash_spec_state \<Rightarrow> bool" where
  "refined y z \<longleftrightarrow> (\<exists>w'. y = Inr (fst z, w') \<and> dash_sim w' (snd z))"

lemmas dash_defs = esq_dashboard_set_opcode_def esq_dashboard_get_opcode_def esq_dashboard_get_item_opcode_def
  esq_dashboard_set_item_opcode_def esq_dashboard_remove_item_def esq_dashboard_remove_item2_def

lemma opcode_refined:
  assumes "dash_sim w (S, n)" "known_id k"
  shows "refined (dash_exec (DashSetOpcode k c) w) (dash_spec (DashSetOpcode k c) (S, n))"
    "refined (dash_exec (DashSetItemOpcode k c) w) (dash_spec (DashSetItemOpcode k c) (S, n))"
    "refined (dash_exec (DashGetOpcode k) w) (dash_spec (DashGetOpcode k) (S, n))"
    "refined (dash_exec (DashGetItemOpcode k) w) (dash_spec (DashGetItemOpcode k) (S, n))"
proof -
  have upd: "\<exists>w'. upd_item a (\<lambda>e. Inr (e\<lparr>opcode := c\<rparr>)) w = Inr w' \<and> dash_sim w' (S(k \<mapsto> e\<lparr>opcode := c\<rparr>), n)"
    if "items w a = Some e" "item_id e = k" "item_ok e" for a e
    using upd_item_sim [OF assms(1) that(1), of "\<lambda>e. Inr (e\<lparr>opcode := c\<rparr>)"] that by (simp add: item_ok_def)
  from assms show "refined (dash_exec (DashSetOpcode k c) w) (dash_spec (DashSetOpcode k c) (S, n))"
  proof (cases rule: sim_find)
    case (some a e)
    then show ?thesis using upd [OF some(2,4,5)] by (auto simp: refined_def dash_defs)
  qed (use assms in \<open>simp add: refined_def dash_defs\<close>)
  from assms show "refined (dash_exec (DashSetItemOpcode k c) w) (dash_spec (DashSetItemOpcode k c) (S, n))"
  proof (cases rule: sim_find)
    case (some a e)
    then show ?thesis using upd [OF some(2,4,5)] by (auto simp: refined_def dash_defs)
  qed (use assms in \<open>simp add: refined_def dash_defs\<close>)
  from assms show "refined (dash_exec (DashGetOpcode k) w) (dash_spec (DashGetOpcode k) (S, n))"
    by (cases rule: sim_find) (use assms(1) in \<open>simp_all add: refined_def dash_defs item_at_def\<close>)
  from assms show "refined (dash_exec (DashGetItemOpcode k) w) (dash_spec (DashGetItemOpcode k) (S, n))"
    by (cases rule: sim_find) (use assms(1) in \<open>simp_all add: refined_def dash_defs item_at_def\<close>)
qed

lemma remove_refined:
  assumes "dash_sim w (S, n)" "known_id k"
  shows "refined (dash_exec (DashRemove k) w) (dash_spec (DashRemove k) (S, n))"
    "refined (dash_exec (DashRemove2 k) w) (dash_spec (DashRemove2 k) (S, n))"
proof -
  have del: "\<exists>t. RB_REMOVE a (esq_dashboard_rb w) = Some t \<and>
      dash_sim (w\<lparr>items := (items w)(a := None), esq_dashboard_rb := t\<rparr>) (S(k := None), n)"
    if "items w a = Some e" "item_id e = k" for a e
    using del_sim [OF assms(1) that(1)] that(2) by blast
  have r: "(S k = None \<and> esq_dashboard_remove_item k w = Inr (-1, w)) \<or>
      (S k \<noteq> None \<and> (\<exists>w'. esq_dashboard_remove_item k w = Inr (0, w') \<and> dash_sim w' (S(k := None), n)))"
    using assms
  proof (cases rule: sim_find)
    case (some a e)
    then show ?thesis using del [OF some(2,4)] by (auto simp: dash_defs item_at_def)
  qed (simp add: dash_defs)
  show "refined (dash_exec (DashRemove k) w) (dash_spec (DashRemove k) (S, n))"
    "refined (dash_exec (DashRemove2 k) w) (dash_spec (DashRemove2 k) (S, n))"
    using r assms(1) by (auto simp: refined_def esq_dashboard_remove_item2_def)
qed

lemma string_refined:
  assumes "dash_sim w (S, n)" "known_id k"
  shows "l < length str \<Longrightarrow> refined (dash_exec (DashSetString k str l) w) (dash_spec (DashSetString k str l) (S, n))"
    "refined (dash_exec (DashGetString k) w) (dash_spec (DashGetString k) (S, n))"
    "refined (dash_exec (DashSnprintf k offset r t) w) (dash_spec (DashSnprintf k offset r t) (S, n))"
proof -
  assume l: "l < length str"
  show "refined (dash_exec (DashSetString k str l) w) (dash_spec (DashSetString k str l) (S, n))"
  proof (cases "l \<ge> DASHBOARD_BUFFER_SIZE")
    case True
    then show ?thesis using assms(1) by (simp add: refined_def esq_dashboard_set_item_string_def)
  next
    case False
    from assms show ?thesis
    proof (cases rule: sim_find)
      case none
      then show ?thesis using False assms(1) by (simp add: refined_def esq_dashboard_set_item_string_def)
    next
      case (some a e)
      let ?e = "e\<lparr>item_buf := patched (take (l + 1) str) (item_buf e), buf_string_length := l\<rparr>"
      let ?f = "\<lambda>e. bindE (memcpy_at 0 str (l + 1) (item_buf e)) (\<lambda>b. Inr (e\<lparr>item_buf := b, buf_string_length := l\<rparr>))"
      have "?f e = Inr ?e" using l False some(5) by (auto simp: memcpy_at_def put_at_def patched_def item_ok_def)
      moreover have "item_ok ?e" using l False some(5) by (auto simp: item_ok_def patched_def)
      ultimately obtain w' where "upd_item a ?f w = Inr w'" "dash_sim w' (S(k \<mapsto> ?e), n)"
        using upd_item_sim [OF assms(1) some(2), of ?f ?e] some(4) by auto
      then show ?thesis using False some by (auto simp: refined_def esq_dashboard_set_item_string_def)
    qed
  qed
next
  from assms show "refined (dash_exec (DashGetString k) w) (dash_spec (DashGetString k) (S, n))"
  proof (cases rule: sim_find)
    case (some a e)
    then show ?thesis using assms(1)
      by (auto simp: refined_def esq_dashboard_get_item_string_def item_at_def memcpy_at_def put_at_def item_ok_def min_def)
  qed (use assms in \<open>simp add: refined_def esq_dashboard_get_item_string_def\<close>)
next
  show "refined (dash_exec (DashSnprintf k offset r t) w) (dash_spec (DashSnprintf k offset r t) (S, n))"
  proof (cases "offset < 0 \<or> offset \<ge> int DASHBOARD_BUFFER_SIZE")
    case True
    then show ?thesis using assms(1) by (auto simp: refined_def esq_dashboard_snprintf_def)
  next
    case False
    from assms show ?thesis
    proof (cases rule: sim_find)
      case none
      then show ?thesis using False assms(1) by (simp add: refined_def esq_dashboard_snprintf_def)
    next
      case (some a e)
      let ?e = "snprintf_item (nat offset) r t e"
      let ?f = "\<lambda>e. bindE (snprintf_at (nat offset) (DASHBOARD_BUFFER_SIZE - nat offset) t (item_buf e)) (\<lambda>b.
        Inr (e\<lparr>item_buf := b, buf_string_length := if r \<le> 0 \<or> r \<ge> int DASHBOARD_BUFFER_SIZE then buf_string_length e else nat r\<rparr>))"
      have off: "nat offset < DASHBOARD_BUFFER_SIZE" using False by linarith
      have "?f e = Inr ?e" using off some(5)
        by (auto simp: snprintf_at_def put_at_def snprintf_item_def item_ok_def Let_def)
      moreover have "item_ok ?e" using off some(5) by (auto simp: item_ok_def snprintf_item_def Let_def)
      moreover have "item_id ?e = item_id e" by (simp add: snprintf_item_def Let_def)
      ultimately obtain w' where "upd_item a ?f w = Inr w'" "dash_sim w' (S(k \<mapsto> ?e), n)"
        using upd_item_sim [OF assms(1) some(2), of ?f ?e] some(4) by auto
      then show ?thesis using False some by (auto simp: refined_def esq_dashboard_snprintf_def Let_def)
    qed
  qed
qed

lemma list_refined:
  assumes "dash_sim w (S, n)"
  shows "refined (dash_exec (DashList l) w) (dash_spec (DashList l) (S, n))"
proof -
  note rb = sim_rb [OF assms]
  have "\<exists>e. items w p = Some e \<and> 0 \<le> item_id e" if "p \<in> set (inorder (esq_dashboard_rb w))" for p
    using that rb(2) assms by (auto simp: item_ok_def elim!: dash_simE)
  then show ?thesis
    using list_loop_fits [of "inorder (esq_dashboard_rb w)" "items w" "sorted_list_of_set (dom S)" "[]" "replicate l 0"] rb(1,4) assms
    by (auto simp: refined_def esq_dashboard_list_all_items_def ids_text_def Let_def)
qed

lemma exec_refined:
  assumes "dash_sim w (S, n)" "dash_call_ok c w"
  shows "refined (dash_exec c w) (dash_spec c (S, n))"
proof (cases c)
  case (DashNew mem)
  show ?thesis
  proof (cases mem)
    case (Some p)
    then have "card (dom S) < 2 ^ 31" "items w p = None"
      using assms sim_rb(5) [OF assms(1)] DashNew rb_size_inorder [of "esq_dashboard_rb w"] by auto
    then have "\<exists>w'. esq_dashboard_new (Some p) w = Inr (free_id S n, w') \<and>
        dash_sim w' (S(free_id S n \<mapsto> new_item (free_id S n)), wrap32 (free_id S n + 1))"
      by (intro new_sim [OF assms(1)])
    then show ?thesis using DashNew Some by (auto simp: refined_def Let_def)
  qed (use assms DashNew in \<open>simp add: refined_def esq_dashboard_new_def\<close>)
next
  case DashStopAll
  then show ?thesis using stop_sim [OF assms(1)] by (auto simp: refined_def)
next
  case DashRemoveAll
  then show ?thesis using remove_all_sim [OF assms(1)] by (auto simp: refined_def)
next
  case DashCount
  then show ?thesis using sim_rb(1,5) [OF assms(1)] assms(1) by (simp add: refined_def esq_dashboard_get_item_count_def)
qed (use assms opcode_refined remove_refined string_refined list_refined in auto)

section \<open>What a client sees\<close>

text \<open>
  The specification without buffers: an item is an operation code and a text.  Printing replaces the text and returns its length.
\<close>

type_synonym dash_doc_state = "(int \<Rightarrow> (int \<times> byte list) option) \<times> int"

definition put_item :: "int \<Rightarrow> (int \<times> byte list \<Rightarrow> int \<times> byte list) \<Rightarrow> 'a \<Rightarrow> 'a \<Rightarrow> dash_doc_state \<Rightarrow> 'a \<times> dash_doc_state" where
  "put_item k f ok missing x = (case fst x k of None \<Rightarrow> (missing, x) | Some e \<Rightarrow> (ok, ((fst x)(k \<mapsto> f e), snd x)))"

primrec dash_doc :: "dash_call \<Rightarrow> dash_doc_state \<Rightarrow> dash_reply \<times> dash_doc_state" where
  "dash_doc (DashNew mem) x =
     (if mem = None then (Code (-1), x)
      else let k = free_id (fst x) (snd x) in (Code k, ((fst x)(k \<mapsto> (0, [])), wrap32 (k + 1))))"
| "dash_doc (DashSetOpcode k c) x = put_item k (\<lambda>(_, t). (c, t)) (Code ESQ_OK) (Code ESQ_ERROR_NOTFOUND) x"
| "dash_doc (DashGetOpcode k) x =
     (case fst x k of None \<Rightarrow> (Opcode ESQ_ERROR_NOTFOUND None, x) | Some (c, t) \<Rightarrow> (Opcode ESQ_OK (Some c), x))"
| "dash_doc (DashSnprintf k offset r txt) x =
     (if offset < 0 \<or> offset \<ge> int DASHBOARD_BUFFER_SIZE then (Code (-1), x)
      else put_item k (\<lambda>(c, _). (c, txt)) (Code (int (length txt))) (Code (-1)) x)"
| "dash_doc DashStopAll x =
     (Code (int (card (dom (fst x)))), (\<lambda>k. map_option (\<lambda>(_, t). (ESQ_DASHBOARD_OP_STOP, t)) (fst x k), snd x))"
| "dash_doc DashRemoveAll x = (Nothing, (Map.empty, snd x))"
| "dash_doc (DashList n) x =
     (let ks = sorted_list_of_set (dom (fst x)) in (Text None (ids_text (take (fitting n ks) ks)), x))"
| "dash_doc DashCount x = (Code (int (card (dom (fst x)))), x)"
| "dash_doc (DashGetString k) x =
     (case fst x k of None \<Rightarrow> (Text (Some ''dashboard item not found'') [], x) | Some (c, t) \<Rightarrow> (Text None t, x))"
| "dash_doc (DashGetItemOpcode k) x =
     (case fst x k of None \<Rightarrow> (ErrsOpcode (Some ''dashboard item not found'') None, x) | Some (c, t) \<Rightarrow> (ErrsOpcode None (Some c), x))"
| "dash_doc (DashSetItemOpcode k c) x = put_item k (\<lambda>(_, t). (c, t)) (Errs None) (Errs (Some ''dashboard item not found'')) x"
| "dash_doc (DashSetString k str l) x =
     (if l \<ge> DASHBOARD_BUFFER_SIZE then (Errs (Some ''string too long''), x)
      else put_item k (\<lambda>(c, _). (c, take l str)) (Errs None) (Errs (Some ''dashboard item not found'')) x)"
| "dash_doc (DashRemove k) x = (if fst x k = None then (Code (-1), x) else (Code 0, ((fst x)(k := None), snd x)))"
| "dash_doc (DashRemove2 k) x =
     (if fst x k = None then (Errs (Some ''dashboard item not found''), x) else (Errs None, ((fst x)(k := None), snd x)))"

text \<open>
  Calls that print a non-empty text that fits, from the start of the buffer, or that are refused for their offset.  The others do not
  keep the contract, see \<open>snprintf_returns_too_much\<close> and \<open>snprintf_forgets_offset\<close>.
\<close>

primrec prints_whole :: "dash_call \<Rightarrow> bool" where
  "prints_whole (DashNew mem) \<longleftrightarrow> True"
| "prints_whole (DashSetOpcode k c) \<longleftrightarrow> True"
| "prints_whole (DashGetOpcode k) \<longleftrightarrow> True"
| "prints_whole (DashSnprintf k offset r txt) \<longleftrightarrow>
     offset < 0 \<or> offset \<ge> int DASHBOARD_BUFFER_SIZE \<or>
     offset = 0 \<and> r = int (length txt) \<and> 0 < length txt \<and> length txt < DASHBOARD_BUFFER_SIZE"
| "prints_whole DashStopAll \<longleftrightarrow> True"
| "prints_whole DashRemoveAll \<longleftrightarrow> True"
| "prints_whole (DashList n) \<longleftrightarrow> True"
| "prints_whole DashCount \<longleftrightarrow> True"
| "prints_whole (DashGetString k) \<longleftrightarrow> True"
| "prints_whole (DashGetItemOpcode k) \<longleftrightarrow> True"
| "prints_whole (DashSetItemOpcode k c) \<longleftrightarrow> True"
| "prints_whole (DashSetString k str n) \<longleftrightarrow> True"
| "prints_whole (DashRemove k) \<longleftrightarrow> True"
| "prints_whole (DashRemove2 k) \<longleftrightarrow> True"

definition seen_item :: "esq_dashboard_item_t \<Rightarrow> int \<times> byte list" where
  "seen_item e = (opcode e, take (buf_string_length e) (item_buf e))"

definition seen :: "dash_spec_state \<Rightarrow> dash_doc_state" where
  "seen x = (\<lambda>k. map_option seen_item (fst x k), snd x)"

lemma seen_simps [simp]:
  "fst (seen x) k = map_option seen_item (fst x k)" "dom (fst (seen x)) = dom (fst x)" "snd (seen x) = snd x"
  "fst (seen x) k = None \<longleftrightarrow> fst x k = None"
  by (auto simp: seen_def dom_def)

lemma seen_upd: "seen (S(k \<mapsto> e), n) = ((fst (seen (S, n)))(k \<mapsto> seen_item e), n)"
  by (auto simp: seen_def)

lemma seen_del: "seen (S(k := None), n) = ((fst (seen (S, n)))(k := None), n)"
  by (auto simp: seen_def)

lemma free_id_seen: "free_id (fst (seen x)) n = free_id (fst x) n"
  by (simp add: free_id_def steps_to_free_def)

lemma put_item_seen:
  "put_item k f r s (seen (S, n)) =
     (case S k of None \<Rightarrow> (s, seen (S, n)) | Some e \<Rightarrow> (r, ((fst (seen (S, n)))(k \<mapsto> f (seen_item e)), n)))"
  by (cases "S k") (simp_all add: put_item_def)

lemma doc_spec:
  assumes "dash_call_ok c w" "prints_whole c"
  shows "dash_doc c (seen (S, n)) = (fst (dash_spec c (S, n)), seen (snd (dash_spec c (S, n))))"
proof (cases c)
  case (DashSnprintf k offset r t)
  have "seen_item (snprintf_item 0 (int (length t)) t e) = (opcode e, t)" if "0 < length t" "length t < DASHBOARD_BUFFER_SIZE" for e
    using that by (simp add: seen_item_def snprintf_item_def Let_def)
  then show ?thesis using assms(1,2) unfolding DashSnprintf
    by (auto simp: put_item_seen seen_item_def [of "the (S k)"] seen_upd split: option.splits)
       (simp_all add: seen_item_def)
next
  case (DashSetString k str l)
  have "take l (patched (take (l + 1) str) b) = take l str" if "l < length str" for b
    using that by (simp add: patched_def min_def)
  then show ?thesis using assms(1) unfolding DashSetString
    by (auto simp: put_item_seen seen_upd split: option.splits) (simp_all add: seen_item_def)
next
  case (DashNew mem)
  have "seen_item (new_item k) = (0, [])" for k by (simp add: seen_item_def new_item_def)
  then show ?thesis using DashNew free_id_seen [of "(S, n)" n] by (auto simp: Let_def seen_upd)
next
  case DashStopAll
  then show ?thesis by (auto simp: seen_def seen_item_def option.map_comp comp_def dom_def intro!: arg_cong [where f = card])
next
  case DashRemoveAll
  then show ?thesis by (simp add: seen_def)
qed (auto simp: put_item_seen seen_upd seen_del Let_def split: option.splits, simp_all add: seen_item_def)

section \<open>Sequences of calls\<close>

inductive dash_runs :: "dash_call list \<Rightarrow> dash_reply list \<Rightarrow> dashboard \<Rightarrow> bool" where
  dash_start: "dash_runs [] [] esq_dashboard_init"
| dash_call: "dash_runs cs rs w \<Longrightarrow> dash_call_ok c w \<Longrightarrow> dash_exec c w = Inr (r, w') \<Longrightarrow> dash_runs (cs @ [c]) (rs @ [r]) w'"

primrec dash_replies :: "dash_call list \<Rightarrow> dash_spec_state \<Rightarrow> dash_reply list \<times> dash_spec_state" where
  "dash_replies [] x = ([], x)"
| "dash_replies (c # cs) x = (let (r, x) = dash_spec c x; (rs, x) = dash_replies cs x in (r # rs, x))"

lemma replies_append:
  "dash_replies (cs @ ds) x = (let (rs, y) = dash_replies cs x; (ss, z) = dash_replies ds y in (rs @ ss, z))"
  by (induction cs arbitrary: x) (auto simp: Let_def split: prod.splits)

lemma init_sim: "dash_sim esq_dashboard_init (Map.empty, 0)"
  by (rule dash_simI [of _ Map.empty]) (auto simp: esq_dashboard_init_def dash_tree_def)

lemma runs_sim: "dash_runs cs rs w \<Longrightarrow> \<exists>x. dash_replies cs (Map.empty, 0) = (rs, x) \<and> dash_sim w x"
proof (induction rule: dash_runs.induct)
  case dash_start
  then show ?case using init_sim by simp
next
  case (dash_call cs rs w c r w')
  then obtain S n where x: "dash_replies cs (Map.empty, 0) = (rs, (S, n))" "dash_sim w (S, n)" by auto
  then have "refined (Inr (r, w')) (dash_spec c (S, n))" using exec_refined [OF x(2) dash_call(2)] dash_call(3) by simp
  then show ?case using x(1) by (auto simp: refined_def replies_append Let_def split: prod.splits)
qed

lemma call_runs:
  assumes "dash_runs cs rs w" "dash_call_ok c w"
  shows "\<exists>r w'. dash_exec c w = Inr (r, w') \<and> dash_runs (cs @ [c]) (rs @ [r]) w'"
proof -
  obtain S n where x: "dash_sim w (S, n)" using runs_sim [OF assms(1)] by auto
  then show ?thesis using exec_refined [OF x assms(2)] dash_call [OF assms] by (auto simp: refined_def)
qed

text \<open>A history, for the witnesses.\<close>

definition ex_dash1 :: dashboard where
  "ex_dash1 = \<lparr>items = [0 \<mapsto> new_item 0], esq_dashboard_rb = RB_NODE RB_BLACK RB_NULL 0 RB_NULL, esq_dashboard_id_max = 1\<rparr>"

definition ex_dash2 :: dashboard where
  "ex_dash2 = \<lparr>items = [0 \<mapsto> new_item 0, 1 \<mapsto> new_item 1],
     esq_dashboard_rb = RB_NODE RB_BLACK RB_NULL 0 (RB_NODE RB_RED RB_NULL 1 RB_NULL), esq_dashboard_id_max = 2\<rparr>"

lemma ex_dash_runs: "dash_runs [DashNew (Some 0), DashNew (Some 1)] [Code 0, Code 1] ex_dash2"
proof -
  have "dash_exec (DashNew (Some 0)) esq_dashboard_init = Inr (Code 0, ex_dash1)"
    by (simp add: esq_dashboard_new_def esq_dashboard_init_def item_find_def RB_INSERT_def Let_def wrap32_def ex_dash1_def)
  then have 1: "dash_runs [DashNew (Some 0)] [Code 0] ex_dash1"
    using dash_call [OF dash_start, of "DashNew (Some 0)"] by (simp add: esq_dashboard_init_def)
  have "dash_exec (DashNew (Some 1)) ex_dash1 = Inr (Code 1, ex_dash2)"
    by (simp add: esq_dashboard_new_def ex_dash1_def ex_dash2_def item_find_def RB_INSERT_def Let_def wrap32_def
        esq_dashboard_item_compare_def item_at_def i32_def new_item_def)
  then show ?thesis using dash_call [OF 1, of "DashNew (Some 1)"] by (simp add: ex_dash1_def)
qed

text \<open>The replies the specification without buffers gives to a sequence of calls.\<close>

primrec doc_replies :: "dash_call list \<Rightarrow> dash_doc_state \<Rightarrow> dash_reply list" where
  "doc_replies [] x = []"
| "doc_replies (c # cs) x = fst (dash_doc c x) # doc_replies cs (snd (dash_doc c x))"

primrec doc_after :: "dash_call list \<Rightarrow> dash_doc_state \<Rightarrow> dash_doc_state" where
  "doc_after [] x = x"
| "doc_after (c # cs) x = doc_after cs (snd (dash_doc c x))"

lemma doc_append:
  "doc_replies (cs @ ds) x = doc_replies cs x @ doc_replies ds (doc_after cs x)" "doc_after (cs @ ds) x = doc_after ds (doc_after cs x)"
  by (induction cs arbitrary: x) simp_all

lemma runs_doc:
  "dash_runs cs rs w \<Longrightarrow> list_all prints_whole cs \<Longrightarrow>
   \<exists>S n. dash_sim w (S, n) \<and> doc_replies cs (Map.empty, 0) = rs \<and> doc_after cs (Map.empty, 0) = seen (S, n)"
proof (induction rule: dash_runs.induct)
  case dash_start
  have "seen (Map.empty, 0) = (Map.empty, 0)" by (simp add: seen_def)
  then show ?case using init_sim by (intro exI [of _ Map.empty] exI [of _ 0]) simp
next
  case (dash_call cs rs w c r w')
  then obtain S n where x: "dash_sim w (S, n)" "doc_replies cs (Map.empty, 0) = rs" "doc_after cs (Map.empty, 0) = seen (S, n)" by auto
  have "refined (Inr (r, w')) (dash_spec c (S, n))" using exec_refined [OF x(1) dash_call(2)] dash_call(3) by simp
  moreover have "dash_doc c (seen (S, n)) = (fst (dash_spec c (S, n)), seen (snd (dash_spec c (S, n))))"
    using dash_call.prems by (intro doc_spec [OF dash_call(2)]) simp
  ultimately show ?case using x(2,3) by (cases "snd (dash_spec c (S, n))") (auto simp: refined_def doc_append)
qed

text \<open>
  The comment on \<open>esq_dashboard_snprintf\<close> promises the number of bytes that were written.  A text that is cut off at the end of the
  buffer is reported with its full length, and the length of the item is what was printed behind the offset, without the offset.
\<close>

lemma found_item:
  assumes "dash_runs cs rs w" "known_id k" "item_find k w = Inr (Some a)"
  shows "\<exists>e. items w a = Some e \<and> item_ok e"
proof -
  obtain S n where "dash_sim w (S, n)" using runs_sim [OF assms(1)] by auto
  from this assms(2) show ?thesis by (cases rule: sim_find) (use assms(3) in auto)
qed

lemma snprintf_returns_too_much:
  assumes "dash_runs cs rs w" "known_id k" "item_find k w = Inr (Some a)"
  shows "\<exists>w' e. esq_dashboard_snprintf k 4090 10 (replicate 10 c) w = Inr (10, w') \<and> items w' a = Some e \<and>
     length (item_buf e) = 4096 \<and> drop 4090 (item_buf e) = replicate 5 c @ [0]"
proof -
  obtain e where "items w a = Some e" "item_ok e" using found_item [OF assms] by blast
  then show ?thesis using assms(3)
    by (auto simp: esq_dashboard_snprintf_def upd_item_def item_at_def snprintf_at_def put_at_def item_ok_def DASHBOARD_BUFFER_SIZE_def)
qed

lemma snprintf_forgets_offset:
  assumes "dash_runs cs rs w" "known_id k" "item_find k w = Inr (Some a)"
  shows "\<exists>w' e. esq_dashboard_snprintf k 100 1 [c] w = Inr (1, w') \<and> items w' a = Some e \<and> buf_string_length e = 1"
proof -
  obtain e where "items w a = Some e" "item_ok e" using found_item [OF assms] by blast
  then show ?thesis using assms(3)
    by (auto simp: esq_dashboard_snprintf_def upd_item_def item_at_def snprintf_at_def put_at_def item_ok_def DASHBOARD_BUFFER_SIZE_def)
qed

text \<open>
  C17.  The dashboard is a map from identifiers to operation codes and texts.  After any sequence of calls, every further call
  returns, provided that identifiers are from -1 on, memory from \<open>malloc\<close> is fresh, there are fewer than \<open>2 ^ 31\<close> items, and
  strings are as long as said.  When every printed text is not empty, fits, and is printed from the start of the buffer, all replies
  are those of the map: a new item gets the first unused identifier from the counter on, reads return what was last written
  or printed under the identifier, printing returns the number of bytes written, the list holds the identifiers in ascending order as
  far as they fit, and the errors are those of missing items, over-long strings and bad offsets.
\<close>

theorem dashboard_refines_map:
  assumes "dash_runs cs rs w" "dash_call_ok c w"
  shows "\<exists>r w'. dash_exec c w = Inr (r, w') \<and> dash_runs (cs @ [c]) (rs @ [r]) w' \<and>
    (list_all prints_whole (cs @ [c]) \<longrightarrow> rs @ [r] = doc_replies (cs @ [c]) (Map.empty, 0))"
proof -
  obtain r w' where w': "dash_exec c w = Inr (r, w')" "dash_runs (cs @ [c]) (rs @ [r]) w'" using call_runs [OF assms] by blast
  then show ?thesis using runs_doc [OF w'(2)] by (intro exI [of _ r] exI [of _ w']) auto
qed

theorem dashboard_refines_map_witness:
  "\<exists>w'. dash_exec (DashSnprintf 1 0 2 [104, 105]) ex_dash2 = Inr (Code 2, w') \<and>
     [Code 0, Code 1, Code 2] = doc_replies [DashNew (Some 0), DashNew (Some 1), DashSnprintf 1 0 2 [104, 105]] (Map.empty, 0)"
proof -
  have "dash_call_ok (DashSnprintf 1 0 2 [104, 105]) ex_dash2" by (simp add: known_id_def)
  from dashboard_refines_map [OF ex_dash_runs this]
  obtain r w' where w': "dash_exec (DashSnprintf 1 0 2 [104, 105]) ex_dash2 = Inr (r, w')"
    "[Code 0, Code 1] @ [r] = doc_replies ([DashNew (Some 0), DashNew (Some 1)] @ [DashSnprintf 1 0 2 [104, 105]]) (Map.empty, 0)"
    by (auto simp: DASHBOARD_BUFFER_SIZE_def)
  moreover have "r = Code 2"
    using w'(1) by (auto simp: ex_dash2_def esq_dashboard_snprintf_def item_find_def esq_dashboard_item_compare_def item_at_def i32_def new_item_def
        DASHBOARD_BUFFER_SIZE_def dest!: bindE_InrD)
  ultimately show ?thesis by simp
qed

section \<open>The end of the tasks\<close>

primrec dash_calls_ok :: "dash_call list \<Rightarrow> dashboard \<Rightarrow> bool" where
  "dash_calls_ok [] w \<longleftrightarrow> True"
| "dash_calls_ok (c # cs) w \<longleftrightarrow> dash_call_ok c w \<and> (\<forall>r w'. dash_exec c w = Inr (r, w') \<longrightarrow> dash_calls_ok cs w')"

lemma run_runs:
  "dash_runs cs rs w \<Longrightarrow> dash_calls_ok ds w \<Longrightarrow>
   \<exists>w' cs rs. run (map (\<lambda>c w. bindE (dash_exec c w) (\<lambda>(_, w). Inr w)) ds) w = Inr w' \<and> dash_runs cs rs w'"
proof (induction ds arbitrary: cs rs w)
  case (Cons d ds)
  have "dash_call_ok d w" using Cons.prems(2) by simp
  from call_runs [OF Cons.prems(1) this]
  obtain r w' where w': "dash_exec d w = Inr (r, w')" "dash_runs (cs @ [d]) (rs @ [r]) w'" by blast
  then show ?case using Cons.IH [OF w'(2)] Cons.prems(2) by auto
qed auto

lemma stop_loop_runs:
  assumes "\<And>i cs rs v. dash_runs cs rs v \<Longrightarrow> dash_calls_ok (others i v) v"
  shows "dash_runs cs rs w \<Longrightarrow> \<exists>w' cs rs. stop_loop others i w = Inr w' \<and> dash_runs cs rs w'"
proof (induction "DASHBOARD_DETACH_ALERT_CYCLE - i" arbitrary: i w cs rs)
  case 0
  then show ?case by (auto simp: stop_loop.simps [of others i w])
next
  case (Suc d)
  obtain r v where "dash_exec DashStopAll w = Inr (r, v)" "dash_runs (cs @ [DashStopAll]) (rs @ [r]) v"
    using call_runs [OF Suc.prems, of DashStopAll] by auto
  then obtain k where v: "esq_dashboard_notify_stop_to_all_tasks w = Inr (k, v)" "dash_runs (cs @ [DashStopAll]) (rs @ [r]) v"
    by (auto dest!: bindE_InrD)
  obtain w' cs' rs' where w': "run (map (\<lambda>c w. bindE (dash_exec c w) (\<lambda>(_, w). Inr w)) (others i v)) v = Inr w'" "dash_runs cs' rs' w'"
    using run_runs [OF v(2) assms [OF v(2)]] by blast
  have "d = DASHBOARD_DETACH_ALERT_CYCLE - Suc i" using Suc.hyps(2) by simp
  from Suc.hyps(1) [OF this w'(2)] show ?case
    using Suc.hyps(2) v w'(1) by (auto simp: stop_loop.simps [of others i w])
qed

text \<open>
  C18.  The dashboard stops: whatever the tasks do while they are told to stop, the loop gives them at most the time of its
  cycles, and in the end every item has been taken out of the tree and freed.
\<close>

theorem dashboard_stop_frees:
  assumes "dash_runs cs rs w" "\<And>i cs rs v. dash_runs cs rs v \<Longrightarrow> dash_calls_ok (others i v) v"
  shows "\<exists>w'. esq_dashboard_stop others w = Inr w' \<and> items w' = Map.empty \<and> esq_dashboard_rb w' = RB_NULL"
proof -
  have "\<exists>v cs rs. stop_loop others 0 w = Inr v \<and> dash_runs cs rs v" by (rule stop_loop_runs) (fact assms)+
  then obtain v cs' rs' where v: "stop_loop others 0 w = Inr v" "dash_runs cs' rs' v" by blast
  obtain S n where "dash_sim v (S, n)" using runs_sim [OF v(2)] by auto
  then obtain w' where w': "esq_dashboard_remove_all_items v = Inr w'" "dash_sim w' (Map.empty, n)" using remove_all_sim by blast
  then have "dom (items w') = {}" "inorder (esq_dashboard_rb w') = []" using sim_rb(2,5) [OF w'(2)] by auto
  then show ?thesis using v(1) w'(1) inorder_Nil by (auto simp: esq_dashboard_stop_def esq_dashboard_detach_loop_def)
qed

theorem dashboard_stop_frees_witness:
  "\<exists>w'. esq_dashboard_stop (\<lambda>i v. [DashRemove 0, DashGetOpcode 1]) ex_dash2 = Inr w' \<and> items w' = Map.empty"
proof -
  have "dash_calls_ok [DashRemove 0, DashGetOpcode 1] v" for v by (simp add: known_id_def)
  then show ?thesis using dashboard_stop_frees [OF ex_dash_runs, of "\<lambda>i v. [DashRemove 0, DashGetOpcode 1]"] by blast
qed

end
