(* ===== verification/Esq_FileLru.thy ===== *)
theory Esq_FileLru
  imports Esq_Compare Esq_Bloom "HOL-Library.Product_Lexorder"
begin

text \<open>
  The file cache of \<^verbatim>\<open>utils/file-lru.c\<close>.  A cached file is in a red-black tree under its name and on a doubly
  linked list in the order of insertion; users borrow it and give it back, and a file that is
  dropped while it is borrowed waits on a second list until its last user returns it.  The Bloom filter of the paths
  below the root refuses unknown names before the disk is asked.

  \<^verbatim>\<open>file_lru_borrow\<close> holds the lock twice and reads the disk in between: the two critical sections and the
  reading are operations of their own here, which may be interleaved with those of other threads.
  The disk and \<^verbatim>\<open>malloc\<close> are parameters.
\<close>

section \<open>Data\<close>

definition FILE_LRU_MGC0 :: u32 where "FILE_LRU_MGC0 = 0xac12ac34"
definition FILE_LRU_MGC1 :: u32 where "FILE_LRU_MGC1 = 0xab45cd45"
definition LRU_PATH_MAX :: nat where "LRU_PATH_MAX = 256"
definition FILE_LRU_FLAGS_PURGED :: u32 where "FILE_LRU_FLAGS_PURGED = 1"

record file_lru_t =
  lru_magic0 :: u32
  borrow_cnt :: int
  lru_flags :: u32
  file_name_hash :: int
  file_name_length :: nat
  file_size :: int
  file_name :: "byte list"
  file_data :: "byte list"
  lru_prev :: "addr option"
  lru_next :: "addr option"
  lru_magic1 :: u32

type_synonym lru_heap = "addr \<Rightarrow> file_lru_t option"

definition lru_prev_f :: "(addr, file_lru_t) field" where
  "lru_prev_f = \<lparr>get = lru_prev, put = (\<lambda>v n. n\<lparr>lru_prev := v\<rparr>)\<rparr>"

definition lru_next_f :: "(addr, file_lru_t) field" where
  "lru_next_f = \<lparr>get = lru_next, put = (\<lambda>v n. n\<lparr>lru_next := v\<rparr>)\<rparr>"

record lru_world =
  files :: lru_heap
  lru_size_max :: int
  lru_size_total :: int
  lru_root_path :: "byte list"
  lru_root_path_length :: int
  lru_bloom_filter :: "path_bloom_filter_t option"
  file_lru :: "addr ll"
  file_lru_purged :: "addr ll"
  file_lru_rb :: "addr rb"

definition file_at :: "addr \<Rightarrow> lru_heap \<Rightarrow> file_lru_t res" where
  "file_at a h = of_opt (h a)"

definition upd_file :: "addr \<Rightarrow> (file_lru_t \<Rightarrow> file_lru_t) \<Rightarrow> lru_world \<Rightarrow> lru_world res" where
  "upd_file a f w = bindE (file_at a (files w)) (\<lambda>n. Inr (w\<lparr>files := (files w)(a \<mapsto> f n)\<rparr>))"

section \<open>Names\<close>

definition name_hash_step :: "byte \<times> byte \<times> byte \<times> byte \<Rightarrow> nat \<Rightarrow> byte \<Rightarrow> byte \<times> byte \<times> byte \<times> byte" where
  "name_hash_step = (\<lambda>(h0, h1, h2, h3) i c.
     (if i AND 1 \<noteq> 0 then h0 + c else h0, if i AND 3 \<noteq> 0 then h1 + c else h1,
      if i AND 2 \<noteq> 0 then h2 + c else h2, if i AND 6 \<noteq> 0 then h3 + c else h3))"

fun name_hash_loop :: "byte list \<Rightarrow> nat \<Rightarrow> byte \<times> byte \<times> byte \<times> byte \<Rightarrow> byte \<times> byte \<times> byte \<times> byte" where
  "name_hash_loop [] i h = h"
| "name_hash_loop (c # s) i h = name_hash_loop s (i + 1) (name_hash_step h i c)"

definition hash_value :: "byte list \<Rightarrow> int" where
  "hash_value s = (case name_hash_loop s 0 (0, 1, 2, 3) of (h0, h1, h2, h3) \<Rightarrow>
     wrap32 (uint h0 + uint h1 * 2 ^ 8 + uint h2 * 2 ^ 16 + uint h3 * 2 ^ 24))"

definition file_lru_name_hash :: "byte list \<Rightarrow> nat \<Rightarrow> int res" where
  "file_lru_name_hash s len = (if len \<le> length s then Inr (hash_value (take len s)) else Inl Fault)"

text \<open>The comparison of a wanted name with a file; a difference of hashes that overflows is a fault.\<close>

definition file_lru_name_cmp :: "int \<Rightarrow> nat \<Rightarrow> byte list \<Rightarrow> lru_heap \<Rightarrow> addr \<Rightarrow> int res" where
  "file_lru_name_cmp hash len name h b =
     bindE (file_at b h) (\<lambda>n.
     bindE (of_opt (i32 (hash - file_name_hash n))) (\<lambda>d.
     if d \<noteq> 0 then Inr d
     else bindE (of_opt (i32 (int len - int (file_name_length n)))) (\<lambda>d.
     if d \<noteq> 0 then Inr d else strcmp name (file_name n))))"

section \<open>Reading a file\<close>

record disk_file =
  st_regular :: bool
  st_size :: int
  can_open :: bool
  contents :: "byte list"

definition file_lru_load_from_disk ::
    "(byte list \<Rightarrow> disk_file option) \<Rightarrow> addr option \<Rightarrow> byte list \<Rightarrow> nat \<Rightarrow> lru_world \<Rightarrow> (addr option \<times> lru_world) res" where
  "file_lru_load_from_disk disk mem name len w =
     (let path = cstr (lru_root_path w) @ bytes ''/'' @ cstr name in
      if length path \<ge> LRU_PATH_MAX then Inr (None, w)
      else case disk path of None \<Rightarrow> Inr (None, w) | Some f \<Rightarrow>
      let sz = wrap32 (st_size f) in
      if \<not> st_regular f \<or> sz \<le> 0 \<or> (lru_size_max w > 0 \<and> sz > lru_size_max w) then Inr (None, w)
      else case mem of None \<Rightarrow> Inr (None, w) | Some p \<Rightarrow>
      bindE (file_lru_name_hash name len) (\<lambda>hash.
      if \<not> can_open f \<or> length (contents f) < nat sz then Inr (None, w)
      else Inr (Some p, w\<lparr>files := (files w)(p \<mapsto>
        \<lparr>lru_magic0 = FILE_LRU_MGC0, borrow_cnt = 0, lru_flags = 0, file_name_hash = hash, file_name_length = len,
         file_size = sz, file_name = take len name @ [0], file_data = take (nat sz) (contents f),
         lru_prev = None, lru_next = None, lru_magic1 = FILE_LRU_MGC1\<rparr>)\<rparr>)))"

section \<open>Dropping files\<close>

text \<open>A file leaves the cache: it is freed, or kept on the list of purged files while it is borrowed.\<close>

definition lru_leave :: "addr \<Rightarrow> lru_world \<Rightarrow> lru_world res" where
  "lru_leave p w =
     bindE (DOUBLE_LL_LEFT lru_prev_f lru_next_f p (file_lru w) (files w)) (\<lambda>(l, h).
     bindE (of_opt (RB_REMOVE p (file_lru_rb w))) (\<lambda>t.
     Inr (w\<lparr>file_lru := l, files := h, file_lru_rb := t\<rparr>)))"

definition lru_discard :: "addr \<Rightarrow> lru_world \<Rightarrow> lru_world res" where
  "lru_discard p w =
     bindE (file_at p (files w)) (\<lambda>n.
     if borrow_cnt n \<noteq> 0
     then bindE (upd_file p (\<lambda>n. n\<lparr>lru_flags := lru_flags n OR FILE_LRU_FLAGS_PURGED\<rparr>) w) (\<lambda>w.
       bindE (DOUBLE_LL_JOIN_HEAD lru_prev_f lru_next_f p (file_lru_purged w) (files w)) (\<lambda>(l, h).
       Inr (w\<lparr>file_lru_purged := l, files := h\<rparr>)))
     else Inr (w\<lparr>files := (files w)(p := None)\<rparr>))"

text \<open>One pass of the loop of \<^verbatim>\<open>file_lru_purge_all\<close>, which gives up the lock between its passes.\<close>

definition purge_one :: "lru_world \<Rightarrow> lru_world option res" where
  "purge_one w = (case head (file_lru w) of None \<Rightarrow> Inr None | Some p \<Rightarrow>
     bindE (lru_leave p w) (\<lambda>w. bindE (lru_discard p w) (\<lambda>w. Inr (Some w))))"

primrec purge_all_loop :: "nat \<Rightarrow> lru_world \<Rightarrow> lru_world res" where
  "purge_all_loop 0 w = Inl Fuel"
| "purge_all_loop (Suc fuel) w =
     bindE (purge_one w) (\<lambda>x. case x of None \<Rightarrow> Inr w | Some w \<Rightarrow> purge_all_loop fuel w)"

definition file_lru_purge_all :: "lru_world \<Rightarrow> lru_world res" where
  "file_lru_purge_all w = purge_all_loop (rb_size (file_lru_rb w) + 1) w"

primrec file_lru_purge_loop :: "nat \<Rightarrow> int \<Rightarrow> lru_world \<Rightarrow> lru_world res" where
  "file_lru_purge_loop 0 sz w = Inl Fuel"
| "file_lru_purge_loop (Suc fuel) sz w =
     bindE (of_opt (i32 (lru_size_max w - lru_size_total w))) (\<lambda>room.
     if room < sz
     then case tail (file_lru w) of None \<Rightarrow> Inr w | Some p \<Rightarrow>
       bindE (lru_leave p w) (\<lambda>w.
       bindE (file_at p (files w)) (\<lambda>n.
       bindE (of_opt (i32 (lru_size_total w - file_size n))) (\<lambda>total.
       bindE (lru_discard p (w\<lparr>lru_size_total := total\<rparr>)) (file_lru_purge_loop fuel sz))))
     else Inr w)"

definition file_lru_purge :: "int \<Rightarrow> lru_world \<Rightarrow> lru_world res" where
  "file_lru_purge sz w = file_lru_purge_loop (rb_size (file_lru_rb w) + 1) sz w"

section \<open>Borrowing and returning\<close>

datatype lookup = Refused | Found addr | Absent nat

definition add_borrow :: "addr \<Rightarrow> lru_world \<Rightarrow> lru_world res" where
  "add_borrow p w = bindE (file_at p (files w)) (\<lambda>n. bindE (of_opt (i32 (borrow_cnt n + 1))) (\<lambda>c. upd_file p (\<lambda>n. n\<lparr>borrow_cnt := c\<rparr>) w))"

text \<open>The first critical section of \<^verbatim>\<open>file_lru_borrow\<close>: \<open>Absent\<close> hands over the length of the name.\<close>

definition borrow_lookup :: "byte list \<Rightarrow> lru_world \<Rightarrow> (lookup \<times> lru_world) res" where
  "borrow_lookup name w =
     bindE (of_opt (strnlen name LRU_PATH_MAX)) (\<lambda>len.
     if len = 0 \<or> len \<ge> LRU_PATH_MAX then Inr (Refused, w)
     else bindE (file_lru_name_hash name len) (\<lambda>hash.
     bindE (of_opt (path_bloom_filter_check_exist2 (lru_bloom_filter w) (Some name) (int len))) (\<lambda>r.
     if r = 0 then Inr (Refused, w)
     else bindE (RB_FIND (file_lru_name_cmp hash len name (files w)) (file_lru_rb w)) (\<lambda>x.
     case x of None \<Rightarrow> Inr (Absent len, w) | Some p \<Rightarrow> bindE (add_borrow p w) (\<lambda>w. Inr (Found p, w))))))"

text \<open>The second one, with the file \<open>p\<close> that was read in between.\<close>

definition file_cmp :: "addr \<Rightarrow> lru_heap \<Rightarrow> addr \<Rightarrow> int res" where
  "file_cmp p h b = bindE (file_at p h) (\<lambda>n. file_lru_name_cmp (file_name_hash n) (file_name_length n) (file_name n) h b)"

definition insert_file :: "addr \<Rightarrow> lru_world \<Rightarrow> (addr option \<times> lru_world) res" where
  "insert_file p w =
     bindE (add_borrow p w) (\<lambda>w.
     bindE (file_at p (files w)) (\<lambda>n.
     bindE (of_opt (i32 (lru_size_total w + file_size n))) (\<lambda>total.
     bindE (RB_INSERT (file_cmp p (files w)) p (file_lru_rb w)) (\<lambda>(e, t).
     bindE (DOUBLE_LL_JOIN_HEAD lru_prev_f lru_next_f p (file_lru w) (files w)) (\<lambda>(l, h).
     Inr (Some p, w\<lparr>lru_size_total := total, file_lru_rb := t, file_lru := l, files := h\<rparr>))))))"

definition borrow_insert :: "addr \<Rightarrow> lru_world \<Rightarrow> (addr option \<times> lru_world) res" where
  "borrow_insert p w =
     bindE (RB_FIND (file_cmp p (files w)) (file_lru_rb w)) (\<lambda>x.
     case x of
       Some e \<Rightarrow>
         bindE (add_borrow e w) (\<lambda>w.
         bindE (DOUBLE_LL_LEFT lru_prev_f lru_next_f e (file_lru w) (files w)) (\<lambda>(l, h).
         bindE (DOUBLE_LL_JOIN_HEAD lru_prev_f lru_next_f e l h) (\<lambda>(l, h).
         bindE (file_at p h) (\<lambda>_. Inr (Some e, w\<lparr>file_lru := l, files := h(p := None)\<rparr>)))))
     | None \<Rightarrow>
         if lru_size_max w \<le> 0 then insert_file p w
         else bindE (file_at p (files w)) (\<lambda>n.
         let new_total = wrap32 (lru_size_total w + file_size n) in
         if new_total < lru_size_total w then Inr (None, w\<lparr>files := (files w)(p := None)\<rparr>)
         else if new_total > lru_size_max w then bindE (file_lru_purge (file_size n) w) (insert_file p)
         else insert_file p w))"

text \<open>The whole of \<^verbatim>\<open>file_lru_borrow\<close> when no other thread comes in between.\<close>

definition file_lru_borrow :: "(byte list \<Rightarrow> disk_file option) \<Rightarrow> addr option \<Rightarrow> byte list \<Rightarrow> lru_world \<Rightarrow> (addr option \<times> lru_world) res" where
  "file_lru_borrow disk mem name w =
     bindE (borrow_lookup name w) (\<lambda>(x, w). case x of
       Refused \<Rightarrow> Inr (None, w)
     | Found p \<Rightarrow> Inr (Some p, w)
     | Absent len \<Rightarrow> bindE (file_lru_load_from_disk disk mem name len w) (\<lambda>(x, w).
         case x of None \<Rightarrow> Inr (None, w) | Some p \<Rightarrow> borrow_insert p w))"

definition file_lru_get_data :: "addr option \<Rightarrow> lru_world \<Rightarrow> (int \<times> (byte list \<times> int) option) res" where
  "file_lru_get_data ptr w = (case ptr of None \<Rightarrow> Inr (ESQ_ERROR_PARAM, None) | Some p \<Rightarrow>
     bindE (file_at p (files w)) (\<lambda>n.
     if lru_magic0 n = FILE_LRU_MGC0 \<and> lru_magic0 n = FILE_LRU_MGC0 then Inr (ESQ_OK, Some (file_data n, file_size n))
     else Inr (ESQ_ERROR_PARAM, None)))"

definition file_lru_return :: "addr option \<Rightarrow> lru_world \<Rightarrow> lru_world res" where
  "file_lru_return ptr w = (case ptr of None \<Rightarrow> Inr w | Some p \<Rightarrow>
     bindE (file_at p (files w)) (\<lambda>n.
     if \<not> (lru_magic0 n = FILE_LRU_MGC0 \<and> lru_magic1 n = FILE_LRU_MGC1) then Inr w
     else bindE (of_opt (i32 (borrow_cnt n - 1))) (\<lambda>c.
     bindE (upd_file p (\<lambda>n. n\<lparr>borrow_cnt := c\<rparr>) w) (\<lambda>w.
     if c < 0 \<or> lru_flags n AND FILE_LRU_FLAGS_PURGED = 0 \<or> c > 0 then Inr w
     else bindE (DOUBLE_LL_LEFT lru_prev_f lru_next_f p (file_lru_purged w) (files w)) (\<lambda>(l, h).
       Inr (w\<lparr>file_lru_purged := l, files := h(p := None)\<rparr>))))))"

section \<open>Set-up\<close>

text \<open>The length of the root path is kept in a \<^verbatim>\<open>char\<close>; \<open>folder\<close> is what \<^verbatim>\<open>stat\<close> says: missing, or whether it is a folder.\<close>

definition file_lru_setup :: "(byte list \<Rightarrow> bool option) \<Rightarrow> byte list option \<Rightarrow> int \<Rightarrow> int \<Rightarrow> lru_world \<Rightarrow> (string option \<times> lru_world) res" where
  "file_lru_setup folder root len sz w =
     (case root of None \<Rightarrow> Inr (Some ''invalid root_path string'', w) | Some r \<Rightarrow>
      if len \<le> 0 \<or> len \<ge> int LRU_PATH_MAX then Inr (Some ''invalid root_path string'', w)
      else if nat len > length r then Inl Fault
      else case folder (cstr (take (nat len) r @ [0])) of
        None \<Rightarrow> Inr (Some ''failed to get target stat'', w)
      | Some d \<Rightarrow>
          if d then bindE (put_at 0 (take (nat len) r @ [0]) (lru_root_path w)) (\<lambda>b.
            Inr (None, w\<lparr>lru_root_path := b, lru_root_path_length := sint (of_int len :: 8 word), lru_size_max := sz\<rparr>))
          else Inr (Some ''not a good folder target'', w))"

definition file_lru_set_bloom_filter :: "path_bloom_filter_t option \<Rightarrow> lru_world \<Rightarrow> lru_world" where
  "file_lru_set_bloom_filter bf w = w\<lparr>lru_bloom_filter := bf\<rparr>"

definition file_lru_file_enumerators_cb :: "byte list \<Rightarrow> nat \<Rightarrow> int \<Rightarrow> path_bloom_filter_t option \<Rightarrow> (int \<times> path_bloom_filter_t option) option" where
  "file_lru_file_enumerators_cb path_name l root_length bf =
     (if int l \<le> root_length then Some (0, bf)
      else if root_length < 0 then None
      else do { (r, bf) \<leftarrow> path_bloom_filter_add_path2 bf (Some (drop (nat root_length) path_name)) (int l - root_length); Some (0, bf) })"

definition file_lru_start :: lru_world where
  "file_lru_start = \<lparr>files = Map.empty, lru_size_max = 4096, lru_size_total = 0,
     lru_root_path = patched (bytes ''./'' @ [0]) (replicate LRU_PATH_MAX 0), lru_root_path_length = 2,
     lru_bloom_filter = None, file_lru = ll_empty, file_lru_purged = ll_empty, file_lru_rb = RB_NULL\<rparr>"

end
