(* ===== verification/Esq_FileLruInv.thy ===== *)
theory Esq_FileLruInv
  imports Esq_FileLru
begin

text \<open>
  The invariant of the file cache under interleaved borrowing, reading, inserting, returning and purging: what every
  operation keeps of the two lists, the tree, the sizes and the counts of borrowers.
\<close>

section \<open>Names and comparisons\<close>

definition fname :: "file_lru_t \<Rightarrow> byte list" where
  "fname n = cstr (file_name n)"

definition name_key :: "byte list \<Rightarrow> int \<times> nat \<times> byte list" where
  "name_key s = (hash_value s, length s, s)"

definition node_wf :: "byte list set \<Rightarrow> file_lru_t \<Rightarrow> bool" where
  "node_wf N n \<longleftrightarrow> lru_magic0 n = FILE_LRU_MGC0 \<and> lru_magic1 n = FILE_LRU_MGC1 \<and> has_nul (file_name n) \<and> fname n \<in> N \<and>
     file_name_length n = length (fname n) \<and> file_name_hash n = hash_value (fname n) \<and>
     0 < file_size n \<and> file_size n < 2 ^ 31 \<and> length (file_data n) = nat (file_size n)"

text \<open>The names in use: no difference of two hashes overflows.\<close>

definition names_ok :: "byte list set \<Rightarrow> bool" where
  "names_ok N \<longleftrightarrow> (\<forall>s \<in> N. \<forall>t \<in> N. i32 (hash_value s - hash_value t) \<noteq> None) \<and> (\<forall>s \<in> N. length s < LRU_PATH_MAX)"

lemma name_cmp_order:
  assumes "names_ok N" "h b = Some n" "node_wf N n" "has_nul name" "cstr name \<in> N"
  shows "\<exists>d. file_lru_name_cmp (hash_value (cstr name)) (length (cstr name)) name h b = Inr d \<and>
    order_of (name_key (cstr name)) (name_key (fname n)) d"
proof -
  let ?s = "cstr name" and ?t = "fname n"
  have t: "?t \<in> N" "file_name_hash n = hash_value ?t" "file_name_length n = length ?t" "has_nul (file_name n)"
    using assms(3) by (auto simp: node_wf_def)
  have "i32 (hash_value ?s - hash_value ?t) \<noteq> None" using assms(1,5) t(1) unfolding names_ok_def by blast
  then have h: "i32 (hash_value ?s - hash_value ?t) = Some (hash_value ?s - hash_value ?t)" by (simp add: i32_def split: if_splits)
  have "length ?s < LRU_PATH_MAX" "length ?t < LRU_PATH_MAX" using assms(1,5) t(1) by (auto simp: names_ok_def)
  then have l: "i32 (int (length ?s) - int (length ?t)) = Some (int (length ?s) - int (length ?t))"
    by (simp add: i32_def LRU_PATH_MAX_def)
  obtain d where d: "strcmp name (file_name n) = Inr d" "order_of ?s ?t d"
    using strcmp_order [OF assms(4) t(4)] by (auto simp: fname_def)
  have cmp: "file_lru_name_cmp (hash_value ?s) (length ?s) name h b =
      (if hash_value ?s \<noteq> hash_value ?t then Inr (hash_value ?s - hash_value ?t)
       else if length ?s \<noteq> length ?t then Inr (int (length ?s) - int (length ?t)) else Inr d)"
    using assms(2) t(2,3) h l d(1) by (simp add: file_lru_name_cmp_def file_at_def)
  consider (hash) "hash_value ?s \<noteq> hash_value ?t" | (len) "hash_value ?s = hash_value ?t" "length ?s \<noteq> length ?t"
    | (same) "hash_value ?s = hash_value ?t" "length ?s = length ?t" by blast
  then show ?thesis
  proof cases
    case hash
    then show ?thesis unfolding cmp
      by (cases "hash_value ?s < hash_value ?t") (simp_all add: order_of_def name_key_def)
  next
    case len
    then show ?thesis unfolding cmp
      by (cases "length ?s < length ?t") (simp_all add: order_of_def name_key_def)
  next
    case same
    then show ?thesis unfolding cmp using d(2) by (simp add: order_of_def name_key_def)
  qed
qed

text \<open>What a heap says of a file apart from its links.\<close>

definition payload :: "file_lru_t \<Rightarrow> file_lru_t" where
  "payload n = n\<lparr>lru_prev := None, lru_next := None\<rparr>"

definition info :: "lru_heap \<Rightarrow> addr \<Rightarrow> file_lru_t option" where
  "info h a = map_option payload (h a)"

definition info_key :: "lru_heap \<Rightarrow> addr \<Rightarrow> int \<times> nat \<times> byte list" where
  "info_key d a = name_key (fname (the (d a)))"

definition named :: "byte list set \<Rightarrow> lru_heap \<Rightarrow> addr set" where
  "named N d = {a. \<exists>n. d a = Some n \<and> node_wf N n}"

lemma payload_simps [simp]:
  "node_wf N (payload n) = node_wf N n" "fname (payload n) = fname n" "borrow_cnt (payload n) = borrow_cnt n"
  "lru_flags (payload n) = lru_flags n" "file_size (payload n) = file_size n" "file_data (payload n) = file_data n"
  "file_name (payload n) = file_name n"
  by (simp_all add: node_wf_def fname_def payload_def)

interpretation lru: link_fields lru_prev_f lru_next_f payload
  by unfold_locales (simp_all add: lru_prev_f_def lru_next_f_def payload_def)

interpretation lru_find: rb_query "file_lru_name_cmp (hash_value (cstr name)) (length (cstr name)) name h" "info_key (info h)"
  "name_key (cstr name)" "if names_ok N \<and> has_nul name \<and> cstr name \<in> N then named N (info h) else {}" for name h N
proof (rule rb_queryI)
  fix a assume a: "a \<in> (if names_ok N \<and> has_nul name \<and> cstr name \<in> N then named N (info h) else {})"
  then obtain n where "h a = Some n" "node_wf N n" by (auto simp: named_def info_def split: if_splits)
  then show "\<exists>d. file_lru_name_cmp (hash_value (cstr name)) (length (cstr name)) name h a = Inr d \<and>
      order_of (name_key (cstr name)) (info_key (info h) a) d"
    using name_cmp_order [of N h a n name] a by (auto simp: info_key_def info_def split: if_splits)
qed

section \<open>The invariant\<close>

definition tree_of :: "lru_heap \<Rightarrow> addr rb \<Rightarrow> addr list \<Rightarrow> bool" where
  "tree_of d t xs \<longleftrightarrow> (\<exists>m. rb_abs (info_key d) t m \<and> ran m = set xs)"

text \<open>The part of a file that never changes, the part of the state an operation on the lists leaves alone, and the bytes cached.\<close>

definition ident :: "file_lru_t \<Rightarrow> byte list \<times> byte list \<times> int" where
  "ident n = (file_name n, file_data n, file_size n)"

definition ident_of :: "lru_heap \<Rightarrow> addr \<Rightarrow> (byte list \<times> byte list \<times> int) option" where
  "ident_of h a = map_option ident (h a)"

definition stable :: "lru_world \<Rightarrow> lru_world \<Rightarrow> bool" where
  "stable w w' \<longleftrightarrow> (\<forall>a. ident_of (files w') a = None \<or> ident_of (files w') a = ident_of (files w) a)"

definition conf :: "lru_world \<Rightarrow> int \<times> int \<times> byte list \<times> int \<times> path_bloom_filter_t option" where
  "conf w = (lru_size_max w, lru_size_total w, lru_root_path w, lru_root_path_length w, lru_bloom_filter w)"

definition sizes :: "lru_heap \<Rightarrow> addr set \<Rightarrow> int" where
  "sizes h A = (\<Sum>a\<in>A. snd (snd (the (ident_of h a))))"

lemma ident_payload [simp]: "ident (payload n) = ident n"
  by (simp add: ident_def)

lemma ident_info: "ident_of h = (\<lambda>a. map_option ident (info h a))"
  by (simp add: ident_of_def info_def fun_eq_iff option.map_comp comp_def)

lemma stable_refl: "stable w w"
  by (simp add: stable_def)

lemma stable_trans: "stable u v \<Longrightarrow> stable v w \<Longrightarrow> stable u w"
  unfolding stable_def by metis

lemma stable_sizes:
  assumes "stable w w'" "\<And>a. a \<in> A \<Longrightarrow> files w' a \<noteq> None"
  shows "sizes (files w') A = sizes (files w) A"
  unfolding sizes_def
proof (rule sum.cong)
  fix a assume "a \<in> A"
  then have "ident_of (files w') a \<noteq> None" using assms(2) by (simp add: ident_of_def)
  then show "snd (snd (the (ident_of (files w') a))) = snd (snd (the (ident_of (files w) a)))"
    using assms(1) unfolding stable_def by metis
qed simp

text \<open>
  \<open>xs\<close> are the cached files, \<open>ys\<close> the purged ones, \<open>P\<close> those in the hands of a thread, and \<open>out\<close> counts the borrowers.
\<close>

definition lru_facts :: "byte list set \<Rightarrow> lru_heap \<Rightarrow> addr list \<Rightarrow> addr list \<Rightarrow> addr set \<Rightarrow> (addr \<Rightarrow> nat) \<Rightarrow> bool" where
  "lru_facts N d xs ys P out \<longleftrightarrow> dom d = set xs \<union> set ys \<union> P \<and> set xs \<inter> set ys = {} \<and> P \<inter> (set xs \<union> set ys) = {} \<and>
     (\<forall>a n. d a = Some n \<longrightarrow> node_wf N n \<and> borrow_cnt n = int (out a) \<and>
        lru_flags n = (if a \<in> set ys then FILE_LRU_FLAGS_PURGED else 0)) \<and> (\<forall>a. d a = None \<longrightarrow> out a = 0)"

definition lru_shape :: "byte list set \<Rightarrow> lru_world \<Rightarrow> addr list \<Rightarrow> addr list \<Rightarrow> addr set \<Rightarrow> (addr \<Rightarrow> nat) \<Rightarrow> bool" where
  "lru_shape N w xs ys P out \<longleftrightarrow>
     dll lru_prev_f lru_next_f (files w) (file_lru w) xs \<and> dll lru_prev_f lru_next_f (files w) (file_lru_purged w) ys \<and>
     lru_facts N (info (files w)) xs ys P out \<and> tree_of (info (files w)) (file_lru_rb w) xs"

lemma shapeD:
  assumes "lru_shape N w xs ys P out"
  shows "dll lru_prev_f lru_next_f (files w) (file_lru w) xs" "dll lru_prev_f lru_next_f (files w) (file_lru_purged w) ys"
    "lru_facts N (info (files w)) xs ys P out" "tree_of (info (files w)) (file_lru_rb w) xs"
    "distinct xs" "distinct ys"
  using assms by (auto simp: lru_shape_def dll_def)

lemma info_eq: "same_data payload h h' \<Longrightarrow> info h' = info h"
  by (simp add: same_data_def info_def fun_eq_iff)

lemma info_upd: "info (h(a \<mapsto> n)) = (info h)(a \<mapsto> payload n)" "info (h(a := None)) = (info h)(a := None)"
  by (auto simp: info_def fun_eq_iff)

lemma info_SomeD: "info h a = Some n \<Longrightarrow> \<exists>n'. h a = Some n' \<and> n = payload n'"
  by (auto simp: info_def)

lemma info_None [simp]: "info h a = None \<longleftrightarrow> h a = None"
  by (simp add: info_def)

lemma facts_node:
  assumes "lru_facts N (info h) xs ys P out" "a \<in> set xs \<union> set ys \<union> P"
  shows "\<exists>n. h a = Some n \<and> node_wf N n \<and> borrow_cnt n = int (out a) \<and> lru_flags n = (if a \<in> set ys then FILE_LRU_FLAGS_PURGED else 0)"
proof -
  have "a \<in> dom (info h)" using assms by (simp add: lru_facts_def)
  then obtain n where n: "info h a = Some n" by blast
  then obtain n' where "h a = Some n'" "n = payload n'" using info_SomeD by blast
  then show ?thesis using assms(1) n unfolding lru_facts_def by fastforce
qed

lemma tree_ran_named: "lru_facts N d xs ys P out \<Longrightarrow> set xs \<subseteq> named N d"
  unfolding lru_facts_def named_def by (metis (mono_tags, lifting) UnI1 domD mem_Collect_eq subsetI)

lemma facts_disjoint:
  assumes "lru_facts N d xs ys P out"
  shows "a \<in> set xs \<Longrightarrow> a \<notin> set ys" "a \<in> P \<Longrightarrow> a \<notin> set xs" "a \<in> P \<Longrightarrow> a \<notin> set ys" "a \<in> set ys \<Longrightarrow> a \<notin> set xs"
  using assms unfolding lru_facts_def by blast+

lemma rb_size_sizes: "tree_of d t xs \<Longrightarrow> distinct xs \<Longrightarrow> rb_size t = length xs"
proof -
  assume t: "tree_of d t xs" and xs: "distinct xs"
  obtain m where m: "rb_abs (info_key d) t m" "ran m = set xs" using t by (auto simp: tree_of_def)
  then have "distinct (inorder t)" "set (inorder t) = set xs"
    using sorted_distinct [of "info_key d"] rb_abs_ran [OF m(1)] by (simp_all add: rb_abs_def)
  then show ?thesis using xs by (metis distinct_card rb_size_inorder)
qed

section \<open>Leaving the cache\<close>

lemma ran_without:
  assumes "rb_abs key t m" "m k = Some p"
  shows "ran (m(k := None)) = ran m - {p}"
proof (intro equalityI subsetI)
  have key: "m l = Some a \<Longrightarrow> key a = l" for l a using assms(1) unfolding rb_abs_def by blast
  fix a assume "a \<in> ran (m(k := None))"
  then obtain l where "(m(k := None)) l = Some a" unfolding ran_def by blast
  then have l: "l \<noteq> k" "m l = Some a" by (auto split: if_splits)
  then have "a \<noteq> p" using key [OF l(2)] key [OF assms(2)] by blast
  then show "a \<in> ran m - {p}" using l(2) by (simp add: ranI)
next
  fix a assume a: "a \<in> ran m - {p}"
  then obtain l where l: "m l = Some a" unfolding ran_def by blast
  then have "(m(k := None)) l = Some a" using a assms(2) by (cases "l = k") auto
  then show "a \<in> ran (m(k := None))" by (rule ranI)
qed

lemma tree_remove:
  assumes "tree_of d t xs" "p \<in> set xs"
  shows "\<exists>u. RB_REMOVE p t = Some u \<and> tree_of d u (removeAll p xs)"
proof -
  obtain m where m: "rb_abs (info_key d) t m" "ran m = set xs" using assms(1) by (auto simp: tree_of_def)
  then have "p \<in> ran m" using assms(2) by simp
  then obtain k where k: "m k = Some p" unfolding ran_def by blast
  from remove_abs [OF m(1) k] obtain u where u: "RB_REMOVE p t = Some u" "rb_abs (info_key d) u (m(k := None))" by blast
  have "ran (m(k := None)) = set (removeAll p xs)" using ran_without [OF m(1) k] m(2) by simp
  then show ?thesis using u unfolding tree_of_def by blast
qed

lemma leave_shape:
  assumes "lru_shape N w xs ys P out" "p \<in> set xs"
  shows "\<exists>w'. lru_leave p w = Inr w' \<and> lru_shape N w' (removeAll p xs) ys (insert p P) out \<and> info (files w') = info (files w) \<and> conf w' = conf w"
proof -
  note sh = shapeD [OF assms(1)]
  obtain l h where l: "DOUBLE_LL_LEFT lru_prev_f lru_next_f p (file_lru w) (files w) = Inr (l, h)"
      "dll lru_prev_f lru_next_f h l (removeAll p xs)" "touches payload (set xs) (files w) h"
    using lru.left [OF sh(1) assms(2)] by blast
  have i: "info h = info (files w)" and fr: "\<And>b. b \<notin> set xs \<Longrightarrow> h b = files w b"
    using l(3) info_eq by (auto simp: touches_def)
  obtain t where t: "RB_REMOVE p (file_lru_rb w) = Some t" "tree_of (info (files w)) t (removeAll p xs)"
    using tree_remove [OF sh(4) assms(2)] by blast
  have "\<forall>x \<in> set ys. h x = files w x" using fr facts_disjoint(4) [OF sh(3)] by blast
  from dll_frame [OF this] have "dll lru_prev_f lru_next_f h (file_lru_purged w) ys" using sh(2) by blast
  moreover have "lru_facts N (info (files w)) (removeAll p xs) ys (insert p P) out"
    using sh(3) assms(2) unfolding lru_facts_def by auto
  ultimately show ?thesis using l t i by (simp add: lru_leave_def lru_shape_def conf_def)
qed

lemma upd_shape:
  assumes "lru_shape N w xs ys P out" "files w p = Some n" "n' = f n" "lru_prev n' = lru_prev n" "lru_next n' = lru_next n"
    and "lru_facts N ((info (files w))(p \<mapsto> payload n')) xs ys P out'" "fname n' = fname n"
  shows "upd_file p f w = Inr (w\<lparr>files := (files w)(p \<mapsto> n')\<rparr>)" "lru_shape N (w\<lparr>files := (files w)(p \<mapsto> n')\<rparr>) xs ys P out'"
proof -
  show "upd_file p f w = Inr (w\<lparr>files := (files w)(p \<mapsto> n')\<rparr>)" using assms(2,3) by (simp add: upd_file_def file_at_def)
  note sh = shapeD [OF assms(1)]
  have "map_option (\<lambda>n. (get lru_prev_f n, get lru_next_f n)) (((files w)(p \<mapsto> n')) x) =
      map_option (\<lambda>n. (get lru_prev_f n, get lru_next_f n)) (files w x)" for x
    using assms(2,4,5) by (simp add: lru_prev_f_def lru_next_f_def)
  note links = dll_same_links [OF this]
  have "info_key (info ((files w)(p \<mapsto> n'))) = info_key (info (files w))"
    using assms(2,7) by (auto simp: info_key_def info_def fun_eq_iff)
  then have "tree_of (info ((files w)(p \<mapsto> n'))) (file_lru_rb w) xs" using sh(4) by (simp add: tree_of_def)
  then show "lru_shape N (w\<lparr>files := (files w)(p \<mapsto> n')\<rparr>) xs ys P out'"
    using sh(1,2) assms(6) by (simp add: lru_shape_def links info_upd)
qed

lemma discard_shape:
  assumes "lru_shape N w xs ys P out" "p \<in> P"
  shows "\<exists>w'. lru_discard p w = Inr w' \<and>
    lru_shape N w' xs (if out p > 0 then p # ys else ys) (P - {p}) out \<and>
    (\<forall>b. b \<noteq> p \<longrightarrow> info (files w') b = info (files w) b) \<and> stable w w' \<and> conf w' = conf w"
proof -
  note sh = shapeD [OF assms(1)]
  have dis: "p \<notin> set xs" "p \<notin> set ys" using sh(3) assms(2) by (auto simp: lru_facts_def)
  obtain n where n: "files w p = Some n" "node_wf N n" "borrow_cnt n = int (out p)" "lru_flags n = 0"
    using facts_node [OF sh(3), of p] assms(2) dis by auto
  show ?thesis
  proof (cases "out p > 0")
    case False
    have fr: "dll lru_prev_f lru_next_f ((files w)(p := None)) l zs = dll lru_prev_f lru_next_f (files w) l zs" if "p \<notin> set zs" for l zs
      using that by (intro dll_frame) auto
    have "lru_facts N (info ((files w)(p := None))) xs ys (P - {p}) out"
      using sh(3) dis assms(2) False unfolding lru_facts_def info_upd by auto
    moreover have "tree_of (info ((files w)(p := None))) (file_lru_rb w) xs"
    proof -
      obtain m where m: "rb_abs (info_key (info (files w))) (file_lru_rb w) m" "ran m = set xs" using sh(4) by (auto simp: tree_of_def)
      have "rb_abs (info_key (info ((files w)(p := None)))) (file_lru_rb w) m"
        using m(2) dis(1) by (intro rb_abs_key [OF _ m(1)]) (auto simp: info_key_def info_def)
      then show ?thesis using m(2) by (auto simp: tree_of_def)
    qed
    ultimately have "lru_shape N (w\<lparr>files := (files w)(p := None)\<rparr>) xs ys (P - {p}) out"
      using sh(1,2) fr [OF dis(1)] fr [OF dis(2)] by (simp add: lru_shape_def)
    then show ?thesis using False n by (simp add: lru_discard_def file_at_def info_upd conf_def stable_def ident_of_def)
  next
    case True
    let ?n = "n\<lparr>lru_flags := lru_flags n OR FILE_LRU_FLAGS_PURGED\<rparr>"
    have fl: "lru_flags ?n = FILE_LRU_FLAGS_PURGED" using n(4) by simp
    let ?h = "(files w)(p \<mapsto> ?n)"
    have links: "dll lru_prev_f lru_next_f ?h l zs = dll lru_prev_f lru_next_f (files w) l zs" for l zs
      using n(1) by (intro dll_same_links) (simp add: lru_prev_f_def lru_next_f_def)
    obtain l h where l: "DOUBLE_LL_JOIN_HEAD lru_prev_f lru_next_f p (file_lru_purged w) ?h = Inr (l, h)"
        "dll lru_prev_f lru_next_f h l (p # ys)" "touches payload (insert p (set ys)) ?h h"
      using lru.join_head [of ?h "file_lru_purged w" ys p] sh(2) links dis(2) by auto
    have i: "info h = (info (files w))(p \<mapsto> payload ?n)" and fr: "\<And>b. b \<notin> insert p (set ys) \<Longrightarrow> h b = ?h b"
      using l(3) info_eq [of ?h h] info_upd by (auto simp: touches_def)
    have "\<forall>x \<in> set xs. h x = ?h x" using fr facts_disjoint(1) [OF sh(3)] dis(1) by (metis insert_iff)
    from dll_frame [OF this] have "dll lru_prev_f lru_next_f h (file_lru w) xs" using sh(1) links by blast
    moreover have "lru_facts N (info h) xs (p # ys) (P - {p}) out"
      unfolding i using sh(3) dis assms(2) n(2,3) fl unfolding lru_facts_def by (auto simp: node_wf_def fname_def payload_def)
    moreover have "tree_of (info h) (file_lru_rb w) xs"
    proof -
      obtain m where m: "rb_abs (info_key (info (files w))) (file_lru_rb w) m" "ran m = set xs" using sh(4) by (auto simp: tree_of_def)
      have "rb_abs (info_key (info h)) (file_lru_rb w) m"
        using m(2) dis(1) i by (intro rb_abs_key [OF _ m(1)]) (auto simp: info_key_def)
      then show ?thesis using m(2) by (auto simp: tree_of_def)
    qed
    ultimately have "lru_shape N (w\<lparr>file_lru_purged := l, files := h\<rparr>) xs (p # ys) (P - {p}) out"
      using l(2) by (simp add: lru_shape_def)
    moreover have "ident_of h = ident_of (files w)"
      using i n(1) unfolding ident_info by (auto simp: ident_def payload_def info_def fun_eq_iff)
    ultimately show ?thesis using True n l(1) i
      by (simp add: lru_discard_def file_at_def upd_file_def stable_def conf_def)
  qed
qed

text \<open>A file leaves the cache for good or for the list of purged files, whatever size is recorded in between.\<close>

lemma shape_total [simp]: "lru_shape N (w\<lparr>lru_size_total := t\<rparr>) xs ys P out = lru_shape N w xs ys P out"
  by (simp add: lru_shape_def)

lemma stable_total [simp]: "stable (w\<lparr>lru_size_total := t\<rparr>) w' = stable w w'"
  by (simp add: stable_def)

lemma drop_shape:
  assumes "lru_shape N w xs ys P out" "p \<in> set xs"
  shows "\<exists>v. lru_leave p w = Inr v \<and> conf v = conf w \<and> info (files v) = info (files w) \<and>
    (\<forall>t. \<exists>w'. lru_discard p (v\<lparr>lru_size_total := t\<rparr>) = Inr w' \<and>
       lru_shape N w' (removeAll p xs) (if out p > 0 then p # ys else ys) P out \<and> stable w w' \<and>
       conf w' = conf (v\<lparr>lru_size_total := t\<rparr>))"
proof -
  obtain v where v: "lru_leave p w = Inr v" "lru_shape N v (removeAll p xs) ys (insert p P) out" "info (files v) = info (files w)" "conf v = conf w"
    using leave_shape [OF assms] by blast
  have "p \<notin> P" using facts_disjoint(2) [OF shapeD(3) [OF assms(1)]] assms(2) by blast
  then have P: "insert p P - {p} = P" by simp
  have "ident_of (files v) = ident_of (files w)" using v(3) by (simp add: ident_info)
  then have st: "stable w v" by (simp add: stable_def)
  have "\<exists>w'. lru_discard p (v\<lparr>lru_size_total := t\<rparr>) = Inr w' \<and>
       lru_shape N w' (removeAll p xs) (if out p > 0 then p # ys else ys) P out \<and> stable w w' \<and> conf w' = conf (v\<lparr>lru_size_total := t\<rparr>)" for t
    using discard_shape [of N "v\<lparr>lru_size_total := t\<rparr>" "removeAll p xs" ys "insert p P" out p] v(2) stable_trans [OF st]
    unfolding P by auto
  then show ?thesis using v by blast
qed

lemma sizes_remove:
  assumes "lru_shape N w xs ys P out" "p \<in> set xs" "files w p = Some n"
  shows "sizes (files w) (set (removeAll p xs)) = sizes (files w) (set xs) - file_size n"
  using assms(2,3) by (simp add: sizes_def set_removeAll sum_diff1 ident_of_def ident_def)

lemma shape_alloc: "lru_shape N w xs ys P out \<Longrightarrow> a \<in> set xs \<union> set ys \<union> P \<Longrightarrow> files w a \<noteq> None"
  using facts_node [OF shapeD(3)] by blast

lemma sizes_nonneg: "lru_shape N w xs ys P out \<Longrightarrow> A \<subseteq> set xs \<Longrightarrow> 0 \<le> sizes (files w) A"
  unfolding sizes_def
proof (rule sum_nonneg)
  fix a assume w: "lru_shape N w xs ys P out" "A \<subseteq> set xs" and "a \<in> A"
  then obtain n where "files w a = Some n" "node_wf N n" using facts_node [OF shapeD(3) [OF w(1)], of a] by blast
  then show "0 \<le> snd (snd (the (ident_of (files w) a)))" by (simp add: ident_of_def ident_def node_wf_def)
qed

section \<open>Purging\<close>

definition purges :: "byte list set \<Rightarrow> addr set \<Rightarrow> (addr \<Rightarrow> nat) \<Rightarrow> lru_world \<Rightarrow> addr list \<Rightarrow> addr list \<Rightarrow> lru_world \<Rightarrow> addr list \<Rightarrow> addr list \<Rightarrow> bool" where
  "purges N P out w xs ys w' xs' ys' \<longleftrightarrow> lru_shape N w' xs' ys' P out \<and> set xs' \<subseteq> set xs \<and>
     (\<forall>a \<in> set ys' - set ys. out a > 0) \<and> stable w w' \<and> lru_size_max w' = lru_size_max w \<and>
     lru_root_path w' = lru_root_path w \<and> lru_bloom_filter w' = lru_bloom_filter w"

lemma purges_trans:
  "purges N P out u xs ys v xs' ys' \<Longrightarrow> purges N P out v xs' ys' w zs us \<Longrightarrow> purges N P out u xs ys w zs us"
  unfolding purges_def using stable_trans by (metis Diff_iff order_trans)

lemma purge_one_step:
  assumes "lru_shape N w xs ys P out" "xs \<noteq> []"
  shows "\<exists>w' xs' ys'. purge_one w = Inr (Some w') \<and> purges N P out w xs ys w' xs' ys' \<and> length xs' < length xs \<and>
    lru_size_total w' = lru_size_total w"
proof -
  obtain p xs' where xs: "xs = p # xs'" using assms(2) by (cases xs) auto
  have p: "head (file_lru w) = Some p" using shapeD(1) [OF assms(1)] xs by (simp add: dll_def ends_def)
  from drop_shape [OF assms(1), of p] xs
  obtain v where v: "lru_leave p w = Inr v" "conf v = conf w"
      "\<And>t. \<exists>w'. lru_discard p (v\<lparr>lru_size_total := t\<rparr>) = Inr w' \<and>
         lru_shape N w' (removeAll p xs) (if out p > 0 then p # ys else ys) P out \<and> stable w w' \<and> conf w' = conf (v\<lparr>lru_size_total := t\<rparr>)"
    by auto
  from v(3) [of "lru_size_total v"] obtain w' where w': "lru_discard p v = Inr w'"
      "lru_shape N w' (removeAll p xs) (if out p > 0 then p # ys else ys) P out" "stable w w'" "conf w' = conf v" by auto
  have "length (removeAll p xs) < length xs" using xs length_removeAll_less [of p xs] by simp
  moreover have "purges N P out w xs ys w' (removeAll p xs) (if out p > 0 then p # ys else ys)"
    using w' v(2) by (auto simp: purges_def conf_def)
  ultimately show ?thesis using p v(1,2) w'(1,4) by (auto simp: purge_one_def conf_def)
qed

lemma purge_all_shape:
  "lru_shape N w xs ys P out \<Longrightarrow> length xs < fuel \<Longrightarrow>
   \<exists>w' ys'. purge_all_loop fuel w = Inr w' \<and> purges N P out w xs ys w' [] ys' \<and> lru_size_total w' = lru_size_total w"
proof (induction fuel arbitrary: w xs ys)
  case (Suc fuel)
  show ?case
  proof (cases "xs = []")
    case True
    then have "head (file_lru w) = None" using shapeD(1) [OF Suc.prems(1)] by (simp add: dll_def ends_def)
    then show ?thesis using Suc.prems(1) True by (auto simp: purge_one_def purges_def stable_refl)
  next
    case False
    obtain v xs' ys' where v: "purge_one w = Inr (Some v)" "purges N P out w xs ys v xs' ys'" "length xs' < length xs"
        "lru_size_total v = lru_size_total w"
      using purge_one_step [OF Suc.prems(1) False] by blast
    then have "lru_shape N v xs' ys' P out" "length xs' < fuel" using Suc.prems(2) by (auto simp: purges_def)
    from Suc.IH [OF this] obtain w' us where w': "purge_all_loop fuel v = Inr w'" "purges N P out v xs' ys' w' [] us" "lru_size_total w' = lru_size_total v"
      by blast
    then show ?thesis using v purges_trans [OF v(2) w'(2)] by auto
  qed
qed simp

lemma purge_loop_shape:
  assumes "lru_shape N w xs ys P out" "sizes (files w) (set xs) \<le> lru_size_total w" "lru_size_total w < 2 ^ 31"
    and "0 < lru_size_max w" "lru_size_max w < 2 ^ 31" "length xs < fuel"
  shows "\<exists>w' xs' ys'. file_lru_purge_loop fuel sz w = Inr w' \<and> purges N P out w xs ys w' xs' ys' \<and>
    sizes (files w') (set xs') \<le> lru_size_total w' \<and> lru_size_total w' \<le> lru_size_total w \<and>
    (xs' = [] \<or> lru_size_max w' - lru_size_total w' \<ge> sz)"
  using assms
proof (induction fuel arbitrary: w xs ys)
  case (Suc fuel)
  have tot: "0 \<le> lru_size_total w" using sizes_nonneg [OF Suc.prems(1) subset_refl] Suc.prems(2) by linarith
  then have room: "i32 (lru_size_max w - lru_size_total w) = Some (lru_size_max w - lru_size_total w)"
    using Suc.prems(3-5) by (simp add: i32_def)
  show ?case
  proof (cases "lru_size_max w - lru_size_total w < sz \<and> xs \<noteq> []")
    case False
    have "xs = [] \<Longrightarrow> tail (file_lru w) = None" using shapeD(1) [OF Suc.prems(1)] by (simp add: dll_def ends_def)
    then have "file_lru_purge_loop (Suc fuel) sz w = Inr w" using False room by auto
    moreover have "purges N P out w xs ys w xs ys" using Suc.prems(1) by (simp add: purges_def stable_refl)
    moreover have "xs = [] \<or> lru_size_max w - lru_size_total w \<ge> sz" using False by auto
    ultimately show ?thesis using Suc.prems(2) by blast
  next
    case True
    let ?p = "last xs"
    have p: "tail (file_lru w) = Some ?p" "?p \<in> set xs" using shapeD(1) [OF Suc.prems(1)] True by (auto simp: dll_def ends_def final_def)
    obtain n where n: "files w ?p = Some n" "node_wf N n" using facts_node [OF shapeD(3) [OF Suc.prems(1)], of ?p] p(2) by blast
    from drop_shape [OF Suc.prems(1) p(2)]
    obtain v where v: "lru_leave ?p w = Inr v" "conf v = conf w" "info (files v) = info (files w)"
        "\<And>t. \<exists>w'. lru_discard ?p (v\<lparr>lru_size_total := t\<rparr>) = Inr w' \<and>
           lru_shape N w' (removeAll ?p xs) (if out ?p > 0 then ?p # ys else ys) P out \<and> stable w w' \<and> conf w' = conf (v\<lparr>lru_size_total := t\<rparr>)"
      by blast
    define t where "t = lru_size_total w - file_size n"
    obtain nv where nv: "files v ?p = Some nv" "file_size nv = file_size n"
      using v(3) n(1) info_SomeD [of "files v" ?p "payload n"] by (auto simp: info_def dest!: fun_cong [of _ _ ?p]) (metis payload_simps(5))
    have sz: "sizes (files w) (set (removeAll ?p xs)) = sizes (files w) (set xs) - file_size n" using sizes_remove [OF Suc.prems(1) p(2) n(1)] .
    then have t: "sizes (files w) (set (removeAll ?p xs)) \<le> t" "t \<le> lru_size_total w" "0 \<le> t" "i32 (lru_size_total v - file_size nv) = Some t"
      using Suc.prems(2,3) n(2) nv(2) v(2) sizes_nonneg [OF Suc.prems(1), of "set (removeAll ?p xs)"]
      by (auto simp: t_def node_wf_def i32_def conf_def)
    from v(4) [of t] obtain u where u: "lru_discard ?p (v\<lparr>lru_size_total := t\<rparr>) = Inr u"
        "lru_shape N u (removeAll ?p xs) (if out ?p > 0 then ?p # ys else ys) P out" "stable w u" "conf u = conf (v\<lparr>lru_size_total := t\<rparr>)" by blast
    have cu: "lru_size_total u = t" "lru_size_max u = lru_size_max w" "lru_root_path u = lru_root_path w" "lru_bloom_filter u = lru_bloom_filter w"
      using u(4) v(2) by (auto simp: conf_def)
    have "sizes (files u) (set (removeAll ?p xs)) = sizes (files w) (set (removeAll ?p xs))"
      using shape_alloc [OF u(2)] by (intro stable_sizes [OF u(3)]) blast
    moreover have "length (removeAll ?p xs) < fuel" using Suc.prems(6) length_removeAll_less [OF p(2)] by simp
    ultimately obtain w' xs' ys' where w': "file_lru_purge_loop fuel sz u = Inr w'"
        "purges N P out u (removeAll ?p xs) (if out ?p > 0 then ?p # ys else ys) w' xs' ys'"
        "sizes (files w') (set xs') \<le> lru_size_total w'" "lru_size_total w' \<le> lru_size_total u"
        "xs' = [] \<or> lru_size_max w' - lru_size_total w' \<ge> sz"
      using Suc.IH [OF u(2)] t(1,2) cu Suc.prems(3-5) by force
    have "purges N P out w xs ys u (removeAll ?p xs) (if out ?p > 0 then ?p # ys else ys)"
      using u cu by (auto simp: purges_def)
    from purges_trans [OF this w'(2)]
    have "purges N P out w xs ys w' xs' ys'" .
    moreover have "file_lru_purge_loop (Suc fuel) sz w = Inr w'"
      using True room p(1) v(1) nv(1) t(4) u(1) w'(1) by (simp add: file_at_def)
    ultimately show ?thesis using w'(3-5) t(2) cu(1) by force
  qed
qed simp

section \<open>Borrowing\<close>

lemma facts_upd:
  assumes "lru_facts N d xs ys P out" "d a = Some n" "node_wf N n'" "borrow_cnt n' = int c" "lru_flags n' = lru_flags n"
  shows "lru_facts N (d(a \<mapsto> n')) xs ys P (out(a := c))"
  unfolding lru_facts_def
proof (intro conjI allI impI)
  show "dom (d(a \<mapsto> n')) = set xs \<union> set ys \<union> P" using assms(1,2) by (auto simp: lru_facts_def)
  fix b m assume m: "(d(a \<mapsto> n')) b = Some m"
  show "node_wf N m" "borrow_cnt m = int ((out(a := c)) b)" "lru_flags m = (if b \<in> set ys then FILE_LRU_FLAGS_PURGED else 0)"
    using m assms unfolding lru_facts_def by (auto split: if_splits)
qed (use assms in \<open>auto simp: lru_facts_def split: if_splits\<close>)

lemma count_shape:
  assumes "lru_shape N w xs ys P out" "files w a = Some n"
  shows "upd_file a (\<lambda>n. n\<lparr>borrow_cnt := int c\<rparr>) w = Inr (w\<lparr>files := (files w)(a \<mapsto> n\<lparr>borrow_cnt := int c\<rparr>)\<rparr>)"
    "lru_shape N (w\<lparr>files := (files w)(a \<mapsto> n\<lparr>borrow_cnt := int c\<rparr>)\<rparr>) xs ys P (out(a := c))"
    "stable w (w\<lparr>files := (files w)(a \<mapsto> n\<lparr>borrow_cnt := int c\<rparr>)\<rparr>)"
proof -
  let ?n = "n\<lparr>borrow_cnt := int c\<rparr>"
  have i: "info (files w) a = Some (payload n)" using assms(2) by (simp add: info_def)
  have f: "lru_facts N (info (files w)) xs ys P out" using shapeD(3) [OF assms(1)] .
  have "node_wf N (payload n)" using f i unfolding lru_facts_def by blast
  then have "node_wf N (payload ?n)" unfolding payload_simps by (simp add: node_wf_def fname_def)
  then have "lru_facts N ((info (files w))(a \<mapsto> payload ?n)) xs ys P (out(a := c))"
    using facts_upd [OF f i] by simp
  then show "upd_file a (\<lambda>n. n\<lparr>borrow_cnt := int c\<rparr>) w = Inr (w\<lparr>files := (files w)(a \<mapsto> ?n)\<rparr>)"
    "lru_shape N (w\<lparr>files := (files w)(a \<mapsto> ?n)\<rparr>) xs ys P (out(a := c))"
    using upd_shape [OF assms(1,2), of ?n "\<lambda>n. n\<lparr>borrow_cnt := int c\<rparr>" "out(a := c)"] by (simp_all add: fname_def)
  show "stable w (w\<lparr>files := (files w)(a \<mapsto> ?n)\<rparr>)"
    using assms(2) by (simp add: stable_def ident_of_def ident_def)
qed

lemma add_borrow_shape:
  assumes "lru_shape N w xs ys P out" "a \<in> set xs \<union> set ys \<union> P" "int (out a) + 1 < 2 ^ 31"
  shows "\<exists>w'. add_borrow a w = Inr w' \<and> lru_shape N w' xs ys P (out(a := out a + 1)) \<and> stable w w' \<and> conf w' = conf w \<and>
    file_lru w' = file_lru w \<and> file_lru_rb w' = file_lru_rb w \<and> dom (files w') = dom (files w)"
proof -
  obtain n where n: "files w a = Some n" "borrow_cnt n = int (out a)" using facts_node [OF shapeD(3) [OF assms(1)] assms(2)] by blast
  have i: "i32 (borrow_cnt n + 1) = Some (int (out a + 1))" using n(2) assms(3) by (simp add: i32_def)
  note c = count_shape [OF assms(1) n(1), of "out a + 1"]
  have "add_borrow a w = upd_file a (\<lambda>n. n\<lparr>borrow_cnt := int (out a + 1)\<rparr>) w"
    using n(1) i by (simp add: add_borrow_def file_at_def)
  then show ?thesis using c n(1) by (auto simp: conf_def simp del: of_nat_add)
qed

lemma name_key_eq [simp]: "name_key s = name_key t \<longleftrightarrow> s = t"
  by (auto simp: name_key_def)

lemma find_file:
  assumes "lru_shape N w xs ys P out" "names_ok N" "has_nul name" "cstr name \<in> N"
  shows "\<exists>x. RB_FIND (file_lru_name_cmp (hash_value (cstr name)) (length (cstr name)) name (files w)) (file_lru_rb w) = Inr x \<and>
    (\<forall>a. x = Some a \<longleftrightarrow> a \<in> set xs \<and> fname (the (files w a)) = cstr name)"
proof -
  obtain m where m: "rb_abs (info_key (info (files w))) (file_lru_rb w) m" "ran m = set xs"
    using shapeD(4) [OF assms(1)] by (auto simp: tree_of_def)
  have "ran m \<subseteq> named N (info (files w))" using tree_ran_named [OF shapeD(3) [OF assms(1)]] m(2) by simp
  then have f: "RB_FIND (file_lru_name_cmp (hash_value (cstr name)) (length (cstr name)) name (files w)) (file_lru_rb w) = Inr (m (name_key (cstr name)))"
    using lru_find.find_abs [OF m(1), of N name] assms(2-4) by simp
  have "m (name_key (cstr name)) = Some a \<longleftrightarrow> a \<in> set xs \<and> fname (the (files w a)) = cstr name" for a
  proof -
    have "m (name_key (cstr name)) = Some a \<longleftrightarrow> a \<in> set (inorder (file_lru_rb w)) \<and> info_key (info (files w)) a = name_key (cstr name)"
      using m(1) unfolding rb_abs_def by blast
    also have "\<dots> \<longleftrightarrow> a \<in> set xs \<and> fname (the (files w a)) = cstr name"
      using rb_abs_ran [OF m(1)] m(2) shape_alloc [OF assms(1), of a] by (auto simp: info_key_def info_def)
    finally show ?thesis .
  qed
  then show ?thesis using f by blast
qed

lemma file_cmp_node:
  assumes "files w p = Some n" "node_wf N n"
  shows "file_cmp p (files w) = file_lru_name_cmp (hash_value (cstr (file_name n))) (length (cstr (file_name n))) (file_name n) (files w)"
  using assms by (auto simp: file_cmp_def file_at_def node_wf_def fname_def)

lemma join_shape:
  assumes "lru_shape N w xs ys P out" "names_ok N" "p \<in> P" "files w p = Some n"
    and "\<And>a. a \<in> set xs \<Longrightarrow> fname (the (files w a)) \<noteq> fname n"
  shows "\<exists>t l h. RB_INSERT (file_cmp p (files w)) p (file_lru_rb w) = Inr (None, t) \<and>
    DOUBLE_LL_JOIN_HEAD lru_prev_f lru_next_f p (file_lru w) (files w) = Inr (l, h) \<and>
    lru_shape N (w\<lparr>file_lru_rb := t, file_lru := l, files := h\<rparr>) (p # xs) ys (P - {p}) out \<and> info h = info (files w)"
proof -
  note sh = shapeD [OF assms(1)]
  have p: "p \<notin> set xs" "p \<notin> set ys" using facts_disjoint(2,3) [OF sh(3) assms(3)] by blast+
  have wf: "node_wf N n" using facts_node [OF sh(3), of p] assms(3,4) by auto
  obtain m where m: "rb_abs (info_key (info (files w))) (file_lru_rb w) m" "ran m = set xs" using sh(4) by (auto simp: tree_of_def)
  let ?k = "name_key (fname n)"
  have key: "info_key (info (files w)) p = ?k" using assms(4) by (simp add: info_key_def info_def)
  have "m ?k \<noteq> Some a" for a
  proof
    assume "m ?k = Some a"
    then have "a \<in> ran m" "info_key (info (files w)) a = ?k" using m(1) unfolding rb_abs_def by (blast intro: ranI)+
    then show False using assms(5) [of a] m(2) shape_alloc [OF assms(1), of a] by (auto simp: info_key_def info_def)
  qed
  then have none: "m ?k = None" by (cases "m ?k") auto
  have ran: "ran m \<subseteq> named N (info (files w))" using tree_ran_named [OF sh(3)] m(2) by simp
  have nm: "has_nul (file_name n)" "cstr (file_name n) \<in> N" using wf by (auto simp: node_wf_def fname_def)
  have "ran m \<subseteq> (if names_ok N \<and> has_nul (file_name n) \<and> cstr (file_name n) \<in> N then named N (info (files w)) else {})"
    using ran nm assms(2) by simp
  from lru_find.insert_abs [OF m(1) this, of p]
  obtain t where t: "RB_INSERT (file_cmp p (files w)) p (file_lru_rb w) = Inr (None, t)"
      "rb_abs (info_key (info (files w))) t (m(?k \<mapsto> p))"
    using key none unfolding file_cmp_node [OF assms(4) wf] by (auto simp: fname_def)
  have "ran (m(?k \<mapsto> p)) = set (p # xs)" using none m(2) by simp
  then have tr: "tree_of (info (files w)) t (p # xs)" using t(2) unfolding tree_of_def by blast
  obtain l h where l: "DOUBLE_LL_JOIN_HEAD lru_prev_f lru_next_f p (file_lru w) (files w) = Inr (l, h)"
      "dll lru_prev_f lru_next_f h l (p # xs)" "touches payload (insert p (set xs)) (files w) h"
    using lru.join_head [OF sh(1) p(1)] assms(4) by auto
  have i: "info h = info (files w)" and fr: "\<And>b. b \<notin> insert p (set xs) \<Longrightarrow> h b = files w b"
    using l(3) info_eq by (auto simp: touches_def)
  have "\<forall>x \<in> set ys. h x = files w x" using fr facts_disjoint(4) [OF sh(3)] p(2) by (metis insert_iff)
  from dll_frame [OF this] have "dll lru_prev_f lru_next_f h (file_lru_purged w) ys" using sh(2) by blast
  moreover have "lru_facts N (info (files w)) (p # xs) ys (P - {p}) out"
    using sh(3) assms(3) p unfolding lru_facts_def by auto
  ultimately show ?thesis using t(1) l(1,2) i tr by (simp add: lru_shape_def)
qed

lemma front_shape:
  assumes "lru_shape N w xs ys P out" "p \<in> set xs"
  shows "\<exists>l h l' h'. DOUBLE_LL_LEFT lru_prev_f lru_next_f p (file_lru w) (files w) = Inr (l, h) \<and>
    DOUBLE_LL_JOIN_HEAD lru_prev_f lru_next_f p l h = Inr (l', h') \<and>
    lru_shape N (w\<lparr>file_lru := l', files := h'\<rparr>) (p # removeAll p xs) ys P out \<and> info h' = info (files w)"
proof -
  note sh = shapeD [OF assms(1)]
  obtain l h where l: "DOUBLE_LL_LEFT lru_prev_f lru_next_f p (file_lru w) (files w) = Inr (l, h)"
      "dll lru_prev_f lru_next_f h l (removeAll p xs)" "touches payload (set xs) (files w) h"
    using lru.left [OF sh(1) assms(2)] by blast
  have i: "info h = info (files w)" and fr: "\<And>b. b \<notin> set xs \<Longrightarrow> h b = files w b" using l(3) info_eq by (auto simp: touches_def)
  have "h p \<noteq> None" using i shape_alloc [OF assms(1), of p] assms(2) info_None by (metis UnCI)
  then obtain l' h' where l': "DOUBLE_LL_JOIN_HEAD lru_prev_f lru_next_f p l h = Inr (l', h')"
      "dll lru_prev_f lru_next_f h' l' (p # removeAll p xs)" "touches payload (insert p (set (removeAll p xs))) h h'"
    using lru.join_head [OF l(2), of p] by auto
  have i': "info h' = info (files w)" using l'(3) info_eq [of h h'] i by (simp add: touches_def)
  have fr': "h' b = files w b" if "b \<notin> set xs" for b
  proof -
    have "b \<notin> insert p (set (removeAll p xs))" using that assms(2) by auto
    then have "h' b = h b" using l'(3) unfolding touches_def by blast
    then show ?thesis using fr [OF that] by simp
  qed
  have "\<forall>x \<in> set ys. h' x = files w x" using fr' facts_disjoint(4) [OF sh(3)] by blast
  from dll_frame [OF this] have "dll lru_prev_f lru_next_f h' (file_lru_purged w) ys" using sh(2) by blast
  moreover have set: "set (p # removeAll p xs) = set xs" using assms(2) by auto
  then have "lru_facts N (info (files w)) (p # removeAll p xs) ys P out" "tree_of (info (files w)) (file_lru_rb w) (p # removeAll p xs)"
    using sh(3,4) unfolding lru_facts_def tree_of_def by simp_all
  ultimately show ?thesis using l l' i' by (simp add: lru_shape_def)
qed

lemma free_shape:
  assumes "lru_shape N w xs ys P out" "p \<in> P" "out p = 0"
  shows "lru_shape N (w\<lparr>files := (files w)(p := None)\<rparr>) xs ys (P - {p}) out" "stable w (w\<lparr>files := (files w)(p := None)\<rparr>)"
proof -
  obtain n where "files w p = Some n" "borrow_cnt n = 0" using facts_node [OF shapeD(3) [OF assms(1)], of p] assms(2,3) by auto
  then have "lru_discard p w = Inr (w\<lparr>files := (files w)(p := None)\<rparr>)" by (simp add: lru_discard_def file_at_def)
  then show "lru_shape N (w\<lparr>files := (files w)(p := None)\<rparr>) xs ys (P - {p}) out" "stable w (w\<lparr>files := (files w)(p := None)\<rparr>)"
    using discard_shape [OF assms(1,2)] assms(3) by auto
qed

end
