(* ===== verification/Esq_FileLruReach.thy ===== *)
theory Esq_FileLruReach
  imports Esq_FileLruInv
begin

text \<open>
  The file cache as a system of interleaved operations: the critical sections of borrowing, the reading of files, returns,
  passes of a purge, set-up and changes of the filter, by any number of threads and in any order.
\<close>

section \<open>Operations keep the invariant\<close>

definition lru_ok :: "byte list set \<Rightarrow> lru_world \<Rightarrow> addr list \<Rightarrow> addr list \<Rightarrow> addr set \<Rightarrow> (addr \<Rightarrow> nat) \<Rightarrow> bool" where
  "lru_ok N w xs ys P out \<longleftrightarrow> lru_shape N w xs ys P out \<and> (\<forall>a \<in> set ys. out a > 0) \<and> (\<forall>a \<in> P. out a = 0) \<and> (\<forall>a. int (out a) < 2 ^ 31) \<and>
     sizes (files w) (set xs) \<le> lru_size_total w \<and> lru_size_total w < 2 ^ 31 \<and>
     - (2 ^ 31) \<le> lru_size_max w \<and> lru_size_max w < 2 ^ 31 \<and> length (lru_root_path w) = LRU_PATH_MAX \<and>
     (\<forall>bf. lru_bloom_filter w = Some bf \<longrightarrow> bloom_inv bf)"

lemma lru_okD:
  assumes "lru_ok N w xs ys P out"
  shows "lru_shape N w xs ys P out" "\<And>a. a \<in> set ys \<Longrightarrow> out a > 0" "\<And>a. a \<in> P \<Longrightarrow> out a = 0"
    "sizes (files w) (set xs) \<le> lru_size_total w" "lru_size_total w < 2 ^ 31" "lru_size_max w < 2 ^ 31"
    "- (2 ^ 31) \<le> lru_size_max w" "length (lru_root_path w) = LRU_PATH_MAX" "\<And>bf. lru_bloom_filter w = Some bf \<Longrightarrow> bloom_inv bf"
    "\<And>a. int (out a) < 2 ^ 31"
  using assms by (auto simp: lru_ok_def)

lemma lru_ok_nonneg: "lru_ok N w xs ys P out \<Longrightarrow> 0 \<le> lru_size_total w"
  using sizes_nonneg [OF lru_okD(1) subset_refl] lru_okD(4) by (metis order_trans)

lemma info_stable: "info h = info (files w) \<Longrightarrow> stable w (w\<lparr>file_lru_rb := t, file_lru := l, files := h\<rparr>)"
  by (simp add: stable_def ident_info)

lemma wrap32_over:
  assumes "2 ^ 31 \<le> x" "x < 2 ^ 32"
  shows "wrap32 x = x - 2 ^ 32"
proof -
  have "(x + 2 ^ 31) mod 2 ^ 32 = (x + 2 ^ 31 - 2 ^ 32) mod 2 ^ 32" by (rule minus_mod_self2 [symmetric])
  also have "\<dots> = x + 2 ^ 31 - 2 ^ 32" using assms by (intro mod_pos_pos_trivial) auto
  finally show ?thesis by (simp add: wrap32_def)
qed

lemma lookup_ok:
  assumes "lru_ok N w xs ys P out" "names_ok N" "has_nul name" "cstr name \<in> N" "\<And>a. int (out a) + 1 < 2 ^ 31"
  shows "\<exists>x w'. borrow_lookup name w = Inr (x, w') \<and> stable w w' \<and> dom (files w') = dom (files w) \<and>
    (case x of
       Refused \<Rightarrow> w' = w
     | Absent len \<Rightarrow> w' = w \<and> len = length (cstr name) \<and> 0 < len \<and> (\<forall>a \<in> set xs. fname (the (files w a)) \<noteq> cstr name)
     | Found p \<Rightarrow> p \<in> set xs \<and> fname (the (files w p)) = cstr name \<and> lru_ok N w' xs ys P (out(p := out p + 1)))"
proof -
  let ?s = "cstr name" and ?l = "length (cstr name)"
  have l: "?l < LRU_PATH_MAX" using assms(2,4) by (simp add: names_ok_def)
  then have strn: "strnlen name LRU_PATH_MAX = Some ?l" using assms(3) by (simp add: strnlen_cstr)
  have len: "?l \<le> length name" using has_nul_length_cstr [OF assms(3)] by simp
  have hash: "file_lru_name_hash name ?l = Inr (hash_value ?s)" using len cstr_take [of name] by (simp add: file_lru_name_hash_def)
  show ?thesis
  proof (cases "?l = 0")
    case True
    then show ?thesis using strn by (intro exI [of _ Refused] exI [of _ w]) (simp add: borrow_lookup_def stable_refl)
  next
    case False
    obtain r where r: "path_bloom_filter_check_exist2 (lru_bloom_filter w) (Some name) (int ?l) = Some r"
      using False bloom_check_has [OF lru_okD(9) [OF assms(1)] len]
      by (cases "lru_bloom_filter w") (auto simp: path_bloom_filter_check_exist2_def)
    obtain x where x: "RB_FIND (file_lru_name_cmp (hash_value ?s) ?l name (files w)) (file_lru_rb w) = Inr x"
        "\<And>a. x = Some a \<longleftrightarrow> a \<in> set xs \<and> fname (the (files w a)) = ?s"
      using find_file [OF lru_okD(1) [OF assms(1)] assms(2-4)] by blast
    show ?thesis
    proof (cases "r = 0")
      case True
      then show ?thesis using strn l hash r False by (intro exI [of _ Refused] exI [of _ w]) (simp add: borrow_lookup_def stable_refl)
    next
      case r0: False
      show ?thesis
      proof (cases x)
        case None
        then have "borrow_lookup name w = Inr (Absent ?l, w)" using strn l hash r False r0 x(1) by (simp add: borrow_lookup_def)
        then show ?thesis using False x(2) None by (intro exI [of _ "Absent ?l"] exI [of _ w]) (auto simp: stable_refl)
      next
        case (Some p)
        have p: "p \<in> set xs" "fname (the (files w p)) = ?s" using x(2) Some by auto
        obtain w' where w': "add_borrow p w = Inr w'" "lru_shape N w' xs ys P (out(p := out p + 1))" "stable w w'" "conf w' = conf w"
            "dom (files w') = dom (files w)"
          using add_borrow_shape [OF lru_okD(1) [OF assms(1)], of p] p(1) assms(5) by auto
        have "p \<notin> P" using facts_disjoint(2) [OF shapeD(3) [OF w'(2)]] p(1) by blast
        moreover have "sizes (files w') (set xs) = sizes (files w) (set xs)" using shape_alloc [OF w'(2)] by (intro stable_sizes [OF w'(3)]) blast
        ultimately have "lru_ok N w' xs ys P (out(p := out p + 1))"
          using assms(1) assms(5) [of p] w'(2,4) by (auto simp: lru_ok_def conf_def)
        moreover have "borrow_lookup name w = Inr (Found p, w')" using strn l hash r False r0 x(1) Some w'(1) by (simp add: borrow_lookup_def)
        ultimately show ?thesis using p w'(3,5) by (intro exI [of _ "Found p"] exI [of _ w']) simp
      qed
    qed
  qed
qed

lemma insert_file_ok:
  assumes "lru_shape N w xs ys P out" "names_ok N" "p \<in> P" "out p = 0" "files w p = Some n"
    and "\<And>a. a \<in> set xs \<Longrightarrow> fname (the (files w a)) \<noteq> fname n" "0 \<le> lru_size_total w" "lru_size_total w + file_size n < 2 ^ 31"
  shows "\<exists>w'. insert_file p w = Inr (Some p, w') \<and> lru_shape N w' (p # xs) ys (P - {p}) (out(p := 1)) \<and> stable w w' \<and>
    lru_size_total w' = lru_size_total w + file_size n \<and> sizes (files w') (set (p # xs)) = sizes (files w) (set xs) + file_size n \<and>
    lru_size_max w' = lru_size_max w \<and> lru_root_path w' = lru_root_path w \<and> lru_bloom_filter w' = lru_bloom_filter w"
proof -
  have wf: "node_wf N n" using facts_node [OF shapeD(3) [OF assms(1)], of p] assms(3,5) by auto
  obtain v where v: "add_borrow p w = Inr v" "lru_shape N v xs ys P (out(p := out p + 1))" "stable w v" "conf v = conf w"
    using add_borrow_shape [OF assms(1), of p] assms(3,4) by auto
  then have out: "lru_shape N v xs ys P (out(p := 1))" using assms(4) by simp
  have same: "files v a \<noteq> None \<Longrightarrow> ident_of (files v) a = ident_of (files w) a" for a
    using v(3) unfolding stable_def by (metis ident_of_def option.map_disc_iff)
  obtain nv where nv: "files v p = Some nv" "fname nv = fname n" "file_size nv = file_size n"
    using shape_alloc [OF out, of p] same [of p] assms(3,5) by (auto simp: ident_of_def ident_def fname_def)
  have names: "fname (the (files v a)) \<noteq> fname nv" if "a \<in> set xs" for a
    using shape_alloc [OF out, of a] shape_alloc [OF assms(1), of a] same [of a] assms(6) [OF that] that nv(2)
    by (auto simp: ident_of_def ident_def fname_def)
  have tot: "i32 (lru_size_total v + file_size nv) = Some (lru_size_total w + file_size n)"
    using v(4) nv(3) assms(7,8) wf by (simp add: conf_def i32_def node_wf_def)
  obtain t l h where t: "RB_INSERT (file_cmp p (files v)) p (file_lru_rb v) = Inr (None, t)"
      "DOUBLE_LL_JOIN_HEAD lru_prev_f lru_next_f p (file_lru v) (files v) = Inr (l, h)"
      "lru_shape N (v\<lparr>file_lru_rb := t, file_lru := l, files := h\<rparr>) (p # xs) ys (P - {p}) (out(p := 1))" "info h = info (files v)"
    using join_shape [OF out assms(2,3) nv(1) names] by blast
  let ?w = "v\<lparr>lru_size_total := lru_size_total w + file_size n, file_lru_rb := t, file_lru := l, files := h\<rparr>"
  have sh: "lru_shape N ?w (p # xs) ys (P - {p}) (out(p := 1))" using t(3) by (simp add: lru_shape_def)
  have st: "stable w ?w"
    using v(3) t(4) by (simp add: stable_def ident_info)
  have "p \<notin> set xs" using facts_disjoint(2) [OF shapeD(3) [OF assms(1)] assms(3)] .
  then have "sizes (files w) (set (p # xs)) = sizes (files w) (set xs) + file_size n"
    using assms(5) by (simp add: sizes_def ident_of_def ident_def)
  moreover have "sizes (files ?w) (set (p # xs)) = sizes (files w) (set (p # xs))"
    using shape_alloc [OF sh] by (intro stable_sizes [OF st]) blast
  moreover have "insert_file p w = Inr (Some p, ?w)" using v(1) nv(1) tot t(1,2) by (simp add: insert_file_def file_at_def)
  ultimately show ?thesis using sh st v(4) by (auto simp: conf_def)
qed

lemma stable_node:
  assumes "stable w w'" "files w' a \<noteq> None" "files w a = Some n"
  shows "\<exists>n'. files w' a = Some n' \<and> fname n' = fname n \<and> file_size n' = file_size n \<and> file_data n' = file_data n"
proof -
  obtain n' where n': "files w' a = Some n'" using assms(2) by auto
  then have "ident_of (files w') a \<noteq> None" by (simp add: ident_of_def)
  then have "ident_of (files w') a = ident_of (files w) a" using assms(1) [unfolded stable_def, rule_format, of a] by auto
  then show ?thesis using n' assms(3) by (auto simp: ident_of_def ident_def fname_def)
qed

lemma stable_names:
  assumes "stable w w'" "\<And>a. a \<in> A \<Longrightarrow> files w' a \<noteq> None" "\<And>a. a \<in> A \<Longrightarrow> files w a \<noteq> None" "a \<in> A"
  shows "fname (the (files w' a)) = fname (the (files w a))"
proof -
  obtain n where "files w a = Some n" using assms(3) [OF assms(4)] by auto
  then show ?thesis using stable_node [OF assms(1) assms(2) [OF assms(4)], of n] by auto
qed

text \<open>The file was inserted by another thread in the meantime: the one that was read is thrown away.\<close>

lemma insert_known:
  assumes "lru_ok N w xs ys P out" "p \<in> P" "files w p = Some n" "e \<in> set xs" "int (out e) + 1 < 2 ^ 31"
    and "RB_FIND (file_cmp p (files w)) (file_lru_rb w) = Inr (Some e)"
  shows "\<exists>w' xs'. borrow_insert p w = Inr (Some e, w') \<and> lru_ok N w' xs' ys (P - {p}) (out(e := out e + 1)) \<and> stable w w' \<and>
    set xs' = set xs \<and> lru_size_max w' = lru_size_max w"
proof -
  obtain v where v: "add_borrow e w = Inr v" "lru_shape N v xs ys P (out(e := out e + 1))" "stable w v" "conf v = conf w"
    using add_borrow_shape [OF lru_okD(1) [OF assms(1)], of e] assms(4,5) by auto
  obtain l h l' h' where l: "DOUBLE_LL_LEFT lru_prev_f lru_next_f e (file_lru v) (files v) = Inr (l, h)"
      "DOUBLE_LL_JOIN_HEAD lru_prev_f lru_next_f e l h = Inr (l', h')"
      "lru_shape N (v\<lparr>file_lru := l', files := h'\<rparr>) (e # removeAll e xs) ys P (out(e := out e + 1))" "info h' = info (files v)"
    using front_shape [OF v(2) assms(4)] by blast
  let ?v = "v\<lparr>file_lru := l', files := h'\<rparr>"
  have set: "set (e # removeAll e xs) = set xs" using assms(4) by auto
  have pe: "p \<noteq> e" "(out(e := out e + 1)) p = 0"
    using facts_disjoint(2) [OF shapeD(3) [OF v(2)] assms(2)] assms(4) lru_okD(3) [OF assms(1,2)] by auto
  have hp: "h' p \<noteq> None" using shape_alloc [OF l(3), of p] assms(2) by simp
  note fr = free_shape [OF l(3) assms(2) pe(2)]
  let ?w = "v\<lparr>file_lru := l', files := h'(p := None)\<rparr>"
  have weq: "?v\<lparr>files := (files ?v)(p := None)\<rparr> = ?w" by simp
  have w: "lru_shape N ?w (e # removeAll e xs) ys (P - {p}) (out(e := out e + 1))" using fr(1) unfolding weq .
  have "stable v ?v" using l(4) by (simp add: stable_def ident_info)
  moreover have "stable ?v ?w" using fr(2) unfolding weq .
  ultimately have st: "stable w ?w" using v(3) stable_trans by blast
  have "sizes (files ?w) (set xs) = sizes (files w) (set xs)" using shape_alloc [OF w] set by (intro stable_sizes [OF st]) blast
  moreover have "e \<notin> P" using facts_disjoint(2) [OF shapeD(3) [OF v(2)]] assms(4) by blast
  moreover have "lru_size_total ?w = lru_size_total w" "lru_size_max ?w = lru_size_max w" "lru_root_path ?w = lru_root_path w"
    "lru_bloom_filter ?w = lru_bloom_filter w" using v(4) by (simp_all add: conf_def)
  ultimately have "lru_ok N ?w (e # removeAll e xs) ys (P - {p}) (out(e := out e + 1))"
    using assms(1,5) w unfolding lru_ok_def set by auto
  moreover have "borrow_insert p w = Inr (Some e, ?w)" using assms(6) v(1) l(1,2) hp by (auto simp: borrow_insert_def file_at_def)
  moreover have "lru_size_max ?w = lru_size_max w" using v(4) by (simp add: conf_def)
  ultimately show ?thesis using st set by blast
qed

lemma insert_fresh:
  assumes "lru_ok N w xs ys P out" "names_ok N" "p \<in> P" "files w p = Some n"
    and "\<And>a. a \<in> set xs \<Longrightarrow> fname (the (files w a)) \<noteq> fname n" "lru_size_total w + file_size n < 2 ^ 31"
  shows "\<exists>w'. insert_file p w = Inr (Some p, w') \<and> lru_ok N w' (p # xs) ys (P - {p}) (out(p := out p + 1)) \<and> stable w w' \<and>
    lru_size_max w' = lru_size_max w \<and> sizes (files w') (set (p # xs)) = sizes (files w) (set xs) + file_size n"
proof -
  have p: "out p = 0" "p \<notin> set ys" using lru_okD(3) [OF assms(1,3)] facts_disjoint(3) [OF shapeD(3) [OF lru_okD(1) [OF assms(1)]] assms(3)] by auto
  obtain w' where w': "insert_file p w = Inr (Some p, w')" "lru_shape N w' (p # xs) ys (P - {p}) (out(p := 1))" "stable w w'"
      "lru_size_total w' = lru_size_total w + file_size n" "sizes (files w') (set (p # xs)) = sizes (files w) (set xs) + file_size n"
      "lru_size_max w' = lru_size_max w" "lru_root_path w' = lru_root_path w" "lru_bloom_filter w' = lru_bloom_filter w"
    using insert_file_ok [OF lru_okD(1) [OF assms(1)] assms(2,3) p(1) assms(4,5) lru_ok_nonneg [OF assms(1)] assms(6)] by blast
  then have "lru_ok N w' (p # xs) ys (P - {p}) (out(p := out p + 1))" using assms(1,6) p unfolding lru_ok_def by auto
  then show ?thesis using w' by blast
qed

lemma borrow_insert_ok:
  assumes "lru_ok N w xs ys P out" "names_ok N" "p \<in> P" "files w p = Some n" "\<And>a. int (out a) + 1 < 2 ^ 31"
    and "lru_size_max w \<le> 0 \<Longrightarrow> lru_size_total w + file_size n < 2 ^ 31"
  shows "\<exists>x w' xs' ys'. borrow_insert p w = Inr (x, w') \<and> stable w w' \<and> lru_size_max w' = lru_size_max w \<and>
    lru_ok N w' xs' ys' (P - {p}) (case x of None \<Rightarrow> out | Some e \<Rightarrow> out(e := out e + 1)) \<and>
    (case x of None \<Rightarrow> True | Some e \<Rightarrow> e \<in> set xs' \<and> fname (the (files w' e)) = fname n \<and> (e \<noteq> p \<longrightarrow> e \<in> set xs)) \<and>
    (0 < lru_size_max w \<longrightarrow> file_size n \<le> lru_size_max w \<longrightarrow> x = Some p \<longrightarrow> sizes (files w') (set xs') \<le> lru_size_max w)"
proof -
  note sh = lru_okD(1) [OF assms(1)]
  have wf: "node_wf N n" using facts_node [OF shapeD(3) [OF sh], of p] assms(3,4) by auto
  then have nm: "has_nul (file_name n)" "cstr (file_name n) \<in> N" "cstr (file_name n) = fname n" by (auto simp: node_wf_def fname_def)
  obtain x where x: "RB_FIND (file_cmp p (files w)) (file_lru_rb w) = Inr x"
      "\<And>a. x = Some a \<longleftrightarrow> a \<in> set xs \<and> fname (the (files w a)) = fname n"
    using find_file [OF sh assms(2) nm(1,2)] unfolding file_cmp_node [OF assms(4) wf] nm(3) by blast
  show ?thesis
  proof (cases x)
    case (Some e)
    have e: "e \<in> set xs" "fname (the (files w e)) = fname n" using x(2) Some by auto
    obtain w' xs' where w': "borrow_insert p w = Inr (Some e, w')" "lru_ok N w' xs' ys (P - {p}) (out(e := out e + 1))" "stable w w'"
        "set xs' = set xs" "lru_size_max w' = lru_size_max w"
      using insert_known [OF assms(1,3,4) e(1) assms(5)] x(1) Some by blast
    have "fname (the (files w' e)) = fname (the (files w e))"
      using shape_alloc [OF lru_okD(1) [OF w'(2)]] shape_alloc [OF sh] w'(4) e(1) by (intro stable_names [OF w'(3), of "set xs"]) auto
    moreover have "e \<noteq> p" using facts_disjoint(2) [OF shapeD(3) [OF sh] assms(3)] e(1) by blast
    ultimately show ?thesis using w' e
      by (intro exI [of _ "Some e"] exI [of _ w'] exI [of _ xs'] exI [of _ ys]) simp
  next
    case None
    then have new: "fname (the (files w a)) \<noteq> fname n" if "a \<in> set xs" for a using x(2) that by blast
    have sz: "0 < file_size n" "file_size n < 2 ^ 31" using wf by (auto simp: node_wf_def)
    note tot = lru_ok_nonneg [OF assms(1)] lru_okD(5) [OF assms(1)]
    have fin: ?thesis if "borrow_insert p w = insert_file p v" "lru_ok N v xs' ys' P out" "stable w v" "set xs' \<subseteq> set xs"
      "lru_size_max v = lru_size_max w" "lru_size_total v + file_size n < 2 ^ 31"
      "0 < lru_size_max w \<longrightarrow> file_size n \<le> lru_size_max w \<longrightarrow> sizes (files v) (set xs') + file_size n \<le> lru_size_max w" for v xs' ys'
    proof -
      note H = that
      obtain nv where nv: "files v p = Some nv" "fname nv = fname n" "file_size nv = file_size n"
        using stable_node [OF H(3) _ assms(4)] shape_alloc [OF lru_okD(1) [OF H(2)], of p] assms(3) by auto
      have nw: "fname (the (files v a)) \<noteq> fname nv" if a: "a \<in> set xs'" for a
      proof -
        have "fname (the (files v a)) = fname (the (files w a))"
          using shape_alloc [OF lru_okD(1) [OF \<open>lru_ok N v xs' ys' P out\<close>]] shape_alloc [OF sh] \<open>set xs' \<subseteq> set xs\<close> a
          by (intro stable_names [OF \<open>stable w v\<close>, of "set xs'"]) auto
        then show ?thesis using new [of a] a \<open>set xs' \<subseteq> set xs\<close> nv(2) by auto
      qed
      obtain w' where w': "insert_file p v = Inr (Some p, w')" "lru_ok N w' (p # xs') ys' (P - {p}) (out(p := out p + 1))" "stable v w'"
          "lru_size_max w' = lru_size_max v" "sizes (files w') (set (p # xs')) = sizes (files v) (set xs') + file_size nv"
        using insert_fresh [OF H(2) assms(2,3) nv(1) nw] H(6) nv(3) by auto
      have st: "stable w w'" using stable_trans [OF H(3) w'(3)] .
      have "fname (the (files w' p)) = fname n"
        using stable_node [OF st _ assms(4)] shape_alloc [OF lru_okD(1) [OF w'(2)], of p] by auto
      then show ?thesis using H(1,5,7) w' st nv(3)
        by (intro exI [of _ "Some p"] exI [of _ w'] exI [of _ "p # xs'"] exI [of _ ys']) simp
    qed
    consider (nolimit) "lru_size_max w \<le> 0" | (wrap) "0 < lru_size_max w" "lru_size_total w + file_size n \<ge> 2 ^ 31"
      | (fits) "0 < lru_size_max w" "lru_size_total w + file_size n < 2 ^ 31" "lru_size_total w + file_size n \<le> lru_size_max w"
      | (full) "0 < lru_size_max w" "lru_size_total w + file_size n < 2 ^ 31" "lru_size_total w + file_size n > lru_size_max w" by linarith
    then show ?thesis
    proof cases
      case nolimit
      then have "borrow_insert p w = insert_file p w" using x(1) None by (simp add: borrow_insert_def)
      then show ?thesis using fin [of w xs ys] assms(1,6) nolimit by (simp add: stable_refl)
    next
      case wrap
      have "wrap32 (lru_size_total w + file_size n) = lru_size_total w + file_size n - 2 ^ 32"
        using wrap tot sz by (intro wrap32_over) simp_all
      then have b: "borrow_insert p w = Inr (None, w\<lparr>files := (files w)(p := None)\<rparr>)"
        using x(1) None wrap tot sz assms(4) by (simp add: borrow_insert_def file_at_def)
      note fr = free_shape [OF sh assms(3) lru_okD(3) [OF assms(1,3)]]
      have "sizes ((files w)(p := None)) (set xs) = sizes (files w) (set xs)"
        using stable_sizes [OF fr(2), of "set xs"] shape_alloc [OF fr(1)] by auto
      then have "lru_ok N (w\<lparr>files := (files w)(p := None)\<rparr>) xs ys (P - {p}) out" using assms(1) fr(1) unfolding lru_ok_def by auto
      then show ?thesis using b fr(2)
        by (intro exI [of _ None] exI [of _ "w\<lparr>files := (files w)(p := None)\<rparr>"] exI [of _ xs] exI [of _ ys]) simp
    next
      case fits
      have "wrap32 (lru_size_total w + file_size n) = lru_size_total w + file_size n" using fits tot sz by (intro wrap32_id) auto
      then have "borrow_insert p w = insert_file p w" using x(1) None fits tot sz assms(4) by (simp add: borrow_insert_def file_at_def)
      then show ?thesis using fin [of w xs ys] assms(1) fits lru_okD(4) [OF assms(1)] by (simp add: stable_refl)
    next
      case full
      have "wrap32 (lru_size_total w + file_size n) = lru_size_total w + file_size n" using full tot sz by (intro wrap32_id) auto
      then have b: "borrow_insert p w = bindE (file_lru_purge (file_size n) w) (insert_file p)"
        using x(1) None full tot sz assms(4) by (simp add: borrow_insert_def file_at_def)
      have "length xs < rb_size (file_lru_rb w) + 1" using rb_size_sizes [OF shapeD(4,5) [OF sh]] by simp
      from purge_loop_shape [OF sh lru_okD(4,5) [OF assms(1)] full(1) lru_okD(6) [OF assms(1)] this, of "file_size n"]
      obtain v xs' ys' where v: "file_lru_purge (file_size n) w = Inr v" "purges N P out w xs ys v xs' ys'"
          "sizes (files v) (set xs') \<le> lru_size_total v" "lru_size_total v \<le> lru_size_total w"
          "xs' = [] \<or> lru_size_max v - lru_size_total v \<ge> file_size n"
        unfolding file_lru_purge_def by blast
      have "lru_ok N v xs' ys' P out" using assms(1) v(2-4) unfolding lru_ok_def purges_def by fastforce
      moreover have "sizes (files v) (set xs') + file_size n \<le> lru_size_max w" if "file_size n \<le> lru_size_max w"
        using v(2,3,5) that by (auto simp: purges_def sizes_def)
      ultimately show ?thesis using fin [of v xs' ys'] b v full(2) by (auto simp: purges_def)
    qed
  qed
qed

section \<open>Returning, reading and purging\<close>

lemma purged_bit: "FILE_LRU_FLAGS_PURGED AND FILE_LRU_FLAGS_PURGED \<noteq> 0"
  by (simp add: FILE_LRU_FLAGS_PURGED_def)

lemma facts_free:
  assumes "lru_facts N d xs ys P out" "p \<in> set ys"
  shows "lru_facts N (d(p := None)) xs (removeAll p ys) P (out(p := 0))"
  unfolding lru_facts_def
proof (intro conjI allI impI)
  note dis = facts_disjoint [OF assms(1)]
  show "dom (d(p := None)) = set xs \<union> set (removeAll p ys) \<union> P" using assms dis(3,4) [of p] unfolding lru_facts_def by auto
  fix a n assume "(d(p := None)) a = Some n"
  then have "a \<noteq> p" "d a = Some n" by (auto split: if_splits)
  then show "node_wf N n" "borrow_cnt n = int ((out(p := 0)) a)"
    "lru_flags n = (if a \<in> set (removeAll p ys) then FILE_LRU_FLAGS_PURGED else 0)"
    using assms(1) unfolding lru_facts_def by auto
qed (use assms in \<open>auto simp: lru_facts_def\<close>)

lemma facts_new:
  assumes "lru_facts N d xs ys P out" "d p = None" "node_wf N n" "borrow_cnt n = 0" "lru_flags n = 0"
  shows "lru_facts N (d(p \<mapsto> n)) xs ys (insert p P) out"
  unfolding lru_facts_def
proof (intro conjI allI impI)
  have p: "p \<notin> set xs \<union> set ys \<union> P" "out p = 0" using assms(1,2) unfolding lru_facts_def by auto
  show "dom (d(p \<mapsto> n)) = set xs \<union> set ys \<union> insert p P" using assms(1) unfolding lru_facts_def by auto
  show "insert p P \<inter> (set xs \<union> set ys) = {}" using assms(1) p unfolding lru_facts_def by auto
  fix a m assume m: "(d(p \<mapsto> n)) a = Some m"
  show "node_wf N m" "borrow_cnt m = int (out a)" "lru_flags m = (if a \<in> set ys then FILE_LRU_FLAGS_PURGED else 0)"
    using m assms p unfolding lru_facts_def by (auto split: if_splits)
qed (use assms in \<open>auto simp: lru_facts_def split: if_splits\<close>)

text \<open>The last user of a purged file has returned it: it leaves the list of purged files and is freed.\<close>

lemma unlink_shape:
  assumes "lru_shape N w xs ys P out" "p \<in> set ys"
  shows "\<exists>l h. DOUBLE_LL_LEFT lru_prev_f lru_next_f p (file_lru_purged w) (files w) = Inr (l, h) \<and>
    lru_shape N (w\<lparr>file_lru_purged := l, files := h(p := None)\<rparr>) xs (removeAll p ys) P (out(p := 0)) \<and>
    stable w (w\<lparr>file_lru_purged := l, files := h(p := None)\<rparr>)"
proof -
  note sc = shapeD [OF assms(1)]
  from lru.left [OF sc(2) assms(2)]
  obtain l h where l: "DOUBLE_LL_LEFT lru_prev_f lru_next_f p (file_lru_purged w) (files w) = Inr (l, h)"
      "dll lru_prev_f lru_next_f h l (removeAll p ys)" "touches payload (set ys) (files w) h"
    by blast
  have ih: "info h = info (files w)" and fr: "\<And>b. b \<notin> set ys \<Longrightarrow> h b = files w b" using l(3) info_eq by (auto simp: touches_def)
  have px: "p \<notin> set xs" using facts_disjoint(4) [OF sc(3)] assms(2) by blast
  have "\<forall>x \<in> set xs. (h(p := None)) x = files w x" using fr facts_disjoint(1) [OF sc(3)] px by auto
  from dll_frame [OF this] have 1: "dll lru_prev_f lru_next_f (h(p := None)) (file_lru w) xs" using sc(1) by blast
  have "\<forall>x \<in> set (removeAll p ys). (h(p := None)) x = h x" by auto
  from dll_frame [OF this] have 2: "dll lru_prev_f lru_next_f (h(p := None)) l (removeAll p ys)" using l(2) by blast
  have ii: "info (h(p := None)) = (info (files w))(p := None)" using ih by (simp add: info_upd)
  have 3: "lru_facts N (info (h(p := None))) xs (removeAll p ys) P (out(p := 0))" using facts_free [OF sc(3) assms(2)] unfolding ii .
  obtain m where m: "rb_abs (info_key (info (files w))) (file_lru_rb w) m" "ran m = set xs" using sc(4) by (auto simp: tree_of_def)
  have "rb_abs (info_key ((info (files w))(p := None))) (file_lru_rb w) m"
    using m(2) px by (intro rb_abs_key [OF _ m(1)]) (auto simp: info_key_def)
  then have 4: "tree_of (info (h(p := None))) (file_lru_rb w) xs" using m(2) unfolding ii tree_of_def by blast
  have "lru_shape N (w\<lparr>file_lru_purged := l, files := h(p := None)\<rparr>) xs (removeAll p ys) P (out(p := 0))"
    unfolding lru_shape_def using 1 2 3 4 by (simp del: fun_upd_apply)
  moreover have "stable w (w\<lparr>file_lru_purged := l, files := h(p := None)\<rparr>)"
    unfolding stable_def ident_info using ii by simp
  ultimately show ?thesis using l(1) by blast
qed

lemma return_ok:
  assumes "lru_ok N w xs ys P out" "out p > 0"
  shows "\<exists>w' ys'. file_lru_return (Some p) w = Inr w' \<and> stable w w' \<and> lru_ok N w' xs ys' P (out(p := out p - 1)) \<and>
    (files w' p = None \<longleftrightarrow> p \<in> set ys \<and> out p = 1)"
proof -
  note sh = lru_okD(1) [OF assms(1)]
  have "info (files w) p \<noteq> None" using shapeD(3) [OF sh] assms(2) unfolding lru_facts_def by auto
  moreover have P: "p \<notin> P" using lru_okD(3) [OF assms(1), of p] assms(2) by auto
  ultimately have p: "p \<in> set xs \<union> set ys" using shapeD(3) [OF sh] unfolding lru_facts_def by auto
  obtain n where n: "files w p = Some n" "node_wf N n" "borrow_cnt n = int (out p)"
      "lru_flags n = (if p \<in> set ys then FILE_LRU_FLAGS_PURGED else 0)"
    using facts_node [OF shapeD(3) [OF sh], of p] p by blast
  let ?c = "out p - 1"
  define v where "v = w\<lparr>files := (files w)(p \<mapsto> n\<lparr>borrow_cnt := int ?c\<rparr>)\<rparr>"
  note c = count_shape [OF sh n(1), of ?c, folded v_def]
  have v: "files v p \<noteq> None" "conf v = conf w" by (simp_all add: v_def conf_def)
  have less: "\<forall>a. int ((out(p := ?c)) a) < 2 ^ 31" using lru_okD(10) [OF assms(1)] by (auto intro: less_imp_diff_less)
  have i: "i32 (borrow_cnt n - 1) = Some (int ?c)" using n(3) assms(2) lru_okD(10) [OF assms(1), of p] by (simp add: i32_def of_nat_diff)
  have ret: "file_lru_return (Some p) w =
      (if p \<in> set ys \<and> out p = 1
       then bindE (DOUBLE_LL_LEFT lru_prev_f lru_next_f p (file_lru_purged v) (files v)) (\<lambda>(l, h). Inr (v\<lparr>file_lru_purged := l, files := h(p := None)\<rparr>))
       else Inr v)"
    using n i c(1) assms(2) purged_bit by (auto simp: file_lru_return_def file_at_def node_wf_def)
  show ?thesis
  proof (cases "p \<in> set ys \<and> out p = 1")
    case False
    have "sizes (files v) (set xs) = sizes (files w) (set xs)" using shape_alloc [OF c(2)] by (intro stable_sizes [OF c(3)]) blast
    moreover have "\<forall>a \<in> set ys. 0 < (out(p := ?c)) a" using False lru_okD(2) [OF assms(1)] assms(2) by (auto simp: nat_neq_iff)
    moreover have "\<forall>a \<in> P. (out(p := ?c)) a = 0" using P lru_okD(3) [OF assms(1)] by auto
    ultimately have "lru_ok N v xs ys P (out(p := ?c))"
      using assms(1) c(2) less v(2) unfolding lru_ok_def conf_def by (simp del: fun_upd_apply)
    moreover have "file_lru_return (Some p) w = Inr v" unfolding ret if_not_P [OF False] ..
    moreover have "(files v p = None) = (p \<in> set ys \<and> out p = 1)" using v(1) False by blast
    ultimately show ?thesis using c(3) by (intro exI [of _ v] exI [of _ ys]) (simp del: fun_upd_apply)
  next
    case True
    obtain l h where l: "DOUBLE_LL_LEFT lru_prev_f lru_next_f p (file_lru_purged v) (files v) = Inr (l, h)"
        "lru_shape N (v\<lparr>file_lru_purged := l, files := h(p := None)\<rparr>) xs (removeAll p ys) P (out(p := ?c, p := 0))"
        "stable v (v\<lparr>file_lru_purged := l, files := h(p := None)\<rparr>)"
      using unlink_shape [OF c(2), of p] True by blast
    let ?v = "v\<lparr>file_lru_purged := l, files := h(p := None)\<rparr>"
    have st: "stable w ?v" using stable_trans [OF c(3) l(3)] .
    have sv: "lru_shape N ?v xs (removeAll p ys) P (out(p := ?c))" using l(2) True by (simp del: fun_upd_apply)
    have "sizes (files ?v) (set xs) = sizes (files w) (set xs)" using shape_alloc [OF sv] by (intro stable_sizes [OF st]) blast
    moreover have "\<forall>a \<in> set (removeAll p ys). 0 < (out(p := ?c)) a" using lru_okD(2) [OF assms(1)] by auto
    moreover have "\<forall>a \<in> P. (out(p := ?c)) a = 0" using P lru_okD(3) [OF assms(1)] by auto
    moreover have "conf ?v = conf w" using v(2) by (simp add: conf_def)
    ultimately have "lru_ok N ?v xs (removeAll p ys) P (out(p := ?c))"
      using assms(1) sv less unfolding lru_ok_def conf_def by (simp del: fun_upd_apply)
    then show ?thesis using st True ret l(1) by (intro exI [of _ ?v] exI [of _ "removeAll p ys"]) simp
  qed
qed

definition loaded :: "byte list \<Rightarrow> int \<Rightarrow> disk_file \<Rightarrow> file_lru_t" where
  "loaded name sz f = \<lparr>lru_magic0 = FILE_LRU_MGC0, borrow_cnt = 0, lru_flags = 0, file_name_hash = hash_value (cstr name),
     file_name_length = length (cstr name), file_size = sz, file_name = cstr name @ [0], file_data = take (nat sz) (contents f),
     lru_prev = None, lru_next = None, lru_magic1 = FILE_LRU_MGC1\<rparr>"

lemma load_cases:
  assumes "file_lru_name_hash name (length (cstr name)) = Inr (hash_value (cstr name))" "take (length (cstr name)) name = cstr name"
  shows "file_lru_load_from_disk disk mem name (length (cstr name)) w = Inr (None, w) \<or>
    (\<exists>p f sz. mem = Some p \<and> disk (cstr (lru_root_path w) @ bytes ''/'' @ cstr name) = Some f \<and> sz = wrap32 (st_size f) \<and> 0 < sz \<and>
       (0 < lru_size_max w \<longrightarrow> sz \<le> lru_size_max w) \<and> nat sz \<le> length (contents f) \<and>
       file_lru_load_from_disk disk mem name (length (cstr name)) w = Inr (Some p, w\<lparr>files := (files w)(p \<mapsto> loaded name sz f)\<rparr>))"
  unfolding file_lru_load_from_disk_def Let_def assms(1)
  by (cases "disk (cstr (lru_root_path w) @ bytes ''/'' @ cstr name)"; cases mem) (auto simp: assms(2) loaded_def)

lemma load_ok:
  assumes "lru_ok N w xs ys P out" "has_nul name" "cstr name \<in> N" "\<And>p. mem = Some p \<Longrightarrow> files w p = None"
  shows "\<exists>x w'. file_lru_load_from_disk disk mem name (length (cstr name)) w = Inr (x, w') \<and> (\<forall>a. files w a \<noteq> None \<longrightarrow> files w' a = files w a) \<and>
    lru_size_max w' = lru_size_max w \<and> lru_size_total w' = lru_size_total w \<and>
    lru_ok N w' xs ys (case x of None \<Rightarrow> P | Some p \<Rightarrow> insert p P) out \<and>
    (case x of None \<Rightarrow> w' = w | Some p \<Rightarrow> mem = Some p \<and> (\<exists>n f. files w' p = Some n \<and> fname n = cstr name \<and>
       file_size n = wrap32 (st_size f) \<and> (0 < lru_size_max w \<longrightarrow> file_size n \<le> lru_size_max w) \<and>
       disk (cstr (lru_root_path w) @ bytes ''/'' @ cstr name) = Some f \<and> file_data n = take (nat (file_size n)) (contents f)))"
proof -
  note sh = lru_okD(1) [OF assms(1)]
  let ?l = "length (cstr name)" and ?path = "cstr (lru_root_path w) @ bytes ''/'' @ cstr name"
  have len: "?l \<le> length name" using has_nul_length_cstr [OF assms(2)] by simp
  have take: "take ?l name = cstr name" by (rule cstr_take)
  then have hash: "file_lru_name_hash name ?l = Inr (hash_value (cstr name))" using len by (simp add: file_lru_name_hash_def)
  from load_cases [OF hash take, of disk mem w]
  consider (no) "file_lru_load_from_disk disk mem name ?l w = Inr (None, w)"
    | (yes) p f sz where "mem = Some p" "disk ?path = Some f" "sz = wrap32 (st_size f)" "0 < sz" "0 < lru_size_max w \<longrightarrow> sz \<le> lru_size_max w"
        "nat sz \<le> length (contents f)" "file_lru_load_from_disk disk mem name ?l w = Inr (Some p, w\<lparr>files := (files w)(p \<mapsto> loaded name sz f)\<rparr>)"
    by blast
  then show ?thesis
  proof cases
    case no
    then show ?thesis using assms(1) by (intro exI [of _ None] exI [of _ w]) simp
  next
    case (yes p f sz)
    let ?n = "loaded name sz f"
    let ?w = "w\<lparr>files := (files w)(p \<mapsto> ?n)\<rparr>"
    have none: "files w p = None" using assms(4) yes(1) by blast
    have "0 \<notin> set (cstr name)" using cstr_no_nul by blast
    then have fn: "fname ?n = cstr name" by (simp add: fname_def loaded_def)
    have wf: "node_wf N ?n" "borrow_cnt ?n = 0" "lru_flags ?n = 0"
      using fn yes(3,4,6) assms(3) wrap32_range [of "st_size f"] by (simp_all add: node_wf_def has_nul_def loaded_def)
    have pd: "p \<notin> set xs \<union> set ys \<union> P" using shape_alloc [OF sh] none by blast
    have out: "out p = 0" using shapeD(3) [OF sh] none unfolding lru_facts_def by simp
    have fr: "dll lru_prev_f lru_next_f ((files w)(p \<mapsto> ?n)) l zs = dll lru_prev_f lru_next_f (files w) l zs" if "p \<notin> set zs" for l zs
      using that by (intro dll_frame) auto
    have f: "lru_facts N ((info (files w))(p \<mapsto> payload ?n)) xs ys (insert p P) out"
      using none wf by (intro facts_new [OF shapeD(3) [OF sh]]) (simp_all add: info_def)
    obtain m where m: "rb_abs (info_key (info (files w))) (file_lru_rb w) m" "ran m = set xs" using shapeD(4) [OF sh] by (auto simp: tree_of_def)
    have "rb_abs (info_key ((info (files w))(p \<mapsto> payload ?n))) (file_lru_rb w) m"
      using m(2) pd by (intro rb_abs_key [OF _ m(1)]) (auto simp: info_key_def)
    then have "tree_of ((info (files w))(p \<mapsto> payload ?n)) (file_lru_rb w) xs" using m(2) by (auto simp: tree_of_def)
    then have shp: "lru_shape N ?w xs ys (insert p P) out"
      using shapeD(1,2) [OF sh] f pd fr by (simp add: lru_shape_def info_upd)
    have "sizes (files ?w) (set xs) = sizes (files w) (set xs)" using pd unfolding sizes_def ident_of_def by (intro sum.cong) auto
    then have "lru_ok N ?w xs ys (insert p P) out" using assms(1) shp out unfolding lru_ok_def by auto
    then show ?thesis using yes none fn by (intro exI [of _ "Some p"] exI [of _ ?w]) (auto simp: loaded_def)
  qed
qed

section \<open>The system\<close>

datatype lru_call =
    Lookup "byte list"
  | Load "byte list \<Rightarrow> disk_file option" "addr option" "byte list"
  | InsertFile addr
  | Return addr
  | PurgeOne
  | Setup "byte list \<Rightarrow> bool option" "byte list option" int int
  | SetBloom "path_bloom_filter_t option"

text \<open>The state of the cache with the files read and not yet inserted, and the number of users of each file.\<close>

type_synonym lru_state = "lru_world \<times> addr set \<times> (addr \<Rightarrow> nat)"

fun lru_exec :: "lru_call \<Rightarrow> lru_state \<Rightarrow> lru_state res" where
  "lru_exec (Lookup name) (w, P, out) =
     bindE (borrow_lookup name w) (\<lambda>(x, w). Inr (w, P, case x of Found p \<Rightarrow> out(p := out p + 1) | _ \<Rightarrow> out))"
| "lru_exec (Load disk mem name) (w, P, out) =
     bindE (file_lru_load_from_disk disk mem name (length (cstr name)) w) (\<lambda>(x, w). Inr (w, case x of None \<Rightarrow> P | Some p \<Rightarrow> insert p P, out))"
| "lru_exec (InsertFile p) (w, P, out) =
     bindE (borrow_insert p w) (\<lambda>(x, w). Inr (w, P - {p}, case x of None \<Rightarrow> out | Some e \<Rightarrow> out(e := out e + 1)))"
| "lru_exec (Return p) (w, P, out) = bindE (file_lru_return (Some p) w) (\<lambda>w. Inr (w, P, out(p := out p - 1)))"
| "lru_exec PurgeOne (w, P, out) = bindE (purge_one w) (\<lambda>x. Inr (case x of None \<Rightarrow> w | Some w \<Rightarrow> w, P, out))"
| "lru_exec (Setup folder root len sz) (w, P, out) = bindE (file_lru_setup folder root len sz w) (\<lambda>(s, w). Inr (w, P, out))"
| "lru_exec (SetBloom bf) (w, P, out) = Inr (file_lru_set_bloom_filter bf w, P, out)"

text \<open>
  What the callers keep to: names are NUL-terminated and of the set \<open>N\<close>, only files that were read are inserted and only
  borrowed files are returned, \<^verbatim>\<open>malloc\<close> gives unused memory, and the counts stay within an \<^verbatim>\<open>int\<close>.
\<close>

fun lru_call_ok :: "byte list set \<Rightarrow> lru_call \<Rightarrow> lru_state \<Rightarrow> bool" where
  "lru_call_ok N (Lookup name) (w, P, out) \<longleftrightarrow> has_nul name \<and> cstr name \<in> N \<and> (\<forall>a. int (out a) + 1 < 2 ^ 31)"
| "lru_call_ok N (Load disk mem name) (w, P, out) \<longleftrightarrow> has_nul name \<and> cstr name \<in> N \<and> (\<forall>p. mem = Some p \<longrightarrow> files w p = None)"
| "lru_call_ok N (InsertFile p) (w, P, out) \<longleftrightarrow> p \<in> P \<and> (\<forall>a. int (out a) + 1 < 2 ^ 31) \<and>
     (lru_size_max w \<le> 0 \<longrightarrow> lru_size_total w + file_size (the (files w p)) < 2 ^ 31)"
| "lru_call_ok N (Return p) (w, P, out) \<longleftrightarrow> out p > 0"
| "lru_call_ok N PurgeOne s \<longleftrightarrow> True"
| "lru_call_ok N (Setup folder root len sz) s \<longleftrightarrow> (\<forall>r. root = Some r \<longrightarrow> len \<le> int (length r)) \<and> - (2 ^ 31) \<le> sz \<and> sz < 2 ^ 31"
| "lru_call_ok N (SetBloom bf) s \<longleftrightarrow> (\<forall>b. bf = Some b \<longrightarrow> bloom_inv b)"

inductive lru_reachable :: "byte list set \<Rightarrow> lru_state \<Rightarrow> bool" for N where
  lru_initial: "lru_reachable N (file_lru_start, {}, \<lambda>_. 0)"
| lru_call: "lru_reachable N s \<Longrightarrow> lru_call_ok N c s \<Longrightarrow> lru_exec c s = Inr s' \<Longrightarrow> lru_reachable N s'"

definition keeps_borrowed :: "lru_state \<Rightarrow> lru_state \<Rightarrow> bool" where
  "keeps_borrowed s s' = (case s of (w, P, out) \<Rightarrow> case s' of (w', P', out') \<Rightarrow>
     \<forall>a. out a > 0 \<longrightarrow> out' a > 0 \<longrightarrow> ident_of (files w') a = ident_of (files w) a)"

lemma ok_borrowed_alloc:
  assumes "lru_ok N w xs ys P out" "out a > 0"
  shows "files w a \<noteq> None"
  using shapeD(3) [OF lru_okD(1) [OF assms(1)]] assms(2) unfolding lru_facts_def by auto

lemma stable_keeps:
  assumes "stable w w'" "lru_ok N w' xs' ys' P' out'"
  shows "keeps_borrowed (w, P, out) (w', P', out')"
  unfolding keeps_borrowed_def
proof (clarsimp)
  fix a assume "0 < out' a"
  then have "ident_of (files w') a \<noteq> None" using ok_borrowed_alloc [OF assms(2), of a] by (simp add: ident_of_def)
  then show "ident_of (files w') a = ident_of (files w) a" using assms(1) [unfolded stable_def, rule_format, of a] by auto
qed

lemma setup_ok:
  assumes "lru_ok N w xs ys P out" "\<forall>r. root = Some r \<longrightarrow> len \<le> int (length r)" "- (2 ^ 31) \<le> sz" "sz < 2 ^ 31"
  shows "\<exists>x w'. file_lru_setup folder root len sz w = Inr (x, w') \<and> files w' = files w \<and> lru_ok N w' xs ys P out"
proof -
  note lr = lru_okD(8) [OF assms(1)]
  have ok: "lru_ok N (w\<lparr>lru_root_path := b, lru_root_path_length := l, lru_size_max := sz\<rparr>) xs ys P out" if "length b = LRU_PATH_MAX" for b l
    using assms(1,3,4) that by (simp add: lru_ok_def lru_shape_def)
  show ?thesis
  proof (cases root)
    case (Some r)
    show ?thesis
    proof (cases "len \<le> 0 \<or> len \<ge> int LRU_PATH_MAX \<or> folder (cstr (take (nat len) r @ [0])) \<noteq> Some True")
      case True
      then show ?thesis using assms(1,2) Some by (auto simp: file_lru_setup_def split: option.splits)
    next
      case False
      then have "length (take (nat len) r @ [0]) \<le> length (lru_root_path w)" "nat len \<le> length r" using lr assms(2) Some by auto
      then obtain b where "put_at 0 (take (nat len) r @ [0]) (lru_root_path w) = Inr b" "length b = LRU_PATH_MAX"
        using put_at_length [of 0 "take (nat len) r @ [0]" "lru_root_path w"] lr by auto
      then show ?thesis using False Some ok \<open>nat len \<le> length r\<close> by (simp add: file_lru_setup_def)
    qed
  qed (use assms(1) in \<open>simp add: file_lru_setup_def\<close>)
qed

lemma exec_okI:
  "lru_exec c s = Inr (w', P', out') \<Longrightarrow> lru_ok N w' xs' ys' P' out' \<Longrightarrow> keeps_borrowed s (w', P', out') \<Longrightarrow>
   \<exists>w' P' out' xs' ys'. lru_exec c s = Inr (w', P', out') \<and> lru_ok N w' xs' ys' P' out' \<and> keeps_borrowed s (w', P', out')"
  by blast

lemma exec_ok:
  assumes "lru_ok N w xs ys P out" "names_ok N" "lru_call_ok N c (w, P, out)"
  shows "\<exists>w' P' out' xs' ys'. lru_exec c (w, P, out) = Inr (w', P', out') \<and> lru_ok N w' xs' ys' P' out' \<and>
    keeps_borrowed (w, P, out) (w', P', out')"
proof (cases c)
  case (Lookup name)
  then obtain x w' where x: "borrow_lookup name w = Inr (x, w')" "stable w w'"
    "case x of Refused \<Rightarrow> w' = w
     | Absent len \<Rightarrow> w' = w \<and> len = length (cstr name) \<and> 0 < len \<and> (\<forall>a \<in> set xs. fname (the (files w a)) \<noteq> cstr name)
     | Found p \<Rightarrow> p \<in> set xs \<and> fname (the (files w p)) = cstr name \<and> lru_ok N w' xs ys P (out(p := out p + 1))"
    using lookup_ok [OF assms(1,2), of name] assms(3) by auto
  then have ok: "lru_ok N w' xs ys P (case x of Found p \<Rightarrow> out(p := out p + 1) | _ \<Rightarrow> out)" using assms(1) by (cases x) auto
  show ?thesis by (rule exec_okI [OF _ ok stable_keeps [OF x(2) ok]]) (simp add: Lookup x(1))
next
  case (Load disk mem name)
  then obtain x w' where x: "file_lru_load_from_disk disk mem name (length (cstr name)) w = Inr (x, w')"
      "\<forall>a. files w a \<noteq> None \<longrightarrow> files w' a = files w a" "lru_ok N w' xs ys (case x of None \<Rightarrow> P | Some p \<Rightarrow> insert p P) out"
    using load_ok [OF assms(1), of name mem disk] assms(3) by auto
  have keeps: "keeps_borrowed (w, P, out) (w', case x of None \<Rightarrow> P | Some p \<Rightarrow> insert p P, out)"
    using x(2) ok_borrowed_alloc [OF assms(1)] by (simp add: keeps_borrowed_def ident_of_def)
  show ?thesis by (rule exec_okI [OF _ x(3) keeps]) (simp add: Load x(1))
next
  case (InsertFile p)
  then have p: "p \<in> P" using assms(3) by simp
  then obtain n where n: "files w p = Some n" using shape_alloc [OF lru_okD(1) [OF assms(1)], of p] by auto
  obtain x w' xs' ys' where x: "borrow_insert p w = Inr (x, w')" "stable w w'"
      "lru_ok N w' xs' ys' (P - {p}) (case x of None \<Rightarrow> out | Some e \<Rightarrow> out(e := out e + 1))"
    using borrow_insert_ok [OF assms(1,2) p n] assms(3) InsertFile n by auto
  show ?thesis by (rule exec_okI [OF _ x(3) stable_keeps [OF x(2,3)]]) (simp add: InsertFile x(1))
next
  case (Return p)
  have "out p > 0" using assms(3) Return by simp
  from return_ok [OF assms(1) this]
  obtain w' ys' where x: "file_lru_return (Some p) w = Inr w'" "stable w w'" "lru_ok N w' xs ys' P (out(p := out p - 1))" by blast
  show ?thesis by (rule exec_okI [OF _ x(3) stable_keeps [OF x(2,3)]]) (simp add: Return x(1))
next
  case PurgeOne
  show ?thesis
  proof (cases "xs = []")
    case True
    then have "head (file_lru w) = None" using shapeD(1) [OF lru_okD(1) [OF assms(1)]] by (simp add: dll_def ends_def)
    then have "lru_exec c (w, P, out) = Inr (w, P, out)" using PurgeOne by (simp add: purge_one_def)
    then show ?thesis using assms(1) stable_keeps [OF stable_refl assms(1)] by blast
  next
    case False
    obtain w' xs' ys' where w': "purge_one w = Inr (Some w')" "purges N P out w xs ys w' xs' ys'" "lru_size_total w' = lru_size_total w"
      using purge_one_step [OF lru_okD(1) [OF assms(1)] False] by blast
    have fin: "finite (set xs)" "set xs' \<subseteq> set xs" "lru_shape N w' xs' ys' P out" "stable w w'" using w'(2) by (auto simp: purges_def)
    have "sizes (files w') (set xs') = sizes (files w) (set xs')" using shape_alloc [OF fin(3)] by (intro stable_sizes [OF fin(4)]) blast
    also have "\<dots> \<le> sizes (files w) (set xs)"
    proof -
      have "sizes (files w) (set xs) = sizes (files w) (set xs') + sizes (files w) (set xs - set xs')"
        unfolding sizes_def by (metis fin(1,2) add.commute sum.subset_diff)
      then show ?thesis using sizes_nonneg [OF lru_okD(1) [OF assms(1)], of "set xs - set xs'"] by simp
    qed
    finally have ok: "lru_ok N w' xs' ys' P out" using assms(1) w'(2,3) unfolding lru_ok_def purges_def by auto
    show ?thesis by (rule exec_okI [OF _ ok stable_keeps [OF fin(4) ok]]) (simp add: PurgeOne w'(1))
  qed
next
  case (Setup folder root len sz)
  then have "\<forall>r. root = Some r \<longrightarrow> len \<le> int (length r)" "- (2 ^ 31) \<le> sz" "sz < 2 ^ 31" using assms(3) by auto
  from setup_ok [OF assms(1) this, of folder]
  obtain x w' where x: "file_lru_setup folder root len sz w = Inr (x, w')" "files w' = files w" "lru_ok N w' xs ys P out" by blast
  have keeps: "keeps_borrowed (w, P, out) (w', P, out)" using x(2) by (simp add: keeps_borrowed_def)
  show ?thesis by (rule exec_okI [OF _ x(3) keeps]) (simp add: Setup x(1))
next
  case (SetBloom bf)
  then have ok: "lru_ok N (file_lru_set_bloom_filter bf w) xs ys P out" using assms(1,3) by (auto simp: lru_ok_def lru_shape_def file_lru_set_bloom_filter_def)
  have keeps: "keeps_borrowed (w, P, out) (file_lru_set_bloom_filter bf w, P, out)" by (simp add: keeps_borrowed_def file_lru_set_bloom_filter_def)
  show ?thesis by (rule exec_okI [OF _ ok keeps]) (simp add: SetBloom)
qed

lemma start_ok: "lru_ok N file_lru_start [] [] {} (\<lambda>_. 0)"
proof -
  have i: "info Map.empty = Map.empty" by (simp add: info_def fun_eq_iff)
  have "tree_of (info Map.empty) RB_NULL []" unfolding tree_of_def by (intro exI [of _ Map.empty]) simp
  then have "lru_shape N file_lru_start [] [] {} (\<lambda>_. 0)"
    using dll_empty [of lru_prev_f lru_next_f] by (simp add: lru_shape_def file_lru_start_def lru_facts_def i)
  then show ?thesis by (simp add: lru_ok_def file_lru_start_def sizes_def length_patched LRU_PATH_MAX_def)
qed

lemma reachable_ok:
  assumes "names_ok N" "lru_reachable N s"
  shows "\<exists>xs ys. lru_ok N (fst s) xs ys (fst (snd s)) (snd (snd s))"
  using assms(2)
proof (induction rule: lru_reachable.induct)
  case lru_initial
  then show ?case using start_ok by auto
next
  case (lru_call s c s')
  obtain w P out where s: "s = (w, P, out)" by (cases s)
  then obtain xs ys where "lru_ok N w xs ys P out" using lru_call.IH by auto
  moreover have "lru_call_ok N c (w, P, out)" using lru_call.hyps(2) s by simp
  ultimately obtain w' P' out' xs' ys' where w': "lru_exec c (w, P, out) = Inr (w', P', out')" "lru_ok N w' xs' ys' P' out'"
    using exec_ok [OF _ assms(1)] by blast
  then have "s' = (w', P', out')" using lru_call.hyps(3) s by simp
  then show ?case using w'(2) by (intro exI [of _ xs'] exI [of _ ys']) simp
qed

section \<open>Examples\<close>

definition ex_name_a :: "byte list" where "ex_name_a = bytes ''a'' @ [0]"

definition ex_disk :: "byte list \<Rightarrow> disk_file option" where
  "ex_disk path = Some \<lparr>st_regular = True, st_size = 2, can_open = True, contents = bytes ''hi''\<rparr>"

definition ex_file :: file_lru_t where
  "ex_file = loaded ex_name_a 2 \<lparr>st_regular = True, st_size = 2, can_open = True, contents = bytes ''hi''\<rparr>"

definition ex_lru1 :: lru_state where
  "ex_lru1 = (file_lru_start\<lparr>files := [0 \<mapsto> ex_file]\<rparr>, {0}, \<lambda>_. 0)"

definition ex_lru2 :: lru_state where
  "ex_lru2 = (file_lru_start\<lparr>files := [0 \<mapsto> ex_file\<lparr>borrow_cnt := 1\<rparr>], lru_size_total := 2,
     file_lru := \<lparr>head = Some 0, tail = Some 0\<rparr>, file_lru_rb := RB_NODE RB_BLACK RB_NULL 0 RB_NULL\<rparr>, {}, (\<lambda>_. 0)(0 := 1))"

definition ex_N :: "byte list set" where "ex_N = {bytes ''a'', bytes ''ab''}"

lemma ex_names: "names_ok ex_N"
proof -
  have "hash_value (bytes ''a'') = 50462976 \<and> hash_value (bytes ''ab'') = 50488162" by code_simp
  then show ?thesis by (simp add: names_ok_def ex_N_def i32_def LRU_PATH_MAX_def)
qed

lemma cstr_ex: "cstr ex_name_a = bytes ''a''" "has_nul ex_name_a"
  by (simp_all add: ex_name_a_def cstr_def has_nul_def)

lemma ex_load: "lru_exec (Load ex_disk (Some 0) ex_name_a) (file_lru_start, {}, \<lambda>_. 0) = Inr ex_lru1"
proof -
  have "take 1 ex_name_a = bytes ''a''" "length ex_name_a = 2" by (simp_all add: ex_name_a_def)
  then have h: "file_lru_name_hash ex_name_a 1 = Inr (hash_value (bytes ''a''))" by (simp add: file_lru_name_hash_def)
  have root: "cstr (lru_root_path file_lru_start) = bytes ''./''" by (simp add: file_lru_start_def patched_def cstr_def)
  show ?thesis using h root \<open>take 1 ex_name_a = bytes ''a''\<close>
    by (simp add: file_lru_load_from_disk_def cstr_ex ex_disk_def ex_lru1_def ex_file_def loaded_def Let_def wrap32_def LRU_PATH_MAX_def
        file_lru_start_def)
qed

lemma ex_insert: "lru_exec (InsertFile 0) ex_lru1 = Inr ex_lru2"
  by (simp add: ex_lru1_def ex_lru2_def borrow_insert_def file_lru_start_def wrap32_def file_at_def ex_file_def loaded_def insert_file_def
      add_borrow_def upd_file_def i32_def RB_INSERT_def DOUBLE_LL_JOIN_HEAD_def store_def lru_prev_f_def lru_next_f_def ll_empty_def Let_def)

lemma ex_lru_reachable: "lru_reachable ex_N ex_lru1" "lru_reachable ex_N ex_lru2"
proof -
  have "lru_call_ok ex_N (Load ex_disk (Some 0) ex_name_a) (file_lru_start, {}, \<lambda>_. 0)"
    by (simp add: cstr_ex ex_N_def file_lru_start_def)
  from lru_call [OF lru_initial this ex_load] show 1: "lru_reachable ex_N ex_lru1" .
  have "lru_call_ok ex_N (InsertFile 0) ex_lru1" by (simp add: ex_lru1_def file_lru_start_def)
  from lru_call [OF 1 this ex_insert] show "lru_reachable ex_N ex_lru2" .
qed

text \<open>The same cache with a filter that knows the name.\<close>

definition ex_bf :: "path_bloom_filter_t option" where
  "ex_bf = bloom_add (path_bloom_filter_new True) ex_name_a"

definition ex_lru3 :: lru_state where
  "ex_lru3 = (file_lru_set_bloom_filter ex_bf (fst ex_lru2), {}, (\<lambda>_. 0)(0 := 1))"

lemma ex_path: "bloom_path_ok ex_name_a"
  by (simp add: bloom_path_ok_def cstr_ex ESQ_PATH_BLOOM_MAX_def)

lemma ex_bf_inv: "bloom_ptr_inv ex_bf"
  unfolding ex_bf_def by (rule bloom.inv_add [OF bloom_new_inv ex_path])

lemma ex_bf_has: "path_bloom_filter_check_exist2 ex_bf (Some ex_name_a) (int (length (cstr ex_name_a))) \<noteq> Some 0"
proof -
  have "bloom_exists ex_bf ex_name_a" unfolding ex_bf_def by (rule bloom.exists_add [OF bloom_new_inv ex_path])
  moreover obtain p where p: "ex_bf = Some p" using ex_bf_inv by (auto simp: bloom_ptr_inv_def split: option.splits)
  ultimately show ?thesis using bloom_path_length [OF ex_path] ex_path unfolding p
    by (simp add: bloom_exists_def path_bloom_filter_check_exist_def path_bloom_filter_check_exist2_def bloom_path_ok_def)
qed

lemma ptr_invD: "bloom_ptr_inv x \<Longrightarrow> x = Some b \<Longrightarrow> bloom_inv b"
  by (simp add: bloom_ptr_inv_def)

lemma ex_lru3_reachable: "lru_reachable ex_N ex_lru3"
proof (rule lru_call [OF ex_lru_reachable(2), of "SetBloom ex_bf"])
  show "lru_call_ok ex_N (SetBloom ex_bf) ex_lru2" using ptr_invD [OF ex_bf_inv] by simp
  show "lru_exec (SetBloom ex_bf) ex_lru2 = Inr ex_lru3" by (simp add: ex_lru2_def ex_lru3_def)
qed

section \<open>Properties\<close>



text \<open>
  C6.  No file is lost and none is freed too early: in every reachable state the allocated files are exactly those in the
  tree, those that are borrowed, and those just read from the disk; the counter of each file is the number of its
  borrowers, and a borrowed file gives its data.  The names in use are shorter than the path buffer and have hashes whose differences fit an \<^verbatim>\<open>int\<close>.
\<close>

theorem file_lru_memory:
  assumes "names_ok N" "lru_reachable N (w, P, out)"
  shows "(files w a \<noteq> None \<longleftrightarrow> a \<in> set (RB_FOREACH (file_lru_rb w)) \<or> out a > 0 \<or> a \<in> P) \<and>
    (\<forall>n. files w a = Some n \<longrightarrow> borrow_cnt n = int (out a) \<and>
       file_lru_get_data (Some a) w = Inr (ESQ_OK, Some (file_data n, file_size n)) \<and> int (length (file_data n)) = file_size n)"
proof -
  obtain xs ys where ok: "lru_ok N w xs ys P out" using reachable_ok [OF assms] by auto
  note sh = lru_okD(1) [OF ok]
  obtain m where m: "rb_abs (info_key (info (files w))) (file_lru_rb w) m" "ran m = set xs" using shapeD(4) [OF sh] by (auto simp: tree_of_def)
  have tree: "set (RB_FOREACH (file_lru_rb w)) = set xs" using rb_abs_foreach [OF m(1)] rb_abs_ran [OF m(1)] m(2) by simp
  have "dom (info (files w)) = set xs \<union> set ys \<union> P" using shapeD(3) [OF sh] unfolding lru_facts_def by simp
  then have dom: "files w a \<noteq> None \<longleftrightarrow> a \<in> set xs \<union> set ys \<union> P" unfolding domIff [symmetric] by (simp add: dom_def set_eq_iff)
  have "a \<in> set ys \<Longrightarrow> out a > 0" "out a > 0 \<Longrightarrow> files w a \<noteq> None" using lru_okD(2) [OF ok] ok_borrowed_alloc [OF ok] by blast+
  then have "files w a \<noteq> None \<longleftrightarrow> a \<in> set (RB_FOREACH (file_lru_rb w)) \<or> out a > 0 \<or> a \<in> P" unfolding tree using dom by blast
  moreover have "borrow_cnt n = int (out a) \<and> file_lru_get_data (Some a) w = Inr (ESQ_OK, Some (file_data n, file_size n)) \<and>
      int (length (file_data n)) = file_size n" if n: "files w a = Some n" for n
  proof -
    have "a \<in> set xs \<union> set ys \<union> P" using dom n by simp
    from facts_node [OF shapeD(3) [OF sh] this] n have "borrow_cnt n = int (out a)" "node_wf N n" by auto
    then show ?thesis using n by (simp add: file_lru_get_data_def file_at_def node_wf_def)
  qed
  ultimately show ?thesis by blast
qed

theorem file_lru_memory_witness:
  "files (fst ex_lru2) 0 \<noteq> None \<and> file_lru_get_data (Some 0) (fst ex_lru2) = Inr (ESQ_OK, Some (bytes ''hi'', 2))"
proof -
  obtain w P out where e: "ex_lru2 = (w, P, out)" by (cases ex_lru2)
  have n: "files w 0 = Some (ex_file\<lparr>borrow_cnt := 1\<rparr>)" "out 0 > 0" using e by (auto simp: ex_lru2_def)
  have "file_data (ex_file\<lparr>borrow_cnt := 1\<rparr>) = bytes ''hi''" "file_size (ex_file\<lparr>borrow_cnt := 1\<rparr>) = 2" by (simp_all add: ex_file_def loaded_def)
  then show ?thesis using file_lru_memory [OF ex_names, of w P out 0] ex_lru_reachable(2) n unfolding e by simp
qed

lemma foreach_sizes:
  assumes "lru_shape N w xs ys P out"
  shows "(\<Sum>a\<leftarrow>RB_FOREACH (file_lru_rb w). file_size (the (files w a))) = sizes (files w) (set xs)"
proof -
  obtain m where m: "rb_abs (info_key (info (files w))) (file_lru_rb w) m" "ran m = set xs" using shapeD(4) [OF assms] by (auto simp: tree_of_def)
  have d: "distinct (inorder (file_lru_rb w))" using m(1) sorted_distinct unfolding rb_abs_def by blast
  have "file_size (the (files w a)) = snd (snd (the (ident_of (files w) a)))" if "a \<in> set xs" for a
    using shape_alloc [OF assms, of a] that by (auto simp: ident_of_def ident_def)
  then show ?thesis
    using rb_abs_foreach [OF m(1)] rb_abs_ran [OF m(1)] m(2) sum_list_distinct_conv_sum_set [OF d, of "\<lambda>a. file_size (the (files w a))"]
    by (simp add: sizes_def)
qed

text \<open>
  C9.  The cache keeps to its limit: after a file no larger than a positive limit has been inserted, in any reachable state
  and after any purges, the sizes of all cached files add up to no more than the limit.  The names in use are shorter than the path buffer and have hashes whose differences fit an \<^verbatim>\<open>int\<close>.
\<close>

theorem file_lru_bounded:
  assumes "names_ok N" "lru_reachable N (w, P, out)" "lru_call_ok N (InsertFile p) (w, P, out)"
    and "0 < lru_size_max w" "file_size (the (files w p)) \<le> lru_size_max w" "borrow_insert p w = Inr (Some p, w')"
  shows "(\<Sum>a\<leftarrow>RB_FOREACH (file_lru_rb w'). file_size (the (files w' a))) \<le> lru_size_max w'"
proof -
  obtain xs ys where ok: "lru_ok N w xs ys P out" using reachable_ok [OF assms(1,2)] by auto
  have p: "p \<in> P" "\<And>a. int (out a) + 1 < 2 ^ 31" using assms(3) by auto
  obtain n where n: "files w p = Some n" using shape_alloc [OF lru_okD(1) [OF ok], of p] p(1) by auto
  obtain xs' ys' where w': "lru_ok N w' xs' ys' (P - {p}) (out(p := out p + 1))" "lru_size_max w' = lru_size_max w"
      "sizes (files w') (set xs') \<le> lru_size_max w"
    using borrow_insert_ok [OF ok assms(1) p(1) n p(2)] assms(4-6) n by auto
  then show ?thesis using foreach_sizes [OF lru_okD(1) [OF w'(1)]] by simp
qed

theorem file_lru_bounded_witness:
  "\<exists>w'. borrow_insert 0 (fst ex_lru1) = Inr (Some 0, w') \<and>
     (\<Sum>a\<leftarrow>RB_FOREACH (file_lru_rb w'). file_size (the (files w' a))) \<le> lru_size_max w' \<and> lru_size_max w' = 4096"
proof -
  obtain w P out where e: "ex_lru1 = (w, P, out)" by (cases ex_lru1)
  have b: "borrow_insert 0 w = Inr (Some 0, fst ex_lru2)"
    using ex_insert e by (auto simp: ex_lru1_def ex_lru2_def borrow_insert_def file_lru_start_def wrap32_def file_at_def ex_file_def loaded_def insert_file_def
      add_borrow_def upd_file_def i32_def RB_INSERT_def DOUBLE_LL_JOIN_HEAD_def store_def lru_prev_f_def lru_next_f_def ll_empty_def Let_def)
  have "lru_call_ok ex_N (InsertFile 0) (w, P, out)" "0 < lru_size_max w" "file_size (the (files w 0)) \<le> lru_size_max w"
    using e by (auto simp: ex_lru1_def file_lru_start_def ex_file_def loaded_def)
  then have "(\<Sum>a\<leftarrow>RB_FOREACH (file_lru_rb (fst ex_lru2)). file_size (the (files (fst ex_lru2) a))) \<le> lru_size_max (fst ex_lru2)"
    using file_lru_bounded [OF ex_names _ _ _ _ b, of P out] ex_lru_reachable(1) unfolding e by blast
  moreover have "lru_size_max (fst ex_lru2) = 4096" by (simp add: ex_lru2_def file_lru_start_def)
  ultimately show ?thesis using b unfolding e by (intro exI [of _ "fst ex_lru2"]) simp
qed

text \<open>
  C12.  A purge of the whole cache ends and empties the tree; exactly the files that are borrowed or just being read stay
  allocated.  The recorded size stays as it was, although nothing is cached any more.  The names in use are shorter than the path buffer and have hashes whose differences fit an \<^verbatim>\<open>int\<close>.
\<close>

theorem file_lru_purge_all_empties:
  assumes "names_ok N" "lru_reachable N (w, P, out)"
  shows "\<exists>w'. file_lru_purge_all w = Inr w' \<and> file_lru_rb w' = RB_NULL \<and> file_lru w' = ll_empty \<and>
    dom (files w') = {a. out a > 0} \<union> P \<and> lru_size_total w' = lru_size_total w"
proof -
  obtain xs ys where ok: "lru_ok N w xs ys P out" using reachable_ok [OF assms] by auto
  note sh = lru_okD(1) [OF ok]
  have "length xs < rb_size (file_lru_rb w) + 1" using rb_size_sizes [OF shapeD(4,5) [OF sh]] by simp
  from purge_all_shape [OF sh this]
  obtain w' ys' where w': "file_lru_purge_all w = Inr w'" "purges N P out w xs ys w' [] ys'" "lru_size_total w' = lru_size_total w"
    unfolding file_lru_purge_all_def by blast
  have s: "lru_shape N w' [] ys' P out" "\<forall>a \<in> set ys' - set ys. out a > 0" using w'(2) by (auto simp: purges_def)
  have "rb_size (file_lru_rb w') = 0" using rb_size_sizes [OF shapeD(4,5) [OF s(1)]] by simp
  then have rb: "file_lru_rb w' = RB_NULL" by (cases "file_lru_rb w'") auto
  have ll: "file_lru w' = ll_empty" using shapeD(1) [OF s(1)] by (simp add: dll_def ends_def ll_empty_def)
  have "dom (files w') = dom (info (files w'))" by (simp add: dom_def)
  then have dom: "dom (files w') = set ys' \<union> P" using shapeD(3) [OF s(1)] unfolding lru_facts_def by simp
  have "out a > 0" if "a \<in> set ys'" for a using s(2) lru_okD(2) [OF ok] that by blast
  moreover have "a \<in> set ys' \<union> P" if "out a > 0" for a
    using shapeD(3) [OF s(1)] dom that unfolding lru_facts_def by auto
  ultimately show ?thesis using w'(1,3) rb ll dom by auto
qed

theorem file_lru_purge_all_empties_witness:
  "\<exists>w'. file_lru_purge_all (fst ex_lru2) = Inr w' \<and> dom (files w') = {0} \<and> file_lru_rb w' = RB_NULL \<and> lru_size_total w' = 2"
proof -
  obtain w P out where e: "ex_lru2 = (w, P, out)" by (cases ex_lru2)
  then have "P = {}" "{a. out a > 0} = {0}" "lru_size_total w = 2" by (auto simp: ex_lru2_def split: if_splits)
  then show ?thesis using file_lru_purge_all_empties [OF ex_names, of w P out] ex_lru_reachable(2) unfolding e by auto
qed

lemma borrowed_node:
  assumes "lru_ok N w xs ys P (out(p := out p + 1))" "p \<in> set xs"
  obtains n where "files w p = Some n" "borrow_cnt n = int (out p) + 1"
  using facts_node [OF shapeD(3) [OF lru_okD(1) [OF assms(1)]], of p] assms(2) by auto

lemma hit_found:
  assumes "names_ok N" "lru_reachable N (w, P, out)" "lru_call_ok N (Lookup name) (w, P, out)"
    and "p \<in> set (RB_FOREACH (file_lru_rb w))" "files w p = Some n" "cstr (file_name n) = cstr name" "cstr name \<noteq> []"
    and "path_bloom_filter_check_exist2 (lru_bloom_filter w) (Some name) (int (length (cstr name))) \<noteq> Some 0"
  shows "\<exists>w' n'. file_lru_borrow disk mem name w = Inr (Some p, w') \<and> files w' p = Some n' \<and>
    file_data n' = file_data n \<and> file_lru w' = file_lru w"
proof -
  obtain xs ys where ok: "lru_ok N w xs ys P out" using reachable_ok [OF assms(1,2)] by auto
  note sh = lru_okD(1) [OF ok]
  have nm: "has_nul name" "cstr name \<in> N" "\<And>a. int (out a) + 1 < 2 ^ 31" using assms(3) by auto
  obtain m where m: "rb_abs (info_key (info (files w))) (file_lru_rb w) m" "ran m = set xs" using shapeD(4) [OF sh] by (auto simp: tree_of_def)
  have p: "p \<in> set xs" using assms(4) rb_abs_foreach [OF m(1)] rb_abs_ran [OF m(1)] m(2) by simp
  obtain y where y: "RB_FIND (file_lru_name_cmp (hash_value (cstr name)) (length (cstr name)) name (files w)) (file_lru_rb w) = Inr y"
      "y = Some p \<longleftrightarrow> p \<in> set xs \<and> fname (the (files w p)) = cstr name"
    using find_file [OF sh assms(1) nm(1,2)] by blast
  have l: "length (cstr name) < LRU_PATH_MAX" using assms(1) nm(2) by (simp add: names_ok_def)
  obtain x w' where x: "borrow_lookup name w = Inr (x, w')" "stable w w'" "dom (files w') = dom (files w)"
    using lookup_ok [OF ok assms(1) nm] by blast
  have "file_lru_name_hash name (length (cstr name)) = Inr (hash_value (cstr name))"
    using has_nul_length_cstr [OF nm(1)] cstr_take [of name] by (simp add: file_lru_name_hash_def)
  moreover have "y = Some p" using y(2) p assms(5,6) by (simp add: fname_def)
  ultimately have "x = Found p" "file_lru w' = file_lru w"
    using x(1) assms(7,8) l strnlen_cstr [OF nm(1), of LRU_PATH_MAX] y(1)
    by (auto simp: borrow_lookup_def add_borrow_def upd_file_def bindE_def of_opt_def split: sum.splits if_splits option.splits)
  moreover have "files w' p \<noteq> None" using x(3) assms(5) by auto
  ultimately show ?thesis using x(1) stable_node [OF x(2) _ assms(5)] by (auto simp: file_lru_borrow_def)
qed

lemma ex_file_values:
  "file_data (ex_file\<lparr>borrow_cnt := 1\<rparr>) = bytes ''hi''" "cstr (file_name (ex_file\<lparr>borrow_cnt := 1\<rparr>)) = cstr ex_name_a" "cstr ex_name_a \<noteq> []"
  by (simp_all add: ex_file_def loaded_def ex_name_a_def cstr_def)

lemma ex_lru3_values:
  assumes "ex_lru3 = (w, P, out)"
  shows "files w 0 = Some (ex_file\<lparr>borrow_cnt := 1\<rparr>)" "file_lru_rb w = RB_NODE RB_BLACK RB_NULL 0 RB_NULL" "lru_bloom_filter w = ex_bf"
    "lru_call_ok ex_N (Lookup ex_name_a) (w, P, out)" "0 \<in> set (RB_FOREACH (file_lru_rb w))"
proof -
  show n: "files w 0 = Some (ex_file\<lparr>borrow_cnt := 1\<rparr>)" "file_lru_rb w = RB_NODE RB_BLACK RB_NULL 0 RB_NULL" "lru_bloom_filter w = ex_bf"
    using assms by (auto simp: ex_lru2_def ex_lru3_def file_lru_start_def file_lru_set_bloom_filter_def)
  have "out = (\<lambda>_. 0)(0 := 1)" using assms by (auto simp: ex_lru3_def)
  then show "lru_call_ok ex_N (Lookup ex_name_a) (w, P, out)" by (simp add: cstr_ex ex_N_def)
  show "0 \<in> set (RB_FOREACH (file_lru_rb w))" unfolding n(2) by code_simp
qed

lemma ex_hit: "\<exists>w'. file_lru_borrow disk mem ex_name_a (fst ex_lru3) = Inr (Some 0, w')"
proof -
  obtain w P out where e: "ex_lru3 = (w, P, out)" by (cases ex_lru3)
  note n = ex_lru3_values [OF e]
  have "lru_reachable ex_N (w, P, out)" using ex_lru3_reachable unfolding e .
  from hit_found [OF ex_names this n(4,5,1) ex_file_values(2,3), of disk mem] show ?thesis
    using ex_bf_has unfolding e n(3) by auto
qed

text \<open>
  C7.  What a borrower gets: in any reachable state a borrow that no other thread interrupts returns, and a file it gives out has
  the wanted name, counts one borrower more, and has the data that was cached before, or, when it is new, the first bytes of
  the file on the disk under the root path.  The names in use must be shorter than the path buffer and have hashes whose
  differences fit an \<^verbatim>\<open>int\<close>, no file has \<open>2 ^ 31 - 1\<close> borrowers, and without a limit the recorded size and that of the file together
  stay below \<open>2 ^ 31\<close>.
\<close>

theorem file_lru_borrow_correct:
  assumes "names_ok N" "lru_reachable N (w, P, out)" "lru_call_ok N (Lookup name) (w, P, out)"
    and "lru_call_ok N (Load disk mem name) (w, P, out)"
    and "\<And>f. \<lbrakk>lru_size_max w \<le> 0; disk (cstr (lru_root_path w) @ bytes ''/'' @ cstr name) = Some f\<rbrakk> \<Longrightarrow>
      lru_size_total w + wrap32 (st_size f) < 2 ^ 31"
  shows "\<exists>x w'. file_lru_borrow disk mem name w = Inr (x, w') \<and>
    (\<forall>p. x = Some p \<longrightarrow> (\<exists>n. files w' p = Some n \<and> cstr (file_name n) = cstr name \<and> borrow_cnt n = int (out p) + 1 \<and>
       (case files w p of
          Some n0 \<Rightarrow> file_data n = file_data n0
        | None \<Rightarrow> \<exists>f. disk (cstr (lru_root_path w) @ bytes ''/'' @ cstr name) = Some f \<and>
            file_data n = take (nat (file_size n)) (contents f))))"
proof -
  obtain xs ys where ok: "lru_ok N w xs ys P out" using reachable_ok [OF assms(1,2)] by auto
  have nm: "has_nul name" "cstr name \<in> N" "\<And>a. int (out a) + 1 < 2 ^ 31" "\<And>p. mem = Some p \<Longrightarrow> files w p = None" using assms(3,4) by auto
  obtain x w1 where x: "borrow_lookup name w = Inr (x, w1)" "stable w w1"
    "case x of Refused \<Rightarrow> w1 = w
     | Absent len \<Rightarrow> w1 = w \<and> len = length (cstr name) \<and> 0 < len \<and> (\<forall>a \<in> set xs. fname (the (files w a)) \<noteq> cstr name)
     | Found p \<Rightarrow> p \<in> set xs \<and> fname (the (files w p)) = cstr name \<and> lru_ok N w1 xs ys P (out(p := out p + 1))"
    using lookup_ok [OF ok assms(1) nm(1-3)] by blast
  show ?thesis
  proof (cases x)
    case Refused
    then show ?thesis using x(1) by (simp add: file_lru_borrow_def)
  next
    case (Found p)
    then have p: "p \<in> set xs" "fname (the (files w p)) = cstr name" "lru_ok N w1 xs ys P (out(p := out p + 1))" using x(3) by auto
    obtain n0 where n0: "files w p = Some n0" using shape_alloc [OF lru_okD(1) [OF ok], of p] p(1) by auto
    obtain n where n: "files w1 p = Some n" "borrow_cnt n = int (out p) + 1" by (rule borrowed_node [OF p(3,1)])
    have "fname n = cstr name" "file_data n = file_data n0" using stable_node [OF x(2) _ n0] n(1) p(2) n0 by auto
    then show ?thesis using x(1) Found n n0 by (simp add: file_lru_borrow_def fname_def)
  next
    case (Absent len)
    then have w1: "w1 = w" "len = length (cstr name)" using x(3) by auto
    obtain y w2 where y: "file_lru_load_from_disk disk mem name len w = Inr (y, w2)" "\<forall>a. files w a \<noteq> None \<longrightarrow> files w2 a = files w a"
      "lru_size_max w2 = lru_size_max w" "lru_size_total w2 = lru_size_total w" "lru_ok N w2 xs ys (case y of None \<Rightarrow> P | Some p \<Rightarrow> insert p P) out"
      "case y of None \<Rightarrow> w2 = w | Some p \<Rightarrow> mem = Some p \<and> (\<exists>n f. files w2 p = Some n \<and> fname n = cstr name \<and>
       file_size n = wrap32 (st_size f) \<and> (0 < lru_size_max w \<longrightarrow> file_size n \<le> lru_size_max w) \<and>
       disk (cstr (lru_root_path w) @ bytes ''/'' @ cstr name) = Some f \<and> file_data n = take (nat (file_size n)) (contents f))"
      using load_ok [OF ok nm(1,2), of mem disk] nm(4) unfolding w1(2) by blast
    show ?thesis
    proof (cases y)
      case None
      then show ?thesis using x(1) y(1) Absent w1 by (simp add: file_lru_borrow_def)
    next
      case (Some p)
      then obtain n f where n: "mem = Some p" "files w2 p = Some n" "fname n = cstr name"
          "disk (cstr (lru_root_path w) @ bytes ''/'' @ cstr name) = Some f" "file_data n = take (nat (file_size n)) (contents f)"
          "file_size n = wrap32 (st_size f)"
        using y(6) by auto
      have ok2: "lru_ok N w2 xs ys (insert p P) out" using y(5) Some by simp
      obtain z w' xs' ys' where z: "borrow_insert p w2 = Inr (z, w')" "stable w2 w'"
          "lru_ok N w' xs' ys' (insert p P - {p}) (case z of None \<Rightarrow> out | Some e \<Rightarrow> out(e := out e + 1))"
          "case z of None \<Rightarrow> True | Some e \<Rightarrow> e \<in> set xs' \<and> fname (the (files w' e)) = fname n \<and> (e \<noteq> p \<longrightarrow> e \<in> set xs)"
        using borrow_insert_ok [OF ok2 assms(1) _ n(2) nm(3)] y(3,4) assms(5) [OF _ n(4)] n(6) by auto
      have run: "file_lru_borrow disk mem name w = Inr (z, w')" using x(1) y(1) Absent w1 Some z(1) by (simp add: file_lru_borrow_def)
      show ?thesis
      proof (cases z)
        case (Some e)
        then have e: "lru_ok N w' xs' ys' (insert p P - {p}) (out(e := out e + 1))" "e \<in> set xs'"
            "fname (the (files w' e)) = cstr name" "e \<noteq> p \<longrightarrow> e \<in> set xs" using z(3,4) n(3) by auto
        obtain n' where n': "files w' e = Some n'" "borrow_cnt n' = int (out e) + 1" by (rule borrowed_node [OF e(1,2)])
        have "case files w e of Some n0 \<Rightarrow> file_data n' = file_data n0
          | None \<Rightarrow> file_data n' = take (nat (file_size n')) (contents f)"
        proof (cases "e = p")
          case True
          then show ?thesis using stable_node [OF z(2) _ n(2)] n' n(5) nm(4) [OF n(1)] by auto
        next
          case False
          then obtain n0 where "files w e = Some n0" using e(4) shape_alloc [OF lru_okD(1) [OF ok], of e] by auto
          then show ?thesis using stable_node [OF z(2), of e n0] n'(1) y(2) by auto
        qed
        then show ?thesis using run Some n' e(3) n(4) by (simp add: fname_def split: option.splits)
      qed (use run in simp)
    qed
  qed
qed

theorem file_lru_borrow_correct_witness:
  "\<exists>w' n. file_lru_borrow ex_disk (Some 7) ex_name_a (fst ex_lru3) = Inr (Some 0, w') \<and> files w' 0 = Some n \<and>
    file_data n = bytes ''hi'' \<and> borrow_cnt n = 2"
proof -
  obtain w P out where e: "ex_lru3 = (w, P, out)" by (cases ex_lru3)
  have n: "files w 0 = Some (ex_file\<lparr>borrow_cnt := 1\<rparr>)" "out 0 = 1" "lru_size_max w > 0" "file_data ex_file = bytes ''hi''"
    using e by (auto simp: ex_lru2_def ex_lru3_def file_lru_start_def file_lru_set_bloom_filter_def ex_file_def loaded_def)
  have c: "lru_call_ok ex_N (Lookup ex_name_a) (w, P, out)" "lru_call_ok ex_N (Load ex_disk (Some 7) ex_name_a) (w, P, out)"
    using e by (auto simp: cstr_ex ex_N_def ex_lru2_def ex_lru3_def file_lru_start_def file_lru_set_bloom_filter_def)
  have r: "lru_reachable ex_N (w, P, out)" using ex_lru3_reachable unfolding e .
  obtain v where v: "file_lru_borrow ex_disk (Some 7) ex_name_a w = Inr (Some 0, v)" using ex_hit [of ex_disk "Some 7"] unfolding e by auto
  have "\<exists>n. files v 0 = Some n \<and> file_data n = bytes ''hi'' \<and> borrow_cnt n = 2"
    using file_lru_borrow_correct [OF ex_names r c] v n by force
  then show ?thesis using v unfolding e by auto
qed

text \<open>
  C8.  A cached file is found: in any reachable state, when a file of the wanted name is in the tree and the Bloom filter does
  not refuse the name, a borrow gives out that very file with its data and asks neither the disk nor \<^verbatim>\<open>malloc\<close>.  This needs that the
  names in use (\<open>N\<close>) are shorter than the path buffer and have hashes whose differences fit an \<^verbatim>\<open>int\<close>: the order of the tree is the
  sign of that difference, and with hashes farther apart it is no order.
\<close>

theorem file_lru_hit:
  assumes "names_ok N" "lru_reachable N (w, P, out)" "lru_call_ok N (Lookup name) (w, P, out)"
    and "p \<in> set (RB_FOREACH (file_lru_rb w))" "files w p = Some n" "cstr (file_name n) = cstr name" "cstr name \<noteq> []"
    and "path_bloom_filter_check_exist2 (lru_bloom_filter w) (Some name) (int (length (cstr name))) \<noteq> Some 0"
  shows "\<exists>w' n'. file_lru_borrow disk mem name w = Inr (Some p, w') \<and> files w' p = Some n' \<and>
    file_data n' = file_data n \<and> file_lru w' = file_lru w"
  by (rule hit_found [OF assms])

theorem file_lru_hit_witness:
  "\<exists>w' n'. file_lru_borrow (\<lambda>_. None) None ex_name_a (fst ex_lru3) = Inr (Some 0, w') \<and> files w' 0 = Some n' \<and>
    file_data n' = bytes ''hi'' \<and> file_lru w' = file_lru (fst ex_lru3)"
proof -
  obtain w P out where e: "ex_lru3 = (w, P, out)" by (cases ex_lru3)
  note n = ex_lru3_values [OF e]
  have "lru_reachable ex_N (w, P, out)" using ex_lru3_reachable unfolding e .
  from file_lru_hit [OF ex_names this n(4,5,1) ex_file_values(2,3), of "\<lambda>_. None" None] show ?thesis
    using ex_bf_has unfolding e ex_file_values(1) n(3) by simp
qed

end
