(* ===== verification/Esq_FileEnum.thy ===== *)
theory Esq_FileEnum
  imports Esq_Compare
begin

text \<open>
  The walk over a directory tree of \<^verbatim>\<open>libs/file-enumerators\<close>, which hands every regular file to a callback.
  One buffer holds the current path: a level of the recursion appends a slash and the name of an entry, and the
  levels below write behind it.  The file system (\<^verbatim>\<open>opendir\<close> with \<^verbatim>\<open>readdir\<close>, and \<^verbatim>\<open>stat\<close>) is a parameter.

  The locale \<open>visitor\<close> is what the walk needs of a callback; its lemmas say which files the callback sees.
\<close>

section \<open>The code\<close>

definition ESQ_FILE_PATH_MAX :: nat where "ESQ_FILE_PATH_MAX = 1024"

text \<open>What \<^verbatim>\<open>opendir\<close> says of a path: the names of the entries, NUL-terminated, or the kind of error.\<close>

datatype dir_result = Entries "byte list list" | NotDir | NoEntry | OtherError

record file_system =
  opendir :: "byte list \<Rightarrow> dir_result"
  stat_regular :: "byte list \<Rightarrow> bool option"

type_synonym 's file_cb = "byte list \<Rightarrow> nat \<Rightarrow> 's \<Rightarrow> (int \<times> 's) res"

primrec enum_loop ::
    "(byte list \<Rightarrow> nat \<Rightarrow> 's \<Rightarrow> (int \<times> byte list \<times> 's) res) \<Rightarrow> nat \<Rightarrow> byte list list \<Rightarrow> byte list \<Rightarrow> 's \<Rightarrow> (byte list \<times> 's) res" where
  "enum_loop rec len [] path s = Inr (path, s)"
| "enum_loop rec len (e # es) path s =
     bindE (of_opt (rd e 0)) (\<lambda>c.
     if c = 0x2e then enum_loop rec len es path s
     else bindE (of_opt (strnlen e ESQ_FILE_PATH_MAX)) (\<lambda>l.
     if l \<le> 0 \<or> l \<ge> ESQ_FILE_PATH_MAX then enum_loop rec len es path s
     else if len + l \<ge> ESQ_FILE_PATH_MAX then enum_loop rec len es path s
     else bindE (memcpy_at len e l path) (\<lambda>path.
     bindE (put_at (len + l) [0] path) (\<lambda>path.
     bindE (rec path (len + l) s) (\<lambda>(r, path, s).
     if r \<noteq> 0 then Inr (path, s) else enum_loop rec len es path s)))))"

definition ends_in_slash :: "byte list \<Rightarrow> nat \<Rightarrow> bool res" where
  "ends_in_slash path len = (if len > 0 then bindE (of_opt (rd path (len - 1))) (\<lambda>c. Inr (c = 0x2f)) else Inr False)"

primrec esq_enum_path ::
    "file_system \<Rightarrow> 's file_cb \<Rightarrow> nat \<Rightarrow> byte list \<Rightarrow> nat \<Rightarrow> 's \<Rightarrow> (int \<times> byte list \<times> 's) res" where
  "esq_enum_path fs cb 0 = (\<lambda>path len s. Inl Fuel)"
| "esq_enum_path fs cb (Suc fuel) = (\<lambda>path len s.
     case opendir fs (cstr path) of
       Entries es \<Rightarrow>
         bindE (ends_in_slash path len) (\<lambda>slash.
         if slash then bindE (enum_loop (esq_enum_path fs cb fuel) len es path s) (\<lambda>(path, s). Inr (ESQ_OK, path, s))
         else if len + 1 < ESQ_FILE_PATH_MAX
         then bindE (put_at len [0x2f] path) (\<lambda>path.
           bindE (enum_loop (esq_enum_path fs cb fuel) (len + 1) es path s) (\<lambda>(path, s). Inr (ESQ_OK, path, s)))
         else Inr (ESQ_OK, path, s))
     | NoEntry \<Rightarrow> Inr (ESQ_ERROR_NOTFOUND, path, s)
     | OtherError \<Rightarrow> Inr (ESQ_ERROR_PARAM, path, s)
     | NotDir \<Rightarrow>
         (case stat_regular fs (cstr path) of
            None \<Rightarrow> Inr (ESQ_OK, path, s)
          | Some reg \<Rightarrow>
              if \<not> reg then Inr (ESQ_OK, path, s)
              else bindE (cb path len s) (\<lambda>(r, s). Inr (ESQ_OK, path, s))))"

text \<open>The buffer starts with arbitrary bytes \<open>junk\<close>.  A path grows with every level, so that many levels are enough.\<close>

definition esq_file_enumerators :: "file_system \<Rightarrow> 's file_cb \<Rightarrow> byte list \<Rightarrow> byte list \<Rightarrow> 's \<Rightarrow> (int \<times> 's) res" where
  "esq_file_enumerators fs cb junk root s =
     bindE (of_opt (strnlen root ESQ_FILE_PATH_MAX)) (\<lambda>len.
     if len \<le> 0 \<or> len \<ge> ESQ_FILE_PATH_MAX then Inr (ESQ_ERROR_PARAM, s)
     else bindE (memcpy_at 0 root len junk) (\<lambda>path.
     bindE (put_at len [0] path) (\<lambda>path.
     bindE (esq_enum_path fs cb (ESQ_FILE_PATH_MAX + 1) path len s) (\<lambda>(r, path, s). Inr (r, s)))))"

section \<open>Which files are found\<close>

definition as_dir :: "byte list \<Rightarrow> byte list" where
  "as_dir p = (if p \<noteq> [] \<and> last p = 0x2f then p else p @ [0x2f])"

text \<open>Entries that are passed over: hidden ones, and those whose path is too long.\<close>

definition skipped :: "byte list \<Rightarrow> byte list \<Rightarrow> bool" where
  "skipped d n \<longleftrightarrow> n = [] \<or> hd n = 0x2e \<or> length d + length n \<ge> ESQ_FILE_PATH_MAX"

inductive visits :: "file_system \<Rightarrow> byte list \<Rightarrow> byte list \<Rightarrow> bool" for fs where
  visits_self: "visits fs p p"
| visits_entry: "opendir fs p = Entries es \<Longrightarrow> e \<in> set es \<Longrightarrow> \<not> skipped (as_dir p) (cstr e) \<Longrightarrow>
    visits fs (as_dir p @ cstr e) q \<Longrightarrow> visits fs p q"

definition is_file :: "file_system \<Rightarrow> byte list \<Rightarrow> bool" where
  "is_file fs p \<longleftrightarrow> opendir fs p = NotDir \<and> stat_regular fs p = Some True"

definition no_errors :: "file_system \<Rightarrow> byte list \<Rightarrow> bool" where
  "no_errors fs p \<longleftrightarrow> (\<forall>q. visits fs p q \<longrightarrow> opendir fs q \<noteq> NoEntry \<and> opendir fs q \<noteq> OtherError)"

definition fs_ok :: "file_system \<Rightarrow> bool" where
  "fs_ok fs \<longleftrightarrow> (\<forall>p es. opendir fs p = Entries es \<longrightarrow> (\<forall>e \<in> set es. has_nul e))"

text \<open>The walk without its buffer: whether it fails, and the files in the order in which they are found.\<close>

primrec walk_entries :: "(byte list \<Rightarrow> bool \<times> byte list list) \<Rightarrow> byte list \<Rightarrow> byte list list \<Rightarrow> byte list list" where
  "walk_entries rec d [] = []"
| "walk_entries rec d (e # es) =
     (if skipped d (cstr e) then walk_entries rec d es
      else snd (rec (d @ cstr e)) @ (if fst (rec (d @ cstr e)) then [] else walk_entries rec d es))"

primrec walk :: "file_system \<Rightarrow> nat \<Rightarrow> byte list \<Rightarrow> bool \<times> byte list list" where
  "walk fs 0 = (\<lambda>p. (False, []))"
| "walk fs (Suc fuel) = (\<lambda>p. case opendir fs p of
     Entries es \<Rightarrow> (False, walk_entries (walk fs fuel) (as_dir p) es)
   | NotDir \<Rightarrow> (False, if is_file fs p then [p] else [])
   | NoEntry \<Rightarrow> (True, [])
   | OtherError \<Rightarrow> (True, []))"

definition files_below :: "file_system \<Rightarrow> byte list \<Rightarrow> byte list list" where
  "files_below fs p = snd (walk fs (ESQ_FILE_PATH_MAX + 1) p)"

section \<open>The walk in a buffer\<close>

definition holds_path :: "byte list \<Rightarrow> byte list \<Rightarrow> bool" where
  "holds_path b p \<longleftrightarrow> ESQ_FILE_PATH_MAX \<le> length b \<and> length p < ESQ_FILE_PATH_MAX \<and> 0 \<notin> set p \<and> (\<exists>r. b = p @ 0 # r)"

lemma holds_pathD:
  assumes "holds_path b p"
  shows "cstr b = p" "ESQ_FILE_PATH_MAX \<le> length b" "length p < ESQ_FILE_PATH_MAX" "0 \<notin> set p" "has_nul b" "take (length p) b = p"
  using assms by (auto simp: holds_path_def)

lemma entry_first: "has_nul e \<Longrightarrow> rd e 0 = Some (if cstr e = [] then 0 else hd (cstr e))"
  by (cases e) (auto simp: has_nul_def rd_def cstr_def)

lemma put_entry:
  assumes "take (length d) b = d" "0 \<notin> set d" "has_nul e" "ESQ_FILE_PATH_MAX \<le> length b" "length d + length (cstr e) < ESQ_FILE_PATH_MAX"
  obtains b1 b2 where "memcpy_at (length d) e (length (cstr e)) b = Inr b1" "put_at (length d + length (cstr e)) [0] b1 = Inr b2"
    "holds_path b2 (d @ cstr e)" "length b2 = length b"
proof -
  let ?n = "cstr e"
  have e: "length ?n \<le> length e" "take (length ?n) e = ?n" using has_nul_length_cstr [OF assms(3)] cstr_take [of e] by simp_all
  let ?b1 = "d @ ?n @ drop (length d + length ?n) b"
  let ?b2 = "(d @ ?n) @ 0 # drop (length d + length ?n + 1) b"
  have "memcpy_at (length d) e (length ?n) b = Inr ?b1" using e assms(1,4,5) by (simp add: memcpy_at_def put_at_def)
  moreover have "put_at (length d + length ?n) [0] ?b1 = Inr ?b2" using assms(4,5) by (simp add: put_at_def)
  moreover have "length ?b2 = length b" using assms(4,5) by simp
  moreover have "0 \<notin> set (d @ ?n)" using assms(2) cstr_no_nul by auto
  ultimately show thesis using that assms(4,5) unfolding holds_path_def by (metis length_append)
qed

lemma cstr_length_cases: "has_nul e \<Longrightarrow> strnlen e ESQ_FILE_PATH_MAX = Some (min ESQ_FILE_PATH_MAX (length (cstr e)))"
  by (rule strnlen_cstr)

text \<open>What the walk needs of a callback: it works on states that satisfy \<open>I\<close>, and then it does \<open>g\<close>, whatever it returns.\<close>

locale visitor =
  fixes cb :: "'s file_cb" and g :: "byte list \<Rightarrow> 's \<Rightarrow> 's" and I :: "'s \<Rightarrow> bool"
  assumes visit: "I s \<Longrightarrow> has_nul b \<Longrightarrow> \<exists>r. cb b (length (cstr b)) s = Inr (r, g (cstr b) s)"
    and visit_inv: "I s \<Longrightarrow> I (g p s)"
begin

lemma fold_inv: "I s \<Longrightarrow> I (fold g ps s)"
  by (induction ps arbitrary: s) (auto intro: visit_inv)

lemma loop_walk:
  assumes rec: "\<And>b p s. holds_path b p \<Longrightarrow> length d < length p \<Longrightarrow> I s \<Longrightarrow>
      \<exists>r b'. rec b (length p) s = Inr (r, b', fold g (snd (W p)) s) \<and> length b' = length b \<and> take (length p) b' = p \<and> (r \<noteq> 0 \<longleftrightarrow> fst (W p))"
    and "\<forall>e \<in> set es. has_nul e" "take (length d) b = d" "0 \<notin> set d" "ESQ_FILE_PATH_MAX \<le> length b" "I s"
  shows "\<exists>b'. enum_loop rec (length d) es b s = Inr (b', fold g (walk_entries W d es) s) \<and> length b' = length b \<and> take (length d) b' = d"
  using assms(2-)
proof (induction es arbitrary: b s)
  case (Cons e es)
  have e: "has_nul e" using Cons.prems(1) by simp
  note first = entry_first [OF e] and len = cstr_length_cases [OF e]
  have next_ok: "\<exists>b'. enum_loop rec (length d) es b1 s1 = Inr (b', fold g (walk_entries W d es) s1) \<and> length b' = length b \<and> take (length d) b' = d"
    if "take (length d) b1 = d" "length b1 = length b" "I s1" for b1 s1
    using Cons.IH [of b1 s1] Cons.prems that by simp
  show ?case
  proof (cases "skipped d (cstr e)")
    case True
    then have "enum_loop rec (length d) (e # es) b s = enum_loop rec (length d) es b s" using first len by (auto simp: skipped_def)
    then show ?thesis using next_ok [of b s] Cons.prems True by simp
  next
    case False
    then have n: "cstr e \<noteq> []" "hd (cstr e) \<noteq> 0x2e" "length d + length (cstr e) < ESQ_FILE_PATH_MAX" by (auto simp: skipped_def)
    obtain b1 b2 where b: "memcpy_at (length d) e (length (cstr e)) b = Inr b1" "put_at (length d + length (cstr e)) [0] b1 = Inr b2"
        "holds_path b2 (d @ cstr e)" "length b2 = length b"
      using put_entry [OF Cons.prems(2,3) e Cons.prems(4) n(3)] .
    have "length d < length (d @ cstr e)" using n(1) by simp
    from rec [OF b(3) this Cons.prems(5)] obtain r b' where r: "rec b2 (length d + length (cstr e)) s = Inr (r, b', fold g (snd (W (d @ cstr e))) s)"
        "length b' = length b2" "take (length (d @ cstr e)) b' = d @ cstr e" "r \<noteq> 0 \<longleftrightarrow> fst (W (d @ cstr e))"
      by auto
    have t: "take (length d) b' = d" using r(3) by (metis append_eq_conv_conj append_take_drop_id append.assoc)
    have run: "enum_loop rec (length d) (e # es) b s =
        (if r \<noteq> 0 then Inr (b', fold g (snd (W (d @ cstr e))) s) else enum_loop rec (length d) es b' (fold g (snd (W (d @ cstr e))) s))"
      using first len n b(1,2) r(1) by simp
    show ?thesis
    proof (cases "r = 0")
      case True
      then show ?thesis using next_ok [of b' "fold g (snd (W (d @ cstr e))) s"] run False t b(4) r(2,4) fold_inv [OF Cons.prems(5)] by simp
    next
      case False
      then show ?thesis using run r b(4) t \<open>\<not> skipped d (cstr e)\<close> by simp
    qed
  qed
qed simp

lemma enum_walk:
  assumes "fs_ok fs" "holds_path b p" "p \<noteq> []" "I s" "ESQ_FILE_PATH_MAX < fuel + length p"
  shows "\<exists>r b'. esq_enum_path fs cb fuel b (length p) s = Inr (r, b', fold g (snd (walk fs fuel p)) s) \<and>
    length b' = length b \<and> take (length p) b' = p \<and> (r \<noteq> 0 \<longleftrightarrow> fst (walk fs fuel p))"
  using assms(2-)
proof (induction fuel arbitrary: b p s)
  case (Suc fuel)
  note P = holds_pathD [OF Suc.prems(1)]
  show ?case
  proof (cases "opendir fs p")
    case (Entries es)
    have es: "\<forall>e \<in> set es. has_nul e" using assms(1) Entries by (auto simp: fs_ok_def)
    let ?d = "as_dir p"
    have rec: "\<exists>r b'. esq_enum_path fs cb fuel b (length q) s = Inr (r, b', fold g (snd (walk fs fuel q)) s) \<and>
        length b' = length b \<and> take (length q) b' = q \<and> (r \<noteq> 0 \<longleftrightarrow> fst (walk fs fuel q))"
      if "holds_path b q" "length ?d < length q" "I s" for b q s
      using that Suc.prems(4) by (intro Suc.IH) (auto simp: as_dir_def split: if_splits)
    have last: "ends_in_slash b (length p) = Inr (last p = 0x2f)"
    proof -
      have "b ! (length p - 1) = last p" using P(6) Suc.prems(2) by (metis One_nat_def Suc_pred' last_conv_nth length_greater_0_conv lessI nth_take)
      then show ?thesis using Suc.prems(2) P(2,3) by (simp add: ends_in_slash_def rd_def)
    qed
    have dz: "0 \<notin> set ?d" using P(4) by (simp add: as_dir_def)
    consider (slash) "last p = 0x2f" | (room) "last p \<noteq> 0x2f" "length p + 1 < ESQ_FILE_PATH_MAX" | (full) "last p \<noteq> 0x2f" "length p + 1 \<ge> ESQ_FILE_PATH_MAX"
      by linarith
    then show ?thesis
    proof cases
      case slash
      then have d: "?d = p" using Suc.prems(2) by (simp add: as_dir_def)
      from loop_walk [OF rec es _ dz P(2) Suc.prems(3)] P(6) d
      obtain b' where "enum_loop (esq_enum_path fs cb fuel) (length p) es b s = Inr (b', fold g (walk_entries (walk fs fuel) p es) s)"
          "length b' = length b" "take (length p) b' = p" by auto
      then show ?thesis using Entries P(1) last slash d by (simp add: ESQ_OK_def)
    next
      case room
      then have d: "?d = p @ [0x2f]" by (simp add: as_dir_def)
      have pb: "put_at (length p) [0x2f] b = Inr (p @ 0x2f # drop (length p + 1) b)" (is "_ = Inr ?b") using P(2,3,6) by (simp add: put_at_def)
      have lb: "length ?b = length b" using P(2,3) by simp
      have "ESQ_FILE_PATH_MAX \<le> length ?b" using P(2) unfolding lb .
      from loop_walk [OF rec es _ dz this Suc.prems(3), unfolded lb] P(2) d
      obtain b' where "enum_loop (esq_enum_path fs cb fuel) (length p + 1) es ?b s = Inr (b', fold g (walk_entries (walk fs fuel) ?d es) s)"
          "length b' = length b" "take (length p + 1) b' = p @ [0x2f]" by auto
      moreover from this(3) have "take (length p) b' = p" by (metis append_eq_conv_conj le_add1 min.absorb1 take_take)
      ultimately show ?thesis using Entries P(1) last room pb by (simp add: ESQ_OK_def)
    next
      case full
      then have "walk_entries (walk fs fuel) ?d es = []" by (induction es) (auto simp: skipped_def as_dir_def)
      then show ?thesis using Entries P(1,6) last full by (simp add: ESQ_OK_def)
    qed
  next
    case NotDir
    obtain r where "cb b (length p) s = Inr (r, g p s)" using visit [OF Suc.prems(3) P(5)] P(1) by auto
    then show ?thesis using NotDir P(1,6) by (auto simp: is_file_def ESQ_OK_def split: option.splits)
  qed (use P(1,6) in \<open>simp_all add: esq_codes\<close>)
qed (use holds_pathD(3) in fastforce)

lemma enumerators_walk:
  assumes "fs_ok fs" "I s" "has_nul root" "ESQ_FILE_PATH_MAX \<le> length junk" "cstr root \<noteq> []" "length (cstr root) < ESQ_FILE_PATH_MAX"
  shows "\<exists>r. esq_file_enumerators fs cb junk root s = Inr (r, fold g (files_below fs (cstr root)) s)"
proof -
  obtain b1 b2 where b: "memcpy_at 0 root (length (cstr root)) junk = Inr b1" "put_at (length (cstr root)) [0] b1 = Inr b2" "holds_path b2 (cstr root)"
    by (rule put_entry [of "[]" junk root]) (use assms(3,4,6) in auto)
  have "ESQ_FILE_PATH_MAX < (ESQ_FILE_PATH_MAX + 1) + length (cstr root)" by simp
  from enum_walk [OF assms(1) b(3) assms(5,2) this] obtain r b' where
    "esq_enum_path fs cb (ESQ_FILE_PATH_MAX + 1) b2 (length (cstr root)) s = Inr (r, b', fold g (files_below fs (cstr root)) s)"
    unfolding files_below_def by blast
  then show ?thesis using b(1,2) assms(5,6) cstr_length_cases [OF assms(3)] by (simp add: esq_file_enumerators_def)
qed

end

section \<open>The files of the walk\<close>

lemma walk_entries_sound:
  "f \<in> set (walk_entries W d es) \<Longrightarrow> \<exists>e \<in> set es. \<not> skipped d (cstr e) \<and> f \<in> set (snd (W (d @ cstr e)))"
  by (induction es) (auto split: if_splits)

lemma walk_entries_complete:
  assumes "e \<in> set es" "\<not> skipped d (cstr e)" "f \<in> set (snd (W (d @ cstr e)))" "\<And>x. x \<in> set es \<Longrightarrow> \<not> skipped d (cstr x) \<Longrightarrow> \<not> fst (W (d @ cstr x))"
  shows "f \<in> set (walk_entries W d es)"
  using assms by (induction es) auto

lemma walk_sound: "f \<in> set (snd (walk fs n p)) \<Longrightarrow> visits fs p f \<and> is_file fs f"
proof (induction n arbitrary: p)
  case (Suc n)
  then show ?case
    using walk_entries_sound [of f "walk fs n" "as_dir p"]
    by (auto split: dir_result.splits if_splits intro: visits.intros)
qed simp

lemma files_below_sound: "f \<in> set (files_below fs p) \<Longrightarrow> visits fs p f \<and> is_file fs f"
  unfolding files_below_def by (rule walk_sound)

lemma walk_no_error: "opendir fs p \<noteq> NoEntry \<Longrightarrow> opendir fs p \<noteq> OtherError \<Longrightarrow> \<not> fst (walk fs n p)"
  by (cases n) (auto split: dir_result.splits)

lemma walk_complete:
  assumes "visits fs p f" "is_file fs f" "no_errors fs p" "ESQ_FILE_PATH_MAX < n + length p" "length p < ESQ_FILE_PATH_MAX"
  shows "f \<in> set (snd (walk fs n p))"
  using assms
proof (induction arbitrary: n rule: visits.induct)
  case (visits_self p)
  then show ?case by (cases n) (auto simp: is_file_def)
next
  case (visits_entry p es e q)
  then obtain m where n: "n = Suc m" by (cases n) auto
  have below: "no_errors fs (as_dir p @ cstr x)" if "x \<in> set es" "\<not> skipped (as_dir p) (cstr x)" for x
    using visits_entry.prems(2) visits.visits_entry [OF visits_entry.hyps(1) that] unfolding no_errors_def by blast
  have len: "length p < length (as_dir p @ cstr e)" "length (as_dir p @ cstr e) < ESQ_FILE_PATH_MAX"
    using visits_entry.hyps(3) by (auto simp: as_dir_def skipped_def)
  have "q \<in> set (snd (walk fs m (as_dir p @ cstr e)))"
    using len visits_entry.prems n below [OF visits_entry.hyps(2,3)] by (intro visits_entry.IH) auto
  moreover have "\<not> fst (walk fs m (as_dir p @ cstr x))" if "x \<in> set es" "\<not> skipped (as_dir p) (cstr x)" for x
    using below [OF that] visits.visits_self unfolding no_errors_def by (intro walk_no_error) blast+
  ultimately show ?case using visits_entry.hyps n by (simp add: walk_entries_complete)
qed

lemma walk_exact:
  assumes "no_errors fs p" "length p < ESQ_FILE_PATH_MAX"
  shows "set (files_below fs p) = {f. is_file fs f \<and> visits fs p f}"
  unfolding files_below_def using walk_sound walk_complete [OF _ _ assms(1) _ assms(2), of _ "ESQ_FILE_PATH_MAX + 1"] by (auto simp del: walk.simps)

section \<open>A callback that records\<close>

definition record_cb :: "byte list list file_cb" where
  "record_cb b len xs = Inr (0, xs @ [take len b])"

interpretation recorder: visitor record_cb "\<lambda>p xs. xs @ [p]" "\<lambda>_. True"
  by unfold_locales (auto simp: record_cb_def cstr_take)

lemma fold_snoc: "fold (\<lambda>p xs. xs @ [p]) ps xs = xs @ ps"
  by (induction ps arbitrary: xs) auto

lemma recorder_walk:
  assumes "fs_ok fs" "has_nul root" "cstr root \<noteq> []" "length (cstr root) < ESQ_FILE_PATH_MAX" "ESQ_FILE_PATH_MAX \<le> length junk"
  shows "\<exists>r. esq_file_enumerators fs record_cb junk root [] = Inr (r, files_below fs (cstr root))"
  using recorder.enumerators_walk [OF assms(1) TrueI assms(2,5,3,4), of "[]"] by (simp add: fold_snoc)

section \<open>Properties\<close>

text \<open>
  C11.  For every file system and root shorter than the limit the enumeration ends, stays within its path buffer, and the
  callback sees only regular files below the root, reached through entries that are not hidden and whose paths are short enough;
  when no path on the way fails to open, it sees every one of them.
\<close>

theorem file_enumerators_exact:
  assumes "fs_ok fs" "has_nul root" "cstr root \<noteq> []" "length (cstr root) < ESQ_FILE_PATH_MAX" "length junk = ESQ_FILE_PATH_MAX + 4"
  shows "\<exists>r xs. esq_file_enumerators fs record_cb junk root [] = Inr (r, xs) \<and>
    (\<forall>f \<in> set xs. is_file fs f \<and> visits fs (cstr root) f) \<and>
    (no_errors fs (cstr root) \<longrightarrow> set xs = {f. is_file fs f \<and> visits fs (cstr root) f})"
proof -
  have "ESQ_FILE_PATH_MAX \<le> length junk" using assms(5) by simp
  from recorder_walk [OF assms(1-4) this] obtain r where
    "esq_file_enumerators fs record_cb junk root [] = Inr (r, files_below fs (cstr root))" by blast
  then show ?thesis using files_below_sound walk_exact [OF _ assms(4)] by blast
qed

definition ex_fs :: "byte list \<Rightarrow> file_system" where
  "ex_fs bad = \<lparr>opendir = (\<lambda>p. if p = bytes ''r'' then Entries [bad @ [0], bytes ''f'' @ [0]] else if p = bytes ''r/f'' then NotDir else NoEntry),
     stat_regular = (\<lambda>p. if p = bytes ''r/f'' then Some True else None)\<rparr>"

lemma ex_fs_ok: "fs_ok (ex_fs bad)"
  by (auto simp: fs_ok_def ex_fs_def has_nul_def split: if_splits)

lemma ex_fs_visits:
  assumes "visits (ex_fs (bytes ''.'')) p q" "p = bytes ''r'' \<or> p = bytes ''r/f''"
  shows "q = bytes ''r'' \<or> q = bytes ''r/f''"
  using assms
proof (induction rule: visits.induct)
  case (visits_entry p es e q)
  then have "e = bytes ''f'' @ [0]" "p = bytes ''r''" by (auto simp: ex_fs_def skipped_def cstr_def split: if_splits)
  then show ?case using visits_entry.IH by (simp add: as_dir_def cstr_def)
qed simp

lemma ex_fs_file:
  "is_file (ex_fs (bytes ''.'')) (bytes ''r/f'')" "visits (ex_fs (bytes ''.'')) (bytes ''r'') (bytes ''r/f'')" "no_errors (ex_fs (bytes ''.'')) (bytes ''r'')"
proof -
  let ?fs = "ex_fs (bytes ''.'')"
  have o: "opendir ?fs (bytes ''r'') = Entries [bytes ''.'' @ [0], bytes ''f'' @ [0]]" by (simp add: ex_fs_def)
  have "visits ?fs (bytes ''r'') (as_dir (bytes ''r'') @ cstr (bytes ''f'' @ [0]))"
    by (rule visits_entry [OF o _ _ visits_self]) (auto simp: skipped_def cstr_def as_dir_def ESQ_FILE_PATH_MAX_def)
  then show "visits ?fs (bytes ''r'') (bytes ''r/f'')" by (simp add: as_dir_def cstr_def)
  show "is_file ?fs (bytes ''r/f'')" by (simp add: is_file_def ex_fs_def)
  show "no_errors ?fs (bytes ''r'')" unfolding no_errors_def using ex_fs_visits by (auto simp: ex_fs_def)
qed

theorem file_enumerators_exact_witness:
  "\<exists>r xs. esq_file_enumerators (ex_fs (bytes ''.'')) record_cb (replicate (ESQ_FILE_PATH_MAX + 4) 7) (bytes ''r'' @ [0]) [] = Inr (r, xs) \<and>
    bytes ''r/f'' \<in> set xs"
proof -
  have c: "cstr (bytes ''r'' @ [0]) = bytes ''r''" by (simp add: cstr_def)
  show ?thesis
    using file_enumerators_exact [OF ex_fs_ok, of "bytes ''r'' @ [0]" "replicate (ESQ_FILE_PATH_MAX + 4) 7" "bytes ''.''"] c ex_fs_file
    by (auto simp: has_nul_def ESQ_FILE_PATH_MAX_def)
qed

text \<open>An entry that cannot be opened, such as a dangling link, ends the enumeration of its directory: the file behind it is not seen.\<close>

lemma enumeration_stops_at_error:
  "\<exists>r. esq_file_enumerators (ex_fs (bytes ''b'')) record_cb (replicate (ESQ_FILE_PATH_MAX + 4) 7) (bytes ''r'' @ [0]) [] = Inr (r, [])"
proof -
  have "snd (walk (ex_fs (bytes ''b'')) (Suc (Suc n)) (bytes ''r'')) = []" for n
    by (simp add: ex_fs_def as_dir_def cstr_def skipped_def)
  from this [of 1023] have "files_below (ex_fs (bytes ''b'')) (bytes ''r'') = []"
    by (simp add: files_below_def ESQ_FILE_PATH_MAX_def del: walk.simps)
  then show ?thesis
    using recorder_walk [OF ex_fs_ok, of "bytes ''r'' @ [0]" "replicate (ESQ_FILE_PATH_MAX + 4) 7" "bytes ''b''"]
    by (simp add: cstr_def has_nul_def ESQ_FILE_PATH_MAX_def del: walk.simps)
qed

end
