(* ===== verification/Esq_FileFilter.thy ===== *)
theory Esq_FileFilter
  imports Esq_FileLruReach Esq_FileEnum
begin

text \<open>
  The filter of the file cache, rebuilt from the files below the root (the second half of \<^verbatim>\<open>utils/file-lru.c\<close>): the
  enumeration of \<^verbatim>\<open>libs/file-enumerators\<close> runs with a callback that adds the part of a path behind the root to a
  new Bloom filter, which then replaces the old one.
\<close>

section \<open>The code\<close>

definition file_lru_update_bloom_filter :: "file_system \<Rightarrow> bool \<Rightarrow> byte list \<Rightarrow> lru_world \<Rightarrow> lru_world res" where
  "file_lru_update_bloom_filter fs mem junk w =
     (case path_bloom_filter_new mem of None \<Rightarrow> Inr w | Some bf \<Rightarrow>
      bindE (esq_file_enumerators fs (\<lambda>path l s. of_opt (file_lru_file_enumerators_cb path l (lru_root_path_length w) s))
        junk (lru_root_path w) (Some bf)) (\<lambda>(r, bf). Inr (file_lru_set_bloom_filter bf w)))"

definition file_lru_remove_bloom_filter :: "lru_world \<Rightarrow> lru_world" where
  "file_lru_remove_bloom_filter w = file_lru_set_bloom_filter None w"

definition file_lru_detach :: "lru_world \<Rightarrow> lru_world res" where
  "file_lru_detach w = bindE (file_lru_purge_all w) (\<lambda>w. Inr (file_lru_remove_bloom_filter w))"

section \<open>The callback\<close>

definition filter_cb :: "nat \<Rightarrow> path_bloom_filter_t option file_cb" where
  "filter_cb n path l s = of_opt (file_lru_file_enumerators_cb path l (int n) s)"

definition filter_add :: "nat \<Rightarrow> byte list \<Rightarrow> path_bloom_filter_t option \<Rightarrow> path_bloom_filter_t option" where
  "filter_add n p s = snd (the (file_lru_file_enumerators_cb (p @ [0]) (length p) (int n) s))"

definition filter_has :: "path_bloom_filter_t option \<Rightarrow> byte list \<Rightarrow> bool" where
  "filter_has s x \<longleftrightarrow> (case s of None \<Rightarrow> False | Some p \<Rightarrow> bloom_has p x (int (length x)))"

lemma bloom_add_path_take:
  assumes "take len a = take len b" "len \<le> length a" "len \<le> length b"
  shows "bloom_add_path p a (int len) = bloom_add_path p b (int len)"
  unfolding bloom_add_path_def bloom_hash_simps bloom_hash_take [OF assms] ..

lemma bloom_has_take:
  assumes "take len a = take len b" "len \<le> length a" "len \<le> length b"
  shows "bloom_has p a (int len) = bloom_has p b (int len)"
  unfolding bloom_has_def bloom_hash_take [OF assms] ..

lemma cb_adds:
  assumes "n < l"
  shows "file_lru_file_enumerators_cb path l (int n) (Some p) =
    map_option (\<lambda>(r, q). (0, Some q)) (bloom_add_path p (drop n path) (int (l - n)))"
proof -
  have i: "int l - int n = int (l - n)" "int l \<le> int n \<longleftrightarrow> False" "0 < int (l - n)" "int n < 0 \<longleftrightarrow> False" using assms by auto
  show ?thesis
    unfolding file_lru_file_enumerators_cb_def path_bloom_filter_add_path2_def i(1)
    by (cases "bloom_add_path p (drop n path) (int (l - n))") (use assms in auto)
qed

lemma filter_step:
  assumes "bloom_inv p" "has_nul b"
  shows "file_lru_file_enumerators_cb b (length (cstr b)) (int n) (Some p) = Some (0, filter_add n (cstr b) (Some p))"
proof (cases "length (cstr b) \<le> n")
  case True
  then show ?thesis by (simp add: file_lru_file_enumerators_cb_def filter_add_def)
next
  case False
  let ?l = "length (cstr b) - n" and ?a = "drop n b" and ?c = "drop n (cstr b @ [0])"
  have "take ?l ?a = drop n (cstr b)" using cstr_take [of b] by (metis drop_take)
  then have t: "take ?l ?a = take ?l ?c" "?l \<le> length ?a" "?l \<le> length ?c" using False has_nul_length_cstr [OF assms(2)] by auto
  have less: "n < length (cstr b)" using False by simp
  obtain p' where "bloom_add_path p ?c (int ?l) = Some (0, p')" using bloom_add_has [OF assms(1) t(3)] by blast
  then show ?thesis unfolding filter_add_def cb_adds [OF less] bloom_add_path_take [OF t] by simp
qed

lemma filter_add_has:
  assumes "bloom_ptr_inv s"
  shows "bloom_ptr_inv (filter_add n f s)" "filter_has s x \<Longrightarrow> filter_has (filter_add n f s) x"
    "n < length f \<Longrightarrow> filter_has (filter_add n f s) (drop n f)"
proof -
  obtain p where p: "s = Some p" "bloom_inv p" using assms by (auto simp: bloom_ptr_inv_def split: option.splits)
  have "bloom_ptr_inv (filter_add n f s) \<and> (filter_has s x \<longrightarrow> filter_has (filter_add n f s) x) \<and>
      (n < length f \<longrightarrow> filter_has (filter_add n f s) (drop n f))"
  proof (cases "length f \<le> n")
    case True
    then show ?thesis using assms by (simp add: filter_add_def file_lru_file_enumerators_cb_def)
  next
    case False
    let ?l = "length f - n" and ?c = "drop n (f @ [0])"
    have l: "?l \<le> length ?c" by simp
    obtain p' where p': "bloom_add_path p ?c (int ?l) = Some (0, p')" "bloom_inv p'" "bloom_has p' ?c (int ?l)"
        "\<And>s m. m \<le> length s \<Longrightarrow> bloom_has p s (int m) \<Longrightarrow> bloom_has p' s (int m)"
      using bloom_add_has [OF p(2) l] by blast
    have less: "n < length f" using False by simp
    have s': "filter_add n f s = Some p'" unfolding filter_add_def p(1) cb_adds [OF less] p'(1) by simp
    have "bloom_has p' (drop n f) (int (length (drop n f)))"
      using p'(3) bloom_has_take [of ?l ?c "drop n f" p'] False by simp
    then have "filter_has (Some p') (drop n f)" unfolding filter_has_def option.case .
    moreover have "filter_has (Some p) x \<longrightarrow> filter_has (Some p') x" unfolding filter_has_def option.case using p'(4) by blast
    ultimately show ?thesis using p'(2) p(1) unfolding s' by (simp add: bloom_ptr_inv_def)
  qed
  then show "bloom_ptr_inv (filter_add n f s)" "filter_has s x \<Longrightarrow> filter_has (filter_add n f s) x"
    "n < length f \<Longrightarrow> filter_has (filter_add n f s) (drop n f)" by blast+
qed

interpretation filter: visitor "filter_cb n" "filter_add n" bloom_ptr_inv for n
proof
  fix s :: "path_bloom_filter_t option" and b :: "byte list"
  assume "bloom_ptr_inv s" "has_nul b"
  then show "\<exists>r. filter_cb n b (length (cstr b)) s = Inr (r, filter_add n (cstr b) s)"
    using filter_step [of _ b n] by (auto simp: bloom_ptr_inv_def filter_cb_def split: option.splits)
qed (rule filter_add_has(1))

lemma filter_fold:
  "bloom_ptr_inv s \<Longrightarrow> filter_has s x \<Longrightarrow> filter_has (fold (filter_add n) fs s) x"
  by (induction fs arbitrary: s) (auto intro: filter_add_has)

lemma filter_fold_has:
  "bloom_ptr_inv s \<Longrightarrow> f \<in> set fs \<Longrightarrow> n < length f \<Longrightarrow> filter_has (fold (filter_add n) fs s) (drop n f)"
proof (induction fs arbitrary: s)
  case (Cons g fs)
  then show ?case using filter_fold [OF filter_add_has(1) filter_add_has(3)] by (auto intro: filter_add_has(1))
qed simp

lemma filter_has_check:
  assumes "bloom_ptr_inv s" "has_nul name" "filter_has s (cstr name)" "cstr name \<noteq> []"
  shows "path_bloom_filter_check_exist2 s (Some name) (int (length (cstr name))) = Some 1"
proof -
  obtain p where p: "s = Some p" "bloom_inv p" using assms(1) by (auto simp: bloom_ptr_inv_def split: option.splits)
  have l: "length (cstr name) \<le> length name" using has_nul_length_cstr [OF assms(2)] by simp
  have "bloom_has p name (int (length (cstr name)))"
    using assms(3) p(1) bloom_has_take [of "length (cstr name)" "cstr name" name p] cstr_take [of name] l by (simp add: filter_has_def)
  then show ?thesis using bloom_check_has [OF p(2) l] p(1) assms(4) by (simp add: path_bloom_filter_check_exist2_def)
qed

section \<open>Properties\<close>

text \<open>
  C10.  After an update of the filter for which \<^verbatim>\<open>malloc\<close> gave memory, a borrow of a file that is on the disk is not refused: for
  every regular file that the enumeration below the root reaches, the name behind the root's length passes, whatever buffer
  holds it, provided that this name is shorter than 256 bytes (\<open>LRU_PATH_MAX\<close>; the enumeration itself also gives longer ones, which a
  borrow refuses), that every path below the root could be opened, and that the length of the root is not negative in its \<^verbatim>\<open>char\<close>.
\<close>

theorem file_lru_filter_complete:
  assumes "fs_ok fs" "has_nul (lru_root_path w)" "cstr (lru_root_path w) \<noteq> []" "length (cstr (lru_root_path w)) < ESQ_FILE_PATH_MAX"
    and "length junk = ESQ_FILE_PATH_MAX + 4" "no_errors fs (cstr (lru_root_path w))" "lru_root_path_length w = int n"
  shows "\<exists>w'. file_lru_update_bloom_filter fs True junk w = Inr w' \<and> files w' = files w \<and>
    (\<forall>f name. is_file fs f \<longrightarrow> visits fs (cstr (lru_root_path w)) f \<longrightarrow> n < length f \<longrightarrow> has_nul name \<longrightarrow> cstr name = drop n f \<longrightarrow>
       length (cstr name) < LRU_PATH_MAX \<longrightarrow> (\<forall>v. borrow_lookup name w' \<noteq> Inr (Refused, v)))"
proof -
  let ?root = "cstr (lru_root_path w)"
  obtain bf where bf: "path_bloom_filter_new True = Some bf" "bloom_ptr_inv (Some bf)"
    using bloom_new_inv by (auto simp: bloom_ptr_inv_def split: option.splits)
  have "ESQ_FILE_PATH_MAX \<le> length junk" using assms(5) by simp
  from filter.enumerators_walk [OF assms(1) bf(2) assms(2) this assms(3,4)]
  obtain r where r: "esq_file_enumerators fs (filter_cb n) junk (lru_root_path w) (Some bf) = Inr (r, fold (filter_add n) (files_below fs ?root) (Some bf))" ..
  define s' where "s' = fold (filter_add n) (files_below fs ?root) (Some bf)"
  have inv: "bloom_ptr_inv s'" unfolding s'_def by (rule filter.fold_inv [OF bf(2)])
  have "(\<lambda>path l s. of_opt (file_lru_file_enumerators_cb path l (lru_root_path_length w) s)) = filter_cb n"
    by (intro ext) (simp add: filter_cb_def assms(7))
  then have "file_lru_update_bloom_filter fs True junk w = Inr (file_lru_set_bloom_filter s' w)"
    using bf(1) r by (simp add: file_lru_update_bloom_filter_def s'_def)
  moreover have "borrow_lookup name (file_lru_set_bloom_filter s' w) \<noteq> Inr (Refused, v)"
    if f: "is_file fs f" "visits fs ?root f" "n < length f" and nm: "has_nul name" "cstr name = drop n f" "length (cstr name) < LRU_PATH_MAX" for f name v
  proof -
    have "f \<in> set (files_below fs ?root)" using walk_exact [OF assms(6,4)] f(1,2) by simp
    then have "filter_has s' (cstr name)" unfolding s'_def nm(2) using filter_fold_has [OF bf(2) _ f(3)] by blast
    moreover have ne: "cstr name \<noteq> []" using nm(2) f(3) by simp
    ultimately have "path_bloom_filter_check_exist2 s' (Some name) (int (length (cstr name))) = Some 1" using filter_has_check [OF inv nm(1)] by blast
    then show ?thesis using strnlen_cstr [OF nm(1), of LRU_PATH_MAX] nm(3) ne
      by (auto simp: borrow_lookup_def file_lru_set_bloom_filter_def bindE_def split: sum.splits option.splits)
  qed
  ultimately show ?thesis by (auto simp: file_lru_set_bloom_filter_def)
qed

definition ex_root :: lru_world where
  "ex_root = file_lru_start\<lparr>lru_root_path := patched (bytes ''r'' @ [0]) (replicate LRU_PATH_MAX 0), lru_root_path_length := 1\<rparr>"

theorem file_lru_filter_complete_witness:
  "\<exists>w'. file_lru_update_bloom_filter (ex_fs (bytes ''.'')) True (replicate (ESQ_FILE_PATH_MAX + 4) 7) ex_root = Inr w' \<and>
    (\<forall>v. borrow_lookup (bytes ''/f'' @ [0]) w' \<noteq> Inr (Refused, v))"
proof -
  let ?fs = "ex_fs (bytes ''.'')"
  have root: "cstr (lru_root_path ex_root) = bytes ''r''" "has_nul (lru_root_path ex_root)" "lru_root_path_length ex_root = int 1"
    by (simp_all add: ex_root_def patched_def cstr_def has_nul_def)
  have "cstr (bytes ''/f'' @ [0]) = drop 1 (bytes ''r/f'')" "has_nul (bytes ''/f'' @ [0])" "length (cstr (bytes ''/f'' @ [0])) < LRU_PATH_MAX"
    by (simp_all add: cstr_def has_nul_def LRU_PATH_MAX_def)
  then show ?thesis
    using file_lru_filter_complete [OF ex_fs_ok root(2), of "replicate (ESQ_FILE_PATH_MAX + 4) 7" "bytes ''.''" 1] root(1,3) ex_fs_file
    by (auto simp: ESQ_FILE_PATH_MAX_def)
qed

end
