(* ===== verification/Esq_PostData.thy ===== *)
theory Esq_PostData
  imports Esq_Compare
begin

text \<open>
  The parser of multipart form data, \<^verbatim>\<open>libs/post-data-parser\<close>.  It cuts a buffer into elements (boundary, disposition,
  name, file name, content type, empty line, value) and hands each to a callback of the application; the kind of the last element is
  kept between calls, so that a value may arrive in several buffers.

  The callback is a parameter.  It receives the rest of the buffer from the element on and the length of the element.
\<close>

section \<open>Data\<close>

datatype post_et =
  POST_ET_VOID | POST_ET_ERROR | POST_ET_EMPTY_LINE | POST_ET_BOUNDARY | POST_ET_CONTENT_FORM_DATA | POST_ET_FINISH |
  POST_ET_NAME | POST_ET_FILENAME | POST_ET_VALUE | POST_ET_CONTENT_TYPE

definition PDP_BOUNDARY_MAX :: nat where "PDP_BOUNDARY_MAX = 256"

record post_data_ctx_t =
  last_item_type :: post_et
  boundary :: "byte list"
  boundary_len :: nat

text \<open>A callback refuses by returning non-zero, here \<open>True\<close>.\<close>

type_synonym 's post_cb = "post_et \<Rightarrow> byte list option \<Rightarrow> nat \<Rightarrow> 's \<Rightarrow> bool \<times> 's"

definition CRLF :: "byte list" where "CRLF = [0x0d, 0x0a]"
definition CONTENT_DFD :: "byte list" where "CONTENT_DFD = CRLF @ bytes ''Content-Disposition: form-data;''"
definition NAME_S :: "byte list" where "NAME_S = bytes '' name='' @ [0x22]"
definition FNAME_S :: "byte list" where "FNAME_S = bytes ''; filename='' @ [0x22]"
definition EMPTY_LINE :: "byte list" where "EMPTY_LINE = CRLF @ CRLF"
definition CONTENT_TYPE_PREFIX :: "byte list" where "CONTENT_TYPE_PREFIX = CRLF @ bytes ''Content-Type: ''"

section \<open>Searching\<close>

text \<open>\<^verbatim>\<open>memcmp\<close> with a constant, and \<^verbatim>\<open>memmem\<close>, which tries one start after the other; both fault when they need a byte outside the buffer.\<close>

fun starts_at :: "byte list \<Rightarrow> nat \<Rightarrow> byte list \<Rightarrow> bool res" where
  "starts_at b j [] = Inr True"
| "starts_at b j (x # xs) = bindE (of_opt (rd b j)) (\<lambda>c. if c = x then starts_at b (j + 1) xs else Inr False)"

primrec memmem_at :: "byte list \<Rightarrow> byte list \<Rightarrow> nat \<Rightarrow> nat \<Rightarrow> nat option res" where
  "memmem_at b needle 0 j = Inr None"
| "memmem_at b needle (Suc c) j = bindE (starts_at b j needle) (\<lambda>y. if y then Inr (Some j) else memmem_at b needle c (j + 1))"

definition memmem :: "byte list \<Rightarrow> nat \<Rightarrow> nat \<Rightarrow> byte list \<Rightarrow> nat option res" where
  "memmem b off n needle = memmem_at b needle (n + 1 - length needle) off"

primrec name_end_loop :: "byte list \<Rightarrow> nat \<Rightarrow> nat \<Rightarrow> nat option res" where
  "name_end_loop b 0 t = Inr None"
| "name_end_loop b (Suc c) t = bindE (of_opt (rd b t)) (\<lambda>x. if x = 0x22 then Inr (Some t) else name_end_loop b c (t + 1))"

definition GET_NAME_END :: "byte list \<Rightarrow> nat \<Rightarrow> nat \<Rightarrow> nat option res" where
  "GET_NAME_END b len start = name_end_loop b (len - start) start"

definition pdp_locate_boundary :: "byte list \<Rightarrow> nat \<Rightarrow> int res" where
  "pdp_locate_boundary b len =
     bindE (memmem b 0 (if PDP_BOUNDARY_MAX < len then PDP_BOUNDARY_MAX else len) CRLF) (\<lambda>r.
     case r of
       None \<Rightarrow> Inr (-1)
     | Some r \<Rightarrow> let l = int r - 1 in if l < 0 \<or> l \<ge> int len \<or> l \<le> 0 then Inr (-1) else Inr l)"

section \<open>One element\<close>

text \<open>Where the loop goes after an element: on, to \<^verbatim>\<open>__ok\<close>, to \<^verbatim>\<open>__exx\<close>, or out of the function.\<close>

datatype 's flow = Next post_et nat 's | Done post_et 's | Refuse 's | Broken 's | Finished 's

definition CONSUME_ITEM2 :: "'s post_cb \<Rightarrow> byte list \<Rightarrow> post_et \<Rightarrow> nat \<Rightarrow> nat \<Rightarrow> nat \<Rightarrow> nat \<Rightarrow> 's \<Rightarrow> 's flow" where
  "CONSUME_ITEM2 cb b et l voff vlen i s =
     (case cb et (Some (drop voff b)) vlen s of (err, s) \<Rightarrow> if err then Refuse s else Next et (i + l) s)"

definition CONSUME_ITEM :: "'s post_cb \<Rightarrow> byte list \<Rightarrow> post_et \<Rightarrow> nat \<Rightarrow> nat \<Rightarrow> 's \<Rightarrow> 's flow" where
  "CONSUME_ITEM cb b et l i s = CONSUME_ITEM2 cb b et l i l i s"

definition and_then :: "'s flow \<Rightarrow> (post_et \<Rightarrow> nat \<Rightarrow> 's \<Rightarrow> 's flow) \<Rightarrow> 's flow" where
  "and_then f g = (case f of Next et i s \<Rightarrow> g et i s | _ \<Rightarrow> f)"

definition boundary_bytes :: "post_data_ctx_t \<Rightarrow> byte list" where
  "boundary_bytes ctx = take (boundary_len ctx) (boundary ctx)"

text \<open>The cases \<^verbatim>\<open>POST_ET_EMPTY_LINE\<close> and \<^verbatim>\<open>POST_ET_VALUE\<close>: data up to the next boundary, or to the end of the buffer.\<close>

definition value_step :: "'s post_cb \<Rightarrow> byte list \<Rightarrow> nat \<Rightarrow> post_data_ctx_t \<Rightarrow> bool \<Rightarrow> nat \<Rightarrow> 's \<Rightarrow> 's flow res" where
  "value_step cb b len ctx fresh i s =
     bindE (memmem b i (len - i) (boundary_bytes ctx)) (\<lambda>item_end.
     Inr (case item_end of
       Some e \<Rightarrow>
         if e = i then
           (if fresh
            then and_then (CONSUME_ITEM cb b POST_ET_VALUE 0 i s) (\<lambda>_. CONSUME_ITEM cb b POST_ET_BOUNDARY (boundary_len ctx + 1))
            else CONSUME_ITEM cb b POST_ET_BOUNDARY (boundary_len ctx + 1) i s)
         else and_then (CONSUME_ITEM cb b POST_ET_VALUE (e - i) i s) (\<lambda>_. CONSUME_ITEM cb b POST_ET_BOUNDARY (boundary_len ctx + 1))
     | None \<Rightarrow> and_then (CONSUME_ITEM cb b POST_ET_VALUE (len - i) i s) (\<lambda>et i s. Done et s)))"

text \<open>A quoted name behind the constant \<open>pre\<close>.\<close>

definition name_step :: "'s post_cb \<Rightarrow> byte list \<Rightarrow> nat \<Rightarrow> post_et \<Rightarrow> byte list \<Rightarrow> nat \<Rightarrow> 's \<Rightarrow> 's flow res" where
  "name_step cb b len et pre i s =
     bindE (GET_NAME_END b len (i + length pre)) (\<lambda>name_end.
     Inr (case name_end of
       None \<Rightarrow> Broken s
     | Some e \<Rightarrow> CONSUME_ITEM2 cb b et (e - i + 1) (i + length pre) (e - i - length pre) i s))"

definition matches :: "byte list \<Rightarrow> nat \<Rightarrow> nat \<Rightarrow> byte list \<Rightarrow> bool res" where
  "matches b len i pat = (if len - i \<ge> length pat then starts_at b i pat else Inr False)"

definition pdp_step :: "'s post_cb \<Rightarrow> byte list \<Rightarrow> nat \<Rightarrow> post_data_ctx_t \<Rightarrow> post_et \<Rightarrow> nat \<Rightarrow> 's \<Rightarrow> 's flow res" where
  "pdp_step cb b len ctx et i s = (case et of
     POST_ET_VOID \<Rightarrow> Inr (Broken s)
   | POST_ET_ERROR \<Rightarrow> Inr (Refuse s)
   | POST_ET_EMPTY_LINE \<Rightarrow> value_step cb b len ctx True i s
   | POST_ET_BOUNDARY \<Rightarrow>
       bindE (matches b len i CONTENT_DFD) (\<lambda>y.
       if y then Inr (CONSUME_ITEM cb b POST_ET_CONTENT_FORM_DATA (length CONTENT_DFD) i s)
       else bindE (if len - i = 4 then starts_at b i (bytes ''--'' @ CRLF) else Inr False) (\<lambda>y.
       if y then Inr (Finished (snd (cb POST_ET_FINISH (Some (drop i b)) 4 s))) else Inr (Broken s)))
   | POST_ET_CONTENT_FORM_DATA \<Rightarrow>
       bindE (matches b len i NAME_S) (\<lambda>y. if y then name_step cb b len POST_ET_NAME NAME_S i s else Inr (Broken s))
   | POST_ET_FINISH \<Rightarrow> Inr (Refuse s)
   | POST_ET_NAME \<Rightarrow>
       bindE (matches b len i FNAME_S) (\<lambda>y.
       if y then name_step cb b len POST_ET_FILENAME FNAME_S i s
       else bindE (matches b len i EMPTY_LINE) (\<lambda>y.
       if y then Inr (CONSUME_ITEM cb b POST_ET_EMPTY_LINE (length EMPTY_LINE) i s) else Inr (Broken s)))
   | POST_ET_FILENAME \<Rightarrow>
       bindE (if len - i > length CONTENT_TYPE_PREFIX + 1 then starts_at b i CONTENT_TYPE_PREFIX else Inr False) (\<lambda>y.
       if y then
         bindE (memmem b (i + length CONTENT_TYPE_PREFIX + 1) (len - i) CRLF) (\<lambda>type_end.
         Inr (case type_end of
           None \<Rightarrow> Broken s
         | Some e \<Rightarrow> CONSUME_ITEM2 cb b POST_ET_CONTENT_TYPE (e - i) (i + length CONTENT_TYPE_PREFIX) (e - i - length CONTENT_TYPE_PREFIX) i s))
       else Inr (Broken s))
   | POST_ET_VALUE \<Rightarrow> value_step cb b len ctx False i s
   | POST_ET_CONTENT_TYPE \<Rightarrow>
       bindE (matches b len i EMPTY_LINE) (\<lambda>y.
       if y then Inr (CONSUME_ITEM cb b POST_ET_EMPTY_LINE (length EMPTY_LINE) i s) else Inr (Broken s)))"

section \<open>The parser\<close>

definition pdp_exx :: "'s post_cb \<Rightarrow> post_data_ctx_t \<Rightarrow> 's \<Rightarrow> int \<times> post_data_ctx_t \<times> 's" where
  "pdp_exx cb ctx s = (-1, ctx\<lparr>last_item_type := POST_ET_ERROR\<rparr>, snd (cb POST_ET_ERROR None 0 s))"

primrec pdp_loop :: "nat \<Rightarrow> 's post_cb \<Rightarrow> byte list \<Rightarrow> nat \<Rightarrow> post_data_ctx_t \<Rightarrow> post_et \<Rightarrow> nat \<Rightarrow> 's \<Rightarrow> (int \<times> post_data_ctx_t \<times> 's) res" where
  "pdp_loop 0 cb b len ctx et i s = Inl Fuel"
| "pdp_loop (Suc fuel) cb b len ctx et i s =
     (if i < len then
        bindE (pdp_step cb b len ctx et i s) (\<lambda>f. case f of
          Next et i s \<Rightarrow> pdp_loop fuel cb b len ctx et i s
        | Done et s \<Rightarrow> Inr (0, ctx\<lparr>last_item_type := et\<rparr>, s)
        | Refuse s \<Rightarrow> Inr (-1, ctx, s)
        | Broken s \<Rightarrow> Inr (pdp_exx cb ctx s)
        | Finished s \<Rightarrow> Inr (0, ctx\<lparr>last_item_type := POST_ET_FINISH\<rparr>, s))
      else Inr (0, ctx\<lparr>last_item_type := et\<rparr>, s))"

text \<open>Every pass of the loop consumes a byte at least.\<close>

definition post_data_parser :: "'s post_cb \<Rightarrow> byte list \<Rightarrow> nat \<Rightarrow> post_data_ctx_t \<Rightarrow> 's \<Rightarrow> (int \<times> post_data_ctx_t \<times> 's) res" where
  "post_data_parser cb b len ctx s =
     (if last_item_type ctx = POST_ET_VOID then
        bindE (pdp_locate_boundary b len) (\<lambda>r.
        if r \<le> 2 \<or> r + 2 \<ge> int PDP_BOUNDARY_MAX then Inr (-1, ctx, s)
        else bindE (put_at 0 CRLF (boundary ctx)) (\<lambda>bd.
        bindE (memcpy_at 2 b (nat r) bd) (\<lambda>bd.
        bindE (put_at (nat r + 2) [0] bd) (\<lambda>bd.
        let ctx = ctx\<lparr>boundary := bd, boundary_len := nat r + 2\<rparr> in
        case CONSUME_ITEM cb b POST_ET_BOUNDARY (nat r + 1) 0 s of
          Next et i s \<Rightarrow> pdp_loop (len + 1) cb b len ctx et i s
        | Refuse s \<Rightarrow> Inr (-1, ctx, s)
        | _ \<Rightarrow> Inr (-1, ctx, s)))))
      else pdp_loop (len + 1) cb b len ctx (last_item_type ctx) 0 s)"

section \<open>Searching in a buffer that is known\<close>

lemma starts_at_append:
  "length xs \<le> length rest \<Longrightarrow> starts_at (pre @ rest) (length pre) xs = Inr (take (length xs) rest = xs)"
proof (induction xs arbitrary: pre rest)
  case (Cons x xs)
  then obtain c r where r: "rest = c # r" by (cases rest) auto
  then show ?case using Cons.IH [of r "pre @ [c]"] Cons.prems by (auto simp: rd_def nth_append)
qed simp

text \<open>The needle does not occur before the end of \<open>v\<close>.\<close>

definition first_behind :: "byte list \<Rightarrow> byte list \<Rightarrow> bool" where
  "first_behind needle v \<longleftrightarrow> (\<forall>j < length v. take (length needle) (drop j (v @ needle)) \<noteq> needle)"

lemma first_behind_Cons: "first_behind needle (c # v) \<Longrightarrow> first_behind needle v \<and> take (length needle) (c # v @ needle) \<noteq> needle"
  unfolding first_behind_def by (metis Suc_mono append_Cons drop0 drop_Suc_Cons length_Cons zero_less_Suc)

lemma memmem_at_found:
  "first_behind needle v \<Longrightarrow> length v < c \<Longrightarrow> memmem_at (pre @ v @ needle @ post) needle c (length pre) = Inr (Some (length pre + length v))"
proof (induction v arbitrary: pre c)
  case Nil
  then show ?case using starts_at_append [of needle "needle @ post" pre] by (cases c) auto
next
  case (Cons x v)
  obtain c' where c: "c = Suc c'" using Cons.prems(2) by (cases c) auto
  have f: "first_behind needle v" "take (length needle) (x # v @ needle) \<noteq> needle" using first_behind_Cons [OF Cons.prems(1)] by auto
  have "take (length needle) (x # v @ needle @ post) = take (length needle) ((x # v @ needle) @ post)" by simp
  also have "\<dots> = take (length needle) (x # v @ needle)" by (subst take_append) simp
  finally have "starts_at (pre @ x # v @ needle @ post) (length pre) needle = Inr False"
    using starts_at_append [of needle "x # v @ needle @ post" pre] f(2) by simp
  then show ?case using Cons.IH [OF f(1), of c' "pre @ [x]"] Cons.prems(2) c by simp
qed

lemma memmem_found:
  "first_behind needle v \<Longrightarrow> length v + length needle \<le> n \<Longrightarrow>
   memmem (pre @ v @ needle @ post) (length pre) n needle = Inr (Some (length pre + length v))"
  unfolding memmem_def by (rule memmem_at_found) auto

lemma name_end_found:
  "0x22 \<notin> set name \<Longrightarrow> length name < c \<Longrightarrow> name_end_loop (pre @ name @ 0x22 # post) c (length pre) = Inr (Some (length pre + length name))"
proof (induction name arbitrary: pre c)
  case Nil
  then show ?case by (cases c) (auto simp: rd_def nth_append)
next
  case (Cons x name)
  then obtain c' where c: "c = Suc c'" by (cases c) auto
  then show ?case using Cons.IH [of c' "pre @ [x]"] Cons.prems by (simp add: rd_def nth_append)
qed

section \<open>Messages\<close>

record form_part =
  part_name :: "byte list"
  part_file :: "(byte list \<times> byte list) option"
  part_value :: "byte list"

text \<open>A part behind a boundary, up to and with the next boundary \<open>bd\<close>; a file has a name and a content type.\<close>

definition part_head :: "form_part \<Rightarrow> byte list" where
  "part_head p = (case part_file p of None \<Rightarrow> [] | Some (f, t) \<Rightarrow> FNAME_S @ f @ 0x22 # CONTENT_TYPE_PREFIX @ t)"

definition part_text :: "byte list \<Rightarrow> form_part \<Rightarrow> byte list" where
  "part_text bd p = CONTENT_DFD @ NAME_S @ part_name p @ 0x22 # part_head p @ EMPTY_LINE @ part_value p @ CRLF @ bd"

definition form_text :: "byte list \<Rightarrow> form_part list \<Rightarrow> byte list" where
  "form_text bd ps = bd @ concat (map (part_text bd) ps) @ bytes ''--'' @ CRLF"

type_synonym post_event = "post_et \<times> byte list"

definition part_events :: "byte list \<Rightarrow> form_part \<Rightarrow> post_event list" where
  "part_events bd p =
     [(POST_ET_CONTENT_FORM_DATA, CONTENT_DFD), (POST_ET_NAME, part_name p)] @
     (case part_file p of None \<Rightarrow> [] | Some (f, t) \<Rightarrow> [(POST_ET_FILENAME, f), (POST_ET_CONTENT_TYPE, t)]) @
     [(POST_ET_EMPTY_LINE, EMPTY_LINE), (POST_ET_VALUE, part_value p), (POST_ET_BOUNDARY, CRLF @ bd)]"

definition form_events :: "byte list \<Rightarrow> form_part list \<Rightarrow> post_event list" where
  "form_events bd ps = (POST_ET_BOUNDARY, bd) # concat (map (part_events bd) ps) @ [(POST_ET_FINISH, bytes ''--'' @ CRLF)]"

definition record_post :: "post_event list post_cb" where
  "record_post et d l s = (False, s @ [(et, case d of None \<Rightarrow> [] | Some d \<Rightarrow> take l d)])"

definition boundary_ok :: "byte list \<Rightarrow> bool" where
  "boundary_ok bd \<longleftrightarrow> 4 \<le> length bd \<and> length bd + 2 \<le> PDP_BOUNDARY_MAX \<and> 0x0d \<notin> set bd"

text \<open>The parser compares a boundary without its last byte.\<close>

definition part_ok :: "byte list \<Rightarrow> form_part \<Rightarrow> bool" where
  "part_ok bd p \<longleftrightarrow> 0x22 \<notin> set (part_name p) \<and> first_behind (CRLF @ butlast bd) (part_value p) \<and>
     (\<forall>f t. part_file p = Some (f, t) \<longrightarrow> 0x22 \<notin> set f \<and> t \<noteq> [] \<and> 0x0d \<notin> set t)"

lemmas post_consts = CRLF_def CONTENT_DFD_def NAME_S_def FNAME_S_def EMPTY_LINE_def CONTENT_TYPE_PREFIX_def

lemma consume_record:
  "CONSUME_ITEM2 record_post b et l voff vlen i s = Next et (i + l) (s @ [(et, take vlen (drop voff b))])"
  by (simp add: CONSUME_ITEM2_def record_post_def)

lemma matches_append:
  "matches (pre @ rest) (length (pre @ rest)) (length pre) pat = Inr (take (length pat) rest = pat)"
proof (cases "length pat \<le> length rest")
  case True
  then show ?thesis using starts_at_append [OF True, of pre] by (simp add: matches_def)
next
  case False
  then have "take (length pat) rest \<noteq> pat" by (metis length_take min.cobounded1 nat_le_linear)
  then show ?thesis using False by (simp add: matches_def)
qed

lemma no_cr_first_behind: "0x0d \<notin> set t \<Longrightarrow> first_behind CRLF t"
  unfolding first_behind_def
proof (intro allI impI notI)
  fix j assume a: "0x0d \<notin> set t" "j < length t" "take (length CRLF) (drop j (t @ CRLF)) = CRLF"
  then have "hd (drop j (t @ CRLF)) = 0x0d" by (metis CRLF_def hd_take list.sel(1) length_greater_0_conv list.distinct(1))
  then have "t ! j = 0x0d" using a(2) by (simp add: hd_drop_conv_nth nth_append)
  then show False using a(1,2) nth_mem [of j t] by simp
qed

section \<open>Steps through a message\<close>

lemma step_form_data:
  assumes "b = pre @ CONTENT_DFD @ post"
  shows "pdp_step record_post b (length b) ctx POST_ET_BOUNDARY (length pre) s =
    Inr (Next POST_ET_CONTENT_FORM_DATA (length (pre @ CONTENT_DFD)) (s @ [(POST_ET_CONTENT_FORM_DATA, CONTENT_DFD)]))"
  using matches_append [of pre "CONTENT_DFD @ post" CONTENT_DFD]
  by (simp add: assms pdp_step_def CONSUME_ITEM_def consume_record)

lemma step_finish:
  assumes "b = pre @ bytes ''--'' @ CRLF"
  shows "pdp_step record_post b (length b) ctx POST_ET_BOUNDARY (length pre) s = Inr (Finished (s @ [(POST_ET_FINISH, bytes ''--'' @ CRLF)]))"
proof -
  have "matches b (length b) (length pre) CONTENT_DFD = Inr False"
    unfolding assms matches_append by (simp add: post_consts)
  moreover have "starts_at b (length pre) (bytes ''--'' @ CRLF) = Inr True"
    using starts_at_append [of "bytes ''--'' @ CRLF" "bytes ''--'' @ CRLF" pre] assms by simp
  moreover have "length b - length pre = 4" "take 4 (drop (length pre) b) = bytes ''--'' @ CRLF" using assms by (simp_all add: CRLF_def)
  ultimately show ?thesis by (simp add: pdp_step_def record_post_def CRLF_def)
qed

lemma name_step_quoted:
  assumes "b = pre @ k @ name @ 0x22 # post" "0x22 \<notin> set name"
  shows "name_step record_post b (length b) et k (length pre) s = Inr (Next et (length (pre @ k @ name @ [0x22])) (s @ [(et, name)]))"
proof -
  have "GET_NAME_END b (length b) (length (pre @ k)) = Inr (Some (length (pre @ k) + length name))"
    using name_end_found [OF assms(2), of "length b - length (pre @ k)" "pre @ k" post] by (simp add: assms(1) GET_NAME_END_def)
  moreover have "take (length name) (drop (length pre + length k) b) = name" using assms(1) by simp
  ultimately show ?thesis by (simp add: name_step_def consume_record)
qed

lemma step_name:
  assumes "b = pre @ NAME_S @ name @ 0x22 # post" "0x22 \<notin> set name"
  shows "pdp_step record_post b (length b) ctx POST_ET_CONTENT_FORM_DATA (length pre) s =
    Inr (Next POST_ET_NAME (length (pre @ NAME_S @ name @ [0x22])) (s @ [(POST_ET_NAME, name)]))"
  using matches_append [of pre "NAME_S @ name @ 0x22 # post" NAME_S] name_step_quoted [OF assms]
  by (simp add: assms(1) pdp_step_def)

lemma step_filename:
  assumes "b = pre @ FNAME_S @ name @ 0x22 # post" "0x22 \<notin> set name"
  shows "pdp_step record_post b (length b) ctx POST_ET_NAME (length pre) s =
    Inr (Next POST_ET_FILENAME (length (pre @ FNAME_S @ name @ [0x22])) (s @ [(POST_ET_FILENAME, name)]))"
  using matches_append [of pre "FNAME_S @ name @ 0x22 # post" FNAME_S] name_step_quoted [OF assms]
  by (simp add: assms(1) pdp_step_def)

lemma step_content_type:
  assumes "b = pre @ CONTENT_TYPE_PREFIX @ t @ CRLF @ post" "t \<noteq> []" "0x0d \<notin> set t"
  shows "pdp_step record_post b (length b) ctx POST_ET_FILENAME (length pre) s =
    Inr (Next POST_ET_CONTENT_TYPE (length (pre @ CONTENT_TYPE_PREFIX @ t)) (s @ [(POST_ET_CONTENT_TYPE, t)]))"
proof -
  let ?k = CONTENT_TYPE_PREFIX
  obtain c t' where t: "t = c # t'" using assms(2) by (cases t) auto
  have room: "length b - length pre > length ?k + 1" using assms(1) t by (simp add: CRLF_def)
  have "starts_at b (length pre) ?k = Inr True" using starts_at_append [of ?k "?k @ t @ CRLF @ post" pre] assms(1) by simp
  moreover have "memmem b (length (pre @ ?k @ [c])) (length b - length pre) CRLF = Inr (Some (length (pre @ ?k @ [c]) + length t'))"
    using memmem_found [OF no_cr_first_behind, of t' "length b - length pre" "pre @ ?k @ [c]" post] assms(1,3) t by (simp add: CRLF_def)
  moreover have "take (Suc (length t')) (drop (length pre + length ?k) b) = t" using assms(1) t by simp
  ultimately show ?thesis using room t by (simp add: pdp_step_def consume_record)
qed

lemma step_empty_line:
  assumes "b = pre @ EMPTY_LINE @ post" "et = POST_ET_NAME \<or> et = POST_ET_CONTENT_TYPE"
  shows "pdp_step record_post b (length b) ctx et (length pre) s =
    Inr (Next POST_ET_EMPTY_LINE (length (pre @ EMPTY_LINE)) (s @ [(POST_ET_EMPTY_LINE, EMPTY_LINE)]))"
proof -
  have "matches b (length b) (length pre) EMPTY_LINE = Inr True" unfolding assms(1) matches_append by simp
  moreover have "matches b (length b) (length pre) FNAME_S = Inr False" unfolding assms(1) matches_append by (simp add: post_consts)
  ultimately show ?thesis using assms by (auto simp: pdp_step_def CONSUME_ITEM_def consume_record)
qed

lemma step_value:
  assumes "b = pre @ v @ CRLF @ bd @ post" "bd \<noteq> []" "first_behind (CRLF @ butlast bd) v"
    and "boundary_bytes ctx = CRLF @ butlast bd" "boundary_len ctx = length bd + 1"
  shows "pdp_step record_post b (length b) ctx POST_ET_EMPTY_LINE (length pre) s =
    Inr (Next POST_ET_BOUNDARY (length (pre @ v @ CRLF @ bd)) (s @ [(POST_ET_VALUE, v), (POST_ET_BOUNDARY, CRLF @ bd)]))"
proof -
  let ?n = "CRLF @ butlast bd"
  have b: "b = pre @ v @ ?n @ (last bd # post)" using assms(1,2) by simp
  have m: "memmem b (length pre) (length b - length pre) ?n = Inr (Some (length pre + length v))"
    unfolding b by (rule memmem_found [OF assms(3)]) simp
  have d: "take (length v) (drop (length pre) b) = v" "take (length bd + 2) (drop (length pre + length v) b) = CRLF @ bd"
    using assms(1) by (simp_all add: CRLF_def)
  show ?thesis
    using m d assms(4,5) by (cases "v = []") (simp_all add: pdp_step_def value_step_def CONSUME_ITEM_def consume_record and_then_def CRLF_def)
qed

section \<open>Runs of the loop\<close>

definition runs :: "byte list \<Rightarrow> post_data_ctx_t \<Rightarrow> nat \<Rightarrow> post_et \<Rightarrow> nat \<Rightarrow> post_event list \<Rightarrow> post_et \<Rightarrow> nat \<Rightarrow> post_event list \<Rightarrow> bool" where
  "runs b ctx k et i s et' i' s' \<longleftrightarrow>
     (\<forall>n. pdp_loop (n + k) record_post b (length b) ctx et i s = pdp_loop n record_post b (length b) ctx et' i' s')"

lemma runs_step:
  "pdp_step record_post b (length b) ctx et i s = Inr (Next et' i' s') \<Longrightarrow> i < length b \<Longrightarrow> runs b ctx 1 et i s et' i' s'"
  by (simp add: runs_def)

lemma runs_trans: "runs b ctx k et i s et1 i1 s1 \<Longrightarrow> runs b ctx k' et1 i1 s1 et2 i2 s2 \<Longrightarrow> runs b ctx (k' + k) et i s et2 i2 s2"
  by (simp add: runs_def add.assoc [symmetric])

lemma head_run:
  assumes "b = pre @ part_head p @ EMPTY_LINE @ post" "part_ok bd p"
  shows "\<exists>k \<le> 3. runs b ctx k POST_ET_NAME (length pre) s POST_ET_EMPTY_LINE (length (pre @ part_head p @ EMPTY_LINE))
    (s @ (case part_file p of None \<Rightarrow> [] | Some (f, t) \<Rightarrow> [(POST_ET_FILENAME, f), (POST_ET_CONTENT_TYPE, t)]) @ [(POST_ET_EMPTY_LINE, EMPTY_LINE)])"
proof (cases "part_file p")
  case None
  have "b = pre @ EMPTY_LINE @ post" using assms(1) None by (simp add: part_head_def)
  from runs_step [OF step_empty_line [OF this]] this show ?thesis
    using None by (intro exI [of _ 1]) (simp add: part_head_def EMPTY_LINE_def CRLF_def)
next
  case (Some x)
  obtain f t where x: "x = (f, t)" by (cases x)
  have ok: "0x22 \<notin> set f" "t \<noteq> []" "0x0d \<notin> set t" using assms(2) Some x by (auto simp: part_ok_def)
  let ?p1 = "pre @ FNAME_S @ f @ [0x22]"
  let ?p2 = "?p1 @ CONTENT_TYPE_PREFIX @ t"
  have b0: "b = pre @ FNAME_S @ f @ 0x22 # (CONTENT_TYPE_PREFIX @ t @ EMPTY_LINE @ post)"
    and b1: "b = ?p1 @ CONTENT_TYPE_PREFIX @ t @ CRLF @ (CRLF @ post)"
    and b2: "b = ?p2 @ EMPTY_LINE @ post"
    using assms(1) Some x by (simp_all add: part_head_def EMPTY_LINE_def)
  have less: "length pre < length b" "length ?p1 < length b" "length ?p2 < length b" using b2 by (simp_all add: EMPTY_LINE_def CRLF_def)
  note r = runs_trans [OF runs_trans [OF runs_step [OF step_filename [OF b0 ok(1)] less(1)]
    runs_step [OF step_content_type [OF b1 ok(2,3)] less(2)]] runs_step [OF step_empty_line [OF b2] less(3)]]
  show ?thesis using r [of ctx s] Some x by (intro exI [of _ "Suc (Suc (Suc 0))"]) (simp add: part_head_def)
qed

lemma part_run:
  assumes "b = pre @ part_text bd p @ post" "part_ok bd p" "bd \<noteq> []"
    and "boundary_bytes ctx = CRLF @ butlast bd" "boundary_len ctx = length bd + 1"
  shows "\<exists>k \<le> 6. runs b ctx k POST_ET_BOUNDARY (length pre) s POST_ET_BOUNDARY (length (pre @ part_text bd p)) (s @ part_events bd p)"
proof -
  let ?p1 = "pre @ CONTENT_DFD"
  let ?p2 = "?p1 @ NAME_S @ part_name p @ [0x22]"
  let ?p3 = "?p2 @ part_head p @ EMPTY_LINE"
  have b0: "b = pre @ CONTENT_DFD @ (NAME_S @ part_name p @ 0x22 # part_head p @ EMPTY_LINE @ part_value p @ CRLF @ bd @ post)"
    and b1: "b = ?p1 @ NAME_S @ part_name p @ 0x22 # (part_head p @ EMPTY_LINE @ part_value p @ CRLF @ bd @ post)"
    and b2: "b = ?p2 @ part_head p @ EMPTY_LINE @ (part_value p @ CRLF @ bd @ post)"
    and b3: "b = ?p3 @ part_value p @ CRLF @ bd @ post"
    using assms(1) by (simp_all add: part_text_def)
  have less: "length pre < length b" "length ?p1 < length b" "length ?p3 < length b" using b3 by (simp_all add: CRLF_def)
  have ok: "0x22 \<notin> set (part_name p)" "first_behind (CRLF @ butlast bd) (part_value p)" using assms(2) by (simp_all add: part_ok_def)
  let ?s2 = "s @ [(POST_ET_CONTENT_FORM_DATA, CONTENT_DFD)] @ [(POST_ET_NAME, part_name p)]"
  have r1: "runs b ctx (Suc (Suc 0)) POST_ET_BOUNDARY (length pre) s POST_ET_NAME (length ?p2) ?s2"
    using runs_trans [OF runs_step [OF step_form_data [OF b0] less(1)] runs_step [OF step_name [OF b1 ok(1)] less(2)]] by simp
  obtain k where k: "k \<le> 3" "runs b ctx k POST_ET_NAME (length ?p2) ?s2 POST_ET_EMPTY_LINE (length ?p3)
      (?s2 @ (case part_file p of None \<Rightarrow> [] | Some (f, t) \<Rightarrow> [(POST_ET_FILENAME, f), (POST_ET_CONTENT_TYPE, t)]) @ [(POST_ET_EMPTY_LINE, EMPTY_LINE)])"
    using head_run [OF b2 assms(2), where ctx = ctx and s = ?s2] by auto
  from runs_trans [OF runs_trans [OF r1 k(2)] runs_step [OF step_value [OF b3 assms(3) ok(2) assms(4,5)] less(3)]]
  show ?thesis using k(1) by (intro exI [of _ "1 + (k + Suc (Suc 0))"]) (simp add: part_events_def part_text_def)
qed

lemma parts_run:
  assumes "\<forall>p \<in> set ps. part_ok bd p" "bd \<noteq> []" "boundary_bytes ctx = CRLF @ butlast bd" "boundary_len ctx = length bd + 1"
    and "b = pre @ concat (map (part_text bd) ps) @ post"
  shows "\<exists>k \<le> 6 * length ps. runs b ctx k POST_ET_BOUNDARY (length pre) s POST_ET_BOUNDARY (length (pre @ concat (map (part_text bd) ps)))
    (s @ concat (map (part_events bd) ps))"
  using assms(1,5)
proof (induction ps arbitrary: pre s)
  case Nil
  then show ?case by (simp add: runs_def)
next
  case (Cons p ps)
  have b: "b = pre @ part_text bd p @ (concat (map (part_text bd) ps) @ post)" "b = (pre @ part_text bd p) @ concat (map (part_text bd) ps) @ post"
    using Cons.prems(2) by simp_all
  obtain k where k: "k \<le> 6" "runs b ctx k POST_ET_BOUNDARY (length pre) s POST_ET_BOUNDARY (length (pre @ part_text bd p)) (s @ part_events bd p)"
    using part_run [OF b(1) _ assms(2-4)] Cons.prems(1) by auto
  obtain k' where k': "k' \<le> 6 * length ps" "runs b ctx k' POST_ET_BOUNDARY (length (pre @ part_text bd p)) (s @ part_events bd p) POST_ET_BOUNDARY
      (length ((pre @ part_text bd p) @ concat (map (part_text bd) ps))) ((s @ part_events bd p) @ concat (map (part_events bd) ps))"
    using Cons.IH [OF _ b(2), of "s @ part_events bd p"] Cons.prems(1) by auto
  show ?case using runs_trans [OF k(2) k'(2)] k(1) k'(1) by (intro exI [of _ "k' + k"]) simp
qed

lemma part_text_length: "6 \<le> length (part_text bd p)"
  by (simp add: part_text_def post_consts)

lemma parts_text_length: "6 * length ps \<le> length (concat (map (part_text bd) ps))"
  using part_text_length [of bd] by (induction ps) (auto intro: add_mono)

lemma locate_boundary:
  assumes "boundary_ok bd" "b = bd @ CRLF @ post"
  shows "pdp_locate_boundary b (length b) = Inr (int (length bd) - 1)"
proof -
  have "first_behind CRLF bd" using assms(1) by (intro no_cr_first_behind) (simp add: boundary_ok_def)
  then have m: "memmem b 0 (if PDP_BOUNDARY_MAX < length b then PDP_BOUNDARY_MAX else length b) CRLF = Inr (Some (length bd))"
    using memmem_found [of CRLF bd _ "[]" post] assms by (auto simp: boundary_ok_def CRLF_def)
  show ?thesis unfolding pdp_locate_boundary_def m using assms by (simp add: boundary_ok_def Let_def)
qed

lemma record_boundary:
  assumes "boundary_ok bd" "length d = PDP_BOUNDARY_MAX" "b = bd @ post"
  obtains d1 d2 d3 where "put_at 0 CRLF d = Inr d1" "memcpy_at 2 b (length bd - 1) d1 = Inr d2" "put_at (length bd + 1) [0] d2 = Inr d3"
    "take (length bd + 1) d3 = CRLF @ butlast bd"
proof -
  let ?n = "length bd - 1"
  have n: "4 \<le> length bd" "length bd + 2 \<le> PDP_BOUNDARY_MAX" using assms(1) by (auto simp: boundary_ok_def)
  let ?d1 = "CRLF @ drop 2 d"
  let ?d2 = "CRLF @ butlast bd @ drop (length bd + 1) d"
  let ?d3 = "CRLF @ butlast bd @ 0 # drop (length bd + 2) d"
  obtain m where m: "length bd = Suc m" using n(1) by (cases "length bd") auto
  have t: "take ?n b = butlast bd" using assms(3) n(1) by (simp add: butlast_conv_take)
  have p1: "put_at 0 CRLF d = Inr ?d1" using n assms(2) by (simp add: put_at_def CRLF_def numeral_2_eq_2)
  have "memcpy_at 2 b ?n ?d1 = Inr ?d2" using n assms(2,3) t m by (auto simp: memcpy_at_def put_at_def CRLF_def)
  moreover have "put_at (length bd + 1) [0] ?d2 = Inr ?d3" using n assms(2) m by (auto simp: put_at_def CRLF_def)
  moreover have "take (length bd + 1) ?d3 = CRLF @ butlast bd" using m by (simp add: CRLF_def)
  ultimately show thesis using that p1 by blast
qed

section \<open>Properties\<close>

text \<open>
  C24.  The parser reads back a form that arrives in one buffer: for every boundary of 4 to 254 bytes without CR and every non-empty list
  of fields, whose names (and file names) contain no quote, whose files have a non-empty type without CR, and in whose values no line
  break followed by the boundary without its last byte begins (the parser compares no more, lemma \<open>boundary_last_byte_ignored\<close>), the
  callback receives exactly the elements of the message in their order, with the names, types and values as they were, and the parser
  reports the end of the form.
\<close>

theorem post_data_roundtrip:
  assumes "boundary_ok bd" "\<forall>p \<in> set ps. part_ok bd p" "last_item_type ctx = POST_ET_VOID" "length (boundary ctx) = PDP_BOUNDARY_MAX"
    and "ps \<noteq> []"
  shows "\<exists>ctx'. post_data_parser record_post (form_text bd ps) (length (form_text bd ps)) ctx [] = Inr (0, ctx', form_events bd ps) \<and>
    last_item_type ctx' = POST_ET_FINISH"
proof -
  define b where "b = form_text bd ps"
  have n: "4 \<le> length bd" "length bd + 2 \<le> PDP_BOUNDARY_MAX" using assms(1) by (auto simp: boundary_ok_def)
  have ne: "bd \<noteq> []" using n(1) by auto
  let ?fin = "bytes ''--'' @ CRLF"
  have b: "b = bd @ concat (map (part_text bd) ps) @ ?fin" by (simp add: b_def form_text_def)
  obtain p ps' where ps: "ps = p # ps'" using assms(5) by (cases ps) auto
  have first: "b = bd @ CRLF @ (drop 2 (concat (map (part_text bd) ps) @ ?fin))"
    unfolding b ps by (simp add: part_text_def CONTENT_DFD_def CRLF_def)
  obtain d1 d2 d3 where d: "put_at 0 CRLF (boundary ctx) = Inr d1" "memcpy_at 2 b (length bd - 1) d1 = Inr d2"
      "put_at (length bd + 1) [0] d2 = Inr d3" "take (length bd + 1) d3 = CRLF @ butlast bd"
    using record_boundary [OF assms(1,4) b] .
  let ?c = "ctx\<lparr>boundary := d3, boundary_len := length bd + 1\<rparr>"
  have c: "boundary_bytes ?c = CRLF @ butlast bd" "boundary_len ?c = length bd + 1" using d(4) by (simp_all add: boundary_bytes_def)
  let ?s = "[(POST_ET_BOUNDARY, bd)]"
  let ?pre = "bd @ concat (map (part_text bd) ps)"
  obtain k where k: "k \<le> 6 * length ps"
      "runs b ?c k POST_ET_BOUNDARY (length bd) ?s POST_ET_BOUNDARY (length ?pre) (?s @ concat (map (part_events bd) ps))"
    using parts_run [OF assms(2) ne c b, of ?s] by auto
  have le: "k \<le> length b" using k(1) parts_text_length [of ps bd] by (simp add: b)
  have e: "b = ?pre @ ?fin" using b by simp
  have "pdp_loop (Suc (length b - k)) record_post b (length b) ?c POST_ET_BOUNDARY (length ?pre) (?s @ concat (map (part_events bd) ps)) =
      Inr (0, ?c\<lparr>last_item_type := POST_ET_FINISH\<rparr>, form_events bd ps)"
    using step_finish [OF e] e by (simp add: form_events_def)
  then have "pdp_loop (length b + 1) record_post b (length b) ?c POST_ET_BOUNDARY (length bd) ?s =
      Inr (0, ?c\<lparr>last_item_type := POST_ET_FINISH\<rparr>, form_events bd ps)"
    using k(2) [unfolded runs_def, rule_format, of "Suc (length b - k)"] le by simp
  moreover have "CONSUME_ITEM record_post b POST_ET_BOUNDARY (length bd) 0 [] = Next POST_ET_BOUNDARY (length bd) ?s"
    using b by (simp add: CONSUME_ITEM_def consume_record)
  moreover have "nat (int (length bd) - 1) = length bd - 1" "nat (int (length bd) - 1) + 2 = length bd + 1" "nat (int (length bd) - 1) + 1 = length bd"
    using n(1) by auto
  ultimately have "post_data_parser record_post b (length b) ctx [] = Inr (0, ?c\<lparr>last_item_type := POST_ET_FINISH\<rparr>, form_events bd ps)"
    using locate_boundary [OF assms(1) first] assms(3) d(1-3) n by (simp add: post_data_parser_def Let_def)
  then show ?thesis unfolding b_def by simp
qed

definition ex_bd :: "byte list" where "ex_bd = bytes ''--ab''"

definition ex_parts :: "form_part list" where
  "ex_parts = [\<lparr>part_name = bytes ''n'', part_file = None, part_value = bytes ''v''\<rparr>,
     \<lparr>part_name = bytes ''f'', part_file = Some (bytes ''x.txt'', bytes ''text/plain''), part_value = []\<rparr>]"

definition ex_ctx :: post_data_ctx_t where
  "ex_ctx = \<lparr>last_item_type = POST_ET_VOID, boundary = replicate PDP_BOUNDARY_MAX 0, boundary_len = 0\<rparr>"

theorem post_data_roundtrip_witness:
  "\<exists>ctx'. post_data_parser record_post (form_text ex_bd ex_parts) (length (form_text ex_bd ex_parts)) ex_ctx [] = Inr (0, ctx', form_events ex_bd ex_parts) \<and>
    last_item_type ctx' = POST_ET_FINISH"
proof (rule post_data_roundtrip)
  show "boundary_ok ex_bd" by (simp add: boundary_ok_def ex_bd_def PDP_BOUNDARY_MAX_def)
  show "\<forall>p \<in> set ex_parts. part_ok ex_bd p" by (simp add: ex_parts_def part_ok_def first_behind_def ex_bd_def CRLF_def)
qed (simp_all add: ex_ctx_def ex_parts_def)

text \<open>A line of the value that differs from the boundary in its last byte ends the value.\<close>

definition ex_close :: form_part where
  "ex_close = \<lparr>part_name = bytes ''n'', part_file = None, part_value = bytes ''v'' @ CRLF @ bytes ''--ax''\<rparr>"

lemma boundary_last_byte_ignored:
  "bindE (post_data_parser record_post (form_text ex_bd [ex_close]) (length (form_text ex_bd [ex_close])) ex_ctx [])
     (\<lambda>(r, ctx, s). Inr (filter (\<lambda>(et, d). et = POST_ET_VALUE) s)) = Inr [(POST_ET_VALUE, bytes ''v'')]"
  by code_simp

text \<open>
  A boundary that is split between two buffers is not seen: its two halves reach the callback as parts of the value, and the form
  does not end.
\<close>

definition ex_split :: "post_et \<Rightarrow> post_data_ctx_t" where
  "ex_split et = \<lparr>last_item_type = et, boundary = CRLF @ bytes ''--a'' @ replicate 251 0, boundary_len = 5\<rparr>"

lemma split_boundary_missed:
  "post_data_parser record_post (bytes ''v'' @ CRLF @ bytes ''-'') 4 (ex_split POST_ET_EMPTY_LINE) [] =
     Inr (0, ex_split POST_ET_VALUE, [(POST_ET_VALUE, bytes ''v'' @ CRLF @ bytes ''-'')])"
  "post_data_parser record_post (bytes ''-ab--'' @ CRLF) 7 (ex_split POST_ET_VALUE) [] =
     Inr (0, ex_split POST_ET_VALUE, [(POST_ET_VALUE, bytes ''-ab--'' @ CRLF)])"
  by code_simp+

end
