(* ===== verification/Esq_Cookie.thy ===== *)
theory Esq_Cookie
  imports Esq_Compare "HOL-Library.Product_Lexorder"
begin

text \<open>
  The cookies of a request, \<^verbatim>\<open>nghttp2_wrapper/cookie.c\<close>: each is cut at its first equals sign and kept in two red-black
  trees, by name and by index.  The tree by name holds every cookie and serves the search; the index of a new cookie is taken from the
  largest one, for which the code follows the links of the tree by name from the root of the tree by index.
\<close>

section \<open>Data\<close>

definition COOKIE_STR_MAX :: nat where "COOKIE_STR_MAX = 4095"
definition COOKIE_NAME_MAX :: nat where "COOKIE_NAME_MAX = 1024"

record h2esq_cookie_t =
  ck_idx :: int
  ck_name :: "byte list"
  ck_name_len :: nat
  ck_name_hash :: int
  ck_value :: "byte list"
  ck_value_len :: nat

type_synonym cookie_heap = "addr \<Rightarrow> h2esq_cookie_t option"

record h2esq_cookies_rb_roots =
  cookies :: cookie_heap
  root_by_name :: "addr rb"
  root_by_idx :: "addr rb"

definition cookie_at :: "addr \<Rightarrow> cookie_heap \<Rightarrow> h2esq_cookie_t res" where
  "cookie_at a h = of_opt (h a)"

text \<open>The difference of the hashes is one of \<^verbatim>\<open>unsigned long\<close>s, returned as an \<^verbatim>\<open>int\<close>.\<close>

definition h2esq_rbtree_cmp_name :: "int \<Rightarrow> nat \<Rightarrow> byte list \<Rightarrow> cookie_heap \<Rightarrow> addr \<Rightarrow> int res" where
  "h2esq_rbtree_cmp_name hash len name h b =
     bindE (cookie_at b h) (\<lambda>n.
     if hash \<noteq> ck_name_hash n then Inr (wrap32 (hash - ck_name_hash n))
     else if len \<noteq> ck_name_len n then Inr (int len - int (ck_name_len n))
     else strcmp name (ck_name n))"

definition h2esq_rbtree_cmp_idx :: "int \<Rightarrow> cookie_heap \<Rightarrow> addr \<Rightarrow> int res" where
  "h2esq_rbtree_cmp_idx i h b = bindE (cookie_at b h) (\<lambda>n. of_opt (i32 (i - ck_idx n)))"

section \<open>Names\<close>

definition cookie_hash_step :: "byte \<times> byte \<times> byte \<times> byte \<Rightarrow> nat \<Rightarrow> byte \<Rightarrow> byte \<times> byte \<times> byte \<times> byte" where
  "cookie_hash_step = (\<lambda>(h0, h1, h2, h3) i c.
     (if i AND 1 \<noteq> 0 then h0 + c else h0, if i AND 3 \<noteq> 0 then h1 + c else h1,
      if i AND 2 \<noteq> 0 then h2 + c else h2, if i AND 6 \<noteq> 0 then h3 + c else h3))"

definition cookie_hash_sum :: "byte \<times> byte \<times> byte \<times> byte \<Rightarrow> int" where
  "cookie_hash_sum = (\<lambda>(h0, h1, h2, h3). uint h0 + uint h1 * 2 ^ 8 + uint h2 * 2 ^ 16 + uint h3 * 2 ^ 23)"

definition cookie_hash :: "byte \<times> byte \<times> byte \<times> byte \<Rightarrow> int res" where
  "cookie_hash h = of_opt (i32 (cookie_hash_sum h))"

primrec features_loop :: "byte list \<Rightarrow> nat \<Rightarrow> nat \<Rightarrow> byte \<times> byte \<times> byte \<times> byte \<Rightarrow> (int \<times> nat) option res" where
  "features_loop str 0 i h = bindE (cookie_hash h) (\<lambda>_. Inr None)"
| "features_loop str (Suc c) i h =
     bindE (of_opt (rd str i)) (\<lambda>x.
     if x = 0x3d then if i \<noteq> 0 then bindE (cookie_hash h) (\<lambda>hash. Inr (Some (hash, i))) else Inr None
     else features_loop str c (i + 1) (cookie_hash_step h i x))"

text \<open>\<open>None\<close> is the return value -1.\<close>

definition h2esq_get_cookie_string_features :: "byte list \<Rightarrow> nat \<Rightarrow> (int \<times> nat) option res" where
  "h2esq_get_cookie_string_features str len =
     (if len \<le> 0 \<or> len \<ge> COOKIE_STR_MAX then Inr None else features_loop str len 0 (0, 0, 0, 0))"

primrec hash_loop :: "byte list \<Rightarrow> nat \<Rightarrow> nat \<Rightarrow> byte \<times> byte \<times> byte \<times> byte \<Rightarrow> (byte \<times> byte \<times> byte \<times> byte) res" where
  "hash_loop str 0 i h = Inr h"
| "hash_loop str (Suc c) i h = bindE (of_opt (rd str i)) (\<lambda>x. hash_loop str c (i + 1) (cookie_hash_step h i x))"

definition h2esq_get_cookie_string_hash :: "byte list \<Rightarrow> nat \<Rightarrow> int res" where
  "h2esq_get_cookie_string_hash str len = bindE (hash_loop str len 0 (0, 0, 0, 0)) cookie_hash"

section \<open>Saving, finding and freeing\<close>

fun RB_MAX :: "'a rb \<Rightarrow> 'a option" where
  "RB_MAX RB_NULL = None"
| "RB_MAX (RB_NODE c l a r) = (if r = RB_NULL then Some a else RB_MAX r)"

primrec subtree_at :: "'a \<Rightarrow> 'a rb \<Rightarrow> 'a rb" where
  "subtree_at a RB_NULL = RB_NULL"
| "subtree_at a (RB_NODE c l x r) =
     (if x = a then RB_NODE c l x r else if subtree_at a l \<noteq> RB_NULL then subtree_at a l else subtree_at a r)"

text \<open>\<^verbatim>\<open>RB_MAX(H2ESQ_COOKIE_BY_NAME, root_by_idx)\<close>: from the root of one tree along the right links of the other.\<close>

definition max_of_idx :: "addr rb \<Rightarrow> addr rb \<Rightarrow> addr option res" where
  "max_of_idx by_name by_idx = (case by_idx of
     RB_NULL \<Rightarrow> Inr None
   | RB_NODE c l a r \<Rightarrow> bindE (of_opt (RB_MAX (subtree_at a by_name))) (\<lambda>b. Inr (Some b)))"

definition new_cookie :: "byte list \<Rightarrow> nat \<Rightarrow> int \<Rightarrow> nat \<Rightarrow> h2esq_cookie_t" where
  "new_cookie str len hash name_len = \<lparr>ck_idx = 0, ck_name = take name_len str @ [0], ck_name_len = name_len, ck_name_hash = hash,
     ck_value = take (len - name_len - 1) (drop (name_len + 1) str) @ [0], ck_value_len = len - name_len - 1\<rparr>"

definition h2esq_save_cookie :: "addr option \<Rightarrow> byte list \<Rightarrow> nat \<Rightarrow> h2esq_cookies_rb_roots \<Rightarrow> (int \<times> h2esq_cookies_rb_roots) res" where
  "h2esq_save_cookie mem str len w =
     bindE (h2esq_get_cookie_string_features str len) (\<lambda>f.
     case f of None \<Rightarrow> Inr (-1, w) | Some (hash, name_len) \<Rightarrow>
     case mem of None \<Rightarrow> Inr (-1, w) | Some p \<Rightarrow>
     let n = new_cookie str len hash name_len; h = (cookies w)(p \<mapsto> n) in
     bindE (RB_INSERT (h2esq_rbtree_cmp_name hash name_len (ck_name n) h) p (root_by_name w)) (\<lambda>(e, t).
     if e \<noteq> None then Inr (0, w\<lparr>cookies := h(p := None), root_by_name := t\<rparr>)
     else bindE (max_of_idx t (root_by_idx w)) (\<lambda>mx.
     bindE (case mx of None \<Rightarrow> Inr 0 | Some b \<Rightarrow> bindE (cookie_at b h) (\<lambda>m. of_opt (i32 (ck_idx m + 1)))) (\<lambda>i.
     let h = h(p \<mapsto> n\<lparr>ck_idx := i\<rparr>) in
     bindE (RB_INSERT (h2esq_rbtree_cmp_idx i h) p (root_by_idx w)) (\<lambda>(e, u).
     Inr (0, w\<lparr>cookies := h, root_by_name := t, root_by_idx := u\<rparr>))))))"

definition h2esq_get_cookie_value_by_name :: "byte list \<Rightarrow> h2esq_cookies_rb_roots \<Rightarrow> byte list option res" where
  "h2esq_get_cookie_value_by_name name w =
     bindE (of_opt (strnlen name COOKIE_NAME_MAX)) (\<lambda>name_len.
     if name_len \<le> 0 \<or> name_len \<ge> COOKIE_NAME_MAX then Inr None
     else bindE (h2esq_get_cookie_string_hash name name_len) (\<lambda>hash.
     bindE (RB_FIND (h2esq_rbtree_cmp_name hash name_len name (cookies w)) (root_by_name w)) (\<lambda>x.
     case x of None \<Rightarrow> Inr None | Some p \<Rightarrow> bindE (cookie_at p (cookies w)) (\<lambda>n. Inr (Some (ck_value n))))))"

definition h2esq_get_cookie_value_by_idx :: "int \<Rightarrow> h2esq_cookies_rb_roots \<Rightarrow> (byte list \<times> byte list) option res" where
  "h2esq_get_cookie_value_by_idx i w =
     bindE (RB_FIND (h2esq_rbtree_cmp_idx i (cookies w)) (root_by_idx w)) (\<lambda>x.
     case x of None \<Rightarrow> Inr None | Some p \<Rightarrow> bindE (cookie_at p (cookies w)) (\<lambda>n. Inr (Some (ck_name n, ck_value n))))"

primrec free_loop :: "nat \<Rightarrow> h2esq_cookies_rb_roots \<Rightarrow> h2esq_cookies_rb_roots res" where
  "free_loop 0 w = Inl Fuel"
| "free_loop (Suc fuel) w =
     (case RB_MIN (root_by_name w) of None \<Rightarrow> Inr w | Some p \<Rightarrow>
      bindE (of_opt (RB_REMOVE p (root_by_name w))) (\<lambda>t.
      bindE (cookie_at p (cookies w)) (\<lambda>n.
      free_loop fuel (w\<lparr>cookies := (cookies w)(p := None), root_by_name := t\<rparr>))))"

definition h2esq_free_cookies :: "h2esq_cookies_rb_roots \<Rightarrow> h2esq_cookies_rb_roots res" where
  "h2esq_free_cookies w = free_loop (rb_size (root_by_name w) + 1) w"

definition no_cookies :: h2esq_cookies_rb_roots where
  "no_cookies = \<lparr>cookies = Map.empty, root_by_name = RB_NULL, root_by_idx = RB_NULL\<rparr>"

section \<open>Names and their order\<close>

primrec hash_list :: "byte list \<Rightarrow> nat \<Rightarrow> byte \<times> byte \<times> byte \<times> byte \<Rightarrow> byte \<times> byte \<times> byte \<times> byte" where
  "hash_list [] i h = h"
| "hash_list (x # xs) i h = hash_list xs (i + 1) (cookie_hash_step h i x)"

definition name_sum :: "byte list \<Rightarrow> int" where
  "name_sum s = cookie_hash_sum (hash_list s 0 (0, 0, 0, 0))"

text \<open>The sum of the code does not overflow.\<close>

definition name_fits :: "byte list \<Rightarrow> bool" where
  "name_fits s \<longleftrightarrow> name_sum s < 2 ^ 31"

lemma name_sum_nonneg: "0 \<le> name_sum s"
  by (simp add: name_sum_def cookie_hash_sum_def split: prod.splits)

lemma cookie_hash_fits: "name_fits s \<Longrightarrow> cookie_hash (hash_list s 0 (0, 0, 0, 0)) = Inr (name_sum s)"
  using name_sum_nonneg [of s] by (simp add: cookie_hash_def name_fits_def name_sum_def i32_def)

lemma hash_loop_list: "hash_loop (pre @ s @ post) (length s) (length pre) h = Inr (hash_list s (length pre) h)"
proof (induction s arbitrary: pre h)
  case (Cons x s)
  then show ?case using Cons.IH [of "pre @ [x]"] by (simp add: rd_def nth_append)
qed simp

definition cookie_name :: "byte list \<Rightarrow> byte list" where
  "cookie_name s = takeWhile (\<lambda>c. c \<noteq> 0x3d) s"

definition cookie_value :: "byte list \<Rightarrow> byte list" where
  "cookie_value s = drop (length (cookie_name s) + 1) s"

definition is_cookie :: "byte list \<Rightarrow> bool" where
  "is_cookie s \<longleftrightarrow> length s < COOKIE_STR_MAX \<and> 0x3d \<in> set s \<and> cookie_name s \<noteq> []"

lemma features_list:
  "features_loop (pre @ s) (length s) (length pre) h =
     (let n = takeWhile (\<lambda>c. c \<noteq> 0x3d) s; v = cookie_hash (hash_list n (length pre) h) in
      if 0x3d \<in> set s then if pre @ n \<noteq> [] then bindE v (\<lambda>v. Inr (Some (v, length (pre @ n)))) else Inr None
      else bindE v (\<lambda>_. Inr None))"
proof (induction s arbitrary: pre h)
  case (Cons x s)
  then show ?case using Cons.IH [of "pre @ [x]"] by (auto simp: rd_def nth_append Let_def)
qed simp

lemma features_correct:
  assumes "name_fits (cookie_name s)"
  shows "h2esq_get_cookie_string_features s (length s) =
    Inr (if is_cookie s then Some (name_sum (cookie_name s), length (cookie_name s)) else None)"
proof (cases "length s = 0 \<or> length s \<ge> COOKIE_STR_MAX")
  case True
  then show ?thesis by (auto simp: h2esq_get_cookie_string_features_def is_cookie_def)
next
  case False
  then show ?thesis using features_list [of "[]" s] cookie_hash_fits [OF assms]
    by (auto simp: h2esq_get_cookie_string_features_def is_cookie_def cookie_name_def Let_def)
qed

definition name_key :: "byte list \<Rightarrow> int \<times> nat \<times> byte list" where
  "name_key s = (name_sum s, length s, s)"

definition cookie_key :: "cookie_heap \<Rightarrow> addr \<Rightarrow> int \<times> nat \<times> byte list" where
  "cookie_key h a = name_key (cstr (ck_name (the (h a))))"

definition idx_of :: "cookie_heap \<Rightarrow> addr \<Rightarrow> int" where
  "idx_of h a = ck_idx (the (h a))"

definition cookie_wf :: "nat \<Rightarrow> h2esq_cookie_t \<Rightarrow> bool" where
  "cookie_wf k n \<longleftrightarrow> has_nul (ck_name n) \<and> ck_name_len n = length (cstr (ck_name n)) \<and> ck_name_hash n = name_sum (cstr (ck_name n)) \<and>
     name_fits (cstr (ck_name n)) \<and> 0 \<le> ck_idx n \<and> ck_idx n \<le> int k"

definition kept :: "cookie_heap \<Rightarrow> addr set" where
  "kept h = {a. \<exists>k n. h a = Some n \<and> cookie_wf k n \<and> int k < 2 ^ 31}"

interpretation by_name: rb_query "h2esq_rbtree_cmp_name (name_sum (cstr name)) (length (cstr name)) name h" "cookie_key h" "name_key (cstr name)"
  "if has_nul name \<and> name_fits (cstr name) then kept h else {}" for name h
proof (rule rb_queryI)
  fix a assume "a \<in> (if has_nul name \<and> name_fits (cstr name) then kept h else {})"
  then obtain k n where n: "h a = Some n" "cookie_wf k n" and nm: "has_nul name" "name_fits (cstr name)" by (auto simp: kept_def split: if_splits)
  let ?s = "cstr name" and ?t = "cstr (ck_name n)"
  have key: "cookie_key h a = (name_sum ?t, length ?t, ?t)" using n(1) by (simp add: cookie_key_def name_key_def)
  have w: "wrap32 (name_sum ?s - name_sum ?t) = name_sum ?s - name_sum ?t"
    using nm(2) n(2) name_sum_nonneg [of ?s] name_sum_nonneg [of ?t] by (intro wrap32_id) (auto simp: cookie_wf_def name_fits_def)
  obtain d where d: "strcmp name (ck_name n) = Inr d" "order_of ?s ?t d" using strcmp_order nm(1) n(2) by (auto simp: cookie_wf_def)
  have "h2esq_rbtree_cmp_name (name_sum ?s) (length ?s) name h a =
      Inr (if name_sum ?s \<noteq> name_sum ?t then name_sum ?s - name_sum ?t else if length ?s \<noteq> length ?t then int (length ?s) - int (length ?t) else d)"
    using n w d(1) by (simp add: h2esq_rbtree_cmp_name_def cookie_at_def cookie_wf_def)
  then show "\<exists>d. h2esq_rbtree_cmp_name (name_sum ?s) (length ?s) name h a = Inr d \<and> order_of (name_key ?s) (cookie_key h a) d"
    using d(2) unfolding key by (auto simp: name_key_def order_of_def)
qed

interpretation by_idx: rb_query "h2esq_rbtree_cmp_idx i h" "idx_of h" i "if 0 \<le> i \<and> i < 2 ^ 31 then kept h else {}" for i h
proof (rule rb_queryI)
  fix a assume "a \<in> (if 0 \<le> i \<and> i < 2 ^ 31 then kept h else {})"
  then obtain k n where n: "h a = Some n" "cookie_wf k n" "int k < 2 ^ 31" "0 \<le> i" "i < 2 ^ 31" by (auto simp: kept_def split: if_splits)
  then have "i32 (i - ck_idx n) = Some (i - ck_idx n)" by (simp add: cookie_wf_def i32_def)
  then show "\<exists>d. h2esq_rbtree_cmp_idx i h a = Inr d \<and> order_of i (idx_of h a) d"
    using n(1) by (simp add: h2esq_rbtree_cmp_idx_def cookie_at_def idx_of_def order_of_def)
qed

section \<open>The invariant\<close>

definition cookie_rep :: "nat \<Rightarrow> h2esq_cookies_rb_roots \<Rightarrow> (byte list \<Rightarrow> byte list option) \<Rightarrow> bool" where
  "cookie_rep k w m \<longleftrightarrow> (\<exists>M I. rb_abs (cookie_key (cookies w)) (root_by_name w) M \<and> ran M = dom (cookies w) \<and>
     rb_abs (idx_of (cookies w)) (root_by_idx w) I \<and> ran I \<subseteq> dom (cookies w) \<and>
     m = (\<lambda>s. Option.bind (M (name_key s)) (\<lambda>a. map_option ck_value (cookies w a)))) \<and>
   (\<forall>a n. cookies w a = Some n \<longrightarrow> cookie_wf k n)"

lemma cookie_wf_mono: "cookie_wf k n \<Longrightarrow> k \<le> k' \<Longrightarrow> cookie_wf k' n"
  by (auto simp: cookie_wf_def)

lemma cookie_rep_mono: "cookie_rep k w m \<Longrightarrow> k \<le> k' \<Longrightarrow> cookie_rep k' w m"
  unfolding cookie_rep_def using cookie_wf_mono by blast

lemma max_in: "t \<noteq> RB_NULL \<Longrightarrow> \<exists>b \<in> set (inorder t). RB_MAX t = Some b"
  by (induction t rule: RB_MAX.induct) auto

lemma subtree_in: "set (inorder (subtree_at a t)) \<subseteq> set (inorder t)"
  by (induction t) auto

lemma subtree_found: "a \<in> set (inorder t) \<Longrightarrow> subtree_at a t \<noteq> RB_NULL"
  by (induction t) auto

lemma max_of_idx_in:
  assumes "set (inorder i) \<subseteq> set (inorder t)"
  shows "\<exists>x. max_of_idx t i = Inr x \<and> (\<forall>b. x = Some b \<longrightarrow> b \<in> set (inorder t))"
proof (cases i)
  case (RB_NODE c l a r)
  then have "a \<in> set (inorder t)" using assms by simp
  from max_in [OF subtree_found [OF this]] obtain b where b: "b \<in> set (inorder (subtree_at a t))" "RB_MAX (subtree_at a t) = Some b" ..
  have "b \<in> set (inorder t)" using subtree_in b(1) by (rule subsetD)
  then show ?thesis using RB_NODE b(2) by (simp add: max_of_idx_def)
qed (simp add: max_of_idx_def)

lemma new_cookie_wf:
  assumes "is_cookie s" "name_fits (cookie_name s)" "0 \<notin> set (cookie_name s)"
  shows "cookie_wf 0 (new_cookie s (length s) (name_sum (cookie_name s)) (length (cookie_name s)))"
    "ck_name (new_cookie s (length s) (name_sum (cookie_name s)) (length (cookie_name s))) = cookie_name s @ [0]"
    "ck_value (new_cookie s (length s) (name_sum (cookie_name s)) (length (cookie_name s))) = cookie_value s @ [0]"
proof -
  have "take (length (cookie_name s)) s = cookie_name s" unfolding cookie_name_def by (metis takeWhile_eq_take)
  then show n: "ck_name (new_cookie s (length s) (name_sum (cookie_name s)) (length (cookie_name s))) = cookie_name s @ [0]"
    by (simp add: new_cookie_def)
  show "ck_value (new_cookie s (length s) (name_sum (cookie_name s)) (length (cookie_name s))) = cookie_value s @ [0]"
    by (simp add: new_cookie_def cookie_value_def)
  show "cookie_wf 0 (new_cookie s (length s) (name_sum (cookie_name s)) (length (cookie_name s)))"
    using n assms(2,3) by (simp add: cookie_wf_def new_cookie_def)
qed

lemma key_upd: "a \<noteq> p \<Longrightarrow> cookie_key (h(p := x)) a = cookie_key h a" "a \<noteq> p \<Longrightarrow> idx_of (h(p := x)) a = idx_of h a"
  by (simp_all add: cookie_key_def idx_of_def)

lemma kept_sub: "(\<And>a n. h a = Some n \<Longrightarrow> cookie_wf k n) \<Longrightarrow> int k < 2 ^ 31 \<Longrightarrow> dom h \<subseteq> kept h"
  unfolding kept_def by blast

text \<open>The second half of a save: the index of the new cookie \<open>p\<close>, whose name is in the tree already.\<close>

lemma number_cookie:
  assumes "rb_abs (cookie_key h) t M" "ran M = dom h" "rb_abs (idx_of h0) u I" "ran I \<subseteq> dom h0" "h = h0(p \<mapsto> n)" "h0 p = None"
    and "\<forall>a n. h a = Some n \<longrightarrow> cookie_wf k n" "int k + 1 < 2 ^ 31"
  shows "\<exists>i e u'. bindE (max_of_idx t u) (\<lambda>mx. case mx of None \<Rightarrow> Inr 0 | Some b \<Rightarrow> bindE (cookie_at b h) (\<lambda>m. of_opt (i32 (ck_idx m + 1)))) = Inr i \<and>
    0 \<le> i \<and> i \<le> int k + 1 \<and> RB_INSERT (h2esq_rbtree_cmp_idx i (h(p \<mapsto> n\<lparr>ck_idx := i\<rparr>))) p u = Inr (e, u') \<and>
    (\<exists>I'. rb_abs (idx_of (h(p \<mapsto> n\<lparr>ck_idx := i\<rparr>))) u' I' \<and> ran I' \<subseteq> dom h)"
proof -
  have p: "p \<notin> ran I" using assms(4,6) by auto
  have "set (inorder u) \<subseteq> set (inorder t)" unfolding rb_abs_ran [OF assms(1)] rb_abs_ran [OF assms(3)] assms(2) using assms(4,5) by auto
  then obtain x where x: "max_of_idx t u = Inr x" "\<And>b. x = Some b \<Longrightarrow> b \<in> set (inorder t)" using max_of_idx_in by blast
  obtain i where i: "(case x of None \<Rightarrow> Inr 0 | Some b \<Rightarrow> bindE (cookie_at b h) (\<lambda>m. of_opt (i32 (ck_idx m + 1)))) = Inr i" "0 \<le> i" "i \<le> int k + 1"
  proof (cases x)
    case (Some b)
    then obtain m where "h b = Some m" using x(2) [of b] rb_abs_ran [OF assms(1)] assms(2) by auto
    moreover from this have "0 \<le> ck_idx m" "ck_idx m \<le> int k" using assms(7) by (auto simp: cookie_wf_def)
    ultimately show thesis using that Some assms(8) by (simp add: cookie_at_def i32_def)
  qed simp
  let ?h = "h(p \<mapsto> n\<lparr>ck_idx := i\<rparr>)"
  have "cookie_wf (k + 1) c" if "?h a = Some c" for a c
  proof (cases "a = p")
    case True
    then show ?thesis using that assms(5) assms(7) [rule_format, of p n] i(2,3) by (auto simp: cookie_wf_def)
  next
    case False
    then show ?thesis using that assms(7) [rule_format, of a c] cookie_wf_mono [of k c "k + 1"] by simp
  qed
  then have kept: "dom ?h \<subseteq> kept ?h" using assms(8) by (intro kept_sub [of _ "k + 1"]) auto
  have "rb_abs (idx_of ?h) u I"
  proof (rule rb_abs_key [OF _ assms(3)])
    fix a assume "a \<in> ran I"
    then show "idx_of ?h a = idx_of h0 a" using p assms(5) by (auto simp: idx_of_def)
  qed
  moreover have "ran I \<subseteq> (if 0 \<le> i \<and> i < 2 ^ 31 then kept ?h else {})" using assms(4,5,8) kept i(2,3) by auto
  moreover have "idx_of ?h p = i" by (simp add: idx_of_def)
  ultimately obtain u' where u: "RB_INSERT (h2esq_rbtree_cmp_idx i ?h) p u = Inr (I i, u')" "rb_abs (idx_of ?h) u' (map_op (idx_of ?h) (Insert p) I)"
    using by_idx.insert_abs by blast
  have "ran (map_op (idx_of ?h) (Insert p) I) \<subseteq> insert p (ran I)" by (auto simp: ran_def split: if_splits)
  then have "ran (map_op (idx_of ?h) (Insert p) I) \<subseteq> dom h" using assms(4,5) by auto
  then show ?thesis using x(1) i u by auto
qed

lemma save_rep:
  assumes "cookie_rep k w m" "name_fits (cookie_name s)" "0 \<notin> set (cookie_name s)" "cookies w p = None" "int k + 1 < 2 ^ 31"
  shows "\<exists>r w'. h2esq_save_cookie (Some p) s (length s) w = Inr (r, w') \<and> dom (cookies w') \<subseteq> insert p (dom (cookies w)) \<and>
    cookie_rep (k + 1) w' (if is_cookie s \<and> m (cookie_name s) = None then m(cookie_name s \<mapsto> cookie_value s @ [0]) else m)"
proof (cases "is_cookie s")
  case False
  then show ?thesis using features_correct [OF assms(2)] cookie_rep_mono [OF assms(1), of "k + 1"] by (auto simp: h2esq_save_cookie_def)
next
  case True
  let ?s = "cookie_name s"
  define n where "n = new_cookie s (length s) (name_sum ?s) (length ?s)"
  define h where "h = (cookies w)(p \<mapsto> n)"
  note wf = new_cookie_wf [OF True assms(2,3), folded n_def]
  obtain M I where R: "rb_abs (cookie_key (cookies w)) (root_by_name w) M" "ran M = dom (cookies w)"
      "rb_abs (idx_of (cookies w)) (root_by_idx w) I" "ran I \<subseteq> dom (cookies w)"
      "m = (\<lambda>s. Option.bind (M (name_key s)) (\<lambda>a. map_option ck_value (cookies w a)))" "\<And>a n. cookies w a = Some n \<Longrightarrow> cookie_wf k n"
    using assms(1) by (auto simp: cookie_rep_def)
  have pM: "p \<notin> ran M" using R(2) assms(4) by auto
  have cs: "cstr (ck_name n) = ?s" "has_nul (ck_name n)" using wf(2) assms(3) by (simp_all add: has_nul_def)
  have hwf: "\<And>a c. h a = Some c \<Longrightarrow> cookie_wf k c" using R(6) cookie_wf_mono [OF wf(1), of k] by (auto simp: h_def split: if_splits)
  have kept: "dom h \<subseteq> kept h" using hwf assms(5) by (intro kept_sub [of _ k]) auto
  have "rb_abs (cookie_key h) (root_by_name w) M"
    using pM by (intro rb_abs_key [OF _ R(1)]) (auto simp: h_def cookie_key_def)
  moreover have "ran M \<subseteq> (if has_nul (ck_name n) \<and> name_fits (cstr (ck_name n)) then kept h else {})"
    using R(2) kept cs assms(2) by (auto simp: h_def)
  moreover have "cookie_key h p = name_key (cstr (ck_name n))" by (simp add: cookie_key_def h_def)
  ultimately obtain t where t: "RB_INSERT (h2esq_rbtree_cmp_name (name_sum ?s) (length ?s) (ck_name n) h) p (root_by_name w) = Inr (M (name_key ?s), t)"
      "rb_abs (cookie_key h) t (map_op (cookie_key h) (Insert p) M)"
    using by_name.insert_abs [of h "root_by_name w" M "ck_name n" p] unfolding cs(1) by blast
  have kp: "cookie_key h p = name_key ?s" using cs(1) by (simp add: cookie_key_def h_def)
  show ?thesis
  proof (cases "M (name_key ?s)")
    case (Some a)
    then have tM: "rb_abs (cookie_key h) t M" using t(2) kp by simp
    have "rb_abs (cookie_key (cookies w)) t M" using pM by (intro rb_abs_key [OF _ tM]) (auto simp: h_def cookie_key_def)
    moreover have eq: "h(p := None) = cookies w" using assms(4) by (auto simp: h_def)
    ultimately have "cookie_rep k (w\<lparr>cookies := h(p := None), root_by_name := t\<rparr>) m" using R by (auto simp: cookie_rep_def)
    moreover have "a \<in> ran M" using Some by (rule ranI)
    then have "m ?s \<noteq> None" using Some R(2,5) by auto
    moreover have "h2esq_save_cookie (Some p) s (length s) w = Inr (0, w\<lparr>cookies := h(p := None), root_by_name := t\<rparr>)"
      using features_correct [OF assms(2)] True t(1) Some by (simp add: h2esq_save_cookie_def n_def [symmetric] h_def [symmetric] Let_def)
    ultimately show ?thesis using eq cookie_rep_mono [of k _ m "k + 1"] by auto
  next
    case None
    let ?M = "M(name_key ?s \<mapsto> p)"
    have tM: "rb_abs (cookie_key h) t ?M" using t(2) kp None by simp
    have ran: "ran ?M = dom h" using None R(2) by (auto simp: h_def)
    obtain i e u' I' where i: "bindE (max_of_idx t (root_by_idx w)) (\<lambda>mx. case mx of None \<Rightarrow> Inr 0 | Some b \<Rightarrow> bindE (cookie_at b h) (\<lambda>m. of_opt (i32 (ck_idx m + 1)))) = Inr i"
        "0 \<le> i" "i \<le> int k + 1" "RB_INSERT (h2esq_rbtree_cmp_idx i (h(p \<mapsto> n\<lparr>ck_idx := i\<rparr>))) p (root_by_idx w) = Inr (e, u')"
        "rb_abs (idx_of (h(p \<mapsto> n\<lparr>ck_idx := i\<rparr>))) u' I'" "ran I' \<subseteq> dom h"
      using number_cookie [OF tM ran R(3,4) h_def assms(4) _ assms(5)] hwf by blast
    let ?h = "h(p \<mapsto> n\<lparr>ck_idx := i\<rparr>)"
    let ?w = "w\<lparr>cookies := ?h, root_by_name := t, root_by_idx := u'\<rparr>"
    have "rb_abs (cookie_key ?h) t ?M" by (rule rb_abs_key [OF _ tM]) (simp add: cookie_key_def h_def)
    moreover have dom: "dom ?h = dom h" by (auto simp: h_def)
    moreover have "cookie_wf (k + 1) c" if "?h a = Some c" for a c
      using that hwf [of a c] cookie_wf_mono [of k c "k + 1"] wf(1) i(2,3) by (auto simp: cookie_wf_def split: if_splits)
    moreover have "m(?s \<mapsto> cookie_value s @ [0]) = (\<lambda>x. Option.bind (?M (name_key x)) (\<lambda>a. map_option ck_value (?h a)))"
    proof
      fix x
      show "(m(?s \<mapsto> cookie_value s @ [0])) x = Option.bind (?M (name_key x)) (\<lambda>a. map_option ck_value (?h a))"
      proof (cases "x = ?s")
        case True
        then show ?thesis using wf(3) by simp
      next
        case False
        then have "name_key x \<noteq> name_key ?s" by (simp add: name_key_def)
        moreover have "map_option ck_value (?h a) = map_option ck_value (cookies w a)" if "M (name_key x) = Some a" for a
          using that pM by (auto simp: h_def intro: ranI)
        ultimately show ?thesis using False R(5) by (cases "M (name_key x)") auto
      qed
    qed
    ultimately have rep: "cookie_rep (k + 1) ?w (m(?s \<mapsto> cookie_value s @ [0]))"
      unfolding cookie_rep_def using i(5,6) ran by (intro conjI exI [of _ ?M] exI [of _ I']) (simp_all del: fun_upd_apply)
    have run: "h2esq_save_cookie (Some p) s (length s) w = Inr (0, ?w)"
    proof -
      obtain mx where "max_of_idx t (root_by_idx w) = Inr mx"
          "(case mx of None \<Rightarrow> Inr 0 | Some b \<Rightarrow> bindE (cookie_at b h) (\<lambda>m. of_opt (i32 (ck_idx m + 1)))) = Inr i"
        using bindE_InrD [OF i(1)] by blast
      then show ?thesis using features_correct [OF assms(2)] True t(1) None i(4)
        by (cases mx) (simp_all add: h2esq_save_cookie_def n_def [symmetric] h_def [symmetric] Let_def)
    qed
    moreover have "m ?s = None" using None R(5) by simp
    ultimately show ?thesis using rep True dom by (auto simp: h_def)
  qed
qed

lemma get_rep:
  assumes "cookie_rep k w m" "int k < 2 ^ 31" "has_nul name" "name_fits (cstr name)" "cstr name \<noteq> []" "length (cstr name) < COOKIE_NAME_MAX"
  shows "h2esq_get_cookie_value_by_name name w = Inr (m (cstr name))"
proof -
  obtain M where R: "rb_abs (cookie_key (cookies w)) (root_by_name w) M" "ran M = dom (cookies w)"
      "m = (\<lambda>s. Option.bind (M (name_key s)) (\<lambda>a. map_option ck_value (cookies w a)))" "\<And>a n. cookies w a = Some n \<Longrightarrow> cookie_wf k n"
    using assms(1) by (auto simp: cookie_rep_def)
  have "ran M \<subseteq> (if has_nul name \<and> name_fits (cstr name) then kept (cookies w) else {})"
    using R(2) kept_sub [OF R(4) assms(2)] assms(3,4) by simp
  from by_name.find_abs [OF R(1) this]
  have f: "RB_FIND (h2esq_rbtree_cmp_name (name_sum (cstr name)) (length (cstr name)) name (cookies w)) (root_by_name w) = Inr (M (name_key (cstr name)))" .
  obtain post where "name = cstr name @ 0 # post" using has_nul_split [OF assms(3)] by blast
  then have "hash_loop name (length (cstr name)) 0 (0, 0, 0, 0) = Inr (hash_list (cstr name) 0 (0, 0, 0, 0))"
    using hash_loop_list [of "[]" "cstr name" "0 # post"] by simp
  then have hash: "h2esq_get_cookie_string_hash name (length (cstr name)) = Inr (name_sum (cstr name))"
    using cookie_hash_fits [OF assms(4)] by (simp add: h2esq_get_cookie_string_hash_def)
  show ?thesis
  proof (cases "M (name_key (cstr name))")
    case None
    then show ?thesis using f hash strnlen_cstr [OF assms(3), of COOKIE_NAME_MAX] assms(5,6) R(3) by (simp add: h2esq_get_cookie_value_by_name_def)
  next
    case (Some a)
    then obtain n where "cookies w a = Some n" using R(2) ranI [of M _ a] by blast
    then show ?thesis using Some f hash strnlen_cstr [OF assms(3), of COOKIE_NAME_MAX] assms(5,6) R(3)
      by (simp add: h2esq_get_cookie_value_by_name_def cookie_at_def)
  qed
qed

lemma free_all:
  assumes "rb_abs (cookie_key (cookies w)) (root_by_name w) M" "ran M = dom (cookies w)" "card (dom (cookies w)) < fuel"
  shows "\<exists>w'. free_loop fuel w = Inr w' \<and> cookies w' = Map.empty"
  using assms
proof (induction fuel arbitrary: w M)
  case (Suc fuel)
  note ran = rb_abs_ran [OF Suc.prems(1)]
  show ?case
  proof (cases "inorder (root_by_name w)")
    case Nil
    then have "dom (cookies w) = {}" using ran Suc.prems(2) by simp
    then show ?thesis using Nil min_front [of "root_by_name w"] by simp
  next
    case (Cons p xs)
    then have p: "p \<in> ran M" using ran by auto
    let ?k = "cookie_key (cookies w) p"
    have k: "M ?k = Some p" using p Suc.prems(1) unfolding ran [symmetric] rb_abs_def by blast
    have uniq: "?k = j" if "M j = Some p" for j using that Suc.prems(1) unfolding rb_abs_def by blast
    obtain t where t: "RB_REMOVE p (root_by_name w) = Some t" "rb_abs (cookie_key (cookies w)) t (M(?k := None))"
      using remove_abs [OF Suc.prems(1) k] by blast
    obtain n where n: "cookies w p = Some n" using p Suc.prems(2) by blast
    let ?w = "w\<lparr>cookies := (cookies w)(p := None), root_by_name := t\<rparr>"
    have ne: "a \<noteq> p" if "a \<in> ran (M(?k := None))" for a using that uniq by (auto simp: ran_def simp del: split_paired_Ex split: if_splits)
    have sub: "ran (M(?k := None)) = ran M - {p}"
    proof
      have "ran (M(?k := None)) \<subseteq> ran M" by (auto simp: ran_def split: if_splits)
      then show "ran (M(?k := None)) \<subseteq> ran M - {p}" using ne by blast
      show "ran M - {p} \<subseteq> ran (M(?k := None))"
      proof
        fix x assume "x \<in> ran M - {p}"
        then obtain j where "M j = Some x" "x \<noteq> p" unfolding ran_def by blast
        then have "(M(?k := None)) j = Some x" using k by auto
        then show "x \<in> ran (M(?k := None))" by (rule ranI)
      qed
    qed
    have "rb_abs (cookie_key (cookies ?w)) (root_by_name ?w) (M(?k := None))" using ne rb_abs_key [OF _ t(2), of "cookie_key (cookies ?w)"] by (simp add: cookie_key_def)
    moreover have dom: "dom (cookies ?w) = dom (cookies w) - {p}" by auto
    then have "ran (M(?k := None)) = dom (cookies ?w)" using sub Suc.prems(2) by simp
    moreover have "finite (dom (cookies w))" using ran Suc.prems(2) by (metis List.finite_set)
    then have "card (dom (cookies ?w)) < card (dom (cookies w))" unfolding dom using n by (intro card_Diff1_less) auto
    then have "card (dom (cookies ?w)) < fuel" using Suc.prems(3) by linarith
    ultimately obtain w' where "free_loop fuel ?w = Inr w'" "cookies w' = Map.empty" using Suc.IH [of ?w "M(?k := None)"] by blast
    moreover have "RB_MIN (root_by_name w) = Some p" using Cons min_front [of "root_by_name w"] by simp
    ultimately show ?thesis using t(1) n by (simp add: cookie_at_def)
  qed
qed simp

lemma free_rep:
  assumes "cookie_rep k w m"
  shows "\<exists>w'. h2esq_free_cookies w = Inr w' \<and> cookies w' = Map.empty"
proof -
  obtain M where R: "rb_abs (cookie_key (cookies w)) (root_by_name w) M" "ran M = dom (cookies w)" using assms by (auto simp: cookie_rep_def)
  have "card (dom (cookies w)) \<le> rb_size (root_by_name w)" using rb_abs_ran [OF R(1)] R(2) card_length [of "inorder (root_by_name w)"] by (simp add: rb_size_inorder)
  then show ?thesis unfolding h2esq_free_cookies_def by (intro free_all [OF R]) simp
qed

section \<open>Properties\<close>

primrec save_all :: "(addr \<times> byte list) list \<Rightarrow> h2esq_cookies_rb_roots \<Rightarrow> h2esq_cookies_rb_roots res" where
  "save_all [] w = Inr w"
| "save_all (x # xs) w = bindE (h2esq_save_cookie (Some (fst x)) (snd x) (length (snd x)) w) (\<lambda>(r, w). save_all xs w)"

primrec first_value :: "byte list list \<Rightarrow> byte list \<Rightarrow> byte list option" where
  "first_value [] n = None"
| "first_value (s # ss) n = (if is_cookie s \<and> cookie_name s = n then Some (cookie_value s @ [0]) else first_value ss n)"

lemma save_all_rep:
  assumes "cookie_rep k w m" "\<forall>s \<in> set (map snd xs). name_fits (cookie_name s) \<and> 0 \<notin> set (cookie_name s)"
    and "distinct (map fst xs)" "set (map fst xs) \<inter> dom (cookies w) = {}" "int k + int (length xs) < 2 ^ 31"
  shows "\<exists>w'. save_all xs w = Inr w' \<and>
    cookie_rep (k + length xs) w' (\<lambda>n. case m n of Some v \<Rightarrow> Some v | None \<Rightarrow> first_value (map snd xs) n)"
  using assms
proof (induction xs arbitrary: w m k)
  case Nil
  have m: "(\<lambda>n. case m n of Some v \<Rightarrow> Some v | None \<Rightarrow> first_value (map snd []) n) = m" by (auto simp: fun_eq_iff split: option.splits)
  show ?case unfolding m using Nil.prems(1) by simp
next
  case (Cons x xs)
  obtain p s where x: "x = (p, s)" by (cases x)
  let ?m = "if is_cookie s \<and> m (cookie_name s) = None then m(cookie_name s \<mapsto> cookie_value s @ [0]) else m"
  have np: "cookies w p = None" using Cons.prems(4) x by (auto simp: dom_def)
  have ok: "name_fits (cookie_name s)" "0 \<notin> set (cookie_name s)" "int k + 1 < 2 ^ 31" using Cons.prems(2,5) x by auto
  obtain r w' where w': "h2esq_save_cookie (Some p) s (length s) w = Inr (r, w')" "dom (cookies w') \<subseteq> insert p (dom (cookies w))" "cookie_rep (k + 1) w' ?m"
    using save_rep [OF Cons.prems(1) ok(1,2) np ok(3)] by blast
  have "set (map fst xs) \<inter> dom (cookies w') = {}" using w'(2) Cons.prems(3,4) x by auto
  then obtain w'' where w'': "save_all xs w' = Inr w''" "cookie_rep (k + 1 + length xs) w'' (\<lambda>n. case ?m n of Some v \<Rightarrow> Some v | None \<Rightarrow> first_value (map snd xs) n)"
    using Cons.IH [OF w'(3)] Cons.prems by auto
  have "(\<lambda>n. case ?m n of Some v \<Rightarrow> Some v | None \<Rightarrow> first_value (map snd xs) n) =
      (\<lambda>n. case m n of Some v \<Rightarrow> Some v | None \<Rightarrow> first_value (map snd (x # xs)) n)"
    using x by (intro ext) (auto split: option.splits)
  then show ?case using w'' w'(1) x by (auto simp: add.assoc)
qed

lemma no_cookies_rep: "cookie_rep 0 no_cookies Map.empty"
  unfolding cookie_rep_def no_cookies_def by (auto intro!: exI [of _ Map.empty])

text \<open>
  C23.  The cookies of a request are a map: after any sequence of fewer than \<open>2 ^ 31\<close> cookie strings, malformed ones included, whose
  names have no NUL and a hash sum that fits an int, a search for a name of 1 to 1023 bytes whose hash sum fits an int gives
  the value of the first well-formed cookie of that name, or nothing, and freeing the cookies ends and leaves none allocated.  (The
  hash sum of some short names does not fit, lemma \<open>short_name_overflows\<close>.)
\<close>

theorem cookies_by_name:
  assumes "\<forall>s \<in> set (map snd xs). name_fits (cookie_name s) \<and> 0 \<notin> set (cookie_name s)" "distinct (map fst xs)" "int (length xs) < 2 ^ 31"
  shows "\<exists>w. save_all xs no_cookies = Inr w \<and>
    (\<forall>name. has_nul name \<longrightarrow> name_fits (cstr name) \<longrightarrow> cstr name \<noteq> [] \<longrightarrow> length (cstr name) < COOKIE_NAME_MAX \<longrightarrow>
       h2esq_get_cookie_value_by_name name w = Inr (first_value (map snd xs) (cstr name))) \<and>
    (\<exists>w'. h2esq_free_cookies w = Inr w' \<and> cookies w' = Map.empty)"
proof -
  have "set (map fst xs) \<inter> dom (cookies no_cookies) = {}" by (simp add: no_cookies_def)
  then obtain w where w: "save_all xs no_cookies = Inr w" "cookie_rep (length xs) w (first_value (map snd xs))"
    using save_all_rep [OF no_cookies_rep assms(1,2)] assms(3) by auto
  then show ?thesis using get_rep [OF w(2)] free_rep [OF w(2)] assms(3) by blast
qed

definition ex_cookies :: "(addr \<times> byte list) list" where
  "ex_cookies = [(0, bytes ''a=1''), (1, bytes ''b=2''), (2, bytes ''a=3''), (3, bytes ''c'')]"

theorem cookies_by_name_witness:
  "\<exists>w. save_all ex_cookies no_cookies = Inr w \<and> h2esq_get_cookie_value_by_name (bytes ''a'' @ [0]) w = Inr (Some (bytes ''1'' @ [0]))"
proof -
  let ?n = "bytes ''a'' @ [0]"
  have ok: "\<forall>s \<in> set (map snd ex_cookies). name_fits (cookie_name s) \<and> 0 \<notin> set (cookie_name s)" "distinct (map fst ex_cookies)"
    "int (length ex_cookies) < 2 ^ 31" by code_simp+
  have n: "has_nul ?n" "name_fits (cstr ?n)" "cstr ?n \<noteq> []" "length (cstr ?n) < COOKIE_NAME_MAX" by code_simp+
  have v: "first_value (map snd ex_cookies) (cstr ?n) = Some (bytes ''1'' @ [0])" by code_simp
  from cookies_by_name [OF ok] obtain w where "save_all ex_cookies no_cookies = Inr w"
    "h2esq_get_cookie_value_by_name ?n w = Inr (first_value (map snd ex_cookies) (cstr ?n))" using n by blast
  then show ?thesis unfolding v by blast
qed

text \<open>The hash sum of this name is 2152218844.\<close>

lemma short_name_overflows:
  "name_sum (bytes ''xxdd7'') = 2152218844" "bindE (save_all [(0, bytes ''xxdd7=1'')] no_cookies) (\<lambda>w. Inr ()) = Inl Fault"
  by code_simp+

text \<open>With three cookies whose hashes grow, the third one gets the index of the second and is not found by any index.\<close>

definition ex_three :: "(addr \<times> byte list) list" where
  "ex_three = [(0, bytes ''aa=1''), (1, bytes ''ab=2''), (2, bytes ''ac=3'')]"

lemma third_cookie_has_no_index:
  "bindE (save_all ex_three no_cookies) (\<lambda>w. Inr (map (\<lambda>i. h2esq_get_cookie_value_by_idx i w) [0, 1, 2], h2esq_get_cookie_value_by_name (bytes ''ac'' @ [0]) w)) =
   Inr ([Inr (Some (bytes ''aa'' @ [0], bytes ''1'' @ [0])), Inr (Some (bytes ''ab'' @ [0], bytes ''2'' @ [0])), Inr None], Inr (Some (bytes ''3'' @ [0])))"
  by code_simp

end
