(* ===== verification/Spec2Isabelle.thy ===== *)
theory Spec2Isabelle
  imports Esq_Slash Esq_Path Esq_Scan Esq_Url Esq_Bloom Esq_Hmt_Match Esq_Reach Esq_RangeInv Esq_DashboardSpec Esq_FileFilter Esq_PostData Esq_Cookie
begin

text \<open>
  Verification of esq, a server that runs sessions, small state machines bound to sockets, timers or coroutines, on worker
  threads.  A session gives the engine \<^emph>\<open>actions\<close> (wait for a descriptor, sleep, take a lock, end) and the engine gives the session
  \<^emph>\<open>events\<close>.  Around the engine stand the services that its modules use: range maps that say which server keeps which
  part of a hash space, a dashboard of running tasks, a cache of files, and parsers for what clients send.

  \<^bold>\<open>Foundations.\<close>
  \<^item> \<^verbatim>\<open>Esq_Prelude\<close>: C buffers with checked access, NUL-terminated strings, classification tables (locale \<open>byte_table\<close>), 32-bit arithmetic.
  \<^item> \<^verbatim>\<open>Esq_LinkList\<close> (\<^verbatim>\<open>public/esqll.h\<close>): results that may stop, heaps, the link-list macros; the locale \<open>link_fields\<close> shows once
    that they implement lists, and is interpreted on the links of sessions and of cached files.
  \<^item> \<^verbatim>\<open>Esq_Tree\<close> (\<^verbatim>\<open>internal/tree.h\<close>): the red-black tree macros; they refine a finite map and keep the tree balanced.  The
    locales \<open>rb_query\<close> and \<open>rb_client\<close> state what a comparison must satisfy; the range map, the dashboard, the file cache and the cookies interpret
    them on their own comparisons.
  \<^item> \<^verbatim>\<open>Esq_Compare\<close>: \<^verbatim>\<open>memcmp\<close>, \<^verbatim>\<open>strcmp\<close>, copies, and the orders they decide.

  \<^bold>\<open>The session engine\<close> (\<^verbatim>\<open>session/\<close>).
  \<^item> \<^verbatim>\<open>Esq_Session\<close> (\<^verbatim>\<open>internal.h\<close>, \<^verbatim>\<open>core_ctx.h\<close>, \<^verbatim>\<open>session.c\<close>, \<^verbatim>\<open>timing.c\<close>, \<^verbatim>\<open>os_events.c\<close>): the record of a session, the lists of a worker,
    timing lists and requests to the kernel; the state of the program is the record \<open>world\<close>.
  \<^item> \<^verbatim>\<open>Esq_HashLock\<close> (\<^verbatim>\<open>hash_lock.c\<close>), \<^verbatim>\<open>Esq_Pt\<close> (\<^verbatim>\<open>pt_of_*.c\<close>, one definition for each resume point of a protothread),
    \<^verbatim>\<open>Esq_Chassis\<close> (\<^verbatim>\<open>chassis.c\<close>, \<^verbatim>\<open>action.c\<close>), \<^verbatim>\<open>Esq_Worker\<close> (\<^verbatim>\<open>worker.c\<close>).
  \<^item> \<^verbatim>\<open>Esq_Lists\<close>, \<^verbatim>\<open>Esq_Invariant\<close>, \<^verbatim>\<open>Esq_Safety\<close>, \<^verbatim>\<open>Esq_Action\<close>, \<^verbatim>\<open>Esq_Engine\<close>, \<^verbatim>\<open>Esq_Loop\<close>, \<^verbatim>\<open>Esq_Reach\<close>: the invariant.  A session is
    in exactly the list that its resume point names; actions, interface calls and passes of the worker loop in any order keep it so, and
    none follows a dangling pointer.  The timer scan returns and takes exactly the sessions that have expired by the comparison of the
    code, which is the deadline for timeouts in whole seconds.  The reachable states cover the sessions on sockets and those without a descriptor, their
    children and the release of finished children (\<^verbatim>\<open>esq_execute_session_done_cb\<close>); coroutine and hash-lock sessions are modelled but
    outside the invariant, and actions that ask for a hash lock are no steps.  The session-done callbacks of \<^verbatim>\<open>chassis.c\<close> and \<^verbatim>\<open>worker.c\<close> are
    recorded in the state and have no further effect: they are taken not to call the engine back.

  \<^bold>\<open>Services.\<close>
  \<^item> \<^verbatim>\<open>Esq_RangeMap\<close> (\<^verbatim>\<open>src/range-map.c\<close>), \<^verbatim>\<open>Esq_RangeMatch\<close>, \<^verbatim>\<open>Esq_RangeInv\<close>: changes, searches and the final release return in
    every reachable state, and after a flush a search gives exactly the nodes whose prefix starts the hash, the most specific first.
  \<^item> \<^verbatim>\<open>Esq_Dashboard\<close>, \<^verbatim>\<open>Esq_DashboardSpec\<close> (\<^verbatim>\<open>src/dashboard.c\<close>): any sequence of calls that print whole texts gives the replies of a map
    from identifiers to operation codes and texts, and every other call returns as well; stopping ends and frees every item.
  \<^item> \<^verbatim>\<open>Esq_FileLru\<close>, \<^verbatim>\<open>Esq_FileLruInv\<close>, \<^verbatim>\<open>Esq_FileLruReach\<close> (\<^verbatim>\<open>utils/file-lru.c\<close>): the cache as a system of interleaved operations; no
    borrowed file is freed or changed, none is lost, the size limit is kept.  \<^verbatim>\<open>Esq_FileEnum\<close> (\<^verbatim>\<open>libs/file-enumerators\<close>) walks a directory
    tree in one buffer (locale \<open>visitor\<close>), and \<^verbatim>\<open>Esq_FileFilter\<close> composes the walk, the Bloom filter and the cache: a file that
    the walk finds is not refused.

  \<^bold>\<open>Parsers\<close> (\<^verbatim>\<open>libs/\<close>).
  \<^item> \<^verbatim>\<open>Esq_Percent\<close>, \<^verbatim>\<open>Esq_Slash\<close>, \<^verbatim>\<open>Esq_Utf8\<close>, \<^verbatim>\<open>Esq_Path\<close>, \<^verbatim>\<open>Esq_Scan\<close>, \<^verbatim>\<open>Esq_Url\<close>, \<^verbatim>\<open>Esq_PostData\<close>: each routine stays within its buffer and agrees with
    a reference definition on lists, or reads back what a printer wrote.
  \<^item> \<^verbatim>\<open>Esq_Cookie\<close> (\<^verbatim>\<open>nghttp2_wrapper/cookie.c\<close>): the cookies of a request are a map by name, and freeing them leaves none; by index some
    are not found.
  \<^item> \<^verbatim>\<open>Esq_Bloom\<close>: the filter of paths has no false negatives (locale \<open>approximate_set\<close>).
  \<^item> \<^verbatim>\<open>Esq_Hmt\<close>, \<^verbatim>\<open>Esq_Hmt_Add\<close>, \<^verbatim>\<open>Esq_Hmt_Match\<close>: patterns added in any order and compiled are matched by the longest one.

  \<^bold>\<open>Conventions.\<close>  Code that may stop returns \<open>stop + 'a\<close>: \<open>Exit\<close> for a call of \<^verbatim>\<open>exit\<close>, \<open>Fault\<close> for a bad access or a signed overflow,
  \<open>Fuel\<close> for a model loop out of fuel; buffer routines return \<open>option\<close>.  Where the code itself tests for wrap-around, the sum wraps (\<open>wrap32\<close>).
  The library, the kernel, the disk and callbacks of the application are parameters, except for the session-done callbacks (above).  Fuel is chosen so that it cannot run out, and the theorems
  say so: three nested actions (\<open>TAKE_ACTION_FUEL\<close>), more steps than sessions (\<open>enough\<close>), at least as many as nodes of the range maps, the size of the
  tree in the dashboard and in the cache, the longest path in the enumeration, the length of the buffer in the form parser, the number of
  cookies.

  \<^bold>\<open>Not modelled.\<close>  Locks: each critical section is one step.  Signals and wake-ups between threads, a full submission queue of the kernel, debug
  fields, printing, and the callbacks of the configuration script, which unpack arguments.  The databases (\<^verbatim>\<open>bee/\<close>), the HTTP/2 server
  (the rest of \<^verbatim>\<open>nghttp2_wrapper/\<close>), coroutine wrappers (\<^verbatim>\<open>mco/\<close>), modules and the start-up code are calls of external libraries and of the operating system
  around the parts above.
\<close>

end
